(* ===== verification/Xv6_Prelude.thy ===== *)
theory Xv6_Prelude
  imports Main "HOL-Library.Word"
begin

unbundle bit_operations_syntax

section \<open>Prelude: outcomes of kernel code, bytes, words and regions\<close>

text \<open>
  This theory holds what every component of the development shares.

  \<^item> The machine types of \<^verbatim>\<open>kernel/types.h\<close> as words, and C's \<^verbatim>\<open>int\<close> as a mathematical
    integer (with the wrap-around written out where the source can overflow).
  \<^item> The outcome type \<open>kres\<close>: a kernel function returns (\<open>Ok\<close>), calls \<^verbatim>\<open>panic\<close> with a message
    (\<open>Panic\<close>), or goes to sleep and cannot continue until another thread of control acts
    (\<open>Blocked\<close>). Sequencing is \<open>kbind\<close>.
  \<^item> Byte-addressed memory, little-endian loads and stores, and address regions modulo
    \<open>2 ^ 64\<close>.
  \<^item> The named collections the component proofs use.
\<close>

named_theorems k_simps \<open>unfolding of the model's operations, used by the component proofs\<close>
named_theorems region_simps \<open>facts about address regions\<close>

subsection \<open>Machine types\<close>

type_synonym u8 = "8 word"
type_synonym u16 = "16 word"
type_synonym u32 = "32 word"
type_synonym u64 = "64 word"
type_synonym addr = "64 word"
type_synonym memory = "addr \<Rightarrow> u8"

subsection \<open>Outcomes of kernel code\<close>

datatype 'a kres = Ok 'a | Panic string | Blocked

primrec kbind :: "'a kres \<Rightarrow> ('a \<Rightarrow> 'b kres) \<Rightarrow> 'b kres" where
  "kbind (Ok x) f = f x"
| "kbind (Panic msg) f = Panic msg"
| "kbind Blocked f = Blocked"

definition the_Ok :: "'a kres \<Rightarrow> 'a" where
  "the_Ok r = (case r of Ok x \<Rightarrow> x)"

lemma the_Ok_Ok [simp]: "the_Ok (Ok x) = x"
  by (simp add: the_Ok_def)

definition kguard :: "bool \<Rightarrow> string \<Rightarrow> unit kres" where
  "kguard b msg = (if b then Ok () else Panic msg)"

lemma kbind_cong [fundef_cong]:
  "m = m' \<Longrightarrow> (\<And>x. m' = Ok x \<Longrightarrow> f x = f' x) \<Longrightarrow> kbind m f = kbind m' f'"
  by (cases m') auto

lemma kbind_eq_Ok [simp]: "kbind m f = Ok y \<longleftrightarrow> (\<exists>x. m = Ok x \<and> f x = Ok y)"
  by (cases m) auto

lemma Ok_eq_kbind: "Ok y = kbind m f \<longleftrightarrow> (\<exists>x. m = Ok x \<and> f x = Ok y)"
  by (cases m) auto

lemma kbind_assoc: "kbind (kbind m f) g = kbind m (\<lambda>x. kbind (f x) g)"
  by (cases m) auto

lemma kbind_Ok_right [simp]: "kbind m Ok = m"
  by (cases m) auto

lemma kguard_eq_Ok [simp]: "kguard b msg = Ok u \<longleftrightarrow> b"
  by (simp add: kguard_def)

lemma kguard_True [simp]: "b \<Longrightarrow> kbind (kguard b msg) f = f ()"
  by (simp add: kguard_def)

lemma kguard_False [simp]: "\<not> b \<Longrightarrow> kbind (kguard b msg) f = Panic msg"
  by (simp add: kguard_def)

text \<open>
  A total-correctness judgement for state-passing kernel functions: from every state that
  satisfies \<open>P\<close> the function returns (it neither panics nor sleeps) and the result satisfies
  \<open>Q\<close>.
\<close>

definition runs_ok :: "('s \<Rightarrow> ('a \<times> 's) kres) \<Rightarrow> 's \<Rightarrow> ('a \<Rightarrow> 's \<Rightarrow> bool) \<Rightarrow> bool" where
  "runs_ok m s Q \<longleftrightarrow> (\<exists>r s'. m s = Ok (r, s') \<and> Q r s')"

lemma runs_okI [intro?]: "m s = Ok (r, s') \<Longrightarrow> Q r s' \<Longrightarrow> runs_ok m s Q"
  by (auto simp: runs_ok_def)

lemma runs_okE:
  assumes "runs_ok m s Q"
  obtains r s' where "m s = Ok (r, s')" and "Q r s'"
  using assms by (auto simp: runs_ok_def)

lemma runs_ok_mono: "runs_ok m s Q \<Longrightarrow> (\<And>r s'. Q r s' \<Longrightarrow> R r s') \<Longrightarrow> runs_ok m s R"
  by (auto simp: runs_ok_def)

subsection \<open>Little-endian encoding\<close>

primrec le_bytes :: "nat \<Rightarrow> 'a::len word \<Rightarrow> u8 list" where
  "le_bytes 0 w = []"
| "le_bytes (Suc n) w = ucast w # le_bytes n (drop_bit 8 w)"

primrec le_word :: "u8 list \<Rightarrow> 'a::len word" where
  "le_word [] = 0"
| "le_word (b # bs) = ucast b OR push_bit 8 (le_word bs)"

lemma length_le_bytes [simp]: "length (le_bytes n w) = n"
  by (induction n arbitrary: w) auto

lemma le_word_le_bytes: "le_word (le_bytes n w) = take_bit (8 * n) w"
proof (induction n arbitrary: w)
  case 0
  then show ?case by simp
next
  case (Suc n)
  show ?case
    by (rule bit_word_eqI) (auto simp: Suc bit_simps)
qed

lemma le_word_le_bytes_full:
  fixes w :: "'a::len word"
  assumes "8 * n = LENGTH('a)"
  shows "le_word (le_bytes n w) = w"
  using assms by (simp add: le_word_le_bytes take_bit_word_eq_self)

lemma le_bytes_zero [simp]: "le_bytes n 0 = replicate n 0"
  by (induction n) auto


lemma le_word_replicate_zero [simp]: "le_word (replicate n 0) = 0"
  by (induction n) auto

subsection \<open>Words as natural numbers\<close>

lemma unat_of_nat_small:
  "n < 2 ^ LENGTH('a::len) \<Longrightarrow> unat (of_nat n :: 'a word) = n"
  by (simp add: unat_of_nat)

lemma unat64_less: "unat (a :: 64 word) < 2 ^ 64"
  using unsigned_less [of a, where ?'a = nat] by simp

lemma unat_add_small:
  fixes a b :: "'a::len word"
  assumes "unat a + unat b < 2 ^ LENGTH('a)"
  shows "unat (a + b) = unat a + unat b"
  using assms by (simp add: unat_word_ariths)

lemma unat_add_of_nat:
  fixes a :: "64 word"
  assumes "unat a + k < 2 ^ 64"
  shows "unat (a + of_nat k) = unat a + k"
proof -
  have "unat (of_nat k :: 64 word) = k"
    using assms by (intro unat_of_nat_small) simp
  then show ?thesis using assms by (subst unat_add_small) simp_all
qed

lemma word_eq_unatI: "unat a = unat b \<Longrightarrow> a = b"
  by (rule unsigned_word_eqI)

text \<open>Multiples of \<open>k\<close> that are less than \<open>k\<close> apart are equal.\<close>

lemma aligned_close_eq:
  fixes a b k :: nat
  assumes "a mod k = 0" "b mod k = 0" "b \<le> a" "a < b + k"
  shows "a = b"
proof -
  from assms(1) have "k dvd a" by (simp add: mod_eq_0_iff_dvd)
  then obtain x where x: "a = k * x" by (rule dvdE)
  from assms(2) have "k dvd b" by (simp add: mod_eq_0_iff_dvd)
  then obtain y where y: "b = k * y" by (rule dvdE)
  note xy = x y
  have k: "0 < k" using assms by (cases k) auto
  have "k * x < k * Suc y" using assms(4) xy by simp
  then have "x < Suc y" by (simp only: mult_less_cancel1)
  then have "x \<le> y" by simp
  moreover have "y \<le> x" using assms(3) xy k by simp
  ultimately show ?thesis using xy by simp
qed

lemma aligned_step_le:
  fixes a b k :: nat
  assumes "a mod k = 0" "b mod k = 0" "b < a"
  shows "b + k \<le> a"
  using aligned_close_eq [of a k b] assms by (metis less_irrefl less_imp_le not_le)

subsection \<open>Address regions\<close>

text \<open>
  \<open>in_region a n x\<close>: the address \<open>x\<close> is one of the \<open>n\<close> bytes that start at \<open>a\<close>. Written with
  word subtraction, so that it is meaningful for every \<open>a\<close>, also one whose region wraps at
  \<open>2 ^ 64\<close>.
\<close>

definition in_region :: "addr \<Rightarrow> nat \<Rightarrow> addr \<Rightarrow> bool" where
  "in_region a n x \<longleftrightarrow> unat (x - a) < n"

lemma in_region_self [region_simps]: "in_region a n a \<longleftrightarrow> 0 < n"
  by (simp add: in_region_def)

lemma in_region_zero [simp]: "\<not> in_region a 0 x"
  by (simp add: in_region_def)

lemma in_region_offset [region_simps]:
  "k < 2 ^ 64 \<Longrightarrow> in_region a n (a + of_nat k) \<longleftrightarrow> k < n"
  by (simp add: in_region_def unat_of_nat_small)

lemma in_regionE:
  assumes "in_region a n x"
  obtains k where "k < n" and "x = a + of_nat k" and "k < 2 ^ 64"
proof
  show "unat (x - a) < n" using assms by (simp add: in_region_def)
  show "x = a + of_nat (unat (x - a))" by simp
  show "unat (x - a) < 2 ^ 64" by (rule unat64_less)
qed

text \<open>An aligned region lies inside one aligned cell: its addresses share their quotient.\<close>

lemma in_region_div:
  assumes al: "unat a mod sz = 0" and dv: "sz dvd 2 ^ 64" and x: "in_region a sz x"
  shows "unat x div sz = unat a div sz"
proof -
  from al obtain k where k: "unat a = sz * k" by (auto simp: mod_eq_0_iff_dvd)
  from dv obtain q where q: "2 ^ 64 = sz * q" by (rule dvdE)
  from x obtain j where j: "j < sz" and xj: "x = a + of_nat j" by (rule in_regionE)
  have sz: "0 < sz" using j by simp
  have "sz * k < sz * q" using unat64_less [of a] k q by simp
  then have "Suc k \<le> q" using sz by simp
  then have "sz * Suc k \<le> sz * q" by (rule mult_le_mono2)
  then have lt: "sz * k + j < 2 ^ 64" using j q by simp
  have "unat x = sz * k + j"
    using lt k unat_add_of_nat [of a j] xj by simp
  then show ?thesis using k j by simp
qed

lemma in_region_aligned_unique:
  assumes "unat a mod sz = 0" "unat b mod sz = 0" "sz dvd 2 ^ 64"
    and "in_region a sz x" "in_region b sz x"
  shows "a = b"
proof -
  have "unat a div sz = unat b div sz"
    using in_region_div [OF assms(1,3,4)] in_region_div [OF assms(2,3,5)] by simp
  then have "unat a = unat b"
    using assms(1,2) by (metis div_mult_mod_eq)
  then show ?thesis by (rule word_eq_unatI)
qed

subsection \<open>Loads and stores\<close>

definition store_bytes :: "memory \<Rightarrow> addr \<Rightarrow> u8 list \<Rightarrow> memory" where
  "store_bytes m a bs = (\<lambda>x. if unat (x - a) < length bs then bs ! unat (x - a) else m x)"

definition load_bytes :: "memory \<Rightarrow> addr \<Rightarrow> nat \<Rightarrow> u8 list" where
  "load_bytes m a n = map (\<lambda>i. m (a + of_nat i)) [0..<n]"

definition load64 :: "memory \<Rightarrow> addr \<Rightarrow> u64" where
  "load64 m a = le_word (load_bytes m a 8)"

definition store64 :: "memory \<Rightarrow> addr \<Rightarrow> u64 \<Rightarrow> memory" where
  "store64 m a v = store_bytes m a (le_bytes 8 v)"

lemma length_load_bytes [simp]: "length (load_bytes m a n) = n"
  by (simp add: load_bytes_def)

lemma load_store_bytes:
  "length bs < 2 ^ 64 \<Longrightarrow> load_bytes (store_bytes m a bs) a (length bs) = bs"
proof (rule nth_equalityI)
  fix i assume len: "length bs < 2 ^ 64" and "i < length (load_bytes (store_bytes m a bs) a (length bs))"
  then have i: "i < length bs" by simp
  then have "unat (of_nat i :: addr) = i" using len by (intro unat_of_nat_small) simp
  with i show "load_bytes (store_bytes m a bs) a (length bs) ! i = bs ! i"
    by (simp add: load_bytes_def store_bytes_def)
qed simp

lemma load_bytes_cong:
  "(\<And>x. in_region a n x \<Longrightarrow> m x = m' x) \<Longrightarrow> n \<le> 2 ^ 64 \<Longrightarrow> load_bytes m a n = load_bytes m' a n"
proof -
  assume eq: "\<And>x. in_region a n x \<Longrightarrow> m x = m' x" and n: "n \<le> 2 ^ 64"
  have "m (a + of_nat i) = m' (a + of_nat i)" if "i < n" for i
    using that n by (intro eq) (subst in_region_offset, linarith, assumption)
  then show ?thesis by (simp add: load_bytes_def)
qed

lemma store_bytes_other: "\<not> in_region a (length bs) x \<Longrightarrow> store_bytes m a bs x = m x"
  by (simp add: store_bytes_def in_region_def)

lemma load64_store64 [simp]: "load64 (store64 m a v) a = v"
proof -
  have "load_bytes (store_bytes m a (le_bytes 8 v)) a 8 = le_bytes 8 v"
    using load_store_bytes [of "le_bytes 8 v" m a] by simp
  then show ?thesis
    by (simp add: load64_def store64_def le_word_le_bytes_full)
qed

lemma store64_other: "\<not> in_region a 8 x \<Longrightarrow> store64 m a v x = m x"
  by (simp add: store64_def store_bytes_other)

lemma load64_cong: "(\<And>x. in_region a 8 x \<Longrightarrow> m x = m' x) \<Longrightarrow> load64 m a = load64 m' a"
  unfolding load64_def by (rule arg_cong, rule load_bytes_cong) simp_all

lemma load64_store64_other:
  assumes "unat a mod 8 = 0" "unat b mod 8 = 0" "a \<noteq> b"
  shows "load64 (store64 m a v) b = load64 m b"
proof (rule load64_cong)
  fix x assume "in_region b 8 x"
  then have "\<not> in_region a 8 x"
    using in_region_aligned_unique [of a 8 b x] assms by fastforce
  then show "store64 m a v x = m x" by (rule store64_other)
qed

lemma load64_zero: "(\<And>x. in_region a 8 x \<Longrightarrow> m x = 0) \<Longrightarrow> load64 m a = 0"
proof -
  assume "\<And>x. in_region a 8 x \<Longrightarrow> m x = 0"
  then have "load64 m a = load64 (\<lambda>_. 0) a" by (rule load64_cong)
  also have "\<dots> = 0" by (simp add: load64_def load_bytes_def map_replicate_const)
  finally show ?thesis .
qed

end
