(* ===== verification/Riscv.thy ===== *)
theory Riscv
  imports Xv6_Prelude
begin

section \<open>Machine layout: param.h, memlayout.h and the page macros of riscv.h\<close>

text \<open>
  The constants and macros of \<^verbatim>\<open>kernel/param.h\<close>, \<^verbatim>\<open>kernel/memlayout.h\<close>, \<^verbatim>\<open>kernel/fcntl.h\<close> and
  \<^verbatim>\<open>kernel/riscv.h\<close> that the kernel computes with, as functions on 64-bit words, and the facts
  the virtual memory proofs use: what each macro computes as a natural number, and that the
  page table entry encoding loses nothing of an aligned address.

  The repository is built with \<^verbatim>\<open>LAB=util\<close> (\<^verbatim>\<open>conf/lab.mk\<close>), so the \<^verbatim>\<open>LAB_UTIL\<close> branch of
  \<^verbatim>\<open>param.h\<close> is the one modelled.
\<close>

unbundle bit_operations_syntax

subsection \<open>param.h\<close>

definition NPROC :: nat where "NPROC = 64"
definition NCPU :: nat where "NCPU = 8"
definition NOFILE :: nat where "NOFILE = 16"
definition NFILE :: nat where "NFILE = 100"
definition NINODE :: nat where "NINODE = 50"
definition NDEV :: nat where "NDEV = 10"
definition ROOTDEV :: nat where "ROOTDEV = 1"
definition MAXARG :: nat where "MAXARG = 32"
definition MAXOPBLOCKS :: nat where "MAXOPBLOCKS = 10"
definition LOGBLOCKS :: nat where "LOGBLOCKS = MAXOPBLOCKS * 3"
definition NBUF :: nat where "NBUF = MAXOPBLOCKS * 3"
definition FSSIZE :: nat where "FSSIZE = 2000"
definition MAXPATH :: nat where "MAXPATH = 128"
definition USERSTACK :: nat where "USERSTACK = 2"

lemmas param_defs =
  NPROC_def NCPU_def NOFILE_def NFILE_def NINODE_def NDEV_def ROOTDEV_def MAXARG_def
  MAXOPBLOCKS_def LOGBLOCKS_def NBUF_def FSSIZE_def MAXPATH_def USERSTACK_def

subsection \<open>riscv.h: pages and page table entries\<close>

definition PGSIZE :: u64 where [simp]: "PGSIZE = 4096"
definition PGROUNDUP :: "u64 \<Rightarrow> u64" where
  "PGROUNDUP sz = (sz + PGSIZE - 1) AND NOT (PGSIZE - 1)"
definition PGROUNDDOWN :: "u64 \<Rightarrow> u64" where
  "PGROUNDDOWN a = a AND NOT (PGSIZE - 1)"

definition PTE_V :: u64 where "PTE_V = push_bit 0 1"
definition PTE_R :: u64 where "PTE_R = push_bit 1 1"
definition PTE_W :: u64 where "PTE_W = push_bit 2 1"
definition PTE_X :: u64 where "PTE_X = push_bit 3 1"
definition PTE_U :: u64 where "PTE_U = push_bit 4 1"

definition PA2PTE :: "u64 \<Rightarrow> u64" where
  "PA2PTE pa = push_bit 10 (drop_bit 12 pa)"
definition PTE2PA :: "u64 \<Rightarrow> u64" where
  "PTE2PA pte = push_bit 12 (drop_bit 10 pte)"
definition PTE_FLAGS :: "u64 \<Rightarrow> u64" where
  "PTE_FLAGS pte = pte AND 0x3FF"

definition PXSHIFT :: "nat \<Rightarrow> nat" where
  "PXSHIFT level = 12 + 9 * level"
definition PX :: "nat \<Rightarrow> u64 \<Rightarrow> u64" where
  "PX level va = drop_bit (PXSHIFT level) va AND 0x1FF"

definition MAXVA :: u64 where
  "MAXVA = push_bit (9 + 9 + 9 + 12 - 1) 1"

definition MAKE_SATP :: "u64 \<Rightarrow> u64" where
  "MAKE_SATP pagetable = push_bit 60 8 OR drop_bit 12 pagetable"

lemmas pte_flag_defs = PTE_V_def PTE_R_def PTE_W_def PTE_X_def PTE_U_def

subsection \<open>memlayout.h\<close>

definition KERNBASE :: u64 where "KERNBASE = 0x80000000"
definition PHYSTOP :: u64 where "PHYSTOP = KERNBASE + 128 * 1024 * 1024"
definition UART0 :: u64 where "UART0 = 0x10000000"
definition VIRTIO0 :: u64 where "VIRTIO0 = 0x10001000"
definition PLIC :: u64 where "PLIC = 0x0c000000"
definition TRAMPOLINE :: u64 where "TRAMPOLINE = MAXVA - PGSIZE"
definition KSTACK :: "u64 \<Rightarrow> u64" where
  "KSTACK p = TRAMPOLINE - (p + 1) * 2 * PGSIZE"
definition TRAPFRAME :: u64 where "TRAPFRAME = TRAMPOLINE - PGSIZE"

lemma MAXVA_val [simp]: "MAXVA = 0x4000000000"
  by (simp add: MAXVA_def)

lemma PHYSTOP_val: "PHYSTOP = 0x88000000"
  by (simp add: PHYSTOP_def KERNBASE_def)

lemma unat_MAXVA: "unat MAXVA = 2 ^ 38"
  by simp

subsection \<open>fcntl.h\<close>

definition O_RDONLY :: u32 where "O_RDONLY = 0"
definition O_WRONLY :: u32 where "O_WRONLY = 1"
definition O_RDWR :: u32 where "O_RDWR = 2"
definition O_CREATE :: u32 where "O_CREATE = 0x200"
definition O_TRUNC :: u32 where "O_TRUNC = 0x400"

subsection \<open>What the macros compute\<close>

text \<open>Page alignment, kept folded so that the simplifier does not rewrite it to divisibility.\<close>

definition pg_aligned :: "addr \<Rightarrow> bool" where
  "pg_aligned a \<longleftrightarrow> unat a mod 4096 = 0"

lemma aligned_mod_iff: "a mod PGSIZE = 0 \<longleftrightarrow> pg_aligned a"
  by (simp add: word_eq_iff_unsigned [where ?'a = nat] unat_mod_distrib pg_aligned_def)

lemma pg_aligned_mod [simp]: "a mod 4096 = 0 \<longleftrightarrow> pg_aligned a"
  using aligned_mod_iff [of a] by simp

lemma pg_aligned_0 [simp]: "pg_aligned 0"
  by (simp add: pg_aligned_def)

lemma pg_aligned_add:
  "pg_aligned a \<Longrightarrow> pg_aligned b \<Longrightarrow> pg_aligned (a + b)"
proof -
  assume "pg_aligned a" "pg_aligned b"
  then have "(unat a + unat b) mod 4096 = 0" unfolding pg_aligned_def by (simp add: mod_add_eq [symmetric])
  then show ?thesis
    unfolding pg_aligned_def unat_word_ariths by (subst mod_mod_cancel) simp_all
qed

lemma pg_aligned_PGSIZE [simp]: "pg_aligned 4096"
  by (simp add: pg_aligned_def)

lemma pg_aligned_step: "pg_aligned a \<Longrightarrow> pg_aligned (a + 4096)"
  by (simp add: pg_aligned_add)

lemma pg_aligned_le:
  "pg_aligned a \<Longrightarrow> pg_aligned b \<Longrightarrow> unat b < unat a \<Longrightarrow> unat b + 4096 \<le> unat a"
  unfolding pg_aligned_def by (rule aligned_step_le)

lemma PGROUNDDOWN_shift: "PGROUNDDOWN a = push_bit 12 (drop_bit 12 a)"
proof -
  have eq: "NOT (PGSIZE - 1) = NOT (mask 12 :: u64)" by (simp add: mask_eq_decr_exp)
  show ?thesis
    unfolding PGROUNDDOWN_def eq
    by (rule bit_word_eqI) (auto simp: bit_simps)
qed

lemma PGROUNDUP_eq_down: "PGROUNDUP sz = PGROUNDDOWN (sz + 4095)"
  by (simp add: PGROUNDUP_def PGROUNDDOWN_def add.commute add.left_commute diff_add_eq)

lemma unat_PGROUNDDOWN: "unat (PGROUNDDOWN a) = 4096 * (unat a div 4096)"
proof -
  have "4096 * (unat a div 4096) < 2 ^ 64"
    using unat64_less [of a] by (meson le_less_trans times_div_less_eq_dividend)
  then show ?thesis
    by (simp add: PGROUNDDOWN_shift push_bit_eq_mult drop_bit_eq_div unat_word_ariths
        unat_div_distrib mult.commute)
qed

lemma unat_PGROUNDUP:
  assumes "unat sz + 4095 < 2 ^ 64"
  shows "unat (PGROUNDUP sz) = 4096 * ((unat sz + 4095) div 4096)"
proof -
  have "unat (sz + 4095) = unat sz + 4095"
    using assms by (simp add: unat_word_ariths)
  then show ?thesis by (simp add: PGROUNDUP_eq_down unat_PGROUNDDOWN)
qed

lemma PGROUNDDOWN_le: "PGROUNDDOWN a \<le> a"
  by (simp add: word_le_nat_alt unat_PGROUNDDOWN)

lemma PGROUNDUP_ge: "unat sz + 4095 < 2 ^ 64 \<Longrightarrow> sz \<le> PGROUNDUP sz"
  by (simp add: word_le_nat_alt unat_PGROUNDUP)

lemma PGROUNDUP_less: "unat sz + 4095 < 2 ^ 64 \<Longrightarrow> unat (PGROUNDUP sz) < unat sz + 4096"
  by (simp add: unat_PGROUNDUP)

lemma PGROUNDDOWN_aligned [simp]: "pg_aligned (PGROUNDDOWN a)"
  by (simp add: unat_PGROUNDDOWN pg_aligned_def)

lemma PGROUNDUP_aligned [simp]: "pg_aligned (PGROUNDUP a)"
  by (simp add: PGROUNDUP_eq_down)

lemma PGROUNDDOWN_id: "pg_aligned a \<Longrightarrow> PGROUNDDOWN a = a"
  by (rule word_eq_unatI) (simp add: unat_PGROUNDDOWN pg_aligned_def mod_eq_0_iff_dvd)

lemma unat_PX: "unat (PX level va) = unat va div 2 ^ PXSHIFT level mod 512"
proof -
  have "(0x1FF :: u64) = mask 9" by (simp add: mask_eq_decr_exp)
  then have "PX level va = take_bit 9 (drop_bit (PXSHIFT level) va)"
    by (simp add: PX_def take_bit_eq_mask)
  then have "unat (PX level va) = take_bit 9 (drop_bit (PXSHIFT level) (unat va))"
    by (simp only: unsigned_take_bit_eq unat_drop_bit_eq)
  then show ?thesis by (simp add: take_bit_eq_mod drop_bit_eq_div)
qed

lemma unat_PX_less: "unat (PX level va) < 512"
  by (simp add: unat_PX)

text \<open>The entry encoding: an aligned address and ten flag bits share a word without loss.\<close>

lemma aligned_low_bits: "pg_aligned pa \<Longrightarrow> n < 12 \<Longrightarrow> \<not> bit pa n"
proof -
  assume "pg_aligned pa" and n: "n < 12"
  then have "take_bit 12 (unat pa) = 0" by (simp add: take_bit_eq_mod pg_aligned_def)
  then have "\<not> bit (take_bit 12 (unat pa)) n" by simp
  with n show ?thesis by (simp add: bit_take_bit_iff bit_unsigned_iff)
qed

lemma PTE2PA_PA2PTE:
  assumes "pg_aligned pa" and "f AND 0x3FF = f"
  shows "PTE2PA (PA2PTE pa OR f) = pa"
proof (rule bit_word_eqI)
  fix n assume n: "n < LENGTH(64)"
  have f: "\<not> bit f k" if "k \<ge> 10" for k
  proof -
    have "(0x3FF :: u64) = mask 10" by (simp add: mask_eq_decr_exp)
    then have "take_bit 10 f = f" using assms(2) by (simp add: take_bit_eq_mask)
    then show ?thesis using that by (metis bit_take_bit_iff not_le)
  qed
  show "bit (PTE2PA (PA2PTE pa OR f)) n = bit pa n"
    using n f aligned_low_bits [OF assms(1)]
    by (cases "n < 12") (auto simp: PTE2PA_def PA2PTE_def bit_simps)
qed

lemma PTE_FLAGS_PA2PTE:
  assumes "f AND 0x3FF = f"
  shows "PTE_FLAGS (PA2PTE pa OR f) = f"
proof -
  have m: "(0x3FF :: u64) = mask 10" by (simp add: mask_eq_decr_exp)
  have "PA2PTE pa AND 0x3FF = 0"
    unfolding m PA2PTE_def by (rule bit_word_eqI) (auto simp: bit_simps)
  then show ?thesis
    using assms by (simp add: PTE_FLAGS_def bit.conj_disj_distrib2)
qed

lemma PTE2PA_aligned [simp]: "pg_aligned (PTE2PA pte)"
proof -
  have "PTE2PA pte = push_bit 12 (drop_bit 12 (PTE2PA pte))"
    unfolding PTE2PA_def by (rule bit_word_eqI) (auto simp: bit_simps)
  then show ?thesis
    using PGROUNDDOWN_aligned [of "PTE2PA pte"] by (simp add: PGROUNDDOWN_shift)
qed

end
