(* ===== verification/Kstring.thy ===== *)
theory Kstring
  imports Riscv
begin

section \<open>kernel/string.c\<close>

text \<open>
  The kernel's memory and string routines. \<^verbatim>\<open>memset\<close> and \<^verbatim>\<open>memmove\<close> act on the byte memory at
  64-bit addresses, because aliasing of source and destination is what they are about. The
  routines that read strings take a pointer as the function from offsets to the bytes it
  points at (\<open>cptr\<close>); those that write through a pointer return the updated function. The
  loops recurse on the number of iterations left.
\<close>

unbundle bit_operations_syntax

type_synonym cptr = "nat \<Rightarrow> u8"

subsection \<open>Definitions\<close>

primrec memset_loop :: "memory \<Rightarrow> addr \<Rightarrow> u8 \<Rightarrow> nat \<Rightarrow> nat \<Rightarrow> memory" where
  "memset_loop m dst c i 0 = m"
| "memset_loop m dst c i (Suc k) = memset_loop (m(dst + of_nat i := c)) dst c (Suc i) k"

definition memset :: "memory \<Rightarrow> addr \<Rightarrow> int \<Rightarrow> u32 \<Rightarrow> memory" where
  "memset m dst c n = memset_loop m dst (word_of_int c) 0 (unat n)"

primrec memcmp_loop :: "cptr \<Rightarrow> cptr \<Rightarrow> nat \<Rightarrow> nat \<Rightarrow> int" where
  "memcmp_loop s1 s2 i 0 = 0"
| "memcmp_loop s1 s2 i (Suc n) =
     (if s1 i \<noteq> s2 i then uint (s1 i) - uint (s2 i) else memcmp_loop s1 s2 (Suc i) n)"

definition memcmp :: "cptr \<Rightarrow> cptr \<Rightarrow> u32 \<Rightarrow> int" where
  "memcmp v1 v2 n = memcmp_loop v1 v2 0 (unat n)"

primrec copy_up :: "memory \<Rightarrow> addr \<Rightarrow> addr \<Rightarrow> nat \<Rightarrow> memory" where
  "copy_up m d s 0 = m"
| "copy_up m d s (Suc n) = copy_up (m(d := m s)) (d + 1) (s + 1) n"

primrec copy_down :: "memory \<Rightarrow> addr \<Rightarrow> addr \<Rightarrow> nat \<Rightarrow> memory" where
  "copy_down m d s 0 = m"
| "copy_down m d s (Suc n) = copy_down (m(d - 1 := m (s - 1))) (d - 1) (s - 1) n"

definition memmove :: "memory \<Rightarrow> addr \<Rightarrow> addr \<Rightarrow> u32 \<Rightarrow> memory" where
  "memmove m dst src n =
     (if n = 0 then m
      else if src < dst \<and> src + ucast n > dst
      then copy_down m (dst + ucast n) (src + ucast n) (unat n)
      else copy_up m dst src (unat n))"

definition memcpy :: "memory \<Rightarrow> addr \<Rightarrow> addr \<Rightarrow> u32 \<Rightarrow> memory" where
  "memcpy m dst src n = memmove m dst src n"

primrec strncmp_loop :: "cptr \<Rightarrow> cptr \<Rightarrow> nat \<Rightarrow> nat \<Rightarrow> int" where
  "strncmp_loop p q i 0 = 0"
| "strncmp_loop p q i (Suc n) =
     (if p i \<noteq> 0 \<and> p i = q i then strncmp_loop p q (Suc i) n
      else uint (p i) - uint (q i))"

definition strncmp :: "cptr \<Rightarrow> cptr \<Rightarrow> u32 \<Rightarrow> int" where
  "strncmp p q n = strncmp_loop p q 0 (unat n)"

primrec strncpy_pad :: "cptr \<Rightarrow> nat \<Rightarrow> nat \<Rightarrow> cptr" where
  "strncpy_pad s i 0 = s"
| "strncpy_pad s i (Suc n) = strncpy_pad (s(i := 0)) (Suc i) n"

primrec strncpy_loop :: "cptr \<Rightarrow> cptr \<Rightarrow> nat \<Rightarrow> nat \<Rightarrow> cptr" where
  "strncpy_loop s t i 0 = s"
| "strncpy_loop s t i (Suc n) =
     (if t i \<noteq> 0 then strncpy_loop (s(i := t i)) t (Suc i) n
      else strncpy_pad (s(i := t i)) (Suc i) n)"

definition strncpy :: "cptr \<Rightarrow> cptr \<Rightarrow> int \<Rightarrow> cptr" where
  "strncpy s t n = strncpy_loop s t 0 (nat n)"

primrec safestrcpy_loop :: "cptr \<Rightarrow> cptr \<Rightarrow> nat \<Rightarrow> nat \<Rightarrow> cptr" where
  "safestrcpy_loop s t i 0 = s(i := 0)"
| "safestrcpy_loop s t i (Suc n) =
     (if t i \<noteq> 0 then safestrcpy_loop (s(i := t i)) t (Suc i) n
      else (s(i := t i))(Suc i := 0))"

definition safestrcpy :: "cptr \<Rightarrow> cptr \<Rightarrow> int \<Rightarrow> cptr" where
  "safestrcpy s t n = (if n \<le> 0 then s else safestrcpy_loop s t 0 (nat n - 1))"

partial_function (option) strlen_loop :: "cptr \<Rightarrow> nat \<Rightarrow> nat option" where
  "strlen_loop s n = (if s n = 0 then Some n else strlen_loop s (Suc n))"

definition strlen :: "cptr \<Rightarrow> nat option" where
  "strlen s = strlen_loop s 0"

text \<open>\<open>cstr s bs\<close>: the pointer \<open>s\<close> points at the NUL-terminated string of bytes \<open>bs\<close>.\<close>

definition cstr :: "cptr \<Rightarrow> u8 list \<Rightarrow> bool" where
  "cstr s bs \<longleftrightarrow> (\<forall>i < length bs. s i = bs ! i \<and> bs ! i \<noteq> 0) \<and> s (length bs) = 0"

subsection \<open>memset and memmove\<close>

lemma memset_loop_eq:
  "i + k < 2 ^ 64 \<Longrightarrow>
   memset_loop m dst c i k = (\<lambda>x. if i \<le> unat (x - dst) \<and> unat (x - dst) < i + k then c else m x)"
proof (induction k arbitrary: m i)
  case 0
  then show ?case by (auto simp: fun_eq_iff)
next
  case (Suc k)
  have u: "unat (of_nat i :: addr) = i" using Suc.prems by (intro unat_of_nat_small) simp
  have d: "(x = dst + of_nat i) = (unat (x - dst) = i)" for x
  proof
    assume "unat (x - dst) = i"
    then have "x - dst = of_nat i" by (metis u word_eq_unatI)
    then show "x = dst + of_nat i" by (simp add: algebra_simps)
  qed (simp add: u)
  from Suc.prems have "Suc i + k < 2 ^ 64" by simp
  then show ?case
    by (simp only: memset_loop.simps Suc.IH) (auto simp: fun_eq_iff d)
qed

lemma memset_eq: "memset m dst c n = (\<lambda>x. if in_region dst (unat n) x then word_of_int c else m x)"
proof -
  have "unat n < 2 ^ 32" using unsigned_less [of n, where ?'a = nat] by simp
  then have "unat n < 2 ^ 64" by simp
  then show ?thesis by (simp add: memset_def memset_loop_eq in_region_def)
qed

lemma copy_up_eq:
  "n < 2 ^ 64 \<Longrightarrow> d = s \<or> n \<le> unat (d - s) \<Longrightarrow>
   copy_up m d s n = (\<lambda>x. if unat (x - d) < n then m (s + (x - d)) else m x)"
proof (induction n arbitrary: m d s)
  case 0
  then show ?case by simp
next
  case (Suc n)
  have diff: "(d + 1) - (s + 1) = d - s" by simp
  have IH: "copy_up (m(d := m s)) (d + 1) (s + 1) n =
      (\<lambda>x. if unat (x - (d + 1)) < n then (m(d := m s)) (s + 1 + (x - (d + 1)))
            else (m(d := m s)) x)"
    using Suc.prems by (intro Suc.IH) (auto simp: diff)
  show ?case
  proof
    fix x
    have step: "unat (x - d) = Suc (unat (x - (d + 1)))" if "x \<noteq> d"
    proof -
      have "x - d = 1 + (x - (d + 1))" by simp
      moreover have "1 + (x - (d + 1)) \<noteq> 0" using that by simp
      ultimately show ?thesis by (metis unatSuc)
    qed
    have clobber: "s + (x - d) \<noteq> d" if "x \<noteq> d" "unat (x - d) < Suc n"
    proof
      assume "s + (x - d) = d"
      then have "x - d = d - s" by (simp add: algebra_simps)
      with that Suc.prems(2) show False by auto
    qed
    show "copy_up m d s (Suc n) x = (if unat (x - d) < Suc n then m (s + (x - d)) else m x)"
    proof (cases "x = d")
      case True
      have "unat (- 1 :: addr) \<ge> n" using Suc.prems(1) by (simp add: unsigned_minus_1_eq_mask mask_eq_exp_minus_1)
      with True show ?thesis by (simp add: IH)
    next
      case False
      have arg: "s + 1 + (x - (d + 1)) = s + (x - d)" by simp
      show ?thesis unfolding copy_up.simps IH arg
        using False step [OF False] clobber by simp
    qed
  qed
qed

lemma copy_down_eq:
  "n < 2 ^ 64 \<Longrightarrow> d = s \<or> n \<le> unat (s - d) \<Longrightarrow>
   copy_down m (d + of_nat n) (s + of_nat n) n =
     (\<lambda>x. if unat (x - d) < n then m (s + (x - d)) else m x)"
proof (induction n arbitrary: m)
  case 0
  then show ?case by simp
next
  case (Suc n)
  have u: "unat (of_nat n :: addr) = n" using Suc.prems(1) by (intro unat_of_nat_small) simp
  define m' where "m' = m(d + of_nat n := m (s + of_nat n))"
  have "copy_down m (d + of_nat (Suc n)) (s + of_nat (Suc n)) (Suc n) =
      copy_down m' (d + of_nat n) (s + of_nat n) n"
    by (simp add: m'_def algebra_simps)
  also have "\<dots> = (\<lambda>x. if unat (x - d) < n then m' (s + (x - d)) else m' x)"
    using Suc.prems by (intro Suc.IH) auto
  also have "\<dots> = (\<lambda>x. if unat (x - d) < Suc n then m (s + (x - d)) else m x)"
  proof
    fix x
    have at: "x = d + of_nat n \<longleftrightarrow> unat (x - d) = n"
    proof
      assume "unat (x - d) = n"
      then have "x - d = of_nat n" by (metis u word_eq_unatI)
      then show "x = d + of_nat n" by (simp add: algebra_simps)
    qed (simp add: u)
    have clobber: "s + (x - d) \<noteq> d + of_nat n" if lt: "unat (x - d) < n"
    proof
      assume eq: "s + (x - d) = d + of_nat n"
      then have sd: "s - d = of_nat n - (x - d)" by (simp add: algebra_simps)
      have le: "x - d \<le> of_nat n" using lt u by (simp add: word_le_nat_alt)
      have "unat (s - d) = n - unat (x - d)" using le u by (simp add: sd unat_sub)
      moreover have "d \<noteq> s" using eq lt u by auto
      ultimately show False using Suc.prems(2) lt by auto
    qed
    show "(if unat (x - d) < n then m' (s + (x - d)) else m' x) =
        (if unat (x - d) < Suc n then m (s + (x - d)) else m x)"
      using at clobber by (auto simp: m'_def less_Suc_eq)
  qed
  finally show ?case .
qed


lemma unat_ucast32: "unat (ucast (n :: u32) :: addr) = unat n"
proof -
  have "unat n < 2 ^ 32" using unsigned_less [of n, where ?'a = nat] by simp
  then have "unat n < 2 ^ 64" by simp
  then show ?thesis by (simp add: unsigned_ucast_eq take_bit_nat_eq_self)
qed

text \<open>
  The effect both copying directions have when they are chosen right: every byte of the
  destination is the byte the source had before the call, and nothing else changes.
\<close>

definition moved :: "memory \<Rightarrow> addr \<Rightarrow> addr \<Rightarrow> nat \<Rightarrow> memory" where
  "moved m dst src n = (\<lambda>x. if in_region dst n x then m (src + (x - dst)) else m x)"

lemma moved_zero [simp]: "moved m dst src 0 = m"
  by (simp add: moved_def)

lemma memmove_moved:
  assumes s: "unat src + unat n < 2 ^ 64" and d: "unat dst + unat n < 2 ^ 64"
  shows "memmove m dst src n = moved m dst src (unat n)"
proof (cases "n = 0")
  case True
  then show ?thesis by (simp add: memmove_def)
next
  case False
  have un: "unat (ucast n :: addr) = unat n" by (rule unat_ucast32)
  have n64: "unat n < 2 ^ 64" using s by simp
  have of_n: "ucast n = (of_nat (unat n) :: addr)" using un by (metis of_nat_unat)
  have send: "unat (src + ucast n) = unat src + unat n"
    using s un by (subst unat_add_small) simp_all
  show ?thesis
  proof (cases "src < dst \<and> src + ucast n > dst")
    case True
    then have lt: "unat src < unat dst" by (simp add: word_less_nat_alt)
    have "unat (src - dst) = unat src + 2 ^ 64 - unat dst"
      using lt by (simp add: unat_sub_if')
    then have "unat n \<le> unat (src - dst)" using d lt by simp
    then have "copy_down m (dst + ucast n) (src + ucast n) (unat n) = moved m dst src (unat n)"
      unfolding of_n moved_def in_region_def using n64 by (intro copy_down_eq) auto
    with True False show ?thesis by (simp add: memmove_def)
  next
    case no: False
    have "dst = src \<or> unat n \<le> unat (dst - src)"
    proof (cases "src \<le> dst")
      case True
      then show ?thesis using no send
        by (auto simp: word_less_nat_alt word_le_nat_alt unat_sub_if' not_less
            intro: word_eq_unatI)
    next
      case f: False
      then have "unat (dst - src) = unat dst + 2 ^ 64 - unat src"
        by (simp add: unat_sub_if' word_le_nat_alt)
      then show ?thesis using f s unfolding word_le_nat_alt by (intro disjI2) linarith
    qed
    then have "copy_up m dst src (unat n) = moved m dst src (unat n)"
      unfolding moved_def in_region_def using n64 by (rule copy_up_eq [rotated])
    with no False show ?thesis by (auto simp: memmove_def)
  qed
qed

text \<open>
  C34: \<^verbatim>\<open>memmove\<close> copies correctly whatever the overlap of source and destination, as long as
  neither range wraps around the end of the address space: each destination byte gets the value
  its source byte had before the call, and no other byte changes.
\<close>

theorem memmove_overlap_safe:
  assumes "unat src + unat n < 2 ^ 64" "unat dst + unat n < 2 ^ 64"
  shows "memmove m dst src n x =
    (if in_region dst (unat n) x then m (src + (x - dst)) else m x)"
  using memmove_moved [OF assms] by (simp add: moved_def)

theorem memmove_overlap_safe_witness:
  "unat (100 :: addr) + unat (3 :: u32) < 2 ^ 64 \<and> unat (101 :: addr) + unat (3 :: u32) < 2 ^ 64 \<and>
   memmove (\<lambda>a. ucast a) 101 100 3 102 = 101"
  using memmove_overlap_safe [of 100 3 101 "\<lambda>a. ucast a" 102] by (simp add: in_region_def)

subsection \<open>Strings\<close>

lemma strncmp_loop_zero_iff:
  "strncmp_loop p q i n = 0 \<longleftrightarrow>
     (\<forall>j. i \<le> j \<and> j < i + n \<and> (\<forall>k. i \<le> k \<and> k < j \<longrightarrow> p k \<noteq> 0) \<longrightarrow> p j = q j)"
proof (induction n arbitrary: i)
  case 0
  then show ?case by auto
next
  case (Suc n)
  show ?case
  proof (cases "p i \<noteq> 0 \<and> p i = q i")
    case True
    have "(\<forall>j. Suc i \<le> j \<and> j < Suc i + n \<and> (\<forall>k. Suc i \<le> k \<and> k < j \<longrightarrow> p k \<noteq> 0) \<longrightarrow> p j = q j) \<longleftrightarrow>
        (\<forall>j. i \<le> j \<and> j < i + Suc n \<and> (\<forall>k. i \<le> k \<and> k < j \<longrightarrow> p k \<noteq> 0) \<longrightarrow> p j = q j)"
      (is "(\<forall>j. ?A j) \<longleftrightarrow> (\<forall>j. ?B j)")
    proof
      assume A: "\<forall>j. ?A j"
      show "\<forall>j. ?B j"
      proof
        fix j show "?B j" using True A by (cases "j = i") auto
      qed
    next
      assume B: "\<forall>j. ?B j"
      show "\<forall>j. ?A j"
      proof (intro allI impI)
        fix j assume j: "Suc i \<le> j \<and> j < Suc i + n \<and> (\<forall>k. Suc i \<le> k \<and> k < j \<longrightarrow> p k \<noteq> 0)"
        then have "\<forall>k. i \<le> k \<and> k < j \<longrightarrow> p k \<noteq> 0"
          using True by (metis Suc_leI le_neq_implies_less)
        with B j show "p j = q j" by auto
      qed
    qed
    moreover have "strncmp_loop p q i (Suc n) = strncmp_loop p q (Suc i) n"
      unfolding strncmp_loop.simps by (simp only: if_P [OF True])
    ultimately show ?thesis by (simp only: Suc.IH)
  next
    case False
    then have step: "strncmp_loop p q i (Suc n) = 0 \<longleftrightarrow> p i = q i"
      unfolding strncmp_loop.simps by (simp only: if_not_P) (simp add: word_uint_eq_iff)
    show ?thesis
    proof (cases "p i = q i")
      case True
      with False have z: "p i = 0" by simp
      have "p j = q j" if "i \<le> j" "\<forall>k. i \<le> k \<and> k < j \<longrightarrow> p k \<noteq> 0" for j
        using that z True by (cases "j = i") auto
      then show ?thesis using step True by blast
    next
      case ne: False
      then have "\<not> (\<forall>j. i \<le> j \<and> j < i + Suc n \<and> (\<forall>k. i \<le> k \<and> k < j \<longrightarrow> p k \<noteq> 0) \<longrightarrow> p j = q j)"
        by (auto intro!: exI [of _ i])
      then show ?thesis using step ne by blast
    qed
  qed
qed

lemma strncpy_pad_eq: "strncpy_pad s i n = (\<lambda>j. if i \<le> j \<and> j < i + n then 0 else s j)"
  by (induction n arbitrary: s i) (auto simp: fun_eq_iff)

lemma strncpy_loop_eq:
  "strncpy_loop s t i n =
     (\<lambda>j. if i \<le> j \<and> j < i + n then (if \<exists>k. i \<le> k \<and> k < j \<and> t k = 0 then 0 else t j) else s j)"
proof (induction n arbitrary: s i)
  case 0
  then show ?case by (auto simp: fun_eq_iff)
next
  case (Suc n)
  show ?case
  proof (cases "t i = 0")
    case True
    then show ?thesis by (auto simp: fun_eq_iff strncpy_pad_eq intro: exI [of _ i])
  next
    case False
    have "(\<exists>k. i \<le> k \<and> k < j \<and> t k = 0) \<longleftrightarrow> (\<exists>k. Suc i \<le> k \<and> k < j \<and> t k = 0)" for j
      using False by (metis Suc_leD Suc_leI le_neq_implies_less)
    then show ?thesis using False by (auto simp: fun_eq_iff Suc.IH)
  qed
qed

lemma strncpy_eq:
  "strncpy s t n j =
     (if j < nat n then (if \<exists>k < j. t k = 0 then 0 else t j) else s j)"
  by (simp add: strncpy_def strncpy_loop_eq)

lemma safestrcpy_loop_eq:
  assumes "\<forall>k. i \<le> k \<and> k < i + l \<longrightarrow> t k \<noteq> 0" and "l = n \<or> (l < n \<and> t (i + l) = 0)"
  shows "(\<forall>j. i \<le> j \<and> j < i + l \<longrightarrow> safestrcpy_loop s t i n j = t j) \<and>
    safestrcpy_loop s t i n (i + l) = 0 \<and>
    (\<forall>j. j < i \<or> i + n < j \<longrightarrow> safestrcpy_loop s t i n j = s j)"
  using assms
proof (induction n arbitrary: s i l)
  case 0
  then show ?case by simp
next
  case (Suc n)
  show ?case
  proof (cases "t i = 0")
    case True
    with Suc.prems(1) have "l = 0" by (cases l) auto
    with True show ?thesis by auto
  next
    case False
    with Suc.prems(2) obtain l' where l: "l = Suc l'" by (cases l) auto
    have "(\<forall>j. Suc i \<le> j \<and> j < Suc i + l' \<longrightarrow>
          safestrcpy_loop (s(i := t i)) t (Suc i) n j = t j) \<and>
        safestrcpy_loop (s(i := t i)) t (Suc i) n (Suc i + l') = 0 \<and>
        (\<forall>j. j < Suc i \<or> Suc i + n < j \<longrightarrow>
          safestrcpy_loop (s(i := t i)) t (Suc i) n j = (s(i := t i)) j)"
      using Suc.prems l by (intro Suc.IH) auto
    then have IH: "\<And>j. Suc i \<le> j \<Longrightarrow> j < Suc i + l' \<Longrightarrow>
          safestrcpy_loop (s(i := t i)) t (Suc i) n j = t j"
        "safestrcpy_loop (s(i := t i)) t (Suc i) n (Suc i + l') = 0"
        "\<And>j. j < Suc i \<or> Suc i + n < j \<Longrightarrow>
          safestrcpy_loop (s(i := t i)) t (Suc i) n j = (s(i := t i)) j" by blast+
    have "safestrcpy_loop (s(i := t i)) t (Suc i) n j = t j" if "i \<le> j" "j < i + l" for j
      using that l IH(1) [of j] IH(3) [of i] by (cases "j = i") auto
    with False l IH(2,3) show ?thesis by auto
  qed
qed

lemma safestrcpy_spec:
  assumes t: "cstr t bs" and n: "0 < n"
  shows "cstr (safestrcpy s t n) (take (nat n - 1) bs)"
    and "j \<ge> nat n \<Longrightarrow> safestrcpy s t n j = s j"
proof -
  define l where "l = min (nat n - 1) (length bs)"
  have "(\<forall>j. 0 \<le> j \<and> j < 0 + l \<longrightarrow> safestrcpy_loop s t 0 (nat n - 1) j = t j) \<and>
    safestrcpy_loop s t 0 (nat n - 1) (0 + l) = 0 \<and>
    (\<forall>j. j < 0 \<or> 0 + (nat n - 1) < j \<longrightarrow> safestrcpy_loop s t 0 (nat n - 1) j = s j)"
    using t by (intro safestrcpy_loop_eq) (auto simp: l_def cstr_def min_def)
  then show "cstr (safestrcpy s t n) (take (nat n - 1) bs)"
    and "j \<ge> nat n \<Longrightarrow> safestrcpy s t n j = s j"
    using t n unfolding safestrcpy_def cstr_def l_def
    by (auto simp: min_def split: if_splits)
qed

lemma strlen_loop_step: "s n \<noteq> 0 \<Longrightarrow> strlen_loop s n = strlen_loop s (Suc n)"
  by (subst strlen_loop.simps) simp

lemma strlen_loop_skip:
  "(\<And>i. k \<le> i \<Longrightarrow> i < k + l \<Longrightarrow> s i \<noteq> 0) \<Longrightarrow> strlen_loop s k = strlen_loop s (k + l)"
proof (induction l arbitrary: k)
  case (Suc l)
  have "s k \<noteq> 0" by (rule Suc.prems) simp_all
  then have "strlen_loop s k = strlen_loop s (Suc k)" by (rule strlen_loop_step)
  also have "\<dots> = strlen_loop s (Suc k + l)" by (rule Suc.IH) (use Suc.prems in auto)
  finally show ?case by simp
qed simp

lemma strlen_cstr: "cstr s bs \<Longrightarrow> strlen s = Some (length bs)"
proof -
  assume c: "cstr s bs"
  have "strlen_loop s 0 = strlen_loop s (0 + length bs)"
    using c by (intro strlen_loop_skip) (auto simp: cstr_def)
  also have "\<dots> = Some (length bs)"
    using c by (subst strlen_loop.simps) (simp add: cstr_def)
  finally show ?thesis by (simp add: strlen_def)
qed

text \<open>
  \<^verbatim>\<open>safestrcpy\<close> always leaves a NUL-terminated string: given a terminated source and a
  positive buffer size \<open>n\<close>, the destination holds the longest prefix of the source that fits
  with its terminator, \<^verbatim>\<open>strlen\<close> of it returns, and no byte at or beyond \<open>n\<close> is written.
\<close>

lemma safestrcpy_terminates_string:
  assumes "cstr t bs" "0 < n"
  shows "cstr (safestrcpy s t n) (take (nat n - 1) bs) \<and>
    strlen (safestrcpy s t n) = Some (min (nat n - 1) (length bs)) \<and>
    (\<forall>j. nat n \<le> j \<longrightarrow> safestrcpy s t n j = s j)"
  using safestrcpy_spec [OF assms] strlen_cstr [OF safestrcpy_spec(1) [OF assms, of s]]
  by (simp add: min.commute)

lemma safestrcpy_terminates_string_witness:
  "cstr ((\<lambda>_. 0)(0 := 104, 1 := 105)) [104, 105] \<and>
   strlen (safestrcpy (\<lambda>_. 7) ((\<lambda>_. 0)(0 := 104, 1 := 105)) 16) = Some 2"
proof -
  have c: "cstr ((\<lambda>_. 0)(0 := 104, 1 := 105)) [104, 105]"
    by (auto simp: cstr_def less_Suc_eq)
  show ?thesis
    using c safestrcpy_terminates_string [OF c, of 16 "\<lambda>_. 7"] by simp
qed

end
