(* ===== verification/Kalloc.thy ===== *)
theory Kalloc
  imports Kstring
begin

section \<open>kernel/kalloc.c: the physical page allocator\<close>

text \<open>
  The allocator keeps its free pages in a singly linked list threaded through the first eight
  bytes of each free page (\<^verbatim>\<open>struct run\<close>). The model keeps that representation: \<open>freelist\<close> is
  the head pointer and the links are read from and written to the byte memory, so that a stray
  write to a free page would corrupt the list here as it does in the kernel. The linker symbol
  \<^verbatim>\<open>end\<close> is the field \<open>end_sym\<close>. The critical sections under \<^verbatim>\<open>kmem.lock\<close> are atomic steps.

  The ghost predicate \<open>kmem_ok s ps\<close> says that the list starting at \<open>freelist\<close> is exactly \<open>ps\<close>, a
  list of distinct, aligned pages inside the managed range. Clients use the allocator
  through the locale \<open>page_allocator\<close>, whose laws \<^verbatim>\<open>kalloc\<close> and \<^verbatim>\<open>kfree\<close> are shown to satisfy.
\<close>

unbundle bit_operations_syntax

subsection \<open>State and operations\<close>

record kmem =
  mem :: memory
  freelist :: addr
  end_sym :: addr

definition kfree :: "addr \<Rightarrow> 'a kmem_scheme \<Rightarrow> (unit \<times> 'a kmem_scheme) kres" where
  "kfree pa s =
     kbind (kguard (\<not> (pa mod PGSIZE \<noteq> 0 \<or> pa < end_sym s \<or> pa \<ge> PHYSTOP)) ''kfree'') (\<lambda>_.
       let m1 = memset (mem s) pa 1 (ucast PGSIZE);
           m2 = store64 m1 pa (freelist s)
       in Ok ((), s\<lparr>mem := m2, freelist := pa\<rparr>))"

definition kalloc :: "'a kmem_scheme \<Rightarrow> addr \<times> 'a kmem_scheme" where
  "kalloc s =
     (let r = freelist s;
          s1 = (if r \<noteq> 0 then s\<lparr>freelist := load64 (mem s) r\<rparr> else s);
          s2 = (if r \<noteq> 0 then s1\<lparr>mem := memset (mem s) r 5 (ucast PGSIZE)\<rparr> else s1)
      in (r, s2))"

text \<open>A page of the managed range, and the effect of \<^verbatim>\<open>kfree\<close> by cases on it.\<close>

definition page_ok :: "'a kmem_scheme \<Rightarrow> addr \<Rightarrow> bool" where
  "page_ok s p \<longleftrightarrow> pg_aligned p \<and> end_sym s \<le> p \<and> p < PHYSTOP"

lemma kfree_eq:
  "kfree pa s =
     (if page_ok s pa
      then Ok ((), s\<lparr>mem := store64 (memset (mem s) pa 1 4096) pa (freelist s), freelist := pa\<rparr>)
      else Panic ''kfree'')"
proof -
  have "(\<not> (pa mod PGSIZE \<noteq> 0 \<or> pa < end_sym s \<or> PHYSTOP \<le> pa)) = page_ok s pa"
    unfolding page_ok_def aligned_mod_iff by auto
  then show ?thesis unfolding kfree_def kguard_def by (simp add: Let_def)
qed

text \<open>
  The loop of \<^verbatim>\<open>freerange\<close> compares \<^verbatim>\<open>p + PGSIZE\<close> with the end, and that sum can wrap. It ends all
  the same: a page at or above \<^verbatim>\<open>PHYSTOP\<close> makes \<^verbatim>\<open>kfree\<close> panic, so every iteration that continues
  has a smaller distance to \<^verbatim>\<open>PHYSTOP\<close>.
\<close>

function freerange_loop :: "addr \<Rightarrow> addr \<Rightarrow> 'a kmem_scheme \<Rightarrow> (unit \<times> 'a kmem_scheme) kres" where
  "freerange_loop p pa_end s =
     (if p + PGSIZE \<le> pa_end
      then kbind (kfree p s) (\<lambda>r. freerange_loop (p + PGSIZE) pa_end (snd r))
      else Ok ((), s))"
  by pat_completeness auto

lemma kfree_Ok_page: "kfree pa s = Ok r \<Longrightarrow> page_ok s pa"
  by (auto simp: kfree_eq split: if_splits)

termination freerange_loop
proof (relation "measure (\<lambda>(p, e, s). unat PHYSTOP - unat p)")
  fix p pa_end and s :: "'a kmem_scheme" and x
  assume "kfree p s = Ok x"
  then have lt: "unat p < 0x88000000"
    by (auto dest!: kfree_Ok_page simp: page_ok_def PHYSTOP_val word_less_nat_alt)
  then have "unat (p + 4096) = unat p + 4096" by (subst unat_add_small) simp_all
  with lt show "((p + PGSIZE, pa_end, snd x), (p, pa_end, s)) \<in> measure (\<lambda>(p, e, s). unat PHYSTOP - unat p)"
    by (simp add: PHYSTOP_val)
qed (rule wf_measure)

declare freerange_loop.simps [simp del]

definition freerange :: "addr \<Rightarrow> addr \<Rightarrow> 'a kmem_scheme \<Rightarrow> (unit \<times> 'a kmem_scheme) kres" where
  "freerange pa_start pa_end s = freerange_loop (PGROUNDUP pa_start) pa_end s"

definition kinit :: "'a kmem_scheme \<Rightarrow> (unit \<times> 'a kmem_scheme) kres" where
  "kinit s = freerange (end_sym s) PHYSTOP s"

subsection \<open>Pages and the free list\<close>

abbreviation in_page :: "addr \<Rightarrow> addr \<Rightarrow> bool" where
  "in_page p \<equiv> in_region p 4096"

primrec fl :: "memory \<Rightarrow> addr \<Rightarrow> addr list \<Rightarrow> bool" where
  "fl m p [] \<longleftrightarrow> p = 0"
| "fl m p (q # qs) \<longleftrightarrow> p = q \<and> q \<noteq> 0 \<and> fl m (load64 m q) qs"

definition kmem_ok :: "'a kmem_scheme \<Rightarrow> addr list \<Rightarrow> bool" where
  "kmem_ok s ps \<longleftrightarrow>
     0 < end_sym s \<and> fl (mem s) (freelist s) ps \<and> distinct ps \<and> (\<forall>p \<in> set ps. page_ok s p)"

lemma page_ok_nonzero: "0 < end_sym s \<Longrightarrow> page_ok s p \<Longrightarrow> p \<noteq> 0"
  by (auto simp: page_ok_def)

lemma page_unique:
  assumes "pg_aligned p" "pg_aligned q" "in_page p x" "in_page q x"
  shows "p = q"
  using in_region_aligned_unique [of p 4096 q x] assms by (simp add: pg_aligned_def)

lemma in_region_page: "in_region p 8 x \<Longrightarrow> in_page p x"
  by (simp add: in_region_def)

definition fill_page :: "memory \<Rightarrow> addr \<Rightarrow> u8 \<Rightarrow> memory" where
  "fill_page m p c = (\<lambda>x. if in_page p x then c else m x)"

lemma fill_page_in: "in_page p x \<Longrightarrow> fill_page m p c x = c"
  by (simp add: fill_page_def)

lemma fill_page_out [simp]: "\<not> in_page p x \<Longrightarrow> fill_page m p c x = m x"
  by (simp add: fill_page_def)

lemma memset_page [simp]: "memset m p c 4096 = fill_page m p (word_of_int c)"
  by (simp add: memset_eq in_region_def fill_page_def)

lemma store64_page_frame: "\<not> in_page p x \<Longrightarrow> store64 m p v x = m x"
  by (subst store64_other) (auto dest: in_region_page)

lemma fl_cong:
  "(\<And>x p. p \<in> set ps \<Longrightarrow> in_page p x \<Longrightarrow> m x = m' x) \<Longrightarrow> fl m p ps \<longleftrightarrow> fl m' p ps"
proof (induction ps arbitrary: p)
  case (Cons q qs)
  have "load64 m q = load64 m' q"
    by (rule load64_cong) (use Cons.prems in \<open>auto intro: in_region_page\<close>)
  moreover have "fl m (load64 m q) qs \<longleftrightarrow> fl m' (load64 m q) qs"
    by (rule Cons.IH) (use Cons.prems in auto)
  ultimately show ?case by auto
qed simp

lemma fl_unique: "fl m p ps \<Longrightarrow> fl m p qs \<Longrightarrow> ps = qs"
proof (induction ps arbitrary: p qs)
  case Nil then show ?case by (cases qs) auto
next
  case (Cons a ps) then show ?case by (cases qs) auto
qed

text \<open>The invariant depends on the memory only through the free pages.\<close>

lemma kmem_ok_frame:
  assumes "kmem_ok s ps" "freelist s' = freelist s" "end_sym s' = end_sym s"
    and "\<And>x p. p \<in> set ps \<Longrightarrow> in_page p x \<Longrightarrow> mem s' x = mem s x"
  shows "kmem_ok s' ps"
  using assms fl_cong [of ps "mem s" "mem s'" "freelist s"]
  by (auto simp: kmem_ok_def page_ok_def)

lemma kmem_ok_unique: "kmem_ok s ps \<Longrightarrow> kmem_ok s qs \<Longrightarrow> ps = qs"
  by (auto simp: kmem_ok_def dest: fl_unique)

subsection \<open>The contract of a page allocator\<close>

text \<open>
  What the clients of the allocator (page tables, pipes, kernel stacks, exec) rely on. \<open>inv s ps\<close>
  reads: the allocator is consistent and \<open>ps\<close> are its free pages, the next one to be handed
  out first. \<open>contents\<close> is the memory the allocator shares with its clients.
\<close>

locale page_allocator =
  fixes alloc :: "'s \<Rightarrow> addr \<times> 's"
    and free :: "addr \<Rightarrow> 's \<Rightarrow> (unit \<times> 's) kres"
    and inv :: "'s \<Rightarrow> addr list \<Rightarrow> bool"
    and page :: "'s \<Rightarrow> addr \<Rightarrow> bool"
    and contents :: "'s \<Rightarrow> memory"
  assumes alloc_empty: "inv s [] \<Longrightarrow> alloc s = (0, s)"
    and alloc_page: "inv s (p # ps) \<Longrightarrow> \<exists>s'. alloc s = (p, s') \<and> inv s' ps"
    and alloc_frame: "inv s (p # ps) \<Longrightarrow> alloc s = (r, s') \<Longrightarrow> \<not> in_page p x \<Longrightarrow> contents s' x = contents s x"
    and alloc_page_iff: "inv s ps \<Longrightarrow> alloc s = (r, s') \<Longrightarrow> page s' q \<longleftrightarrow> page s q"
    and free_page: "inv s ps \<Longrightarrow> page s p \<Longrightarrow> p \<notin> set ps \<Longrightarrow> \<exists>s'. free p s = Ok ((), s') \<and> inv s' (p # ps)"
    and free_frame: "free p s = Ok (u, s') \<Longrightarrow> \<not> in_page p x \<Longrightarrow> contents s' x = contents s x"
    and free_page_iff: "free p s = Ok (u, s') \<Longrightarrow> page s' q \<longleftrightarrow> page s q"
    and inv_pages: "inv s ps \<Longrightarrow> p \<in> set ps \<Longrightarrow> page s p"
    and inv_distinct: "inv s ps \<Longrightarrow> distinct ps"
    and page_nonzero: "inv s ps \<Longrightarrow> page s p \<Longrightarrow> p \<noteq> 0"
begin

lemma alloc_cases:
  assumes "inv s ps"
  obtains (none) "ps = []" "alloc s = (0, s)"
  | (some) p qs s' where "ps = p # qs" "alloc s = (p, s')" "inv s' qs" "p \<noteq> 0" "page s p" "p \<notin> set qs"
proof (cases ps)
  case Nil
  then show ?thesis using alloc_empty assms none by simp
next
  case (Cons p qs)
  with assms obtain s' where s': "alloc s = (p, s')" "inv s' qs" using alloc_page by blast
  have "p \<notin> set qs" using inv_distinct assms Cons by fastforce
  moreover have "page s p" using inv_pages assms Cons by simp
  ultimately show ?thesis using some [OF Cons s'] page_nonzero assms by blast
qed

lemma alloc_returns_zero_iff: "inv s ps \<Longrightarrow> fst (alloc s) = 0 \<longleftrightarrow> ps = []"
  by (erule alloc_cases) auto

lemma free_then_alloc:
  assumes "inv s ps" "page s p" "p \<notin> set ps" "free p s = Ok (r, s')"
  shows "\<exists>s''. alloc s' = (p, s'') \<and> inv s'' ps"
  using free_page [OF assms(1-3)] assms(4) alloc_page by fastforce

text \<open>Two allocations in a row never return the same page.\<close>

lemma alloc_alloc_distinct:
  assumes i: "inv s ps" and a: "alloc s = (p, s')" and b: "alloc s' = (q, s'')" and q: "q \<noteq> 0"
  shows "p \<noteq> q"
  using i
proof (cases rule: alloc_cases)
  case none
  then show ?thesis using a b q by auto
next
  case (some p' qs s1)
  then have p: "p' = p" "s1 = s'" using a by auto
  show ?thesis using some(3) unfolding p
  proof (cases rule: alloc_cases)
    case none
    then show ?thesis using b q by auto
  next
    case s2: (some q' rs s3)
    then show ?thesis using some(6) p b by auto
  qed
qed

end

subsection \<open>kalloc and kfree satisfy the contract\<close>

lemma kalloc_empty: "kmem_ok s [] \<Longrightarrow> kalloc s = (0, s)"
  by (simp add: kmem_ok_def kalloc_def)

lemma kalloc_Cons:
  assumes "kmem_ok s (p # ps)"
  shows "kalloc s = (p, s\<lparr>freelist := load64 (mem s) p, mem := fill_page (mem s) p 5\<rparr>)"
  using assms by (simp add: kmem_ok_def kalloc_def Let_def)

lemma kalloc_page:
  assumes ok: "kmem_ok s (p # ps)"
  shows "\<exists>s'. kalloc s = (p, s') \<and> kmem_ok s' ps"
proof -
  let ?m = "fill_page (mem s) p 5"
  have "fl (mem s) (load64 (mem s) p) ps" using ok by (simp add: kmem_ok_def)
  moreover have "fl (mem s) (load64 (mem s) p) ps \<longleftrightarrow> fl ?m (load64 (mem s) p) ps"
  proof (rule fl_cong)
    fix x q assume q: "q \<in> set ps" "in_page q x"
    then have "q \<noteq> p" using ok by (auto simp: kmem_ok_def)
    then have "\<not> in_page p x"
      using page_unique [of p q x] q ok by (auto simp: kmem_ok_def page_ok_def)
    then show "mem s x = ?m x" by simp
  qed
  ultimately have "kmem_ok (s\<lparr>freelist := load64 (mem s) p, mem := ?m\<rparr>) ps"
    using ok by (auto simp: kmem_ok_def page_ok_def)
  then show ?thesis using kalloc_Cons [OF ok] by blast
qed

lemma kfree_page:
  assumes ok: "kmem_ok s ps" and p: "page_ok s p" and new: "p \<notin> set ps"
  shows "\<exists>s'. kfree p s = Ok ((), s') \<and> kmem_ok s' (p # ps)"
proof -
  let ?m1 = "fill_page (mem s) p 1"
  let ?m = "store64 ?m1 p (freelist s)"
  have frame: "?m x = mem s x" if "\<not> in_page p x" for x
    using that by (simp add: store64_page_frame)
  have "fl (mem s) (freelist s) ps \<longleftrightarrow> fl ?m (freelist s) ps"
  proof (rule fl_cong)
    fix x q assume q: "q \<in> set ps" "in_page q x"
    then have "q \<noteq> p" using new by auto
    then have "\<not> in_page p x"
      using page_unique [of p q x] q p ok by (auto simp: kmem_ok_def page_ok_def)
    then show "mem s x = ?m x" using frame by simp
  qed
  then have "kmem_ok (s\<lparr>mem := ?m, freelist := p\<rparr>) (p # ps)"
    using ok p new page_ok_nonzero [of s p] by (auto simp: kmem_ok_def page_ok_def)
  moreover have "kfree p s = Ok ((), s\<lparr>mem := ?m, freelist := p\<rparr>)"
    using p by (simp add: kfree_eq)
  ultimately show ?thesis by blast
qed

lemma kfree_frame:
  "kfree p s = Ok (r, s') \<Longrightarrow> \<not> in_page p x \<Longrightarrow> mem s' x = mem s x"
  by (auto simp: kfree_eq store64_page_frame split: if_splits)

lemma kfree_end_sym: "kfree p s = Ok (r, s') \<Longrightarrow> end_sym s' = end_sym s"
  by (auto simp: kfree_eq split: if_splits)

lemma kfree_more: "kfree p s = Ok (r, s') \<Longrightarrow> kmem.more s' = kmem.more s"
  by (auto simp: kfree_eq split: if_splits)

lemma kalloc_end_sym [simp]: "end_sym (snd (kalloc s)) = end_sym s"
  by (simp add: kalloc_def Let_def)

lemma kalloc_more [simp]: "kmem.more (snd (kalloc s)) = kmem.more s"
  by (simp add: kalloc_def Let_def)

interpretation ka: page_allocator kalloc kfree kmem_ok page_ok mem
proof
  fix s s' :: "'a kmem_scheme" and p q r x ps
  show "kmem_ok s (p # ps) \<Longrightarrow> kalloc s = (r, s') \<Longrightarrow> \<not> in_page p x \<Longrightarrow> mem s' x = mem s x"
    by (auto simp: kalloc_Cons)
  show "kmem_ok s ps \<Longrightarrow> kalloc s = (r, s') \<Longrightarrow> page_ok s' q \<longleftrightarrow> page_ok s q"
    using kalloc_end_sym [of s] by (simp add: page_ok_def)
  show "kmem_ok s (p # ps) \<Longrightarrow> \<exists>s'. kalloc s = (p, s') \<and> kmem_ok s' ps"
    by (rule kalloc_page)
  show "kmem_ok s ps \<Longrightarrow> page_ok s p \<Longrightarrow> p \<notin> set ps \<Longrightarrow> \<exists>s'. kfree p s = Ok ((), s') \<and> kmem_ok s' (p # ps)"
    by (rule kfree_page)
qed (auto simp: kalloc_empty kfree_frame page_ok_nonzero kmem_ok_def page_ok_def
      dest: kfree_end_sym)

subsection \<open>Boot: kinit hands every page to the allocator\<close>

definition managed_pages :: "addr \<Rightarrow> addr set" where
  "managed_pages a = {q. pg_aligned q \<and> a \<le> q \<and> q < PHYSTOP}"

lemma page_ok_managed: "page_ok s p \<longleftrightarrow> p \<in> managed_pages (end_sym s)"
  by (simp add: page_ok_def managed_pages_def)

lemma managed_pages_step:
  assumes al: "pg_aligned p" and lt: "unat p + 4096 \<le> unat PHYSTOP"
  shows "managed_pages p = insert p (managed_pages (p + PGSIZE))"
proof -
  have u: "unat (p + PGSIZE) = unat p + 4096"
    using lt by (subst unat_add_small) (simp_all add: PHYSTOP_val)
  have "q = p \<or> unat p + 4096 \<le> unat q" if q: "pg_aligned q" "unat p \<le> unat q" for q
    using pg_aligned_le [OF q(1) al] q(2) word_eq_unatI [of q p] by linarith
  then show ?thesis
    unfolding managed_pages_def using al lt u
    by (auto simp: word_le_nat_alt word_less_nat_alt)
qed

lemma managed_pages_end:
  assumes al: "pg_aligned p" and ge: "unat PHYSTOP < unat p + 4096"
  shows "managed_pages p = {}"
proof -
  have False if q: "pg_aligned q" "unat p \<le> unat q" "unat q < 0x88000000" for q :: addr
    using pg_aligned_le [of "0x88000000" q] al q ge by (simp add: PHYSTOP_val pg_aligned_def)
  then show ?thesis
    by (auto simp: managed_pages_def word_le_nat_alt word_less_nat_alt PHYSTOP_val)
qed

lemma freerange_loop_ok:
  assumes "kmem_ok s ps" "pg_aligned p" "end_sym s \<le> p" "p \<le> PHYSTOP" "\<forall>q \<in> set ps. q < p"
  shows "\<exists>s' qs. freerange_loop p PHYSTOP s = Ok ((), s') \<and> kmem_ok s' (qs @ ps) \<and>
    set qs = managed_pages p \<and> end_sym s' = end_sym s"
  using assms
proof (induction "(0x88000000 - unat p) div 4096" arbitrary: p s ps)
  case 0
  then have "unat PHYSTOP < unat p + 4096"
    by (auto simp: PHYSTOP_val word_le_nat_alt div_eq_0_iff)
  moreover from this have "\<not> p + PGSIZE \<le> PHYSTOP"
    using 0 by (subst word_le_nat_alt, subst unat_add_small) (auto simp: PHYSTOP_val word_le_nat_alt)
  ultimately show ?case
    using 0 managed_pages_end [of p] by (subst freerange_loop.simps) auto
next
  case (Suc k)
  have le: "unat p + 4096 \<le> unat PHYSTOP" using Suc.hyps(2) by (simp add: PHYSTOP_val)
  have u: "unat (p + PGSIZE) = unat p + 4096"
    using le by (subst unat_add_small) (simp_all add: PHYSTOP_val)
  have "page_ok s p" using Suc.prems le by (auto simp: page_ok_def PHYSTOP_val word_less_nat_alt)
  moreover have "p \<notin> set ps" using Suc.prems(5) by auto
  ultimately obtain s1 where s1: "kfree p s = Ok ((), s1)" "kmem_ok s1 (p # ps)"
    using ka.free_page [OF Suc.prems(1)] by blast
  have e1: "end_sym s1 = end_sym s" using s1(1) by (rule kfree_end_sym)
  have "\<exists>s' qs. freerange_loop (p + PGSIZE) PHYSTOP s1 = Ok ((), s') \<and>
      kmem_ok s' (qs @ p # ps) \<and> set qs = managed_pages (p + PGSIZE) \<and> end_sym s' = end_sym s1"
  proof (rule Suc.hyps(1))
    show "k = (0x88000000 - unat (p + PGSIZE)) div 4096" using Suc.hyps(2) u by simp
    show "pg_aligned (p + PGSIZE)" using Suc.prems(2) by (simp add: pg_aligned_step)
    show "end_sym s1 \<le> p + PGSIZE" using Suc.prems(3) u e1 by (simp add: word_le_nat_alt)
    show "p + PGSIZE \<le> PHYSTOP" using le u by (simp add: word_le_nat_alt)
    show "\<forall>q\<in>set (p # ps). q < p + PGSIZE" using Suc.prems(5) u by (auto simp: word_less_nat_alt)
  qed (rule s1(2))
  then obtain s' qs where s': "freerange_loop (p + PGSIZE) PHYSTOP s1 = Ok ((), s')"
      "kmem_ok s' ((qs @ [p]) @ ps)" "set qs = managed_pages (p + PGSIZE)" "end_sym s' = end_sym s1" by auto
  have "p + PGSIZE \<le> PHYSTOP" using le u by (simp add: word_le_nat_alt)
  then have "freerange_loop p PHYSTOP s = Ok ((), s')"
    using s1(1) s'(1) by (subst freerange_loop.simps) simp
  moreover have "set (qs @ [p]) = managed_pages p"
    using s'(3) managed_pages_step [OF Suc.prems(2) le] by simp
  ultimately show ?case
    using s'(2,4) e1 by (intro exI [of _ s'] exI [of _ "qs @ [p]"]) simp
qed

text \<open>
  C32: boot hands every page of RAM to the allocator. From an empty free list and any kernel
  image end below \<^verbatim>\<open>PHYSTOP\<close>, \<^verbatim>\<open>kinit\<close> returns without panicking, the free list it builds is
  well formed (distinct pages, linked through memory), and the pages on it are exactly the
  aligned pages from \<^verbatim>\<open>end\<close> up to \<^verbatim>\<open>PHYSTOP\<close>.
\<close>

theorem kinit_frees_all_pages:
  assumes "0 < end_sym s" "end_sym s \<le> PHYSTOP" "freelist s = 0"
  shows "\<exists>s' ps. kinit s = Ok ((), s') \<and> kmem_ok s' ps \<and> set ps = managed_pages (end_sym s)"
proof -
  have e: "unat (end_sym s) \<le> 0x88000000" using assms(2) by (simp add: word_le_nat_alt PHYSTOP_val)
  have ge: "end_sym s \<le> PGROUNDUP (end_sym s)" using e by (intro PGROUNDUP_ge) simp
  have up: "unat (PGROUNDUP (end_sym s)) = 4096 * ((unat (end_sym s) + 4095) div 4096)"
    using e by (intro unat_PGROUNDUP) simp
  have le: "PGROUNDUP (end_sym s) \<le> PHYSTOP"
    using e by (simp add: word_le_nat_alt up PHYSTOP_val)
  have ok: "kmem_ok s []" using assms by (simp add: kmem_ok_def)
  obtain s' qs where s': "freerange_loop (PGROUNDUP (end_sym s)) PHYSTOP s = Ok ((), s')"
    "kmem_ok s' (qs @ [])" "set qs = managed_pages (PGROUNDUP (end_sym s))"
    using freerange_loop_ok [OF ok PGROUNDUP_aligned ge le] by auto
  have "PGROUNDUP (end_sym s) \<le> q" if q: "pg_aligned q" "end_sym s \<le> q" for q
  proof (rule ccontr)
    assume "\<not> ?thesis"
    then have "unat q < unat (PGROUNDUP (end_sym s))" by (simp add: word_le_nat_alt)
    then have "unat q + 4096 \<le> unat (PGROUNDUP (end_sym s))"
      by (rule pg_aligned_le [OF PGROUNDUP_aligned q(1)])
    with q(2) e show False using PGROUNDUP_less [of "end_sym s"] by (simp add: word_le_nat_alt)
  qed
  then have "managed_pages (PGROUNDUP (end_sym s)) = managed_pages (end_sym s)"
    using ge by (auto simp: managed_pages_def intro: order_trans)
  then show ?thesis using s' by (auto simp: kinit_def freerange_def)
qed

theorem kinit_frees_all_pages_witness:
  "\<exists>s' ps. kinit \<lparr>mem = (\<lambda>_. 0), freelist = 0, end_sym = 0x80021d10\<rparr> = Ok ((), s') \<and>
     kmem_ok s' ps \<and> set ps = managed_pages 0x80021d10"
  using kinit_frees_all_pages [of "\<lparr>mem = (\<lambda>_. 0), freelist = 0, end_sym = 0x80021d10\<rparr>"]
  by (simp add: PHYSTOP_val)

text \<open>
  C33: allocation hands out a page nobody else holds. On a consistent allocator \<^verbatim>\<open>kalloc\<close> returns
  0 exactly when no page is free; otherwise it returns the head of the list, filled with the
  junk byte 5, keeps the remaining list consistent, no longer lists that page, and changes no
  byte outside it. Freeing the page again puts it back in front.
\<close>

theorem kalloc_kfree_correct:
  assumes ok: "kmem_ok s ps" and al: "kalloc s = (p, s')"
  shows "(p = 0 \<longleftrightarrow> ps = []) \<and>
    (p \<noteq> 0 \<longrightarrow> ps = p # tl ps \<and> kmem_ok s' (tl ps) \<and> p \<notin> set (tl ps) \<and> page_ok s' p \<and>
      (\<forall>x. mem s' x = (if in_page p x then 5 else mem s x)) \<and>
      (\<exists>s''. kfree p s' = Ok ((), s'') \<and> kmem_ok s'' ps \<and> (\<forall>x. \<not> in_page p x \<longrightarrow> mem s'' x = mem s x)))"
  using ok
proof (cases rule: ka.alloc_cases)
  case none
  then show ?thesis using al by simp
next
  case (some q qs t)
  then have eq: "q = p" "t = s'" using al by auto
  have m: "mem s' x = (if in_page p x then 5 else mem s x)" for x
    using kalloc_Cons [of s p qs] some ok eq by (auto simp: fill_page_def)
  have pg: "page_ok s' p" using some eq ka.alloc_page_iff [OF ok al] by simp
  obtain s'' where s'': "kfree p s' = Ok ((), s'')" "kmem_ok s'' (p # qs)"
    using ka.free_page [OF _ pg] some eq by blast
  have "mem s'' x = mem s x" if "\<not> in_page p x" for x
    using that ka.free_frame [OF s''(1)] m by simp
  then show ?thesis using some eq m pg s'' by auto
qed

theorem kalloc_kfree_correct_witness:
  "kmem_ok \<lparr>mem = (\<lambda>_. 0), freelist = 0x80000000, end_sym = 0x80000000\<rparr> [0x80000000] \<and>
   mem (snd (kalloc \<lparr>mem = (\<lambda>_. 0), freelist = 0x80000000, end_sym = 0x80000000\<rparr>)) 0x80000ABC = 5"
proof -
  let ?s = "\<lparr>mem = (\<lambda>_. 0), freelist = 0x80000000, end_sym = 0x80000000\<rparr>"
  have ok: "kmem_ok ?s [0x80000000]"
    by (simp add: kmem_ok_def load64_zero page_ok_def PHYSTOP_val pg_aligned_def)
  obtain s' where al: "kalloc ?s = (0x80000000, s')" by (simp add: kalloc_def Let_def)
  have "mem s' 0x80000ABC = 5"
    using kalloc_kfree_correct [OF ok al] by (simp add: in_region_def)
  then show ?thesis using ok al by simp
qed

text \<open>
  \<^verbatim>\<open>kfree\<close> refuses exactly the addresses that are not pages of the managed range: it panics
  when the address is unaligned, below \<^verbatim>\<open>end\<close> or not below \<^verbatim>\<open>PHYSTOP\<close>, and returns otherwise.
\<close>

theorem kfree_panics_iff:
  "(kfree pa s = Panic ''kfree'' \<longleftrightarrow> \<not> page_ok s pa) \<and>
   (page_ok s pa \<longleftrightarrow> (\<exists>s'. kfree pa s = Ok ((), s') \<and> freelist s' = pa \<and> load64 (mem s') pa = freelist s))"
  by (auto simp: kfree_eq)

end
