(* ===== verification/Vm.thy ===== *)
theory Vm
  imports Kalloc
begin

section \<open>kernel/vm.c: page tables and user memory\<close>

text \<open>
  The operations of \<^verbatim>\<open>kernel/vm.c\<close> on the byte memory of the page allocator. A page table is what
  it is in the kernel: a page of 512 little-endian entries in memory. Kernel-side buffers (the \<^verbatim>\<open>src\<close> of
  \<^verbatim>\<open>copyout\<close>, the \<^verbatim>\<open>dst\<close> of \<^verbatim>\<open>copyin\<close>) are byte lists: they are kernel objects, never pages of a user
  table. \<^verbatim>\<open>myproc()\<close> is used by \<^verbatim>\<open>vmfault\<close> only for \<^verbatim>\<open>p->sz\<close> and \<^verbatim>\<open>p->pagetable\<close>; they are two fields of
  the state. Reading through a null \<^verbatim>\<open>pte_t *\<close> is a fault in the kernel, which \<^verbatim>\<open>kerneltrap\<close> turns into
  a panic. The loops are bounded because \<^verbatim>\<open>walk\<close> panics at \<^verbatim>\<open>MAXVA\<close>, or because every round
  consumes at least one byte.
\<close>

unbundle bit_operations_syntax

record vm = kmem +
  p_sz :: u64
  p_pagetable :: addr

subsection \<open>walk, walkaddr, mappages\<close>

definition pte_addr :: "addr \<Rightarrow> nat \<Rightarrow> u64 \<Rightarrow> addr" where
  "pte_addr pagetable level va = pagetable + 8 * PX level va"

primrec walk_loop :: "nat \<Rightarrow> addr \<Rightarrow> u64 \<Rightarrow> bool \<Rightarrow> 'a kmem_scheme \<Rightarrow> addr \<times> 'a kmem_scheme" where
  "walk_loop 0 pagetable va alloc s = (pte_addr pagetable 0 va, s)"
| "walk_loop (Suc level) pagetable va alloc s =
     (let pte = pte_addr pagetable (Suc level) va; e = load64 (mem s) pte in
      if e AND PTE_V \<noteq> 0 then walk_loop level (PTE2PA e) va alloc s
      else if \<not> alloc then (0, s)
      else case kalloc s of (pg, s1) \<Rightarrow>
        if pg = 0 then (0, s1)
        else walk_loop level pg va alloc
               (s1\<lparr>mem := store64 (memset (mem s1) pg 0 (ucast PGSIZE)) pte (PA2PTE pg OR PTE_V)\<rparr>))"

definition walk :: "addr \<Rightarrow> u64 \<Rightarrow> bool \<Rightarrow> 'a kmem_scheme \<Rightarrow> (addr \<times> 'a kmem_scheme) kres" where
  "walk pagetable va alloc s =
     (if va \<ge> MAXVA then Panic ''walk'' else Ok (walk_loop 2 pagetable va alloc s))"

definition walkaddr :: "addr \<Rightarrow> u64 \<Rightarrow> 'a kmem_scheme \<Rightarrow> (u64 \<times> 'a kmem_scheme) kres" where
  "walkaddr pagetable va s =
     (if va \<ge> MAXVA then Ok (0, s)
      else kbind (walk pagetable va False s) (\<lambda>(pte, s1).
        if pte = 0 then Ok (0, s1)
        else let e = load64 (mem s1) pte in
          if e AND PTE_V = 0 then Ok (0, s1)
          else if e AND PTE_U = 0 then Ok (0, s1)
          else Ok (PTE2PA e, s1)))"

lemma walk_Ok_less: "walk pagetable va alloc s = Ok r \<Longrightarrow> unat va < 0x4000000000"
  by (auto simp: walk_def word_le_nat_alt split: if_splits)

text \<open>A step to the next page brings the loop variable closer to \<^verbatim>\<open>MAXVA\<close>.\<close>

lemma next_page_measure:
  "unat (a :: u64) < 0x4000000000 \<Longrightarrow> 0x4000000000 - unat (a + PGSIZE) < 0x4000000000 - unat a"
  by (simp, subst unat_add_small) simp_all

function mappages_loop ::
  "addr \<Rightarrow> u64 \<Rightarrow> u64 \<Rightarrow> u64 \<Rightarrow> u64 \<Rightarrow> 'a kmem_scheme \<Rightarrow> (int \<times> 'a kmem_scheme) kres" where
  "mappages_loop pagetable a last_va pa perm s =
     kbind (walk pagetable a True s) (\<lambda>r.
       let pte = fst r; s1 = snd r in
       if pte = 0 then Ok (- 1, s1)
       else if load64 (mem s1) pte AND PTE_V \<noteq> 0 then Panic ''mappages: remap''
       else let s2 = s1\<lparr>mem := store64 (mem s1) pte (PA2PTE pa OR perm OR PTE_V)\<rparr> in
         if a = last_va then Ok (0, s2)
         else mappages_loop pagetable (a + PGSIZE) last_va (pa + PGSIZE) perm s2)"
  by pat_completeness auto

termination mappages_loop
  by (relation "measure (\<lambda>(pt, a, l, pa, pm, s). 0x4000000000 - unat a)")
    (auto dest!: walk_Ok_less intro!: next_page_measure simp del: PGSIZE_def)

declare mappages_loop.simps [simp del]

definition mappages ::
  "addr \<Rightarrow> u64 \<Rightarrow> u64 \<Rightarrow> u64 \<Rightarrow> u64 \<Rightarrow> 'a kmem_scheme \<Rightarrow> (int \<times> 'a kmem_scheme) kres" where
  "mappages pagetable va sz pa perm s =
     (if va mod PGSIZE \<noteq> 0 then Panic ''mappages: va not aligned''
      else if sz mod PGSIZE \<noteq> 0 then Panic ''mappages: size not aligned''
      else if sz = 0 then Panic ''mappages: size''
      else mappages_loop pagetable va (va + sz - PGSIZE) pa perm s)"

subsection \<open>The kernel's page table\<close>

definition kvmmap :: "addr \<Rightarrow> u64 \<Rightarrow> u64 \<Rightarrow> u64 \<Rightarrow> u64 \<Rightarrow> 'a kmem_scheme \<Rightarrow> (unit \<times> 'a kmem_scheme) kres" where
  "kvmmap kpgtbl va pa sz perm s =
     kbind (mappages kpgtbl va sz pa perm s) (\<lambda>(r, s1).
       if r \<noteq> 0 then Panic ''kvmmap'' else Ok ((), s1))"

primrec proc_mapstacks_loop :: "addr \<Rightarrow> nat \<Rightarrow> nat \<Rightarrow> 'a kmem_scheme \<Rightarrow> (unit \<times> 'a kmem_scheme) kres" where
  "proc_mapstacks_loop kpgtbl i 0 s = Ok ((), s)"
| "proc_mapstacks_loop kpgtbl i (Suc n) s =
     (case kalloc s of (pa, s1) \<Rightarrow>
        if pa = 0 then Panic ''kalloc''
        else kbind (kvmmap kpgtbl (KSTACK (of_nat i)) pa PGSIZE (PTE_R OR PTE_W) s1) (\<lambda>(_, s2).
          proc_mapstacks_loop kpgtbl (Suc i) n s2))"

definition proc_mapstacks :: "addr \<Rightarrow> 'a kmem_scheme \<Rightarrow> (unit \<times> 'a kmem_scheme) kres" where
  "proc_mapstacks kpgtbl s = proc_mapstacks_loop kpgtbl 0 NPROC s"

definition kvmmake :: "u64 \<Rightarrow> u64 \<Rightarrow> 'a kmem_scheme \<Rightarrow> (addr \<times> 'a kmem_scheme) kres" where
  "kvmmake etext trampoline s =
     (case kalloc s of (kpgtbl, s0) \<Rightarrow>
      let s1 = s0\<lparr>mem := memset (mem s0) kpgtbl 0 (ucast PGSIZE)\<rparr> in
      kbind (kvmmap kpgtbl UART0 UART0 PGSIZE (PTE_R OR PTE_W) s1) (\<lambda>(_, s2).
      kbind (kvmmap kpgtbl VIRTIO0 VIRTIO0 PGSIZE (PTE_R OR PTE_W) s2) (\<lambda>(_, s3).
      kbind (kvmmap kpgtbl PLIC PLIC 0x4000000 (PTE_R OR PTE_W) s3) (\<lambda>(_, s4).
      kbind (kvmmap kpgtbl KERNBASE KERNBASE (etext - KERNBASE) (PTE_R OR PTE_X) s4) (\<lambda>(_, s5).
      kbind (kvmmap kpgtbl etext etext (PHYSTOP - etext) (PTE_R OR PTE_W) s5) (\<lambda>(_, s6).
      kbind (kvmmap kpgtbl TRAMPOLINE trampoline PGSIZE (PTE_R OR PTE_X) s6) (\<lambda>(_, s7).
      kbind (proc_mapstacks kpgtbl s7) (\<lambda>(_, s8). Ok (kpgtbl, s8)))))))))"

subsection \<open>User page tables\<close>

definition uvmcreate :: "'a kmem_scheme \<Rightarrow> addr \<times> 'a kmem_scheme" where
  "uvmcreate s =
     (case kalloc s of (pagetable, s1) \<Rightarrow>
        if pagetable = 0 then (0, s1)
        else (pagetable, s1\<lparr>mem := memset (mem s1) pagetable 0 (ucast PGSIZE)\<rparr>))"

function uvmunmap_loop ::
  "addr \<Rightarrow> u64 \<Rightarrow> u64 \<Rightarrow> bool \<Rightarrow> 'a kmem_scheme \<Rightarrow> (unit \<times> 'a kmem_scheme) kres" where
  "uvmunmap_loop pagetable a stop do_free s =
     (if a < stop
      then kbind (walk pagetable a False s) (\<lambda>r.
        let pte = fst r; s1 = snd r in
        if pte = 0 then uvmunmap_loop pagetable (a + PGSIZE) stop do_free s1
        else if load64 (mem s1) pte AND PTE_V = 0
        then uvmunmap_loop pagetable (a + PGSIZE) stop do_free s1
        else kbind (if do_free then kfree (PTE2PA (load64 (mem s1) pte)) s1 else Ok ((), s1)) (\<lambda>r2.
          uvmunmap_loop pagetable (a + PGSIZE) stop do_free
            ((snd r2)\<lparr>mem := store64 (mem (snd r2)) pte 0\<rparr>)))
      else Ok ((), s))"
  by pat_completeness auto

termination uvmunmap_loop
  by (relation "measure (\<lambda>(pt, a, l, f, s). 0x4000000000 - unat a)")
    (auto dest!: walk_Ok_less intro!: next_page_measure simp del: PGSIZE_def)

declare uvmunmap_loop.simps [simp del]

definition uvmunmap ::
  "addr \<Rightarrow> u64 \<Rightarrow> u64 \<Rightarrow> bool \<Rightarrow> 'a kmem_scheme \<Rightarrow> (unit \<times> 'a kmem_scheme) kres" where
  "uvmunmap pagetable va npages do_free s =
     (if va mod PGSIZE \<noteq> 0 then Panic ''uvmunmap: not aligned''
      else uvmunmap_loop pagetable va (va + npages * PGSIZE) do_free s)"

text \<open>\<^verbatim>\<open>uvmdealloc\<close> narrows the page count to \<^verbatim>\<open>int\<close> before it is widened again for \<^verbatim>\<open>uvmunmap\<close>.\<close>

definition uvmdealloc :: "addr \<Rightarrow> u64 \<Rightarrow> u64 \<Rightarrow> 'a kmem_scheme \<Rightarrow> (u64 \<times> 'a kmem_scheme) kres" where
  "uvmdealloc pagetable oldsz newsz s =
     (if newsz \<ge> oldsz then Ok (oldsz, s)
      else if PGROUNDUP newsz < PGROUNDUP oldsz
      then let npages = (ucast ((PGROUNDUP oldsz - PGROUNDUP newsz) div PGSIZE) :: u32) in
        kbind (uvmunmap pagetable (PGROUNDUP newsz) (scast npages) True s) (\<lambda>(_, s1). Ok (newsz, s1))
      else Ok (newsz, s))"

lemma mappages_Ok_less: "mappages pagetable a sz pa perm s = Ok r \<Longrightarrow> unat a < 0x4000000000"
  by (auto simp: mappages_def mappages_loop.simps [of pagetable a] split: if_splits dest!: walk_Ok_less)

function uvmalloc_loop ::
  "addr \<Rightarrow> u64 \<Rightarrow> u64 \<Rightarrow> u64 \<Rightarrow> u64 \<Rightarrow> 'a kmem_scheme \<Rightarrow> (u64 \<times> 'a kmem_scheme) kres" where
  "uvmalloc_loop pagetable oldsz a newsz xperm s =
     (if a < newsz
      then let pg = fst (kalloc s); s1 = snd (kalloc s) in
        if pg = 0 then kbind (uvmdealloc pagetable a oldsz s1) (\<lambda>(_, s2). Ok (0, s2))
        else kbind (mappages pagetable a PGSIZE pg (PTE_R OR PTE_U OR xperm)
                      (s1\<lparr>mem := memset (mem s1) pg 0 (ucast PGSIZE)\<rparr>)) (\<lambda>r.
          if fst r \<noteq> 0
          then kbind (kfree pg (snd r)) (\<lambda>(_, s3).
            kbind (uvmdealloc pagetable a oldsz s3) (\<lambda>(_, s4). Ok (0, s4)))
          else uvmalloc_loop pagetable oldsz (a + PGSIZE) newsz xperm (snd r))
      else Ok (newsz, s))"
  by pat_completeness auto

termination uvmalloc_loop
  by (relation "measure (\<lambda>(pt, osz, a, n, x, s). 0x4000000000 - unat a)")
    (auto dest!: mappages_Ok_less intro!: next_page_measure simp del: PGSIZE_def)

declare uvmalloc_loop.simps [simp del]

definition uvmalloc :: "addr \<Rightarrow> u64 \<Rightarrow> u64 \<Rightarrow> u64 \<Rightarrow> 'a kmem_scheme \<Rightarrow> (u64 \<times> 'a kmem_scheme) kres" where
  "uvmalloc pagetable oldsz newsz xperm s =
     (if newsz < oldsz then Ok (oldsz, s)
      else uvmalloc_loop pagetable (PGROUNDUP oldsz) (PGROUNDUP oldsz) newsz xperm s)"

text \<open>
  \<^verbatim>\<open>freewalk\<close> recurses through entries that have \<^verbatim>\<open>PTE_V\<close> and none of the access bits. The first
  argument bounds the depth of the recursion; running out of it stands for a recursion that
  does not return. Tables built by \<^verbatim>\<open>walk\<close> are three levels deep, so depth 3 is always enough for them.
\<close>

fun freewalk_depth :: "nat \<Rightarrow> addr \<Rightarrow> 'a kmem_scheme \<Rightarrow> (unit \<times> 'a kmem_scheme) kres"
  and freewalk_loop :: "nat \<Rightarrow> addr \<Rightarrow> nat \<Rightarrow> nat \<Rightarrow> 'a kmem_scheme \<Rightarrow> (unit \<times> 'a kmem_scheme) kres" where
  "freewalk_depth 0 pagetable s = Blocked"
| "freewalk_depth (Suc d) pagetable s =
     kbind (freewalk_loop d pagetable 0 512 s) (\<lambda>(_, s1). kfree pagetable s1)"
| "freewalk_loop d pagetable i 0 s = Ok ((), s)"
| "freewalk_loop d pagetable i (Suc n) s =
     (let pte = load64 (mem s) (pagetable + 8 * of_nat i) in
      if pte AND PTE_V \<noteq> 0 \<and> pte AND (PTE_R OR PTE_W OR PTE_X) = 0
      then kbind (freewalk_depth d (PTE2PA pte) s) (\<lambda>(_, s1).
        freewalk_loop d pagetable (Suc i) n (s1\<lparr>mem := store64 (mem s1) (pagetable + 8 * of_nat i) 0\<rparr>))
      else if pte AND PTE_V \<noteq> 0 then Panic ''freewalk: leaf''
      else freewalk_loop d pagetable (Suc i) n s)"

definition freewalk :: "addr \<Rightarrow> 'a kmem_scheme \<Rightarrow> (unit \<times> 'a kmem_scheme) kres" where
  "freewalk pagetable s = freewalk_depth 3 pagetable s"

definition uvmfree :: "addr \<Rightarrow> u64 \<Rightarrow> 'a kmem_scheme \<Rightarrow> (unit \<times> 'a kmem_scheme) kres" where
  "uvmfree pagetable sz s =
     kbind (if sz > 0 then uvmunmap pagetable 0 (PGROUNDUP sz div PGSIZE) True s else Ok ((), s))
       (\<lambda>(_, s1). freewalk pagetable s1)"

function uvmcopy_loop :: "addr \<Rightarrow> addr \<Rightarrow> u64 \<Rightarrow> u64 \<Rightarrow> 'a kmem_scheme \<Rightarrow> (int \<times> 'a kmem_scheme) kres" where
  "uvmcopy_loop old new i sz s =
     (if i < sz
      then kbind (walk old i False s) (\<lambda>r.
        let pte = fst r; s1 = snd r; e = load64 (mem s1) pte in
        if pte = 0 then uvmcopy_loop old new (i + PGSIZE) sz s1
        else if e AND PTE_V = 0 then uvmcopy_loop old new (i + PGSIZE) sz s1
        else let pg = fst (kalloc s1); s2 = snd (kalloc s1) in
          if pg = 0
          then kbind (uvmunmap new 0 (i div PGSIZE) True s2) (\<lambda>(_, s3). Ok (- 1, s3))
          else kbind (mappages new i PGSIZE pg (PTE_FLAGS e)
                        (s2\<lparr>mem := memmove (mem s2) pg (PTE2PA e) (ucast PGSIZE)\<rparr>)) (\<lambda>r3.
            if fst r3 \<noteq> 0
            then kbind (kfree pg (snd r3)) (\<lambda>(_, s4).
              kbind (uvmunmap new 0 (i div PGSIZE) True s4) (\<lambda>(_, s5). Ok (- 1, s5)))
            else uvmcopy_loop old new (i + PGSIZE) sz (snd r3)))
      else Ok (0, s))"
  by pat_completeness auto

termination uvmcopy_loop
  by (relation "measure (\<lambda>(old, new, i, sz, s). 0x4000000000 - unat i)")
    (auto dest!: walk_Ok_less intro!: next_page_measure simp del: PGSIZE_def)

declare uvmcopy_loop.simps [simp del]

definition uvmcopy :: "addr \<Rightarrow> addr \<Rightarrow> u64 \<Rightarrow> 'a kmem_scheme \<Rightarrow> (int \<times> 'a kmem_scheme) kres" where
  "uvmcopy old new sz s = uvmcopy_loop old new 0 sz s"

definition uvmclear :: "addr \<Rightarrow> u64 \<Rightarrow> 'a kmem_scheme \<Rightarrow> (unit \<times> 'a kmem_scheme) kres" where
  "uvmclear pagetable va s =
     kbind (walk pagetable va False s) (\<lambda>(pte, s1).
       if pte = 0 then Panic ''uvmclear''
       else Ok ((), s1\<lparr>mem := store64 (mem s1) pte (load64 (mem s1) pte AND NOT PTE_U)\<rparr>))"

subsection \<open>Page faults and copying between kernel and user\<close>

definition ismapped :: "addr \<Rightarrow> u64 \<Rightarrow> 'a kmem_scheme \<Rightarrow> (bool \<times> 'a kmem_scheme) kres" where
  "ismapped pagetable va s =
     kbind (walk pagetable va False s) (\<lambda>(pte, s1).
       if pte = 0 then Ok (False, s1) else Ok (load64 (mem s1) pte AND PTE_V \<noteq> 0, s1))"

definition vmfault :: "addr \<Rightarrow> u64 \<Rightarrow> bool \<Rightarrow> 'a vm_scheme \<Rightarrow> (u64 \<times> 'a vm_scheme) kres" where
  "vmfault pagetable va0 rd s =
     (if va0 \<ge> p_sz s then Ok (0, s)
      else let va = PGROUNDDOWN va0 in
        kbind (ismapped pagetable va s) (\<lambda>(mapped, s1).
          if mapped then Ok (0, s1)
          else case kalloc s1 of (pg, s2) \<Rightarrow>
            if pg = 0 then Ok (0, s2)
            else kbind (mappages (p_pagetable s2) va PGSIZE pg (PTE_W OR PTE_U OR PTE_R)
                          (s2\<lparr>mem := memset (mem s2) pg 0 (ucast PGSIZE)\<rparr>)) (\<lambda>(r, s3).
              if r \<noteq> 0 then kbind (kfree pg s3) (\<lambda>(_, s4). Ok (0, s4))
              else Ok (pg, s3))))"

text \<open>\<open>page_chunk va len\<close>: how many of \<open>len\<close> bytes fit in the page of \<open>va\<close>.\<close>

definition page_chunk :: "u64 \<Rightarrow> nat \<Rightarrow> nat" where
  "page_chunk va len = min (4096 - unat (va - PGROUNDDOWN va)) len"

lemma page_offset: "unat (va - PGROUNDDOWN va) = unat va mod 4096"
proof -
  have "unat (va - PGROUNDDOWN va) = unat va - unat (PGROUNDDOWN va)"
    by (rule unat_sub) (rule PGROUNDDOWN_le)
  then show ?thesis by (simp add: unat_PGROUNDDOWN minus_mult_div_eq_mod)
qed

lemma page_chunk_pos: "0 < len \<Longrightarrow> 0 < page_chunk va len"
  by (simp add: page_chunk_def page_offset)

lemma page_chunk_le: "page_chunk va len \<le> len"
  by (simp add: page_chunk_def)

text \<open>The page a copy works on: mapped already, or allocated now by the page fault path.\<close>

definition user_page :: "addr \<Rightarrow> u64 \<Rightarrow> 'a vm_scheme \<Rightarrow> (u64 \<times> 'a vm_scheme) kres" where
  "user_page pagetable va0 s =
     kbind (walkaddr pagetable va0 s) (\<lambda>(pa0, s1).
       if pa0 = 0 then vmfault pagetable va0 False s1 else Ok (pa0, s1))"

function copyout :: "addr \<Rightarrow> u64 \<Rightarrow> u8 list \<Rightarrow> 'a vm_scheme \<Rightarrow> (int \<times> 'a vm_scheme) kres" where
  "copyout pagetable dstva src s =
     (if src = [] then Ok (0, s)
      else let va0 = PGROUNDDOWN dstva; n = page_chunk dstva (length src) in
        if va0 \<ge> MAXVA then Ok (- 1, s)
        else kbind (user_page pagetable va0 s) (\<lambda>r.
          if fst r = 0 then Ok (- 1, snd r)
          else kbind (walk pagetable va0 False (snd r)) (\<lambda>w.
            if fst w = 0 then Panic ''kerneltrap''
            else if load64 (mem (snd w)) (fst w) AND PTE_W = 0 then Ok (- 1, snd w)
            else copyout pagetable (va0 + PGSIZE) (drop n src)
                   ((snd w)\<lparr>mem := store_bytes (mem (snd w)) (fst r + (dstva - va0)) (take n src)\<rparr>))))"
  by pat_completeness auto

termination copyout
  by (relation "measure (\<lambda>(pt, va, src, s). length src)") (auto simp: page_chunk_pos)

declare copyout.simps [simp del]

function copyin :: "addr \<Rightarrow> u64 \<Rightarrow> nat \<Rightarrow> 'a vm_scheme \<Rightarrow> ((int \<times> u8 list) \<times> 'a vm_scheme) kres" where
  "copyin pagetable srcva len s =
     (if len = 0 then Ok ((0, []), s)
      else let va0 = PGROUNDDOWN srcva; n = page_chunk srcva len in
        kbind (user_page pagetable va0 s) (\<lambda>r.
          if fst r = 0 then Ok ((- 1, []), snd r)
          else let bs = load_bytes (mem (snd r)) (fst r + (srcva - va0)) n in
            kbind (copyin pagetable (va0 + PGSIZE) (len - n) (snd r)) (\<lambda>((e, rest), s2).
              Ok ((e, bs @ rest), s2))))"
  by pat_completeness auto

termination copyin
  by (relation "measure (\<lambda>(pt, va, len, s). len)") (auto simp: page_chunk_pos)

declare copyin.simps [simp del]

primrec copyinstr_page :: "memory \<Rightarrow> addr \<Rightarrow> nat \<Rightarrow> bool \<times> u8 list" where
  "copyinstr_page m p 0 = (False, [])"
| "copyinstr_page m p (Suc n) =
     (if m p = 0 then (True, [0])
      else case copyinstr_page m (p + 1) n of (got_null, bs) \<Rightarrow> (got_null, m p # bs))"

function copyinstr :: "addr \<Rightarrow> u64 \<Rightarrow> nat \<Rightarrow> 'a vm_scheme \<Rightarrow> ((int \<times> u8 list) \<times> 'a vm_scheme) kres" where
  "copyinstr pagetable srcva maxlen s =
     (if maxlen = 0 then Ok ((- 1, []), s)
      else let va0 = PGROUNDDOWN srcva; n = page_chunk srcva maxlen in
        kbind (walkaddr pagetable va0 s) (\<lambda>r.
          if fst r = 0 then Ok ((- 1, []), snd r)
          else let c = copyinstr_page (mem (snd r)) (fst r + (srcva - va0)) n in
            if fst c then Ok ((0, snd c), snd r)
            else kbind (copyinstr pagetable (va0 + PGSIZE) (maxlen - n) (snd r)) (\<lambda>((e, rest), s2).
              Ok ((e, snd c @ rest), s2))))"
  by pat_completeness auto

termination copyinstr
  by (relation "measure (\<lambda>(pt, va, k, s). k)") (auto simp: page_chunk_pos)

declare copyinstr.simps [simp del]

end
