(* ===== verification/Vm_Tables.thy ===== *)
theory Vm_Tables
  imports Vm
begin

section \<open>Page tables: the tree in memory and its abstraction\<close>

text \<open>
  A page table is read as a tree: \<open>node m root path\<close> follows the valid entries named by the
  indices of \<open>path\<close>, and \<open>leaf m root va\<close> is the entry that translates \<open>va\<close> (0 when no table for it
  exists). The invariant \<open>pt_ok s root ps\<close> says that the tables reachable from \<open>root\<close> are distinct
  allocated pages (no page serves as two tables, and none is on the free list \<open>ps\<close>). Under it
  \<^verbatim>\<open>walk\<close> and \<^verbatim>\<open>mappages\<close> are updates of the abstract map \<open>leaf\<close>.
\<close>

unbundle bit_operations_syntax

subsection \<open>Entries of a table page\<close>

lemma pg_aligned_room: "pg_aligned q \<Longrightarrow> unat q + 4096 \<le> 2 ^ 64"
  using aligned_step_le [of "2 ^ 64" 4096 "unat q"] unat64_less [of q] by (simp add: pg_aligned_def)

lemma unat_8i: "unat (i :: u64) < 512 \<Longrightarrow> unat (8 * i) = 8 * unat i"
  by (simp add: unat_word_ariths)

lemma entry_unat: "pg_aligned q \<Longrightarrow> unat i < 512 \<Longrightarrow> unat (q + 8 * i) = unat q + 8 * unat i"
  using pg_aligned_room [of q] by (subst unat_add_small) (simp_all add: unat_8i)

lemma entry_in_page:
  assumes "unat i < 512" "in_region (q + 8 * i) 8 x"
  shows "in_page q x"
proof -
  from assms(2) obtain k where k: "k < 8" "x = q + 8 * i + of_nat k" by (rule in_regionE)
  have "unat (8 * i + of_nat k) = 8 * unat i + k"
    using k(1) assms(1) by (subst unat_add_of_nat) (simp_all add: unat_8i)
  moreover have "x - q = 8 * i + of_nat k" using k(2) by simp
  ultimately show ?thesis using k(1) assms(1) by (simp add: in_region_def)
qed

lemma entry_aligned8: "pg_aligned q \<Longrightarrow> unat i < 512 \<Longrightarrow> unat (q + 8 * i) mod 8 = 0"
proof -
  assume a: "pg_aligned q" "unat i < 512"
  have "unat q mod 4096 mod 8 = 0" using a(1) by (simp add: pg_aligned_def)
  then have "unat q mod 8 = 0" by (subst (asm) mod_mod_cancel) simp_all
  then show ?thesis using a by (simp add: entry_unat mod_add_right_eq [symmetric])
qed

lemma entry_inj:
  assumes "pg_aligned q" "pg_aligned q'" "unat i < 512" "unat j < 512"
  shows "q + 8 * i = q' + 8 * j \<longleftrightarrow> q = q' \<and> i = j"
proof
  assume eq: "q + 8 * i = q' + 8 * j"
  have "in_region (q + 8 * i) 8 (q + 8 * i)" by (simp add: in_region_self)
  then have "in_page q (q + 8 * i)" "in_page q' (q' + 8 * j)"
    using assms entry_in_page eq by auto
  with eq assms have q: "q = q'" by (metis page_unique)
  with eq assms entry_unat [of q i] entry_unat [of q' j] have "unat i = unat j" by simp
  with q show "q = q' \<and> i = j" by (simp add: word_eq_unatI)
qed simp

lemma load64_entry_cong:
  "unat i < 512 \<Longrightarrow> (\<And>x. in_page q x \<Longrightarrow> m x = m' x) \<Longrightarrow> load64 m (q + 8 * i) = load64 m' (q + 8 * i)"
  by (rule load64_cong) (auto dest: entry_in_page)

lemma load64_store_entry:
  assumes "pg_aligned q" "pg_aligned q'" "unat i < 512" "unat j < 512"
  shows "load64 (store64 m (q + 8 * i) v) (q' + 8 * j) =
    (if q = q' \<and> i = j then v else load64 m (q' + 8 * j))"
proof (cases "q + 8 * i = q' + 8 * j")
  case True
  then show ?thesis using entry_inj [OF assms] by simp
next
  case False
  then show ?thesis
    using entry_inj [OF assms] load64_store64_other [of "q + 8 * i" "q' + 8 * j" m v] assms
    by (auto simp: entry_aligned8)
qed

lemma store_entry_frame: "unat i < 512 \<Longrightarrow> \<not> in_page q x \<Longrightarrow> store64 m (q + 8 * i) v x = m x"
  by (rule store64_other) (auto dest: entry_in_page)

lemma load64_fill_zero: "unat i < 512 \<Longrightarrow> load64 (fill_page m q 0) (q + 8 * i) = 0"
  by (rule load64_zero) (auto dest: entry_in_page simp: fill_page_def)

lemma fill_page_fill_page [simp]: "fill_page (fill_page m p b) p c = fill_page m p c"
  by (auto simp: fill_page_def)

lemma PTE_V_1: "PTE_V = 1"
  by (simp add: PTE_V_def)

lemma table_pte:
  assumes "pg_aligned pg"
  shows "(PA2PTE pg OR PTE_V) AND PTE_V \<noteq> 0" "PTE2PA (PA2PTE pg OR PTE_V) = pg"
proof -
  have "(PA2PTE pg OR PTE_V) AND PTE_V = PTE_V" by (rule bit_word_eqI) (auto simp: bit_simps)
  then show "(PA2PTE pg OR PTE_V) AND PTE_V \<noteq> 0" by (simp add: PTE_V_1)
  show "PTE2PA (PA2PTE pg OR PTE_V) = pg" using assms by (rule PTE2PA_PA2PTE) (simp add: PTE_V_1)
qed

subsection \<open>The tree of tables\<close>

primrec node :: "memory \<Rightarrow> addr \<Rightarrow> u64 list \<Rightarrow> addr option" where
  "node m p [] = Some p"
| "node m p (i # js) =
     (if load64 m (p + 8 * i) AND PTE_V = 0 then None else node m (PTE2PA (load64 m (p + 8 * i))) js)"

definition vpath :: "u64 list \<Rightarrow> bool" where
  "vpath p \<longleftrightarrow> length p \<le> 2 \<and> (\<forall>i \<in> set p. unat i < 512)"

primrec idx :: "nat \<Rightarrow> u64 \<Rightarrow> u64 list" where
  "idx 0 va = []"
| "idx (Suc l) va = PX (Suc l) va # idx l va"

definition leaf :: "memory \<Rightarrow> addr \<Rightarrow> u64 \<Rightarrow> u64" where
  "leaf m root va =
     (case node m root (idx 2 va) of None \<Rightarrow> 0 | Some q \<Rightarrow> load64 m (pte_addr q 0 va))"

definition tables :: "memory \<Rightarrow> addr \<Rightarrow> addr set" where
  "tables m root = {q. \<exists>p. vpath p \<and> node m root p = Some q}"

definition pt_inj :: "memory \<Rightarrow> addr \<Rightarrow> bool" where
  "pt_inj m root \<longleftrightarrow>
     (\<forall>p p' q. vpath p \<longrightarrow> vpath p' \<longrightarrow> node m root p = Some q \<longrightarrow> node m root p' = Some q \<longrightarrow> p = p')"

definition pt_ok :: "'a kmem_scheme \<Rightarrow> addr \<Rightarrow> addr list \<Rightarrow> bool" where
  "pt_ok s root ps \<longleftrightarrow>
     kmem_ok s ps \<and> (\<forall>q \<in> tables (mem s) root. page_ok s q \<and> q \<notin> set ps) \<and> pt_inj (mem s) root"

lemma length_idx [simp]: "length (idx l va) = l"
  by (induction l) auto

lemma idx_bound: "i \<in> set (idx l va) \<Longrightarrow> unat i < 512"
  by (induction l) (auto simp: unat_PX_less)

lemma vpath_idx [simp]: "l \<le> 2 \<Longrightarrow> vpath (idx l va)"
  by (auto simp: vpath_def idx_bound)

lemma vpath_prefix: "vpath (p @ q) \<Longrightarrow> vpath p"
  by (auto simp: vpath_def)

lemma vpath_Nil [simp]: "vpath []"
  by (simp add: vpath_def)

lemma tables_root: "root \<in> tables m root"
  by (auto simp: tables_def intro: exI [of _ "[]"])

lemma tablesI: "vpath p \<Longrightarrow> node m root p = Some q \<Longrightarrow> q \<in> tables m root"
  by (auto simp: tables_def)

lemma node_append:
  "node m root (p @ r) = (case node m root p of None \<Rightarrow> None | Some q \<Rightarrow> node m q r)"
  by (induction p arbitrary: root) auto

text \<open>A path is followed the same way when every entry on it reads the same.\<close>

lemma node_cong:
  "(\<And>p' i r q. p = p' @ i # r \<Longrightarrow> node m root p' = Some q \<Longrightarrow> load64 m' (q + 8 * i) = load64 m (q + 8 * i))
   \<Longrightarrow> node m' root p = node m root p"
proof (induction p arbitrary: root)
  case (Cons i js)
  have eq: "load64 m' (root + 8 * i) = load64 m (root + 8 * i)"
    using Cons.prems [of "[]"] by simp
  have "node m' (PTE2PA (load64 m (root + 8 * i))) js = node m (PTE2PA (load64 m (root + 8 * i))) js"
    if "load64 m (root + 8 * i) AND PTE_V \<noteq> 0"
  proof (rule Cons.IH)
    fix p' j r q assume "js = p' @ j # r" "node m (PTE2PA (load64 m (root + 8 * i))) p' = Some q"
    then show "load64 m' (q + 8 * j) = load64 m (q + 8 * j)"
      using Cons.prems [of "i # p'"] that by simp
  qed
  then show ?case using eq by simp
qed simp

lemma pt_okD:
  assumes "pt_ok s root ps" "vpath p" "node (mem s) root p = Some q"
  shows "page_ok s q" "pg_aligned q" "q \<notin> set ps"
  using assms by (auto simp: pt_ok_def page_ok_def dest: tablesI)

lemma pt_ok_inj:
  assumes "pt_ok s root ps" "vpath p" "vpath p'" "node (mem s) root p = Some q" "node (mem s) root p' = Some q"
  shows "p = p'"
  using assms unfolding pt_ok_def pt_inj_def by blast

lemma pt_ok_kmem: "pt_ok s root ps \<Longrightarrow> kmem_ok s ps"
  by (simp add: pt_ok_def)

text \<open>The tables of \<open>root\<close> are untouched when the memory of its table pages is.\<close>

lemma node_frame:
  assumes ok: "pt_ok s root ps" and p: "vpath p"
    and same: "\<And>q x. q \<in> tables (mem s) root \<Longrightarrow> in_page q x \<Longrightarrow> m' x = mem s x"
  shows "node m' root p = node (mem s) root p"
proof (rule node_cong)
  fix p' i r q assume eq: "p = p' @ i # r" and n: "node (mem s) root p' = Some q"
  have "vpath p'" using p eq vpath_prefix by blast
  then have "q \<in> tables (mem s) root" using n by (rule tablesI)
  moreover have "unat i < 512" using p eq by (simp add: vpath_def)
  ultimately show "load64 m' (q + 8 * i) = load64 (mem s) (q + 8 * i)"
    by (intro load64_entry_cong) (auto intro: same)
qed

lemma tables_frame:
  assumes "pt_ok s root ps" "\<And>q x. q \<in> tables (mem s) root \<Longrightarrow> in_page q x \<Longrightarrow> m' x = mem s x"
  shows "tables m' root = tables (mem s) root" and "pt_inj m' root" and "leaf m' root va = leaf (mem s) root va"
proof -
  have n: "node m' root p = node (mem s) root p" if "vpath p" for p
    using node_frame [OF assms(1) that assms(2)] by simp
  show "tables m' root = tables (mem s) root" by (auto simp: tables_def n)
  show "pt_inj m' root" using assms(1) by (auto simp: pt_ok_def pt_inj_def n)
  show "leaf m' root va = leaf (mem s) root va"
  proof (cases "node (mem s) root (idx 2 va)")
    case (Some q)
    then have "q \<in> tables (mem s) root" by (intro tablesI) simp_all
    then have "load64 m' (pte_addr q 0 va) = load64 (mem s) (pte_addr q 0 va)"
      unfolding pte_addr_def by (intro load64_entry_cong) (auto simp: unat_PX_less assms(2))
    then show ?thesis using Some by (simp add: leaf_def n)
  qed (simp add: leaf_def n)
qed

subsection \<open>walk\<close>

lemma walk_loop_lookup:
  "walk_loop l pt va False s =
     (case node (mem s) pt (idx l va) of None \<Rightarrow> 0 | Some q \<Rightarrow> pte_addr q 0 va, s)"
  by (induction l arbitrary: pt) (auto simp: Let_def pte_addr_def)

text \<open>
  Hanging a zeroed page below an invalid entry adds one table to the tree and changes nothing
  else of it. This is the one memory update of \<^verbatim>\<open>walk\<close>.
\<close>

lemma new_table:
  assumes ok: "pt_ok s root (pg # ps)" and q: "node (mem s) root path = Some q"
    and vp: "vpath (path @ [i])" and inv: "load64 (mem s) (q + 8 * i) AND PTE_V = 0"
    and m2: "m2 = store64 (fill_page (mem s) pg 0) (q + 8 * i) (PA2PTE pg OR PTE_V)"
  shows "\<And>p. vpath p \<Longrightarrow> node m2 root p = (if p = path @ [i] then Some pg else node (mem s) root p)"
    and "tables m2 root = insert pg (tables (mem s) root)"
    and "pt_inj m2 root"
    and "leaf m2 root va = leaf (mem s) root va"
proof -
  have vpath: "vpath path" using vp vpath_prefix by blast
  have i: "unat i < 512" using vp by (simp add: vpath_def)
  have pg: "page_ok s pg" "pg_aligned pg" using ok by (auto simp: pt_ok_def kmem_ok_def page_ok_def)
  have q_al: "pg_aligned q" "q \<noteq> pg" using pt_okD [OF ok vpath q] by auto
  have other: "load64 m2 (q' + 8 * j) = load64 (mem s) (q' + 8 * j)"
    if "pg_aligned q'" "q' \<noteq> pg" "unat j < 512" "\<not> (q' = q \<and> j = i)" for q' j
  proof -
    have "load64 m2 (q' + 8 * j) = load64 (fill_page (mem s) pg 0) (q' + 8 * j)"
      unfolding m2 using that i q_al by (subst load64_store_entry) auto
    also have "\<dots> = load64 (mem s) (q' + 8 * j)"
      using that page_unique [of pg q'] pg
      by (intro load64_entry_cong) (auto simp: fill_page_def)
    finally show ?thesis .
  qed
  have zero: "load64 m2 (pg + 8 * j) = 0" if "unat j < 512" for j
    unfolding m2 using that i q_al pg by (subst load64_store_entry) (auto simp: load64_fill_zero)
  have here: "load64 m2 (q + 8 * i) = PA2PTE pg OR PTE_V" by (simp add: m2)
  have keep: "node m2 root p = node (mem s) root p"
    if p: "vpath p" and no: "\<nexists>r. p = path @ i # r" for p
  proof (rule node_cong)
    fix p' j r q' assume eq: "p = p' @ j # r" and n: "node (mem s) root p' = Some q'"
    have p': "vpath p'" using p eq vpath_prefix by blast
    have j: "unat j < 512" using p eq by (simp add: vpath_def)
    have "\<not> (q' = q \<and> j = i)" using pt_ok_inj [OF ok p' vpath n] q no eq by auto
    moreover have "pg_aligned q'" "q' \<noteq> pg" using pt_okD [OF ok p' n] by auto
    ultimately show "load64 m2 (q' + 8 * j) = load64 (mem s) (q' + 8 * j)" using j by (intro other) auto
  qed
  have path2: "node m2 root path = Some q" using keep [OF vpath] q by simp
  have node2: "node m2 root p = (if p = path @ [i] then Some pg else node (mem s) root p)"
    if p: "vpath p" for p
  proof (cases "\<exists>r. p = path @ i # r")
    case True
    then obtain r where r: "p = path @ i # r" by blast
    have "node (mem s) root p = None" using r q inv by (simp add: node_append)
    moreover have "node m2 root p = node m2 pg r"
      using r path2 here table_pte [OF pg(2)] by (simp add: node_append)
    moreover have "node m2 pg r = None" if "r \<noteq> []"
    proof -
      obtain j r' where "r = j # r'" using \<open>r \<noteq> []\<close> by (cases r) auto
      then show ?thesis using p r zero [of j] by (simp add: vpath_def)
    qed
    ultimately show ?thesis using r by (cases r) auto
  next
    case False
    then show ?thesis using keep [OF p] by auto
  qed
  then show "\<And>p. vpath p \<Longrightarrow> node m2 root p = (if p = path @ [i] then Some pg else node (mem s) root p)" .
  have none: "node (mem s) root (path @ [i]) = None" using q inv by (simp add: node_append)
  show "tables m2 root = insert pg (tables (mem s) root)"
  proof (intro set_eqI iffI)
    fix x assume "x \<in> tables m2 root"
    then show "x \<in> insert pg (tables (mem s) root)"
      using node2 by (auto simp: tables_def split: if_splits)
  next
    fix x assume "x \<in> insert pg (tables (mem s) root)"
    then consider "x = pg" | p where "vpath p" "node (mem s) root p = Some x"
      by (auto simp: tables_def)
    then show "x \<in> tables m2 root"
    proof cases
      case 1
      then show ?thesis using node2 [OF vp] vp by (auto intro: tablesI)
    next
      case 2
      then show ?thesis using node2 [OF 2(1)] none by (intro tablesI [of p]) auto
    qed
  qed
  have notin: "node (mem s) root p \<noteq> Some pg" if "vpath p" for p
    using pt_okD(3) [OF ok that] by auto
  show "pt_inj m2 root"
    unfolding pt_inj_def using node2 notin pt_ok_inj [OF ok] by (auto split: if_splits)
  show "leaf m2 root va = leaf (mem s) root va"
  proof (cases "idx 2 va = path @ [i]")
    case True
    then have "node m2 root (idx 2 va) = Some pg" using node2 vp by simp
    then show ?thesis
      using True none zero [of "PX 0 va"] by (simp add: leaf_def pte_addr_def unat_PX_less)
  next
    case False
    then have same: "node m2 root (idx 2 va) = node (mem s) root (idx 2 va)" using node2 by simp
    show ?thesis
    proof (cases "node (mem s) root (idx 2 va)")
      case (Some q')
      have "idx 2 va \<noteq> path" using vp by (auto simp: vpath_def dest: arg_cong [of _ _ length])
      then have "q' \<noteq> q" using pt_ok_inj [OF ok _ vpath Some] q by auto
      moreover have "pg_aligned q'" "q' \<noteq> pg" using pt_okD [OF ok _ Some] by auto
      ultimately show ?thesis
        using Some same other [of q' "PX 0 va"] by (simp add: leaf_def pte_addr_def unat_PX_less)
    qed (simp add: leaf_def same)
  qed
qed

text \<open>
  How the operations may extend a page table: free pages become tables, existing tables stay where
  they are, and no byte outside the table pages changes (\<open>pt_ext\<close>); \<^verbatim>\<open>walk\<close> with
  allocation moreover changes no leaf entry (\<open>pt_grown\<close>).
\<close>

definition pt_ext :: "addr \<Rightarrow> 'a kmem_scheme \<Rightarrow> addr list \<Rightarrow> 'a kmem_scheme \<Rightarrow> addr list \<Rightarrow> bool" where
  "pt_ext root s ps s' ps' \<longleftrightarrow>
     (\<exists>used. ps = used @ ps' \<and> tables (mem s') root = tables (mem s) root \<union> set used) \<and>
     (\<forall>p q. vpath p \<longrightarrow> node (mem s) root p = Some q \<longrightarrow> node (mem s') root p = Some q) \<and>
     (\<forall>x. (\<forall>q \<in> tables (mem s') root. \<not> in_page q x) \<longrightarrow> mem s' x = mem s x) \<and>
     end_sym s' = end_sym s \<and> kmem.more s' = kmem.more s"

definition pt_grown :: "addr \<Rightarrow> 'a kmem_scheme \<Rightarrow> addr list \<Rightarrow> 'a kmem_scheme \<Rightarrow> addr list \<Rightarrow> bool" where
  "pt_grown root s ps s' ps' \<longleftrightarrow>
     pt_ext root s ps s' ps' \<and> (\<forall>va. leaf (mem s') root va = leaf (mem s) root va)"

lemma pt_ext_refl [simp]: "pt_ext root s ps s ps"
  by (auto simp: pt_ext_def)

lemma pt_grown_refl [simp]: "pt_grown root s ps s ps"
  by (simp add: pt_grown_def)

lemma pt_ext_trans:
  assumes "pt_ext root s ps s1 ps1" "pt_ext root s1 ps1 s2 ps2"
  shows "pt_ext root s ps s2 ps2"
proof -
  from assms obtain u1 u2 where u: "ps = u1 @ ps1" "tables (mem s1) root = tables (mem s) root \<union> set u1"
    "ps1 = u2 @ ps2" "tables (mem s2) root = tables (mem s1) root \<union> set u2"
    by (auto simp: pt_ext_def)
  then have "ps = (u1 @ u2) @ ps2" "tables (mem s2) root = tables (mem s) root \<union> set (u1 @ u2)" by auto
  moreover have "mem s2 x = mem s x" if "\<forall>q \<in> tables (mem s2) root. \<not> in_page q x" for x
    using that assms u(4) by (simp add: pt_ext_def)
  ultimately show ?thesis
    using assms unfolding pt_ext_def by (intro conjI exI [of _ "u1 @ u2"]) simp_all
qed

lemma pt_grown_trans:
  "pt_grown root s ps s1 ps1 \<Longrightarrow> pt_grown root s1 ps1 s2 ps2 \<Longrightarrow> pt_grown root s ps s2 ps2"
  unfolding pt_grown_def using pt_ext_trans [of root s ps s1 ps1 s2 ps2] by simp

lemma new_table_state:
  assumes ok: "pt_ok s root ps" and q: "node (mem s) root path = Some q"
    and vp: "vpath (path @ [i])" and inv: "load64 (mem s) (q + 8 * i) AND PTE_V = 0"
    and al: "kalloc s = (pg, s1)" and pg: "pg \<noteq> 0"
    and s2: "s2 = s1\<lparr>mem := store64 (memset (mem s1) pg 0 4096) (q + 8 * i) (PA2PTE pg OR PTE_V)\<rparr>"
  shows "pt_ok s2 root (tl ps)" "pt_grown root s ps s2 (tl ps)" "node (mem s2) root (path @ [i]) = Some pg"
proof -
  obtain ps' where ps: "ps = pg # ps'" and ok1: "kmem_ok s1 ps'"
    using pt_ok_kmem [OF ok] al pg by (cases rule: ka.alloc_cases) auto
  have s1: "s1 = s\<lparr>freelist := load64 (mem s) pg, mem := fill_page (mem s) pg 5\<rparr>"
    using kalloc_Cons [of s pg ps'] pt_ok_kmem [OF ok] al ps by simp
  have m2: "mem s2 = store64 (fill_page (mem s) pg 0) (q + 8 * i) (PA2PTE pg OR PTE_V)"
    by (simp add: s2 s1)
  note ok' = ok [unfolded ps]
  note nt = new_table [OF ok' q vp inv m2]
  have vpath: "vpath path" using vp vpath_prefix by blast
  have i: "unat i < 512" using vp by (simp add: vpath_def)
  have fr: "mem s2 x = mem s x" if "\<not> in_page pg x" "\<not> in_page q x" for x
    using that i by (simp add: m2 store_entry_frame)
  have pgs: "page_ok s pg" "distinct (pg # ps')" "\<forall>p \<in> set ps'. page_ok s p"
    using ok' by (auto simp: pt_ok_def kmem_ok_def)
  have qs: "page_ok s q" "q \<noteq> pg" "q \<notin> set ps'" using pt_okD [OF ok' vpath q] by auto
  have "kmem_ok s2 ps'"
  proof (rule kmem_ok_frame [OF ok1])
    fix x p assume p: "p \<in> set ps'" "in_page p x"
    then have "\<not> in_page pg x" "\<not> in_page q x"
      using page_unique [of p pg x] page_unique [of p q x] pgs qs by (auto simp: page_ok_def)
    then show "mem s2 x = mem s1 x" using fr by (simp add: s1)
  qed (simp_all add: s2 s1)
  moreover have "page_ok s2 p \<longleftrightarrow> page_ok s p" for p by (simp add: page_ok_def s2 s1)
  ultimately show "pt_ok s2 root (tl ps)"
    using nt(2,3) ok' pgs by (auto simp: pt_ok_def ps)
  show n: "node (mem s2) root (path @ [i]) = Some pg" using nt(1) [OF vp] by simp
  have none: "node (mem s) root (path @ [i]) = None" using q inv by (simp add: node_append)
  have mono: "node (mem s2) root p = Some q'" if "vpath p" "node (mem s) root p = Some q'" for p q'
    using nt(1) [OF that(1)] that(2) none by auto
  have frame: "mem s2 x = mem s x" if "\<forall>q' \<in> tables (mem s2) root. \<not> in_page q' x" for x
    using that nt(2) tablesI [OF vpath q] by (intro fr) auto
  have "kmem.more s2 = kmem.more s" "end_sym s2 = end_sym s" by (simp_all add: s2 s1)
  then show "pt_grown root s ps s2 (tl ps)"
    unfolding pt_grown_def pt_ext_def using nt(2,4) mono frame ps
    by (intro conjI exI [of _ "[pg]"] allI impI) auto
qed

lemma walk_loop_alloc:
  assumes "pt_ok s root ps" "node (mem s) root path = Some pt" "vpath path" "length path + l = 2"
  shows "\<exists>r s' ps'. walk_loop l pt va True s = (r, s') \<and> pt_ok s' root ps' \<and> pt_grown root s ps s' ps' \<and>
    (r = 0 \<and> ps' = [] \<and> length ps < l \<or>
     length ps \<le> length ps' + l \<and> (\<exists>q. node (mem s') root (path @ idx l va) = Some q \<and> r = pte_addr q 0 va))"
  using assms
proof (induction l arbitrary: s ps pt path)
  case 0
  then show ?case by (auto intro!: exI [of _ ps])
next
  case (Suc l)
  let ?i = "PX (Suc l) va" and ?e = "load64 (mem s) (pte_addr pt (Suc l) va)"
  have vp: "vpath (path @ [?i])" using Suc.prems(3,4) by (auto simp: vpath_def unat_PX_less)
  show ?case
  proof (cases "?e AND PTE_V = 0")
    case False
    then have n: "node (mem s) root (path @ [?i]) = Some (PTE2PA ?e)"
      using Suc.prems(2) by (simp add: node_append pte_addr_def)
    obtain r s' ps' where IH: "walk_loop l (PTE2PA ?e) va True s = (r, s')" "pt_ok s' root ps'" "pt_grown root s ps s' ps'"
      "r = 0 \<and> ps' = [] \<and> length ps < l \<or> length ps \<le> length ps' + l \<and>
        (\<exists>q. node (mem s') root ((path @ [?i]) @ idx l va) = Some q \<and> r = pte_addr q 0 va)"
      using Suc.IH [OF Suc.prems(1) n vp] Suc.prems(4) by auto
    then show ?thesis using False
      by (intro exI [of _ r] exI [of _ s'] exI [of _ ps']) (auto simp: Let_def)
  next
    case True
    obtain pg s1 where al: "kalloc s = (pg, s1)" by (cases "kalloc s")
    show ?thesis
    proof (cases "pg = 0")
      case pg: True
      have "ps = []" "s1 = s"
        using pt_ok_kmem [OF Suc.prems(1)] al pg by (cases rule: ka.alloc_cases; simp)+
      then show ?thesis using True al pg Suc.prems(1) by (auto simp: Let_def)
    next
      case pg: False
      define s2 where "s2 = s1\<lparr>mem := store64 (memset (mem s1) pg 0 4096) (pt + 8 * ?i) (PA2PTE pg OR PTE_V)\<rparr>"
      have inv: "load64 (mem s) (pt + 8 * ?i) AND PTE_V = 0" using True by (simp add: pte_addr_def)
      note new = new_table_state [OF Suc.prems(1,2) vp inv al pg s2_def]
      obtain r s' ps' where IH: "walk_loop l pg va True s2 = (r, s')" "pt_ok s' root ps'" "pt_grown root s2 (tl ps) s' ps'"
        "r = 0 \<and> ps' = [] \<and> length (tl ps) < l \<or> length (tl ps) \<le> length ps' + l \<and>
          (\<exists>q. node (mem s') root ((path @ [?i]) @ idx l va) = Some q \<and> r = pte_addr q 0 va)"
        using Suc.IH [OF new(1,3) vp] Suc.prems(4) by auto
      moreover have "walk_loop (Suc l) pt va True s = walk_loop l pg va True s2"
        using True al pg by (simp add: Let_def s2_def pte_addr_def)
      ultimately show ?thesis using pt_grown_trans [OF new(2) IH(3)]
        by (intro exI [of _ r] exI [of _ s'] exI [of _ ps']) auto
    qed
  qed
qed

lemma pte_addr_nonzero:
  assumes "pt_ok s root ps" "vpath p" "node (mem s) root p = Some q"
  shows "pte_addr q 0 va \<noteq> 0"
proof -
  have q: "pg_aligned q" "q \<noteq> 0"
    using pt_okD [OF assms] page_ok_nonzero [of s q] assms(1) by (auto simp: pt_ok_def kmem_ok_def)
  have "unat (pte_addr q 0 va) = unat q + 8 * unat (PX 0 va)"
    unfolding pte_addr_def using q(1) by (rule entry_unat) (rule unat_PX_less)
  moreover have "unat q \<noteq> 0" using q(2) by (simp add: unat_eq_0)
  ultimately show ?thesis by auto
qed

text \<open>The two ways to use \<^verbatim>\<open>walk\<close>: a lookup that changes nothing, and a lookup that may grow the tree.\<close>

lemma walk_lookup:
  assumes "va < MAXVA"
  shows "walk root va False s =
    Ok (case node (mem s) root (idx 2 va) of None \<Rightarrow> 0 | Some q \<Rightarrow> pte_addr q 0 va, s)"
  using assms unfolding walk_def walk_loop_lookup by (simp add: linorder_not_le)

lemma walk_alloc:
  assumes "pt_ok s root ps" "va < MAXVA"
  obtains (nomem) s' where "walk root va True s = Ok (0, s')" "pt_ok s' root []" "pt_grown root s ps s' []"
      "length ps < 2"
  | (entry) q s' ps' where "walk root va True s = Ok (pte_addr q 0 va, s')" "pt_ok s' root ps'"
      "pt_grown root s ps s' ps'" "node (mem s') root (idx 2 va) = Some q" "pte_addr q 0 va \<noteq> 0"
      "length ps \<le> length ps' + 2"
proof -
  obtain r s' ps' where w: "walk_loop 2 root va True s = (r, s')" "pt_ok s' root ps'" "pt_grown root s ps s' ps'"
    "r = 0 \<and> ps' = [] \<and> length ps < 2 \<or>
     length ps \<le> length ps' + 2 \<and> (\<exists>q. node (mem s') root (idx 2 va) = Some q \<and> r = pte_addr q 0 va)"
    using walk_loop_alloc [of s root ps "[]" root 2 va] assms(1) by auto
  have wk: "walk root va True s = Ok (r, s')" using assms(2) w(1) by (simp add: walk_def)
  from w(4) show ?thesis
  proof (elim disjE exE conjE)
    assume "r = 0" "ps' = []" "length ps < 2"
    then show ?thesis using nomem wk w by blast
  next
    fix q assume q: "node (mem s') root (idx 2 va) = Some q" "r = pte_addr q 0 va" "length ps \<le> length ps' + 2"
    then show ?thesis using entry wk w pte_addr_nonzero [OF w(2) _ q(1)] by simp
  qed
qed

subsection \<open>Writing a leaf entry\<close>

lemma store_leaf:
  assumes ok: "pt_ok s root ps" and q: "node (mem s) root (idx 2 va) = Some q"
    and s': "s' = s\<lparr>mem := store64 (mem s) (pte_addr q 0 va) v\<rparr>"
  shows "pt_ok s' root ps" "\<And>p. vpath p \<Longrightarrow> node (mem s') root p = node (mem s) root p"
    "tables (mem s') root = tables (mem s) root"
    "\<And>va'. leaf (mem s') root va' = (if idx 2 va' = idx 2 va \<and> PX 0 va' = PX 0 va then v else leaf (mem s) root va')"
    "pt_ext root s ps s' ps"
proof -
  let ?m = "store64 (mem s) (q + 8 * PX 0 va) v"
  have m: "mem s' = ?m" by (simp add: s' pte_addr_def)
  have vq: "vpath (idx 2 va)" by simp
  have al: "pg_aligned q" "page_ok s q" "q \<notin> set ps" using pt_okD [OF ok vq q] by auto
  have fr: "mem s' x = mem s x" if "\<not> in_page q x" for x
    using that unfolding m by (simp add: store_entry_frame unat_PX_less)
  show n: "node (mem s') root p = node (mem s) root p" if p: "vpath p" for p
    unfolding m
  proof (rule node_cong)
    fix p' i r q' assume eq: "p = p' @ i # r" and n': "node (mem s) root p' = Some q'"
    have p': "vpath p'" "unat i < 512" using p eq vpath_prefix by (auto simp: vpath_def)
    have "p' \<noteq> idx 2 va" using p eq by (auto simp: vpath_def dest: arg_cong [of _ _ length])
    then have "q' \<noteq> q" using pt_ok_inj [OF ok p'(1) vq n'] q by auto
    then show "load64 ?m (q' + 8 * i) = load64 (mem s) (q' + 8 * i)"
      using al p' pt_okD [OF ok p'(1) n'] by (subst load64_store_entry) (auto simp: unat_PX_less)
  qed
  show t: "tables (mem s') root = tables (mem s) root" by (auto simp: tables_def n)
  have "kmem_ok s' ps"
  proof (rule kmem_ok_frame [OF pt_ok_kmem [OF ok]])
    fix x p assume p: "p \<in> set ps" "in_page p x"
    then have "\<not> in_page q x"
      using page_unique [of p q x] al ok by (auto simp: pt_ok_def kmem_ok_def page_ok_def)
    then show "mem s' x = mem s x" by (rule fr)
  qed (simp_all add: s')
  moreover have "page_ok s' p = page_ok s p" for p by (simp add: page_ok_def s')
  ultimately show "pt_ok s' root ps" using ok n by (simp add: pt_ok_def t pt_inj_def)
  have "q \<in> tables (mem s) root" using vq q by (rule tablesI)
  then show "pt_ext root s ps s' ps" using n fr t by (auto simp: pt_ext_def s')
  show "leaf (mem s') root va' = (if idx 2 va' = idx 2 va \<and> PX 0 va' = PX 0 va then v else leaf (mem s) root va')" for va'
  proof (cases "node (mem s) root (idx 2 va')")
    case None
    then show ?thesis using q by (auto simp: leaf_def n)
  next
    case (Some q')
    have "q = q' \<longleftrightarrow> idx 2 va' = idx 2 va" using pt_ok_inj [OF ok _ vq Some] q Some by auto
    moreover have "load64 (mem s') (q' + 8 * PX 0 va') =
        (if q = q' \<and> PX 0 va = PX 0 va' then v else load64 (mem s) (q' + 8 * PX 0 va'))"
      unfolding m using al pt_okD [OF ok _ Some] by (intro load64_store_entry) (auto simp: unat_PX_less)
    ultimately show ?thesis using Some by (auto simp: leaf_def n pte_addr_def)
  qed
qed

subsection \<open>Virtual pages\<close>

definition same_page :: "u64 \<Rightarrow> u64 \<Rightarrow> bool" where
  "same_page a b \<longleftrightarrow> unat a div 4096 = unat b div 4096"

lemma split_index:
  fixes n :: nat
  assumes "n < 2 ^ 26"
  shows "n = 262144 * (n div 262144 mod 512) + 512 * (n div 512 mod 512) + n mod 512"
proof -
  have "n div 512 div 512 = n div 262144" by (simp only: div_mult2_eq [symmetric]) simp
  moreover have "n div 262144 < 512" using assms by simp
  ultimately have x: "n div 262144 mod 512 = n div 512 div 512" by simp
  have "n = 512 * (n div 512) + n mod 512" by (simp only: mult_div_mod_eq)
  moreover have "n div 512 = 512 * (n div 512 div 512) + n div 512 mod 512"
    by (simp only: mult_div_mod_eq)
  ultimately show ?thesis unfolding x by linarith
qed

lemma same_page_iff:
  assumes "va < MAXVA" "va' < MAXVA"
  shows "idx 2 va = idx 2 va' \<and> PX 0 va = PX 0 va' \<longleftrightarrow> same_page va va'"
proof -
  let ?n = "unat va div 4096" and ?n' = "unat va' div 4096"
  have b: "?n < 2 ^ 26" "?n' < 2 ^ 26" using assms by (auto simp: word_less_nat_alt)
  have px: "unat (PX 2 v) = unat v div 4096 div 262144 mod 512" "unat (PX 1 v) = unat v div 4096 div 512 mod 512"
    "unat (PX 0 v) = unat v div 4096 mod 512" for v
    by (simp_all add: unat_PX PXSHIFT_def div_mult2_eq [symmetric])
  have "idx 2 va = idx 2 va' \<and> PX 0 va = PX 0 va' \<longleftrightarrow>
      PX 2 va = PX 2 va' \<and> PX 1 va = PX 1 va' \<and> PX 0 va = PX 0 va'"
    by (simp add: numeral_2_eq_2)
  also have "\<dots> \<longleftrightarrow> same_page va va'"
  proof
    have "?n = 262144 * unat (PX 2 va) + 512 * unat (PX 1 va) + unat (PX 0 va)"
      unfolding px by (rule split_index [OF b(1)])
    moreover have "?n' = 262144 * unat (PX 2 va') + 512 * unat (PX 1 va') + unat (PX 0 va')"
      unfolding px by (rule split_index [OF b(2)])
    ultimately show "PX 2 va = PX 2 va' \<and> PX 1 va = PX 1 va' \<and> PX 0 va = PX 0 va' \<Longrightarrow> same_page va va'"
      by (simp only: same_page_def)
  next
    assume "same_page va va'"
    then have "unat (PX 2 va) = unat (PX 2 va')" "unat (PX 1 va) = unat (PX 1 va')"
      "unat (PX 0 va) = unat (PX 0 va')" unfolding px same_page_def by simp_all
    then show "PX 2 va = PX 2 va' \<and> PX 1 va = PX 1 va' \<and> PX 0 va = PX 0 va'"
      by (intro conjI word_eq_unatI)
  qed
  finally show ?thesis .
qed

lemma same_page_aligned:
  assumes "pg_aligned a"
  shows "same_page va a \<longleftrightarrow> unat a \<le> unat va \<and> unat va < unat a + 4096"
proof -
  have "unat a mod 4096 = 0" using assms by (simp add: pg_aligned_def)
  then have "4096 dvd unat a" by (rule mod_0_imp_dvd)
  then obtain k where k: "unat a = 4096 * k" by (rule dvdE)
  show ?thesis unfolding same_page_def k by auto
qed

lemma same_page_down: "pg_aligned a \<Longrightarrow> same_page va a \<longleftrightarrow> PGROUNDDOWN va = a"
proof -
  assume al: "pg_aligned a"
  then have d: "unat a = 4096 * (unat a div 4096)" by (auto simp: pg_aligned_def)
  show ?thesis unfolding same_page_def
  proof
    assume "unat va div 4096 = unat a div 4096"
    then show "PGROUNDDOWN va = a" using d by (intro word_eq_unatI) (simp add: unat_PGROUNDDOWN)
  next
    assume "PGROUNDDOWN va = a"
    then have "unat a = 4096 * (unat va div 4096)" using unat_PGROUNDDOWN [of va] by simp
    then show "unat va div 4096 = unat a div 4096" by simp
  qed
qed

lemma leaf_same_page: "va < MAXVA \<Longrightarrow> va' < MAXVA \<Longrightarrow> same_page va va' \<Longrightarrow> leaf m root va = leaf m root va'"
  using same_page_iff [of va va'] by (simp add: leaf_def pte_addr_def split: option.split)

subsection \<open>mappages\<close>

text \<open>
  \<open>mapped_pte\<close> is the entry \<^verbatim>\<open>mappages\<close> writes for an address of a range that starts at \<open>a\<close> and is
  backed from \<open>pa\<close> on; \<open>mapped_range m m' root a j pte\<close> says that \<open>m'\<close> differs from \<open>m\<close>, as a map, by the
  first \<open>j\<close> pages of the range.
\<close>

definition mapped_pte :: "u64 \<Rightarrow> u64 \<Rightarrow> u64 \<Rightarrow> u64 \<Rightarrow> u64" where
  "mapped_pte a pa perm va = PA2PTE (pa + (PGROUNDDOWN va - a)) OR perm OR PTE_V"

definition mapped_range :: "memory \<Rightarrow> memory \<Rightarrow> addr \<Rightarrow> u64 \<Rightarrow> nat \<Rightarrow> (u64 \<Rightarrow> u64) \<Rightarrow> bool" where
  "mapped_range m m' root a j pte \<longleftrightarrow>
     (\<forall>va < MAXVA. leaf m' root va =
        (if unat a \<le> unat va \<and> unat va < unat a + 4096 * j then pte va else leaf m root va))"

lemma valid_pte: "(x OR PTE_V) AND PTE_V \<noteq> 0"
proof -
  have "(x OR PTE_V) AND PTE_V = PTE_V" by (rule bit_word_eqI) (auto simp: bit_simps)
  then show ?thesis by (simp add: PTE_V_1)
qed

lemma leaf_at_entry: "node m root (idx 2 va) = Some q \<Longrightarrow> load64 m (pte_addr q 0 va) = leaf m root va"
  by (simp add: leaf_def)

text \<open>One round of the loop: the page at \<open>a\<close> is mapped, or memory has run out.\<close>

lemma map_one_page:
  assumes ok: "pt_ok s root ps" and al: "pg_aligned a" and lim: "a < MAXVA"
    and free: "leaf (mem s) root a AND PTE_V = 0"
  obtains (nomem) s' where "walk root a True s = Ok (0, s')" "pt_ok s' root []" "pt_ext root s ps s' []"
      "\<forall>va. leaf (mem s') root va = leaf (mem s) root va" "length ps < 2"
  | (entry) q s1 s2 ps' where "walk root a True s = Ok (pte_addr q 0 a, s1)" "pte_addr q 0 a \<noteq> 0"
      "load64 (mem s1) (pte_addr q 0 a) AND PTE_V = 0"
      "s2 = s1\<lparr>mem := store64 (mem s1) (pte_addr q 0 a) v\<rparr>" "pt_ok s2 root ps'" "pt_ext root s ps s2 ps'"
      "\<forall>va < MAXVA. leaf (mem s2) root va = (if same_page va a then v else leaf (mem s) root va)"
      "length ps \<le> length ps' + 2"
  using ok lim
proof (cases rule: walk_alloc)
  case (nomem s')
  then show ?thesis using that(1) by (simp add: pt_grown_def)
next
  case (entry q s1 ps')
  define s2 where "s2 = s1\<lparr>mem := store64 (mem s1) (pte_addr q 0 a) v\<rparr>"
  note sl = store_leaf [OF entry(2,4) s2_def]
  have leaf1: "leaf (mem s1) root va = leaf (mem s) root va" for va
    using entry(3) by (simp add: pt_grown_def)
  have "load64 (mem s1) (pte_addr q 0 a) AND PTE_V = 0"
    using leaf_at_entry [OF entry(4)] leaf1 free by simp
  moreover have "pt_ext root s ps s2 ps'"
    using entry(3) sl(5) by (auto simp: pt_grown_def intro: pt_ext_trans)
  moreover have "\<forall>va < MAXVA. leaf (mem s2) root va = (if same_page va a then v else leaf (mem s) root va)"
    using sl(4) same_page_iff [OF _ lim] by (simp add: leaf1)
  ultimately show ?thesis using that(2) [OF entry(1,5) _ s2_def sl(1)] entry(6) by simp
qed

lemma mappages_loop_correct:
  assumes "pt_ok s root ps" "pg_aligned a" "unat a + 4096 * k < 2 ^ 38"
    and "last_va = a + of_nat (4096 * k)"
    and "\<forall>va < MAXVA. unat a \<le> unat va \<and> unat va < unat a + 4096 * Suc k \<longrightarrow> leaf (mem s) root va AND PTE_V = 0"
  shows "\<exists>r s' ps' j. mappages_loop root a last_va pa perm s = Ok (r, s') \<and> pt_ok s' root ps' \<and>
    pt_ext root s ps s' ps' \<and> mapped_range (mem s) (mem s') root a j (mapped_pte a pa perm) \<and>
    (r = 0 \<and> j = Suc k \<or> r = - 1 \<and> j \<le> k \<and> ps' = [] \<and> length ps < 2 * Suc k)"
  using assms
proof (induction k arbitrary: s ps a pa)
  case (0 s ps a pa)
  have lim: "a < MAXVA" using "0.prems"(3) by (simp add: word_less_nat_alt)
  have free: "leaf (mem s) root a AND PTE_V = 0" using "0.prems"(5) lim by simp
  have pte: "mapped_pte a pa perm va = PA2PTE pa OR perm OR PTE_V" if "same_page va a" for va
    using that "0.prems"(2) by (simp add: mapped_pte_def same_page_down)
  show ?case
    using "0.prems"(1,2) lim free
  proof (cases rule: map_one_page [where v = "PA2PTE pa OR perm OR PTE_V"])
    case (nomem s')
    then show ?thesis
      by (intro exI [of _ "- 1"] exI [of _ s'] exI [of _ "[]"] exI [of _ 0])
        (auto simp: mappages_loop.simps [of root a] mapped_range_def)
  next
    case (entry q s1 s2 ps')
    then show ?thesis using "0.prems"(4) pte
      by (intro exI [of _ 0] exI [of _ s2] exI [of _ ps'] exI [of _ 1])
        (auto simp: mappages_loop.simps [of root a] Let_def mapped_range_def same_page_aligned [OF "0.prems"(2)])
  qed
next
  case (Suc k s ps a pa)
  have lim: "a < MAXVA" using Suc.prems(3) by (simp add: word_less_nat_alt)
  have free: "leaf (mem s) root a AND PTE_V = 0" using Suc.prems(5) lim by simp
  have pte: "mapped_pte a pa perm va = PA2PTE pa OR perm OR PTE_V" if "same_page va a" for va
    using that Suc.prems(2) by (simp add: mapped_pte_def same_page_down)
  have ua: "unat (a + 4096) = unat a + 4096"
    using Suc.prems(3) by (subst unat_add_small) simp_all
  show ?case
    using Suc.prems(1,2) lim free
  proof (cases rule: map_one_page [where v = "PA2PTE pa OR perm OR PTE_V"])
    case (nomem s')
    then show ?thesis
      by (intro exI [of _ "- 1"] exI [of _ s'] exI [of _ "[]"] exI [of _ 0])
        (auto simp: mappages_loop.simps [of root a] mapped_range_def)
  next
    case (entry q s1 s2 ps1)
    have "unat last_va \<noteq> unat a"
      unfolding Suc.prems(4) using Suc.prems(3) by (subst unat_add_of_nat) simp_all
    then have "a \<noteq> last_va" by auto
    then have step: "mappages_loop root a last_va pa perm s = mappages_loop root (a + 4096) last_va (pa + 4096) perm s2"
      using entry by (subst mappages_loop.simps) (simp add: Let_def)
    have "\<exists>r s' ps' j. mappages_loop root (a + 4096) last_va (pa + 4096) perm s2 = Ok (r, s') \<and> pt_ok s' root ps' \<and>
        pt_ext root s2 ps1 s' ps' \<and> mapped_range (mem s2) (mem s') root (a + 4096) j (mapped_pte (a + 4096) (pa + 4096) perm) \<and>
        (r = 0 \<and> j = Suc k \<or> r = - 1 \<and> j \<le> k \<and> ps' = [] \<and> length ps1 < 2 * Suc k)"
    proof (rule Suc.IH)
      show "last_va = a + 4096 + of_nat (4096 * k)" using Suc.prems(4) by simp
      show "pg_aligned (a + 4096)" using Suc.prems(2) by (rule pg_aligned_step)
      show "\<forall>va<MAXVA. unat (a + 4096) \<le> unat va \<and> unat va < unat (a + 4096) + 4096 * Suc k \<longrightarrow>
          leaf (mem s2) root va AND PTE_V = 0"
        using Suc.prems(5) entry(7) ua by (auto simp: same_page_aligned [OF Suc.prems(2)])
    qed (use entry Suc.prems(3) ua in simp_all)
    then obtain r s' ps' j where IH: "mappages_loop root (a + 4096) last_va (pa + 4096) perm s2 = Ok (r, s')"
      "pt_ok s' root ps'" "pt_ext root s2 ps1 s' ps'"
      "mapped_range (mem s2) (mem s') root (a + 4096) j (mapped_pte (a + 4096) (pa + 4096) perm)"
      "r = 0 \<and> j = Suc k \<or> r = - 1 \<and> j \<le> k \<and> ps' = [] \<and> length ps1 < 2 * Suc k" by blast
    have same: "mapped_pte (a + 4096) (pa + 4096) perm va = mapped_pte a pa perm va" for va
      by (simp add: mapped_pte_def)
    have "mapped_range (mem s) (mem s') root a (Suc j) (mapped_pte a pa perm)"
      using IH(4) entry(7) ua pte unfolding mapped_range_def
      by (auto simp: same same_page_aligned [OF Suc.prems(2)])
    then show ?thesis
      using step IH entry(6,8) pt_ext_trans [OF entry(6) IH(3)]
      by (intro exI [of _ r] exI [of _ s'] exI [of _ ps'] exI [of _ "Suc j"]) auto
  qed
qed

lemma mappages_range:
  assumes ok: "pt_ok s root ps" and al: "pg_aligned va" and n: "unat sz = 4096 * n" "0 < n"
    and lim: "unat va + unat sz \<le> 2 ^ 38"
    and free: "\<forall>v < MAXVA. unat va \<le> unat v \<and> unat v < unat va + unat sz \<longrightarrow> leaf (mem s) root v AND PTE_V = 0"
  shows "\<exists>r s' ps' j. mappages root va sz pa perm s = Ok (r, s') \<and> pt_ok s' root ps' \<and>
    pt_ext root s ps s' ps' \<and> mapped_range (mem s) (mem s') root va j (mapped_pte va pa perm) \<and>
    (r = 0 \<and> j = n \<or> r = - 1 \<and> j < n \<and> ps' = [] \<and> length ps < 2 * n)"
proof -
  obtain k where k: "n = Suc k" using n(2) by (cases n) auto
  have "sz = of_nat (unat sz)" by simp
  then have sz: "sz = of_nat (4096 * n)" by (simp only: n(1))
  have ne: "sz \<noteq> 0" "sz mod PGSIZE = 0" using n by (auto simp: aligned_mod_iff pg_aligned_def simp del: PGSIZE_def)
  have last: "va + sz - PGSIZE = va + of_nat (4096 * k)" by (simp add: sz k)
  have loop: "mappages root va sz pa perm s = mappages_loop root va (va + of_nat (4096 * k)) pa perm s"
    unfolding last [symmetric] mappages_def using al ne by (simp add: aligned_mod_iff del: PGSIZE_def pg_aligned_mod)
  show ?thesis unfolding loop
    using mappages_loop_correct [OF ok al _ refl, of k pa perm] lim free n k
    by (auto simp: less_Suc_eq_le)
qed

subsection \<open>Empty tables, and a concrete machine for the examples\<close>

lemma node_empty:
  assumes "\<And>x. in_page root x \<Longrightarrow> m x = 0" "vpath p" "p \<noteq> []"
  shows "node m root p = None"
proof -
  obtain i r where p: "p = i # r" using assms(3) by (cases p) auto
  have "load64 m (root + 8 * i) = 0"
    using assms(2) p by (intro load64_zero assms(1)) (auto simp: vpath_def dest: entry_in_page)
  then show ?thesis by (simp add: p)
qed

lemma pt_ok_empty:
  assumes "kmem_ok s ps" "page_ok s root" "root \<notin> set ps" "\<And>x. in_page root x \<Longrightarrow> mem s x = 0"
  shows "pt_ok s root ps" "tables (mem s) root = {root}" "leaf (mem s) root va = 0"
proof -
  have n: "node (mem s) root p = None" if "vpath p" "p \<noteq> []" for p
    using node_empty [OF assms(4) that] by simp
  have eq: "p = [] \<and> q = root" if "vpath p" "node (mem s) root p = Some q" for p q
    using that n [OF that(1)] by (cases "p = []") auto
  show t: "tables (mem s) root = {root}" using eq tables_root by (auto simp: tables_def)
  have "pt_inj (mem s) root" unfolding pt_inj_def using eq by blast
  then show "pt_ok s root ps" using assms t by (simp add: pt_ok_def)
  have "idx 2 va \<noteq> []" by (simp add: numeral_2_eq_2)
  then show "leaf (mem s) root va = 0" using n [of "idx 2 va"] by (simp add: leaf_def)
qed

definition demo :: kmem where
  "demo = \<lparr>mem = store64 (\<lambda>_. 0) 0x80001000 0x80002000, freelist = 0x80001000, end_sym = 0x80000000\<rparr>"

lemma demo_ok:
  "kmem_ok demo [0x80001000, 0x80002000]" "page_ok demo 0x80000000" "pt_ok demo 0x80000000 [0x80001000, 0x80002000]"
  "leaf (mem demo) 0x80000000 va = 0"
proof -
  have "load64 (store64 (\<lambda>_. 0) 0x80001000 0x80002000) 0x80002000 = 0"
    by (subst load64_store64_other) (simp_all add: load64_zero)
  then show k: "kmem_ok demo [0x80001000, 0x80002000]"
    by (simp add: kmem_ok_def demo_def page_ok_def pg_aligned_def PHYSTOP_val)
  show p: "page_ok demo 0x80000000" by (simp add: demo_def page_ok_def pg_aligned_def PHYSTOP_val)
  have z: "mem demo x = 0" if x: "in_page 0x80000000 x" for x
  proof -
    have "\<not> in_page 0x80001000 x"
      using page_unique [of "0x80000000" "0x80001000" x] x by (auto simp: pg_aligned_def)
    then show ?thesis by (simp add: demo_def store64_page_frame)
  qed
  show "pt_ok demo 0x80000000 [0x80001000, 0x80002000]" "leaf (mem demo) 0x80000000 va = 0"
    using pt_ok_empty [OF k p _ z] by simp_all
qed

text \<open>
  C13: \<^verbatim>\<open>mappages\<close> is an update of the address map. On a well-formed page table with no valid entry
  in a page-aligned range below \<^verbatim>\<open>MAXVA\<close>, it returns (it does not panic): 0 when every page of the
  range is mapped to the matching page of \<open>pa\<close> with the given permissions, and -1 only when the
  allocator is empty (which needs fewer than two free pages per page mapped), with a prefix of the
  range mapped. Entries outside the range, existing tables and
  all memory outside table pages are unchanged, and the page table stays well formed.
\<close>

theorem mappages_correct:
  assumes "pt_ok s root ps" "pg_aligned va" "unat sz = 4096 * n" "0 < n" "unat va + unat sz \<le> 2 ^ 38"
    and "\<forall>v < MAXVA. unat va \<le> unat v \<and> unat v < unat va + unat sz \<longrightarrow> leaf (mem s) root v AND PTE_V = 0"
  shows "\<exists>r s' ps' j. mappages root va sz pa perm s = Ok (r, s') \<and> pt_ok s' root ps' \<and>
    pt_ext root s ps s' ps' \<and> mapped_range (mem s) (mem s') root va j (mapped_pte va pa perm) \<and>
    (r = 0 \<and> j = n \<or> r = - 1 \<and> j < n \<and> ps' = [] \<and> length ps < 2 * n)"
  using assms by (rule mappages_range)

theorem mappages_correct_witness:
  "\<exists>s' ps'. mappages 0x80000000 0x1000 0x1000 0x80005000 (PTE_R OR PTE_U) demo = Ok (0, s') \<and> pt_ok s' 0x80000000 ps'"
  using mappages_correct [OF demo_ok(3), of "0x1000" "0x1000" 1 "0x80005000" "PTE_R OR PTE_U"] demo_ok(4)
  by (auto simp: pg_aligned_def)

subsection \<open>walkaddr\<close>

lemma walkaddr_leaf:
  assumes ok: "pt_ok s root ps" and lim: "va < MAXVA"
  shows "walkaddr root va s = Ok
    (let e = leaf (mem s) root va in
     if e AND PTE_V = 0 \<or> e AND PTE_U = 0 then 0 else PTE2PA e, s)"
proof (cases "node (mem s) root (idx 2 va)")
  case None
  then show ?thesis using lim by (simp add: walkaddr_def walk_lookup leaf_def Let_def)
next
  case (Some q)
  have "pte_addr q 0 va \<noteq> 0" using pte_addr_nonzero [OF ok _ Some] by simp
  then show ?thesis using lim Some by (auto simp: walkaddr_def walk_lookup leaf_def Let_def)
qed

lemma mapped_pte_fields:
  assumes "pg_aligned (pa + (PGROUNDDOWN va - a))" "perm AND 0x3FF = perm" "perm AND PTE_U \<noteq> 0"
  shows "mapped_pte a pa perm va AND PTE_V \<noteq> 0" "mapped_pte a pa perm va AND PTE_U \<noteq> 0"
    "PTE2PA (mapped_pte a pa perm va) = pa + (PGROUNDDOWN va - a)"
proof -
  show "mapped_pte a pa perm va AND PTE_V \<noteq> 0" unfolding mapped_pte_def or.assoc [symmetric] by (rule valid_pte)
  have flags: "(perm OR PTE_V) AND 0x3FF = perm OR PTE_V"
    using assms(2) by (simp add: PTE_V_1 bit.conj_disj_distrib2)
  show "PTE2PA (mapped_pte a pa perm va) = pa + (PGROUNDDOWN va - a)"
    unfolding mapped_pte_def using assms(1) flags by (rule PTE2PA_PA2PTE)
  have "\<exists>n. bit (perm AND PTE_U) n"
    using assms(3) bit_word_eqI [of "perm AND PTE_U" 0] by auto
  then obtain n where n: "bit perm n" "bit PTE_U n" by (auto simp: bit_and_iff)
  then have "bit (mapped_pte a pa perm va AND PTE_U) n" by (auto simp: mapped_pte_def bit_simps)
  then show "mapped_pte a pa perm va AND PTE_U \<noteq> 0" by auto
qed

lemma pg_aligned_diff:
  "pg_aligned a \<Longrightarrow> pg_aligned b \<Longrightarrow> a \<le> b \<Longrightarrow> pg_aligned (b - a)"
  unfolding pg_aligned_def by (subst unat_sub) (auto simp: mod_eq_0_iff_dvd)

text \<open>
  Mapping and lookup are inverse. After a successful \<^verbatim>\<open>mappages\<close> of a range with user permission,
  \<^verbatim>\<open>walkaddr\<close> of every address of the range returns the physical page it was mapped to, and of every
  other address below \<^verbatim>\<open>MAXVA\<close> what it returned before.
\<close>

theorem walkaddr_after_mappages:
  assumes ok: "pt_ok s root ps" and va: "pg_aligned va" and n: "unat sz = 4096 * n" "0 < n"
    and lim: "unat va + unat sz \<le> 2 ^ 38"
    and free: "\<forall>v < MAXVA. unat va \<le> unat v \<and> unat v < unat va + unat sz \<longrightarrow> leaf (mem s) root v AND PTE_V = 0"
    and pa: "pg_aligned pa" and perm: "perm AND 0x3FF = perm" "perm AND PTE_U \<noteq> 0"
    and run: "mappages root va sz pa perm s = Ok (0, s')" and v: "v < MAXVA"
  shows "walkaddr root v s' = Ok
    (if unat va \<le> unat v \<and> unat v < unat va + unat sz then pa + (PGROUNDDOWN v - va)
     else fst (the_Ok (walkaddr root v s)), s')"
proof -
  obtain ps' where m: "pt_ok s' root ps'" "mapped_range (mem s) (mem s') root va n (mapped_pte va pa perm)"
    using mappages_range [OF ok va n lim free, of pa perm] run by auto
  have leaf': "leaf (mem s') root v =
      (if unat va \<le> unat v \<and> unat v < unat va + unat sz then mapped_pte va pa perm v else leaf (mem s) root v)"
    using m(2) v n(1) by (simp add: mapped_range_def)
  show ?thesis
  proof (cases "unat va \<le> unat v \<and> unat v < unat va + unat sz")
    case True
    have "va \<le> PGROUNDDOWN v"
    proof (rule ccontr)
      assume "\<not> ?thesis"
      then have "unat (PGROUNDDOWN v) + 4096 \<le> unat va"
        by (intro pg_aligned_le [OF va PGROUNDDOWN_aligned]) (simp add: word_le_nat_alt)
      with True show False using div_mult_mod_eq [of "unat v" 4096] mod_less_divisor [of 4096 "unat v"]
        unfolding unat_PGROUNDDOWN by linarith
    qed
    then have "pg_aligned (pa + (PGROUNDDOWN v - va))"
      using pa va by (intro pg_aligned_add pg_aligned_diff) simp_all
    from mapped_pte_fields [OF this perm] show ?thesis
      using True leaf' walkaddr_leaf [OF m(1) v] by (simp add: Let_def)
  next
    case False
    show ?thesis
      using leaf' walkaddr_leaf [OF m(1) v] walkaddr_leaf [OF ok v] unfolding if_not_P [OF False] by simp
  qed
qed

theorem walkaddr_after_mappages_witness:
  "\<exists>s'. mappages 0x80000000 0x1000 0x1000 0x80005000 (PTE_R OR PTE_U) demo = Ok (0, s') \<and>
     walkaddr 0x80000000 0x1234 s' = Ok (0x80005000, s')"
proof -
  have free: "\<forall>v < MAXVA. unat (0x1000 :: u64) \<le> unat v \<and> unat v < unat (0x1000 :: u64) + unat (0x1000 :: u64) \<longrightarrow>
      leaf (mem demo) 0x80000000 v AND PTE_V = 0" using demo_ok(4) by simp
  obtain s' where run: "mappages 0x80000000 0x1000 0x1000 0x80005000 (PTE_R OR PTE_U) demo = Ok (0, s')"
    using mappages_range [OF demo_ok(3), of "0x1000" "0x1000" 1 "0x80005000" "PTE_R OR PTE_U"] demo_ok(4)
    by (auto simp: pg_aligned_def)
  have perm: "(PTE_R OR PTE_U) AND 0x3FF = PTE_R OR PTE_U" "(PTE_R OR PTE_U) AND PTE_U \<noteq> 0"
    by (simp_all add: pte_flag_defs)
  have "walkaddr 0x80000000 0x1234 s' = Ok (0x80005000, s')"
    using walkaddr_after_mappages [OF demo_ok(3) _ _ _ _ free _ perm run, of 1 "0x1234"]
    by (simp add: pg_aligned_def PGROUNDDOWN_def)
  with run show ?thesis by blast
qed

end
