(* ===== verification/Vm_User.thy ===== *)
theory Vm_User
  imports Vm_Tables
begin

section \<open>User address spaces\<close>

text \<open>
  A user address space is abstracted to a partial map from addresses to bytes (\<open>uspace\<close>): undefined
  where no page is mapped, otherwise the byte of the physical page. \<open>uvm_ok s root ps lim\<close> is the
  invariant of the addresses below \<open>lim\<close>: each mapped page is an allocated page of its own, different
  from every table and from every other user page. Under it \<^verbatim>\<open>uvmalloc\<close>, \<^verbatim>\<open>uvmdealloc\<close>, \<^verbatim>\<open>uvmunmap\<close>,
  \<^verbatim>\<open>vmfault\<close>, \<^verbatim>\<open>copyout\<close> and \<^verbatim>\<open>copyin\<close> are operations on that map.
\<close>

unbundle bit_operations_syntax

definition pte_valid :: "u64 \<Rightarrow> bool" where
  "pte_valid e \<longleftrightarrow> e AND PTE_V \<noteq> 0"

definition upage :: "memory \<Rightarrow> addr \<Rightarrow> u64 \<Rightarrow> addr" where
  "upage m root va = PTE2PA (leaf m root va)"

definition uspace :: "memory \<Rightarrow> addr \<Rightarrow> u64 \<Rightarrow> u8 option" where
  "uspace m root va =
     (if pte_valid (leaf m root va) then Some (m (upage m root va + (va - PGROUNDDOWN va))) else None)"

definition uvm_ok :: "'a kmem_scheme \<Rightarrow> addr \<Rightarrow> addr list \<Rightarrow> u64 \<Rightarrow> bool" where
  "uvm_ok s root ps lim \<longleftrightarrow>
     pt_ok s root ps \<and> lim \<le> MAXVA \<and>
     (\<forall>va < lim. pte_valid (leaf (mem s) root va) \<longrightarrow>
        page_ok s (upage (mem s) root va) \<and> upage (mem s) root va \<notin> set ps \<and>
        upage (mem s) root va \<notin> tables (mem s) root) \<and>
     (\<forall>va < lim. \<forall>va' < lim. pte_valid (leaf (mem s) root va) \<longrightarrow> pte_valid (leaf (mem s) root va') \<longrightarrow>
        upage (mem s) root va = upage (mem s) root va' \<longrightarrow> same_page va va')"

text \<open>A page that belongs to nobody the invariant knows of: allocated, but not yet mapped.\<close>

definition fresh_page :: "'a kmem_scheme \<Rightarrow> addr \<Rightarrow> u64 \<Rightarrow> addr \<Rightarrow> bool" where
  "fresh_page s root lim pg \<longleftrightarrow>
     page_ok s pg \<and> pg \<notin> tables (mem s) root \<and>
     (\<forall>va < lim. pte_valid (leaf (mem s) root va) \<longrightarrow> upage (mem s) root va \<noteq> pg)"

lemma uvm_okD:
  assumes "uvm_ok s root ps lim"
  shows "pt_ok s root ps" "lim \<le> MAXVA"
    and "va < lim \<Longrightarrow> pte_valid (leaf (mem s) root va) \<Longrightarrow> page_ok s (upage (mem s) root va)"
    and "va < lim \<Longrightarrow> pte_valid (leaf (mem s) root va) \<Longrightarrow> upage (mem s) root va \<notin> set ps"
    and "va < lim \<Longrightarrow> pte_valid (leaf (mem s) root va) \<Longrightarrow> upage (mem s) root va \<notin> tables (mem s) root"
    and "va < lim \<Longrightarrow> va' < lim \<Longrightarrow> pte_valid (leaf (mem s) root va) \<Longrightarrow> pte_valid (leaf (mem s) root va') \<Longrightarrow>
      upage (mem s) root va = upage (mem s) root va' \<Longrightarrow> same_page va va'"
  using assms by (auto simp: uvm_ok_def)

lemma upage_aligned [simp]: "pg_aligned (upage m root va)"
  by (simp add: upage_def)

lemma byte_in_page: "in_page p (p + (va - PGROUNDDOWN va))"
  by (simp add: in_region_def page_offset)

lemma pages_disjoint: "pg_aligned p \<Longrightarrow> pg_aligned q \<Longrightarrow> p \<noteq> q \<Longrightarrow> in_page p x \<Longrightarrow> \<not> in_page q x"
  using page_unique by blast

lemma pages_disjoint_set:
  "in_page p x \<Longrightarrow> pg_aligned p \<Longrightarrow> p \<notin> T \<Longrightarrow> (\<And>q. q \<in> T \<Longrightarrow> pg_aligned q) \<Longrightarrow> \<forall>q \<in> T. \<not> in_page q x"
  using page_unique by blast

lemma uspace_cong:
  assumes "leaf m' root va = leaf m root va"
    and "pte_valid (leaf m root va) \<Longrightarrow> (\<And>x. in_page (upage m root va) x \<Longrightarrow> m' x = m x)"
  shows "uspace m' root va = uspace m root va"
  using assms byte_in_page [of "upage m root va" va] by (auto simp: uspace_def upage_def)

text \<open>Changing only pages that are neither tables nor free keeps the invariant.\<close>

lemma uvm_ok_frame:
  assumes ok: "uvm_ok s root ps lim" and kok: "kmem_ok s' ps'" and sub: "set ps' \<subseteq> insert pg (set ps)"
    and es: "end_sym s' = end_sym s" and fresh: "fresh_page s root lim pg"
    and fr_all: "\<forall>x. \<not> in_page pg x \<longrightarrow> mem s' x = mem s x"
  shows "uvm_ok s' root ps' lim" "tables (mem s') root = tables (mem s) root"
    "leaf (mem s') root va = leaf (mem s) root va"
    "va < lim \<Longrightarrow> uspace (mem s') root va = uspace (mem s) root va"
    "fresh_page s' root lim pg"
proof -
  have pt: "pt_ok s root ps" using ok by (rule uvm_okD)
  have fr: "\<And>x. \<not> in_page pg x \<Longrightarrow> mem s' x = mem s x" using fr_all by blast
  have pg: "pg_aligned pg" "pg \<notin> tables (mem s) root" using fresh by (auto simp: fresh_page_def page_ok_def)
  have al: "pg_aligned q" if "q \<in> tables (mem s) root" for q using pt that by (auto simp: pt_ok_def page_ok_def)
  have tfr: "mem s' x = mem s x" if "q \<in> tables (mem s) root" "in_page q x" for q x
    using that pages_disjoint [of q pg x] al pg by (intro fr) auto
  show t: "tables (mem s') root = tables (mem s) root"
    using tables_frame(1) [OF pt, of "mem s'"] tfr by blast
  show lf: "leaf (mem s') root va = leaf (mem s) root va" for va
    using tables_frame(3) [OF pt, of "mem s'"] tfr by blast
  have up: "upage (mem s') root va = upage (mem s) root va" for va by (simp add: upage_def lf)
  have po: "page_ok s' p = page_ok s p" for p by (simp add: page_ok_def es)
  have inj: "pt_inj (mem s') root" using tables_frame(2) [OF pt, of "mem s'"] tfr by blast
  have "pt_ok s' root ps'" using pt kok sub pg inj by (auto simp: pt_ok_def t po)
  then show "uvm_ok s' root ps' lim"
    using ok fresh sub unfolding uvm_ok_def fresh_page_def lf up po t by blast
  show "va < lim \<Longrightarrow> uspace (mem s') root va = uspace (mem s) root va"
    using fresh pages_disjoint [of "upage (mem s) root va" pg] pg
    by (intro uspace_cong) (auto simp: lf fresh_page_def intro!: fr)
  show "fresh_page s' root lim pg" using fresh unfolding fresh_page_def lf up po t .
qed

lemma kalloc_user:
  assumes ok: "uvm_ok s root ps lim" and al: "kalloc s = (pg, s1)" and pg: "pg \<noteq> 0"
    and s2: "s2 = s1\<lparr>mem := m2\<rparr>" and m2: "\<forall>x. \<not> in_page pg x \<longrightarrow> m2 x = mem s1 x"
  shows "uvm_ok s2 root (tl ps) lim" "fresh_page s2 root lim pg" "pg \<notin> set (tl ps)" "ps = pg # tl ps"
    "leaf (mem s2) root va = leaf (mem s) root va"
    "va < lim \<Longrightarrow> uspace (mem s2) root va = uspace (mem s) root va"
    "tables (mem s2) root = tables (mem s) root" "kmem.more s2 = kmem.more s" "end_sym s2 = end_sym s"
    "\<forall>x. \<not> in_page pg x \<longrightarrow> mem s2 x = mem s x"
proof -
  have pt: "pt_ok s root ps" using ok by (rule uvm_okD)
  obtain ps' where ps: "ps = pg # ps'" and ok1: "kmem_ok s1 ps'" and pgs: "page_ok s pg" "pg \<notin> set ps'"
    using pt_ok_kmem [OF pt] al pg by (cases rule: ka.alloc_cases) auto
  have s1: "s1 = s\<lparr>freelist := load64 (mem s) pg, mem := fill_page (mem s) pg 5\<rparr>"
    using kalloc_Cons [of s pg ps'] pt_ok_kmem [OF pt] al ps by simp
  have fr: "\<forall>x. \<not> in_page pg x \<longrightarrow> mem s2 x = mem s x" using m2 by (simp add: s2 s1)
  have kok: "kmem_ok s2 ps'"
  proof (rule kmem_ok_frame [OF ok1])
    fix x p assume "p \<in> set ps'" "in_page p x"
    then have "\<not> in_page pg x"
      using pages_disjoint [of p pg x] pgs pt ps by (auto simp: pt_ok_def kmem_ok_def page_ok_def)
    then show "mem s2 x = mem s1 x" using m2 by (simp add: s2)
  qed (simp_all add: s2)
  have fresh: "fresh_page s root lim pg"
    using ok pt pgs ps by (auto simp: fresh_page_def uvm_ok_def pt_ok_def)
  have es: "end_sym s2 = end_sym s" by (simp add: s2 s1)
  have sub: "set ps' \<subseteq> insert pg (set ps)" by (auto simp: ps)
  note uf = uvm_ok_frame [OF ok kok sub es fresh fr]
  show "uvm_ok s2 root (tl ps) lim" "fresh_page s2 root lim pg" "tables (mem s2) root = tables (mem s) root"
    "leaf (mem s2) root va = leaf (mem s) root va" "va < lim \<Longrightarrow> uspace (mem s2) root va = uspace (mem s) root va"
    using uf by (simp_all add: ps)
  show "kmem.more s2 = kmem.more s" "ps = pg # tl ps" "end_sym s2 = end_sym s" "pg \<notin> set (tl ps)"
    "\<forall>x. \<not> in_page pg x \<longrightarrow> mem s2 x = mem s x"
    using pgs fr by (simp_all add: s2 s1 ps)
qed

lemma kfree_user:
  assumes ok: "uvm_ok s root ps lim" and fresh: "fresh_page s root lim pg" and new: "pg \<notin> set ps"
  obtains s' where "kfree pg s = Ok ((), s')" "uvm_ok s' root (pg # ps) lim"
    "\<forall>va. leaf (mem s') root va = leaf (mem s) root va"
    "\<forall>va < lim. uspace (mem s') root va = uspace (mem s) root va"
    "tables (mem s') root = tables (mem s) root" "kmem.more s' = kmem.more s" "end_sym s' = end_sym s"
    "\<forall>x. \<not> in_page pg x \<longrightarrow> mem s' x = mem s x"
proof -
  have pt: "pt_ok s root ps" using ok by (rule uvm_okD)
  obtain s' where s': "kfree pg s = Ok ((), s')" "kmem_ok s' (pg # ps)"
    using ka.free_page [OF pt_ok_kmem [OF pt] _ new] fresh by (auto simp: fresh_page_def)
  have sub: "set (pg # ps) \<subseteq> insert pg (set ps)" by simp
  have fr: "\<forall>x. \<not> in_page pg x \<longrightarrow> mem s' x = mem s x" using ka.free_frame [OF s'(1)] by blast
  note uf = uvm_ok_frame [OF ok s'(2) sub kfree_end_sym [OF s'(1)] fresh fr]
  show thesis
    using that [OF s'(1)] uf kfree_more [OF s'(1)] kfree_end_sym [OF s'(1)] ka.free_frame [OF s'(1)] by simp
qed

subsection \<open>Mapping one page\<close>

text \<open>The invariant after the entry of one page has been written.\<close>

lemma uvm_ok_extend:
  assumes ok: "uvm_ok s root ps lim" and pt': "pt_ok s' root ps'" and ext: "pt_ext root s ps s' ps'"
    and old_all: "\<forall>va < lim. \<not> same_page va a \<longrightarrow> leaf (mem s') root va = leaf (mem s) root va"
    and new_all: "\<forall>va < lim. same_page va a \<longrightarrow> pte_valid (leaf (mem s') root va) \<longrightarrow> upage (mem s') root va = pg"
    and fresh: "fresh_page s root lim pg" "pg \<notin> set ps"
  shows "uvm_ok s' root ps' lim"
    and "\<And>va. va < lim \<Longrightarrow> \<not> same_page va a \<Longrightarrow> uspace (mem s') root va = uspace (mem s) root va"
    and "\<And>x. in_page pg x \<Longrightarrow> mem s' x = mem s x"
proof -
  have old: "\<And>va. va < lim \<Longrightarrow> \<not> same_page va a \<Longrightarrow> leaf (mem s') root va = leaf (mem s) root va"
    and new: "\<And>va. va < lim \<Longrightarrow> same_page va a \<Longrightarrow> pte_valid (leaf (mem s') root va) \<longrightarrow> upage (mem s') root va = pg"
    using old_all new_all by blast+
  obtain used where u: "ps = used @ ps'" "tables (mem s') root = tables (mem s) root \<union> set used"
    using ext by (auto simp: pt_ext_def)
  have es: "page_ok s' p = page_ok s p" for p using ext by (simp add: pt_ext_def page_ok_def)
  have fr: "mem s' x = mem s x" if "\<forall>q \<in> tables (mem s') root. \<not> in_page q x" for x
    using ext that by (simp add: pt_ext_def)
  have tal: "pg_aligned q" if "q \<in> tables (mem s') root" for q
    using pt' that by (auto simp: pt_ok_def page_ok_def)
  have up: "upage (mem s') root va = upage (mem s) root va" if "va < lim" "\<not> same_page va a" for va
    using old that by (simp add: upage_def)
  have oldpg: "page_ok s' (upage (mem s') root va)" "upage (mem s') root va \<notin> set ps"
    "upage (mem s') root va \<notin> tables (mem s') root" "upage (mem s') root va \<noteq> pg"
    if "va < lim" "\<not> same_page va a" "pte_valid (leaf (mem s') root va)" for va
    using uvm_okD [OF ok] that old up fresh by (auto simp: es u fresh_page_def)
  have newpg: "page_ok s' pg" "pg \<notin> tables (mem s') root" using fresh u by (auto simp: es fresh_page_def)
  have "\<forall>va < lim. pte_valid (leaf (mem s') root va) \<longrightarrow> page_ok s' (upage (mem s') root va) \<and>
      upage (mem s') root va \<notin> set ps' \<and> upage (mem s') root va \<notin> tables (mem s') root"
    using oldpg newpg new fresh(2) u by (metis Un_iff set_append)
  moreover have "same_page va va'"
    if v: "va < lim" "va' < lim" "pte_valid (leaf (mem s') root va)" "pte_valid (leaf (mem s') root va')"
      "upage (mem s') root va = upage (mem s') root va'" for va va'
  proof (cases "same_page va a")
    case True
    then have "same_page va' a" using v new oldpg(4) by metis
    then show ?thesis using True by (simp add: same_page_def)
  next
    case False
    then have "\<not> same_page va' a" using v new oldpg(4) by metis
    then show ?thesis using v False old up uvm_okD(6) [OF ok, of va va'] by simp
  qed
  ultimately show "uvm_ok s' root ps' lim" using pt' uvm_okD(2) [OF ok] by (simp add: uvm_ok_def)
  show "uspace (mem s') root va = uspace (mem s) root va" if "va < lim" "\<not> same_page va a" for va
  proof (rule uspace_cong)
    show "leaf (mem s') root va = leaf (mem s) root va" using that by (rule old)
  next
    fix x assume v: "pte_valid (leaf (mem s) root va)" and x: "in_page (upage (mem s) root va) x"
    then have "upage (mem s) root va \<notin> tables (mem s') root" using that old oldpg(3) up by simp
    then show "mem s' x = mem s x" using pages_disjoint_set [OF x _ _ tal] by (intro fr) simp
  qed
  show "mem s' x = mem s x" if "in_page pg x" for x
    using pages_disjoint_set [OF that _ newpg(2) tal] fresh(1)
    by (intro fr) (simp add: fresh_page_def page_ok_def)
qed

text \<open>
  The pages an address space is made of, and the frame of an operation: bytes outside a set of pages,
  the bounds of the allocator and the rest of the state do not change.
\<close>

definition pages_of :: "'a kmem_scheme \<Rightarrow> addr \<Rightarrow> addr list \<Rightarrow> u64 \<Rightarrow> addr set" where
  "pages_of s root ps lim =
     tables (mem s) root \<union> set ps \<union> {p. \<exists>va < lim. pte_valid (leaf (mem s) root va) \<and> upage (mem s) root va = p}"

definition frame_on :: "addr set \<Rightarrow> 'a kmem_scheme \<Rightarrow> 'a kmem_scheme \<Rightarrow> bool" where
  "frame_on A s s' \<longleftrightarrow>
     (\<forall>x. (\<forall>q \<in> A. \<not> in_page q x) \<longrightarrow> mem s' x = mem s x) \<and>
     end_sym s' = end_sym s \<and> kmem.more s' = kmem.more s"

lemma frame_on_refl [simp]: "frame_on A s s"
  by (simp add: frame_on_def)

lemma frame_on_trans [trans]: "frame_on A s s1 \<Longrightarrow> frame_on A s1 s2 \<Longrightarrow> frame_on A s s2"
  by (simp add: frame_on_def)

lemma frame_on_mono: "frame_on A s s' \<Longrightarrow> A \<subseteq> B \<Longrightarrow> frame_on B s s'"
  by (auto simp: frame_on_def)

lemma pt_ext_frame_on: "pt_ext root s ps s' ps' \<Longrightarrow> tables (mem s') root \<subseteq> A \<Longrightarrow> frame_on A s s'"
  unfolding pt_ext_def frame_on_def by blast

lemma mappages_one:
  assumes ok: "pt_ok s root ps" and al: "pg_aligned a" and lim: "a < MAXVA"
    and free: "\<not> pte_valid (leaf (mem s) root a)"
  obtains r s' ps' where "mappages root a PGSIZE pg perm s = Ok (r, s')" "pt_ok s' root ps'" "pt_ext root s ps s' ps'"
    "\<forall>va < MAXVA. \<not> same_page va a \<longrightarrow> leaf (mem s') root va = leaf (mem s) root va"
    "\<forall>va < MAXVA. same_page va a \<longrightarrow>
       leaf (mem s') root va = (if r = 0 then PA2PTE pg OR perm OR PTE_V else leaf (mem s) root va)"
    "r = 0 \<or> r = - 1 \<and> ps' = [] \<and> length ps < 2"
proof -
  have lt: "unat a < 2 ^ 38" using lim by (simp add: word_less_nat_alt)
  have "4096 dvd unat a" using al by (auto simp: pg_aligned_def)
  then obtain k where k: "unat a = 4096 * k" by (rule dvdE)
  have b: "unat a + unat (4096 :: u64) \<le> 2 ^ 38" using lt k by simp
  have fr: "\<forall>v < MAXVA. unat a \<le> unat v \<and> unat v < unat a + unat (4096 :: u64) \<longrightarrow> leaf (mem s) root v AND PTE_V = 0"
    using free leaf_same_page [OF _ lim] same_page_aligned [OF al] by (simp add: pte_valid_def)
  obtain r s' ps' j where m: "mappages root a 4096 pg perm s = Ok (r, s')" "pt_ok s' root ps'"
    "pt_ext root s ps s' ps'" "mapped_range (mem s) (mem s') root a j (mapped_pte a pg perm)"
    "r = 0 \<and> j = 1 \<or> r = - 1 \<and> j < 1 \<and> ps' = [] \<and> length ps < 2 * 1"
    using mappages_range [OF ok al _ _ b fr, of 1 pg perm] by auto
  have old: "leaf (mem s') root va = leaf (mem s) root va" if "va < MAXVA" "\<not> same_page va a" for va
    using m(4,5) that same_page_aligned [OF al] by (auto simp: mapped_range_def)
  have new: "leaf (mem s') root va = (if r = 0 then PA2PTE pg OR perm OR PTE_V else leaf (mem s) root va)"
    if "va < MAXVA" "same_page va a" for va
    using m(4,5) that same_page_aligned [OF al, of va] same_page_down [OF al, of va]
    by (auto simp: mapped_range_def mapped_pte_def)
  show thesis using that [of r s' ps'] m old new by auto
qed

lemma user_pte_fields:
  assumes "pg_aligned pg" "perm AND 0x3FF = perm"
  shows "pte_valid (PA2PTE pg OR perm OR PTE_V)" "PTE2PA (PA2PTE pg OR perm OR PTE_V) = pg"
proof -
  show "pte_valid (PA2PTE pg OR perm OR PTE_V)"
    unfolding pte_valid_def or.assoc [symmetric] by (rule valid_pte)
  have "(perm OR PTE_V) AND 0x3FF = perm OR PTE_V"
    using assms(2) by (simp add: PTE_V_1 bit.conj_disj_distrib2)
  with assms(1) show "PTE2PA (PA2PTE pg OR perm OR PTE_V) = pg" by (rule PTE2PA_PA2PTE)
qed

lemma map_user_page:
  assumes ok: "uvm_ok s root ps lim" and fresh: "fresh_page s root lim pg" "pg \<notin> set ps"
    and al: "pg_aligned a" and lim: "a < lim" and free: "\<not> pte_valid (leaf (mem s) root a)"
    and perm: "perm AND 0x3FF = perm" and A: "insert pg (pages_of s root ps lim) \<subseteq> A"
  obtains (mapped) s' ps' where "mappages root a PGSIZE pg perm s = Ok (0, s')" "uvm_ok s' root ps' lim"
      "\<forall>va < lim. leaf (mem s') root va = (if same_page va a then PA2PTE pg OR perm OR PTE_V else leaf (mem s) root va)"
      "\<forall>va < lim. uspace (mem s') root va =
         (if same_page va a then Some (mem s (pg + (va - PGROUNDDOWN va))) else uspace (mem s) root va)"
      "frame_on A s s'" "pages_of s' root ps' lim \<subseteq> A"
  | (nomem) s' where "mappages root a PGSIZE pg perm s = Ok (- 1, s')" "uvm_ok s' root [] lim" "fresh_page s' root lim pg"
      "\<forall>va < lim. leaf (mem s') root va = leaf (mem s) root va"
      "\<forall>va < lim. uspace (mem s') root va = uspace (mem s) root va"
      "frame_on A s s'" "pages_of s' root [] lim \<subseteq> A" "length ps < 2"
proof -
  have pt: "pt_ok s root ps" and lm: "lim \<le> MAXVA" using uvm_okD(1,2) [OF ok] by simp_all
  have below: "va < MAXVA" if "va < lim" for va using that lm by simp
  obtain r s' ps' where m: "mappages root a PGSIZE pg perm s = Ok (r, s')" "pt_ok s' root ps'" "pt_ext root s ps s' ps'"
    "\<forall>va < MAXVA. \<not> same_page va a \<longrightarrow> leaf (mem s') root va = leaf (mem s) root va"
    "\<forall>va < MAXVA. same_page va a \<longrightarrow>
       leaf (mem s') root va = (if r = 0 then PA2PTE pg OR perm OR PTE_V else leaf (mem s) root va)"
    "r = 0 \<or> r = - 1 \<and> ps' = [] \<and> length ps < 2"
    using mappages_one [OF pt al below [OF lim] free, of pg perm] by blast
  have pga: "pg_aligned pg" using fresh by (simp add: fresh_page_def page_ok_def)
  note fields = user_pte_fields [OF pga perm]
  have fr_a: "\<not> pte_valid (leaf (mem s) root va)" if "va < lim" "same_page va a" for va
    using leaf_same_page [OF below below, OF that(1) lim that(2)] free by simp
  have new: "pte_valid (leaf (mem s') root va) \<longrightarrow> upage (mem s') root va = pg" if "va < lim" "same_page va a" for va
    using m(5) below [OF that(1)] that(2) fr_a [OF that] fields by (simp add: upage_def)
  have "\<forall>va < lim. \<not> same_page va a \<longrightarrow> leaf (mem s') root va = leaf (mem s) root va"
    and "\<forall>va < lim. same_page va a \<longrightarrow> pte_valid (leaf (mem s') root va) \<longrightarrow> upage (mem s') root va = pg"
    using m(4) below new by blast+
  note ext = uvm_ok_extend [OF ok m(2,3) this fresh]
  obtain used where u: "ps = used @ ps'" "tables (mem s') root = tables (mem s) root \<union> set used"
    using m(3) by (auto simp: pt_ext_def)
  have sub: "pages_of s' root ps' lim \<subseteq> A"
  proof -
    have "upage (mem s') root va \<in> insert pg (pages_of s root ps lim)"
      if "va < lim" "pte_valid (leaf (mem s') root va)" for va
      using that m(4) below [OF that(1)] new by (cases "same_page va a") (auto simp: pages_of_def upage_def)
    then have "{p. \<exists>va < lim. pte_valid (leaf (mem s') root va) \<and> upage (mem s') root va = p} \<subseteq> A"
      using A by blast
    moreover have "tables (mem s') root \<union> set ps' \<subseteq> A" using A u by (auto simp: pages_of_def)
    ultimately show ?thesis unfolding pages_of_def by (rule Un_least [rotated])
  qed
  have "tables (mem s') root \<subseteq> A" using sub by (auto simp: pages_of_def)
  then have frame: "frame_on A s s'" using pt_ext_frame_on [OF m(3)] by simp
  show thesis
  proof (cases "r = 0")
    case True
    have lf: "leaf (mem s') root va = (if same_page va a then PA2PTE pg OR perm OR PTE_V else leaf (mem s) root va)"
      if "va < lim" for va using that m(4,5) below True by simp
    have us: "uspace (mem s') root va =
         (if same_page va a then Some (mem s (pg + (va - PGROUNDDOWN va))) else uspace (mem s) root va)"
      if v: "va < lim" for va
    proof (cases "same_page va a")
      case t: True
      then show ?thesis using lf [OF v] fields ext(3) [OF byte_in_page] by (simp add: uspace_def upage_def)
    qed (simp add: ext(2) v)
    show thesis using mapped [of s' ps'] m(1) True ext(1) lf us frame sub by simp
  next
    case False
    then have r: "r = - 1" "ps' = []" "length ps < 2" using m(6) by auto
    have lf: "leaf (mem s') root va = leaf (mem s) root va" if "va < lim" for va
      using that m(4,5) below False by (cases "same_page va a") simp_all
    have us: "uspace (mem s') root va = uspace (mem s) root va" if v: "va < lim" for va
      using v ext(2) fr_a lf by (cases "same_page va a") (simp_all add: uspace_def)
    have "fresh_page s' root lim pg"
      using fresh lf u m(3) r by (auto simp: fresh_page_def upage_def page_ok_def pt_ext_def)
    then show thesis using nomem [of s'] m(1) r ext(1) lf us frame sub by simp
  qed
qed

subsection \<open>uvmunmap\<close>

lemma walk_leaf:
  assumes ok: "pt_ok s root ps" and lim: "va < MAXVA" and v: "pte_valid (leaf (mem s) root va)"
  obtains q where "node (mem s) root (idx 2 va) = Some q" "walk root va False s = Ok (pte_addr q 0 va, s)"
    "pte_addr q 0 va \<noteq> 0" "load64 (mem s) (pte_addr q 0 va) = leaf (mem s) root va"
proof -
  obtain q where q: "node (mem s) root (idx 2 va) = Some q"
    using v by (auto simp: leaf_def pte_valid_def split: option.splits)
  show thesis
    using that [OF q] walk_lookup [OF lim, of root s] pte_addr_nonzero [OF ok _ q] leaf_at_entry [OF q] q by simp
qed

lemma walk_no_leaf:
  assumes ok: "pt_ok s root ps" and lim: "va < MAXVA" and v: "\<not> pte_valid (leaf (mem s) root va)"
  obtains pte where "walk root va False s = Ok (pte, s)" "pte = 0 \<or> load64 (mem s) pte AND PTE_V = 0"
proof (cases "node (mem s) root (idx 2 va)")
  case None
  then show thesis using that walk_lookup [OF lim, of root s] by simp
next
  case (Some q)
  then show thesis
    using that walk_lookup [OF lim, of root s] v leaf_at_entry [OF Some] by (simp add: pte_valid_def)
qed

text \<open>Freeing a mapped page and clearing its entry takes the page out of the address space.\<close>

lemma unmap_user_page:
  assumes ok: "uvm_ok s root ps lim" and lim: "a < lim"
    and v: "pte_valid (leaf (mem s) root a)" and q: "node (mem s) root (idx 2 a) = Some q"
    and A: "pages_of s root ps lim \<subseteq> A"
  obtains s1 s2 where "kfree (upage (mem s) root a) s = Ok ((), s1)"
    "s2 = s1\<lparr>mem := store64 (mem s1) (pte_addr q 0 a) 0\<rparr>"
    "uvm_ok s2 root (upage (mem s) root a # ps) lim"
    "\<forall>va < lim. leaf (mem s2) root va = (if same_page va a then 0 else leaf (mem s) root va)"
    "\<forall>va < lim. uspace (mem s2) root va = (if same_page va a then None else uspace (mem s) root va)"
    "frame_on A s s2" "pages_of s2 root (upage (mem s) root a # ps) lim \<subseteq> A" "tables (mem s2) root = tables (mem s) root"
proof -
  let ?p = "upage (mem s) root a"
  note D = uvm_okD [OF ok]
  have below: "va < MAXVA" if "va < lim" for va using that D(2) by simp
  have p: "page_ok s ?p" "?p \<notin> set ps" "?p \<notin> tables (mem s) root" using D(3-5) lim v by auto
  obtain s1 where s1: "kfree ?p s = Ok ((), s1)" "kmem_ok s1 (?p # ps)"
    using ka.free_page [OF pt_ok_kmem [OF D(1)] p(1,2)] by blast
  have po: "page_ok s1 r = page_ok s r" for r using kfree_end_sym [OF s1(1)] by (simp add: page_ok_def)
  have tal: "pg_aligned r" if "r \<in> tables (mem s) root" for r
    using D(1) that by (auto simp: pt_ok_def page_ok_def)
  have tfr: "mem s1 x = mem s x" if "r \<in> tables (mem s) root" "in_page r x" for r x
    using that p(3) tal pages_disjoint [of r ?p x] by (intro ka.free_frame [OF s1(1)]) auto
  have t1: "tables (mem s1) root = tables (mem s) root" and i1: "pt_inj (mem s1) root"
    and l1: "\<And>va. leaf (mem s1) root va = leaf (mem s) root va"
    using tables_frame [OF D(1), of "mem s1"] tfr by blast+
  have pt1: "pt_ok s1 root (?p # ps)" using D(1) s1(2) i1 p(3) by (auto simp: pt_ok_def t1 po)
  have q1: "node (mem s1) root (idx 2 a) = Some q" using node_frame [OF D(1) _ tfr, of "idx 2 a"] q by simp
  define s2 where "s2 = s1\<lparr>mem := store64 (mem s1) (pte_addr q 0 a) 0\<rparr>"
  note sl = store_leaf [OF pt1 q1 s2_def]
  have lf: "leaf (mem s2) root va = (if same_page va a then 0 else leaf (mem s) root va)" if "va < lim" for va
    using sl(4) [of va] same_page_iff [OF below [OF that] below [OF lim]] by (simp add: l1)
  have es: "page_ok s2 r = page_ok s r" for r by (simp add: s2_def page_ok_def po [unfolded page_ok_def] kfree_end_sym [OF s1(1)])
  have old: "\<not> same_page va a" "upage (mem s2) root va = upage (mem s) root va" "upage (mem s) root va \<noteq> ?p"
      "pte_valid (leaf (mem s) root va)"
    if "va < lim" "pte_valid (leaf (mem s2) root va)" for va
    using that lf [OF that(1)] D(6) [OF that(1) lim _ v] by (auto simp: upage_def pte_valid_def split: if_splits)
  have u2: "uvm_ok s2 root (?p # ps) lim"
    unfolding uvm_ok_def sl(3) t1 es using sl(1) D old by simp
  have sub: "pages_of s2 root (?p # ps) lim \<subseteq> A"
    using A old v lim by (force simp: pages_of_def sl(3) t1)
  have fr: "mem s2 x = mem s x" if "\<not> in_page ?p x" "\<forall>r \<in> tables (mem s) root. \<not> in_page r x" for x
    using sl(5) that ka.free_frame [OF s1(1) that(1)] by (simp add: pt_ext_def sl(3) t1)
  have "frame_on A s s2"
    using A fr v lim kfree_end_sym [OF s1(1)] kfree_more [OF s1(1)]
    by (force simp: frame_on_def pages_of_def s2_def)
  moreover have "uspace (mem s2) root va = (if same_page va a then None else uspace (mem s) root va)"
    if va: "va < lim" for va
  proof (cases "same_page va a")
    case True
    then show ?thesis using lf [OF va] by (simp add: uspace_def pte_valid_def)
  next
    case False
    have "uspace (mem s2) root va = uspace (mem s) root va"
    proof (rule uspace_cong)
      show l: "leaf (mem s2) root va = leaf (mem s) root va" using lf [OF va] False by simp
      fix x assume w: "pte_valid (leaf (mem s) root va)" and x: "in_page (upage (mem s) root va) x"
      have "\<not> in_page ?p x" using old(3) va w l x pages_disjoint by (metis upage_aligned)
      moreover have "\<forall>r \<in> tables (mem s) root. \<not> in_page r x"
        using D(5) [OF va w] by (intro pages_disjoint_set [OF x _ _ tal]) auto
      ultimately show "mem s2 x = mem s x" by (rule fr)
    qed
    then show ?thesis using False by simp
  qed
  ultimately show thesis using that [OF s1(1) s2_def u2] lf sub sl(3) t1 by simp
qed

lemma uvmunmap_loop_user:
  assumes "uvm_ok s root ps lim" "pg_aligned a" "unat a + 4096 * k \<le> unat lim" "stop = a + of_nat (4096 * k)"
    and "pages_of s root ps lim \<subseteq> A"
  shows "\<exists>s' ps'. uvmunmap_loop root a stop True s = Ok ((), s') \<and> uvm_ok s' root ps' lim \<and>
    (\<forall>va < lim. uspace (mem s') root va =
       (if unat a \<le> unat va \<and> unat va < unat a + 4096 * k then None else uspace (mem s) root va)) \<and>
    (\<forall>va < lim. \<not> (unat a \<le> unat va \<and> unat va < unat a + 4096 * k) \<longrightarrow> leaf (mem s') root va = leaf (mem s) root va) \<and>
    frame_on A s s' \<and> pages_of s' root ps' lim \<subseteq> A \<and> tables (mem s') root = tables (mem s) root"
  using assms
proof (induction k arbitrary: s ps a)
  case 0
  then show ?case by (intro exI [of _ s] exI [of _ ps]) (auto simp: uvmunmap_loop.simps)
next
  case (Suc k)
  note D = uvm_okD [OF Suc.prems(1)]
  have lim38: "unat lim \<le> 2 ^ 38" using D(2) by (simp add: word_le_nat_alt)
  have a: "a < lim" "a < MAXVA" using Suc.prems(3) lim38 by (auto simp: word_less_nat_alt)
  have u: "unat (a + 4096) = unat a + 4096" using Suc.prems(3) lim38 by (subst unat_add_small) simp_all
  have "unat stop = unat a + 4096 * Suc k"
    unfolding Suc.prems(4) using Suc.prems(3) lim38 by (intro unat_add_of_nat) simp
  then have less: "a < stop" by (simp add: word_less_nat_alt)
  have stop: "stop = a + 4096 + of_nat (4096 * k)" using Suc.prems(4) by simp
  have bound: "unat (a + 4096) + 4096 * k \<le> unat lim" using Suc.prems(3) u by simp
  note IH = Suc.IH [OF _ pg_aligned_step [OF Suc.prems(2)] bound stop]
  note sp = same_page_aligned [OF Suc.prems(2)]
  show ?case
  proof (cases "pte_valid (leaf (mem s) root a)")
    case False
    from walk_no_leaf [OF D(1) a(2) this] obtain pte where
      w: "walk root a False s = Ok (pte, s)" "pte = 0 \<or> load64 (mem s) pte AND PTE_V = 0" .
    have step: "uvmunmap_loop root a stop True s = uvmunmap_loop root (a + 4096) stop True s"
      using w less by (subst uvmunmap_loop.simps) (auto simp: Let_def)
    have here: "uspace (mem s) root va = None" if "va < lim" "same_page va a" for va
      using leaf_same_page [of va a] that a D(2) False by (simp add: uspace_def)
    obtain s' ps' where s': "uvmunmap_loop root (a + 4096) stop True s = Ok ((), s')" "uvm_ok s' root ps' lim"
      "\<forall>va < lim. uspace (mem s') root va =
         (if unat (a + 4096) \<le> unat va \<and> unat va < unat (a + 4096) + 4096 * k then None else uspace (mem s) root va)"
      "\<forall>va < lim. \<not> (unat (a + 4096) \<le> unat va \<and> unat va < unat (a + 4096) + 4096 * k) \<longrightarrow> leaf (mem s') root va = leaf (mem s) root va"
      "frame_on A s s'" "pages_of s' root ps' lim \<subseteq> A" "tables (mem s') root = tables (mem s) root"
      using IH [OF Suc.prems(1,5)] by blast
    show ?thesis
      unfolding step using s' here u by (intro exI [of _ s'] exI [of _ ps']) (auto simp: sp)
  next
    case True
    from walk_leaf [OF D(1) a(2) this] obtain q where
      q: "node (mem s) root (idx 2 a) = Some q" "walk root a False s = Ok (pte_addr q 0 a, s)"
        "pte_addr q 0 a \<noteq> 0" "load64 (mem s) (pte_addr q 0 a) = leaf (mem s) root a" .
    from unmap_user_page [OF Suc.prems(1) a(1) True q(1) Suc.prems(5)] obtain s1 s2 where
      s1: "kfree (upage (mem s) root a) s = Ok ((), s1)" and s2: "s2 = s1\<lparr>mem := store64 (mem s1) (pte_addr q 0 a) 0\<rparr>"
      and ok2: "uvm_ok s2 root (upage (mem s) root a # ps) lim"
      and lf: "\<forall>va < lim. leaf (mem s2) root va = (if same_page va a then 0 else leaf (mem s) root va)"
      and us: "\<forall>va < lim. uspace (mem s2) root va = (if same_page va a then None else uspace (mem s) root va)"
      and fr: "frame_on A s s2" and sub: "pages_of s2 root (upage (mem s) root a # ps) lim \<subseteq> A"
      and tb: "tables (mem s2) root = tables (mem s) root" by blast
    have step: "uvmunmap_loop root a stop True s = uvmunmap_loop root (a + 4096) stop True s2"
      using q s1 less True
      by (subst uvmunmap_loop.simps) (simp add: Let_def pte_valid_def upage_def s2)
    obtain s' ps' where s': "uvmunmap_loop root (a + 4096) stop True s2 = Ok ((), s')" "uvm_ok s' root ps' lim"
      "\<forall>va < lim. uspace (mem s') root va =
         (if unat (a + 4096) \<le> unat va \<and> unat va < unat (a + 4096) + 4096 * k then None else uspace (mem s2) root va)"
      "\<forall>va < lim. \<not> (unat (a + 4096) \<le> unat va \<and> unat va < unat (a + 4096) + 4096 * k) \<longrightarrow> leaf (mem s') root va = leaf (mem s2) root va"
      "frame_on A s2 s'" "pages_of s' root ps' lim \<subseteq> A" "tables (mem s') root = tables (mem s2) root"
      using IH [OF ok2 sub] by blast
    show ?thesis
      unfolding step using s' us lf fr frame_on_trans u tb
      by (intro exI [of _ s'] exI [of _ ps']) (auto simp: sp)
  qed
qed

lemma PGROUNDUP_below:
  assumes "pg_aligned lim" "lim \<le> MAXVA" "sz \<le> lim"
  shows "PGROUNDUP sz \<le> lim" "unat (PGROUNDUP sz) = 4096 * ((unat sz + 4095) div 4096)" "sz \<le> PGROUNDUP sz"
proof -
  have b: "unat sz + 4095 < 2 ^ 64" using assms(2,3) by (simp add: word_le_nat_alt)
  show u: "unat (PGROUNDUP sz) = 4096 * ((unat sz + 4095) div 4096)" using b by (rule unat_PGROUNDUP)
  show "sz \<le> PGROUNDUP sz" using b by (rule PGROUNDUP_ge)
  show "PGROUNDUP sz \<le> lim"
  proof (rule ccontr)
    assume "\<not> ?thesis"
    then have "unat lim + 4096 \<le> unat (PGROUNDUP sz)"
      using pg_aligned_le [OF PGROUNDUP_aligned assms(1), of sz] by (simp add: word_le_nat_alt)
    with PGROUNDUP_less [OF b] assms(3) show False by (simp add: word_le_nat_alt)
  qed
qed

lemma narrow_npages: "unat (x :: u64) < 2 ^ 31 \<Longrightarrow> scast (ucast x :: u32) = x"
proof -
  assume x: "unat x < 2 ^ 31"
  then have "take_bit 31 (unat x) = unat x" by (simp add: take_bit_nat_eq_self)
  then have "unat (take_bit 31 x) = unat x" by (simp only: unsigned_take_bit_eq)
  then have "take_bit 31 x = x" by (rule word_eq_unatI)
  then have hi: "\<not> bit x n" if "n \<ge> 31" for n using that by (metis bit_take_bit_iff not_le)
  show ?thesis
  proof (rule bit_word_eqI)
    fix n assume "n < LENGTH(64)"
    then show "bit (scast (ucast x :: u32) :: u64) n = bit x n"
      using hi [of n] hi [of 31] by (cases "n < 31") (auto simp: bit_simps min_def)
  qed
qed

definition in_range :: "u64 \<Rightarrow> u64 \<Rightarrow> u64 \<Rightarrow> bool" where
  "in_range lo hi va \<longleftrightarrow> unat lo \<le> unat va \<and> unat va < unat hi"

lemma uvmunmap_user:
  assumes ok: "uvm_ok s root ps lim" and al: "pg_aligned lo" "pg_aligned hi" and le: "lo \<le> hi" "hi \<le> lim"
    and n: "n = (hi - lo) div PGSIZE" and A: "pages_of s root ps lim \<subseteq> A"
  obtains s' ps' where "uvmunmap root lo n True s = Ok ((), s')" "uvm_ok s' root ps' lim"
    "\<forall>va < lim. uspace (mem s') root va = (if in_range lo hi va then None else uspace (mem s) root va)"
    "\<forall>va < lim. \<not> in_range lo hi va \<longrightarrow> leaf (mem s') root va = leaf (mem s) root va"
    "frame_on A s s'" "pages_of s' root ps' lim \<subseteq> A" "tables (mem s') root = tables (mem s) root"
proof -
  have "pg_aligned (hi - lo)" using al le(1) by (intro pg_aligned_diff)
  then have "4096 dvd unat (hi - lo)" by (auto simp: pg_aligned_def)
  then obtain k where k: "unat (hi - lo) = 4096 * k" by (rule dvdE)
  have un: "unat n = k" unfolding n using k by (simp add: unat_div_distrib)
  have hi: "unat hi = unat lo + 4096 * k" using k le(1) by (simp add: unat_sub word_le_nat_alt)
  have hiw: "hi = lo + of_nat (4096 * k)"
  proof -
    have "hi - lo = of_nat (unat (hi - lo))" by simp
    then show ?thesis unfolding k by (simp add: algebra_simps)
  qed
  have "n = of_nat (unat n)" by simp
  then have nk: "n = of_nat k" by (simp only: un)
  have stop: "lo + n * PGSIZE = hi" unfolding hiw nk by simp
  have run: "uvmunmap root lo n True s = uvmunmap_loop root lo hi True s"
    unfolding uvmunmap_def stop using al(1) by (simp add: aligned_mod_iff del: PGSIZE_def pg_aligned_mod)
  have "unat lo + 4096 * k \<le> unat lim" using le(2) hi by (simp add: word_le_nat_alt)
  from uvmunmap_loop_user [OF ok al(1) this hiw A] show thesis
    using that unfolding run in_range_def hi by blast
qed

text \<open>The rounded range that growing or shrinking between two sizes is about.\<close>

lemma uvmdealloc_user:
  assumes ok: "uvm_ok s root ps lim" and lim: "pg_aligned lim" and sz: "newsz \<le> lim" "oldsz \<le> lim"
    and A: "pages_of s root ps lim \<subseteq> A"
  obtains s' ps' where "uvmdealloc root oldsz newsz s = Ok (if newsz < oldsz then newsz else oldsz, s')"
    "uvm_ok s' root ps' lim"
    "\<forall>va < lim. uspace (mem s') root va =
       (if in_range (PGROUNDUP newsz) (PGROUNDUP oldsz) va then None else uspace (mem s) root va)"
    "\<forall>va < lim. \<not> in_range (PGROUNDUP newsz) (PGROUNDUP oldsz) va \<longrightarrow> leaf (mem s') root va = leaf (mem s) root va"
    "frame_on A s s'" "pages_of s' root ps' lim \<subseteq> A"
proof -
  note D = uvm_okD(2) [OF ok]
  note new = PGROUNDUP_below [OF lim D sz(1)] and old = PGROUNDUP_below [OF lim D sz(2)]
  show thesis
  proof (cases "PGROUNDUP newsz < PGROUNDUP oldsz")
    case True
    then have lt: "newsz < oldsz"
    proof -
      have "\<not> oldsz \<le> newsz"
      proof
        assume "oldsz \<le> newsz"
        then have "unat (PGROUNDUP oldsz) \<le> unat (PGROUNDUP newsz)"
          unfolding new(2) old(2) by (simp add: word_le_nat_alt div_le_mono)
        with True show False by (simp add: word_less_nat_alt)
      qed
      then show ?thesis by simp
    qed
    have le: "PGROUNDUP newsz \<le> PGROUNDUP oldsz" using True by simp
    let ?n = "(PGROUNDUP oldsz - PGROUNDUP newsz) div PGSIZE"
    have "unat (PGROUNDUP oldsz) \<le> 2 ^ 38" using old(1) D by (simp add: word_le_nat_alt)
    then have "unat (PGROUNDUP oldsz - PGROUNDUP newsz) \<le> 2 ^ 38"
      using True by (simp add: unat_sub word_less_nat_alt word_le_nat_alt)
    then have "unat ?n < 2 ^ 31" by (simp add: unat_div_distrib)
    then have nn: "scast (ucast ?n :: u32) = ?n" by (rule narrow_npages)
    obtain s' ps' where s': "uvmunmap root (PGROUNDUP newsz) ?n True s = Ok ((), s')" "uvm_ok s' root ps' lim"
      "\<forall>va < lim. uspace (mem s') root va =
         (if in_range (PGROUNDUP newsz) (PGROUNDUP oldsz) va then None else uspace (mem s) root va)"
      "\<forall>va < lim. \<not> in_range (PGROUNDUP newsz) (PGROUNDUP oldsz) va \<longrightarrow> leaf (mem s') root va = leaf (mem s) root va"
      "frame_on A s s'" "pages_of s' root ps' lim \<subseteq> A" "tables (mem s') root = tables (mem s) root"
      using uvmunmap_user [OF ok PGROUNDUP_aligned PGROUNDUP_aligned le old(1) refl A] by metis
    have "\<not> oldsz \<le> newsz" using lt by (simp only: not_le)
    then have "uvmdealloc root oldsz newsz s = Ok (newsz, s')"
      unfolding uvmdealloc_def Let_def nn using True s'(1) by simp
    then show thesis using that s' lt by simp
  next
    case False
    then have "\<not> in_range (PGROUNDUP newsz) (PGROUNDUP oldsz) va" for va
      by (auto simp: in_range_def word_less_nat_alt)
    moreover have "uvmdealloc root oldsz newsz s = Ok (if newsz < oldsz then newsz else oldsz, s)"
    proof (cases "oldsz \<le> newsz")
      case True
      then have "\<not> newsz < oldsz" by (simp only: not_less)
      then show ?thesis using True by (simp add: uvmdealloc_def)
    next
      case le: False
      then have "newsz < oldsz" by (simp only: not_le)
      then show ?thesis using False le by (simp add: uvmdealloc_def del: not_less)
    qed
    ultimately show thesis using that ok A by simp
  qed
qed

subsection \<open>vmfault\<close>

lemma more_vm:
  fixes s s' :: "'a vm_scheme"
  assumes "kmem.more s' = kmem.more s"
  shows "p_sz s' = p_sz s" "p_pagetable s' = p_pagetable s"
  using assms by (cases s; cases s'; simp)+

lemma fill_zero_byte: "fill_page m pg 0 (pg + (va - PGROUNDDOWN va)) = 0"
  by (rule fill_page_in) (rule byte_in_page)

lemma user_perm: "(PTE_W OR PTE_U OR PTE_R) AND 0x3FF = PTE_W OR PTE_U OR PTE_R"
  by (simp add: pte_flag_defs)

lemma ismapped_leaf:
  assumes ok: "pt_ok s root ps" and lim: "va < MAXVA"
  shows "ismapped root va s = Ok (pte_valid (leaf (mem s) root va), s)"
proof (cases "node (mem s) root (idx 2 va)")
  case None
  then show ?thesis using lim by (simp add: ismapped_def walk_lookup leaf_def pte_valid_def)
next
  case (Some q)
  have "pte_addr q 0 va \<noteq> 0" using pte_addr_nonzero [OF ok _ Some] by simp
  then show ?thesis using lim Some by (simp add: ismapped_def walk_lookup leaf_def pte_valid_def)
qed

lemma vmfault_user:
  fixes s :: "'a vm_scheme"
  assumes ok: "uvm_ok s root ps lim" and root: "p_pagetable s = root" and sz: "p_sz s \<le> lim"
    and A: "pages_of s root ps lim \<subseteq> A"
  obtains (refused) "vmfault root va rd s = Ok (0, s)" "p_sz s \<le> va \<or> pte_valid (leaf (mem s) root (PGROUNDDOWN va))"
  | (nomem) s' ps' where "vmfault root va rd s = Ok (0, s')" "uvm_ok s' root ps' lim" "length ps < 3"
      "\<forall>v < lim. uspace (mem s') root v = uspace (mem s) root v"
      "\<forall>v < lim. leaf (mem s') root v = leaf (mem s) root v"
      "frame_on A s s'" "pages_of s' root ps' lim \<subseteq> A"
  | (mapped) pg s' ps' where "vmfault root va rd s = Ok (pg, s')" "pg \<noteq> 0" "uvm_ok s' root ps' lim" "va < p_sz s"
      "\<not> pte_valid (leaf (mem s) root (PGROUNDDOWN va))" "pg_aligned pg"
      "\<forall>v < lim. leaf (mem s') root v =
         (if same_page v va then PA2PTE pg OR (PTE_W OR PTE_U OR PTE_R) OR PTE_V else leaf (mem s) root v)"
      "\<forall>v < lim. uspace (mem s') root v = (if same_page v va then Some 0 else uspace (mem s) root v)"
      "frame_on A s s'" "pages_of s' root ps' lim \<subseteq> A"
proof (cases "p_sz s \<le> va")
  case True
  then show thesis using refused by (simp add: vmfault_def)
next
  case va: False
  let ?a = "PGROUNDDOWN va"
  note D = uvm_okD [OF ok]
  have a: "?a < lim" using PGROUNDDOWN_le [of va] va sz by simp
  have a38: "?a < MAXVA" using a D(2) by simp
  have sp: "same_page v ?a \<longleftrightarrow> same_page v va" for v by (simp add: same_page_def unat_PGROUNDDOWN)
  show thesis
  proof (cases "pte_valid (leaf (mem s) root ?a)")
    case True
    then have "ismapped root ?a s = Ok (True, s)" using ismapped_leaf [OF D(1) a38] by simp
    then show thesis using refused va True by (simp add: vmfault_def Let_def)
  next
    case free: False
    then have im: "ismapped root ?a s = Ok (False, s)" using ismapped_leaf [OF D(1) a38] by simp
    obtain pg s1 where al: "kalloc s = (pg, s1)" by (cases "kalloc s")
    show thesis
    proof (cases "pg = 0")
      case True
      have "ps = []" "s1 = s"
        using pt_ok_kmem [OF D(1)] al True by (cases rule: ka.alloc_cases; simp)+
      then show thesis using nomem [of s ps] va im al True ok A by (simp add: vmfault_def Let_def)
    next
      case pg: False
      define s2 where "s2 = s1\<lparr>mem := fill_page (mem s1) pg 0\<rparr>"
      note ku = kalloc_user [OF ok al pg s2_def, simplified]
      have root2: "p_pagetable s1 = root"
        using more_vm [of s s1] ku(8) root by (simp add: s2_def)
      have eq: "vmfault root va rd s = kbind (mappages root ?a PGSIZE pg (PTE_W OR PTE_U OR PTE_R) s2)
          (\<lambda>(r, s3). if r \<noteq> 0 then kbind (kfree pg s3) (\<lambda>(_, s4). Ok (0, s4)) else Ok (pg, s3))"
        using va im al pg root2 by (simp add: vmfault_def Let_def s2_def)
      have A2: "insert pg (pages_of s2 root (tl ps) lim) \<subseteq> A"
      proof -
        have "set ps = insert pg (set (tl ps))" using ku(4) by (metis list.simps(15))
        then show ?thesis using A by (auto simp: pages_of_def upage_def ku(5,7))
      qed
      have fr: "frame_on A s s2"
        using A2 ku(8,9,10) by (auto simp: frame_on_def s2_def)
      have free2: "\<not> pte_valid (leaf (mem s2) root ?a)" using free ku(5) by simp
      show thesis
        using ku(1,2,3) PGROUNDDOWN_aligned a free2 user_perm A2
      proof (cases rule: map_user_page)
        case (mapped s3 ps3)
        have pga: "pg_aligned pg" using ku(2) by (simp add: fresh_page_def page_ok_def)
        show thesis
          using that(3) [of pg s3 ps3] mapped eq pg va free pga ku(5,6) frame_on_trans [OF fr]
          by (simp add: sp s2_def fill_zero_byte)
      next
        case (nomem s3)
        obtain s4 where
          s4: "kfree pg s3 = Ok ((), s4)" "uvm_ok s4 root [pg] lim"
            "\<forall>va. leaf (mem s4) root va = leaf (mem s3) root va"
            "\<forall>va < lim. uspace (mem s4) root va = uspace (mem s3) root va"
            "tables (mem s4) root = tables (mem s3) root" "kmem.more s4 = kmem.more s3" "end_sym s4 = end_sym s3"
            "\<forall>x. \<not> in_page pg x \<longrightarrow> mem s4 x = mem s3 x" using kfree_user [OF nomem(2,3)] by (metis empty_iff list.set(1))
        have "frame_on A s3 s4" using s4 A2 by (auto simp: frame_on_def)
        then have f4: "frame_on A s s4" using fr nomem(6) frame_on_trans by blast
        have "pages_of s4 root [pg] lim \<subseteq> A"
          using nomem(7) A2 by (auto simp: pages_of_def upage_def s4)
        moreover have "length ps < 3" using nomem(8) ku(4) by (metis One_nat_def Suc_less_eq length_Cons numeral_2_eq_2 numeral_3_eq_3)
        ultimately show thesis
          using that(2) [of s4 "[pg]"] nomem eq s4 ku(5,6) f4 by simp
      qed
    qed
  qed
qed

end
