(* ===== verification/Vm_Copy.thy ===== *)
theory Vm_Copy
  imports Vm_User
begin

section \<open>Growing an address space, and copying in and out of it\<close>

text \<open>
  The correctness of \<^verbatim>\<open>uvmalloc\<close>, \<^verbatim>\<open>copyout\<close> and \<^verbatim>\<open>copyin\<close> on the abstract address space. Because
  pages below the process size are allocated on first use and start out zeroed, what a process can
  observe is \<open>ubyte\<close>: the byte of the mapped page, or 0 where no page is mapped yet. The copy routines
  may allocate pages on the way, which \<open>ubyte\<close> does not see.
\<close>

unbundle bit_operations_syntax

subsection \<open>uvmalloc\<close>

lemma PGROUNDUP_id: "pg_aligned a \<Longrightarrow> a \<le> MAXVA \<Longrightarrow> PGROUNDUP a = a"
proof (rule word_eq_unatI)
  assume al: "pg_aligned a" and le: "a \<le> MAXVA"
  have "4096 dvd unat a" using al by (auto simp: pg_aligned_def)
  then obtain k where k: "unat a = 4096 * k" by (rule dvdE)
  have "unat a + 4095 < 2 ^ 64" using le by (simp add: word_le_nat_alt)
  from unat_PGROUNDUP [OF this] show "unat (PGROUNDUP a) = unat a" by (simp add: k)
qed

lemma in_range_split:
  "unat lo \<le> unat mid \<Longrightarrow> unat mid \<le> unat hi \<Longrightarrow>
   in_range lo hi va \<longleftrightarrow> in_range lo mid va \<or> in_range mid hi va"
  by (auto simp: in_range_def)

lemma in_range_page:
  "pg_aligned a \<Longrightarrow> unat b = unat a + 4096 \<Longrightarrow> in_range a b va \<longleftrightarrow> same_page va a"
  by (simp add: in_range_def same_page_aligned)

lemma in_range_empty [simp]: "\<not> in_range a a va"
  by (simp add: in_range_def)

lemma uspace_None: "\<not> pte_valid (leaf m root va) \<Longrightarrow> uspace m root va = None"
  by (simp add: uspace_def)

lemma user_flags:
  assumes "perm AND 0x3FF = perm"
  shows "PTE_FLAGS (PA2PTE pg OR perm OR PTE_V) = perm OR PTE_V"
  by (rule PTE_FLAGS_PA2PTE) (use assms in \<open>simp add: PTE_V_1 bit.conj_disj_distrib2\<close>)

text \<open>The outcome of growing from \<open>a\<close> to \<open>tp\<close>, where failure also takes back everything from \<open>old\<close> on.\<close>

definition grow_result ::
  "addr \<Rightarrow> u64 \<Rightarrow> u64 \<Rightarrow> u64 \<Rightarrow> u64 \<Rightarrow> u64 \<Rightarrow> u64 \<Rightarrow> memory \<Rightarrow> memory \<Rightarrow> u64 \<Rightarrow> bool" where
  "grow_result root lim old a tp newsz perm m m' r \<longleftrightarrow>
     (r = newsz \<and>
      (\<forall>va < lim. uspace m' root va = (if in_range a tp va then Some 0 else uspace m root va)) \<and>
      (\<forall>va < lim. in_range a tp va \<longrightarrow> PTE_FLAGS (leaf m' root va) = perm OR PTE_V) \<and>
      (\<forall>va < lim. \<not> in_range a tp va \<longrightarrow> leaf m' root va = leaf m root va)) \<or>
     (r = 0 \<and>
      (\<forall>va < lim. uspace m' root va = (if in_range old tp va then None else uspace m root va)) \<and>
      (\<forall>va < lim. \<not> in_range old tp va \<longrightarrow> leaf m' root va = leaf m root va))"

lemma grow_result_step:
  assumes g: "grow_result root lim old a' tp newsz perm m3 m' r"
    and us3: "\<forall>va < lim. uspace m3 root va = (if same_page va a then Some 0 else uspace m root va)"
    and lf3: "\<forall>va < lim. leaf m3 root va = (if same_page va a then e else leaf m root va)"
    and r1: "\<forall>va. in_range a tp va \<longleftrightarrow> same_page va a \<or> in_range a' tp va"
    and r2: "\<forall>va. same_page va a \<longrightarrow> \<not> in_range a' tp va"
    and old: "\<forall>va. same_page va a \<longrightarrow> in_range old tp va"
    and fl: "PTE_FLAGS e = perm OR PTE_V"
  shows "grow_result root lim old a tp newsz perm m m' r"
proof -
  consider (finished) "r = newsz"
      "\<forall>va < lim. uspace m' root va = (if in_range a' tp va then Some 0 else uspace m3 root va)"
      "\<forall>va < lim. in_range a' tp va \<longrightarrow> PTE_FLAGS (leaf m' root va) = perm OR PTE_V"
      "\<forall>va < lim. \<not> in_range a' tp va \<longrightarrow> leaf m' root va = leaf m3 root va"
    | (fail) "r = 0" "\<forall>va < lim. uspace m' root va = (if in_range old tp va then None else uspace m3 root va)"
      "\<forall>va < lim. \<not> in_range old tp va \<longrightarrow> leaf m' root va = leaf m3 root va"
    using g unfolding grow_result_def by blast
  then show ?thesis
  proof cases
    case finished
    have "uspace m' root va = (if in_range a tp va then Some 0 else uspace m root va)" if "va < lim" for va
      using that finished(2) us3 r1 r2 by (cases "same_page va a") simp_all
    moreover have "PTE_FLAGS (leaf m' root va) = perm OR PTE_V" if "va < lim" "in_range a tp va" for va
      using that finished(3,4) lf3 r1 r2 fl by (cases "same_page va a") simp_all
    moreover have "leaf m' root va = leaf m root va" if "va < lim" "\<not> in_range a tp va" for va
      using that finished(4) lf3 r1 by (cases "same_page va a") simp_all
    ultimately show ?thesis using finished(1) by (simp add: grow_result_def)
  next
    case fail
    have "uspace m' root va = (if in_range old tp va then None else uspace m root va)" if "va < lim" for va
      using that fail(2) us3 old by (cases "same_page va a") simp_all
    moreover have "leaf m' root va = leaf m root va" if "va < lim" "\<not> in_range old tp va" for va
      using that fail(3) lf3 old by (cases "same_page va a") auto
    ultimately show ?thesis using fail(1) by (simp add: grow_result_def)
  qed
qed

text \<open>Taking back the pages already mapped, as \<^verbatim>\<open>uvmalloc\<close> does when memory runs out.\<close>

lemma take_back:
  assumes ok: "uvm_ok s root ps lim" and lim: "pg_aligned lim" and al: "pg_aligned old" "pg_aligned a"
    and le: "old \<le> a" "a \<le> tp" "tp \<le> lim" and A: "pages_of s root ps lim \<subseteq> A"
    and same: "\<forall>va < lim. uspace (mem s) root va = uspace m root va" "\<forall>va < lim. leaf (mem s) root va = leaf m root va"
    and none: "\<forall>va < lim. in_range a tp va \<longrightarrow> uspace m root va = None"
  obtains r s' ps' where "uvmdealloc root a old s = Ok (r, s')" "uvm_ok s' root ps' lim" "frame_on A s s'"
    "pages_of s' root ps' lim \<subseteq> A" "grow_result root lim old a tp newsz perm m (mem s') 0"
proof -
  have D: "lim \<le> MAXVA" using uvm_okD(2) [OF ok] .
  have le': "old \<le> lim" "a \<le> lim" using le by auto
  have up: "PGROUNDUP old = old" "PGROUNDUP a = a" using al le' D by (auto intro!: PGROUNDUP_id simp del: MAXVA_val)
  obtain s' ps' where s': "uvmdealloc root a old s = Ok (if old < a then old else a, s')" "uvm_ok s' root ps' lim"
    "\<forall>va < lim. uspace (mem s') root va = (if in_range old a va then None else uspace (mem s) root va)"
    "\<forall>va < lim. \<not> in_range old a va \<longrightarrow> leaf (mem s') root va = leaf (mem s) root va"
    "frame_on A s s'" "pages_of s' root ps' lim \<subseteq> A"
    using uvmdealloc_user [OF ok lim le' A] unfolding up by metis
  have "in_range old tp va \<longleftrightarrow> in_range old a va \<or> in_range a tp va" for va
    using le by (intro in_range_split) (simp_all add: word_le_nat_alt)
  then have "grow_result root lim old a tp newsz perm m (mem s') 0"
    using s'(3,4) same none by (simp add: grow_result_def)
  then show thesis using that s' by blast
qed

lemma uvmalloc_loop_user:
  assumes "uvm_ok s root ps lim" "pg_aligned lim" "pg_aligned old" "pg_aligned a" "old \<le> a"
    and "unat (PGROUNDUP newsz) = unat a + 4096 * k" "newsz \<le> lim"
    and "\<forall>va < lim. in_range a (PGROUNDUP newsz) va \<longrightarrow> \<not> pte_valid (leaf (mem s) root va)"
    and "perm = PTE_R OR PTE_U OR xperm" "perm AND 0x3FF = perm" and "pages_of s root ps lim \<subseteq> A"
  shows "\<exists>r s' ps'. uvmalloc_loop root old a newsz xperm s = Ok (r, s') \<and> uvm_ok s' root ps' lim \<and>
    frame_on A s s' \<and> pages_of s' root ps' lim \<subseteq> A \<and>
    grow_result root lim old a (PGROUNDUP newsz) newsz perm (mem s) (mem s') r"
  using assms
proof (induction k arbitrary: s ps a)
  case 0
  have D: "lim \<le> MAXVA" using uvm_okD(2) [OF "0.prems"(1)] .
  have "newsz \<le> PGROUNDUP newsz" using PGROUNDUP_below [OF "0.prems"(2) D "0.prems"(7)] by simp
  then have "\<not> a < newsz" using "0.prems"(6) by (simp add: word_le_nat_alt word_less_nat_alt)
  then have "uvmalloc_loop root old a newsz xperm s = Ok (newsz, s)" by (subst uvmalloc_loop.simps) simp
  moreover have "\<not> in_range a (PGROUNDUP newsz) va" for va using "0.prems"(6) by (simp add: in_range_def)
  ultimately show ?case using "0.prems" by (intro exI [of _ newsz] exI [of _ s] exI [of _ ps]) (simp add: grow_result_def)
next
  case (Suc k)
  let ?top = "PGROUNDUP newsz"
  note ok = Suc.prems(1) and lim = Suc.prems(2) and old = Suc.prems(3) and al = Suc.prems(4)
  have D: "pt_ok s root ps" "lim \<le> MAXVA" using uvm_okD(1,2) [OF ok] by blast+
  note up = PGROUNDUP_below [OF lim D(2) Suc.prems(7)]
  have top: "a \<le> ?top" "?top \<le> lim" using Suc.prems(6) up(1) by (simp_all add: word_le_nat_alt)
  have b38: "unat ?top \<le> 2 ^ 38" using top(2) D(2) by (simp add: word_le_nat_alt)
  have a_lim: "a < lim" using Suc.prems(6) up(1) by (simp add: word_le_nat_alt word_less_nat_alt)
  have "unat newsz + 4095 < 2 ^ 64" using Suc.prems(7) D(2) by (simp add: word_le_nat_alt)
  from PGROUNDUP_less [OF this] have "a < newsz" using Suc.prems(6) by (simp add: word_less_nat_alt)
  note unf = uvmalloc_loop.simps [of root old a newsz xperm s, unfolded if_P [OF this]]
  have u: "unat (a + 4096) = unat a + 4096" using Suc.prems(6) b38 by (subst unat_add_small) simp_all
  have none: "\<forall>va < lim. in_range a ?top va \<longrightarrow> uspace (mem s) root va = None"
    using Suc.prems(8) by (simp add: uspace_None)
  have free: "\<not> pte_valid (leaf (mem s) root a)" using Suc.prems(6,8) a_lim by (simp add: in_range_def)
  obtain pg s1 where kal: "kalloc s = (pg, s1)" by (cases "kalloc s")
  show ?case
  proof (cases "pg = 0")
    case True
    have "s1 = s" using pt_ok_kmem [OF D(1)] kal True by (cases rule: ka.alloc_cases) simp_all
    obtain r s' ps' where s': "uvmdealloc root a old s = Ok (r, s')" "uvm_ok s' root ps' lim" "frame_on A s s'"
      "pages_of s' root ps' lim \<subseteq> A" "grow_result root lim old a ?top newsz perm (mem s) (mem s') 0"
      using take_back [OF ok lim old al Suc.prems(5) top Suc.prems(11) _ _ none, of newsz perm] by auto
    then show ?thesis using \<open>s1 = s\<close> kal True
      by (intro exI [of _ 0] exI [of _ s'] exI [of _ ps']) (simp add: unf)
  next
    case pg: False
    define s2 where "s2 = s1\<lparr>mem := fill_page (mem s1) pg 0\<rparr>"
    note ku = kalloc_user [OF ok kal pg s2_def, simplified]
    have A2: "insert pg (pages_of s2 root (tl ps) lim) \<subseteq> A"
    proof -
      have "set ps = insert pg (set (tl ps))" using ku(4) by (metis list.simps(15))
      then show ?thesis using Suc.prems(11) by (auto simp: pages_of_def upage_def ku(5,7))
    qed
    have fr: "frame_on A s s2" using A2 ku(8,9,10) by (auto simp: frame_on_def s2_def)
    have free2: "\<not> pte_valid (leaf (mem s2) root a)" using free ku(5) by simp
    show ?thesis
      using ku(1,2,3) al a_lim free2 Suc.prems(10) A2
    proof (cases rule: map_user_page)
      case (mapped s3 ps3)
      have step: "uvmalloc_loop root old a newsz xperm s = uvmalloc_loop root old (a + 4096) newsz xperm s3"
        using kal pg mapped(1) by (simp add: unf s2_def Suc.prems(9))
      have r1: "in_range a ?top va \<longleftrightarrow> same_page va a \<or> in_range (a + 4096) ?top va" for va
        using in_range_split [of a "a + 4096" ?top va] in_range_page [OF al u] u Suc.prems(6) by simp
      have r2: "\<not> in_range (a + 4096) ?top va" if "same_page va a" for va
        using that u by (simp add: in_range_def same_page_aligned [OF al])
      have "\<exists>r s' ps'. uvmalloc_loop root old (a + 4096) newsz xperm s3 = Ok (r, s') \<and> uvm_ok s' root ps' lim \<and>
          frame_on A s3 s' \<and> pages_of s' root ps' lim \<subseteq> A \<and>
          grow_result root lim old (a + 4096) ?top newsz perm (mem s3) (mem s') r"
      proof (rule Suc.IH)
        show "pg_aligned (a + 4096)" using al by (rule pg_aligned_step)
        show "old \<le> a + 4096" using Suc.prems(5) u by (simp add: word_le_nat_alt)
        show "\<forall>va<lim. in_range (a + 4096) ?top va \<longrightarrow> \<not> pte_valid (leaf (mem s3) root va)"
          using Suc.prems(8) mapped(3) ku(5) r1 r2 by auto
      qed (use Suc.prems mapped u in simp_all)
      then obtain r s' ps' where s': "uvmalloc_loop root old (a + 4096) newsz xperm s3 = Ok (r, s')"
        "uvm_ok s' root ps' lim" "frame_on A s3 s'" "pages_of s' root ps' lim \<subseteq> A"
        "grow_result root lim old (a + 4096) ?top newsz perm (mem s3) (mem s') r" by blast
      have us3: "\<forall>va < lim. uspace (mem s3) root va = (if same_page va a then Some 0 else uspace (mem s) root va)"
        using mapped(4) ku(6) by (simp add: s2_def fill_zero_byte)
      have lf3: "\<forall>va < lim. leaf (mem s3) root va = (if same_page va a then PA2PTE pg OR perm OR PTE_V else leaf (mem s) root va)"
        using mapped(3) ku(5) by simp
      have old_top: "\<forall>va. same_page va a \<longrightarrow> in_range old ?top va"
        using r1 in_range_split [of old a ?top] Suc.prems(5) top by (simp add: word_le_nat_alt)
      have "\<forall>va. in_range a ?top va \<longleftrightarrow> same_page va a \<or> in_range (a + 4096) ?top va"
        and "\<forall>va. same_page va a \<longrightarrow> \<not> in_range (a + 4096) ?top va" using r1 r2 by simp_all
      note gr = grow_result_step [OF s'(5) us3 lf3 this old_top user_flags [OF Suc.prems(10)]]
      have "frame_on A s s'" using frame_on_trans [OF frame_on_trans [OF fr mapped(5)] s'(3)] .
      then show ?thesis
        using step s'(1,2,4) gr by (intro exI [of _ r] exI [of _ s'] exI [of _ ps']) simp
    next
      case (nomem s3)
      obtain s4 where s4: "kfree pg s3 = Ok ((), s4)" "uvm_ok s4 root [pg] lim"
          "\<forall>va. leaf (mem s4) root va = leaf (mem s3) root va"
          "\<forall>va < lim. uspace (mem s4) root va = uspace (mem s3) root va"
          "tables (mem s4) root = tables (mem s3) root" "kmem.more s4 = kmem.more s3" "end_sym s4 = end_sym s3"
          "\<forall>x. \<not> in_page pg x \<longrightarrow> mem s4 x = mem s3 x"
        using kfree_user [OF nomem(2,3)] by (metis empty_iff list.set(1))
      have "frame_on A s3 s4" using s4 A2 by (auto simp: frame_on_def)
      then have f4: "frame_on A s s4" using fr nomem(6) frame_on_trans by blast
      have A4: "pages_of s4 root [pg] lim \<subseteq> A"
        using nomem(7) A2 by (auto simp: pages_of_def upage_def s4)
      have "\<forall>va < lim. uspace (mem s4) root va = uspace (mem s) root va" "\<forall>va < lim. leaf (mem s4) root va = leaf (mem s) root va"
        using s4 nomem ku(5,6) by simp_all
      then obtain r s' ps' where s': "uvmdealloc root a old s4 = Ok (r, s')" "uvm_ok s' root ps' lim" "frame_on A s4 s'"
        "pages_of s' root ps' lim \<subseteq> A" "grow_result root lim old a ?top newsz perm (mem s) (mem s') 0"
        using take_back [OF s4(2) lim old al Suc.prems(5) top A4 _ _ none] by blast
      have "frame_on A s s'" using frame_on_trans [OF f4 s'(3)] .
      then show ?thesis using kal pg nomem(1) s4(1) s'
        by (intro exI [of _ 0] exI [of _ s'] exI [of _ ps']) (simp add: unf s2_def Suc.prems(9))
    qed
  qed
qed

lemma perm_with_RU: "xperm AND 0x3FF = xperm \<Longrightarrow> (PTE_R OR PTE_U OR xperm) AND 0x3FF = PTE_R OR PTE_U OR xperm"
  by (simp add: pte_flag_defs bit.conj_disj_distrib2)

text \<open>
  C21: \<^verbatim>\<open>uvmalloc\<close> is all or nothing. On a well-formed address space whose pages between the two sizes are
  unmapped, it returns without panicking. Either the result is the new size, the new pages read as
  zeros with the requested permissions and every other byte is as before; or the result is 0, no byte
  and no mapping differs from before. In both cases the invariant holds and no memory outside the
  pages of this address space and the free list has changed.
\<close>

theorem uvmalloc_all_or_nothing:
  assumes ok: "uvm_ok s root ps lim" and lim: "pg_aligned lim" and sz: "oldsz \<le> newsz" "newsz \<le> lim"
    and new: "\<forall>va < lim. in_range (PGROUNDUP oldsz) (PGROUNDUP newsz) va \<longrightarrow> \<not> pte_valid (leaf (mem s) root va)"
    and perm: "xperm AND 0x3FF = xperm"
  shows "\<exists>r s' ps'. uvmalloc root oldsz newsz xperm s = Ok (r, s') \<and> uvm_ok s' root ps' lim \<and>
    frame_on (pages_of s root ps lim) s s' \<and>
    (r = newsz \<and> (\<forall>va < lim. uspace (mem s') root va =
         (if in_range (PGROUNDUP oldsz) (PGROUNDUP newsz) va then Some 0 else uspace (mem s) root va)) \<and>
       (\<forall>va < lim. in_range (PGROUNDUP oldsz) (PGROUNDUP newsz) va \<longrightarrow>
         PTE_FLAGS (leaf (mem s') root va) = PTE_R OR PTE_U OR xperm OR PTE_V) \<or>
     r = 0 \<and> (\<forall>va < lim. uspace (mem s') root va = uspace (mem s) root va))"
proof -
  let ?lo = "PGROUNDUP oldsz" and ?hi = "PGROUNDUP newsz"
  have D: "lim \<le> MAXVA" using uvm_okD(2) [OF ok] .
  note up = PGROUNDUP_below [OF lim D sz(2)] and lo = PGROUNDUP_below [OF lim D order_trans [OF sz]]
  have le: "unat ?lo \<le> unat ?hi" unfolding up(2) lo(2) using sz(1) by (simp add: word_le_nat_alt div_le_mono)
  have k: "unat ?hi = unat ?lo + 4096 * ((unat newsz + 4095) div 4096 - (unat oldsz + 4095) div 4096)"
    using le unfolding up(2) lo(2) by (simp add: diff_mult_distrib2)
  obtain r s' ps' where s': "uvmalloc_loop root ?lo ?lo newsz xperm s = Ok (r, s')" "uvm_ok s' root ps' lim"
    "frame_on (pages_of s root ps lim) s s'"
    "grow_result root lim ?lo ?lo ?hi newsz (PTE_R OR PTE_U OR xperm) (mem s) (mem s') r"
    using uvmalloc_loop_user [OF ok lim PGROUNDUP_aligned PGROUNDUP_aligned order_refl k sz(2) new refl perm_with_RU [OF perm] order_refl]
    by blast
  have "\<not> newsz < oldsz" using sz(1) by (simp only: not_less)
  then have "uvmalloc root oldsz newsz xperm s = Ok (r, s')" using s'(1) by (simp add: uvmalloc_def)
  moreover have "uspace (mem s') root va = uspace (mem s) root va"
    if "uspace (mem s') root va = (if in_range ?lo ?hi va then None else uspace (mem s) root va)" "va < lim" for va
    using that new by (cases "in_range ?lo ?hi va") (simp_all add: uspace_None)
  ultimately show ?thesis using s'(2-4) unfolding grow_result_def or.assoc
    by (intro exI [of _ r] exI [of _ s'] exI [of _ ps'] conjI; (elim disjE conjE)?; blast)
qed

lemma demo_uvm: "uvm_ok demo 0x80000000 [0x80001000, 0x80002000] 0x4000"
  using demo_ok by (simp add: uvm_ok_def pte_valid_def)

theorem uvmalloc_all_or_nothing_witness:
  "\<exists>r s' ps'. uvmalloc 0x80000000 0 0x1000 PTE_W demo = Ok (r, s') \<and> uvm_ok s' 0x80000000 ps' 0x4000 \<and>
     (r = 0x1000 \<or> r = 0)"
  using uvmalloc_all_or_nothing [OF demo_uvm, of 0 "0x1000" PTE_W] demo_ok(4)
  by (auto simp: pg_aligned_def pte_valid_def pte_flag_defs)

subsection \<open>What a process sees, and writing to its pages\<close>

definition ubyte :: "memory \<Rightarrow> addr \<Rightarrow> u64 \<Rightarrow> u8" where
  "ubyte m root va = (case uspace m root va of Some b \<Rightarrow> b | None \<Rightarrow> 0)"

definition user_ok :: "u64 \<Rightarrow> bool" where
  "user_ok e \<longleftrightarrow> pte_valid e \<and> e AND PTE_U \<noteq> 0"

definition write_ok :: "u64 \<Rightarrow> bool" where
  "write_ok e \<longleftrightarrow> user_ok e \<and> e AND PTE_W \<noteq> 0"

lemma write_user_ok: "write_ok e \<Longrightarrow> user_ok e"
  by (simp add: write_ok_def)

lemma user_valid: "user_ok e \<Longrightarrow> pte_valid e"
  by (simp add: user_ok_def)

text \<open>The page \<^verbatim>\<open>copyout\<close> and \<^verbatim>\<open>copyin\<close> work on.\<close>

lemma fault_pte_ok:
  "write_ok (PA2PTE pg OR (PTE_W OR PTE_U OR PTE_R) OR PTE_V)"
proof -
  have "pte_valid (PA2PTE pg OR (PTE_W OR PTE_U OR PTE_R) OR PTE_V)"
    unfolding pte_valid_def or.assoc [symmetric] by (rule valid_pte)
  moreover have "(x OR (PTE_W OR PTE_U OR PTE_R) OR PTE_V) AND PTE_U = PTE_U"
    "(x OR (PTE_W OR PTE_U OR PTE_R) OR PTE_V) AND PTE_W = PTE_W" for x
    by (rule bit_word_eqI; auto simp: bit_simps)+
  ultimately show ?thesis by (simp add: write_ok_def user_ok_def pte_flag_defs)
qed

lemma user_page_cases:
  fixes s :: "'a vm_scheme"
  assumes ok: "uvm_ok s root ps lim" and root: "p_pagetable s = root" and sz: "p_sz s \<le> lim"
    and a: "pg_aligned a" "a < lim" and A: "pages_of s root ps lim \<subseteq> A"
  obtains (none) s' ps' where "user_page root a s = Ok (0, s')" "uvm_ok s' root ps' lim" "frame_on A s s'"
      "pages_of s' root ps' lim \<subseteq> A" "\<not> user_ok (leaf (mem s) root a)"
      "\<forall>v < lim. ubyte (mem s') root v = ubyte (mem s) root v" "\<forall>v < lim. leaf (mem s') root v = leaf (mem s) root v"
  | (page) s' ps' where "user_page root a s = Ok (upage (mem s') root a, s')" "upage (mem s') root a \<noteq> 0"
      "uvm_ok s' root ps' lim" "frame_on A s s'" "pages_of s' root ps' lim \<subseteq> A" "user_ok (leaf (mem s') root a)"
      "\<forall>v < lim. ubyte (mem s') root v = ubyte (mem s) root v"
      "\<forall>v < lim. user_ok (leaf (mem s) root v) \<longrightarrow> leaf (mem s') root v = leaf (mem s) root v"
      "user_ok (leaf (mem s) root a) \<or> write_ok (leaf (mem s') root a)"
      "\<forall>v < lim. pte_valid (leaf (mem s) root v) \<longrightarrow> leaf (mem s') root v = leaf (mem s) root v"
      "pte_valid (leaf (mem s) root a) \<longrightarrow> user_ok (leaf (mem s) root a)"
proof (cases "user_ok (leaf (mem s) root a)")
  case True
  note D = uvm_okD [OF ok]
  have a38: "a < MAXVA" using a(2) D(2) by simp
  have "page_ok s (upage (mem s) root a)" using D(3) a(2) user_valid [OF True] by blast
  then have nz: "upage (mem s) root a \<noteq> 0"
    using page_ok_nonzero [of s] pt_ok_kmem [OF D(1)] by (simp add: kmem_ok_def)
  have "walkaddr root a s = Ok (upage (mem s) root a, s)"
    using walkaddr_leaf [OF D(1) a38] True by (simp add: Let_def user_ok_def pte_valid_def upage_def)
  then have "user_page root a s = Ok (upage (mem s) root a, s)" using nz by (simp add: user_page_def)
  then show thesis using page [of s ps] nz ok A True by simp
next
  case no: False
  note D = uvm_okD [OF ok]
  have a38: "a < MAXVA" using a(2) D(2) by simp
  have "walkaddr root a s = Ok (0, s)"
    using walkaddr_leaf [OF D(1) a38] no by (simp add: Let_def user_ok_def pte_valid_def)
  then have eq: "user_page root a s = vmfault root a False s" by (simp add: user_page_def)
  show thesis
    using ok root sz A
  proof (cases rule: vmfault_user [of s root ps lim A a False])
    case refused
    then show thesis using none [of s ps] eq ok A no by simp
  next
    case (nomem s' ps')
    then show thesis using none [of s' ps'] eq no by (simp add: ubyte_def)
  next
    case (mapped pg s' ps')
    have lf: "leaf (mem s') root a = PA2PTE pg OR (PTE_W OR PTE_U OR PTE_R) OR PTE_V"
      using mapped(7) a(2) by (simp add: same_page_def)
    have up: "upage (mem s') root a = pg"
      using user_pte_fields(2) [OF mapped(6) user_perm] by (simp add: upage_def lf)
    have wr: "write_ok (leaf (mem s') root a)" unfolding lf by (rule fault_pte_ok)
    have inv: "\<not> pte_valid (leaf (mem s) root v)" if "v < lim" "same_page v a" for v
      using leaf_same_page [of v a] that a38 a D(2) mapped(5) by (simp add: PGROUNDDOWN_id)
    have ub: "\<forall>v < lim. ubyte (mem s') root v = ubyte (mem s) root v"
      using mapped(8) inv by (simp add: ubyte_def uspace_None)
    have keep: "\<forall>v < lim. pte_valid (leaf (mem s) root v) \<longrightarrow> leaf (mem s') root v = leaf (mem s) root v"
      using mapped(7) inv by auto
    have "\<not> pte_valid (leaf (mem s) root a)" using inv [OF a(2)] by (simp add: same_page_def)
    then show thesis
      using page [of s' ps'] eq mapped(1-3,9,10) up wr ub keep write_user_ok user_valid by simp
  qed
qed

lemma in_subregion:
  assumes "in_region (p + off) n x" "unat off + n \<le> 4096"
  shows "in_page p x"
proof -
  from assms(1) obtain k where k: "k < n" "x = p + off + of_nat k" by (rule in_regionE)
  have "unat (off + of_nat k) = unat off + k" using k(1) assms(2) by (intro unat_add_of_nat) simp
  moreover have "x - p = off + of_nat k" using k(2) by simp
  ultimately show ?thesis using k(1) assms(2) by (simp add: in_region_def)
qed

lemma user_write:
  assumes ok: "uvm_ok s root ps lim" and a: "a = PGROUNDDOWN dstva" "a < lim" and v: "pte_valid (leaf (mem s) root a)"
    and n: "unat (dstva - a) + length bs \<le> 4096"
    and s': "s' = s\<lparr>mem := store_bytes (mem s) (upage (mem s) root a + (dstva - a)) bs\<rparr>"
    and A: "pages_of s root ps lim \<subseteq> A"
  shows "uvm_ok s' root ps lim" "\<forall>va. leaf (mem s') root va = leaf (mem s) root va"
    "\<forall>va < lim. ubyte (mem s') root va =
       (if unat dstva \<le> unat va \<and> unat va < unat dstva + length bs then bs ! (unat va - unat dstva) else ubyte (mem s) root va)"
    "frame_on A s s'" "pages_of s' root ps lim \<subseteq> A"
proof -
  let ?p = "upage (mem s) root a"
  note D = uvm_okD [OF ok]
  have al: "pg_aligned a" using a(1) by simp
  have fr: "mem s' x = mem s x" if "\<not> in_page ?p x" for x
    using that in_subregion [OF _ n] unfolding s' by (simp, intro store_bytes_other) blast
  have p: "page_ok s ?p" "?p \<notin> set ps" "?p \<notin> tables (mem s) root" using D(3-5) a(2) v by auto
  have tal: "pg_aligned q" if "q \<in> tables (mem s) root" for q using D(1) that by (auto simp: pt_ok_def page_ok_def)
  have tfr: "mem s' x = mem s x" if "q \<in> tables (mem s) root" "in_page q x" for q x
    using that p(3) tal pages_disjoint [of q ?p x] by (intro fr) auto
  have tb: "tables (mem s') root = tables (mem s) root" and inj: "pt_inj (mem s') root"
    and lf: "\<And>va. leaf (mem s') root va = leaf (mem s) root va"
    using tables_frame [OF D(1), of "mem s'"] tfr by blast+
  have up: "upage (mem s') root va = upage (mem s) root va" for va by (simp add: upage_def lf)
  have po: "page_ok s' q = page_ok s q" for q by (simp add: page_ok_def s')
  have "kmem_ok s' ps"
  proof (rule kmem_ok_frame [OF pt_ok_kmem [OF D(1)]])
    fix x q assume q: "q \<in> set ps" "in_page q x"
    have "pg_aligned q" using q(1) D(1) by (auto simp: pt_ok_def kmem_ok_def page_ok_def)
    then have "\<not> in_page ?p x" using p(2) q by (intro pages_disjoint [of q]) auto
    then show "mem s' x = mem s x" by (rule fr)
  qed (simp_all add: s')
  then have "pt_ok s' root ps" using D(1) inj by (simp add: pt_ok_def tb po)
  then show "uvm_ok s' root ps lim" using ok unfolding uvm_ok_def lf up po tb by blast
  show "\<forall>va. leaf (mem s') root va = leaf (mem s) root va" using lf by blast
  show "pages_of s' root ps lim \<subseteq> A" using A by (simp add: pages_of_def tb lf up)
  have "?p \<in> A" using A a(2) v by (auto simp: pages_of_def)
  then show "frame_on A s s'" using fr by (auto simp: frame_on_def s')
  have off: "unat (dstva - a) = unat dstva - unat a" "unat a \<le> unat dstva"
    using PGROUNDDOWN_le [of dstva] a(1) by (auto simp: unat_sub word_le_nat_alt)
  show "\<forall>va < lim. ubyte (mem s') root va =
       (if unat dstva \<le> unat va \<and> unat va < unat dstva + length bs then bs ! (unat va - unat dstva) else ubyte (mem s) root va)"
  proof (intro allI impI)
    fix va assume va: "va < lim"
    have lm: "va < MAXVA" "a < MAXVA" using va a(2) D(2) by simp_all
    show "ubyte (mem s') root va = (if unat dstva \<le> unat va \<and> unat va < unat dstva + length bs
        then bs ! (unat va - unat dstva) else ubyte (mem s) root va)"
    proof (cases "same_page va a")
      case True
      have l: "leaf (mem s) root va = leaf (mem s) root a" by (rule leaf_same_page [OF lm True])
      have dn: "PGROUNDDOWN va = a" using True al by (simp add: same_page_down)
      have rng: "unat a \<le> unat va" "unat va < unat a + 4096" using True al by (auto simp: same_page_aligned)
      have upv: "upage (mem s) root va = ?p" by (simp add: upage_def l)
      have b: "ubyte (mem s') root va = mem s' (?p + (va - a))" "ubyte (mem s) root va = mem s (?p + (va - a))"
        using v by (simp_all add: ubyte_def uspace_def lf l up upv dn)
      have "(?p + (va - a)) - (?p + (dstva - a)) = va - dstva" by simp
      then have st: "mem s' (?p + (va - a)) = (if unat (va - dstva) < length bs then bs ! unat (va - dstva) else mem s (?p + (va - a)))"
        by (simp add: s' store_bytes_def)
      moreover have "unat (va - dstva) < length bs \<longleftrightarrow> unat dstva \<le> unat va \<and> unat va < unat dstva + length bs"
        using rng off n unat64_less [of va] unat64_less [of dstva] by (auto simp: unat_sub_if')
      moreover have "unat (va - dstva) = unat va - unat dstva" if "unat dstva \<le> unat va"
        using that by (simp add: unat_sub word_le_nat_alt)
      ultimately show ?thesis unfolding b by simp
    next
      case False
      have out: "\<not> (unat dstva \<le> unat va \<and> unat va < unat dstva + length bs)"
        using False off n by (auto simp: same_page_aligned [OF al])
      have "uspace (mem s') root va = uspace (mem s) root va"
      proof (rule uspace_cong)
        show "leaf (mem s') root va = leaf (mem s) root va" by (rule lf)
        fix x assume w: "pte_valid (leaf (mem s) root va)" "in_page (upage (mem s) root va) x"
        have "upage (mem s) root va \<noteq> ?p" using D(6) [OF va a(2) w(1) v] False by auto
        then show "mem s' x = mem s x" using w(2) by (intro fr pages_disjoint [of "upage (mem s) root va"]) auto
      qed
      then show ?thesis unfolding if_not_P [OF out] by (simp add: ubyte_def)
    qed
  qed
qed

lemma frame_on_vm:
  fixes s s' :: "'a vm_scheme"
  shows "frame_on A s s' \<Longrightarrow> p_sz s' = p_sz s" "frame_on A s s' \<Longrightarrow> p_pagetable s' = p_pagetable s"
  using more_vm [of s s'] by (auto simp: frame_on_def)

text \<open>Where the next chunk of a copy starts, when there is one.\<close>

lemma next_chunk:
  assumes "page_chunk va len < len" "unat va + len \<le> unat lim" "lim \<le> MAXVA"
  shows "unat (PGROUNDDOWN va + PGSIZE) = unat va + page_chunk va len"
    and "unat (PGROUNDDOWN va + PGSIZE) + (len - page_chunk va len) \<le> unat lim"
proof -
  have c: "page_chunk va len = 4096 - unat va mod 4096" using assms(1) by (simp add: page_chunk_def page_offset)
  have v: "unat va < 2 ^ 38" using assms by (simp add: word_le_nat_alt)
  have "unat (PGROUNDDOWN va + PGSIZE) = 4096 * (unat va div 4096) + 4096"
    using v by (subst unat_add_small) (simp_all add: unat_PGROUNDDOWN)
  also have "\<dots> = unat va + page_chunk va len"
    unfolding c using mult_div_mod_eq [of 4096 "unat va"] mod_less_divisor [of 4096 "unat va"] by linarith
  finally show e: "unat (PGROUNDDOWN va + PGSIZE) = unat va + page_chunk va len" .
  show "unat (PGROUNDDOWN va + PGSIZE) + (len - page_chunk va len) \<le> unat lim"
    unfolding e using assms(1,2) by simp
qed

lemma chunk_in_page: "unat (va - PGROUNDDOWN va) + page_chunk va len \<le> 4096"
  using mod_less_divisor [of 4096 "unat va"] by (simp add: page_chunk_def page_offset min_def) linarith

lemma same_chunk_page:
  assumes "unat va \<le> unat w" "unat w < unat va + page_chunk va len"
  shows "same_page w (PGROUNDDOWN va)"
proof -
  have "unat (va - PGROUNDDOWN va) = unat va - unat (PGROUNDDOWN va)" "unat (PGROUNDDOWN va) \<le> unat va"
    using PGROUNDDOWN_le [of va] by (auto simp: unat_sub word_le_nat_alt)
  then show ?thesis
    using assms chunk_in_page [of va len] by (auto simp: same_page_aligned)
qed

subsection \<open>copyout\<close>

text \<open>What a copy of \<open>n\<close> of the bytes \<open>src\<close> to \<open>dstva\<close> has done to the visible memory.\<close>

definition written :: "addr \<Rightarrow> u64 \<Rightarrow> u64 \<Rightarrow> u8 list \<Rightarrow> nat \<Rightarrow> memory \<Rightarrow> memory \<Rightarrow> bool" where
  "written root lim dstva src n m m' \<longleftrightarrow>
     (\<forall>va < lim. ubyte m' root va =
        (if unat dstva \<le> unat va \<and> unat va < unat dstva + n then src ! (unat va - unat dstva) else ubyte m root va))"

definition copyout_post ::
  "addr \<Rightarrow> u64 \<Rightarrow> u64 \<Rightarrow> u8 list \<Rightarrow> 'a vm_scheme \<Rightarrow> int \<Rightarrow> 'a vm_scheme \<Rightarrow> nat \<Rightarrow> bool" where
  "copyout_post root lim dstva src s r s' n \<longleftrightarrow>
     (r = 0 \<and> n = length src \<or> r = - 1 \<and> n < length src) \<and> written root lim dstva src n (mem s) (mem s') \<and>
     (\<forall>va < lim. unat dstva \<le> unat va \<and> unat va < unat dstva + n \<longrightarrow> write_ok (leaf (mem s') root va)) \<and>
     (\<forall>va < lim. user_ok (leaf (mem s) root va) \<longrightarrow> leaf (mem s') root va = leaf (mem s) root va) \<and>
     ((\<forall>va < lim. unat dstva \<le> unat va \<and> unat va < unat dstva + length src \<longrightarrow> write_ok (leaf (mem s) root va)) \<longrightarrow> r = 0)"

lemma copyout_post_fail:
  assumes "src \<noteq> []" "dstva < lim" "\<forall>v < lim. ubyte (mem s') root v = ubyte (mem s) root v"
    and "\<forall>v < lim. user_ok (leaf (mem s) root v) \<longrightarrow> leaf (mem s') root v = leaf (mem s) root v"
    and "\<not> write_ok (leaf (mem s) root dstva)"
  shows "copyout_post root lim dstva src s (- 1) s' 0"
  using assms by (auto simp: copyout_post_def written_def intro!: exI [of _ dstva])

text \<open>One chunk written into \<open>s2\<close>, the rest by a copy that continues from there.\<close>

lemma copyout_post_step:
  assumes n0: "n0 \<le> length src" "0 < n0"
    and step: "\<forall>v < lim. ubyte (mem s2) root v =
        (if unat dstva \<le> unat v \<and> unat v < unat dstva + n0 then src ! (unat v - unat dstva) else ubyte (mem s) root v)"
    and keep: "\<forall>v < lim. user_ok (leaf (mem s) root v) \<longrightarrow> leaf (mem s2) root v = leaf (mem s) root v"
    and wr: "\<forall>v < lim. unat dstva \<le> unat v \<and> unat v < unat dstva + n0 \<longrightarrow> write_ok (leaf (mem s2) root v)"
    and rest: "copyout_post root lim dst2 (drop n0 src) s2 r s' n"
    and dst2: "n0 < length src \<longrightarrow> unat dst2 = unat dstva + n0"
  shows "copyout_post root lim dstva src s r s' (n0 + n)"
proof (cases "n0 = length src")
  case True
  have "\<forall>v < lim. unat dstva \<le> unat v \<and> unat v < unat dstva + n0 \<longrightarrow> user_ok (leaf (mem s2) root v)"
    using wr write_user_ok by blast
  then show ?thesis using assms True by (auto simp: copyout_post_def written_def)
next
  case False
  then have d2: "unat dst2 = unat dstva + n0" using dst2 n0(1) by simp
  note R = rest [unfolded copyout_post_def written_def d2]
  have "written root lim dstva src (n0 + n) (mem s) (mem s')"
    unfolding written_def
  proof (intro allI impI)
    fix va assume va: "va < lim"
    show "ubyte (mem s') root va = (if unat dstva \<le> unat va \<and> unat va < unat dstva + (n0 + n)
        then src ! (unat va - unat dstva) else ubyte (mem s) root va)"
      using R step va n0 by (auto simp: add.assoc)
  qed
  moreover have "write_ok (leaf (mem s') root va)"
    if "va < lim" "unat dstva \<le> unat va" "unat va < unat dstva + (n0 + n)" for va
    using R wr that write_user_ok by (cases "unat va < unat dstva + n0") (auto simp: add.assoc)
  moreover have "leaf (mem s') root va = leaf (mem s) root va" if "va < lim" "user_ok (leaf (mem s) root va)" for va
    using R keep that by simp
  moreover have "r = 0" if w: "\<forall>va < lim. unat dstva \<le> unat va \<and> unat va < unat dstva + length src \<longrightarrow> write_ok (leaf (mem s) root va)"
    using R keep w n0 write_user_ok by (auto simp: add.assoc)
  ultimately show ?thesis using R n0 by (auto simp: copyout_post_def)
qed

lemma copyout_user:
  fixes s :: "'a vm_scheme"
  assumes "uvm_ok s root ps lim" "p_pagetable s = root" "p_sz s \<le> lim" "unat dstva + length src \<le> unat lim"
    and "pages_of s root ps lim \<subseteq> A"
  shows "\<exists>r s' ps' n. copyout root dstva src s = Ok (r, s') \<and> uvm_ok s' root ps' lim \<and> frame_on A s s' \<and>
    pages_of s' root ps' lim \<subseteq> A \<and> copyout_post root lim dstva src s r s' n"
  using assms
proof (induction src arbitrary: s ps dstva rule: length_induct)
  case (1 src)
  show ?case
  proof (cases "src = []")
    case True
    then show ?thesis using "1.prems"
      by (intro exI [of _ 0] exI [of _ s] exI [of _ ps] exI [of _ 0])
        (auto simp: copyout.simps copyout_post_def written_def)
  next
    case ne: False
    let ?a = "PGROUNDDOWN dstva" and ?n = "page_chunk dstva (length src)"
    note ok = "1.prems"(1)
    have lm: "lim \<le> MAXVA" using uvm_okD(2) [OF ok] .
    have n0: "0 < ?n" "?n \<le> length src" using ne by (auto simp: page_chunk_pos page_chunk_le)
    have d: "dstva < lim" using "1.prems"(4) ne by (cases src) (auto simp: word_less_nat_alt)
    have a: "?a < lim" using PGROUNDDOWN_le [of dstva] d by simp
    have a38: "?a < MAXVA" using a lm by simp
    have nM: "\<not> MAXVA \<le> ?a" using a38 by (simp only: not_le)
    have da: "leaf m root dstva = leaf m root ?a" for m
      using d lm a38 by (intro leaf_same_page) (simp_all add: same_page_def unat_PGROUNDDOWN)
    show ?thesis
      using ok "1.prems"(2,3) PGROUNDDOWN_aligned a "1.prems"(5)
    proof (cases rule: user_page_cases)
      case (none s' ps')
      have run: "copyout root dstva src s = Ok (- 1, s')"
        using ne nM none(1) by (subst copyout.simps) (simp add: Let_def del: MAXVA_val)
      have "\<not> write_ok (leaf (mem s) root dstva)" using none(5) da write_user_ok by auto
      then have "copyout_post root lim dstva src s (- 1) s' 0"
        using copyout_post_fail [OF ne d none(6)] none(7) by simp
      then show ?thesis using run none(2-4) by blast
    next
      case (page s1 ps1)
      obtain q where q: "walk root ?a False s1 = Ok (pte_addr q 0 ?a, s1)" "pte_addr q 0 ?a \<noteq> 0"
          "load64 (mem s1) (pte_addr q 0 ?a) = leaf (mem s1) root ?a"
        using walk_leaf [OF uvm_okD(1) [OF page(3)] a38 user_valid [OF page(6)]] by blast
      show ?thesis
      proof (cases "leaf (mem s1) root ?a AND PTE_W = 0")
        case True
        have run: "copyout root dstva src s = Ok (- 1, s1)"
          using ne nM page(1,2) q True by (subst copyout.simps) (simp add: Let_def del: MAXVA_val)
        have "\<not> write_ok (leaf (mem s) root dstva)"
          using True page(8) a da write_user_ok by (auto simp: write_ok_def)
        then have "copyout_post root lim dstva src s (- 1) s1 0"
          using copyout_post_fail [OF ne d page(7,8)] by simp
        then show ?thesis using run page(3-5) by blast
      next
        case W: False
        define s2 where "s2 = s1\<lparr>mem := store_bytes (mem s1) (upage (mem s1) root ?a + (dstva - ?a)) (take ?n src)\<rparr>"
        have len: "length (take ?n src) = ?n" using n0 by simp
        have sz: "unat (dstva - ?a) + length (take ?n src) \<le> 4096" unfolding len by (rule chunk_in_page)
        note uw = user_write [OF page(3) refl a user_valid [OF page(6)] sz s2_def page(5)]
        have run: "copyout root dstva src s = copyout root (?a + PGSIZE) (drop ?n src) s2"
          using ne nM page(1,2) q W by (subst copyout.simps) (simp add: Let_def s2_def del: MAXVA_val PGSIZE_def)
        have f2: "frame_on A s s2" using frame_on_trans [OF page(4) uw(4)] .
        have "\<exists>r s' ps' n. copyout root (?a + PGSIZE) (drop ?n src) s2 = Ok (r, s') \<and> uvm_ok s' root ps' lim \<and>
            frame_on A s2 s' \<and> pages_of s' root ps' lim \<subseteq> A \<and> copyout_post root lim (?a + PGSIZE) (drop ?n src) s2 r s' n"
        proof (cases "?n < length src")
          case True
          show ?thesis
            using "1.IH" [rule_format, OF _ uw(1), of "drop ?n src" "?a + PGSIZE"] True n0
              next_chunk(2) [OF True "1.prems"(4) lm] frame_on_vm [OF f2] "1.prems"(2,3) uw(5) by simp
        next
          case False
          then show ?thesis using uw(1,5) n0
            by (intro exI [of _ 0] exI [of _ s2] exI [of _ ps1] exI [of _ 0])
              (auto simp: copyout.simps copyout_post_def written_def)
        qed
        then obtain r s' ps' n where s': "copyout root (?a + PGSIZE) (drop ?n src) s2 = Ok (r, s')" "uvm_ok s' root ps' lim"
          "frame_on A s2 s'" "pages_of s' root ps' lim \<subseteq> A" "copyout_post root lim (?a + PGSIZE) (drop ?n src) s2 r s' n" by blast
        have w: "\<forall>v < lim. unat dstva \<le> unat v \<and> unat v < unat dstva + ?n \<longrightarrow> write_ok (leaf (mem s2) root v)"
          using uw(2) page(6) W leaf_same_page [OF _ a38 same_chunk_page] lm by (auto simp: write_ok_def)
        have "copyout_post root lim dstva src s r s' (?n + n)"
        proof (rule copyout_post_step [OF n0(2,1) _ _ w s'(5)])
          show "\<forall>v < lim. ubyte (mem s2) root v =
              (if unat dstva \<le> unat v \<and> unat v < unat dstva + ?n then src ! (unat v - unat dstva) else ubyte (mem s) root v)"
            using uw(3) page(7) unfolding len by auto
          show "\<forall>v < lim. user_ok (leaf (mem s) root v) \<longrightarrow> leaf (mem s2) root v = leaf (mem s) root v"
            using uw(2) page(8) by simp
          show "?n < length src \<longrightarrow> unat (?a + PGSIZE) = unat dstva + ?n"
            using next_chunk(1) [OF _ "1.prems"(4) lm] by blast
        qed
        moreover have "frame_on A s s'" using frame_on_trans [OF f2 s'(3)] .
        ultimately show ?thesis using run s'(1,2,4) by auto
      qed
    qed
  qed
qed

subsection \<open>copyin\<close>

definition ubytes :: "memory \<Rightarrow> addr \<Rightarrow> u64 \<Rightarrow> nat \<Rightarrow> u8 list" where
  "ubytes m root va n = map (\<lambda>i. ubyte m root (va + of_nat i)) [0..<n]"

lemma length_ubytes [simp]: "length (ubytes m root va n) = n"
  by (simp add: ubytes_def)

lemma ubytes_append: "ubytes m root va (n + k) = ubytes m root va n @ ubytes m root (va + of_nat n) k"
  by (rule nth_equalityI) (auto simp: ubytes_def nth_append algebra_simps)

lemma ubytes_cong:
  assumes "\<forall>v < lim. ubyte m' root v = ubyte m root v" "unat va + n \<le> unat lim"
  shows "ubytes m' root va n = ubytes m root va n"
proof -
  have "va + of_nat i < lim" if "i < n" for i
    using that assms(2) unat64_less [of lim] by (subst word_less_nat_alt, subst unat_add_of_nat) auto
  then show ?thesis using assms(1) by (simp add: ubytes_def)
qed

definition copyin_post ::
  "addr \<Rightarrow> u64 \<Rightarrow> u64 \<Rightarrow> nat \<Rightarrow> 'a vm_scheme \<Rightarrow> int \<Rightarrow> u8 list \<Rightarrow> 'a vm_scheme \<Rightarrow> bool" where
  "copyin_post root lim srcva len s r bs s' \<longleftrightarrow>
     (r = 0 \<and> length bs = len \<or> r = - 1 \<and> length bs < len) \<and>
     bs = ubytes (mem s) root srcva (length bs) \<and>
     (\<forall>va < lim. ubyte (mem s') root va = ubyte (mem s) root va) \<and>
     ((\<forall>va < lim. unat srcva \<le> unat va \<and> unat va < unat srcva + len \<longrightarrow> user_ok (leaf (mem s) root va)) \<longrightarrow> r = 0) \<and>
     (\<forall>va < lim. user_ok (leaf (mem s) root va) \<longrightarrow> leaf (mem s') root va = leaf (mem s) root va) \<and>
     (r = 0 \<longrightarrow> (\<forall>va < lim. unat srcva \<le> unat va \<and> unat va < unat srcva + len \<longrightarrow> pte_valid (leaf (mem s) root va) \<longrightarrow> user_ok (leaf (mem s) root va)))"

lemma chunk_bytes:
  assumes ok: "uvm_ok s root ps lim" and a: "a = PGROUNDDOWN srcva" "a < lim" and v: "pte_valid (leaf (mem s) root a)"
    and n: "unat (srcva - a) + n \<le> 4096" "unat srcva + n \<le> unat lim"
  shows "load_bytes (mem s) (upage (mem s) root a + (srcva - a)) n = ubytes (mem s) root srcva n"
proof (rule nth_equalityI)
  fix i assume "i < length (load_bytes (mem s) (upage (mem s) root a + (srcva - a)) n)"
  then have i: "i < n" by simp
  let ?v = "srcva + of_nat i"
  have uv: "unat ?v = unat srcva + i" using i n(2) unat64_less [of lim] by (intro unat_add_of_nat) simp
  have lm: "lim \<le> MAXVA" using uvm_okD(2) [OF ok] .
  have vl: "?v < lim" using uv i n(2) by (simp add: word_less_nat_alt)
  have al: "pg_aligned a" using a(1) by simp
  have "unat (srcva - a) = unat srcva - unat a" "unat a \<le> unat srcva"
    using PGROUNDDOWN_le [of srcva] a(1) by (auto simp: unat_sub word_le_nat_alt)
  then have sp: "same_page ?v a" using uv i n(1) by (auto simp: same_page_aligned [OF al])
  have l: "leaf (mem s) root ?v = leaf (mem s) root a" using leaf_same_page [OF _ _ sp] vl a(2) lm by simp
  have "PGROUNDDOWN ?v = a" using sp al by (simp add: same_page_down)
  then have "ubyte (mem s) root ?v = mem s (upage (mem s) root a + (?v - a))"
    using v by (simp add: ubyte_def uspace_def l upage_def)
  moreover have "upage (mem s) root a + (srcva - a) + of_nat i = upage (mem s) root a + (?v - a)"
    by (simp add: algebra_simps)
  moreover have "load_bytes (mem s) (upage (mem s) root a + (srcva - a)) n ! i =
      mem s (upage (mem s) root a + (srcva - a) + of_nat i)"
    "ubytes (mem s) root srcva n ! i = ubyte (mem s) root ?v" using i by (simp_all add: load_bytes_def ubytes_def)
  ultimately show "load_bytes (mem s) (upage (mem s) root a + (srcva - a)) n ! i = ubytes (mem s) root srcva n ! i"
    by (simp only:)
qed simp

lemma copyin_user:
  fixes s :: "'a vm_scheme"
  assumes "uvm_ok s root ps lim" "p_pagetable s = root" "p_sz s \<le> lim" "unat srcva + len \<le> unat lim"
    and "pages_of s root ps lim \<subseteq> A"
  shows "\<exists>r bs s' ps'. copyin root srcva len s = Ok ((r, bs), s') \<and> uvm_ok s' root ps' lim \<and> frame_on A s s' \<and>
    pages_of s' root ps' lim \<subseteq> A \<and> copyin_post root lim srcva len s r bs s'"
  using assms
proof (induction len arbitrary: s ps srcva rule: less_induct)
  case (less len)
  show ?case
  proof (cases "len = 0")
    case True
    then show ?thesis using less.prems
      by (intro exI [of _ 0] exI [of _ "[] :: u8 list"] exI [of _ s] exI [of _ ps])
        (auto simp: copyin.simps copyin_post_def ubytes_def)
  next
    case ne: False
    let ?a = "PGROUNDDOWN srcva" and ?n = "page_chunk srcva len"
    note ok = less.prems(1)
    have lm: "lim \<le> MAXVA" using uvm_okD(2) [OF ok] .
    have n0: "0 < ?n" "?n \<le> len" using ne by (auto simp: page_chunk_pos page_chunk_le)
    have d: "srcva < lim" using less.prems(4) ne by (simp add: word_less_nat_alt)
    have a: "?a < lim" using PGROUNDDOWN_le [of srcva] d by simp
    have a38: "?a < MAXVA" using a lm by simp
    have da: "leaf m root srcva = leaf m root ?a" for m
      using d lm a38 by (intro leaf_same_page) (simp_all add: same_page_def unat_PGROUNDDOWN)
    show ?thesis
      using ok less.prems(2,3) PGROUNDDOWN_aligned a less.prems(5)
    proof (cases rule: user_page_cases)
      case (none s' ps')
      have run: "copyin root srcva len s = Ok ((- 1, []), s')"
        using ne none(1) by (subst copyin.simps) (simp add: Let_def)
      have "\<not> user_ok (leaf (mem s) root srcva)" using none(5) da by simp
      then have "copyin_post root lim srcva len s (- 1) [] s'"
        using none(6,7) ne d by (auto simp: copyin_post_def ubytes_def intro!: exI [of _ srcva])
      then show ?thesis using run none(2-4) by blast
    next
      case (page s1 ps1)
      have c: "load_bytes (mem s1) (upage (mem s1) root ?a + (srcva - ?a)) ?n = ubytes (mem s) root srcva ?n"
        using chunk_bytes [OF page(3) refl a user_valid [OF page(6)] chunk_in_page] less.prems(4) n0(2)
          ubytes_cong [OF page(7), of srcva ?n] by simp
      have "\<exists>r bs s' ps'. copyin root (?a + PGSIZE) (len - ?n) s1 = Ok ((r, bs), s') \<and> uvm_ok s' root ps' lim \<and>
          frame_on A s1 s' \<and> pages_of s' root ps' lim \<subseteq> A \<and> copyin_post root lim (?a + PGSIZE) (len - ?n) s1 r bs s'"
      proof (cases "?n < len")
        case True
        show ?thesis
          using less.IH [OF _ page(3), of "len - ?n" "?a + PGSIZE"] n0 True next_chunk(2) [OF True less.prems(4) lm]
            frame_on_vm [OF page(4)] less.prems(2,3) page(5) by simp
      next
        case False
        then show ?thesis using page(3,5) n0
          by (intro exI [of _ 0] exI [of _ "[] :: u8 list"] exI [of _ s1] exI [of _ ps1])
            (auto simp: copyin.simps copyin_post_def ubytes_def)
      qed
      then obtain r bs s' ps' where s': "copyin root (?a + PGSIZE) (len - ?n) s1 = Ok ((r, bs), s')" "uvm_ok s' root ps' lim"
        "frame_on A s1 s'" "pages_of s' root ps' lim \<subseteq> A" "copyin_post root lim (?a + PGSIZE) (len - ?n) s1 r bs s'" by blast
      have run: "copyin root srcva len s = Ok ((r, ubytes (mem s) root srcva ?n @ bs), s')"
        using ne page(1,2) s'(1) c by (subst copyin.simps) (simp add: Let_def del: PGSIZE_def)
      note R = s'(5) [unfolded copyin_post_def]
      have all: "ubytes (mem s) root srcva ?n @ bs = ubytes (mem s) root srcva (?n + length bs)"
      proof (cases "?n < len")
        case True
        note nc = next_chunk [OF True less.prems(4) lm]
        have "?a + PGSIZE = srcva + of_nat ?n"
          using nc(1) less.prems(4) n0(2) unat64_less [of lim] by (intro word_eq_unatI) (simp add: unat_add_of_nat del: PGSIZE_def)
        moreover have "ubytes (mem s1) root (?a + PGSIZE) (length bs) = ubytes (mem s) root (?a + PGSIZE) (length bs)"
          using nc R by (intro ubytes_cong [OF page(7)]) auto
        ultimately show ?thesis using R by (simp add: ubytes_append del: PGSIZE_def)
      next
        case False
        then have "bs = []" using R n0 by auto
        then show ?thesis by simp
      qed
      have succ: "r = 0" if w: "\<forall>va < lim. unat srcva \<le> unat va \<and> unat va < unat srcva + len \<longrightarrow> user_ok (leaf (mem s) root va)"
      proof (cases "?n < len")
        case True
        have "user_ok (leaf (mem s1) root va)"
          if "va < lim" "unat (?a + PGSIZE) \<le> unat va" "unat va < unat (?a + PGSIZE) + (len - ?n)" for va
          using that w page(8) next_chunk(1) [OF True less.prems(4) lm] True by simp
        then show ?thesis using R by blast
      next
        case False
        then show ?thesis using R n0 by auto
      qed
      have "leaf (mem s') root va = leaf (mem s) root va" if "va < lim" "user_ok (leaf (mem s) root va)" for va
        using that page(8) R by simp
      moreover have "user_ok (leaf (mem s) root va)"
        if va: "va < lim" "unat srcva \<le> unat va" "unat va < unat srcva + len" "pte_valid (leaf (mem s) root va)" and r: "r = 0" for va
      proof (cases "unat va < unat srcva + ?n")
        case True
        then have "leaf (mem s) root va = leaf (mem s) root ?a" using leaf_same_page [OF _ a38 same_chunk_page] va(1,2) lm by simp
        then show ?thesis using page(11) va(4) by simp
      next
        case False
        then have "?n < len" using va(3) by simp
        then have "unat (?a + PGSIZE) \<le> unat va" "unat va < unat (?a + PGSIZE) + (len - ?n)"
          using next_chunk(1) [OF _ less.prems(4) lm] False va(3) by simp_all
        then show ?thesis using R r va(1,4) page(10) by metis
      qed
      ultimately have "copyin_post root lim srcva len s r (ubytes (mem s) root srcva ?n @ bs) s'"
        using R n0 page(7) all succ by (auto simp: copyin_post_def)
      moreover have "frame_on A s s'" using frame_on_trans [OF page(4) s'(3)] .
      ultimately show ?thesis using run s'(2,4) by blast
    qed
  qed
qed

subsection \<open>The contracts of copyout and copyin\<close>

text \<open>
  C6: \<^verbatim>\<open>copyout\<close> writes the bytes it was given to the addresses it was given, and nothing else. For a
  destination inside the user part of the current process it never panics; it returns 0 and
  the visible memory is updated with all of \<open>src\<close>, or -1 and the visible memory is updated with a
  proper prefix of it. It fails only if some destination page is not yet user-writable, every byte it wrote
  is in a user-writable page, and no memory outside the pages of this address space and the free list
  changes.
\<close>

theorem copyout_correct:
  fixes s :: "'a vm_scheme"
  assumes "uvm_ok s root ps lim" "p_pagetable s = root" "p_sz s \<le> lim" "unat dstva + length src \<le> unat lim"
  shows "\<exists>r s' ps' n. copyout root dstva src s = Ok (r, s') \<and> uvm_ok s' root ps' lim \<and>
    (r = 0 \<and> n = length src \<or> r = - 1 \<and> n < length src) \<and>
    (\<forall>va < lim. ubyte (mem s') root va =
       (if unat dstva \<le> unat va \<and> unat va < unat dstva + n then src ! (unat va - unat dstva) else ubyte (mem s) root va)) \<and>
    (\<forall>va < lim. unat dstva \<le> unat va \<and> unat va < unat dstva + n \<longrightarrow> write_ok (leaf (mem s') root va)) \<and>
    ((\<forall>va < lim. unat dstva \<le> unat va \<and> unat va < unat dstva + length src \<longrightarrow> write_ok (leaf (mem s) root va)) \<longrightarrow> r = 0) \<and>
    frame_on (pages_of s root ps lim) s s'"
  using copyout_user [OF assms order_refl] unfolding copyout_post_def written_def by blast

text \<open>
  C20: \<^verbatim>\<open>copyin\<close> reads exactly the visible memory. For a source inside the user part of the current
  process it never panics; it returns 0 with all the bytes, or -1 with a proper prefix, the latter only if some
  page of the range is not accessible to the user; it never returns 0 when a page of the range is mapped but not
  accessible to the user, as the guard page below the stack is; and it does not change the visible memory.
\<close>

theorem copyin_correct:
  fixes s :: "'a vm_scheme"
  assumes "uvm_ok s root ps lim" "p_pagetable s = root" "p_sz s \<le> lim" "unat srcva + len \<le> unat lim"
  shows "\<exists>r bs s' ps'. copyin root srcva len s = Ok ((r, bs), s') \<and> uvm_ok s' root ps' lim \<and>
    (r = 0 \<and> length bs = len \<or> r = - 1 \<and> length bs < len) \<and>
    bs = map (\<lambda>i. ubyte (mem s) root (srcva + of_nat i)) [0..<length bs] \<and>
    (\<forall>va < lim. ubyte (mem s') root va = ubyte (mem s) root va) \<and>
    ((\<forall>va < lim. unat srcva \<le> unat va \<and> unat va < unat srcva + len \<longrightarrow> user_ok (leaf (mem s) root va)) \<longrightarrow> r = 0) \<and>
    (r = 0 \<longrightarrow> (\<forall>va < lim. unat srcva \<le> unat va \<and> unat va < unat srcva + len \<longrightarrow> pte_valid (leaf (mem s) root va) \<longrightarrow> user_ok (leaf (mem s) root va))) \<and>
    frame_on (pages_of s root ps lim) s s'"
  using copyin_user [OF assms order_refl] unfolding copyin_post_def ubytes_def by blast

lemma copyout_copyin:
  fixes s :: "'a vm_scheme"
  assumes ok: "uvm_ok s root ps lim" "p_pagetable s = root" "p_sz s \<le> lim" "unat va + length src \<le> unat lim"
    and run: "copyout root va src s = Ok (0, s1)"
  shows "\<exists>s2. copyin root va (length src) s1 = Ok ((0, src), s2)"
proof -
  obtain ps1 n where p1: "uvm_ok s1 root ps1 lim" "frame_on (pages_of s root ps lim) s s1" "copyout_post root lim va src s 0 s1 n"
    using copyout_user [OF ok order_refl] run by auto
  note P = p1(3) [unfolded copyout_post_def written_def]
  have n: "n = length src" using P by simp
  note f = frame_on_vm [OF p1(2)]
  obtain r bs s2 where c: "copyin root va (length src) s1 = Ok ((r, bs), s2)" "copyin_post root lim va (length src) s1 r bs s2"
    using copyin_user [OF p1(1) _ _ ok(4) order_refl] f ok(2,3) by auto
  have "\<forall>v < lim. unat va \<le> unat v \<and> unat v < unat va + length src \<longrightarrow> user_ok (leaf (mem s1) root v)"
    using P n write_user_ok by blast
  then have r: "r = 0" and len: "length bs = length src" and bs: "bs = ubytes (mem s1) root va (length src)"
    using c(2) by (auto simp: copyin_post_def)
  have "bs = src"
  proof (rule nth_equalityI)
    show "length bs = length src" by (rule len)
    fix i assume i: "i < length bs"
    have u: "unat (va + of_nat i) = unat va + i" using i len ok(4) unat64_less [of lim] by (intro unat_add_of_nat) simp
    then have "va + of_nat i < lim" using i len ok(4) by (simp add: word_less_nat_alt)
    then have "ubyte (mem s1) root (va + of_nat i) = src ! i" using P n u i len by simp
    then show "bs ! i = src ! i" using i len by (simp add: bs ubytes_def)
  qed
  then show ?thesis using c(1) r by blast
qed

text \<open>
  C35: what the kernel copies out, it reads back. After a successful \<^verbatim>\<open>copyout\<close> of \<open>src\<close> to a user address, \<^verbatim>\<open>copyin\<close>
  of that many bytes from that address succeeds and returns \<open>src\<close>.
\<close>

theorem copyout_copyin_roundtrip:
  fixes s :: "'a vm_scheme"
  assumes "uvm_ok s root ps lim" "p_pagetable s = root" "p_sz s \<le> lim" "unat va + length src \<le> unat lim"
    and "copyout root va src s = Ok (0, s1)"
  shows "\<exists>s2. copyin root va (length src) s1 = Ok ((0, src), s2)"
  using assms by (rule copyout_copyin)

text \<open>A concrete process with one writable page at \<open>0x1000\<close>, for the examples.\<close>

definition demo_vm :: vm where
  "demo_vm = \<lparr>mem = mem demo, freelist = freelist demo, end_sym = end_sym demo, p_sz = 0x4000, p_pagetable = 0x80000000\<rparr>"

lemma demo_vm_ok: "uvm_ok demo_vm 0x80000000 [0x80001000, 0x80002000] 0x4000"
  using demo_uvm by (simp add: uvm_ok_def pt_ok_def kmem_ok_def page_ok_def demo_vm_def)

lemma demo_mapped:
  obtains s :: vm and ps where "uvm_ok s 0x80000000 ps 0x4000" "p_pagetable s = 0x80000000" "p_sz s = 0x4000"
    "\<forall>va < 0x4000. unat (0x1000 :: u64) \<le> unat va \<and> unat va < 0x2000 \<longrightarrow> write_ok (leaf (mem s) 0x80000000 va)"
proof -
  have t: "tables (mem demo_vm) 0x80000000 = {0x80000000}"
  proof -
    have z: "mem demo x = 0" if x: "in_page 0x80000000 x" for x
    proof -
      have "\<not> in_page 0x80001000 x"
        using page_unique [of "0x80000000" "0x80001000" x] x by (auto simp: pg_aligned_def)
      then show ?thesis by (simp add: demo_def store64_page_frame)
    qed
    show ?thesis using pt_ok_empty(2) [OF demo_ok(1,2) _ z] by (simp add: demo_vm_def)
  qed
  have lf: "leaf (mem demo_vm) 0x80000000 va = 0" for va using demo_ok(4) by (simp add: demo_vm_def)
  have fresh: "fresh_page demo_vm 0x80000000 0x4000 0x80005000"
    by (simp add: fresh_page_def page_ok_def t lf pte_valid_def) (simp add: demo_vm_def demo_def pg_aligned_def PHYSTOP_val)
  have notin: "(0x80005000 :: u64) \<notin> set [0x80001000, 0x80002000]" by simp
  have al: "pg_aligned (0x1000 :: u64)" "(0x1000 :: u64) < 0x4000" by (simp_all add: pg_aligned_def)
  have inv: "\<not> pte_valid (leaf (mem demo_vm) 0x80000000 0x1000)" by (simp add: lf pte_valid_def)
  show thesis
    using demo_vm_ok fresh notin al inv user_perm order_refl
  proof (cases rule: map_user_page)
    case (mapped s' ps')
    have "\<forall>va < 0x4000. unat (0x1000 :: u64) \<le> unat va \<and> unat va < 0x2000 \<longrightarrow> write_ok (leaf (mem s') 0x80000000 va)"
      using mapped(3) same_page_aligned [OF al(1)] fault_pte_ok by simp
    then show thesis using that mapped(2) frame_on_vm [OF mapped(5)] by (simp add: demo_vm_def)
  qed simp
qed

theorem copyout_correct_witness:
  "\<exists>(s :: vm) s'. copyout 0x80000000 0x1FFE [1, 2] s = Ok (0, s') \<and>
     ubyte (mem s') 0x80000000 0x1FFF = 2"
proof -
  obtain s :: vm and ps where s: "uvm_ok s 0x80000000 ps 0x4000" "p_pagetable s = 0x80000000" "p_sz s = 0x4000"
    "\<forall>va < 0x4000. unat (0x1000 :: u64) \<le> unat va \<and> unat va < 0x2000 \<longrightarrow> write_ok (leaf (mem s) 0x80000000 va)"
    by (rule demo_mapped)
  obtain s' where c: "copyout 0x80000000 0x1FFE [1, 2] s = Ok (0, s')"
      "\<forall>va < 0x4000. ubyte (mem s') 0x80000000 va = (if unat (0x1FFE :: u64) \<le> unat va \<and> unat va < unat (0x1FFE :: u64) + 2
         then [1, 2] ! (unat va - unat (0x1FFE :: u64)) else ubyte (mem s) 0x80000000 va)"
    using copyout_correct [OF s(1,2), of "0x1FFE" "[1, 2]"] s(3,4) by auto
  have "ubyte (mem s') 0x80000000 0x1FFF = 2" using c(2) by simp
  then show ?thesis using c(1) by blast
qed

theorem copyin_correct_witness:
  "\<exists>(s :: vm) bs s'. copyin 0x80000000 0x1FFE 2 s = Ok ((0, bs), s') \<and>
     bs = [ubyte (mem s) 0x80000000 0x1FFE, ubyte (mem s) 0x80000000 0x1FFF]"
proof -
  obtain s :: vm and ps where s: "uvm_ok s 0x80000000 ps 0x4000" "p_pagetable s = 0x80000000" "p_sz s = 0x4000"
    "\<forall>va < 0x4000. unat (0x1000 :: u64) \<le> unat va \<and> unat va < 0x2000 \<longrightarrow> write_ok (leaf (mem s) 0x80000000 va)"
    by (rule demo_mapped)
  have "\<forall>va < 0x4000. unat (0x1FFE :: u64) \<le> unat va \<and> unat va < unat (0x1FFE :: u64) + 2 \<longrightarrow> user_ok (leaf (mem s) 0x80000000 va)"
    using s(4) write_user_ok by simp
  then obtain bs s' where c: "copyin 0x80000000 0x1FFE 2 s = Ok ((0, bs), s')" "length bs = 2"
      "bs = map (\<lambda>i. ubyte (mem s) 0x80000000 (0x1FFE + of_nat i)) [0..<length bs]"
    using copyin_correct [OF s(1,2), of "0x1FFE" 2] s(3) by auto
  have "bs = [ubyte (mem s) 0x80000000 0x1FFE, ubyte (mem s) 0x80000000 0x1FFF]"
    using c(3) unfolding c(2) by (simp add: upt_rec)
  then show ?thesis using c(1) by blast
qed

theorem copyout_copyin_roundtrip_witness:
  "\<exists>(s :: vm) s1 s2. copyout 0x80000000 0x1FFE [1, 2] s = Ok (0, s1) \<and> copyin 0x80000000 0x1FFE 2 s1 = Ok ((0, [1, 2]), s2)"
proof -
  obtain s :: vm and ps where s: "uvm_ok s 0x80000000 ps 0x4000" "p_pagetable s = 0x80000000" "p_sz s = 0x4000"
    "\<forall>va < 0x4000. unat (0x1000 :: u64) \<le> unat va \<and> unat va < 0x2000 \<longrightarrow> write_ok (leaf (mem s) 0x80000000 va)"
    by (rule demo_mapped)
  obtain s1 where run: "copyout 0x80000000 0x1FFE [1, 2] s = Ok (0, s1)"
    using copyout_user [OF s(1,2) _ _ order_refl, of "0x1FFE" "[1, 2]"] s(3,4)
    by (auto simp: copyout_post_def)
  have len: "length [1, 2 :: u8] = 2" by simp
  have "\<exists>s2. copyin 0x80000000 0x1FFE 2 s1 = Ok ((0, [1, 2]), s2)"
    using copyout_copyin_roundtrip [OF s(1,2) _ _ run] s(3) unfolding len by simp
  then show ?thesis using run by blast
qed

end
