(* ===== verification/Sleeplock.thy ===== *)
theory Sleeplock
  imports Riscv
begin

section \<open>kernel/sleeplock.c\<close>

text \<open>
  Sleep locks as the file system and the buffer cache use them. The fields protected by the inner spinlock
  change in one atomic step per critical section. For one process an \<^verbatim>\<open>acquiresleep\<close> that would sleep is
  \<open>Blocked\<close>; the interleaving of several processes, with their \<^verbatim>\<open>sleep\<close> and \<^verbatim>\<open>wakeup\<close> calls, is the step relation
  of the second half.
\<close>

subsection \<open>The operations\<close>

record sleeplock =
  sl_locked :: bool
  sl_pid :: int

definition initsleeplock :: sleeplock where
  "initsleeplock = \<lparr>sl_locked = False, sl_pid = 0\<rparr>"

definition acquiresleep :: "int \<Rightarrow> sleeplock \<Rightarrow> sleeplock kres" where
  "acquiresleep pid l =
     (if sl_locked l then Blocked else Ok (l\<lparr>sl_locked := True, sl_pid := pid\<rparr>))"

definition releasesleep :: "sleeplock \<Rightarrow> sleeplock" where
  "releasesleep l = l\<lparr>sl_locked := False, sl_pid := 0\<rparr>"

definition holdingsleep :: "int \<Rightarrow> sleeplock \<Rightarrow> bool" where
  "holdingsleep pid l \<longleftrightarrow> sl_locked l \<and> sl_pid l = pid"

lemma acquiresleep_Ok:
  "acquiresleep pid l = Ok l' \<longleftrightarrow> \<not> sl_locked l \<and> l' = \<lparr>sl_locked = True, sl_pid = pid\<rparr>"
  by (cases l) (auto simp: acquiresleep_def)

lemma releasesleep_eq [simp]: "releasesleep l = \<lparr>sl_locked = False, sl_pid = 0\<rparr>"
  by (cases l) (simp add: releasesleep_def)

subsection \<open>Several processes\<close>

text \<open>
  A process is outside, about to run the body of \<^verbatim>\<open>acquiresleep\<close> (again), asleep on the lock, or holds it. The
  inner spinlock makes the test of \<^verbatim>\<open>lk->locked\<close> and the transition to sleep one step, and the release
  together with its \<^verbatim>\<open>wakeup\<close> one step: \<open>releasesleep\<close> is the change of the lock, \<open>sl_wakeup\<close> that of the
  processes. A kill wakes a sleeper at any time, and it tests the lock again.
\<close>

datatype sl_pc = Away | Trying | Asleep | Holds

record slproto =
  sl :: sleeplock
  sl_pcs :: "int \<Rightarrow> sl_pc"

definition sl_wakeup :: "(int \<Rightarrow> sl_pc) \<Rightarrow> int \<Rightarrow> sl_pc" where
  "sl_wakeup pcs q = (if pcs q = Asleep then Trying else pcs q)"

inductive sl_step :: "slproto \<Rightarrow> slproto \<Rightarrow> bool" where
  call: "sl_pcs s p = Away \<Longrightarrow> sl_step s (s\<lparr>sl_pcs := (sl_pcs s)(p := Trying)\<rparr>)"
| sleep: "sl_pcs s p = Trying \<Longrightarrow> sl_locked (sl s) \<Longrightarrow> sl_step s (s\<lparr>sl_pcs := (sl_pcs s)(p := Asleep)\<rparr>)"
| take: "sl_pcs s p = Trying \<Longrightarrow> acquiresleep p (sl s) = Ok l \<Longrightarrow>
    sl_step s (s\<lparr>sl := l, sl_pcs := (sl_pcs s)(p := Holds)\<rparr>)"
| release: "sl_pcs s p = Holds \<Longrightarrow>
    sl_step s (s\<lparr>sl := releasesleep (sl s), sl_pcs := (sl_wakeup (sl_pcs s))(p := Away)\<rparr>)"
| kill: "sl_pcs s p = Asleep \<Longrightarrow> sl_step s (s\<lparr>sl_pcs := (sl_pcs s)(p := Trying)\<rparr>)"

definition slproto_init :: slproto where
  "slproto_init = \<lparr>sl = initsleeplock, sl_pcs = (\<lambda>_. Away)\<rparr>"

definition slproto_ok :: "slproto \<Rightarrow> bool" where
  "slproto_ok s \<longleftrightarrow>
     (\<forall>p. sl_pcs s p = Holds \<longrightarrow> holdingsleep p (sl s)) \<and>
     (sl_locked (sl s) \<longrightarrow> sl_pcs s (sl_pid (sl s)) = Holds) \<and>
     (\<forall>p. sl_pcs s p = Asleep \<longrightarrow> sl_locked (sl s))"

lemma slproto_ok_init: "slproto_ok slproto_init"
  by (simp add: slproto_ok_def slproto_init_def initsleeplock_def)

lemma slproto_ok_step:
  assumes ok: "slproto_ok s" and st: "sl_step s s'"
  shows "slproto_ok s'"
  using st
proof cases
  case (call p)
  then show ?thesis using ok by (auto simp: slproto_ok_def)
next
  case (sleep p)
  then show ?thesis using ok by (auto simp: slproto_ok_def)
next
  case (take p l)
  then have "\<not> sl_locked (sl s)" "l = \<lparr>sl_locked = True, sl_pid = p\<rparr>" by (simp_all add: acquiresleep_Ok)
  then show ?thesis using ok take(1) by (auto simp: slproto_ok_def holdingsleep_def)
next
  case (release p)
  have "q = p" if "sl_pcs s q = Holds" for q
    using ok that release(2) by (auto simp: slproto_ok_def holdingsleep_def)
  then show ?thesis using release(1) by (auto simp: slproto_ok_def sl_wakeup_def split: if_splits)
next
  case (kill p)
  then show ?thesis using ok by (auto simp: slproto_ok_def)
qed

lemma slproto_ok_reachable: "sl_step\<^sup>*\<^sup>* slproto_init s \<Longrightarrow> slproto_ok s"
  by (induction rule: rtranclp_induct) (auto simp: slproto_ok_init slproto_ok_step)

text \<open>
  C24: sleep locks exclude each other and lose no wakeup, with kills waking sleepers at any time. In every reachable state at most one process holds
  the lock and \<^verbatim>\<open>holdingsleep\<close> is true exactly for it, and a process is asleep on the lock only while
  the lock is held, so a release always leaves every waiter runnable.
\<close>

theorem sleeplock_exclusion_no_lost_wakeup:
  assumes "sl_step\<^sup>*\<^sup>* slproto_init s"
  shows "(holdingsleep p (sl s) \<longleftrightarrow> sl_pcs s p = Holds) \<and>
    (sl_pcs s p = Holds \<and> sl_pcs s q = Holds \<longrightarrow> p = q) \<and>
    (sl_pcs s p = Asleep \<longrightarrow> (\<exists>q. sl_pcs s q = Holds))"
  using slproto_ok_reachable [OF assms] by (auto simp: slproto_ok_def holdingsleep_def)

theorem sleeplock_exclusion_no_lost_wakeup_witness:
  "\<exists>s. sl_step\<^sup>*\<^sup>* slproto_init s \<and> holdingsleep 3 (sl s) \<and> sl_pcs s 4 = Asleep"
proof -
  define s1 where "s1 = slproto_init\<lparr>sl_pcs := (sl_pcs slproto_init)(3 := Trying)\<rparr>"
  define s2 where "s2 = s1\<lparr>sl := \<lparr>sl_locked = True, sl_pid = 3\<rparr>, sl_pcs := (sl_pcs s1)(3 := Holds)\<rparr>"
  define s3 where "s3 = s2\<lparr>sl_pcs := (sl_pcs s2)(4 := Trying)\<rparr>"
  define s4 where "s4 = s3\<lparr>sl_pcs := (sl_pcs s3)(4 := Asleep)\<rparr>"
  have "sl_step slproto_init s1" unfolding s1_def by (rule sl_step.call) (simp add: slproto_init_def)
  moreover have "sl_step s1 s2" unfolding s2_def
    by (rule sl_step.take) (simp_all add: s1_def slproto_init_def initsleeplock_def acquiresleep_def)
  moreover have "sl_step s2 s3" unfolding s3_def
    by (rule sl_step.call) (simp add: s2_def s1_def slproto_init_def)
  moreover have "sl_step s3 s4" unfolding s4_def
    by (rule sl_step.sleep) (simp_all add: s3_def s2_def)
  ultimately have r: "sl_step\<^sup>*\<^sup>* slproto_init s4"
    by (meson converse_rtranclp_into_rtranclp r_into_rtranclp)
  have "holdingsleep 3 (sl s4)"
    using sleeplock_exclusion_no_lost_wakeup [OF r, of 3] by (simp add: s4_def s3_def s2_def)
  moreover have "sl_pcs s4 4 = Asleep" by (simp add: s4_def)
  ultimately show ?thesis using r by blast
qed

end
