(* ===== verification/Bio.thy ===== *)
theory Bio
  imports Sleeplock
begin

section \<open>kernel/bio.c: the buffer cache\<close>

text \<open>
  The cache is an array of \<^verbatim>\<open>NBUF\<close> buffers and a list head, linked in both directions by \<^verbatim>\<open>prev\<close> and \<^verbatim>\<open>next\<close>.
  The model keeps the links: \<open>bufs s i\<close> is \<^verbatim>\<open>bcache.buf[i]\<close> for \<open>i < NBUF\<close> and \<^verbatim>\<open>bcache.head\<close> for \<open>i = NBUF\<close>,
  and pointers are such indices. The sections under \<^verbatim>\<open>bcache.lock\<close> are atomic; the sleep lock of a buffer is
  explicit. A block is a function from byte offsets to bytes. The disk is an array of blocks; it ignores
  the device number, as \<^verbatim>\<open>virtio_disk_rw\<close> does. \<open>dwrites\<close> records the completed writes in order, so
  that every point at which power could fail is a prefix of it. Searching the list takes fuel \<open>NBUF + 1\<close>; on
  a well-formed list it is never used up.
\<close>

subsection \<open>State and operations\<close>

type_synonym block = "nat \<Rightarrow> u8"

record buf =
  b_valid :: bool
  b_disk :: bool
  b_dev :: nat
  b_blockno :: nat
  b_lock :: sleeplock
  b_refcnt :: u32
  b_prev :: nat
  b_next :: nat
  b_data :: block

record bcache =
  bufs :: "nat \<Rightarrow> buf"
  disk :: "nat \<Rightarrow> block"
  dwrites :: "(nat \<times> block) list"
  cur_pid :: int

definition head :: nat where
  "head = NBUF"

definition upd_buf :: "nat \<Rightarrow> (buf \<Rightarrow> buf) \<Rightarrow> 'a bcache_scheme \<Rightarrow> 'a bcache_scheme" where
  "upd_buf i f s = s\<lparr>bufs := (bufs s)(i := f (bufs s i))\<rparr>"

primrec binit_loop :: "nat \<Rightarrow> 'a bcache_scheme \<Rightarrow> 'a bcache_scheme" where
  "binit_loop 0 s = s"
| "binit_loop (Suc n) s =
     (let b = NBUF - Suc n;
          s1 = upd_buf b (\<lambda>x. x\<lparr>b_next := b_next (bufs s head), b_prev := head, b_lock := initsleeplock\<rparr>) s;
          s2 = upd_buf (b_next (bufs s1 head)) (\<lambda>x. x\<lparr>b_prev := b\<rparr>) s1;
          s3 = upd_buf head (\<lambda>x. x\<lparr>b_next := b\<rparr>) s2
      in binit_loop n s3)"

definition binit :: "'a bcache_scheme \<Rightarrow> 'a bcache_scheme" where
  "binit s = binit_loop NBUF (upd_buf head (\<lambda>x. x\<lparr>b_prev := head, b_next := head\<rparr>) s)"

primrec scan_next :: "nat \<Rightarrow> (buf \<Rightarrow> bool) \<Rightarrow> nat \<Rightarrow> 'a bcache_scheme \<Rightarrow> nat option kres" where
  "scan_next 0 P b s = Blocked"
| "scan_next (Suc fuel) P b s =
     (if b = head then Ok None
      else if P (bufs s b) then Ok (Some b)
      else scan_next fuel P (b_next (bufs s b)) s)"

primrec scan_prev :: "nat \<Rightarrow> (buf \<Rightarrow> bool) \<Rightarrow> nat \<Rightarrow> 'a bcache_scheme \<Rightarrow> nat option kres" where
  "scan_prev 0 P b s = Blocked"
| "scan_prev (Suc fuel) P b s =
     (if b = head then Ok None
      else if P (bufs s b) then Ok (Some b)
      else scan_prev fuel P (b_prev (bufs s b)) s)"

definition lock_buf :: "nat \<Rightarrow> 'a bcache_scheme \<Rightarrow> (nat \<times> 'a bcache_scheme) kres" where
  "lock_buf b s =
     kbind (acquiresleep (cur_pid s) (b_lock (bufs s b))) (\<lambda>l. Ok (b, upd_buf b (\<lambda>x. x\<lparr>b_lock := l\<rparr>) s))"

definition bget :: "nat \<Rightarrow> nat \<Rightarrow> 'a bcache_scheme \<Rightarrow> (nat \<times> 'a bcache_scheme) kres" where
  "bget dev blockno s =
     kbind (scan_next (NBUF + 1) (\<lambda>b. b_dev b = dev \<and> b_blockno b = blockno) (b_next (bufs s head)) s) (\<lambda>r.
       case r of
         Some b \<Rightarrow> lock_buf b (upd_buf b (\<lambda>x. x\<lparr>b_refcnt := b_refcnt x + 1\<rparr>) s)
       | None \<Rightarrow>
           kbind (scan_prev (NBUF + 1) (\<lambda>b. b_refcnt b = 0) (b_prev (bufs s head)) s) (\<lambda>r2.
             case r2 of
               Some b \<Rightarrow> lock_buf b (upd_buf b (\<lambda>x. x\<lparr>b_dev := dev, b_blockno := blockno, b_valid := False, b_refcnt := 1\<rparr>) s)
             | None \<Rightarrow> Panic ''bget: no buffers''))"

text \<open>A completed transfer between a buffer and the disk; the driver is modelled in its own theory.\<close>

definition virtio_disk_rw :: "nat \<Rightarrow> bool \<Rightarrow> 'a bcache_scheme \<Rightarrow> 'a bcache_scheme" where
  "virtio_disk_rw b wr s =
     (let bno = b_blockno (bufs s b) in
      if wr then s\<lparr>disk := (disk s)(bno := b_data (bufs s b)), dwrites := dwrites s @ [(bno, b_data (bufs s b))]\<rparr>
      else upd_buf b (\<lambda>x. x\<lparr>b_data := disk s bno\<rparr>) s)"

definition bread :: "nat \<Rightarrow> nat \<Rightarrow> 'a bcache_scheme \<Rightarrow> (nat \<times> 'a bcache_scheme) kres" where
  "bread dev blockno s =
     kbind (bget dev blockno s) (\<lambda>(b, s1).
       if \<not> b_valid (bufs s1 b)
       then Ok (b, upd_buf b (\<lambda>x. x\<lparr>b_valid := True\<rparr>) (virtio_disk_rw b False s1))
       else Ok (b, s1))"

definition bwrite :: "nat \<Rightarrow> 'a bcache_scheme \<Rightarrow> (unit \<times> 'a bcache_scheme) kres" where
  "bwrite b s =
     (if \<not> holdingsleep (cur_pid s) (b_lock (bufs s b)) then Panic ''bwrite''
      else Ok ((), virtio_disk_rw b True s))"

definition unlink_buf :: "nat \<Rightarrow> 'a bcache_scheme \<Rightarrow> 'a bcache_scheme" where
  "unlink_buf b s =
     (let s1 = upd_buf (b_next (bufs s b)) (\<lambda>x. x\<lparr>b_prev := b_prev (bufs s b)\<rparr>) s
      in upd_buf (b_prev (bufs s1 b)) (\<lambda>x. x\<lparr>b_next := b_next (bufs s1 b)\<rparr>) s1)"

definition push_front :: "nat \<Rightarrow> 'a bcache_scheme \<Rightarrow> 'a bcache_scheme" where
  "push_front b s =
     (let s1 = upd_buf b (\<lambda>x. x\<lparr>b_next := b_next (bufs s head)\<rparr>) s;
          s2 = upd_buf b (\<lambda>x. x\<lparr>b_prev := head\<rparr>) s1;
          s3 = upd_buf (b_next (bufs s2 head)) (\<lambda>x. x\<lparr>b_prev := b\<rparr>) s2
      in upd_buf head (\<lambda>x. x\<lparr>b_next := b\<rparr>) s3)"

definition brelse :: "nat \<Rightarrow> 'a bcache_scheme \<Rightarrow> (unit \<times> 'a bcache_scheme) kres" where
  "brelse b s =
     (if \<not> holdingsleep (cur_pid s) (b_lock (bufs s b)) then Panic ''brelse''
      else let s1 = upd_buf b (\<lambda>x. x\<lparr>b_lock := releasesleep (b_lock x)\<rparr>) s;
               s2 = upd_buf b (\<lambda>x. x\<lparr>b_refcnt := b_refcnt x - 1\<rparr>) s1
        in if b_refcnt (bufs s2 b) = 0 then Ok ((), push_front b (unlink_buf b s2)) else Ok ((), s2))"

definition bpin :: "nat \<Rightarrow> 'a bcache_scheme \<Rightarrow> 'a bcache_scheme" where
  "bpin b s = upd_buf b (\<lambda>x. x\<lparr>b_refcnt := b_refcnt x + 1\<rparr>) s"

definition bunpin :: "nat \<Rightarrow> 'a bcache_scheme \<Rightarrow> 'a bcache_scheme" where
  "bunpin b s = upd_buf b (\<lambda>x. x\<lparr>b_refcnt := b_refcnt x - 1\<rparr>) s"

lemma upd_buf_simps [simp]:
  "bufs (upd_buf i f s) j = (if j = i then f (bufs s i) else bufs s j)"
  "disk (upd_buf i f s) = disk s" "dwrites (upd_buf i f s) = dwrites s" "cur_pid (upd_buf i f s) = cur_pid s"
  "bcache.more (upd_buf i f s) = bcache.more s"
  by (simp_all add: upd_buf_def)

subsection \<open>The list of buffers\<close>

text \<open>
  \<open>dseg f x ys y\<close>: following \<open>next\<close> from \<open>x\<close> visits exactly \<open>ys\<close> before \<open>y\<close>, and the \<open>prev\<close> links are the reverse. \<open>dll f xs\<close>:
  the buffers form the circular list \<open>xs\<close>, most recently used first.
\<close>

fun dseg :: "(nat \<Rightarrow> buf) \<Rightarrow> nat \<Rightarrow> nat list \<Rightarrow> nat \<Rightarrow> bool" where
  "dseg f x [] y \<longleftrightarrow> b_next (f x) = y \<and> b_prev (f y) = x"
| "dseg f x (z # zs) y \<longleftrightarrow> b_next (f x) = z \<and> b_prev (f z) = x \<and> dseg f z zs y"

definition dll :: "(nat \<Rightarrow> buf) \<Rightarrow> nat list \<Rightarrow> bool" where
  "dll f xs \<longleftrightarrow> dseg f head xs head \<and> distinct xs \<and> set xs = {..<NBUF}"

lemma dseg_append: "dseg f x (ys @ z # zs) y \<longleftrightarrow> dseg f x ys z \<and> dseg f z zs y"
  by (induction ys arbitrary: x) auto

lemma dseg_cong:
  "(\<And>u. u = x \<or> u \<in> set ys \<Longrightarrow> b_next (f u) = b_next (g u)) \<Longrightarrow>
   (\<And>u. u = y \<or> u \<in> set ys \<Longrightarrow> b_prev (f u) = b_prev (g u)) \<Longrightarrow> dseg f x ys y \<longleftrightarrow> dseg g x ys y"
proof (induction ys arbitrary: x)
  case (Cons z zs)
  have "dseg f z zs y \<longleftrightarrow> dseg g z zs y" by (rule Cons.IH) (use Cons.prems in auto)
  then show ?case using Cons.prems by auto
qed auto

lemma head_notin: "dll f xs \<Longrightarrow> head \<notin> set xs"
  by (simp add: dll_def head_def)

lemma dseg_first: "dseg f x ys y \<Longrightarrow> b_next (f x) = (case ys of [] \<Rightarrow> y | z # _ \<Rightarrow> z)"
  by (cases ys) auto

lemma dseg_last: "dseg f x ys y \<Longrightarrow> b_prev (f y) = (if ys = [] then x else last ys)"
  by (induction ys arbitrary: x) auto

text \<open>The two pointer surgeries of \<^verbatim>\<open>brelse\<close>.\<close>

lemma unlink_dseg:
  assumes d: "dseg (bufs s) x (ys @ b # zs) y" and dist: "distinct (ys @ b # zs)"
    and x: "x \<notin> set (ys @ b # zs)" and y: "y \<notin> set (ys @ b # zs)"
  shows "dseg (bufs (unlink_buf b s)) x (ys @ zs) y"
proof -
  have d1: "dseg (bufs s) x ys b" and d2: "dseg (bufs s) b zs y" using d by (auto simp: dseg_append)
  let ?p = "b_prev (bufs s b)" and ?n = "b_next (bufs s b)"
  have p: "?p = (if ys = [] then x else last ys)" using d1 by (rule dseg_last)
  have n: "?n = (case zs of [] \<Rightarrow> y | z # _ \<Rightarrow> z)" using d2 by (rule dseg_first)
  have pb: "?p \<noteq> b" using p x dist by (auto split: if_splits)
  have nb: "?n \<noteq> b" using n y dist by (auto split: list.splits)
  have nx: "b_next (bufs (unlink_buf b s) u) = (if u = ?p then ?n else b_next (bufs s u))" for u
    using pb nb by (simp add: unlink_buf_def Let_def)
  have pv: "b_prev (bufs (unlink_buf b s) u) = (if u = ?n then ?p else b_prev (bufs s u))" for u
    using pb nb by (simp add: unlink_buf_def Let_def)
  show ?thesis
  proof (cases ys rule: rev_cases)
    case Nil
    show ?thesis
    proof (cases zs)
      case zs: Nil
      then show ?thesis using Nil p n by (simp add: nx pv)
    next
      case (Cons z zs')
      have "dseg (bufs (unlink_buf b s)) z zs' y \<longleftrightarrow> dseg (bufs s) z zs' y"
        using Nil Cons p n x y dist by (intro dseg_cong) (auto simp: nx pv)
      then show ?thesis using Nil Cons p n d2 by (simp add: nx pv)
    qed
  next
    case (snoc ys' u)
    have left: "dseg (bufs (unlink_buf b s)) x ys' u"
    proof -
      have "dseg (bufs (unlink_buf b s)) x ys' u \<longleftrightarrow> dseg (bufs s) x ys' u"
      proof (rule dseg_cong)
        fix v assume "v = x \<or> v \<in> set ys'"
        then have "v \<noteq> u" using snoc x dist by auto
        then show "b_next (bufs (unlink_buf b s) v) = b_next (bufs s v)" using p snoc by (simp add: nx)
      next
        fix v assume v: "v = u \<or> v \<in> set ys'"
        then have "v \<noteq> ?n" using n snoc y dist by (auto split: list.splits)
        then show "b_prev (bufs (unlink_buf b s) v) = b_prev (bufs s v)" by (simp add: pv)
      qed
      then show ?thesis using d1 snoc by (simp add: dseg_append)
    qed
    have right: "dseg (bufs (unlink_buf b s)) u zs y"
    proof (cases zs)
      case Nil
      then show ?thesis using p n snoc by (simp add: nx pv)
    next
      case (Cons z zs')
      have "dseg (bufs (unlink_buf b s)) z zs' y \<longleftrightarrow> dseg (bufs s) z zs' y"
        using snoc Cons p n x y dist by (intro dseg_cong) (auto simp: nx pv)
      then show ?thesis using Cons p n d2 snoc by (simp add: nx pv)
    qed
    show ?thesis using left right snoc by (simp add: dseg_append)
  qed
qed

lemma push_front_dseg:
  assumes d: "dseg (bufs s) head xs head" and b: "b \<noteq> head" "b \<notin> set xs" and h: "head \<notin> set xs" "distinct xs"
  shows "dseg (bufs (push_front b s)) head (b # xs) head"
proof -
  let ?f = "b_next (bufs s head)"
  have f: "?f = (case xs of [] \<Rightarrow> head | z # _ \<Rightarrow> z)" using d by (rule dseg_first)
  have fb: "?f \<noteq> b" using f b by (auto split: list.splits)
  have nx: "b_next (bufs (push_front b s) u) = (if u = head then b else if u = b then ?f else b_next (bufs s u))" for u
    using b fb by (simp add: push_front_def Let_def)
  have pv: "b_prev (bufs (push_front b s) u) = (if u = ?f then b else if u = b then head else b_prev (bufs s u))" for u
    using b fb by (auto simp: push_front_def Let_def)
  show ?thesis
  proof (cases xs)
    case Nil
    then show ?thesis using b f by (simp add: nx pv)
  next
    case (Cons z zs)
    have "dseg (bufs (push_front b s)) z zs head \<longleftrightarrow> dseg (bufs s) z zs head"
      using Cons f b h by (intro dseg_cong) (auto simp: nx pv)
    then show ?thesis using Cons f b h d by (simp add: nx pv)
  qed
qed

text \<open>The searches of \<^verbatim>\<open>bget\<close> are list searches, from the most and from the least recently used end.\<close>

lemma scan_next_find:
  assumes "dseg (bufs s) x xs head" "head \<notin> set xs" "length xs < fuel"
  shows "scan_next fuel P (b_next (bufs s x)) s = Ok (find (\<lambda>b. P (bufs s b)) xs)"
  using assms
proof (induction xs arbitrary: x fuel)
  case Nil
  then show ?case by (cases fuel) auto
next
  case (Cons z zs)
  then obtain f where f: "fuel = Suc f" by (cases fuel) auto
  show ?case using Cons.IH [of z f] Cons.prems f by auto
qed

lemma scan_prev_find:
  assumes "dseg (bufs s) head xs y" "head \<notin> set xs" "length xs < fuel"
  shows "scan_prev fuel P (b_prev (bufs s y)) s = Ok (find (\<lambda>b. P (bufs s b)) (rev xs))"
  using assms
proof (induction xs arbitrary: y fuel rule: rev_induct)
  case Nil
  then show ?case by (cases fuel) auto
next
  case (snoc z zs)
  then obtain f where f: "fuel = Suc f" by (cases fuel) auto
  have d: "dseg (bufs s) head zs z" "b_prev (bufs s y) = z" using snoc.prems(1) by (auto simp: dseg_append)
  show ?case using snoc.IH [OF d(1), of f] d(2) snoc.prems f by auto
qed

subsection \<open>The invariant of the cache, and the logical content of the disk\<close>

text \<open>
  \<open>bc_ok s xs\<close>: the buffers form the list \<open>xs\<close>; a block is cached at most once; an unreferenced buffer holds what
  the disk holds, so that recycling it loses nothing; a locked buffer is referenced. There is one disk, so cached
  blocks belong to \<^verbatim>\<open>ROOTDEV\<close>. \<open>view s bno\<close> is the content of block \<open>bno\<close> as the rest of the kernel sees it:
  the cached copy if there is one, the disk otherwise.
\<close>

definition is_block :: "nat \<Rightarrow> buf \<Rightarrow> bool" where
  "is_block bno b \<longleftrightarrow> b_dev b = ROOTDEV \<and> b_blockno b = bno"

definition bc_ok :: "'a bcache_scheme \<Rightarrow> nat list \<Rightarrow> bool" where
  "bc_ok s xs \<longleftrightarrow>
     dll (bufs s) xs \<and>
     (\<forall>i < NBUF. b_dev (bufs s i) = 0 \<or> b_dev (bufs s i) = ROOTDEV) \<and>
     (\<forall>i < NBUF. \<forall>j < NBUF. \<forall>bno. is_block bno (bufs s i) \<longrightarrow> is_block bno (bufs s j) \<longrightarrow> i = j) \<and>
     (\<forall>i < NBUF. b_refcnt (bufs s i) = 0 \<longrightarrow> b_valid (bufs s i) \<longrightarrow> b_dev (bufs s i) = ROOTDEV \<longrightarrow>
        b_data (bufs s i) = disk s (b_blockno (bufs s i))) \<and>
     (\<forall>i < NBUF. sl_locked (b_lock (bufs s i)) \<longrightarrow> b_refcnt (bufs s i) \<noteq> 0)"

definition cached :: "'a bcache_scheme \<Rightarrow> nat \<Rightarrow> nat option" where
  "cached s bno = find (\<lambda>i. is_block bno (bufs s i)) [0..<NBUF]"

definition view :: "'a bcache_scheme \<Rightarrow> nat \<Rightarrow> block" where
  "view s bno =
     (case cached s bno of
        None \<Rightarrow> disk s bno
      | Some i \<Rightarrow> if b_valid (bufs s i) then b_data (bufs s i) else disk s bno)"

lemma bc_okD:
  assumes "bc_ok s xs"
  shows "dll (bufs s) xs"
    "i < NBUF \<Longrightarrow> b_dev (bufs s i) = 0 \<or> b_dev (bufs s i) = ROOTDEV"
    "i < NBUF \<Longrightarrow> j < NBUF \<Longrightarrow> is_block bno (bufs s i) \<Longrightarrow> is_block bno (bufs s j) \<Longrightarrow> i = j"
    "i < NBUF \<Longrightarrow> b_refcnt (bufs s i) = 0 \<Longrightarrow> b_valid (bufs s i) \<Longrightarrow> is_block bno (bufs s i) \<Longrightarrow>
       b_data (bufs s i) = disk s bno"
    "i < NBUF \<Longrightarrow> sl_locked (b_lock (bufs s i)) \<Longrightarrow> b_refcnt (bufs s i) \<noteq> 0"
  using assms unfolding bc_ok_def is_block_def by blast+

lemma cached_Some:
  assumes "bc_ok s xs" "i < NBUF" "is_block bno (bufs s i)"
  shows "cached s bno = Some i"
proof -
  obtain j where j: "cached s bno = Some j"
    using assms(2,3) by (cases "cached s bno") (auto simp: cached_def find_None_iff)
  then have "j < NBUF" "is_block bno (bufs s j)" by (auto simp: cached_def find_Some_iff)
  then show ?thesis using bc_okD(3) [OF assms(1,2)] assms(3) j by blast
qed

lemma cached_SomeD: "cached s bno = Some i \<Longrightarrow> i < NBUF \<and> is_block bno (bufs s i)"
  by (auto simp: cached_def find_Some_iff)

lemma cached_None_iff: "cached s bno = None \<longleftrightarrow> (\<forall>i < NBUF. \<not> is_block bno (bufs s i))"
  by (auto simp: cached_def find_None_iff)

lemma view_cached:
  "bc_ok s xs \<Longrightarrow> i < NBUF \<Longrightarrow> is_block bno (bufs s i) \<Longrightarrow>
   view s bno = (if b_valid (bufs s i) then b_data (bufs s i) else disk s bno)"
  by (simp add: view_def cached_Some)

lemma view_uncached: "\<forall>i < NBUF. \<not> is_block bno (bufs s i) \<Longrightarrow> view s bno = disk s bno"
  using cached_None_iff [of s bno] by (simp add: view_def)

text \<open>The links of a buffer aside, what does an operation change? \<open>core\<close> hides the links.\<close>

definition core :: "buf \<Rightarrow> buf" where
  "core b = b\<lparr>b_prev := 0, b_next := 0\<rparr>"

lemma core_simps [simp]:
  "b_valid (core b) = b_valid b" "b_dev (core b) = b_dev b" "b_blockno (core b) = b_blockno b"
  "b_lock (core b) = b_lock b" "b_refcnt (core b) = b_refcnt b" "b_data (core b) = b_data b"
  "b_disk (core b) = b_disk b" "is_block bno (core b) = is_block bno b"
  by (simp_all add: core_def is_block_def)

lemma core_fields:
  "core b = core c \<Longrightarrow> b_valid b = b_valid c \<and> b_dev b = b_dev c \<and> b_blockno b = b_blockno c \<and>
     b_lock b = b_lock c \<and> b_refcnt b = b_refcnt c \<and> b_data b = b_data c \<and> is_block bno b = is_block bno c"
  by (metis core_simps)

lemma core_links [simp]:
  "core (b\<lparr>b_prev := p\<rparr>) = core b" "core (b\<lparr>b_next := n\<rparr>) = core b"
  by (simp_all add: core_def)

lemma unlink_core [simp]: "core (bufs (unlink_buf b s) i) = core (bufs s i)"
  by (simp add: unlink_buf_def Let_def)

lemma push_front_core [simp]: "core (bufs (push_front b s) i) = core (bufs s i)"
  by (simp add: push_front_def Let_def)

lemma links_rest [simp]:
  "disk (unlink_buf b s) = disk s" "disk (push_front b s) = disk s"
  "dwrites (unlink_buf b s) = dwrites s" "dwrites (push_front b s) = dwrites s"
  "cur_pid (unlink_buf b s) = cur_pid s" "cur_pid (push_front b s) = cur_pid s"
  "bcache.more (unlink_buf b s) = bcache.more s" "bcache.more (push_front b s) = bcache.more s"
  by (simp_all add: unlink_buf_def push_front_def Let_def)

lemma view_core:
  assumes "\<forall>i < NBUF. core (bufs s' i) = core (bufs s i)" "disk s' = disk s"
  shows "view s' bno = view s bno"
proof -
  have "is_block bno (bufs s' i) = is_block bno (bufs s i)" if "i < NBUF" for i
    using core_fields [of "bufs s' i" "bufs s i"] assms(1) that by blast
  then have "cached s' bno = cached s bno"
    unfolding cached_def by (intro find_cong) auto
  moreover have "b_valid (bufs s' i) = b_valid (bufs s i)" "b_data (bufs s' i) = b_data (bufs s i)"
    if "cached s bno = Some i" for i
    using core_fields [of "bufs s' i" "bufs s i"] assms(1) cached_SomeD [OF that] by blast+
  ultimately show ?thesis using assms(2) by (auto simp: view_def split: option.splits)
qed

lemma bc_ok_core:
  assumes ok: "bc_ok s xs" and c: "\<forall>i < NBUF. core (bufs s' i) = core (bufs s i)" and d: "disk s' = disk s"
    and l: "dll (bufs s') xs'"
  shows "bc_ok s' xs'"
proof -
  have f: "b_valid (bufs s' i) = b_valid (bufs s i)" "b_dev (bufs s' i) = b_dev (bufs s i)"
    "b_blockno (bufs s' i) = b_blockno (bufs s i)" "b_lock (bufs s' i) = b_lock (bufs s i)"
    "b_refcnt (bufs s' i) = b_refcnt (bufs s i)" "b_data (bufs s' i) = b_data (bufs s i)" if "i < NBUF" for i
    using core_fields [of "bufs s' i" "bufs s i"] c that by blast+
  show ?thesis using ok l unfolding bc_ok_def is_block_def by (simp add: f d)
qed

text \<open>Changing one buffer other than in its links keeps the list.\<close>

lemma dll_upd:
  "dll f xs \<Longrightarrow> b_prev B = b_prev (f b) \<Longrightarrow> b_next B = b_next (f b) \<Longrightarrow> dll (f(b := B)) xs"
  unfolding dll_def using dseg_cong [of head xs "f(b := B)" f head] by auto

subsection \<open>bread\<close>

definition loaded :: "nat \<Rightarrow> nat \<Rightarrow> 'a bcache_scheme \<Rightarrow> buf" where
  "loaded b bno s = (bufs s b)\<lparr>b_valid := True, b_dev := ROOTDEV, b_blockno := bno,
     b_lock := \<lparr>sl_locked = True, sl_pid = cur_pid s\<rparr>, b_refcnt := b_refcnt (bufs s b) + 1, b_data := view s bno\<rparr>"

declare scan_next.simps [simp del] scan_prev.simps [simp del]

lemma dll_scan:
  assumes "dll (bufs s) xs"
  shows "scan_next (NBUF + 1) P (b_next (bufs s head)) s = Ok (find (\<lambda>b. P (bufs s b)) xs)"
    "scan_prev (NBUF + 1) P (b_prev (bufs s head)) s = Ok (find (\<lambda>b. P (bufs s b)) (rev xs))"
proof -
  have d: "dseg (bufs s) head xs head" and h: "head \<notin> set xs" and l: "length xs < NBUF + 1"
    using assms head_notin [OF assms] distinct_card [of xs] by (simp_all add: dll_def)
  show "scan_next (NBUF + 1) P (b_next (bufs s head)) s = Ok (find (\<lambda>b. P (bufs s b)) xs)"
    using d h l by (rule scan_next_find)
  show "scan_prev (NBUF + 1) P (b_prev (bufs s head)) s = Ok (find (\<lambda>b. P (bufs s b)) (rev xs))"
    using d h l by (rule scan_prev_find)
qed

text \<open>Which buffer \<^verbatim>\<open>bread\<close> picks: the one that caches the block, else the least recently used free one.\<close>

definition picks :: "nat list \<Rightarrow> nat \<Rightarrow> 'a bcache_scheme \<Rightarrow> nat \<Rightarrow> bool" where
  "picks xs bno s b \<longleftrightarrow>
     b < NBUF \<and>
     (is_block bno (bufs s b) \<or>
      (\<forall>i < NBUF. \<not> is_block bno (bufs s i)) \<and> find (\<lambda>i. b_refcnt (bufs s i) = 0) (rev xs) = Some b)"

lemma picks_exists:
  assumes "bc_ok s xs" "(\<exists>i < NBUF. is_block bno (bufs s i)) \<or> (\<exists>i < NBUF. b_refcnt (bufs s i) = 0)"
  shows "\<exists>b. picks xs bno s b"
proof (cases "\<exists>i < NBUF. is_block bno (bufs s i)")
  case True
  then show ?thesis by (auto simp: picks_def)
next
  case False
  then have "\<exists>i \<in> set xs. b_refcnt (bufs s i) = 0"
    using assms by (auto simp: bc_ok_def dll_def)
  then obtain b where b: "find (\<lambda>i. b_refcnt (bufs s i) = 0) (rev xs) = Some b"
    by (cases "find (\<lambda>i. b_refcnt (bufs s i) = 0) (rev xs)") (auto simp: find_None_iff)
  then have "b \<in> set xs" by (auto simp: find_Some_iff) (metis nth_mem set_rev length_rev)
  then show ?thesis using False b assms(1) by (auto simp: picks_def bc_ok_def dll_def)
qed

lemma picks_free:
  assumes "bc_ok s xs" "picks xs bno s b" "\<not> is_block bno (bufs s b)"
  shows "b_refcnt (bufs s b) = 0" "\<forall>i < NBUF. \<not> is_block bno (bufs s i)"
  using assms by (auto simp: picks_def find_Some_iff)

lemma bread_eq:
  assumes ok: "bc_ok s xs" and pk: "picks xs bno s b"
    and unl: "\<not> sl_locked (b_lock (bufs s b))"
  shows "bread ROOTDEV bno s = Ok (b, s\<lparr>bufs := (bufs s)(b := loaded b bno s)\<rparr>)"
proof (cases "is_block bno (bufs s b)")
  case True
  let ?P = "\<lambda>x. b_dev x = ROOTDEV \<and> b_blockno x = bno"
  have b: "b < NBUF" using pk by (simp add: picks_def)
  have "find (\<lambda>i. ?P (bufs s i)) xs = Some b"
  proof -
    have "b \<in> set xs" using ok b by (auto simp: bc_ok_def dll_def)
    then obtain c where c: "find (\<lambda>i. ?P (bufs s i)) xs = Some c"
      using True by (cases "find (\<lambda>i. ?P (bufs s i)) xs") (auto simp: find_None_iff is_block_def)
    then have "c \<in> set xs" "is_block bno (bufs s c)" by (auto simp: find_Some_iff is_block_def)
    moreover have "c < NBUF" using calculation(1) ok by (auto simp: bc_ok_def dll_def)
    ultimately show ?thesis using bc_okD(3) [OF ok b _ True] c by blast
  qed
  then have "bget ROOTDEV bno s = lock_buf b (upd_buf b (\<lambda>x. x\<lparr>b_refcnt := b_refcnt x + 1\<rparr>) s)"
    unfolding bget_def dll_scan(1) [OF bc_okD(1) [OF ok]] by simp
  then show ?thesis using True unl view_cached [OF ok b True]
    by (auto simp: bread_def lock_buf_def acquiresleep_def virtio_disk_rw_def Let_def upd_buf_def loaded_def is_block_def
        fun_eq_iff)
next
  case False
  let ?P = "\<lambda>x. b_dev x = ROOTDEV \<and> b_blockno x = bno"
  note no = picks_free [OF ok pk False]
  have "find (\<lambda>i. ?P (bufs s i)) xs = None"
    using no(2) ok by (auto simp: find_None_iff is_block_def bc_ok_def dll_def)
  moreover have "find (\<lambda>i. b_refcnt (bufs s i) = 0) (rev xs) = Some b" using pk False by (auto simp: picks_def)
  ultimately have "bget ROOTDEV bno s =
      lock_buf b (upd_buf b (\<lambda>x. x\<lparr>b_dev := ROOTDEV, b_blockno := bno, b_valid := False, b_refcnt := 1\<rparr>) s)"
    unfolding bget_def dll_scan [OF bc_okD(1) [OF ok]] by simp
  then show ?thesis using unl no view_uncached [OF no(2)]
    by (auto simp: bread_def lock_buf_def acquiresleep_def virtio_disk_rw_def Let_def upd_buf_def loaded_def fun_eq_iff)
qed

lemma bread_inv:
  assumes ok: "bc_ok s xs" and pk: "picks xs bno s b" and ov: "b_refcnt (bufs s b) \<noteq> - 1"
    and s': "s' = s\<lparr>bufs := (bufs s)(b := loaded b bno s)\<rparr>"
  shows "bc_ok s' xs" "view s' n = view s n"
proof -
  have b: "b < NBUF" using pk by (simp add: picks_def)
  have B: "is_block n (bufs s' i) \<longleftrightarrow> (if i = b then n = bno else is_block n (bufs s i))" for i n
    by (auto simp: s' loaded_def is_block_def)
  have other: "is_block bno (bufs s i) \<Longrightarrow> i < NBUF \<Longrightarrow> i = b" for i
    using bc_okD(3) [OF ok _ b] picks_free(2) [OF ok pk] by blast
  have "b_refcnt (bufs s b) + 1 \<noteq> 0" using ov by (metis add_eq_0_iff minus_equation_iff add.commute)
  then show ok': "bc_ok s' xs"
    unfolding bc_ok_def B
    using bc_okD(2-5) [OF ok] dll_upd [OF bc_okD(1) [OF ok], of "loaded b bno s" b] other
    by (auto simp: s' loaded_def is_block_def)
  show "view s' n = view s n"
  proof (cases "n = bno")
    case True
    have "is_block bno (bufs s' b)" by (simp add: B)
    from view_cached [OF ok' b this] show ?thesis using True by (simp add: s' loaded_def)
  next
    case n: False
    show ?thesis
    proof (cases "\<exists>i < NBUF. is_block n (bufs s i)")
      case True
      then obtain i where i: "i < NBUF" "is_block n (bufs s i)" by blast
      show ?thesis
      proof (cases "i = b")
        case ib: True
        then have nb: "\<not> is_block bno (bufs s b)" using i n by (auto simp: is_block_def)
        have "view s n = disk s n"
          using view_cached [OF ok i] bc_okD(4) [OF ok i(1) _ _ i(2)] picks_free(1) [OF ok pk nb] ib by simp
        moreover have "\<forall>j < NBUF. \<not> is_block n (bufs s' j)"
          using B n ib i bc_okD(3) [OF ok i(1)] by auto
        ultimately show ?thesis using view_uncached [of n s'] by (simp add: s')
      next
        case False
        then have "is_block n (bufs s' i)" using B i by simp
        then show ?thesis using view_cached [OF ok i] view_cached [OF ok' i(1)] False by (simp add: s')
      qed
    next
      case False
      then have "\<forall>j < NBUF. \<not> is_block n (bufs s' j)" using B n by auto
      then show ?thesis using False view_uncached [of n s'] view_uncached [of n s] by (simp add: s')
    qed
  qed
qed

subsection \<open>bwrite, brelse, bpin, bunpin\<close>

text \<open>Changing one buffer, but neither its links nor which block it caches.\<close>

lemma upd_inv:
  assumes ok: "bc_ok s xs" and b: "b < NBUF" and s': "s' = upd_buf b (\<lambda>_. B) s"
    and links: "b_prev B = b_prev (bufs s b)" "b_next B = b_next (bufs s b)"
    and same: "b_dev B = b_dev (bufs s b)" "b_blockno B = b_blockno (bufs s b)" "b_valid B = b_valid (bufs s b)"
    and clean: "b_refcnt B = 0 \<Longrightarrow> b_valid B \<Longrightarrow> b_dev B = ROOTDEV \<Longrightarrow> b_data B = disk s (b_blockno B)"
    and lock: "sl_locked (b_lock B) \<Longrightarrow> b_refcnt B \<noteq> 0"
  shows "bc_ok s' xs"
    and "view s' n = (if is_block n (bufs s b) \<and> b_valid B then b_data B else view s n)"
proof -
  have B: "is_block n (bufs s' i) = is_block n (bufs s i)" for n i
    using same by (simp add: s' is_block_def)
  have dl: "dll (bufs s') xs"
    using dll_upd [OF bc_okD(1) [OF ok] links] by (simp add: s' upd_buf_def)
  have bf: "bufs s' i = (if i = b then B else bufs s i)" for i by (simp add: s')
  have "disk s' = disk s" by (simp add: s')
  moreover have "\<forall>i < NBUF. b_dev (bufs s' i) = 0 \<or> b_dev (bufs s' i) = ROOTDEV"
    using bc_okD(2) [OF ok] same(1) bf b by simp
  moreover have "\<forall>i < NBUF. b_refcnt (bufs s' i) = 0 \<longrightarrow> b_valid (bufs s' i) \<longrightarrow> b_dev (bufs s' i) = ROOTDEV \<longrightarrow>
      b_data (bufs s' i) = disk s (b_blockno (bufs s' i))"
    using clean ok unfolding bf bc_ok_def by simp
  moreover have "\<forall>i < NBUF. sl_locked (b_lock (bufs s' i)) \<longrightarrow> b_refcnt (bufs s' i) \<noteq> 0"
    using lock bc_okD(5) [OF ok] unfolding bf by simp
  moreover have "\<forall>i < NBUF. \<forall>j < NBUF. \<forall>bno. is_block bno (bufs s' i) \<longrightarrow> is_block bno (bufs s' j) \<longrightarrow> i = j"
    using bc_okD(3) [OF ok] unfolding B by blast
  ultimately show ok': "bc_ok s' xs" unfolding bc_ok_def using dl by simp
  show "view s' n = (if is_block n (bufs s b) \<and> b_valid B then b_data B else view s n)"
  proof (cases "\<exists>i < NBUF. is_block n (bufs s i)")
    case True
    then obtain i where i: "i < NBUF" "is_block n (bufs s i)" by blast
    have "view s' n = (if b_valid (bufs s' i) then b_data (bufs s' i) else disk s' n)"
      using view_cached [OF ok' i(1)] i(2) B by simp
    moreover have "is_block n (bufs s b) \<longleftrightarrow> i = b" using bc_okD(3) [OF ok i(1) b i(2)] i(2) by blast
    ultimately show ?thesis using view_cached [OF ok i] same(3) by (auto simp: s')
  next
    case False
    then have "\<not> is_block n (bufs s b)" using b by blast
    moreover have "view s' n = disk s n" using False B view_uncached [of n s'] by (simp add: s')
    ultimately show ?thesis using view_uncached [of n s] False by simp
  qed
qed

lemma bwrite_inv:
  assumes ok: "bc_ok s xs" and b: "b < NBUF" "is_block bno (bufs s b)" "b_valid (bufs s b)"
    and held: "holdingsleep (cur_pid s) (b_lock (bufs s b))"
  obtains s' where "bwrite b s = Ok ((), s')"
    "s' = s\<lparr>disk := (disk s)(bno := b_data (bufs s b)), dwrites := dwrites s @ [(bno, b_data (bufs s b))]\<rparr>"
    "bc_ok s' xs" "\<forall>n. view s' n = view s n"
proof -
  define s' where "s' = s\<lparr>disk := (disk s)(bno := b_data (bufs s b)), dwrites := dwrites s @ [(bno, b_data (bufs s b))]\<rparr>"
  have bn: "b_blockno (bufs s b) = bno" using b by (simp add: is_block_def)
  have run: "bwrite b s = Ok ((), s')"
    using held by (simp add: bwrite_def virtio_disk_rw_def Let_def bn s'_def)
  have rb: "b_refcnt (bufs s b) \<noteq> 0" using bc_okD(5) [OF ok b(1)] held by (simp add: holdingsleep_def)
  have "b_data (bufs s i) = disk s' (b_blockno (bufs s i))"
    if i: "i < NBUF" "b_refcnt (bufs s i) = 0" "b_valid (bufs s i)" "b_dev (bufs s i) = ROOTDEV" for i
  proof -
    have blk: "is_block (b_blockno (bufs s i)) (bufs s i)" using i(4) by (simp add: is_block_def)
    have "b_blockno (bufs s i) \<noteq> bno"
    proof
      assume "b_blockno (bufs s i) = bno"
      then have "i = b" using bc_okD(3) [OF ok i(1) b(1)] blk b(2) by simp
      then show False using rb i(2) by simp
    qed
    then show ?thesis using bc_okD(4) [OF ok i(1-3) blk] by (simp add: s'_def)
  qed
  then have ok': "bc_ok s' xs" using ok unfolding bc_ok_def by (simp add: s'_def)
  have "view s' n = view s n" for n
  proof (cases "n = bno")
    case True
    then show ?thesis using view_cached [OF ok b(1,2)] view_cached [OF ok' b(1), of bno] b by (simp add: s'_def)
  next
    case False
    have "cached s' n = cached s n" by (simp add: cached_def s'_def)
    then show ?thesis using False by (simp add: view_def s'_def split: option.split)
  qed
  then show thesis using that run s'_def ok' by blast
qed

lemma set_data_inv:
  assumes ok: "bc_ok s xs" and b: "b < NBUF" "is_block bno (bufs s b)" "b_valid (bufs s b)" "b_refcnt (bufs s b) \<noteq> 0"
    and s': "s' = upd_buf b (\<lambda>x. x\<lparr>b_data := d\<rparr>) s"
  shows "bc_ok s' xs" "view s' n = (if n = bno then d else view s n)"
proof -
  have s2: "s' = upd_buf b (\<lambda>_. (bufs s b)\<lparr>b_data := d\<rparr>) s" by (simp add: s' upd_buf_def)
  note u = upd_inv [OF ok b(1) s2]
  show "bc_ok s' xs" using u(1) b(4) bc_okD(5) [OF ok b(1)] by simp
  show "view s' n = (if n = bno then d else view s n)"
    using u(2) b bc_okD(5) [OF ok b(1)] by (auto simp: is_block_def)
qed

lemma brelse_inv:
  assumes ok: "bc_ok s xs" and b: "b < NBUF" and held: "holdingsleep (cur_pid s) (b_lock (bufs s b))"
    and clean: "b_refcnt (bufs s b) = 1 \<Longrightarrow> b_valid (bufs s b) \<Longrightarrow> b_dev (bufs s b) = ROOTDEV \<Longrightarrow>
      b_data (bufs s b) = disk s (b_blockno (bufs s b))"
  obtains s' where "brelse b s = Ok ((), s')"
    "bc_ok s' (if b_refcnt (bufs s b) = 1 then b # remove1 b xs else xs)"
    "\<forall>i < NBUF. core (bufs s' i) = core (if i = b then (bufs s b)\<lparr>b_lock := \<lparr>sl_locked = False, sl_pid = 0\<rparr>,
        b_refcnt := b_refcnt (bufs s b) - 1\<rparr> else bufs s i)"
    "\<forall>n. view s' n = view s n" "disk s' = disk s" "dwrites s' = dwrites s" "cur_pid s' = cur_pid s"
    "bcache.more s' = bcache.more s"
proof -
  let ?B = "(bufs s b)\<lparr>b_lock := \<lparr>sl_locked = False, sl_pid = 0\<rparr>, b_refcnt := b_refcnt (bufs s b) - 1\<rparr>"
  define s2 where "s2 = upd_buf b (\<lambda>_. ?B) s"
  have run: "brelse b s = (if b_refcnt (bufs s b) = 1 then Ok ((), push_front b (unlink_buf b s2)) else Ok ((), s2))"
    using held by (simp add: brelse_def Let_def upd_buf_def s2_def)
  have cl: "b_refcnt ?B = 0 \<Longrightarrow> b_valid ?B \<Longrightarrow> b_dev ?B = ROOTDEV \<Longrightarrow> b_data ?B = disk s (b_blockno ?B)"
    using clean by simp
  note u = upd_inv [OF ok b s2_def _ _ _ _ _ cl]
  have ok2: "bc_ok s2 xs" using u(1) by simp
  have v2: "view s2 n = view s n" for n
    using u(2) [of n] view_cached [OF ok b] by auto
  have c2: "\<forall>i < NBUF. core (bufs s2 i) = core (if i = b then ?B else bufs s i)" by (simp add: s2_def)
  show thesis
  proof (cases "b_refcnt (bufs s b) = 1")
    case False
    show thesis by (rule that [of s2]) (use False run ok2 v2 c2 in \<open>simp_all add: s2_def\<close>)
  next
    case True
    define s3 where "s3 = push_front b (unlink_buf b s2)"
    have "b \<in> set xs" using ok b by (auto simp: bc_ok_def dll_def)
    then obtain ys zs where xs: "xs = ys @ b # zs" "b \<notin> set ys" by (meson split_list_first)
    have d: "dll (bufs s2) xs" using ok2 by (rule bc_okD)
    have h: "head \<notin> set xs" using head_notin [OF d] .
    have u1: "dseg (bufs (unlink_buf b s2)) head (ys @ zs) head"
      using d h xs by (intro unlink_dseg) (auto simp: dll_def)
    have "dseg (bufs s3) head (b # ys @ zs) head"
      unfolding s3_def using u1 d h xs by (intro push_front_dseg) (auto simp: dll_def)
    moreover have "remove1 b xs = ys @ zs" using xs by (simp add: remove1_append)
    moreover have "set (b # ys @ zs) = {..<NBUF}" "distinct (b # ys @ zs)" using d xs by (auto simp: dll_def)
    ultimately have dl: "dll (bufs s3) (b # remove1 b xs)" by (simp add: dll_def)
    have c: "\<forall>i < NBUF. core (bufs s3 i) = core (bufs s2 i)" by (simp add: s3_def)
    have ok3: "bc_ok s3 (b # remove1 b xs)" using bc_ok_core [OF ok2 c _ dl] by (simp add: s3_def)
    have v3: "view s3 n = view s n" for n using view_core [OF c] v2 by (simp add: s3_def)
    show thesis
      by (rule that [of s3]) (use True run ok3 v3 c c2 in \<open>simp_all add: s3_def s2_def\<close>)
  qed
qed

lemma bpin_inv:
  assumes ok: "bc_ok s xs" and b: "b < NBUF" and ov: "b_refcnt (bufs s b) \<noteq> - 1" and s': "s' = bpin b s"
  shows "bc_ok s' xs" "view s' n = view s n"
proof -
  have s2: "s' = upd_buf b (\<lambda>_. (bufs s b)\<lparr>b_refcnt := b_refcnt (bufs s b) + 1\<rparr>) s" by (simp add: s' bpin_def upd_buf_def)
  have nz: "b_refcnt (bufs s b) + 1 \<noteq> 0" using ov by (metis add_eq_0_iff minus_equation_iff add.commute)
  note u = upd_inv [OF ok b s2]
  show "bc_ok s' xs" using u(1) nz by simp
  show "view s' n = view s n" using u(2) [of n] nz view_cached [OF ok b, of n] by auto
qed

lemma bunpin_inv:
  assumes ok: "bc_ok s xs" and b: "b < NBUF" and ov: "b_refcnt (bufs s b) \<noteq> 1" and s': "s' = bunpin b s"
  shows "bc_ok s' xs" "view s' n = view s n"
proof -
  have s2: "s' = upd_buf b (\<lambda>_. (bufs s b)\<lparr>b_refcnt := b_refcnt (bufs s b) - 1\<rparr>) s" by (simp add: s' bunpin_def upd_buf_def)
  have nz: "b_refcnt (bufs s b) - 1 \<noteq> 0" using ov by simp
  note u = upd_inv [OF ok b s2]
  show "bc_ok s' xs" using u(1) nz by simp
  show "view s' n = view s n" using u(2) [of n] nz view_cached [OF ok b, of n] by auto
qed

subsection \<open>binit\<close>

lemma binit_step:
  assumes "b \<noteq> head" "b_next (bufs s head) \<noteq> b"
  shows "(let s1 = upd_buf b (\<lambda>x. x\<lparr>b_next := b_next (bufs s head), b_prev := head, b_lock := initsleeplock\<rparr>) s;
              s2 = upd_buf (b_next (bufs s1 head)) (\<lambda>x. x\<lparr>b_prev := b\<rparr>) s1
          in upd_buf head (\<lambda>x. x\<lparr>b_next := b\<rparr>) s2) =
         upd_buf b (\<lambda>x. x\<lparr>b_lock := initsleeplock\<rparr>) (push_front b s)"
  using assms by (simp add: push_front_def Let_def upd_buf_def fun_eq_iff fun_upd_def)

lemma dll_upd_lock: "dseg (bufs s) x ys y \<Longrightarrow> dseg (bufs (upd_buf b (\<lambda>x. x\<lparr>b_lock := l\<rparr>) s)) x ys y"
  by (subst dseg_cong [of _ _ _ "bufs s"]) auto

lemma binit_loop_ok:
  assumes "n \<le> NBUF" "dseg (bufs s) head (rev [0..<NBUF - n]) head"
    and "\<forall>i < NBUF. b_dev (bufs s i) = 0 \<and> \<not> b_valid (bufs s i) \<and> b_refcnt (bufs s i) = 0"
    and "\<forall>i < NBUF - n. b_lock (bufs s i) = initsleeplock"
  shows "dseg (bufs (binit_loop n s)) head (rev [0..<NBUF]) head \<and>
    (\<forall>i < NBUF. b_dev (bufs (binit_loop n s) i) = 0 \<and> \<not> b_valid (bufs (binit_loop n s) i) \<and>
       b_refcnt (bufs (binit_loop n s) i) = 0 \<and> b_lock (bufs (binit_loop n s) i) = initsleeplock) \<and>
    disk (binit_loop n s) = disk s \<and> cur_pid (binit_loop n s) = cur_pid s"
  using assms
proof (induction n arbitrary: s)
  case (Suc n)
  let ?b = "NBUF - Suc n"
  define s3 where "s3 = upd_buf ?b (\<lambda>x. x\<lparr>b_lock := initsleeplock\<rparr>) (push_front ?b s)"
  have k: "NBUF - n = Suc ?b" using Suc.prems(1) by simp
  have bh: "?b \<noteq> head" using Suc.prems(1) by (simp add: head_def)
  have ne: "b_next (bufs s head) \<noteq> ?b"
  proof (cases "rev [0..<?b]")
    case Nil
    then show ?thesis using dseg_first [OF Suc.prems(2)] bh by simp
  next
    case (Cons z zs)
    then have "z \<in> set [0..<?b]" by (metis list.set_intros(1) set_rev)
    then show ?thesis using dseg_first [OF Suc.prems(2)] Cons by auto
  qed
  have step: "binit_loop (Suc n) s = binit_loop n s3"
    unfolding binit_loop.simps s3_def binit_step [OF bh ne, symmetric] Let_def ..
  have "dseg (bufs (push_front ?b s)) head (?b # rev [0..<?b]) head"
    using Suc.prems(2) bh by (intro push_front_dseg) (auto simp: head_def)
  then have d: "dseg (bufs s3) head (rev [0..<NBUF - n]) head"
    unfolding s3_def k by (intro dll_upd_lock) simp
  have f: "b_dev (bufs s3 i) = 0 \<and> \<not> b_valid (bufs s3 i) \<and> b_refcnt (bufs s3 i) = 0" if "i < NBUF" for i
    using core_fields [OF push_front_core [of ?b s i]] Suc.prems(3) that
    unfolding s3_def by (cases "i = ?b") auto
  have l: "b_lock (bufs s3 i) = initsleeplock" if "i < NBUF - n" for i
    using core_fields [OF push_front_core [of ?b s i]] Suc.prems(4) that k by (cases "i = ?b") (auto simp: s3_def)
  have "dseg (bufs (binit_loop n s3)) head (rev [0..<NBUF]) head \<and>
    (\<forall>i < NBUF. b_dev (bufs (binit_loop n s3) i) = 0 \<and> \<not> b_valid (bufs (binit_loop n s3) i) \<and>
       b_refcnt (bufs (binit_loop n s3) i) = 0 \<and> b_lock (bufs (binit_loop n s3) i) = initsleeplock) \<and>
    disk (binit_loop n s3) = disk s3 \<and> cur_pid (binit_loop n s3) = cur_pid s3"
    using Suc.prems(1) d f l by (intro Suc.IH) auto
  then show ?case unfolding step by (simp add: s3_def)
qed simp

lemma binit_ok:
  assumes "\<forall>i < NBUF. b_dev (bufs s i) = 0 \<and> \<not> b_valid (bufs s i) \<and> b_refcnt (bufs s i) = 0"
  shows "bc_ok (binit s) (rev [0..<NBUF])" "disk (binit s) = disk s" "cur_pid (binit s) = cur_pid s"
    "\<forall>i < NBUF. b_dev (bufs (binit s) i) = 0 \<and> b_refcnt (bufs (binit s) i) = 0 \<and> \<not> sl_locked (b_lock (bufs (binit s) i))"
proof -
  let ?s = "upd_buf head (\<lambda>x. x\<lparr>b_prev := head, b_next := head\<rparr>) s"
  have f: "\<forall>i < NBUF. b_dev (bufs ?s i) = 0 \<and> \<not> b_valid (bufs ?s i) \<and> b_refcnt (bufs ?s i) = 0"
    using assms by (simp add: head_def)
  have r: "dseg (bufs (binit s)) head (rev [0..<NBUF]) head"
    "\<forall>i < NBUF. b_dev (bufs (binit s) i) = 0 \<and> \<not> b_valid (bufs (binit s) i) \<and>
       b_refcnt (bufs (binit s) i) = 0 \<and> b_lock (bufs (binit s) i) = initsleeplock"
    "disk (binit s) = disk s" "cur_pid (binit s) = cur_pid s"
    using binit_loop_ok [OF order_refl _ f] unfolding binit_def by simp_all
  have "dll (bufs (binit s)) (rev [0..<NBUF])" using r(1) by (auto simp: dll_def)
  moreover have "ROOTDEV \<noteq> 0" by (simp add: ROOTDEV_def)
  ultimately show "bc_ok (binit s) (rev [0..<NBUF])" using r(2) by (auto simp: bc_ok_def is_block_def initsleeplock_def)
  show "disk (binit s) = disk s" "cur_pid (binit s) = cur_pid s" by (rule r)+
  show "\<forall>i < NBUF. b_dev (bufs (binit s) i) = 0 \<and> b_refcnt (bufs (binit s) i) = 0 \<and> \<not> sl_locked (b_lock (bufs (binit s) i))"
    using r(2) by (simp add: initsleeplock_def)
qed

text \<open>The cache at boot: zeroed buffers, linked by \<^verbatim>\<open>binit\<close>, over some disk.\<close>

definition boot_buf :: buf where
  "boot_buf = \<lparr>b_valid = False, b_disk = False, b_dev = 0, b_blockno = 0, b_lock = initsleeplock, b_refcnt = 0,
     b_prev = 0, b_next = 0, b_data = (\<lambda>_. 0)\<rparr>"

definition boot_cache :: "(nat \<Rightarrow> block) \<Rightarrow> bcache" where
  "boot_cache d = binit \<lparr>bufs = (\<lambda>_. boot_buf), disk = d, dwrites = [], cur_pid = 1\<rparr>"

lemma boot_cache_ok:
  "bc_ok (boot_cache d) (rev [0..<NBUF])" "disk (boot_cache d) = d" "cur_pid (boot_cache d) = 1"
  "\<forall>i < NBUF. b_dev (bufs (boot_cache d) i) = 0 \<and> b_refcnt (bufs (boot_cache d) i) = 0 \<and> \<not> sl_locked (b_lock (bufs (boot_cache d) i))"
  using binit_ok [of "\<lparr>bufs = (\<lambda>_. boot_buf), disk = d, dwrites = [], cur_pid = 1\<rparr>"]
  by (simp_all add: boot_cache_def boot_buf_def)

lemma view_boot: "view (boot_cache d) n = d n"
  using view_uncached [of n "boot_cache d"] boot_cache_ok(2,4) by (simp add: is_block_def ROOTDEV_def)

subsection \<open>The contracts\<close>

text \<open>
  C19: \<^verbatim>\<open>bread\<close> returns the current content of a block, in a buffer nobody else has. On a well-formed cache, for
  a block whose buffer is not locked and with a free buffer available if the block is not cached, it returns a buffer
  locked by the caller that holds the logical content of the block. It is the only buffer for that
  block, every other buffer, the disk and the logical content of every block are unchanged, and the invariant holds.
\<close>

theorem bread_returns_content:
  assumes "bc_ok s xs" "\<forall>i < NBUF. is_block bno (bufs s i) \<longrightarrow> \<not> sl_locked (b_lock (bufs s i))"
    and "(\<exists>i < NBUF. is_block bno (bufs s i)) \<or> (\<exists>i < NBUF. b_refcnt (bufs s i) = 0)"
    and "\<forall>i < NBUF. b_refcnt (bufs s i) \<noteq> - 1"
  shows "\<exists>b s'. bread ROOTDEV bno s = Ok (b, s') \<and> b < NBUF \<and> bc_ok s' xs \<and>
    holdingsleep (cur_pid s') (b_lock (bufs s' b)) \<and> b_data (bufs s' b) = view s bno \<and>
    (\<forall>i < NBUF. is_block bno (bufs s' i) \<longleftrightarrow> i = b) \<and>
    (\<forall>i. i \<noteq> b \<longrightarrow> bufs s' i = bufs s i) \<and> disk s' = disk s \<and> (\<forall>n. view s' n = view s n)"
proof -
  obtain b where pk: "picks xs bno s b" using picks_exists [OF assms(1,3)] by blast
  then have b: "b < NBUF" by (simp add: picks_def)
  have unl: "\<not> sl_locked (b_lock (bufs s b))"
    using assms(2) b bc_okD(5) [OF assms(1) b] picks_free(1) [OF assms(1) pk] by blast
  define s' where "s' = s\<lparr>bufs := (bufs s)(b := loaded b bno s)\<rparr>"
  have run: "bread ROOTDEV bno s = Ok (b, s')" unfolding s'_def by (rule bread_eq [OF assms(1) pk unl])
  have ov: "b_refcnt (bufs s b) \<noteq> - 1" using assms(4) b by simp
  note inv = bread_inv [OF assms(1) pk ov s'_def]
  have blk: "is_block bno (bufs s' b)" by (simp add: s'_def loaded_def is_block_def)
  then have "\<forall>i < NBUF. is_block bno (bufs s' i) \<longleftrightarrow> i = b" using bc_okD(3) [OF inv(1) _ b] by blast
  then show ?thesis using run b inv
    by (intro exI [of _ b] exI [of _ s']) (simp add: s'_def loaded_def holdingsleep_def)
qed

theorem bread_returns_content_witness:
  "\<exists>b s'. bread ROOTDEV 7 (boot_cache (\<lambda>n _. of_nat n)) = Ok (b, s') \<and> b_data (bufs s' b) 0 = 7"
proof -
  let ?s = "boot_cache (\<lambda>n _. of_nat n)"
  have "\<exists>i < NBUF. b_refcnt (bufs ?s i) = 0"
    using boot_cache_ok(4) by (intro exI [of _ 0]) (simp add: param_defs)
  then show ?thesis
    using bread_returns_content [OF boot_cache_ok(1), of 7 "\<lambda>n _. of_nat n"]
      boot_cache_ok(4) [of "\<lambda>n _. of_nat n"] view_boot [of "\<lambda>n _. of_nat n" 7] by fastforce
qed

text \<open>
  C36: \<^verbatim>\<open>brelse\<close> gives a buffer back without losing its content. For a buffer the caller has locked, whose content is on disk
  if this is its last reference, \<^verbatim>\<open>brelse\<close> does not panic, unlocks it and drops one reference; at the last reference the
  buffer moves to the front of the recency list, the order of the others being kept; the logical content of every block
  is unchanged and the invariant holds. Without the lock it panics.
\<close>

theorem brelse_keeps_content:
  "(\<not> holdingsleep (cur_pid s) (b_lock (bufs s b)) \<longrightarrow> brelse b s = Panic ''brelse'') \<and>
   (bc_ok s xs \<and> b < NBUF \<and> holdingsleep (cur_pid s) (b_lock (bufs s b)) \<and>
    (b_refcnt (bufs s b) = 1 \<and> b_valid (bufs s b) \<and> b_dev (bufs s b) = ROOTDEV \<longrightarrow>
       b_data (bufs s b) = disk s (b_blockno (bufs s b))) \<longrightarrow>
    (\<exists>s'. brelse b s = Ok ((), s') \<and>
       bc_ok s' (if b_refcnt (bufs s b) = 1 then b # remove1 b xs else xs) \<and>
       \<not> sl_locked (b_lock (bufs s' b)) \<and> b_refcnt (bufs s' b) = b_refcnt (bufs s b) - 1 \<and>
       (\<forall>n. view s' n = view s n) \<and> disk s' = disk s))"
proof (intro conjI impI; (elim conjE)?)
  assume "\<not> holdingsleep (cur_pid s) (b_lock (bufs s b))"
  then show "brelse b s = Panic ''brelse''" by (simp add: brelse_def)
next
  assume ok: "bc_ok s xs" and b: "b < NBUF" and h: "holdingsleep (cur_pid s) (b_lock (bufs s b))"
    and cl: "b_refcnt (bufs s b) = 1 \<and> b_valid (bufs s b) \<and> b_dev (bufs s b) = ROOTDEV \<longrightarrow>
       b_data (bufs s b) = disk s (b_blockno (bufs s b))"
  from cl have cl': "b_refcnt (bufs s b) = 1 \<Longrightarrow> b_valid (bufs s b) \<Longrightarrow> b_dev (bufs s b) = ROOTDEV \<Longrightarrow>
       b_data (bufs s b) = disk s (b_blockno (bufs s b))" by blast
  obtain s' where s': "brelse b s = Ok ((), s')" "bc_ok s' (if b_refcnt (bufs s b) = 1 then b # remove1 b xs else xs)"
    "\<forall>i < NBUF. core (bufs s' i) = core (if i = b then (bufs s b)\<lparr>b_lock := \<lparr>sl_locked = False, sl_pid = 0\<rparr>,
        b_refcnt := b_refcnt (bufs s b) - 1\<rparr> else bufs s i)"
    "\<forall>n. view s' n = view s n" "disk s' = disk s"
    using brelse_inv [OF ok b h cl'] by metis
  have "core (bufs s' b) = core ((bufs s b)\<lparr>b_lock := \<lparr>sl_locked = False, sl_pid = 0\<rparr>, b_refcnt := b_refcnt (bufs s b) - 1\<rparr>)"
    using s'(3) b by simp
  from core_fields [OF this] show "\<exists>s'. brelse b s = Ok ((), s') \<and>
       bc_ok s' (if b_refcnt (bufs s b) = 1 then b # remove1 b xs else xs) \<and>
       \<not> sl_locked (b_lock (bufs s' b)) \<and> b_refcnt (bufs s' b) = b_refcnt (bufs s b) - 1 \<and>
       (\<forall>n. view s' n = view s n) \<and> disk s' = disk s"
    using s' by (intro exI [of _ s']) simp
qed

theorem brelse_keeps_content_witness:
  "\<exists>b s1 s2. bread ROOTDEV 7 (boot_cache (\<lambda>n _. of_nat n)) = Ok (b, s1) \<and> brelse b s1 = Ok ((), s2) \<and>
     view s2 7 = (\<lambda>_. 7) \<and> \<not> sl_locked (b_lock (bufs s2 b))"
proof -
  let ?d = "\<lambda>n _. of_nat n :: u8" let ?s = "boot_cache ?d"
  note bk = boot_cache_ok [of ?d]
  have fr: "\<exists>i < NBUF. b_refcnt (bufs ?s i) = 0" using bk(4) by (intro exI [of _ 0]) (simp add: param_defs)
  obtain b where pk: "picks (rev [0..<NBUF]) 7 ?s b" using picks_exists [OF bk(1)] fr by blast
  then have b: "b < NBUF" by (simp add: picks_def)
  define s1 where "s1 = ?s\<lparr>bufs := (bufs ?s)(b := loaded b 7 ?s)\<rparr>"
  have run: "bread ROOTDEV 7 ?s = Ok (b, s1)"
    unfolding s1_def using bk(4) b by (intro bread_eq [OF bk(1) pk]) simp
  have inv: "bc_ok s1 (rev [0..<NBUF])" "view s1 n = view ?s n" for n
    using bread_inv [OF bk(1) pk _ s1_def] bk(4) b by simp_all
  have "b_refcnt (bufs ?s b) = 0" using bk(4) b by simp
  then have B: "holdingsleep (cur_pid s1) (b_lock (bufs s1 b))" "b_data (bufs s1 b) = disk s1 (b_blockno (bufs s1 b))"
    by (simp_all add: s1_def loaded_def holdingsleep_def view_boot bk(2))
  obtain s2 where "brelse b s1 = Ok ((), s2)" "\<not> sl_locked (b_lock (bufs s2 b))" "\<forall>n. view s2 n = view s1 n"
    using brelse_keeps_content [of s1 b "rev [0..<NBUF]"] inv(1) b B by auto
  then show ?thesis using run inv(2) view_boot [of ?d 7] by auto
qed

end
