(* ===== verification/Bcache_Spec.thy ===== *)
theory Bcache_Spec
  imports Bio
begin

section \<open>The contract of the buffer cache\<close>

text \<open>
  What the clients of \<^verbatim>\<open>kernel/bio.c\<close> (the log, the file system) rely on, for one thread of control. The client sees
  the logical content \<open>view\<close> of every block, the disk, and two sets of block numbers: the blocks \<open>P\<close> it has pinned and the
  blocks \<open>H\<close> whose buffers it holds locked. \<open>BC s P H\<close> says that the cache is well formed and that its reference
  counts and locks are exactly the ones these sets account for. The locale \<open>block_cache\<close> states the laws of the operations over
  these notions only, with the sequences the log uses proved from the laws; the buffer cache of \<^verbatim>\<open>bio.c\<close> satisfies them.
\<close>

definition in_blocks :: "nat set \<Rightarrow> buf \<Rightarrow> bool" where
  "in_blocks X b \<longleftrightarrow> b_dev b = ROOTDEV \<and> b_blockno b \<in> X"

definition BC :: "'a bcache_scheme \<Rightarrow> nat set \<Rightarrow> nat set \<Rightarrow> bool" where
  "BC s P H \<longleftrightarrow>
     (\<exists>xs. bc_ok s xs) \<and> finite P \<and> finite H \<and>
     (\<forall>i < NBUF. b_refcnt (bufs s i) = of_bool (in_blocks P (bufs s i)) + of_bool (in_blocks H (bufs s i))) \<and>
     (\<forall>i < NBUF. sl_locked (b_lock (bufs s i)) = in_blocks H (bufs s i)) \<and>
     (\<forall>i < NBUF. in_blocks H (bufs s i) \<longrightarrow> sl_pid (b_lock (bufs s i)) = cur_pid s) \<and>
     (\<forall>n \<in> P \<union> H. \<exists>i < NBUF. is_block n (bufs s i) \<and> b_valid (bufs s i))"

definition bc_rest :: "'a bcache_scheme \<Rightarrow> int \<times> 'a" where
  "bc_rest s = (cur_pid s, bcache.more s)"

definition buf_data :: "'a bcache_scheme \<Rightarrow> nat \<Rightarrow> block" where
  "buf_data s b = b_data (bufs s b)"

definition set_data :: "nat \<Rightarrow> block \<Rightarrow> 'a bcache_scheme \<Rightarrow> 'a bcache_scheme" where
  "set_data b d s = upd_buf b (\<lambda>x. x\<lparr>b_data := d\<rparr>) s"

lemma in_blocks_block [simp]: "is_block n b \<Longrightarrow> in_blocks X b \<longleftrightarrow> n \<in> X"
  by (auto simp: in_blocks_def is_block_def)

lemma in_blocks_core [simp]: "in_blocks X (core b) = in_blocks X b"
  by (simp add: in_blocks_def)

lemma in_blocks_links [simp]: "in_blocks X (b\<lparr>b_lock := l\<rparr>) = in_blocks X b" "in_blocks X (b\<lparr>b_refcnt := r\<rparr>) = in_blocks X b"
    "in_blocks X (b\<lparr>b_data := d\<rparr>) = in_blocks X b"
  by (simp_all add: in_blocks_def)

lemma in_blocksD: "in_blocks X b \<Longrightarrow> \<exists>n \<in> X. is_block n b"
  by (auto simp: in_blocks_def is_block_def)

lemma BC_facts:
  assumes "BC s P H"
  shows "finite P" "finite H"
    "\<forall>i < NBUF. b_refcnt (bufs s i) = of_bool (in_blocks P (bufs s i)) + of_bool (in_blocks H (bufs s i))"
    "\<forall>i < NBUF. sl_locked (b_lock (bufs s i)) = in_blocks H (bufs s i)"
    "\<forall>i < NBUF. in_blocks H (bufs s i) \<longrightarrow> sl_pid (b_lock (bufs s i)) = cur_pid s"
    "\<forall>n \<in> P \<union> H. \<exists>i < NBUF. is_block n (bufs s i) \<and> b_valid (bufs s i)"
  using assms unfolding BC_def by blast+

lemma BC_ok: "BC s P H \<Longrightarrow> \<exists>xs. bc_ok s xs"
  by (simp add: BC_def)

lemma BC_handle:
  assumes "BC s P H" "n \<in> P \<union> H"
  obtains b where "cached s n = Some b" "b < NBUF" "is_block n (bufs s b)" "b_valid (bufs s b)"
    "buf_data s b = view s n"
proof -
  obtain xs where xs: "bc_ok s xs" using BC_ok [OF assms(1)] by blast
  obtain b where b: "b < NBUF" "is_block n (bufs s b)" "b_valid (bufs s b)"
    using BC_facts(6) [OF assms(1)] assms(2) by blast
  show thesis using that [OF cached_Some [OF xs b(1,2)] b] view_cached [OF xs b(1,2)] b(3) by (simp add: buf_data_def)
qed

lemma BC_buf:
  assumes "BC s P H" "n \<in> P \<union> H" "cached s n = Some b"
  shows "b < NBUF" "is_block n (bufs s b)" "b_valid (bufs s b)" "buf_data s b = view s n"
  using BC_handle [OF assms(1,2)] assms(3) by (metis option.inject)+

subsection \<open>The laws\<close>

lemma BC_free_buffer:
  assumes bc: "BC s P H" and n: "n \<in> P \<or> card (P \<union> H) < NBUF"
  shows "(\<exists>i < NBUF. is_block n (bufs s i)) \<or> (\<exists>i < NBUF. b_refcnt (bufs s i) = 0)"
proof (cases "n \<in> P")
  case True
  then show ?thesis using BC_handle [OF bc, of n] by blast
next
  case False
  obtain xs where "bc_ok s xs" using BC_ok [OF bc] by blast
  note d = this BC_facts [OF bc]
  have "\<exists>i < NBUF. \<not> in_blocks (P \<union> H) (bufs s i)"
  proof (rule ccontr)
    assume "\<not> ?thesis"
    then have all: "\<forall>i < NBUF. in_blocks (P \<union> H) (bufs s i)" by blast
    have "inj_on (\<lambda>i. b_blockno (bufs s i)) {..<NBUF}"
      using bc_okD(3) [OF d(1)] all by (intro inj_onI) (auto simp: in_blocks_def is_block_def)
    moreover have "(\<lambda>i. b_blockno (bufs s i)) ` {..<NBUF} \<subseteq> P \<union> H" using all by (auto simp: in_blocks_def)
    ultimately have "card {..<NBUF} \<le> card (P \<union> H)" using d(2,3) by (metis card_image card_mono finite_UnI)
    then show False using n False by simp
  qed
  then obtain i where i: "i < NBUF" "\<not> in_blocks (P \<union> H) (bufs s i)" by blast
  then have "b_refcnt (bufs s i) = 0" using d(4) by (auto simp: in_blocks_def)
  then show ?thesis using i(1) by blast
qed

lemma BC_bread:
  assumes bc: "BC s P H" and n: "n \<notin> H" "n \<in> P \<or> card (P \<union> H) < NBUF"
  shows "\<exists>b s'. bread ROOTDEV n s = Ok (b, s') \<and> BC s' P (insert n H) \<and> cached s' n = Some b \<and>
    (\<forall>m \<in> P \<union> H. cached s' m = cached s m) \<and> view s' = view s \<and> disk s' = disk s \<and> dwrites s' = dwrites s \<and>
    bc_rest s' = bc_rest s"
proof -
  obtain xs where "bc_ok s xs" using BC_ok [OF bc] by blast
  note d = this BC_facts [OF bc]
  obtain b where pk: "picks xs n s b" using picks_exists [OF d(1) BC_free_buffer [OF bc n(2)]] by blast
  then have b: "b < NBUF" by (simp add: picks_def)
  have free: "\<not> in_blocks H (bufs s b) \<and> (in_blocks P (bufs s b) \<longrightarrow> is_block n (bufs s b))"
  proof (cases "is_block n (bufs s b)")
    case True
    then show ?thesis using n(1) by simp
  next
    case False
    then have "b_refcnt (bufs s b) = 0" using picks_free [OF d(1) pk] by blast
    then show ?thesis using d(4) b by (auto simp: of_bool_def split: if_splits)
  qed
  define s' where "s' = s\<lparr>bufs := (bufs s)(b := loaded b n s)\<rparr>"
  have ov: "b_refcnt (bufs s b) \<noteq> - 1" using d(4) b free by simp
  note run = bread_eq [OF d(1) pk] and inv = bread_inv [OF d(1) pk ov s'_def]
  have L: "is_block n (loaded b n s)" "b_refcnt (loaded b n s) = b_refcnt (bufs s b) + 1"
    "sl_locked (b_lock (loaded b n s))" "sl_pid (b_lock (loaded b n s)) = cur_pid s" "b_valid (loaded b n s)"
    by (simp_all add: loaded_def is_block_def)
  have bf: "bufs s' i = (if i = b then loaded b n s else bufs s i)" for i by (simp add: s'_def)
  have oth: "in_blocks (insert n H) (bufs s i) = in_blocks H (bufs s i)" if "i < NBUF" "i \<noteq> b" for i
  proof -
    have "\<not> is_block n (bufs s i)" using bc_okD(3) [OF d(1) that(1) b] picks_free(2) [OF d(1) pk] that by blast
    then show ?thesis by (auto simp: in_blocks_def is_block_def)
  qed
  have rp: "b_refcnt (bufs s b) = of_bool (n \<in> P)"
  proof (cases "is_block n (bufs s b)")
    case True
    then show ?thesis using d(4) b free by simp
  next
    case False
    then have "\<forall>i < NBUF. \<not> is_block n (bufs s i)" "b_refcnt (bufs s b) = 0" using picks_free [OF d(1) pk] by blast+
    then show ?thesis using d(7) by auto
  qed
  have "\<exists>i < NBUF. is_block m (bufs s' i) \<and> b_valid (bufs s' i)" if m: "m \<in> P \<union> insert n H" for m
  proof (cases "m = n")
    case True
    then show ?thesis using L b by (intro exI [of _ b]) (simp add: bf)
  next
    case False
    then obtain i where i: "i < NBUF" "is_block m (bufs s i)" "b_valid (bufs s i)" using d(7) m by blast
    then have "i \<noteq> b" using free False m by (auto simp: is_block_def in_blocks_def)
    then show ?thesis using i by (intro exI [of _ i]) (simp add: bf)
  qed
  then have BC': "BC s' P (insert n H)"
    unfolding BC_def using inv(1) d(2-6) L rp oth by (auto simp: bf s'_def)
  have "cached s' m = cached s m" if m: "m \<in> P \<union> H" for m
  proof -
    obtain i where i: "cached s m = Some i" "i < NBUF" "is_block m (bufs s i)" using BC_handle [OF bc m] by blast
    have "is_block m (bufs s' i)"
      using i(3) free m L(1) by (cases "i = b") (auto simp: bf is_block_def in_blocks_def)
    then show ?thesis using cached_Some [OF inv(1) i(2)] i(1) by simp
  qed
  moreover have "cached s' n = Some b" using cached_Some [OF inv(1) b] L by (simp add: bf)
  moreover have "bread ROOTDEV n s = Ok (b, s')" using run d(5) b free unfolding s'_def by blast
  ultimately show ?thesis using BC' inv(2) by (auto simp: fun_eq_iff s'_def bc_rest_def)
qed

lemma BC_set_data:
  assumes bc: "BC s P H" and n: "n \<in> H" "cached s n = Some b"
  shows "BC (set_data b d s) P H \<and> cached (set_data b d s) = cached s \<and> view (set_data b d s) = (view s)(n := d) \<and>
    disk (set_data b d s) = disk s \<and> dwrites (set_data b d s) = dwrites s \<and> bc_rest (set_data b d s) = bc_rest s"
proof -
  obtain xs where "bc_ok s xs" using BC_ok [OF bc] by blast
  note c = this BC_facts [OF bc]
  have "n \<in> P \<union> H" using n by simp
  note b = BC_buf [OF bc this n(2)]
  have "b_refcnt (bufs s b) \<noteq> 0" using bc_okD(5) [OF c(1) b(1)] c(5) b(1,2) n(1) by simp
  note inv = set_data_inv [OF c(1) b(1-3) this set_data_def]
  have blk: "is_block m (bufs (set_data b d s) i) = is_block m (bufs s i)" for m i by (simp add: set_data_def is_block_def)
  have f: "b_refcnt (bufs (set_data b d s) i) = b_refcnt (bufs s i)" "b_lock (bufs (set_data b d s) i) = b_lock (bufs s i)"
    "b_valid (bufs (set_data b d s) i) = b_valid (bufs s i)" "cur_pid (set_data b d s) = cur_pid s"
    "in_blocks X (bufs (set_data b d s) i) = in_blocks X (bufs s i)" for i X
    by (simp_all add: set_data_def)
  have "BC (set_data b d s) P H"
    unfolding BC_def blk f using inv(1) c by blast
  moreover have "cached (set_data b d s) = cached s" unfolding cached_def fun_eq_iff blk by simp
  ultimately show ?thesis using inv(2) by (auto simp: fun_eq_iff bc_rest_def set_data_def)
qed

lemma BC_bwrite:
  assumes bc: "BC s P H" and n: "n \<in> H" "cached s n = Some b"
  shows "\<exists>s'. bwrite b s = Ok ((), s') \<and> BC s' P H \<and> cached s' = cached s \<and> view s' = view s \<and>
    disk s' = (disk s)(n := view s n) \<and> dwrites s' = dwrites s @ [(n, view s n)] \<and> bc_rest s' = bc_rest s"
proof -
  obtain xs where "bc_ok s xs" using BC_ok [OF bc] by blast
  note c = this BC_facts [OF bc]
  have "n \<in> P \<union> H" using n by simp
  note b = BC_buf [OF bc this n(2)]
  have "holdingsleep (cur_pid s) (b_lock (bufs s b))" using c(5,6) b(1,2) n(1) by (simp add: holdingsleep_def)
  from bwrite_inv [OF c(1) b(1-3) this] obtain s' where s': "bwrite b s = Ok ((), s')"
    "s' = s\<lparr>disk := (disk s)(n := b_data (bufs s b)), dwrites := dwrites s @ [(n, b_data (bufs s b))]\<rparr>"
    "bc_ok s' xs" "\<forall>n. view s' n = view s n" by blast
  have "BC s' P H" unfolding BC_def using s'(3) c(2-7) by (auto simp: s'(2))
  moreover have "cached s' = cached s" by (simp add: s'(2) cached_def fun_eq_iff)
  ultimately show ?thesis using s' b(4) by (intro exI [of _ s']) (simp add: fun_eq_iff bc_rest_def buf_data_def)
qed

lemma BC_brelse:
  assumes bc: "BC s P H" and n: "n \<in> H" "cached s n = Some b" and clean: "n \<in> P \<or> view s n = disk s n"
  shows "\<exists>s'. brelse b s = Ok ((), s') \<and> BC s' P (H - {n}) \<and> cached s' = cached s \<and> view s' = view s \<and>
    disk s' = disk s \<and> dwrites s' = dwrites s \<and> bc_rest s' = bc_rest s"
proof -
  obtain xs where "bc_ok s xs" using BC_ok [OF bc] by blast
  note c = this BC_facts [OF bc]
  have "n \<in> P \<union> H" using n by simp
  note b = BC_buf [OF bc this n(2)]
  have held: "holdingsleep (cur_pid s) (b_lock (bufs s b))" using c(5,6) b(1,2) n(1) by (simp add: holdingsleep_def)
  have r: "b_refcnt (bufs s b) = of_bool (n \<in> P) + 1" using c(4) b(1,2) n(1) by simp
  have cl: "b_data (bufs s b) = disk s (b_blockno (bufs s b))" if "b_refcnt (bufs s b) = 1"
    using r that clean b(2,4) by (auto simp: buf_data_def is_block_def of_bool_def split: if_splits)
  obtain s' where s': "brelse b s = Ok ((), s')" "bc_ok s' (if b_refcnt (bufs s b) = 1 then b # remove1 b xs else xs)"
    "\<forall>i < NBUF. core (bufs s' i) = core (if i = b then (bufs s b)\<lparr>b_lock := \<lparr>sl_locked = False, sl_pid = 0\<rparr>,
        b_refcnt := b_refcnt (bufs s b) - 1\<rparr> else bufs s i)"
    "\<forall>n. view s' n = view s n" "disk s' = disk s" "dwrites s' = dwrites s" "cur_pid s' = cur_pid s"
    "bcache.more s' = bcache.more s"
    using brelse_inv [OF c(1) b(1) held cl] by metis
  let ?B = "\<lambda>i. if i = b then (bufs s b)\<lparr>b_lock := \<lparr>sl_locked = False, sl_pid = 0\<rparr>, b_refcnt := b_refcnt (bufs s b) - 1\<rparr> else bufs s i"
  have fields: "b_valid (bufs s' i) = b_valid (?B i)" "b_lock (bufs s' i) = b_lock (?B i)"
    "b_refcnt (bufs s' i) = b_refcnt (?B i)" "is_block m (bufs s' i) = is_block m (bufs s i)"
    "in_blocks X (bufs s' i) = in_blocks X (bufs s i)" if "i < NBUF" for i m X
  proof -
    have e: "core (bufs s' i) = core (?B i)" using s'(3) that by blast
    show "b_valid (bufs s' i) = b_valid (?B i)" "b_lock (bufs s' i) = b_lock (?B i)"
      "b_refcnt (bufs s' i) = b_refcnt (?B i)" using core_fields [OF e] by blast+
    show "is_block m (bufs s' i) = is_block m (bufs s i)" using core_fields [OF e, of m] by (simp add: is_block_def split: if_splits)
    show "in_blocks X (bufs s' i) = in_blocks X (bufs s i)"
      using core_fields [OF e] by (simp add: in_blocks_def split: if_splits)
  qed
  have oth: "in_blocks (H - {n}) (bufs s i) = (i \<noteq> b \<and> in_blocks H (bufs s i))" if "i < NBUF" for i
    using bc_okD(3) [OF c(1) that b(1) _ b(2)] b(2) by (auto simp: in_blocks_def is_block_def)
  have "BC s' P (H - {n})"
    unfolding BC_def
  proof (intro conjI allI impI ballI)
    show "\<exists>xs. bc_ok s' xs" using s'(2) by blast
    fix i assume i: "i < NBUF"
    show "b_refcnt (bufs s' i) = of_bool (in_blocks P (bufs s' i)) + of_bool (in_blocks (H - {n}) (bufs s' i))"
      using fields [OF i] oth [OF i] c(4) i r b(2) by (cases "i = b") simp_all
    show "sl_locked (b_lock (bufs s' i)) = in_blocks (H - {n}) (bufs s' i)"
      using fields [OF i] oth [OF i] c(5) i by (cases "i = b") simp_all
    show "sl_pid (b_lock (bufs s' i)) = cur_pid s'" if "in_blocks (H - {n}) (bufs s' i)"
      using fields [OF i] oth [OF i] c(6) i s'(7) that by (cases "i = b") simp_all
  next
    fix m assume "m \<in> P \<union> (H - {n})"
    then obtain i where "i < NBUF" "is_block m (bufs s i)" "b_valid (bufs s i)" using c(7) by blast
    then show "\<exists>i < NBUF. is_block m (bufs s' i) \<and> b_valid (bufs s' i)" using fields by (intro exI [of _ i]) (cases "i = b"; simp)
  qed (use c in simp_all)
  moreover have "cached s' m = cached s m" for m unfolding cached_def using fields(4) by (intro find_cong) simp_all
  ultimately show ?thesis using s' by (intro exI [of _ s']) (simp add: fun_eq_iff bc_rest_def)
qed

lemma BC_bpin:
  assumes bc: "BC s P H" and n: "n \<in> H" "n \<notin> P" "cached s n = Some b"
  shows "BC (bpin b s) (insert n P) H \<and> cached (bpin b s) = cached s \<and> view (bpin b s) = view s \<and>
    disk (bpin b s) = disk s \<and> dwrites (bpin b s) = dwrites s \<and> bc_rest (bpin b s) = bc_rest s"
proof -
  obtain xs where "bc_ok s xs" using BC_ok [OF bc] by blast
  note c = this BC_facts [OF bc]
  have "n \<in> P \<union> H" using n by simp
  note b = BC_buf [OF bc this n(3)]
  have "b_refcnt (bufs s b) = 1" using c(4) b(1,2) n by simp
  then have "b_refcnt (bufs s b) \<noteq> - 1" by simp
  note inv = bpin_inv [OF c(1) b(1) this refl]
  have f: "b_lock (bufs (bpin b s) i) = b_lock (bufs s i)" "b_valid (bufs (bpin b s) i) = b_valid (bufs s i)"
    "cur_pid (bpin b s) = cur_pid s" "in_blocks X (bufs (bpin b s) i) = in_blocks X (bufs s i)"
    "is_block m (bufs (bpin b s) i) = is_block m (bufs s i)" for i X m
    by (simp_all add: bpin_def is_block_def)
  have ins: "in_blocks (insert n P) (bufs s i) = (i = b \<or> in_blocks P (bufs s i))" if "i < NBUF" for i
    using bc_okD(3) [OF c(1) that b(1) _ b(2)] b(2) by (auto simp: in_blocks_def is_block_def)
  have r: "b_refcnt (bufs (bpin b s) i) = of_bool (in_blocks (insert n P) (bufs s i)) + of_bool (in_blocks H (bufs s i))"
    if "i < NBUF" for i
    using ins [OF that] c(4) that b(2) n by (cases "i = b") (simp_all add: bpin_def)
  have v: "\<forall>m \<in> insert n P \<union> H. \<exists>i < NBUF. is_block m (bufs s i) \<and> b_valid (bufs s i)" using c(7) n(1) by blast
  have "BC (bpin b s) (insert n P) H"
    unfolding BC_def f using inv(1) c r v by blast
  moreover have "cached (bpin b s) = cached s" unfolding cached_def fun_eq_iff f by simp
  ultimately show ?thesis using inv(2) by (auto simp: fun_eq_iff bc_rest_def bpin_def)
qed

lemma BC_bunpin:
  assumes bc: "BC s P H" and n: "n \<in> H" "n \<in> P" "cached s n = Some b"
  shows "BC (bunpin b s) (P - {n}) H \<and> cached (bunpin b s) = cached s \<and> view (bunpin b s) = view s \<and>
    disk (bunpin b s) = disk s \<and> dwrites (bunpin b s) = dwrites s \<and> bc_rest (bunpin b s) = bc_rest s"
proof -
  obtain xs where "bc_ok s xs" using BC_ok [OF bc] by blast
  note c = this BC_facts [OF bc]
  have "n \<in> P \<union> H" using n by simp
  note b = BC_buf [OF bc this n(3)]
  have "b_refcnt (bufs s b) = 2" using c(4) b(1,2) n by simp
  then have "b_refcnt (bufs s b) \<noteq> 1" by simp
  note inv = bunpin_inv [OF c(1) b(1) this refl]
  have f: "b_lock (bufs (bunpin b s) i) = b_lock (bufs s i)" "b_valid (bufs (bunpin b s) i) = b_valid (bufs s i)"
    "cur_pid (bunpin b s) = cur_pid s" "in_blocks X (bufs (bunpin b s) i) = in_blocks X (bufs s i)"
    "is_block m (bufs (bunpin b s) i) = is_block m (bufs s i)" for i X m
    by (simp_all add: bunpin_def is_block_def)
  have del: "in_blocks (P - {n}) (bufs s i) = (i \<noteq> b \<and> in_blocks P (bufs s i))" if "i < NBUF" for i
    using bc_okD(3) [OF c(1) that b(1) _ b(2)] b(2) by (auto simp: in_blocks_def is_block_def)
  have r: "b_refcnt (bufs (bunpin b s) i) = of_bool (in_blocks (P - {n}) (bufs s i)) + of_bool (in_blocks H (bufs s i))"
    if "i < NBUF" for i
    using del [OF that] c(4) that b(2) n by (cases "i = b") (simp_all add: bunpin_def)
  have v: "\<forall>m \<in> P - {n} \<union> H. \<exists>i < NBUF. is_block m (bufs s i) \<and> b_valid (bufs s i)" using c(7) by blast
  have "BC (bunpin b s) (P - {n}) H"
    unfolding BC_def f using inv(1) c r v by blast
  moreover have "cached (bunpin b s) = cached s" unfolding cached_def fun_eq_iff f by simp
  ultimately show ?thesis using inv(2) by (auto simp: fun_eq_iff bc_rest_def bunpin_def)
qed

lemma BC_clean:
  assumes bc: "BC s P H" and n: "n \<notin> P" "n \<notin> H"
  shows "view s n = disk s n"
proof (cases "\<exists>i < NBUF. is_block n (bufs s i)")
  case True
  obtain xs where "bc_ok s xs" using BC_ok [OF bc] by blast
  note c = this BC_facts [OF bc]
  obtain i where i: "i < NBUF" "is_block n (bufs s i)" using True by blast
  then have "b_refcnt (bufs s i) = 0" using c(4) n by simp
  then show ?thesis using view_cached [OF c(1) i] bc_okD(4) [OF c(1) i(1) _ _ i(2)] by simp
next
  case False
  then show ?thesis by (intro view_uncached) blast
qed

text \<open>The notions depend on the cache fields only, not on what a client adds to the state.\<close>

lemma cache_cong:
  fixes s :: "'a bcache_scheme" and s' :: "'b bcache_scheme"
  assumes "bufs s' = bufs s" "disk s' = disk s" "cur_pid s' = cur_pid s"
  shows "BC s' = BC s" "view s' = view s" "cached s' = cached s"
proof -
  show c: "cached s' = cached s" by (simp add: fun_eq_iff cached_def assms)
  show "view s' = view s" unfolding fun_eq_iff view_def c assms by simp
  show "BC s' = BC s" by (simp add: fun_eq_iff BC_def bc_ok_def assms)
qed

lemma BC_boot: "BC (boot_cache d) {} {}"
  using boot_cache_ok [of d] by (auto simp: BC_def in_blocks_def)

subsection \<open>The interface\<close>

text \<open>
  The laws as an interface: \<open>st\<close> is \<open>BC\<close>, \<open>vw\<close> the logical content, \<open>dk\<close> the disk, \<open>wl\<close> the completed writes, \<open>hnd\<close> the buffer of a
  block, \<open>rest\<close> what no cache operation changes. The two client lemmas are the bodies of the loops of
  \<^verbatim>\<open>write_log\<close> and \<^verbatim>\<open>install_trans\<close>.
\<close>

locale block_cache =
  fixes st :: "'s \<Rightarrow> nat set \<Rightarrow> nat set \<Rightarrow> bool" and vw dk :: "'s \<Rightarrow> nat \<Rightarrow> block" and wl :: "'s \<Rightarrow> (nat \<times> block) list"
    and hnd :: "'s \<Rightarrow> nat \<Rightarrow> nat option" and rest :: "'s \<Rightarrow> 'r" and dat :: "'s \<Rightarrow> nat \<Rightarrow> block"
    and rd :: "nat \<Rightarrow> 's \<Rightarrow> (nat \<times> 's) kres" and upd :: "nat \<Rightarrow> block \<Rightarrow> 's \<Rightarrow> 's"
    and wrt rel :: "nat \<Rightarrow> 's \<Rightarrow> (unit \<times> 's) kres" and pin unpin :: "nat \<Rightarrow> 's \<Rightarrow> 's"
  assumes rd_law: "st s P H \<Longrightarrow> n \<notin> H \<Longrightarrow> n \<in> P \<or> card (P \<union> H) < NBUF \<Longrightarrow>
      \<exists>b s'. rd n s = Ok (b, s') \<and> st s' P (insert n H) \<and> hnd s' n = Some b \<and>
        (\<forall>m \<in> P \<union> H. hnd s' m = hnd s m) \<and> vw s' = vw s \<and> dk s' = dk s \<and> wl s' = wl s \<and> rest s' = rest s"
    and dat_law: "st s P H \<Longrightarrow> n \<in> P \<union> H \<Longrightarrow> hnd s n = Some b \<Longrightarrow> dat s b = vw s n"
    and upd_law: "st s P H \<Longrightarrow> n \<in> H \<Longrightarrow> hnd s n = Some b \<Longrightarrow>
      st (upd b d s) P H \<and> hnd (upd b d s) = hnd s \<and> vw (upd b d s) = (vw s)(n := d) \<and>
      dk (upd b d s) = dk s \<and> wl (upd b d s) = wl s \<and> rest (upd b d s) = rest s"
    and wrt_law: "st s P H \<Longrightarrow> n \<in> H \<Longrightarrow> hnd s n = Some b \<Longrightarrow>
      \<exists>s'. wrt b s = Ok ((), s') \<and> st s' P H \<and> hnd s' = hnd s \<and> vw s' = vw s \<and>
        dk s' = (dk s)(n := vw s n) \<and> wl s' = wl s @ [(n, vw s n)] \<and> rest s' = rest s"
    and rel_law: "st s P H \<Longrightarrow> n \<in> H \<Longrightarrow> hnd s n = Some b \<Longrightarrow> n \<in> P \<or> vw s n = dk s n \<Longrightarrow>
      \<exists>s'. rel b s = Ok ((), s') \<and> st s' P (H - {n}) \<and> hnd s' = hnd s \<and> vw s' = vw s \<and>
        dk s' = dk s \<and> wl s' = wl s \<and> rest s' = rest s"
    and pin_law: "st s P H \<Longrightarrow> n \<in> H \<Longrightarrow> n \<notin> P \<Longrightarrow> hnd s n = Some b \<Longrightarrow>
      st (pin b s) (insert n P) H \<and> hnd (pin b s) = hnd s \<and> vw (pin b s) = vw s \<and>
      dk (pin b s) = dk s \<and> wl (pin b s) = wl s \<and> rest (pin b s) = rest s"
    and unpin_law: "st s P H \<Longrightarrow> n \<in> H \<Longrightarrow> n \<in> P \<Longrightarrow> hnd s n = Some b \<Longrightarrow>
      st (unpin b s) (P - {n}) H \<and> hnd (unpin b s) = hnd s \<and> vw (unpin b s) = vw s \<and>
      dk (unpin b s) = dk s \<and> wl (unpin b s) = wl s \<and> rest (unpin b s) = rest s"
    and clean_law: "st s P H \<Longrightarrow> n \<notin> P \<Longrightarrow> n \<notin> H \<Longrightarrow> vw s n = dk s n"
begin

text \<open>Read two blocks, the second possibly pinned.\<close>

lemma read_two:
  assumes "st s P {}" "m \<noteq> n" "m \<notin> P" "n \<in> P \<or> card P + 1 < NBUF" "card P < NBUF" "finite P"
  shows "\<exists>x s1 y s2. rd m s = Ok (x, s1) \<and> rd n s1 = Ok (y, s2) \<and> st s2 P {m, n} \<and> hnd s2 m = Some x \<and>
    hnd s2 n = Some y \<and> vw s2 = vw s \<and> dk s2 = dk s \<and> wl s2 = wl s \<and> rest s2 = rest s"
proof -
  obtain x s1 where 1: "rd m s = Ok (x, s1)" "st s1 P {m}" "hnd s1 m = Some x" "vw s1 = vw s" "dk s1 = dk s" "wl s1 = wl s"
    "rest s1 = rest s" using rd_law [OF assms(1), of m] assms(5) by auto
  have "n \<in> P \<or> card (P \<union> {m}) < NBUF" using assms(3,4,6) by simp
  then obtain y s2 where 2: "rd n s1 = Ok (y, s2)" "st s2 P {n, m}" "hnd s2 n = Some y" "\<forall>k \<in> P \<union> {m}. hnd s2 k = hnd s1 k"
    "vw s2 = vw s1" "dk s2 = dk s1" "wl s2 = wl s1" "rest s2 = rest s1" using rd_law [OF 1(2), of n] assms(2) by auto
  show ?thesis using 1 2 by (intro exI [of _ x] exI [of _ s1] exI [of _ y] exI [of _ s2]) (simp add: insert_commute)
qed

text \<open>\<^verbatim>\<open>write_log\<close>: copy the cached block \<open>n\<close> to the log block \<open>m\<close> and write it.\<close>

lemma copy_to_log:
  assumes "st s P {}" "m \<noteq> n" "m \<notin> P" "n \<in> P" "card P < NBUF" "finite P"
  shows "\<exists>s'. kbind (rd m s) (\<lambda>(x, s1). kbind (rd n s1) (\<lambda>(y, s2). kbind (wrt x (upd x (dat s2 y) s2)) (\<lambda>(_, s3).
      kbind (rel y s3) (\<lambda>(_, s4). rel x s4)))) = Ok ((), s') \<and> st s' P {} \<and> vw s' = (vw s)(m := vw s n) \<and>
      dk s' = (dk s)(m := vw s n) \<and> wl s' = wl s @ [(m, vw s n)] \<and> rest s' = rest s"
proof -
  obtain x s1 y s2 where r: "rd m s = Ok (x, s1)" "rd n s1 = Ok (y, s2)" "st s2 P {m, n}" "hnd s2 m = Some x"
    "hnd s2 n = Some y" "vw s2 = vw s" "dk s2 = dk s" "wl s2 = wl s" "rest s2 = rest s"
    using read_two [OF assms(1-3)] assms(4-6) by blast
  have d: "dat s2 y = vw s n" using dat_law [OF r(3) _ r(5)] r(6) by simp
  let ?s3 = "upd x (vw s n) s2"
  have u: "st ?s3 P {m, n}" "hnd ?s3 = hnd s2" "vw ?s3 = (vw s)(m := vw s n)" "dk ?s3 = dk s" "wl ?s3 = wl s" "rest ?s3 = rest s"
    using upd_law [OF r(3) _ r(4), of "vw s n"] r(6-9) by simp_all
  obtain s4 where w: "wrt x ?s3 = Ok ((), s4)" "st s4 P {m, n}" "hnd s4 = hnd s2" "vw s4 = (vw s)(m := vw s n)"
    "dk s4 = (dk s)(m := vw s n)" "wl s4 = wl s @ [(m, vw s n)]" "rest s4 = rest s"
    using wrt_law [OF u(1), of m x] u r(4) by auto
  obtain s5 where q: "rel y s4 = Ok ((), s5)" "st s5 P ({m, n} - {n})" "hnd s5 = hnd s4" "vw s5 = vw s4" "dk s5 = dk s4"
    "wl s5 = wl s4" "rest s5 = rest s4" using rel_law [OF w(2), of n y] w(3) r(5) assms(4) by auto
  have "{m, n} - {n} = {m}" using assms(2) by blast
  then obtain s6 where e: "rel x s5 = Ok ((), s6)" "st s6 P {}" "vw s6 = vw s5" "dk s6 = dk s5" "wl s6 = wl s5" "rest s6 = rest s5"
    using rel_law [of s5 P "{m}" m x] q w r(4) by auto
  show ?thesis using r d u w q e by (intro exI [of _ s6]) simp
qed

text \<open>\<^verbatim>\<open>install_trans\<close>: copy the log block \<open>m\<close> to its home \<open>n\<close>, write it, and unpin it after a commit.\<close>

lemma copy_home:
  assumes "st s P {}" "m \<noteq> n" "m \<notin> P" "if u then n \<in> P else P = {}" "card P < NBUF" "finite P"
  shows "\<exists>s'. kbind (rd m s) (\<lambda>(x, s1). kbind (rd n s1) (\<lambda>(y, s2). kbind (wrt y (upd y (dat s2 x) s2)) (\<lambda>(_, s3).
      kbind (rel x (if u then unpin y s3 else s3)) (\<lambda>(_, s4). rel y s4)))) = Ok ((), s') \<and>
      st s' (if u then P - {n} else P) {} \<and> vw s' = (vw s)(n := vw s m) \<and>
      dk s' = (dk s)(n := vw s m) \<and> wl s' = wl s @ [(n, vw s m)] \<and> rest s' = rest s"
proof -
  have "n \<in> P \<or> card P + 1 < NBUF" using assms(4,5) by (cases u) (auto simp: param_defs)
  then obtain x s1 y s2 where r: "rd m s = Ok (x, s1)" "rd n s1 = Ok (y, s2)" "st s2 P {m, n}" "hnd s2 m = Some x"
    "hnd s2 n = Some y" "vw s2 = vw s" "dk s2 = dk s" "wl s2 = wl s" "rest s2 = rest s"
    using read_two [OF assms(1-3)] assms(5,6) by blast
  have d: "dat s2 x = vw s m" using dat_law [OF r(3) _ r(4)] r(6) by simp
  let ?s3 = "upd y (vw s m) s2"
  have u: "st ?s3 P {m, n}" "hnd ?s3 = hnd s2" "vw ?s3 = (vw s)(n := vw s m)" "dk ?s3 = dk s" "wl ?s3 = wl s" "rest ?s3 = rest s"
    using upd_law [OF r(3) _ r(5), of "vw s m"] r(6-9) by simp_all
  obtain s4 where w: "wrt y ?s3 = Ok ((), s4)" "st s4 P {m, n}" "hnd s4 = hnd s2" "vw s4 = (vw s)(n := vw s m)"
    "dk s4 = (dk s)(n := vw s m)" "wl s4 = wl s @ [(n, vw s m)]" "rest s4 = rest s"
    using wrt_law [OF u(1), of n y] u r(5) by auto
  let ?P = "if u then P - {n} else P" let ?s5 = "if u then unpin y s4 else s4"
  have p: "st ?s5 ?P {m, n}" "hnd ?s5 = hnd s2" "vw ?s5 = vw s4" "dk ?s5 = dk s4" "wl ?s5 = wl s4" "rest ?s5 = rest s4"
    using unpin_law [OF w(2), of n y] w r(5) assms(4) by (cases u; simp)+
  have "vw s m = dk s m" using clean_law [OF assms(1,3)] by simp
  then have "vw ?s5 m = dk ?s5 m" "vw ?s5 n = dk ?s5 n" using p(3,4) w(4,5) assms(2) by simp_all
  note c = this
  obtain s6 where q: "rel x ?s5 = Ok ((), s6)" "st s6 ?P ({m, n} - {m})" "hnd s6 = hnd ?s5" "vw s6 = vw ?s5" "dk s6 = dk ?s5"
    "wl s6 = wl ?s5" "rest s6 = rest ?s5" using rel_law [OF p(1), of m x] p(2) r(4) c(1) by auto
  have "{m, n} - {m} = {n}" using assms(2) by blast
  then obtain s7 where e: "rel y s6 = Ok ((), s7)" "st s7 ?P {}" "vw s7 = vw s6" "dk s7 = dk s6" "wl s7 = wl s6" "rest s7 = rest s6"
    using rel_law [of s6 ?P "{n}" n y] q p(2) r(5) c(2) by auto
  show ?thesis using r d u w p q e by (intro exI [of _ s7]) simp
qed

end

interpretation bc: block_cache BC view disk dwrites cached bc_rest buf_data "bread ROOTDEV" set_data bwrite brelse bpin bunpin
  by unfold_locales (rule BC_bread BC_buf(4) BC_set_data BC_bwrite BC_brelse BC_bpin BC_bunpin BC_clean; assumption)+

end
