(* ===== verification/Fslog.thy ===== *)
theory Fslog
  imports Bcache_Spec
begin

section \<open>kernel/log.c: the write-ahead log\<close>

text \<open>
  The log on top of the buffer cache: \<open>logst\<close> extends the cache state by the fields of \<^verbatim>\<open>struct log\<close>. Sections under
  \<^verbatim>\<open>log.lock\<close> are atomic, and \<^verbatim>\<open>begin_op\<close> is \<open>Blocked\<close> where the code sleeps; \<^verbatim>\<open>wakeup\<close> belongs to the process model
  and changes nothing here. The header block is kept in its on-disk form: \<^verbatim>\<open>n\<close> at offset 0 and \<^verbatim>\<open>block[i]\<close> at offset
  \<open>4 + 4 i\<close>, little-endian. A power failure leaves the disk after some prefix of the completed writes
  \<open>dwrites\<close>; the theorems of this theory speak about all of them.
\<close>

definition BSIZE :: nat where "BSIZE = 1024"

subsection \<open>32-bit integers in a block\<close>

definition get32 :: "block \<Rightarrow> nat \<Rightarrow> u32" where
  "get32 b off = le_word (map (\<lambda>k. b (off + k)) [0..<4])"

definition set32 :: "block \<Rightarrow> nat \<Rightarrow> u32 \<Rightarrow> block" where
  "set32 b off v = (\<lambda>i. if off \<le> i \<and> i < off + 4 then le_bytes 4 v ! (i - off) else b i)"

lemma get32_set32 [simp]: "get32 (set32 b off v) off = v"
proof -
  have "map (\<lambda>k. set32 b off v (off + k)) [0..<4] = le_bytes 4 v"
    by (rule nth_equalityI) (simp_all add: set32_def)
  then show ?thesis by (simp add: get32_def le_word_le_bytes_full)
qed

lemma get32_set32_other: "o1 + 4 \<le> o2 \<or> o2 + 4 \<le> o1 \<Longrightarrow> get32 (set32 b o1 v) o2 = get32 b o2"
  unfolding get32_def by (intro arg_cong [of _ _ le_word] map_cong) (auto simp: set32_def)

subsection \<open>State and operations\<close>

record logst = bcache +
  log_start :: nat
  log_outstanding :: int
  log_committing :: bool
  log_dev :: nat
  lh_n :: int
  lh_block :: "nat \<Rightarrow> u32"

primrec install_loop :: "nat \<Rightarrow> nat \<Rightarrow> bool \<Rightarrow> 'a logst_scheme \<Rightarrow> (unit \<times> 'a logst_scheme) kres" where
  "install_loop 0 tail recovering s = Ok ((), s)"
| "install_loop (Suc k) tail recovering s =
     kbind (bread (log_dev s) (log_start s + tail + 1) s) (\<lambda>(lbuf, s1).
     kbind (bread (log_dev s) (unat (lh_block s tail)) s1) (\<lambda>(dbuf, s2).
     kbind (bwrite dbuf (set_data dbuf (buf_data s2 lbuf) s2)) (\<lambda>(_, s3).
     kbind (brelse lbuf (if \<not> recovering then bunpin dbuf s3 else s3)) (\<lambda>(_, s4).
     kbind (brelse dbuf s4) (\<lambda>(_, s5).
     install_loop k (Suc tail) recovering s5)))))"

definition install_trans :: "bool \<Rightarrow> 'a logst_scheme \<Rightarrow> (unit \<times> 'a logst_scheme) kres" where
  "install_trans recovering s = install_loop (nat (lh_n s)) 0 recovering s"

primrec read_head_loop :: "nat \<Rightarrow> block \<Rightarrow> (nat \<Rightarrow> u32) \<Rightarrow> (nat \<Rightarrow> u32)" where
  "read_head_loop 0 d f = f"
| "read_head_loop (Suc i) d f = (read_head_loop i d f)(i := get32 d (4 + 4 * i))"

definition read_head :: "'a logst_scheme \<Rightarrow> (unit \<times> 'a logst_scheme) kres" where
  "read_head s =
     kbind (bread (log_dev s) (log_start s) s) (\<lambda>(b, s1).
       let n = sint (get32 (buf_data s1 b) 0)
       in brelse b (s1\<lparr>lh_n := n, lh_block := read_head_loop (nat n) (buf_data s1 b) (lh_block s1)\<rparr>))"

primrec write_head_loop :: "nat \<Rightarrow> (nat \<Rightarrow> u32) \<Rightarrow> block \<Rightarrow> block" where
  "write_head_loop 0 f d = d"
| "write_head_loop (Suc i) f d = set32 (write_head_loop i f d) (4 + 4 * i) (f i)"

definition write_head :: "'a logst_scheme \<Rightarrow> (unit \<times> 'a logst_scheme) kres" where
  "write_head s =
     kbind (bread (log_dev s) (log_start s) s) (\<lambda>(b, s1).
     kbind (bwrite b (set_data b (write_head_loop (nat (lh_n s)) (lh_block s)
                                     (set32 (buf_data s1 b) 0 (word_of_int (lh_n s)))) s1)) (\<lambda>(_, s2).
     brelse b s2))"

definition recover_from_log :: "'a logst_scheme \<Rightarrow> (unit \<times> 'a logst_scheme) kres" where
  "recover_from_log s =
     kbind (read_head s) (\<lambda>(_, s1).
     kbind (install_trans True s1) (\<lambda>(_, s2).
     write_head (s2\<lparr>lh_n := 0\<rparr>)))"

definition initlog :: "nat \<Rightarrow> nat \<Rightarrow> 'a logst_scheme \<Rightarrow> (unit \<times> 'a logst_scheme) kres" where
  "initlog dev logstart s =
     (if 4 + 4 * LOGBLOCKS \<ge> BSIZE then Panic ''initlog: too big logheader''
      else recover_from_log (s\<lparr>log_start := logstart, log_dev := dev\<rparr>))"

definition begin_op :: "'a logst_scheme \<Rightarrow> (unit \<times> 'a logst_scheme) kres" where
  "begin_op s =
     (if log_committing s then Blocked
      else if lh_n s + (log_outstanding s + 1) * int MAXOPBLOCKS > int LOGBLOCKS then Blocked
      else Ok ((), s\<lparr>log_outstanding := log_outstanding s + 1\<rparr>))"

primrec write_log_loop :: "nat \<Rightarrow> nat \<Rightarrow> 'a logst_scheme \<Rightarrow> (unit \<times> 'a logst_scheme) kres" where
  "write_log_loop 0 tail s = Ok ((), s)"
| "write_log_loop (Suc k) tail s =
     kbind (bread (log_dev s) (log_start s + tail + 1) s) (\<lambda>(to, s1).
     kbind (bread (log_dev s) (unat (lh_block s tail)) s1) (\<lambda>(from, s2).
     kbind (bwrite to (set_data to (buf_data s2 from) s2)) (\<lambda>(_, s3).
     kbind (brelse from s3) (\<lambda>(_, s4).
     kbind (brelse to s4) (\<lambda>(_, s5).
     write_log_loop k (Suc tail) s5)))))"

definition write_log :: "'a logst_scheme \<Rightarrow> (unit \<times> 'a logst_scheme) kres" where
  "write_log s = write_log_loop (nat (lh_n s)) 0 s"

definition commit :: "'a logst_scheme \<Rightarrow> (unit \<times> 'a logst_scheme) kres" where
  "commit s =
     (if lh_n s > 0 then
        kbind (write_log s) (\<lambda>(_, s1).
        kbind (write_head s1) (\<lambda>(_, s2).
        kbind (install_trans False s2) (\<lambda>(_, s3).
        write_head (s3\<lparr>lh_n := 0\<rparr>))))
      else Ok ((), s))"

definition end_op :: "'a logst_scheme \<Rightarrow> (unit \<times> 'a logst_scheme) kres" where
  "end_op s =
     (let s1 = s\<lparr>log_outstanding := log_outstanding s - 1\<rparr> in
      if log_committing s1 then Panic ''log.committing''
      else if log_outstanding s1 = 0 then
        kbind (commit (s1\<lparr>log_committing := True\<rparr>)) (\<lambda>(_, s2). Ok ((), s2\<lparr>log_committing := False\<rparr>))
      else Ok ((), s1))"

primrec log_scan :: "nat \<Rightarrow> nat \<Rightarrow> (nat \<Rightarrow> u32) \<Rightarrow> u32 \<Rightarrow> nat" where
  "log_scan 0 i f bno = i"
| "log_scan (Suc k) i f bno = (if f i = bno then i else log_scan k (Suc i) f bno)"

definition log_write :: "nat \<Rightarrow> 'a logst_scheme \<Rightarrow> (unit \<times> 'a logst_scheme) kres" where
  "log_write b s =
     (if lh_n s \<ge> int LOGBLOCKS then Panic ''too big a transaction''
      else if log_outstanding s < 1 then Panic ''log_write outside of trans''
      else let bno = of_nat (b_blockno (bufs s b));
               i = log_scan (nat (lh_n s)) 0 (lh_block s) bno;
               s1 = s\<lparr>lh_block := (lh_block s)(i := bno)\<rparr>
        in if int i = lh_n s1 then Ok ((), (bpin b s1)\<lparr>lh_n := lh_n s1 + 1\<rparr>) else Ok ((), s1))"

subsection \<open>Runs of the log code\<close>

text \<open>
  \<open>apply_writes d ws\<close>: the blocks \<open>d\<close> after the writes \<open>ws\<close>. \<open>wrote s P' ws s'\<close>: the code went from \<open>s\<close> to \<open>s'\<close>, wrote \<open>ws\<close> to the disk
  in that order, left the same writes in the logical content, holds no buffer and has \<open>P'\<close> pinned.
\<close>

definition apply_writes :: "(nat \<Rightarrow> block) \<Rightarrow> (nat \<times> block) list \<Rightarrow> (nat \<Rightarrow> block)" where
  "apply_writes d ws = fold (\<lambda>(n, b) d. d(n := b)) ws d"

definition wrote :: "'a logst_scheme \<Rightarrow> nat set \<Rightarrow> (nat \<times> block) list \<Rightarrow> 'a logst_scheme \<Rightarrow> bool" where
  "wrote s P' ws s' \<longleftrightarrow> BC s' P' {} \<and> view s' = apply_writes (view s) ws \<and> disk s' = apply_writes (disk s) ws \<and>
     dwrites s' = dwrites s @ ws \<and> bc_rest s' = bc_rest s"

lemma apply_writes_simps [simp]:
  "apply_writes d [] = d" "apply_writes d ((n, b) # ws) = apply_writes (d(n := b)) ws"
  "apply_writes d (ws @ ws') = apply_writes (apply_writes d ws) ws'"
  by (simp_all add: apply_writes_def)

lemma apply_writes_map:
  "apply_writes d (map (\<lambda>i. (f i, v i)) xs) b = (if b \<in> f ` set xs then apply_writes d (map (\<lambda>i. (f i, v i)) xs) b else d b)"
  by (induction xs arbitrary: d) auto

lemma apply_writes_notin: "b \<notin> f ` set xs \<Longrightarrow> apply_writes d (map (\<lambda>i. (f i, v i)) xs) b = d b"
  using apply_writes_map [of d f v xs b] by simp

lemma apply_writes_in:
  "\<forall>i \<in> set xs. v i = V (f i) \<Longrightarrow> apply_writes d (map (\<lambda>i. (f i, v i)) xs) b = (if b \<in> f ` set xs then V b else d b)"
proof (induction xs arbitrary: d)
  case (Cons a xs)
  then show ?case by (cases "b \<in> f ` set xs") auto
qed simp

lemma apply_writes_base:
  "b \<in> f ` set xs \<or> d b = d' b \<Longrightarrow> apply_writes d (map (\<lambda>i. (f i, v i)) xs) b = apply_writes d' (map (\<lambda>i. (f i, v i)) xs) b"
  by (induction xs arbitrary: d d') auto

lemma bc_rest_log:
  assumes "bc_rest s' = bc_rest (s :: 'a logst_scheme)"
  shows "log_start s' = log_start s" "log_dev s' = log_dev s" "lh_n s' = lh_n s" "lh_block s' = lh_block s"
    "log_outstanding s' = log_outstanding s" "log_committing s' = log_committing s" "cur_pid s' = cur_pid s"
    "logst.more s' = logst.more s"
  using assms by (cases s; cases s'; simp add: bc_rest_def)+

lemma wrote_trans: "wrote s P ws s1 \<Longrightarrow> wrote s1 P' ws' s2 \<Longrightarrow> wrote s P' (ws @ ws') s2"
  by (simp add: wrote_def)

lemma cache_log_fields [simp]:
  fixes s :: "'a logst_scheme"
  shows "BC (s\<lparr>lh_n := n\<rparr>) = BC s" "view (s\<lparr>lh_n := n\<rparr>) = view s" "cached (s\<lparr>lh_n := n\<rparr>) = cached s"
    "BC (s\<lparr>lh_block := f\<rparr>) = BC s" "view (s\<lparr>lh_block := f\<rparr>) = view s" "cached (s\<lparr>lh_block := f\<rparr>) = cached s"
    "BC (s\<lparr>log_outstanding := i\<rparr>) = BC s" "view (s\<lparr>log_outstanding := i\<rparr>) = view s" "cached (s\<lparr>log_outstanding := i\<rparr>) = cached s"
    "BC (s\<lparr>log_committing := c\<rparr>) = BC s" "view (s\<lparr>log_committing := c\<rparr>) = view s" "cached (s\<lparr>log_committing := c\<rparr>) = cached s"
    "BC (s\<lparr>log_start := st\<rparr>) = BC s" "view (s\<lparr>log_start := st\<rparr>) = view s" "cached (s\<lparr>log_start := st\<rparr>) = cached s"
    "BC (s\<lparr>log_dev := dv\<rparr>) = BC s" "view (s\<lparr>log_dev := dv\<rparr>) = view s" "cached (s\<lparr>log_dev := dv\<rparr>) = cached s"
  by (rule cache_cong; simp)+

text \<open>The blocks of the log area, and a list of logged home blocks that stays clear of it.\<close>

definition log_area :: "nat \<Rightarrow> nat set" where
  "log_area start = {start..start + LOGBLOCKS}"

definition homes :: "'a logst_scheme \<Rightarrow> nat \<Rightarrow> nat" where
  "homes s i = unat (lh_block s i)"

lemma log_area_slot [simp]: "i < LOGBLOCKS \<Longrightarrow> start + i + 1 \<in> log_area start" "i < LOGBLOCKS \<Longrightarrow> Suc (start + i) \<in> log_area start"
    "start \<in> log_area start"
  by (simp_all add: log_area_def)

lemma homes_rest: "bc_rest s' = bc_rest s \<Longrightarrow> homes s' = homes s"
  using bc_rest_log(4) [of s' s] by (simp add: homes_def fun_eq_iff)

lemma kbind_ret: "kbind m (\<lambda>(u :: unit, s). Ok ((), s)) = m"
  by (cases m) auto

lemma write_log_loop_wrote:
  assumes "BC s P {}" "log_dev s = ROOTDEV" "card P < NBUF" "P \<inter> log_area (log_start s) = {}"
    and "tail + k \<le> LOGBLOCKS" "\<forall>i \<in> {tail..<tail + k}. homes s i \<in> P"
  shows "\<exists>s'. write_log_loop k tail s = Ok ((), s') \<and>
    wrote s P (map (\<lambda>i. (log_start s + 1 + i, view s (homes s i))) [tail..<tail + k]) s'"
  using assms
proof (induction k arbitrary: tail s)
  case 0
  then show ?case by (simp add: wrote_def)
next
  case (Suc k)
  let ?m = "log_start s + tail + 1" let ?n = "homes s tail"
  have slot: "?m \<in> log_area (log_start s)" using Suc.prems(5) by (simp add: log_area_def)
  have P: "finite P" "?n \<in> P" "?m \<notin> P" using slot Suc.prems BC_facts(1) [OF Suc.prems(1)] by auto
  then have ne: "?m \<noteq> ?n" by auto
  obtain s1 where s1: "kbind (bread ROOTDEV ?m s) (\<lambda>(x, s1). kbind (bread ROOTDEV ?n s1) (\<lambda>(y, s2).
      kbind (bwrite x (set_data x (buf_data s2 y) s2)) (\<lambda>(_, s3). kbind (brelse y s3) (\<lambda>(_, s4). brelse x s4)))) = Ok ((), s1)"
    "wrote s P [(?m, view s ?n)] s1"
    using bc.copy_to_log [OF Suc.prems(1) ne P(3,2) Suc.prems(3) P(1)] by (auto simp: wrote_def)
  from s1(2) have r: "BC s1 P {}" "bc_rest s1 = bc_rest s" "view s1 = (view s)(?m := view s ?n)" by (simp_all add: wrote_def)
  note f = bc_rest_log(1-4) [OF r(2)] homes_rest [OF r(2)]
  obtain s2 where s2: "write_log_loop k (Suc tail) s1 = Ok ((), s2)"
    "wrote s1 P (map (\<lambda>i. (log_start s1 + 1 + i, view s1 (homes s1 i))) [Suc tail..<Suc tail + k]) s2"
    using Suc.IH [of s1 "Suc tail"] Suc.prems r f by auto
  have run: "write_log_loop (Suc k) tail s = Ok ((), s2)"
    using s1(1) s2(1) Suc.prems(2) by (auto simp: homes_def split: prod.splits)
  have "view s1 (homes s i) = view s (homes s i)" if "i \<in> {Suc tail..<Suc tail + k}" for i
  proof -
    have "homes s i \<in> P" using Suc.prems(6) that by simp
    then show ?thesis using r(3) slot Suc.prems(4) by auto
  qed
  then have eq: "map (\<lambda>i. (log_start s1 + 1 + i, view s1 (homes s1 i))) [Suc tail..<Suc tail + k] =
      map (\<lambda>i. (log_start s + 1 + i, view s (homes s i))) [Suc tail..<tail + Suc k]" using f by (intro map_cong) auto
  have up: "[tail..<tail + Suc k] = tail # [Suc tail..<tail + Suc k]" by (rule upt_conv_Cons) simp
  show ?case unfolding up using run wrote_trans [OF s1(2) s2(2)] unfolding eq
    by (intro exI [of _ s2] conjI) (assumption, simp del: upt_Suc)
qed

lemma install_loop_wrote:
  assumes "BC s P {}" "log_dev s = ROOTDEV" "card P < NBUF" "P \<inter> log_area (log_start s) = {}"
    and "tail + k \<le> LOGBLOCKS" "\<forall>i \<in> {tail..<tail + k}. homes s i \<notin> log_area (log_start s)"
    and "if recovering then P = {} else P = homes s ` {tail..<tail + k} \<and> inj_on (homes s) {tail..<tail + k}"
  shows "\<exists>s'. install_loop k tail recovering s = Ok ((), s') \<and>
    wrote s {} (map (\<lambda>i. (homes s i, view s (log_start s + 1 + i))) [tail..<tail + k]) s'"
  using assms
proof (induction k arbitrary: tail s P)
  case 0
  then show ?case by (simp add: wrote_def split: if_splits)
next
  case (Suc k)
  let ?m = "log_start s + tail + 1" let ?n = "homes s tail" let ?u = "\<not> recovering" let ?P = "if ?u then P - {?n} else P"
  have slot: "?m \<in> log_area (log_start s)" using Suc.prems(5) by (simp add: log_area_def)
  have P: "finite P" "?m \<notin> P" "if ?u then ?n \<in> P else P = {}"
    using Suc.prems(4,7) slot BC_facts(1) [OF Suc.prems(1)] by (auto simp: disjoint_iff)
  have "?n \<notin> log_area (log_start s)" using Suc.prems(6) by simp
  then have ne: "?m \<noteq> ?n" using slot by auto
  obtain s1 where s1: "kbind (bread ROOTDEV ?m s) (\<lambda>(x, s1). kbind (bread ROOTDEV ?n s1) (\<lambda>(y, s2).
      kbind (bwrite y (set_data y (buf_data s2 x) s2)) (\<lambda>(_, s3). kbind (brelse x (if ?u then bunpin y s3 else s3)) (\<lambda>(_, s4). brelse y s4)))) = Ok ((), s1)"
    "wrote s ?P [(?n, view s ?m)] s1"
    using bc.copy_home [OF Suc.prems(1) ne P(2,3) Suc.prems(3) P(1)] by (auto simp: wrote_def)
  from s1(2) have r: "BC s1 ?P {}" "bc_rest s1 = bc_rest s" "view s1 = (view s)(?n := view s ?m)" by (simp_all add: wrote_def)
  note f = bc_rest_log(1-4) [OF r(2)] homes_rest [OF r(2)]
  have "card ?P \<le> card P" using P(1) by (simp add: card_Diff1_le)
  then have c: "card ?P < NBUF" using Suc.prems(3) by simp
  have ins: "{tail..<tail + Suc k} = insert tail {Suc tail..<Suc tail + k}" by auto
  have "homes s ` insert a A - {homes s a} = homes s ` A \<and> inj_on (homes s) A" if "inj_on (homes s) (insert a A)" "a \<notin> A" for a A
    using that by (auto simp: inj_on_def)
  then have q: "if recovering then ?P = {} else ?P = homes s1 ` {Suc tail..<Suc tail + k} \<and> inj_on (homes s1) {Suc tail..<Suc tail + k}"
    using Suc.prems(7) unfolding f ins by (cases recovering) simp_all
  have d: "?P \<inter> log_area (log_start s1) = {}" using Suc.prems(4) unfolding f by auto
  have h: "\<forall>i \<in> {Suc tail..<Suc tail + k}. homes s1 i \<notin> log_area (log_start s1)" using Suc.prems(6) unfolding f by simp
  obtain s2 where s2: "install_loop k (Suc tail) recovering s1 = Ok ((), s2)"
    "wrote s1 {} (map (\<lambda>i. (homes s1 i, view s1 (log_start s1 + 1 + i))) [Suc tail..<Suc tail + k]) s2"
    using Suc.IH [OF r(1) _ c d _ h q] Suc.prems(2,5) unfolding f by auto
  have run: "install_loop (Suc k) tail recovering s = Ok ((), s2)"
    using s1(1) s2(1) Suc.prems(2) by (cases recovering) (auto simp: homes_def split: prod.splits)
  have "view s1 (log_start s + 1 + i) = view s (log_start s + 1 + i)" if "i \<in> {Suc tail..<Suc tail + k}" for i
  proof -
    have "log_start s + 1 + i \<in> log_area (log_start s)" using Suc.prems(5) that by (simp add: log_area_def)
    then show ?thesis using r(3) \<open>?n \<notin> _\<close> by auto
  qed
  then have eq: "map (\<lambda>i. (homes s1 i, view s1 (log_start s1 + 1 + i))) [Suc tail..<Suc tail + k] =
      map (\<lambda>i. (homes s i, view s (log_start s + 1 + i))) [Suc tail..<tail + Suc k]" using f by (intro map_cong) auto
  have up: "[tail..<tail + Suc k] = tail # [Suc tail..<tail + Suc k]" by (rule upt_conv_Cons) simp
  show ?case unfolding up using run wrote_trans [OF s1(2) s2(2)] unfolding eq
    by (intro exI [of _ s2] conjI) (assumption, simp del: upt_Suc)
qed

subsection \<open>The header block\<close>

definition head_block :: "int \<Rightarrow> (nat \<Rightarrow> u32) \<Rightarrow> block \<Rightarrow> block" where
  "head_block n f b = write_head_loop (nat n) f (set32 b 0 (word_of_int n))"

definition hdr_n :: "block \<Rightarrow> nat" where
  "hdr_n b = nat (sint (get32 b 0))"

definition hdr_home :: "block \<Rightarrow> nat \<Rightarrow> nat" where
  "hdr_home b i = unat (get32 b (4 + 4 * i))"

lemma write_head_loop_get:
  "get32 (write_head_loop n f b) 0 = get32 b 0"
  "i < n \<Longrightarrow> get32 (write_head_loop n f b) (4 + 4 * i) = f i"
proof -
  show "get32 (write_head_loop n f b) 0 = get32 b 0"
    by (induction n) (simp_all add: get32_set32_other)
  show "i < n \<Longrightarrow> get32 (write_head_loop n f b) (4 + 4 * i) = f i"
  proof (induction n)
    case (Suc n)
    then show ?case
    proof (cases "i = n")
      case False
      then have "4 + 4 * i + 4 \<le> 4 + 4 * n" using Suc.prems by simp
      then show ?thesis using False Suc by (simp add: get32_set32_other)
    qed simp
  qed simp
qed

lemma sint_small: "0 \<le> n \<Longrightarrow> n \<le> int LOGBLOCKS \<Longrightarrow> sint (word_of_int n :: u32) = n"
  by (simp add: signed_of_int param_defs signed_take_bit_int_eq_self)

lemma head_block_n: "0 \<le> n \<Longrightarrow> n \<le> int LOGBLOCKS \<Longrightarrow> hdr_n (head_block n f b) = nat n"
  by (simp add: hdr_n_def head_block_def write_head_loop_get sint_small)

lemma head_block_home: "i < nat n \<Longrightarrow> hdr_home (head_block n f b) i = unat (f i)"
  by (simp add: hdr_home_def head_block_def write_head_loop_get)

lemma read_head_loop_get: "i < n \<Longrightarrow> read_head_loop n b f i = get32 b (4 + 4 * i)"
  by (induction n) auto

lemma write_head_wrote:
  assumes "BC s P {}" "log_dev s = ROOTDEV" "card P < NBUF" "log_start s \<notin> P"
  shows "\<exists>s'. write_head s = Ok ((), s') \<and> wrote s P [(log_start s, head_block (lh_n s) (lh_block s) (view s (log_start s)))] s'"
proof -
  let ?n = "log_start s" let ?h = "head_block (lh_n s) (lh_block s) (view s ?n)"
  obtain b s1 where 1: "bread ROOTDEV ?n s = Ok (b, s1)" "BC s1 P {?n}" "cached s1 ?n = Some b" "view s1 = view s"
    "disk s1 = disk s" "dwrites s1 = dwrites s" "bc_rest s1 = bc_rest s"
    using bc.rd_law [OF assms(1), of ?n] assms(3) by auto
  have d: "buf_data s1 b = view s ?n" using bc.dat_law [OF 1(2) _ 1(3)] 1(4) by simp
  let ?s2 = "set_data b ?h s1"
  have 2: "BC ?s2 P {?n}" "cached ?s2 = cached s1" "view ?s2 = (view s)(?n := ?h)" "disk ?s2 = disk s" "dwrites ?s2 = dwrites s"
    "bc_rest ?s2 = bc_rest s" using bc.upd_law [OF 1(2) _ 1(3), of ?h] 1 by simp_all
  obtain s3 where 3: "bwrite b ?s2 = Ok ((), s3)" "BC s3 P {?n}" "cached s3 = cached s1" "view s3 = (view s)(?n := ?h)"
    "disk s3 = (disk s)(?n := ?h)" "dwrites s3 = dwrites s @ [(?n, ?h)]" "bc_rest s3 = bc_rest s"
    using bc.wrt_law [OF 2(1), of ?n b] 1(3) 2 by auto
  obtain s4 where 4: "brelse b s3 = Ok ((), s4)" "BC s4 P {}" "view s4 = view s3" "disk s4 = disk s3" "dwrites s4 = dwrites s3"
    "bc_rest s4 = bc_rest s3" using bc.rel_law [OF 3(2), of ?n b] 1(3) 3 by auto
  have "write_head s = Ok ((), s4)"
    using 1(1) 3(1) 4(1) assms(2) unfolding write_head_def d [symmetric] head_block_def by simp
  then show ?thesis using 3 4 by (intro exI [of _ s4]) (simp add: wrote_def)
qed

lemma read_head_ok:
  assumes "BC s {} {}" "log_dev s = ROOTDEV"
  shows "\<exists>s'. read_head s = Ok ((), s') \<and> BC s' {} {} \<and> view s' = view s \<and> disk s' = disk s \<and> dwrites s' = dwrites s \<and>
    lh_n s' = sint (get32 (view s (log_start s)) 0) \<and> (\<forall>i < nat (lh_n s'). homes s' i = hdr_home (view s (log_start s)) i) \<and>
    log_start s' = log_start s \<and> log_dev s' = log_dev s \<and> log_outstanding s' = log_outstanding s \<and>
    log_committing s' = log_committing s \<and> logst.more s' = logst.more s \<and> cur_pid s' = cur_pid s"
proof -
  let ?n = "log_start s"
  obtain b s1 where 1: "bread ROOTDEV ?n s = Ok (b, s1)" "BC s1 {} {?n}" "cached s1 ?n = Some b" "view s1 = view s"
    "disk s1 = disk s" "dwrites s1 = dwrites s" "bc_rest s1 = bc_rest s"
    using bc.rd_law [OF assms(1), of ?n] by (auto simp: param_defs)
  have d: "buf_data s1 b = view s ?n" using bc.dat_law [OF 1(2) _ 1(3)] 1(4) by simp
  let ?m = "sint (get32 (view s ?n) 0)"
  define s2 where "s2 = s1\<lparr>lh_n := ?m, lh_block := read_head_loop (nat ?m) (view s ?n) (lh_block s1)\<rparr>"
  have 2: "BC s2 {} {?n}" "cached s2 = cached s1" "view s2 = view s" "disk s2 = disk s" "dwrites s2 = dwrites s"
    using 1 by (simp_all add: s2_def)
  have "view s ?n = disk s ?n" using bc.clean_law [OF assms(1)] by simp
  then obtain s3 where 3: "brelse b s2 = Ok ((), s3)" "BC s3 {} {}" "view s3 = view s2" "disk s3 = disk s2" "dwrites s3 = dwrites s2"
    "bc_rest s3 = bc_rest s2" using bc.rel_law [OF 2(1), of ?n b] 1(3) 2 by auto
  have "read_head s = Ok ((), s3)" using 1(1) 3(1) assms(2) by (simp add: read_head_def d s2_def Let_def)
  moreover note f = bc_rest_log [OF 3(6)] and g = bc_rest_log [OF 1(7)]
  have "homes s3 i = hdr_home (view s ?n) i" if "i < nat ?m" for i
    using read_head_loop_get [OF that] by (simp add: homes_def f s2_def hdr_home_def)
  ultimately show ?thesis using 2 3 f g by (intro exI [of _ s3]) (simp add: s2_def)
qed

subsection \<open>What the log on disk means\<close>

text \<open>
  \<open>replay start d\<close>: the blocks the disk \<open>d\<close> stands for, the committed blocks of the log at \<open>start\<close> taken into account. \<open>log_valid\<close>: the
  header of \<open>d\<close> fits the log and names no block of the log area. \<open>same_off\<close>: equal outside the log area.
\<close>

definition replay :: "nat \<Rightarrow> (nat \<Rightarrow> block) \<Rightarrow> (nat \<Rightarrow> block)" where
  "replay start d = apply_writes d (map (\<lambda>i. (hdr_home (d start) i, d (start + 1 + i))) [0..<hdr_n (d start)])"

definition log_valid :: "nat \<Rightarrow> (nat \<Rightarrow> block) \<Rightarrow> bool" where
  "log_valid start d \<longleftrightarrow> hdr_n (d start) \<le> LOGBLOCKS \<and> (\<forall>i < hdr_n (d start). hdr_home (d start) i \<notin> log_area start)"

definition same_off :: "nat \<Rightarrow> (nat \<Rightarrow> block) \<Rightarrow> (nat \<Rightarrow> block) \<Rightarrow> bool" where
  "same_off start d d' \<longleftrightarrow> (\<forall>b. b \<notin> log_area start \<longrightarrow> d b = d' b)"

lemma same_off_refl [simp]: "same_off start d d"
  by (simp add: same_off_def)

lemma same_off_trans: "same_off start d e \<Longrightarrow> same_off start e f \<Longrightarrow> same_off start d f"
  by (simp add: same_off_def)

lemma same_off_sym: "same_off start d e \<Longrightarrow> same_off start e d"
  by (simp add: same_off_def)

lemma replay_clean: "hdr_n (d start) = 0 \<Longrightarrow> replay start d = d"
  by (simp add: replay_def)

lemma clean_valid: "hdr_n (d start) = 0 \<Longrightarrow> log_valid start d"
  by (simp add: log_valid_def)

text \<open>Installing a prefix of the committed blocks does not change what the disk stands for.\<close>

lemma install_prefix:
  assumes v: "log_valid start d" and n: "n = hdr_n (d start)" and k: "k \<le> n"
    and d': "d' = apply_writes d (map (\<lambda>i. (hdr_home (d start) i, d (start + 1 + i))) [0..<k])"
  shows "log_valid start d'" "replay start d' = replay start d"
proof -
  have off: "d' b = d b" if "b \<in> log_area start" for b
    unfolding d' using v k that unfolding log_valid_def n
    by (intro apply_writes_notin [where f = "hdr_home (d start)"]) fastforce
  have hd: "d' start = d start" using off by simp
  have sl: "d' (start + 1 + i) = d (start + 1 + i)" if "i < n" for i
    using off [of "start + 1 + i"] that v by (simp add: log_area_def log_valid_def n)
  show "log_valid start d'" using v hd by (simp add: log_valid_def)
  have "map (\<lambda>i. (hdr_home (d' start) i, d' (start + 1 + i))) [0..<hdr_n (d' start)] =
      map (\<lambda>i. (hdr_home (d start) i, d (start + 1 + i))) [0..<n]" using sl unfolding hd n by (intro map_cong) auto
  moreover have "b \<in> hdr_home (d start) ` set [0..<n] \<or> d' b = d b" for b
    unfolding d' using k apply_writes_notin [of b "hdr_home (d start)" "[0..<k]"] by fastforce
  ultimately show "replay start d' = replay start d"
    unfolding replay_def n [symmetric] fun_eq_iff [of "apply_writes d' _"]
    using apply_writes_base [where f = "hdr_home (d start)" and xs = "[0..<n]"] by simp
qed

lemma clear_header:
  assumes "log_valid start d" "hdr_n h = 0"
  shows "log_valid start (d(start := h))" "same_off start (replay start (d(start := h))) d"
  using assms replay_clean [of "d(start := h)" start] by (simp_all add: clean_valid same_off_def)

lemma recover_wrote:
  assumes bc: "BC s {} {}" and dev: "log_dev s = ROOTDEV" and v: "log_valid (log_start s) (disk s)"
  shows "\<exists>s' ws. recover_from_log s = Ok ((), s') \<and> BC s' {} {} \<and> dwrites s' = dwrites s @ ws \<and>
    disk s' = apply_writes (disk s) ws \<and> lh_n s' = 0 \<and> hdr_n (disk s' (log_start s)) = 0 \<and>
    same_off (log_start s) (disk s') (replay (log_start s) (disk s)) \<and>
    (\<forall>k. log_valid (log_start s) (apply_writes (disk s) (take k ws)) \<and>
       same_off (log_start s) (replay (log_start s) (apply_writes (disk s) (take k ws))) (replay (log_start s) (disk s))) \<and>
    log_start s' = log_start s \<and> log_dev s' = ROOTDEV \<and> log_outstanding s' = log_outstanding s \<and>
    log_committing s' = log_committing s \<and> logst.more s' = logst.more s \<and> cur_pid s' = cur_pid s"
proof -
  let ?st = "log_start s" let ?d = "disk s" let ?n = "hdr_n (?d ?st)"
  have vw: "view s = ?d" using bc.clean_law [OF bc] by (simp add: fun_eq_iff)
  obtain s1 where 1: "read_head s = Ok ((), s1)" "BC s1 {} {}" "view s1 = ?d" "disk s1 = ?d" "dwrites s1 = dwrites s"
    "lh_n s1 = sint (get32 (?d ?st) 0)" "\<forall>i < nat (lh_n s1). homes s1 i = hdr_home (?d ?st) i"
    "log_start s1 = ?st" "log_dev s1 = ROOTDEV" "log_outstanding s1 = log_outstanding s" "log_committing s1 = log_committing s"
    "logst.more s1 = logst.more s" "cur_pid s1 = cur_pid s"
    using read_head_ok [OF bc dev] dev unfolding vw by auto
  have n: "nat (lh_n s1) = ?n" using 1(6) by (simp add: hdr_n_def)
  have ho: "\<forall>i \<in> {0..<?n}. homes s1 i = hdr_home (?d ?st) i" using 1(7) n by simp
  have eq: "map (\<lambda>i. (homes s1 i, view s1 (log_start s1 + 1 + i))) [0..<0 + ?n] =
      map (\<lambda>i. (hdr_home (?d ?st) i, ?d (?st + 1 + i))) [0..<?n]" (is "_ = ?wi") using ho 1(3,8) by (intro map_cong) auto
  have "\<exists>s'. install_loop ?n 0 True s1 = Ok ((), s') \<and> wrote s1 {} ?wi s'"
    unfolding eq [symmetric] using 1(2,8,9) v ho by (intro install_loop_wrote) (auto simp: log_valid_def param_defs)
  then obtain s2 where 2: "install_trans True s1 = Ok ((), s2)" "wrote s1 {} ?wi s2"
    unfolding install_trans_def n by blast
  from 2(2) have w2: "BC s2 {} {}" "disk s2 = apply_writes ?d ?wi" "view s2 = disk s2" "dwrites s2 = dwrites s @ ?wi" "bc_rest s2 = bc_rest s1"
    using 1 by (simp_all add: wrote_def)
  note f2 = bc_rest_log [OF w2(5)]
  let ?s3 = "s2\<lparr>lh_n := 0\<rparr>" let ?h = "head_block 0 (lh_block s2) (view s2 ?st)"
  have "\<exists>s'. write_head ?s3 = Ok ((), s') \<and> wrote ?s3 {} [(log_start ?s3, head_block (lh_n ?s3) (lh_block ?s3) (view ?s3 (log_start ?s3)))] s'"
    using w2(1) f2 1(9) by (intro write_head_wrote) (simp_all add: param_defs)
  then obtain s4 where 4: "write_head ?s3 = Ok ((), s4)" "wrote ?s3 {} [(?st, ?h)] s4" using f2 1(8) by auto
  have h: "hdr_n ?h = 0" using head_block_n [of 0] by simp
  let ?ws = "?wi @ [(?st, ?h)]"
  have run: "recover_from_log s = Ok ((), s4)" using 1(1) 2(1) 4(1) by (simp add: recover_from_log_def)
  from 4(2) have w4: "BC s4 {} {}" "disk s4 = (disk s2)(?st := ?h)" "dwrites s4 = dwrites s @ ?ws" "bc_rest s4 = bc_rest ?s3"
    using w2 by (simp_all add: wrote_def)
  note f4 = bc_rest_log [OF w4(4)]
  have full: "disk s2 = replay ?st ?d" by (simp add: w2(2) replay_def)
  have vd2: "log_valid ?st (disk s2)" using install_prefix [OF v refl order_refl] w2(2) by simp
  have "log_valid ?st (apply_writes ?d (take k ?ws)) \<and>
      same_off ?st (replay ?st (apply_writes ?d (take k ?ws))) (replay ?st ?d)" for k
  proof (cases "k \<le> ?n")
    case True
    then have "take k ?ws = map (\<lambda>i. (hdr_home (?d ?st) i, ?d (?st + 1 + i))) [0..<k]" by (simp add: take_map)
    then show ?thesis using install_prefix [OF v refl True] by simp
  next
    case False
    then have "take k ?ws = ?ws" by simp
    then show ?thesis using clear_header [OF vd2 h] full w2(2) by simp
  qed
  moreover have "same_off ?st (disk s4) (replay ?st ?d)" using full w4(2) by (auto simp: same_off_def)
  ultimately show ?thesis using run w4 f4 f2 1 w2(2) h by (intro exI [of _ s4] exI [of _ ?ws]) simp
qed

subsection \<open>Transactions\<close>

text \<open>
  \<open>pinned s\<close>: the blocks of the running transaction. \<open>log_ok s H\<close>: between \<^verbatim>\<open>begin_op\<close> and the commit, with the buffers of \<open>H\<close> held, the cache
  pins exactly these blocks, each is listed once, none is in the log area, and the log on disk is empty.
\<close>

definition pinned :: "'a logst_scheme \<Rightarrow> nat set" where
  "pinned s = homes s ` {0..<nat (lh_n s)}"

definition log_ok :: "'a logst_scheme \<Rightarrow> nat set \<Rightarrow> bool" where
  "log_ok s H \<longleftrightarrow> BC s (pinned s) H \<and> 0 \<le> lh_n s \<and> lh_n s \<le> int LOGBLOCKS \<and> inj_on (homes s) {0..<nat (lh_n s)} \<and>
     pinned s \<inter> log_area (log_start s) = {} \<and> log_dev s = ROOTDEV \<and> hdr_n (disk s (log_start s)) = 0"

lemma log_okD:
  assumes "log_ok s H"
  shows "BC s (pinned s) H" "0 \<le> lh_n s" "lh_n s \<le> int LOGBLOCKS" "inj_on (homes s) {0..<nat (lh_n s)}"
    "pinned s \<inter> log_area (log_start s) = {}" "log_dev s = ROOTDEV" "hdr_n (disk s (log_start s)) = 0"
    "card (pinned s) = nat (lh_n s)"
  using assms by (simp_all add: log_ok_def pinned_def card_image)

lemma log_scan_spec:
  "log_scan k i f bno = (if \<exists>j \<in> {i..<i + k}. f j = bno then LEAST j. i \<le> j \<and> f j = bno else i + k)"
proof (induction k arbitrary: i)
  case (Suc k)
  show ?case
  proof (cases "f i = bno")
    case True
    then have "(LEAST j. i \<le> j \<and> f j = bno) = i" by (intro Least_equality) auto
    then show ?thesis using True by auto
  next
    case False
    then have "i \<le> j \<and> f j = bno \<longleftrightarrow> Suc i \<le> j \<and> f j = bno" for j by (auto simp: le_less Suc_le_eq)
    moreover have "{i..<i + Suc k} = insert i {Suc i..<Suc i + k}" by auto
    then have "(\<exists>j \<in> {i..<i + Suc k}. f j = bno) \<longleftrightarrow> (\<exists>j \<in> {Suc i..<Suc i + k}. f j = bno)"
      using False by simp
    ultimately show ?thesis using False Suc [of "Suc i"] by simp
  qed
qed simp

lemma log_scan_cases:
  obtains (old) "log_scan k 0 f bno < k" "f (log_scan k 0 f bno) = bno"
  | (new) "log_scan k 0 f bno = k" "\<forall>j < k. f j \<noteq> bno"
proof (cases "\<exists>j \<in> {0..<0 + k}. f j = bno")
  case True
  then obtain j where j: "j < k" "f j = bno" by auto
  then have "(LEAST j. 0 \<le> j \<and> f j = bno) \<le> j" "f (LEAST j. 0 \<le> j \<and> f j = bno) = bno"
    using LeastI [of "\<lambda>j. 0 \<le> j \<and> f j = bno" j] by (auto intro: Least_le)
  then show thesis using old j log_scan_spec [of k 0 f bno] True by simp
next
  case False
  then show thesis using new log_scan_spec [of k 0 f bno] by auto
qed

lemma log_write_ok:
  assumes ok: "log_ok s H" and n: "n \<in> H" "cached s n = Some b" "n \<notin> log_area (log_start s)" "n < 2 ^ 32"
    and room: "lh_n s < int LOGBLOCKS" "1 \<le> log_outstanding s"
  shows "\<exists>s'. log_write b s = Ok ((), s') \<and> log_ok s' H \<and> pinned s' = insert n (pinned s) \<and> cached s' = cached s \<and>
    view s' = view s \<and> disk s' = disk s \<and> dwrites s' = dwrites s \<and>
    lh_n s' = (if n \<in> pinned s then lh_n s else lh_n s + 1) \<and> log_start s' = log_start s \<and>
    log_outstanding s' = log_outstanding s \<and> log_committing s' = log_committing s \<and>
    logst.more s' = logst.more s \<and> cur_pid s' = cur_pid s"
proof -
  note d = log_okD [OF ok]
  have bn: "b_blockno (bufs s b) = n" using BC_buf(2) [OF d(1) _ n(2)] n(1) by (simp add: is_block_def)
  have un: "unat (of_nat n :: u32) = n" using n(4) by (simp add: unat_of_nat_small)
  let ?k = "nat (lh_n s)" let ?w = "of_nat n :: u32"
  have mem: "n \<in> pinned s \<longleftrightarrow> (\<exists>j < ?k. lh_block s j = ?w)"
  proof -
    have "n = unat (lh_block s j) \<longleftrightarrow> lh_block s j = ?w" for j using un word_eq_unatI [of "lh_block s j" ?w] by auto
    then show ?thesis by (auto simp: pinned_def homes_def image_iff)
  qed
  show ?thesis
  proof (cases rule: log_scan_cases [of ?k "lh_block s" ?w])
    case old
    have "s\<lparr>lh_block := (lh_block s)(log_scan ?k 0 (lh_block s) ?w := ?w)\<rparr> = s"
      using fun_upd_idem [of "lh_block s", OF old(2)] by simp
    then have "log_write b s = Ok ((), s)"
      using room old(1) d(2) by (simp add: log_write_def bn Let_def)
    moreover have "n \<in> pinned s" using old mem by blast
    ultimately show ?thesis using ok by (intro exI [of _ s]) auto
  next
    case new
    then have np: "n \<notin> pinned s" using mem by blast
    define s1 where "s1 = s\<lparr>lh_block := (lh_block s)(?k := ?w)\<rparr>"
    define s' where "s' = (bpin b s1)\<lparr>lh_n := lh_n s + 1\<rparr>"
    have run: "log_write b s = Ok ((), s')"
      using room new(1) d(2) by (simp add: log_write_def bn Let_def s'_def s1_def)
    have bc1: "BC s1 (pinned s) H" "cached s1 n = Some b" using d(1) n(2) by (simp_all add: s1_def)
    note p = BC_bpin [OF bc1(1) n(1) np bc1(2)]
    have up: "bpin b s1 = s1\<lparr>bufs := bufs (bpin b s1)\<rparr>" by (simp add: bpin_def upd_buf_def)
    have f: "lh_block s' = (lh_block s)(?k := ?w)" "lh_n s' = lh_n s + 1" "log_start s' = log_start s" "log_dev s' = log_dev s"
      "log_outstanding s' = log_outstanding s" "log_committing s' = log_committing s" "logst.more s' = logst.more s" "cur_pid s' = cur_pid s"
      unfolding s'_def by (subst up; simp add: s1_def)+
    have k: "nat (lh_n s') = Suc ?k" using d(2) f(2) by simp
    have h: "homes s' i = (if i = ?k then n else homes s i)" for i by (simp add: homes_def f(1) un)
    have "{0..<nat (lh_n s')} = insert ?k {0..<?k}" by (auto simp: k)
    then have pin: "pinned s' = insert n (pinned s)" unfolding pinned_def h by auto
    have "inj_on (homes s') {0..<nat (lh_n s')}"
      using d(4) np unfolding k h by (auto simp: inj_on_def pinned_def less_Suc_eq)
    moreover have "BC s' (pinned s') H" "cached s' = cached s" "view s' = view s" "disk s' = disk s" "dwrites s' = dwrites s"
      unfolding pin using p by (simp_all add: s'_def s1_def)
    ultimately show ?thesis using run pin d np f n(3) room by (intro exI [of _ s']) (simp add: log_ok_def)
  qed
qed

lemma log_write_panics:
  "lh_n s \<ge> int LOGBLOCKS \<Longrightarrow> log_write b s = Panic ''too big a transaction''"
  "lh_n s < int LOGBLOCKS \<Longrightarrow> log_outstanding s < 1 \<Longrightarrow> log_write b s = Panic ''log_write outside of trans''"
  by (simp_all add: log_write_def)

subsection \<open>Commit\<close>

text \<open>
  First the disk alone: writing the log blocks, the header \<open>h1\<close>, the home blocks and an empty header \<open>h0\<close>, in this order,
  is atomic with respect to \<open>replay\<close>; the write of \<open>h1\<close> is the commit point.
\<close>

definition commit_writes :: "nat \<Rightarrow> nat \<Rightarrow> (nat \<Rightarrow> nat) \<Rightarrow> (nat \<Rightarrow> block) \<Rightarrow> block \<Rightarrow> block \<Rightarrow> (nat \<times> block) list" where
  "commit_writes st n f V h1 h0 =
     map (\<lambda>i. (st + 1 + i, V (f i))) [0..<n] @ [(st, h1)] @ map (\<lambda>i. (f i, V (f i))) [0..<n] @ [(st, h0)]"

lemma replay_committed:
  assumes h: "hdr_n (d start) = n" "\<forall>i < n. hdr_home (d start) i = f i \<and> d (start + 1 + i) = V (f i)"
    and off: "\<forall>b. b \<notin> log_area start \<longrightarrow> b \<notin> f ` {0..<n} \<longrightarrow> d b = V b"
  shows "same_off start (replay start d) V"
proof -
  have eq: "map (\<lambda>i. (hdr_home (d start) i, d (start + 1 + i))) [0..<n] = map (\<lambda>i. (f i, V (f i))) [0..<n]"
    using h(2) by (intro map_cong) auto
  have "replay start d b = (if b \<in> f ` {0..<n} then V b else d b)" for b
    unfolding replay_def h(1) eq using apply_writes_in [of "[0..<n]" "\<lambda>i. V (f i)" V f d b] by simp
  then show ?thesis using off by (simp add: same_off_def)
qed

lemma log_slots:
  "apply_writes d (map (\<lambda>i. (Suc (st + i), V (f i))) [0..<n]) b =
     (if b \<in> (\<lambda>i. Suc (st + i)) ` {0..<n} then V (f (b - Suc st)) else d b)"
  using apply_writes_in [of "[0..<n]" "\<lambda>i. V (f i)" "\<lambda>b. V (f (b - Suc st))" "\<lambda>i. Suc (st + i)" d b] by simp

lemma commit_crash:
  assumes n: "n \<le> LOGBLOCKS" and f: "\<forall>i < n. f i \<notin> log_area st" and h1: "hdr_n h1 = n" "\<forall>i < n. hdr_home h1 i = f i"
    and h0: "hdr_n h0 = 0" and d: "hdr_n (d st) = 0" and V: "\<forall>b. b \<notin> f ` {0..<n} \<longrightarrow> V b = d b"
  shows "log_valid st (apply_writes d (take k (commit_writes st n f V h1 h0))) \<and>
    same_off st (replay st (apply_writes d (take k (commit_writes st n f V h1 h0)))) (if k \<le> n then d else V)"
    "same_off st (apply_writes d (commit_writes st n f V h1 h0)) V"
proof -
  let ?W1 = "\<lambda>n. map (\<lambda>i. (st + 1 + i, V (f i))) [0..<n]" let ?ws = "commit_writes st n f V h1 h0"
  define d2 where "d2 = (apply_writes d (?W1 n))(st := h1)"
  have slot: "d2 (st + 1 + i) = V (f i)" if "i < n" for i using that by (simp add: d2_def log_slots)
  have H: "d2 st = h1" by (simp add: d2_def)
  have v2: "log_valid st d2" using h1 n f by (simp add: log_valid_def H)
  have off: "apply_writes d (?W1 k) b = d b" if "b \<notin> log_area st" "k \<le> n" for b k
    using that n by (auto simp: log_slots log_area_def)
  have com: "same_off st (replay st d2) V"
    using h1 slot V off by (intro replay_committed [where f = f and n = n]) (auto simp: H d2_def)
  have eqW: "map (\<lambda>i. (f i, V (f i))) [0..<j] = map (\<lambda>i. (hdr_home (d2 st) i, d2 (st + 1 + i))) [0..<j]" if "j \<le> n" for j
    using slot h1(2) that by (intro map_cong) (auto simp: H)
  have full: "apply_writes d2 (map (\<lambda>i. (f i, V (f i))) [0..<n]) = replay st d2" unfolding eqW [OF order_refl] replay_def H h1(1) ..
  have v3: "log_valid st (replay st d2)" using install_prefix(1) [OF v2 refl order_refl] by (simp add: replay_def)
  have all: "apply_writes d ?ws = (replay st d2)(st := h0)" 
    unfolding full [symmetric] by (simp add: commit_writes_def d2_def)
  show "same_off st (apply_writes d ?ws) V" using com unfolding all by (auto simp: same_off_def)
  show "log_valid st (apply_writes d (take k ?ws)) \<and> same_off st (replay st (apply_writes d (take k ?ws))) (if k \<le> n then d else V)"
  proof (cases "k \<le> n")
    case k: True
    then have t: "take k ?ws = ?W1 k" by (simp add: commit_writes_def take_map)
    have "apply_writes d (?W1 k) st = d st" by (auto simp: log_slots)
    then have "hdr_n (apply_writes d (?W1 k) st) = 0" using d by simp
    then show ?thesis using k off replay_clean clean_valid unfolding t by (simp add: same_off_def)
  next
    case k: False
    show ?thesis
    proof (cases "k \<le> 2 * n + 1")
      case True
      then obtain j where j: "k = Suc n + j" "j \<le> n" using k by (metis add_le_cancel_left le_add_diff_inverse mult_2 not_less_eq_eq Suc_eq_plus1 add_Suc)
      have t: "apply_writes d (take k ?ws) = apply_writes d2 (map (\<lambda>i. (hdr_home (d2 st) i, d2 (st + 1 + i))) [0..<j])"
        unfolding eqW [OF j(2), symmetric] using j by (simp add: commit_writes_def take_map d2_def)
      show ?thesis using install_prefix [OF v2 refl _ t] com k j h1(1) by (simp add: H)
    next
      case False
      then have t: "take k ?ws = ?ws" by (simp add: commit_writes_def)
      show ?thesis using clear_header [OF v3 h0] same_off_trans [OF _ com] k unfolding t all by simp
    qed
  qed
qed

lemma commit_runs:
  assumes ok: "log_ok s {}" and room: "lh_n s < int NBUF" and pos: "lh_n s > 0"
  shows "\<exists>s' h1 h0. commit s = Ok ((), s') \<and> log_ok s' {} \<and> lh_n s' = 0 \<and>
    dwrites s' = dwrites s @ commit_writes (log_start s) (nat (lh_n s)) (homes s) (view s) h1 h0 \<and>
    disk s' = apply_writes (disk s) (commit_writes (log_start s) (nat (lh_n s)) (homes s) (view s) h1 h0) \<and>
    hdr_n h1 = nat (lh_n s) \<and> (\<forall>i < nat (lh_n s). hdr_home h1 i = homes s i) \<and> hdr_n h0 = 0 \<and>
    log_start s' = log_start s \<and> log_outstanding s' = log_outstanding s \<and> log_committing s' = log_committing s \<and>
    logst.more s' = logst.more s \<and> cur_pid s' = cur_pid s"
proof -
  note d = log_okD [OF ok]
  let ?st = "log_start s" let ?n = "nat (lh_n s)" let ?h = "homes s" let ?V = "view s" let ?P = "pinned s"
  let ?W1 = "map (\<lambda>i. (?st + 1 + i, ?V (?h i))) [0..<?n]" let ?W2 = "map (\<lambda>i. (?h i, ?V (?h i))) [0..<?n]"
  have N: "?n \<le> LOGBLOCKS" "card ?P < NBUF" using d(3,8) room pos by simp_all
  have hP: "\<forall>i \<in> {0..<0 + ?n}. ?h i \<in> ?P" by (simp add: pinned_def)
  then have hA: "\<forall>i \<in> {0..<0 + ?n}. ?h i \<notin> log_area ?st" using d(5) by blast
  obtain s1 where 1: "write_log s = Ok ((), s1)" "wrote s ?P ?W1 s1"
    using write_log_loop_wrote [OF d(1,6) N(2) d(5) _ hP] N(1) by (auto simp: write_log_def)
  then have w1: "BC s1 ?P {}" "view s1 = apply_writes ?V ?W1" "bc_rest s1 = bc_rest s" by (simp_all add: wrote_def)
  note f1 = bc_rest_log [OF w1(3)] homes_rest [OF w1(3)]
  define h1 where "h1 = head_block (lh_n s) (lh_block s) (view s1 ?st)"
  have "?st \<notin> ?P" using d(5) by (auto simp: disjoint_iff)
  then obtain s2 where 2: "write_head s1 = Ok ((), s2)" "wrote s1 ?P [(?st, h1)] s2"
    using write_head_wrote [OF w1(1)] f1 d(6) N(2) by (auto simp: h1_def)
  then have w2: "BC s2 ?P {}" "view s2 = (view s1)(?st := h1)" "bc_rest s2 = bc_rest s1" by (simp_all add: wrote_def)
  note f2 = bc_rest_log [OF w2(3)] homes_rest [OF w2(3)]
  have eq: "map (\<lambda>i. (homes s2 i, view s2 (log_start s2 + 1 + i))) [0..<0 + ?n] = ?W2"
    using f1 f2 by (intro map_cong) (auto simp: w2(2) w1(2) log_slots)
  have "\<exists>s'. install_loop ?n 0 False s2 = Ok ((), s') \<and> wrote s2 {} ?W2 s'"
    unfolding eq [symmetric] using w2(1) N d(4,5) hA d(6) f1 f2
    by (intro install_loop_wrote [of s2 ?P]) (simp_all add: pinned_def)
  then obtain s3 where 3: "install_trans False s2 = Ok ((), s3)" "wrote s2 {} ?W2 s3" using f1 f2 by (auto simp: install_trans_def)
  then have w3: "BC s3 {} {}" "bc_rest s3 = bc_rest s2" by (simp_all add: wrote_def)
  note f3 = bc_rest_log [OF w3(2)]
  define h0 where "h0 = head_block 0 (lh_block s3) (view s3 ?st)"
  have "\<exists>s'. write_head (s3\<lparr>lh_n := 0\<rparr>) = Ok ((), s') \<and> wrote (s3\<lparr>lh_n := 0\<rparr>) {} [(?st, h0)] s'"
    using write_head_wrote [of "s3\<lparr>lh_n := 0\<rparr>" "{}"] w3(1) f1 f2 f3 d(6) by (simp add: h0_def param_defs)
  then obtain s4 where 4: "write_head (s3\<lparr>lh_n := 0\<rparr>) = Ok ((), s4)" "wrote (s3\<lparr>lh_n := 0\<rparr>) {} [(?st, h0)] s4" by blast
  have w4: "BC s4 {} {}" "disk s4 = apply_writes (disk s) (commit_writes ?st ?n ?h ?V h1 h0)"
    "dwrites s4 = dwrites s @ commit_writes ?st ?n ?h ?V h1 h0" "bc_rest s4 = bc_rest (s3\<lparr>lh_n := 0\<rparr>)"
    using 1(2) 2(2) 3(2) 4(2) by (simp_all add: wrote_def commit_writes_def)
  note f4 = bc_rest_log [OF w4(4)]
  have H: "hdr_n h0 = 0" "hdr_n h1 = ?n" "\<forall>i < ?n. hdr_home h1 i = ?h i"
    using head_block_n [of 0] head_block_n [OF d(2,3)] head_block_home by (simp_all add: h0_def h1_def homes_def)
  have run: "commit s = Ok ((), s4)" using pos 1(1) 2(1) 3(1) 4(1) by (simp add: commit_def)
  have "disk s4 = (disk s3)(?st := h0)" using 4(2) by (simp add: wrote_def)
  then have "log_ok s4 {}" using w4(1) f4 f3 f2 f1 d(6) H(1) by (simp add: log_ok_def pinned_def)
  then show ?thesis using run f4 f3 f2 f1 w4(2,3) H
    by (intro exI [of _ s4] exI [of _ h1] exI [of _ h0]) simp
qed

subsection \<open>What the file system relies on\<close>

text \<open>
  The laws of \<^verbatim>\<open>bread\<close>, \<^verbatim>\<open>brelse\<close> and of a logged update, in terms of \<open>log_ok\<close>. \<open>log_rest\<close> is what they leave alone.
\<close>

definition log_rest :: "'a logst_scheme \<Rightarrow> nat \<times> int \<times> bool \<times> 'a \<times> int" where
  "log_rest s = (log_start s, log_outstanding s, log_committing s, logst.more s, cur_pid s)"

lemma log_restD:
  assumes "log_rest s' = log_rest s"
  shows "log_start s' = log_start s" "log_outstanding s' = log_outstanding s" "log_committing s' = log_committing s"
    "logst.more s' = logst.more s" "cur_pid s' = cur_pid s"
  using assms by (simp_all add: log_rest_def)

lemma log_ok_cong:
  assumes "log_ok s H" "BC s' (pinned s) H'" "bc_rest s' = bc_rest s" "hdr_n (disk s' (log_start s)) = 0"
  shows "log_ok s' H'" "pinned s' = pinned s" "log_rest s' = log_rest s" "lh_n s' = lh_n s"
proof -
  note f = bc_rest_log [OF assms(3)] homes_rest [OF assms(3)]
  show p: "pinned s' = pinned s" using f by (simp add: pinned_def)
  show "log_rest s' = log_rest s" "lh_n s' = lh_n s" using f by (simp_all add: log_rest_def)
  show "log_ok s' H'" using log_okD [OF assms(1)] assms(2,4) f p by (simp add: log_ok_def)
qed

lemma log_bread:
  assumes ok: "log_ok s H" and n: "n \<notin> H" "n \<in> pinned s \<or> card (pinned s \<union> H) < NBUF"
  shows "\<exists>b s'. bread ROOTDEV n s = Ok (b, s') \<and> log_ok s' (insert n H) \<and> cached s' n = Some b \<and> buf_data s' b = view s n \<and>
    (\<forall>m \<in> H. cached s' m = cached s m) \<and> view s' = view s \<and> disk s' = disk s \<and> dwrites s' = dwrites s \<and>
    pinned s' = pinned s \<and> lh_n s' = lh_n s \<and> log_rest s' = log_rest s"
proof -
  obtain b s' where r: "bread ROOTDEV n s = Ok (b, s')" "BC s' (pinned s) (insert n H)" "cached s' n = Some b"
    "\<forall>m \<in> pinned s \<union> H. cached s' m = cached s m" "view s' = view s" "disk s' = disk s" "dwrites s' = dwrites s"
    "bc_rest s' = bc_rest s" using bc.rd_law [OF log_okD(1) [OF ok] n] by blast
  have h: "hdr_n (disk s' (log_start s)) = 0" using log_okD(7) [OF ok] r(6) by simp
  show ?thesis using r log_ok_cong [OF ok r(2,8) h] bc.dat_law [OF r(2) _ r(3)]
    by (intro exI [of _ b] exI [of _ s']) simp
qed

lemma log_brelse:
  assumes ok: "log_ok s H" and n: "n \<in> H" "cached s n = Some b" "n \<in> pinned s \<or> view s n = disk s n"
  shows "\<exists>s'. brelse b s = Ok ((), s') \<and> log_ok s' (H - {n}) \<and> cached s' = cached s \<and> view s' = view s \<and> disk s' = disk s \<and>
    dwrites s' = dwrites s \<and> pinned s' = pinned s \<and> lh_n s' = lh_n s \<and> log_rest s' = log_rest s"
proof -
  obtain s' where r: "brelse b s = Ok ((), s')" "BC s' (pinned s) (H - {n})" "cached s' = cached s" "view s' = view s"
    "disk s' = disk s" "dwrites s' = dwrites s" "bc_rest s' = bc_rest s" using bc.rel_law [OF log_okD(1) [OF ok] n] by blast
  have h: "hdr_n (disk s' (log_start s)) = 0" using log_okD(7) [OF ok] r(5) by simp
  show ?thesis using r log_ok_cong [OF ok r(2,7) h] by (intro exI [of _ s']) simp
qed

lemma log_modify:
  assumes ok: "log_ok s H" and n: "n \<in> H" "cached s n = Some b" "n \<notin> log_area (log_start s)" "n < 2 ^ 32"
    and room: "lh_n s < int LOGBLOCKS" "1 \<le> log_outstanding s"
  shows "\<exists>s'. log_write b (set_data b d s) = Ok ((), s') \<and> log_ok s' H \<and> cached s' = cached s \<and> view s' = (view s)(n := d) \<and>
    disk s' = disk s \<and> dwrites s' = dwrites s \<and> pinned s' = insert n (pinned s) \<and>
    lh_n s' = (if n \<in> pinned s then lh_n s else lh_n s + 1) \<and> log_rest s' = log_rest s"
proof -
  let ?s = "set_data b d s"
  have r: "BC ?s (pinned s) H" "cached ?s = cached s" "view ?s = (view s)(n := d)" "disk ?s = disk s" "dwrites ?s = dwrites s"
    "bc_rest ?s = bc_rest s" using bc.upd_law [OF log_okD(1) [OF ok] n(1,2), of d] by simp_all
  have h: "hdr_n (disk ?s (log_start s)) = 0" using log_okD(7) [OF ok] r(4) by simp
  note c = log_ok_cong [OF ok r(1,6) h]
  note f = log_restD [OF c(3)]
  have n': "cached ?s n = Some b" "n \<notin> log_area (log_start ?s)" "lh_n ?s < int LOGBLOCKS" "1 \<le> log_outstanding ?s"
    using n room r(2) c f by simp_all
  show ?thesis using log_write_ok [OF c(1) n(1) n'(1,2) n(4) n'(3,4)] r c f unfolding log_rest_def by fastforce
qed

text \<open>The usage pattern of the comment above \<^verbatim>\<open>log_write\<close>: read a block, change it, log it, release it.\<close>

lemma logged_update:
  assumes ok: "log_ok s H" and n: "n \<notin> H" "n \<notin> log_area (log_start s)" "n < 2 ^ 32"
    and room: "lh_n s < int LOGBLOCKS" "1 \<le> log_outstanding s" "card (pinned s \<union> H) < NBUF"
  shows "\<exists>s'. kbind (bread ROOTDEV n s) (\<lambda>(b, s1). kbind (log_write b (set_data b (g (buf_data s1 b)) s1)) (\<lambda>(_, s2). brelse b s2)) = Ok ((), s') \<and>
    log_ok s' H \<and> view s' = (view s)(n := g (view s n)) \<and> disk s' = disk s \<and> dwrites s' = dwrites s \<and>
    (\<forall>m \<in> H. cached s' m = cached s m) \<and> pinned s' = insert n (pinned s) \<and>
    lh_n s' = (if n \<in> pinned s then lh_n s else lh_n s + 1) \<and> log_rest s' = log_rest s"
proof -
  obtain b s1 where 1: "bread ROOTDEV n s = Ok (b, s1)" "log_ok s1 (insert n H)" "cached s1 n = Some b" "buf_data s1 b = view s n"
    "\<forall>m \<in> H. cached s1 m = cached s m" "view s1 = view s" "disk s1 = disk s" "dwrites s1 = dwrites s" "pinned s1 = pinned s"
    "lh_n s1 = lh_n s" "log_rest s1 = log_rest s" using log_bread [OF ok n(1)] room(3) by blast
  note f = log_restD [OF 1(11)]
  have "n \<in> insert n H" "n \<notin> log_area (log_start s1)" "lh_n s1 < int LOGBLOCKS" "1 \<le> log_outstanding s1" using n room f 1 by simp_all
  from log_modify [OF 1(2) this(1) 1(3) this(2) n(3) this(3,4), of "g (buf_data s1 b)"]
  obtain s2 where 2: "log_write b (set_data b (g (buf_data s1 b)) s1) = Ok ((), s2)" "log_ok s2 (insert n H)" "cached s2 = cached s1"
    "view s2 = (view s1)(n := g (view s n))" "disk s2 = disk s1" "dwrites s2 = dwrites s1" "pinned s2 = insert n (pinned s1)"
    "lh_n s2 = (if n \<in> pinned s1 then lh_n s1 else lh_n s1 + 1)" "log_rest s2 = log_rest s1" using 1(4) by auto
  have "cached s2 n = Some b" "n \<in> pinned s2 \<or> view s2 n = disk s2 n" using 2 1(3) by simp_all
  then obtain s3 where 3: "brelse b s2 = Ok ((), s3)" "log_ok s3 (insert n H - {n})" "cached s3 = cached s2" "view s3 = view s2"
    "disk s3 = disk s2" "dwrites s3 = dwrites s2" "pinned s3 = pinned s2" "lh_n s3 = lh_n s2" "log_rest s3 = log_rest s2"
    using log_brelse [OF 2(2), of n b] by auto
  have "insert n H - {n} = H" using n(1) by simp
  then show ?thesis using 1 2 3 by (intro exI [of _ s3]) simp
qed

subsection \<open>Crashes\<close>

text \<open>
  The machine after power-up on the disk \<open>d\<close>, before \<^verbatim>\<open>initlog\<close>; and the disks that any number of recoveries, each cut short after
  some of its writes, can leave.
\<close>

definition boot_log :: "(nat \<Rightarrow> block) \<Rightarrow> logst" where
  "boot_log d = \<lparr>bufs = bufs (boot_cache d), disk = d, dwrites = [], cur_pid = 1, log_start = 0, log_outstanding = 0,
     log_committing = False, log_dev = 0, lh_n = 0, lh_block = (\<lambda>_. 0)\<rparr>"

inductive crashes :: "nat \<Rightarrow> (nat \<Rightarrow> block) \<Rightarrow> (nat \<Rightarrow> block) \<Rightarrow> bool" for start d where
  crash_now: "crashes start d d"
| crash_again: "crashes start d e \<Longrightarrow> initlog ROOTDEV start (boot_log e) = Ok ((), s') \<Longrightarrow>
    crashes start d (apply_writes e (take k (dwrites s')))"

lemma BC_boot_log: "BC (boot_log d) {} {}"
  using BC_boot [of d] cache_cong(1) [of "boot_log d" "boot_cache d"] boot_cache_ok(2,3) by (simp add: boot_log_def)

lemma initlog_recovers:
  assumes "log_valid start d"
  shows "\<exists>s'. initlog ROOTDEV start (boot_log d) = Ok ((), s') \<and> log_ok s' {} \<and> lh_n s' = 0 \<and> log_start s' = start \<and>
    log_outstanding s' = 0 \<and> \<not> log_committing s' \<and>
    same_off start (disk s') (replay start d) \<and>
    (\<forall>k. log_valid start (apply_writes d (take k (dwrites s'))) \<and>
       same_off start (replay start (apply_writes d (take k (dwrites s')))) (replay start d))"
proof -
  let ?s = "boot_log d\<lparr>log_start := start, log_dev := ROOTDEV\<rparr>"
  have bc: "BC ?s {} {}" using BC_boot_log by simp
  have "log_dev ?s = ROOTDEV" "log_valid (log_start ?s) (disk ?s)" using assms by (simp_all add: boot_log_def)
  from recover_wrote [OF bc this] obtain s' ws where r: "recover_from_log ?s = Ok ((), s')" "BC s' {} {}" "dwrites s' = ws" "lh_n s' = 0"
    "hdr_n (disk s' start) = 0" "same_off start (disk s') (replay start d)"
    "\<forall>k. log_valid start (apply_writes d (take k ws)) \<and> same_off start (replay start (apply_writes d (take k ws))) (replay start d)"
    "log_start s' = start" "log_dev s' = ROOTDEV" "log_outstanding s' = 0" "\<not> log_committing s'" by (auto simp: boot_log_def)
  have "\<not> 4 + 4 * LOGBLOCKS \<ge> BSIZE" by (simp add: BSIZE_def param_defs)
  then have "initlog ROOTDEV start (boot_log d) = Ok ((), s')" using r(1) by (simp add: initlog_def)
  moreover have "log_ok s' {}" using r by (simp add: log_ok_def pinned_def)
  ultimately show ?thesis using r by (intro exI [of _ s']) simp
qed

lemma crashes_keep:
  "crashes start d e \<Longrightarrow> log_valid start d \<Longrightarrow> log_valid start e \<and> same_off start (replay start e) (replay start d)"
proof (induction rule: crashes.induct)
  case (crash_again e s' k)
  then have "log_valid start e" by simp
  from initlog_recovers [OF this] crash_again.hyps(2) have "log_valid start (apply_writes e (take k (dwrites s'))) \<and>
      same_off start (replay start (apply_writes e (take k (dwrites s')))) (replay start e)" by auto
  then show ?case using crash_again same_off_trans by blast
qed simp

subsection \<open>The contracts\<close>

text \<open>
  C15: Recovery is idempotent. From any disk whose log header is well formed, and after any number of recoveries each
  interrupted after an arbitrary one of its disk writes, \<^verbatim>\<open>initlog\<close> returns, empties the log, and leaves outside
  the log area exactly the blocks the original disk stands for, the committed transaction included.
\<close>

theorem recovery_idempotent:
  assumes "log_valid start d" "crashes start d e"
  shows "\<exists>s'. initlog ROOTDEV start (boot_log e) = Ok ((), s') \<and> log_ok s' {} \<and> lh_n s' = 0 \<and>
    hdr_n (disk s' start) = 0 \<and> same_off start (disk s') (replay start d)"
proof -
  have e: "log_valid start e" "same_off start (replay start e) (replay start d)" using crashes_keep [OF assms(2,1)] by simp_all
  from initlog_recovers [OF e(1)] obtain s' where s': "initlog ROOTDEV start (boot_log e) = Ok ((), s')" "log_ok s' {}" "lh_n s' = 0"
    "log_start s' = start" "same_off start (disk s') (replay start e)" by blast
  show ?thesis using s' log_okD(7) [OF s'(2)] same_off_trans [OF s'(5) e(2)] by auto
qed

theorem recovery_idempotent_witness:
  "let d = (\<lambda>n. if n = 2 then head_block 1 (\<lambda>_. 60) (\<lambda>_. 0) else if n = 3 then (\<lambda>_. 7) else (\<lambda>_. 0)) in
   \<exists>s'. initlog ROOTDEV 2 (boot_log d) = Ok ((), s') \<and> disk s' 60 = (\<lambda>_. 7) \<and> hdr_n (disk s' 2) = 0"
proof -
  let ?d = "\<lambda>n :: nat. if n = 2 then head_block 1 (\<lambda>_. 60) (\<lambda>_. 0) else if n = 3 then (\<lambda>_. 7) else (\<lambda>_. 0 :: u8)"
  have n: "hdr_n (head_block 1 (\<lambda>_. 60) (\<lambda>_. 0)) = 1" "hdr_home (head_block 1 (\<lambda>_. 60) (\<lambda>_. 0)) 0 = 60"
    using head_block_n [of 1] head_block_home [of 0 1] by (simp_all add: param_defs)
  have "log_valid 2 ?d" using n by (simp add: log_valid_def log_area_def param_defs)
  then obtain s' where s': "initlog ROOTDEV 2 (boot_log ?d) = Ok ((), s')" "hdr_n (disk s' 2) = 0" "same_off 2 (disk s') (replay 2 ?d)"
    using recovery_idempotent [OF _ crash_now] by blast
  moreover have "replay 2 ?d 60 = (\<lambda>_. 7)" using n by (simp add: replay_def)
  moreover have "(60 :: nat) \<notin> log_area 2" by (simp add: log_area_def param_defs)
  ultimately show ?thesis by (auto simp: same_off_def)
qed

text \<open>
  C1: A commit is atomic. Take a finished transaction whose \<open>n\<close> blocks are pinned in the cache (\<open>n\<close> smaller than the cache). \<^verbatim>\<open>commit\<close>
  returns with the log empty and every block home on disk. If instead power fails after any number \<open>k\<close> of the disk writes of
  \<^verbatim>\<open>commit\<close>, and again during any number of recoveries, then the next \<^verbatim>\<open>initlog\<close> that completes leaves outside the log area either
  all the old blocks or all the new ones: the old ones exactly when the header write, write \<open>n + 1\<close>, had not happened.
\<close>

theorem commit_crash_atomic:
  assumes ok: "log_ok s {}" and room: "lh_n s < int NBUF"
  shows "\<exists>s' ws. commit s = Ok ((), s') \<and> log_ok s' {} \<and> lh_n s' = 0 \<and> dwrites s' = dwrites s @ ws \<and>
    same_off (log_start s) (disk s') (view s) \<and>
    (\<forall>k e. crashes (log_start s) (apply_writes (disk s) (take k ws)) e \<longrightarrow>
       (\<exists>r. initlog ROOTDEV (log_start s) (boot_log e) = Ok ((), r) \<and>
         same_off (log_start s) (disk r) (if k \<le> nat (lh_n s) then disk s else view s)))"
proof -
  note d = log_okD [OF ok]
  let ?st = "log_start s"
  have "\<exists>s' ws. commit s = Ok ((), s') \<and> log_ok s' {} \<and> lh_n s' = 0 \<and> dwrites s' = dwrites s @ ws \<and>
      same_off ?st (disk s') (view s) \<and> (\<forall>k. log_valid ?st (apply_writes (disk s) (take k ws)) \<and>
      same_off ?st (replay ?st (apply_writes (disk s) (take k ws))) (if k \<le> nat (lh_n s) then disk s else view s))"
  proof (cases "lh_n s > 0")
    case False
    then have n: "lh_n s = 0" using d(2) by simp
    then have "view s = disk s" using bc.clean_law [OF d(1)] by (auto simp: pinned_def fun_eq_iff)
    then show ?thesis using ok n d(7) replay_clean [of "disk s" ?st] clean_valid [of "disk s" ?st]
      by (intro exI [of _ s] exI [of _ "[]"]) (simp add: commit_def)
  next
    case True
    have V: "\<forall>b. b \<notin> homes s ` {0..<nat (lh_n s)} \<longrightarrow> view s b = disk s b"
      using bc.clean_law [OF d(1)] by (simp add: pinned_def)
    have h: "nat (lh_n s) \<le> LOGBLOCKS" "\<forall>i < nat (lh_n s). homes s i \<notin> log_area ?st"
      using d(3,5) True by (auto simp: pinned_def disjoint_iff)
    show ?thesis using commit_runs [OF ok room True] commit_crash [OF h _ _ _ d(7) V] by metis
  qed
  then obtain s' ws where c: "commit s = Ok ((), s')" "log_ok s' {}" "lh_n s' = 0" "dwrites s' = dwrites s @ ws"
    "same_off ?st (disk s') (view s)" "\<forall>k. log_valid ?st (apply_writes (disk s) (take k ws)) \<and>
      same_off ?st (replay ?st (apply_writes (disk s) (take k ws))) (if k \<le> nat (lh_n s) then disk s else view s)" by blast
  have "\<exists>r. initlog ROOTDEV ?st (boot_log e) = Ok ((), r) \<and> same_off ?st (disk r) (if k \<le> nat (lh_n s) then disk s else view s)"
    if "crashes ?st (apply_writes (disk s) (take k ws)) e" for k e
    using crashes_keep [OF that] initlog_recovers [of ?st e] c(6) same_off_trans by meson
  then show ?thesis using c by blast
qed

text \<open>A transaction that has changed block 60.\<close>

lemma one_block_transaction:
  "\<exists>s :: logst. log_ok s {} \<and> lh_n s = 1 \<and> log_start s = 2 \<and> disk s 60 = (\<lambda>_. 0) \<and> view s 60 = (\<lambda>_. 7)"
proof -
  let ?s = "(boot_log (\<lambda>_ _. 0))\<lparr>log_start := 2, log_dev := ROOTDEV, log_outstanding := 1\<rparr>"
  have bc: "BC ?s {} {}" using BC_boot_log by simp
  have e: "hdr_n (\<lambda>_. 0) = 0" by (simp add: hdr_n_def get32_def map_replicate_const)
  have "log_ok ?s {}" using bc e unfolding log_ok_def by (simp add: pinned_def boot_log_def)
  from logged_update [OF this, of 60 "\<lambda>_ _. 7"] obtain s' where "log_ok s' {}" "view s' = (view ?s)(60 := (\<lambda>_. 7))" "disk s' = disk ?s"
    "lh_n s' = (if 60 \<in> pinned ?s then lh_n ?s else lh_n ?s + 1)" "log_rest s' = log_rest ?s"
    by (auto simp: log_area_def param_defs pinned_def boot_log_def)
  then show ?thesis by (intro exI [of _ s']) (simp add: boot_log_def pinned_def log_rest_def)
qed

theorem commit_crash_atomic_witness:
  "\<exists>s s' ws r. lh_n s = 1 \<and> view s 60 \<noteq> disk s 60 \<and> commit s = Ok ((), s') \<and> disk s' 60 = view s 60 \<and> dwrites s' = dwrites s @ ws \<and>
     initlog ROOTDEV 2 (boot_log (apply_writes (disk (s :: logst)) (take 1 ws))) = Ok ((), r) \<and> disk r 60 = disk s 60"
proof -
  obtain s :: logst where s: "log_ok s {}" "lh_n s = 1" "log_start s = 2" "disk s 60 = (\<lambda>_. 0)" "view s 60 = (\<lambda>_. 7)"
    using one_block_transaction by blast
  have off: "(60 :: nat) \<notin> log_area 2" by (simp add: log_area_def param_defs)
  have "lh_n s < int NBUF" using s(2) by (simp add: param_defs)
  from commit_crash_atomic [OF s(1) this] obtain s' ws where c: "commit s = Ok ((), s')" "dwrites s' = dwrites s @ ws"
    "same_off 2 (disk s') (view s)" "\<forall>k e. crashes 2 (apply_writes (disk s) (take k ws)) e \<longrightarrow>
       (\<exists>r. initlog ROOTDEV 2 (boot_log e) = Ok ((), r) \<and> same_off 2 (disk r) (if k \<le> nat (lh_n s) then disk s else view s))"
    unfolding s(3) by blast
  then obtain r where r: "initlog ROOTDEV 2 (boot_log (apply_writes (disk s) (take 1 ws))) = Ok ((), r)" "same_off 2 (disk r) (disk s)"
    using crash_now [of 2 "apply_writes (disk s) (take 1 ws)"] s(2) by fastforce
  have "disk s' 60 = view s 60" "disk r 60 = disk s 60" "view s 60 \<noteq> disk s 60"
    using c(3) r(2) off s(4,5) by (auto simp: same_off_def fun_eq_iff)
  then show ?thesis using s(2) c(1,2) r(1) by blast
qed

subsection \<open>Concurrent operations share the log\<close>

text \<open>No cache operation touches the fields of the log, whatever the state of the cache.\<close>

lemma disk_rw_rest [simp]: "bc_rest (virtio_disk_rw b wr s) = bc_rest s"
  by (simp add: virtio_disk_rw_def bc_rest_def Let_def)

lemma upd_buf_rest [simp]: "bc_rest (upd_buf b f s) = bc_rest s"
  by (simp add: bc_rest_def)

lemma cache_ops_rest:
  "bread dv n s = Ok (b, s') \<Longrightarrow> bc_rest s' = bc_rest s"
  "bwrite b s = Ok (u, s') \<Longrightarrow> bc_rest s' = bc_rest s"
  "brelse b s = Ok (u, s') \<Longrightarrow> bc_rest s' = bc_rest s"
  "bc_rest (set_data b d s) = bc_rest s" "bc_rest (bpin b s) = bc_rest s" "bc_rest (bunpin b s) = bc_rest s"
proof -
  have lk: "lock_buf b s = Ok (c, s') \<Longrightarrow> bc_rest s' = bc_rest s" for b c and s s' :: "'a bcache_scheme"
    by (auto simp: lock_buf_def)
  have "bget dv n s = Ok (b, s') \<Longrightarrow> bc_rest s' = bc_rest s" for s'
    by (auto simp: bget_def dest!: lk split: option.splits)
  then show "bread dv n s = Ok (b, s') \<Longrightarrow> bc_rest s' = bc_rest s"
    by (auto simp: bread_def split: if_splits prod.splits)
  show "bwrite b s = Ok (u, s') \<Longrightarrow> bc_rest s' = bc_rest s" by (auto simp: bwrite_def split: if_splits)
  show "brelse b s = Ok (u, s') \<Longrightarrow> bc_rest s' = bc_rest s"
    by (auto simp: brelse_def Let_def bc_rest_def split: if_splits)
  show "bc_rest (set_data b d s) = bc_rest s" "bc_rest (bpin b s) = bc_rest s" "bc_rest (bunpin b s) = bc_rest s"
    by (simp_all add: set_data_def bpin_def bunpin_def)
qed

lemma write_head_rest: "write_head s = Ok (u, s') \<Longrightarrow> bc_rest s' = bc_rest s"
  by (auto simp: write_head_def cache_ops_rest(4) dest!: cache_ops_rest(1-3) split: prod.splits)

lemma write_log_loop_rest: "write_log_loop k tail s = Ok (u, s') \<Longrightarrow> bc_rest s' = bc_rest s"
proof (induction k arbitrary: tail s)
  case (Suc k)
  then obtain a s1 b s2 s3 s4 s5 where "bread (log_dev s) (log_start s + tail + 1) s = Ok (a, s1)"
    "bread (log_dev s) (unat (lh_block s tail)) s1 = Ok (b, s2)" "bwrite a (set_data a (buf_data s2 b) s2) = Ok ((), s3)"
    "brelse b s3 = Ok ((), s4)" "brelse a s4 = Ok ((), s5)" "write_log_loop k (Suc tail) s5 = Ok (u, s')" by (auto split: prod.splits)
  then show ?case using Suc.IH cache_ops_rest by metis
qed simp

lemma install_loop_rest: "install_loop k tail r s = Ok (u, s') \<Longrightarrow> bc_rest s' = bc_rest s"
proof (induction k arbitrary: tail s)
  case (Suc k)
  then obtain a s1 b s2 s3 s4 s5 where "bread (log_dev s) (log_start s + tail + 1) s = Ok (a, s1)"
    "bread (log_dev s) (unat (lh_block s tail)) s1 = Ok (b, s2)" "bwrite b (set_data b (buf_data s2 a) s2) = Ok ((), s3)"
    "brelse a (if \<not> r then bunpin b s3 else s3) = Ok ((), s4)" "brelse b s4 = Ok ((), s5)" "install_loop k (Suc tail) r s5 = Ok (u, s')"
    by (auto split: prod.splits)
  then show ?case using Suc.IH cache_ops_rest by metis
qed simp

lemma commit_empties:
  assumes "commit s = Ok (u, s')" "0 \<le> lh_n s"
  shows "lh_n s' = 0" "log_outstanding s' = log_outstanding s" "log_committing s' = log_committing s"
proof -
  have "lh_n s' = 0 \<and> log_outstanding s' = log_outstanding s \<and> log_committing s' = log_committing s"
  proof (cases "lh_n s > 0")
    case True
    then obtain s1 s2 s3 where r: "write_log s = Ok ((), s1)" "write_head s1 = Ok ((), s2)" "install_trans False s2 = Ok ((), s3)"
      "write_head (s3\<lparr>lh_n := 0\<rparr>) = Ok (u, s')" using assms(1) by (auto simp: commit_def split: prod.splits)
    note f = bc_rest_log [OF write_log_loop_rest [OF r(1) [unfolded write_log_def]]] bc_rest_log [OF write_head_rest [OF r(2)]]
      bc_rest_log [OF install_loop_rest [OF r(3) [unfolded install_trans_def]]] bc_rest_log [OF write_head_rest [OF r(4)]]
    show ?thesis by (simp add: f)
  qed (use assms in \<open>auto simp: commit_def\<close>)
  then show "lh_n s' = 0" "log_outstanding s' = log_outstanding s" "log_committing s' = log_committing s" by simp_all
qed

text \<open>
  The file system calls in progress, interleaved: each has begun, has a number of \<^verbatim>\<open>log_write\<close>s left of the \<^verbatim>\<open>MAXOPBLOCKS\<close> it may make,
  and may end at any time; cache operations that leave the log alone may happen in between.
\<close>

inductive log_op :: "logst \<times> nat list \<Rightarrow> logst \<times> nat list \<Rightarrow> bool" where
  op_begin: "begin_op s = Ok ((), s') \<Longrightarrow> log_op (s, ops) (s', MAXOPBLOCKS # ops)"
| op_write: "i < length ops \<Longrightarrow> 0 < ops ! i \<Longrightarrow> log_write b s = Ok ((), s') \<Longrightarrow> log_op (s, ops) (s', ops[i := ops ! i - 1])"
| op_end: "i < length ops \<Longrightarrow> end_op s = Ok ((), s') \<Longrightarrow> log_op (s, ops) (s', take i ops @ drop (Suc i) ops)"
| op_cache: "bc_rest s' = bc_rest s \<Longrightarrow> log_op (s, ops) (s', ops)"

definition reserved :: "logst \<times> nat list \<Rightarrow> bool" where
  "reserved x \<longleftrightarrow> log_outstanding (fst x) = int (length (snd x)) \<and> 0 \<le> lh_n (fst x) \<and> \<not> log_committing (fst x) \<and>
     lh_n (fst x) + int (sum_list (snd x)) \<le> int LOGBLOCKS \<and> (\<forall>r \<in> set (snd x). r \<le> MAXOPBLOCKS)"

lemma log_write_fields:
  assumes "log_write b s = Ok (u, s')"
  shows "lh_n s \<le> lh_n s'" "lh_n s' \<le> lh_n s + 1" "log_outstanding s' = log_outstanding s" "log_committing s' = log_committing s"
  using assms by (auto simp: log_write_def Let_def bpin_def upd_buf_def split: if_splits)

lemma sum_list_remove: "i < length xs \<Longrightarrow> sum_list xs = xs ! i + sum_list (take i xs @ drop (Suc i) xs)" for xs :: "nat list"
  by (subst id_take_nth_drop [of i xs]) simp_all

lemma sum_list_dec: "i < length xs \<Longrightarrow> 0 < xs ! i \<Longrightarrow> Suc (sum_list (xs[i := xs ! i - 1])) = sum_list xs" for xs :: "nat list"
proof (induction xs arbitrary: i)
  case (Cons x xs)
  then show ?case by (cases i) auto
qed simp

lemma sum_list_bound: "\<forall>r \<in> set xs. r \<le> m \<Longrightarrow> sum_list xs \<le> length xs * m" for m :: nat
  by (induction xs) auto

lemma reserved_step: "log_op x y \<Longrightarrow> reserved x \<Longrightarrow> reserved y"
proof (induction rule: log_op.induct)
  case (op_begin s s' ops)
  have "lh_n s + (log_outstanding s + 1) * int MAXOPBLOCKS \<le> int LOGBLOCKS"
    and s': "s' = s\<lparr>log_outstanding := log_outstanding s + 1\<rparr>"
    using op_begin.hyps by (simp_all add: begin_op_def split: if_splits)
  moreover have "sum_list ops \<le> length ops * MAXOPBLOCKS" using op_begin.prems by (intro sum_list_bound) (simp add: reserved_def)
  then have "int (sum_list ops) \<le> int (length ops) * int MAXOPBLOCKS" by (metis of_nat_le_iff of_nat_mult)
  ultimately show ?case using op_begin.prems by (simp add: reserved_def algebra_simps)
next
  case (op_write i ops b s s')
  have "sum_list (ops[i := ops ! i - 1]) + 1 = sum_list ops" using sum_list_dec [OF op_write.hyps(1,2)] by simp
  moreover have "\<forall>r \<in> set (ops[i := ops ! i - 1]). r \<le> MAXOPBLOCKS"
  proof
    fix r assume "r \<in> set (ops[i := ops ! i - 1])"
    then have "r = ops ! i - 1 \<or> r \<in> set ops" using set_update_subset_insert [of ops i "ops ! i - 1"] by blast
    moreover have "ops ! i \<le> MAXOPBLOCKS" using op_write.prems op_write.hyps(1) by (simp add: reserved_def)
    ultimately show "r \<le> MAXOPBLOCKS" using op_write.prems by (auto simp: reserved_def)
  qed
  ultimately show ?case using op_write.prems log_write_fields [OF op_write.hyps(3)] by (simp add: reserved_def)
next
  case (op_end i ops s s')
  let ?ops = "take i ops @ drop (Suc i) ops"
  note sm = sum_list_remove [OF op_end.hyps(1)]
  have len: "length ?ops = length ops - 1" using op_end.hyps(1) by simp
  have sub: "\<forall>r \<in> set ?ops. r \<le> MAXOPBLOCKS" using op_end.prems by (auto simp: reserved_def dest: in_set_takeD in_set_dropD)
  let ?s1 = "s\<lparr>log_outstanding := log_outstanding s - 1\<rparr>"
  show ?case
  proof (cases "log_outstanding s = 1")
    case True
    then obtain s2 where c: "commit (?s1\<lparr>log_committing := True\<rparr>) = Ok ((), s2)" "s' = s2\<lparr>log_committing := False\<rparr>"
      using op_end by (auto simp: end_op_def Let_def reserved_def split: prod.splits)
    have "0 \<le> lh_n (?s1\<lparr>log_committing := True\<rparr>)" using op_end.prems by (simp add: reserved_def)
    note e = commit_empties [OF c(1) this]
    have "length ops = 1" using True op_end.prems by (simp add: reserved_def)
    then have nil: "?ops = []" using len op_end.hyps(1) by simp
    show ?thesis unfolding nil using e c(2) True by (simp add: reserved_def)
  next
    case False
    then have "s' = ?s1" using op_end by (auto simp: end_op_def Let_def reserved_def split: if_splits)
    then show ?thesis using op_end.prems op_end.hyps(1) sm len sub by (auto simp: reserved_def of_nat_diff simp del: length_append)
  qed
next
  case (op_cache s' s ops)
  then show ?case using bc_rest_log [OF op_cache.hyps] by (simp add: reserved_def)
qed

lemma reserved_reachable: "log_op\<^sup>*\<^sup>* x y \<Longrightarrow> reserved x \<Longrightarrow> reserved y"
  by (induction rule: rtranclp_induct) (auto intro: reserved_step)

text \<open>
  C16: The log never overflows. Start with an idle log and let file system calls begin, write and end in any
  interleaving, each making at most \<^verbatim>\<open>MAXOPBLOCKS\<close> calls of \<^verbatim>\<open>log_write\<close>, and each end of the last one committing. Then in every reachable state
  the space still owed to the calls in progress fits in the log, and a call that has not used up its share never runs into the panics of
  \<^verbatim>\<open>log_write\<close>.
\<close>

theorem log_reservation:
  assumes "log_op\<^sup>*\<^sup>* (s0, []) (s, ops)" "lh_n s0 = 0" "log_outstanding s0 = 0" "\<not> log_committing s0"
  shows "lh_n s + int (sum_list ops) \<le> int LOGBLOCKS \<and> log_outstanding s = int (length ops) \<and>
    (i < length ops \<and> 0 < ops ! i \<longrightarrow> (\<exists>s'. log_write b s = Ok ((), s')))"
proof -
  have r: "reserved (s, ops)" using reserved_reachable [OF assms(1)] assms(2-4) by (simp add: reserved_def)
  have "\<exists>s'. log_write b s = Ok ((), s')" if i: "i < length ops" "0 < ops ! i"
  proof -
    have "0 < sum_list ops" using sum_list_dec [OF i] by linarith
    moreover have "0 < length ops" using i(1) by linarith
    ultimately have "lh_n s < int LOGBLOCKS" "\<not> log_outstanding s < 1" using r by (simp_all add: reserved_def) 
    then show ?thesis by (simp add: log_write_def Let_def)
  qed
  then show ?thesis using r by (simp add: reserved_def)
qed

theorem log_reservation_witness:
  "\<exists>s s'. log_op\<^sup>*\<^sup>* (boot_log (\<lambda>_ _. 0), []) (s, [MAXOPBLOCKS, MAXOPBLOCKS]) \<and> log_outstanding s = 2 \<and> log_write 5 s = Ok ((), s')"
proof -
  let ?s = "boot_log (\<lambda>_ _. 0)" let ?s1 = "?s\<lparr>log_outstanding := 1\<rparr>" let ?s2 = "?s\<lparr>log_outstanding := 2\<rparr>"
  have "begin_op ?s = Ok ((), ?s1)" "begin_op ?s1 = Ok ((), ?s2)" by (simp_all add: begin_op_def boot_log_def param_defs)
  then have st: "log_op\<^sup>*\<^sup>* (?s, []) (?s2, [MAXOPBLOCKS, MAXOPBLOCKS])"
    by (meson op_begin rtranclp.rtrancl_refl rtranclp.rtrancl_into_rtrancl)
  have "lh_n ?s = 0" "log_outstanding ?s = 0" "\<not> log_committing ?s" by (simp_all add: boot_log_def)
  from log_reservation [OF st this, of 0 5] show ?thesis using st by (auto simp: param_defs)
qed

subsection \<open>A full log\<close>

lemma bread_no_buffers:
  assumes ok: "bc_ok s xs" and "\<forall>i < NBUF. \<not> is_block n (bufs s i) \<and> b_refcnt (bufs s i) \<noteq> 0"
  shows "bread ROOTDEV n s = Panic ''bget: no buffers''"
proof -
  have set: "set xs = {..<NBUF}" using ok by (auto simp: bc_ok_def dll_def)
  then have "find (\<lambda>i. b_dev (bufs s i) = ROOTDEV \<and> b_blockno (bufs s i) = n) xs = None" "find (\<lambda>i. b_refcnt (bufs s i) = 0) (rev xs) = None"
    using assms(2) by (auto simp: find_None_iff is_block_def)
  then show ?thesis unfolding bread_def bget_def dll_scan [OF bc_okD(1) [OF ok]] by simp
qed

lemma BC_full:
  assumes bc: "BC s P {}" and c: "card P = NBUF" and i: "i < NBUF"
  shows "in_blocks P (bufs s i)"
proof -
  note f = BC_facts [OF bc]
  let ?g = "\<lambda>n. the (cached s n)"
  have g: "?g n < NBUF" "is_block n (bufs s (?g n))" if n: "n \<in> P" for n
  proof -
    have "n \<in> P \<union> {}" using n by simp
    from BC_handle [OF bc this] obtain b where "cached s n = Some b" "b < NBUF" "is_block n (bufs s b)" by blast
    then show "?g n < NBUF" "is_block n (bufs s (?g n))" by simp_all
  qed
  have "inj_on ?g P"
  proof (rule inj_onI)
    fix x y assume "x \<in> P" "y \<in> P" "?g x = ?g y"
    then show "x = y" using g(2) [of x] g(2) [of y] by (simp add: is_block_def)
  qed
  then have "card (?g ` P) = NBUF" using c by (simp add: card_image)
  moreover have "?g ` P \<subseteq> {..<NBUF}" using g(1) by auto
  ultimately have "?g ` P = {..<NBUF}" by (intro card_subset_eq) simp_all
  then have "i \<in> ?g ` P" using i by simp
  then obtain n where n: "n \<in> P" "i = ?g n" by blast
  then show ?thesis using g(2) [OF n(1)] by simp
qed

text \<open>
  C31: A transaction that fills the log cannot be committed. \<^verbatim>\<open>log_write\<close> admits \<^verbatim>\<open>LOGBLOCKS\<close> blocks, and they pin as many buffers; as the cache has
  no more than these (\<^verbatim>\<open>NBUF\<close> equals \<^verbatim>\<open>LOGBLOCKS\<close>), the first \<^verbatim>\<open>bread\<close> of a log block in \<^verbatim>\<open>write_log\<close> panics.
\<close>

theorem full_log_commit_panics:
  assumes ok: "log_ok s {}" and full: "lh_n s = int LOGBLOCKS"
  shows "commit s = Panic ''bget: no buffers''"
proof -
  note d = log_okD [OF ok]
  have c: "card (pinned s) = NBUF" using d(8) full by (simp add: param_defs)
  obtain xs where xs: "bc_ok s xs" using BC_ok [OF d(1)] by blast
  let ?n = "log_start s + 0 + 1"
  have "?n \<in> log_area (log_start s)" by (simp add: log_area_def param_defs)
  then have n: "?n \<notin> pinned s" using d(5) by blast
  have "\<not> is_block ?n (bufs s i) \<and> b_refcnt (bufs s i) \<noteq> 0" if "i < NBUF" for i
    using BC_full [OF d(1) c that] n BC_facts(3) [OF d(1)] that by (auto simp: in_blocks_def is_block_def)
  then have "bread ROOTDEV ?n s = Panic ''bget: no buffers''" using xs by (intro bread_no_buffers) auto
  then have "write_log_loop (Suc 29) 0 s = Panic ''bget: no buffers''" unfolding write_log_loop.simps d(6) by simp
  moreover have "nat (lh_n s) = Suc 29" using full by (simp add: param_defs)
  ultimately have "write_log s = Panic ''bget: no buffers''" by (simp only: write_log_def)
  moreover have "lh_n s > 0" using full by (simp add: param_defs)
  ultimately show ?thesis by (simp add: commit_def)
qed

lemma transaction_of:
  "k \<le> LOGBLOCKS \<Longrightarrow> \<exists>s :: logst. log_ok s {} \<and> lh_n s = int k \<and> log_start s = 2 \<and> log_outstanding s = 1 \<and> pinned s = {100..<100 + k}"
proof (induction k)
  case 0
  let ?s = "(boot_log (\<lambda>_ _. 0))\<lparr>log_start := 2, log_dev := ROOTDEV, log_outstanding := 1\<rparr>"
  have bc: "BC ?s {} {}" using BC_boot_log by simp
  have "hdr_n (\<lambda>_. 0) = 0" by (simp add: hdr_n_def get32_def map_replicate_const)
  then have "log_ok ?s {}" using bc unfolding log_ok_def by (simp add: pinned_def boot_log_def)
  then show ?case by (intro exI [of _ ?s]) (simp add: pinned_def boot_log_def)
next
  case (Suc k)
  then obtain s :: logst where s: "log_ok s {}" "lh_n s = int k" "log_start s = 2" "log_outstanding s = 1" "pinned s = {100..<100 + k}" by auto
  have "100 + k \<notin> log_area (log_start s)" "100 + k < (2 :: nat) ^ 32" "lh_n s < int LOGBLOCKS" "card (pinned s \<union> {}) < NBUF"
    using s Suc.prems by (simp_all add: log_area_def param_defs)
  from logged_update [OF s(1) _ this(1-3) _ this(4)] obtain s' where "log_ok s' {}" "pinned s' = insert (100 + k) (pinned s)"
    "lh_n s' = (if 100 + k \<in> pinned s then lh_n s else lh_n s + 1)" "log_rest s' = log_rest s" using s(4) by auto
  then show ?case using s by (intro exI [of _ s']) (auto simp: log_rest_def)
qed

theorem full_log_commit_panics_witness:
  "\<exists>s :: logst. log_ok s {} \<and> lh_n s = int LOGBLOCKS \<and> commit s = Panic ''bget: no buffers''"
  using transaction_of [OF order_refl] full_log_commit_panics by blast

end
