(* ===== verification/Fs.thy ===== *)
theory Fs
  imports Fslog Vm Kstring
begin

section \<open>kernel/fs.c: blocks, inodes, directories and paths\<close>

text \<open>
  All of \<^verbatim>\<open>fs.c\<close> on top of the log. \<open>fsst\<close> adds the super block, the inode table, and what the code reaches through
  \<^verbatim>\<open>myproc()\<close>: the current directory and the user memory \<open>um\<close> that \<^verbatim>\<open>either_copyout\<close> and \<^verbatim>\<open>either_copyin\<close> work on.
  Inode pointers are indices into the table and null pointers are \<open>None\<close>. The structures on disk are kept as bytes at the offsets the
  C compiler gives them: a \<^verbatim>\<open>dinode\<close> is 64 bytes, a \<^verbatim>\<open>dirent\<close> 16. Messages printed with \<^verbatim>\<open>printf\<close> are left out. Where a kernel buffer
  is the source or destination of a transfer the model passes its bytes. Block, inode and size arithmetic is on natural
  numbers where the code's guards keep it below \<open>2 ^ 32\<close>, and on 32-bit words where the wrap-around is tested for
  (\<^verbatim>\<open>off + n < off\<close>).
\<close>

unbundle bit_operations_syntax

subsection \<open>fs.h, file.h, stat.h\<close>

definition ROOTINO :: nat where "ROOTINO = 1"
definition FSMAGIC :: nat where "FSMAGIC = 0x10203040"
definition NDIRECT :: nat where "NDIRECT = 12"
definition NINDIRECT :: nat where "NINDIRECT = BSIZE div 4"
definition MAXFILE :: nat where "MAXFILE = NDIRECT + NINDIRECT"
definition IPB :: nat where "IPB = BSIZE div 64"
definition BPB :: nat where "BPB = BSIZE * 8"
definition DIRSIZ :: nat where "DIRSIZ = 14"
definition T_DIR :: u16 where "T_DIR = 1"
definition T_FILE :: u16 where "T_FILE = 2"
definition T_DEVICE :: u16 where "T_DEVICE = 3"

lemmas fs_consts = ROOTINO_def FSMAGIC_def NDIRECT_def NINDIRECT_def MAXFILE_def IPB_def BPB_def DIRSIZ_def BSIZE_def

record superblock =
  sb_magic :: nat
  sb_size :: nat
  sb_nblocks :: nat
  sb_ninodes :: nat
  sb_nlog :: nat
  sb_logstart :: nat
  sb_inodestart :: nat
  sb_bmapstart :: nat

definition IBLOCK :: "nat \<Rightarrow> superblock \<Rightarrow> nat" where
  "IBLOCK i sb = i div IPB + sb_inodestart sb"

definition BBLOCK :: "nat \<Rightarrow> superblock \<Rightarrow> nat" where
  "BBLOCK b sb = b div BPB + sb_bmapstart sb"

record inode =
  i_dev :: nat
  i_inum :: nat
  i_ref :: int
  i_lock :: sleeplock
  i_valid :: bool
  i_type :: u16
  i_major :: u16
  i_minor :: u16
  i_nlink :: u16
  i_size :: u32
  i_addrs :: "nat \<Rightarrow> u32"

text \<open>An inode with every field zero.\<close>

definition no_inode :: inode where
  "no_inode = \<lparr>i_dev = 0, i_inum = 0, i_ref = 0, i_lock = initsleeplock, i_valid = False, i_type = 0, i_major = 0, i_minor = 0, i_nlink = 0,
     i_size = 0, i_addrs = (\<lambda>_. 0)\<rparr>"

record stat =
  st_dev :: nat
  st_ino :: nat
  st_type :: u16
  st_nlink :: u16
  st_size :: u64

record fsst = logst +
  sb :: superblock
  itable :: "nat \<Rightarrow> inode"
  um :: vm
  p_cwd :: nat

definition upd_inode :: "nat \<Rightarrow> (inode \<Rightarrow> inode) \<Rightarrow> 'a fsst_scheme \<Rightarrow> 'a fsst_scheme" where
  "upd_inode ip f s = s\<lparr>itable := (itable s)(ip := f (itable s ip))\<rparr>"

subsection \<open>Bytes of a block\<close>

definition get16 :: "block \<Rightarrow> nat \<Rightarrow> u16" where
  "get16 b off = le_word (map (\<lambda>k. b (off + k)) [0..<2])"

definition set16 :: "block \<Rightarrow> nat \<Rightarrow> u16 \<Rightarrow> block" where
  "set16 b off v = (\<lambda>i. if off \<le> i \<and> i < off + 2 then le_bytes 2 v ! (i - off) else b i)"

definition get_bytes :: "block \<Rightarrow> nat \<Rightarrow> nat \<Rightarrow> u8 list" where
  "get_bytes b off n = map (\<lambda>k. b (off + k)) [0..<n]"

definition set_bytes :: "block \<Rightarrow> nat \<Rightarrow> u8 list \<Rightarrow> block" where
  "set_bytes b off bs = (\<lambda>i. if off \<le> i \<and> i < off + length bs then bs ! (i - off) else b i)"

primrec get_addrs :: "nat \<Rightarrow> block \<Rightarrow> nat \<Rightarrow> (nat \<Rightarrow> u32) \<Rightarrow> (nat \<Rightarrow> u32)" where
  "get_addrs 0 b off f = f"
| "get_addrs (Suc k) b off f = (get_addrs k b off f)(k := get32 b (off + 4 * k))"

primrec set_addrs :: "nat \<Rightarrow> (nat \<Rightarrow> u32) \<Rightarrow> nat \<Rightarrow> block \<Rightarrow> block" where
  "set_addrs 0 f off b = b"
| "set_addrs (Suc k) f off b = set32 (set_addrs k f off b) (off + 4 * k) (f k)"

text \<open>The in-memory inode from the on-disk one at offset \<open>o\<close>, and back.\<close>

definition load_dinode :: "block \<Rightarrow> nat \<Rightarrow> inode \<Rightarrow> inode" where
  "load_dinode b off ip = ip\<lparr>i_type := get16 b off, i_major := get16 b (off + 2), i_minor := get16 b (off + 4),
     i_nlink := get16 b (off + 6), i_size := get32 b (off + 8), i_addrs := get_addrs (NDIRECT + 1) b (off + 12) (i_addrs ip)\<rparr>"

definition store_dinode :: "inode \<Rightarrow> nat \<Rightarrow> block \<Rightarrow> block" where
  "store_dinode ip off b =
     set_addrs (NDIRECT + 1) (i_addrs ip) (off + 12)
      (set32 (set16 (set16 (set16 (set16 b off (i_type ip)) (off + 2) (i_major ip)) (off + 4) (i_minor ip)) (off + 6) (i_nlink ip))
         (off + 8) (i_size ip))"

definition dinode_off :: "nat \<Rightarrow> nat" where
  "dinode_off inum = 64 * (inum mod IPB)"

subsection \<open>Blocks\<close>

definition decode_sb :: "block \<Rightarrow> superblock" where
  "decode_sb b = \<lparr>sb_magic = unat (get32 b 0), sb_size = unat (get32 b 4), sb_nblocks = unat (get32 b 8),
     sb_ninodes = unat (get32 b 12), sb_nlog = unat (get32 b 16), sb_logstart = unat (get32 b 20),
     sb_inodestart = unat (get32 b 24), sb_bmapstart = unat (get32 b 28)\<rparr>"

definition readsb :: "nat \<Rightarrow> 'a fsst_scheme \<Rightarrow> (unit \<times> 'a fsst_scheme) kres" where
  "readsb dev s = kbind (bread dev 1 s) (\<lambda>(bp, s1). brelse bp (s1\<lparr>sb := decode_sb (buf_data s1 bp)\<rparr>))"

definition bzero :: "nat \<Rightarrow> nat \<Rightarrow> 'a fsst_scheme \<Rightarrow> (unit \<times> 'a fsst_scheme) kres" where
  "bzero dev bno s =
     kbind (bread dev bno s) (\<lambda>(bp, s1).
     kbind (log_write bp (set_data bp (\<lambda>_. 0) s1)) (\<lambda>(_, s2). brelse bp s2))"

definition bm_mask :: "nat \<Rightarrow> u8" where
  "bm_mask bi = push_bit (bi mod 8) 1"

primrec balloc_bit :: "nat \<Rightarrow> block \<Rightarrow> nat \<Rightarrow> nat \<Rightarrow> nat \<Rightarrow> nat option" where
  "balloc_bit 0 d b sz bi = None"
| "balloc_bit (Suc k) d b sz bi =
     (if \<not> b + bi < sz then None
      else if d (bi div 8) AND bm_mask bi = 0 then Some bi
      else balloc_bit k d b sz (Suc bi))"

function balloc_loop :: "nat \<Rightarrow> nat \<Rightarrow> nat \<Rightarrow> 'a fsst_scheme \<Rightarrow> (nat \<times> 'a fsst_scheme) kres" where
  "balloc_loop dev sz b s =
     (if b < sz then
        kbind (bread dev (BBLOCK b (sb s)) s) (\<lambda>r.
          case balloc_bit BPB (buf_data (snd r) (fst r)) b sz 0 of
            Some bi \<Rightarrow>
              kbind (log_write (fst r) (set_data (fst r)
                       ((buf_data (snd r) (fst r))(bi div 8 := buf_data (snd r) (fst r) (bi div 8) OR bm_mask bi)) (snd r))) (\<lambda>w.
              kbind (brelse (fst r) (snd w)) (\<lambda>w2.
              kbind (bzero dev (b + bi) (snd w2)) (\<lambda>w3. Ok (b + bi, snd w3))))
          | None \<Rightarrow> kbind (brelse (fst r) (snd r)) (\<lambda>w. balloc_loop dev sz (b + BPB) (snd w)))
      else Ok (0, s))"
  by pat_completeness auto

termination balloc_loop
  by (relation "measure (\<lambda>(dev, sz, b, s). sz - b)") (auto simp: fs_consts)

declare balloc_loop.simps [simp del]

definition balloc :: "nat \<Rightarrow> 'a fsst_scheme \<Rightarrow> (nat \<times> 'a fsst_scheme) kres" where
  "balloc dev s = balloc_loop dev (sb_size (sb s)) 0 s"

definition bfree :: "nat \<Rightarrow> nat \<Rightarrow> 'a fsst_scheme \<Rightarrow> (unit \<times> 'a fsst_scheme) kres" where
  "bfree dev b s =
     kbind (bread dev (BBLOCK b (sb s)) s) (\<lambda>(bp, s1).
       let bi = b mod BPB; d = buf_data s1 bp in
       if d (bi div 8) AND bm_mask bi = 0 then Panic ''freeing free block''
       else kbind (log_write bp (set_data bp (d(bi div 8 := d (bi div 8) AND NOT (bm_mask bi))) s1)) (\<lambda>(_, s2). brelse bp s2))"

subsection \<open>Inodes\<close>

definition iinit :: "'a fsst_scheme \<Rightarrow> 'a fsst_scheme" where
  "iinit s = s\<lparr>itable := (\<lambda>i. if i < NINODE then (itable s i)\<lparr>i_lock := initsleeplock\<rparr> else itable s i)\<rparr>"

text \<open>The scan of the inode table in \<^verbatim>\<open>iget\<close>: the entry for the inode, else the first empty slot seen.\<close>

primrec iget_scan :: "nat \<Rightarrow> nat \<Rightarrow> nat \<Rightarrow> nat \<Rightarrow> nat option \<Rightarrow> (nat \<Rightarrow> inode) \<Rightarrow> nat option \<times> nat option" where
  "iget_scan 0 i dev inum empt t = (None, empt)"
| "iget_scan (Suc k) i dev inum empt t =
     (if i_ref (t i) > 0 \<and> i_dev (t i) = dev \<and> i_inum (t i) = inum then (Some i, empt)
      else iget_scan k (Suc i) dev inum (if empt = None \<and> i_ref (t i) = 0 then Some i else empt) t)"

definition iget :: "nat \<Rightarrow> nat \<Rightarrow> 'a fsst_scheme \<Rightarrow> (nat \<times> 'a fsst_scheme) kres" where
  "iget dev inum s =
     (case iget_scan NINODE 0 dev inum None (itable s) of
        (Some ip, _) \<Rightarrow> Ok (ip, upd_inode ip (\<lambda>x. x\<lparr>i_ref := i_ref x + 1\<rparr>) s)
      | (None, None) \<Rightarrow> Panic ''iget: no inodes''
      | (None, Some ip) \<Rightarrow> Ok (ip, upd_inode ip (\<lambda>x. x\<lparr>i_dev := dev, i_inum := inum, i_ref := 1, i_valid := False\<rparr>) s))"

primrec ialloc_loop :: "nat \<Rightarrow> nat \<Rightarrow> u16 \<Rightarrow> nat \<Rightarrow> 'a fsst_scheme \<Rightarrow> (nat option \<times> 'a fsst_scheme) kres" where
  "ialloc_loop 0 dev type inum s = Ok (None, s)"
| "ialloc_loop (Suc k) dev type inum s =
     kbind (bread dev (IBLOCK inum (sb s)) s) (\<lambda>(bp, s1).
       let d = buf_data s1 bp; off = dinode_off inum in
       if get16 d off = 0 then
         kbind (log_write bp (set_data bp (set16 (set_bytes d off (replicate 64 0)) off type) s1)) (\<lambda>(_, s2).
         kbind (brelse bp s2) (\<lambda>(_, s3).
         kbind (iget dev inum s3) (\<lambda>(ip, s4). Ok (Some ip, s4))))
       else kbind (brelse bp s1) (\<lambda>(_, s2). ialloc_loop k dev type (Suc inum) s2))"

definition ialloc :: "nat \<Rightarrow> u16 \<Rightarrow> 'a fsst_scheme \<Rightarrow> (nat option \<times> 'a fsst_scheme) kres" where
  "ialloc dev type s = ialloc_loop (sb_ninodes (sb s) - 1) dev type 1 s"

definition iupdate :: "nat \<Rightarrow> 'a fsst_scheme \<Rightarrow> (unit \<times> 'a fsst_scheme) kres" where
  "iupdate ip s =
     kbind (bread (i_dev (itable s ip)) (IBLOCK (i_inum (itable s ip)) (sb s)) s) (\<lambda>(bp, s1).
     kbind (log_write bp (set_data bp (store_dinode (itable s1 ip) (dinode_off (i_inum (itable s1 ip))) (buf_data s1 bp)) s1)) (\<lambda>(_, s2).
     brelse bp s2))"

definition idup :: "nat \<Rightarrow> 'a fsst_scheme \<Rightarrow> nat \<times> 'a fsst_scheme" where
  "idup ip s = (ip, upd_inode ip (\<lambda>x. x\<lparr>i_ref := i_ref x + 1\<rparr>) s)"

definition ilock :: "nat option \<Rightarrow> 'a fsst_scheme \<Rightarrow> (unit \<times> 'a fsst_scheme) kres" where
  "ilock p s =
     (case p of None \<Rightarrow> Panic ''ilock''
      | Some ip \<Rightarrow>
          if i_ref (itable s ip) < 1 then Panic ''ilock''
          else kbind (acquiresleep (cur_pid s) (i_lock (itable s ip))) (\<lambda>l.
            let s1 = upd_inode ip (\<lambda>x. x\<lparr>i_lock := l\<rparr>) s in
            if \<not> i_valid (itable s1 ip) then
              kbind (bread (i_dev (itable s1 ip)) (IBLOCK (i_inum (itable s1 ip)) (sb s1)) s1) (\<lambda>(bp, s2).
              let s3 = upd_inode ip (load_dinode (buf_data s2 bp) (dinode_off (i_inum (itable s2 ip)))) s2 in
              kbind (brelse bp s3) (\<lambda>(_, s4).
              let s5 = upd_inode ip (\<lambda>x. x\<lparr>i_valid := True\<rparr>) s4 in
              if i_type (itable s5 ip) = 0 then Panic ''ilock: no type'' else Ok ((), s5)))
            else Ok ((), s1)))"

definition iunlock :: "nat option \<Rightarrow> 'a fsst_scheme \<Rightarrow> (unit \<times> 'a fsst_scheme) kres" where
  "iunlock p s =
     (case p of None \<Rightarrow> Panic ''iunlock''
      | Some ip \<Rightarrow>
          if \<not> holdingsleep (cur_pid s) (i_lock (itable s ip)) \<or> i_ref (itable s ip) < 1 then Panic ''iunlock''
          else Ok ((), upd_inode ip (\<lambda>x. x\<lparr>i_lock := releasesleep (i_lock x)\<rparr>) s))"

primrec free_direct :: "nat \<Rightarrow> nat \<Rightarrow> nat \<Rightarrow> 'a fsst_scheme \<Rightarrow> (unit \<times> 'a fsst_scheme) kres" where
  "free_direct 0 i ip s = Ok ((), s)"
| "free_direct (Suc k) i ip s =
     (if i_addrs (itable s ip) i \<noteq> 0 then
        kbind (bfree (i_dev (itable s ip)) (unat (i_addrs (itable s ip) i)) s) (\<lambda>(_, s1).
          free_direct k (Suc i) ip (upd_inode ip (\<lambda>x. x\<lparr>i_addrs := (i_addrs x)(i := 0)\<rparr>) s1))
      else free_direct k (Suc i) ip s)"

primrec free_indirect :: "nat \<Rightarrow> nat \<Rightarrow> nat \<Rightarrow> nat \<Rightarrow> 'a fsst_scheme \<Rightarrow> (unit \<times> 'a fsst_scheme) kres" where
  "free_indirect 0 j dev bp s = Ok ((), s)"
| "free_indirect (Suc k) j dev bp s =
     (let a = get32 (buf_data s bp) (4 * j) in
      if a \<noteq> 0 then kbind (bfree dev (unat a) s) (\<lambda>(_, s1). free_indirect k (Suc j) dev bp s1)
      else free_indirect k (Suc j) dev bp s)"

definition itrunc :: "nat \<Rightarrow> 'a fsst_scheme \<Rightarrow> (unit \<times> 'a fsst_scheme) kres" where
  "itrunc ip s =
     kbind (free_direct NDIRECT 0 ip s) (\<lambda>(_, s1).
     kbind (if i_addrs (itable s1 ip) NDIRECT \<noteq> 0 then
              kbind (bread (i_dev (itable s1 ip)) (unat (i_addrs (itable s1 ip) NDIRECT)) s1) (\<lambda>(bp, s2).
              kbind (free_indirect NINDIRECT 0 (i_dev (itable s2 ip)) bp s2) (\<lambda>(_, s3).
              kbind (brelse bp s3) (\<lambda>(_, s4).
              kbind (bfree (i_dev (itable s4 ip)) (unat (i_addrs (itable s4 ip) NDIRECT)) s4) (\<lambda>(_, s5).
              Ok ((), upd_inode ip (\<lambda>x. x\<lparr>i_addrs := (i_addrs x)(NDIRECT := 0)\<rparr>) s5)))))
            else Ok ((), s1)) (\<lambda>(_, s6).
     iupdate ip (upd_inode ip (\<lambda>x. x\<lparr>i_size := 0\<rparr>) s6)))"

definition iput :: "nat \<Rightarrow> 'a fsst_scheme \<Rightarrow> (unit \<times> 'a fsst_scheme) kres" where
  "iput ip s =
     kbind (if i_ref (itable s ip) = 1 \<and> i_valid (itable s ip) \<and> i_nlink (itable s ip) = 0 then
              kbind (acquiresleep (cur_pid s) (i_lock (itable s ip))) (\<lambda>l.
              kbind (itrunc ip (upd_inode ip (\<lambda>x. x\<lparr>i_lock := l\<rparr>) s)) (\<lambda>(_, s1).
              kbind (iupdate ip (upd_inode ip (\<lambda>x. x\<lparr>i_type := 0\<rparr>) s1)) (\<lambda>(_, s2).
              Ok ((), upd_inode ip (\<lambda>x. x\<lparr>i_valid := False, i_lock := releasesleep (i_lock x)\<rparr>) s2))))
            else Ok ((), s)) (\<lambda>(_, s3).
     Ok ((), upd_inode ip (\<lambda>x. x\<lparr>i_ref := i_ref x - 1\<rparr>) s3))"

definition iunlockput :: "nat \<Rightarrow> 'a fsst_scheme \<Rightarrow> (unit \<times> 'a fsst_scheme) kres" where
  "iunlockput ip s = kbind (iunlock (Some ip) s) (\<lambda>(_, s1). iput ip s1)"

primrec ireclaim_loop :: "nat \<Rightarrow> nat \<Rightarrow> nat \<Rightarrow> 'a fsst_scheme \<Rightarrow> (unit \<times> 'a fsst_scheme) kres" where
  "ireclaim_loop 0 inum dev s = Ok ((), s)"
| "ireclaim_loop (Suc k) inum dev s =
     kbind (bread dev (IBLOCK inum (sb s)) s) (\<lambda>(bp, s1).
       let d = buf_data s1 bp; off = dinode_off inum in
       if get16 d off \<noteq> 0 \<and> get16 d (off + 6) = 0 then
         kbind (iget dev inum s1) (\<lambda>(ip, s2).
         kbind (brelse bp s2) (\<lambda>(_, s3).
         kbind (begin_op s3) (\<lambda>(_, s4).
         kbind (ilock (Some ip) s4) (\<lambda>(_, s5).
         kbind (iunlock (Some ip) s5) (\<lambda>(_, s6).
         kbind (iput ip s6) (\<lambda>(_, s7).
         kbind (end_op s7) (\<lambda>(_, s8). ireclaim_loop k (Suc inum) dev s8)))))))
       else kbind (brelse bp s1) (\<lambda>(_, s2). ireclaim_loop k (Suc inum) dev s2))"

definition ireclaim :: "nat \<Rightarrow> 'a fsst_scheme \<Rightarrow> (unit \<times> 'a fsst_scheme) kres" where
  "ireclaim dev s = ireclaim_loop (sb_ninodes (sb s) - 1) 1 dev s"

definition fsinit :: "nat \<Rightarrow> 'a fsst_scheme \<Rightarrow> (unit \<times> 'a fsst_scheme) kres" where
  "fsinit dev s =
     kbind (readsb dev s) (\<lambda>(_, s1).
       if sb_magic (sb s1) \<noteq> FSMAGIC then Panic ''invalid file system''
       else kbind (initlog dev (sb_logstart (sb s1)) s1) (\<lambda>(_, s2). ireclaim dev s2))"

subsection \<open>Inode content\<close>

text \<open>A slot of \<^verbatim>\<open>ip->addrs\<close>, filled with a new block if it is empty; both uses in \<^verbatim>\<open>bmap\<close>.\<close>

definition bmap_slot :: "nat \<Rightarrow> nat \<Rightarrow> 'a fsst_scheme \<Rightarrow> (nat \<times> 'a fsst_scheme) kres" where
  "bmap_slot ip k s =
     (if i_addrs (itable s ip) k = 0 then
        kbind (balloc (i_dev (itable s ip)) s) (\<lambda>(addr, s1).
          if addr = 0 then Ok (0, s1)
          else Ok (addr, upd_inode ip (\<lambda>x. x\<lparr>i_addrs := (i_addrs x)(k := of_nat addr)\<rparr>) s1))
      else Ok (unat (i_addrs (itable s ip) k), s))"

definition bmap :: "nat \<Rightarrow> nat \<Rightarrow> 'a fsst_scheme \<Rightarrow> (nat \<times> 'a fsst_scheme) kres" where
  "bmap ip bn s =
     (if bn < NDIRECT then bmap_slot ip bn s
      else if bn - NDIRECT < NINDIRECT then
        kbind (bmap_slot ip NDIRECT s) (\<lambda>(addr, s1).
          if addr = 0 then Ok (0, s1)
          else kbind (bread (i_dev (itable s1 ip)) addr s1) (\<lambda>(bp, s2).
            let a = get32 (buf_data s2 bp) (4 * (bn - NDIRECT)) in
            if a = 0 then
              kbind (balloc (i_dev (itable s2 ip)) s2) (\<lambda>(addr2, s3).
                if addr2 \<noteq> 0 then
                  kbind (log_write bp (set_data bp (set32 (buf_data s3 bp) (4 * (bn - NDIRECT)) (of_nat addr2)) s3)) (\<lambda>(_, s4).
                  kbind (brelse bp s4) (\<lambda>(_, s5). Ok (addr2, s5)))
                else kbind (brelse bp s3) (\<lambda>(_, s4). Ok (0, s4)))
            else kbind (brelse bp s2) (\<lambda>(_, s3). Ok (unat a, s3))))
      else Panic ''bmap: out of range'')"

definition stati :: "nat \<Rightarrow> 'a fsst_scheme \<Rightarrow> stat" where
  "stati ip s = \<lparr>st_dev = i_dev (itable s ip), st_ino = i_inum (itable s ip), st_type = i_type (itable s ip),
     st_nlink = i_nlink (itable s ip), st_size = ucast (i_size (itable s ip))\<rparr>"

text \<open>
  \<^verbatim>\<open>either_copyout\<close> and \<^verbatim>\<open>either_copyin\<close> of \<^verbatim>\<open>proc.c\<close>: the destination is a user address or a kernel buffer, whose bytes the
  caller receives; the source is a user address or the bytes of a kernel buffer.
\<close>

datatype kdst = UserD u64 | KernD
datatype ksrc = UserS u64 | KernS "u8 list"

primrec either_copyout :: "kdst \<Rightarrow> u8 list \<Rightarrow> vm \<Rightarrow> (int \<times> vm) kres" where
  "either_copyout (UserD dst) src m = copyout (p_pagetable m) dst src m"
| "either_copyout KernD src m = Ok (0, m)"

primrec either_copyin :: "ksrc \<Rightarrow> nat \<Rightarrow> vm \<Rightarrow> ((int \<times> u8 list) \<times> vm) kres" where
  "either_copyin (UserS src) len m = copyin (p_pagetable m) src len m"
| "either_copyin (KernS bs) len m = Ok ((0, take len bs), m)"

primrec dst_add :: "kdst \<Rightarrow> nat \<Rightarrow> kdst" where
  "dst_add (UserD a) m = UserD (a + of_nat m)"
| "dst_add KernD m = KernD"

primrec src_add :: "ksrc \<Rightarrow> nat \<Rightarrow> ksrc" where
  "src_add (UserS a) m = UserS (a + of_nat m)"
| "src_add (KernS bs) m = KernS (drop m bs)"

definition blk_chunk :: "nat \<Rightarrow> nat \<Rightarrow> nat" where
  "blk_chunk off left = min left (BSIZE - off mod BSIZE)"

lemma blk_chunk_pos: "0 < left \<Longrightarrow> 0 < blk_chunk off left"
  by (simp add: blk_chunk_def BSIZE_def)

lemma blk_chunk_dec: "tot < n \<Longrightarrow> n - (tot + blk_chunk off (n - tot)) < n - tot"
  using blk_chunk_pos [of "n - tot" off] by simp

function readi_loop ::
  "nat \<Rightarrow> kdst \<Rightarrow> nat \<Rightarrow> nat \<Rightarrow> nat \<Rightarrow> u8 list \<Rightarrow> 'a fsst_scheme \<Rightarrow> ((int \<times> u8 list) \<times> 'a fsst_scheme) kres" where
  "readi_loop ip dst off n tot out s =
     (if tot < n then
        kbind (bmap ip (off div BSIZE) s) (\<lambda>r.
          if fst r = 0 then Ok ((int tot, out), snd r)
          else kbind (bread (i_dev (itable (snd r) ip)) (fst r) (snd r)) (\<lambda>b.
            let m = blk_chunk off (n - tot); bs = get_bytes (buf_data (snd b) (fst b)) (off mod BSIZE) m in
            kbind (either_copyout dst bs (um (snd b))) (\<lambda>c.
              kbind (brelse (fst b) ((snd b)\<lparr>um := snd c\<rparr>)) (\<lambda>w.
                if fst c = - 1 then Ok ((- 1, out), snd w)
                else readi_loop ip (dst_add dst m) (off + m) n (tot + m) (out @ bs) (snd w)))))
      else Ok ((int tot, out), s))"
  by pat_completeness auto

termination readi_loop
  by (relation "measure (\<lambda>(ip, dst, off, n, tot, out, s). n - tot)") (auto simp: blk_chunk_dec)

declare readi_loop.simps [simp del]

definition readi :: "nat \<Rightarrow> kdst \<Rightarrow> u32 \<Rightarrow> u32 \<Rightarrow> 'a fsst_scheme \<Rightarrow> ((int \<times> u8 list) \<times> 'a fsst_scheme) kres" where
  "readi ip dst off n s =
     (let sz = i_size (itable s ip) in
      if off > sz \<or> off + n < off then Ok ((0, []), s)
      else readi_loop ip dst (unat off) (unat (if off + n > sz then sz - off else n)) 0 [] s)"

function writei_loop ::
  "nat \<Rightarrow> ksrc \<Rightarrow> nat \<Rightarrow> nat \<Rightarrow> nat \<Rightarrow> 'a fsst_scheme \<Rightarrow> ((nat \<times> nat) \<times> 'a fsst_scheme) kres" where
  "writei_loop ip src off n tot s =
     (if tot < n then
        kbind (bmap ip (off div BSIZE) s) (\<lambda>r.
          if fst r = 0 then Ok ((tot, off), snd r)
          else kbind (bread (i_dev (itable (snd r) ip)) (fst r) (snd r)) (\<lambda>b.
            let m = blk_chunk off (n - tot) in
            kbind (either_copyin src m (um (snd b))) (\<lambda>c.
              let s2 = set_data (fst b) (set_bytes (buf_data (snd b) (fst b)) (off mod BSIZE) (snd (fst c))) ((snd b)\<lparr>um := snd c\<rparr>) in
              if fst (fst c) = - 1 then kbind (brelse (fst b) s2) (\<lambda>w. Ok ((tot, off), snd w))
              else kbind (log_write (fst b) s2) (\<lambda>w. kbind (brelse (fst b) (snd w)) (\<lambda>w2.
                writei_loop ip (src_add src m) (off + m) n (tot + m) (snd w2))))))
      else Ok ((tot, off), s))"
  by pat_completeness auto

termination writei_loop
  by (relation "measure (\<lambda>(ip, src, off, n, tot, s). n - tot)") (auto simp: blk_chunk_dec)

declare writei_loop.simps [simp del]

definition writei :: "nat \<Rightarrow> ksrc \<Rightarrow> u32 \<Rightarrow> u32 \<Rightarrow> 'a fsst_scheme \<Rightarrow> (int \<times> 'a fsst_scheme) kres" where
  "writei ip src off n s =
     (if off > i_size (itable s ip) \<or> off + n < off then Ok (- 1, s)
      else if off + n > of_nat (MAXFILE * BSIZE) then Ok (- 1, s)
      else kbind (writei_loop ip src (unat off) (unat n) 0 s) (\<lambda>((tot, off2), s1).
        let s2 = (if of_nat off2 > i_size (itable s1 ip) then upd_inode ip (\<lambda>x. x\<lparr>i_size := of_nat off2\<rparr>) s1 else s1) in
        kbind (iupdate ip s2) (\<lambda>(_, s3). Ok (int tot, s3))))"

subsection \<open>Directories\<close>

definition namecmp :: "cptr \<Rightarrow> cptr \<Rightarrow> int" where
  "namecmp p q = strncmp p q (of_nat DIRSIZ)"

definition de_inum :: "u8 list \<Rightarrow> u16" where
  "de_inum bs = le_word (take 2 bs)"

definition de_name :: "u8 list \<Rightarrow> cptr" where
  "de_name bs = (\<lambda>i. if i < DIRSIZ then bs ! (2 + i) else 0)"

definition de_bytes :: "u16 \<Rightarrow> cptr \<Rightarrow> u8 list" where
  "de_bytes inum name = le_bytes 2 inum @ map name [0..<DIRSIZ]"

function dirlookup_loop :: "nat \<Rightarrow> cptr \<Rightarrow> nat \<Rightarrow> nat \<Rightarrow> 'a fsst_scheme \<Rightarrow> ((nat \<times> nat) option \<times> 'a fsst_scheme) kres" where
  "dirlookup_loop dp name sz off s =
     (if off < sz then
        kbind (readi dp KernD (of_nat off) 16 s) (\<lambda>r.
          if fst (fst r) \<noteq> 16 then Panic ''dirlookup read''
          else if de_inum (snd (fst r)) \<noteq> 0 \<and> namecmp name (de_name (snd (fst r))) = 0 then
            kbind (iget (i_dev (itable (snd r) dp)) (unat (de_inum (snd (fst r)))) (snd r)) (\<lambda>(ip, s2). Ok (Some (ip, off), s2))
          else dirlookup_loop dp name sz (off + 16) (snd r))
      else Ok (None, s))"
  by pat_completeness auto

termination dirlookup_loop
  by (relation "measure (\<lambda>(dp, name, sz, off, s). sz - off)") auto

declare dirlookup_loop.simps [simp del]

definition dirlookup :: "nat \<Rightarrow> cptr \<Rightarrow> 'a fsst_scheme \<Rightarrow> ((nat \<times> nat) option \<times> 'a fsst_scheme) kres" where
  "dirlookup dp name s =
     (if i_type (itable s dp) \<noteq> T_DIR then Panic ''dirlookup not DIR''
      else dirlookup_loop dp name (unat (i_size (itable s dp))) 0 s)"

function dirlink_loop :: "nat \<Rightarrow> nat \<Rightarrow> nat \<Rightarrow> 'a fsst_scheme \<Rightarrow> (nat \<times> 'a fsst_scheme) kres" where
  "dirlink_loop dp sz off s =
     (if off < sz then
        kbind (readi dp KernD (of_nat off) 16 s) (\<lambda>r.
          if fst (fst r) \<noteq> 16 then Panic ''dirlink read''
          else if de_inum (snd (fst r)) = 0 then Ok (off, snd r)
          else dirlink_loop dp sz (off + 16) (snd r))
      else Ok (off, s))"
  by pat_completeness auto

termination dirlink_loop
  by (relation "measure (\<lambda>(dp, sz, off, s). sz - off)") auto

declare dirlink_loop.simps [simp del]

definition dirlink :: "nat \<Rightarrow> cptr \<Rightarrow> nat \<Rightarrow> 'a fsst_scheme \<Rightarrow> (int \<times> 'a fsst_scheme) kres" where
  "dirlink dp name inum s =
     kbind (dirlookup dp name s) (\<lambda>(r, s1).
       case r of
         Some (ip, _) \<Rightarrow> kbind (iput ip s1) (\<lambda>(_, s2). Ok (- 1, s2))
       | None \<Rightarrow>
           kbind (dirlink_loop dp (unat (i_size (itable s1 dp))) 0 s1) (\<lambda>(off, s2).
           kbind (writei dp (KernS (de_bytes (of_nat inum) (strncpy (\<lambda>_. 0) name (int DIRSIZ)))) (of_nat off) 16 s2) (\<lambda>(w, s3).
             if w \<noteq> 16 then Ok (- 1, s3) else Ok (0, s3))))"

subsection \<open>Paths\<close>

text \<open>A path is the list of its bytes before the terminating NUL; 47 is the slash.\<close>

definition skipelem :: "u8 list \<Rightarrow> cptr \<Rightarrow> (u8 list \<times> cptr) option" where
  "skipelem path name =
     (let p = dropWhile (\<lambda>c. c = 47) path in
      if p = [] then None
      else let e = takeWhile (\<lambda>c. c \<noteq> 47) p; rest = dropWhile (\<lambda>c. c \<noteq> 47) p; len = length e;
               name1 = (if len \<ge> DIRSIZ then (\<lambda>i. if i < DIRSIZ then e ! i else name i)
                        else (\<lambda>i. if i < len then e ! i else if i = len then 0 else name i))
           in Some (dropWhile (\<lambda>c. c = 47) rest, name1))"

lemma skipelem_shorter: "skipelem path name = Some (rest, name1) \<Longrightarrow> length rest < length path"
proof -
  assume a: "skipelem path name = Some (rest, name1)"
  let ?p = "dropWhile (\<lambda>c. c = 47) path"
  have p: "?p \<noteq> []" and r: "rest = dropWhile (\<lambda>c. c = 47) (dropWhile (\<lambda>c. c \<noteq> 47) ?p)"
    using a by (auto simp: skipelem_def Let_def split: if_splits)
  obtain c cs where c: "?p = c # cs" using p by (cases ?p) auto
  then have "c \<noteq> 47" using hd_dropWhile [OF p] by simp
  then have "length (dropWhile (\<lambda>c. c \<noteq> 47) ?p) < length ?p"
    using length_dropWhile_le [of "\<lambda>c. c \<noteq> 47" cs] unfolding c by simp
  then show ?thesis
    using r length_dropWhile_le [of "\<lambda>c. c = 47" "dropWhile (\<lambda>c. c \<noteq> 47) ?p"] length_dropWhile_le [of "\<lambda>c. c = 47" path] by simp
qed

function namex_loop :: "nat \<Rightarrow> u8 list \<Rightarrow> bool \<Rightarrow> cptr \<Rightarrow> 'a fsst_scheme \<Rightarrow> ((nat option \<times> cptr) \<times> 'a fsst_scheme) kres" where
  "namex_loop ip path nameiparent name s =
     (case skipelem path name of
        Some (rest, name1) \<Rightarrow>
          kbind (ilock (Some ip) s) (\<lambda>(_, s1).
            if i_type (itable s1 ip) \<noteq> T_DIR then kbind (iunlockput ip s1) (\<lambda>(_, s2). Ok ((None, name1), s2))
            else if nameiparent \<and> rest = [] then kbind (iunlock (Some ip) s1) (\<lambda>(_, s2). Ok ((Some ip, name1), s2))
            else kbind (dirlookup ip name1 s1) (\<lambda>(r, s2).
              case r of
                None \<Rightarrow> kbind (iunlockput ip s2) (\<lambda>(_, s3). Ok ((None, name1), s3))
              | Some (nxt, _) \<Rightarrow> kbind (iunlockput ip s2) (\<lambda>(_, s3). namex_loop nxt rest nameiparent name1 s3)))
      | None \<Rightarrow>
          if nameiparent then kbind (iput ip s) (\<lambda>(_, s1). Ok ((None, name), s1))
          else Ok ((Some ip, name), s))"
  by pat_completeness auto

termination namex_loop
  by (relation "measure (\<lambda>(ip, path, np, name, s). length path)") (auto simp: skipelem_shorter)

declare namex_loop.simps [simp del]

definition namex :: "u8 list \<Rightarrow> bool \<Rightarrow> cptr \<Rightarrow> 'a fsst_scheme \<Rightarrow> ((nat option \<times> cptr) \<times> 'a fsst_scheme) kres" where
  "namex path nameiparent name s =
     kbind (if path \<noteq> [] \<and> hd path = 47 then iget ROOTDEV ROOTINO s else Ok (idup (p_cwd s) s)) (\<lambda>(ip, s1).
       namex_loop ip path nameiparent name s1)"

definition namei :: "u8 list \<Rightarrow> 'a fsst_scheme \<Rightarrow> (nat option \<times> 'a fsst_scheme) kres" where
  "namei path s = kbind (namex path False (\<lambda>_. 0) s) (\<lambda>((ip, _), s1). Ok (ip, s1))"

definition nameiparent :: "u8 list \<Rightarrow> cptr \<Rightarrow> 'a fsst_scheme \<Rightarrow> ((nat option \<times> cptr) \<times> 'a fsst_scheme) kres" where
  "nameiparent path name s = namex path True name s"

end
