(* ===== verification/Fs_Alloc.thy ===== *)
theory Fs_Alloc
  imports Fs
begin

section \<open>Transactions of the file system, and the block allocator\<close>

text \<open>
  What a file system call does to the disk blocks inside a transaction. \<open>tx s s' H V X\<close>: going from \<open>s\<close> to \<open>s'\<close> the logical content
  became \<open>V\<close>, the blocks \<open>X\<close> joined the transaction, nothing was written to disk, and the buffers held are still those of \<open>H\<close>.
  \<open>opened s s1 H n b\<close>: from \<open>s\<close> the code has read block \<open>n\<close> into buffer \<open>b\<close> and reached \<open>s1\<close>. With these the allocator's theorems are proved: what
  \<^verbatim>\<open>balloc\<close> and \<^verbatim>\<open>bfree\<close> do to the bitmap and to the block.
\<close>

unbundle bit_operations_syntax

definition fs_rest :: "'a fsst_scheme \<Rightarrow> nat \<times> int \<times> bool \<times> int \<times> superblock \<times> nat \<times> 'a" where
  "fs_rest s = (log_start s, log_outstanding s, log_committing s, cur_pid s, sb s, p_cwd s, fsst.more s)"

definition mem_parts :: "'a fsst_scheme \<Rightarrow> (nat \<Rightarrow> inode) \<times> vm" where
  "mem_parts s = (itable s, um s)"

definition tx :: "'a fsst_scheme \<Rightarrow> 'a fsst_scheme \<Rightarrow> nat set \<Rightarrow> (nat \<Rightarrow> block) \<Rightarrow> nat set \<Rightarrow> bool" where
  "tx s s' H V X \<longleftrightarrow> log_ok s' H \<and> view s' = V \<and> disk s' = disk s \<and> dwrites s' = dwrites s \<and> pinned s' = pinned s \<union> X \<and>
     fs_rest s' = fs_rest s \<and> (\<forall>m \<in> H. cached s' m = cached s m)"

definition opened :: "'a fsst_scheme \<Rightarrow> 'a fsst_scheme \<Rightarrow> nat set \<Rightarrow> nat \<Rightarrow> nat \<Rightarrow> bool" where
  "opened s s1 H n b \<longleftrightarrow> log_ok s1 (insert n H) \<and> n \<notin> H \<and> cached s1 n = Some b \<and> (\<forall>m \<in> H. cached s1 m = cached s m) \<and>
     view s1 = view s \<and> disk s1 = disk s \<and> dwrites s1 = dwrites s \<and> pinned s1 = pinned s \<and> fs_rest s1 = fs_rest s"

definition room :: "'a fsst_scheme \<Rightarrow> nat set \<Rightarrow> nat \<Rightarrow> bool" where
  "room s H k \<longleftrightarrow> card (pinned s \<union> H) + k < NBUF \<and> 1 \<le> log_outstanding s"

lemma log_rest_fs:
  fixes s :: "'a fsst_scheme"
  assumes "log_rest s' = log_rest s"
  shows "fs_rest s' = fs_rest s" "mem_parts s' = mem_parts s"
  using assms by (cases s; cases s'; simp add: log_rest_def fs_rest_def mem_parts_def)+

lemma fs_restD:
  assumes "fs_rest s' = fs_rest s"
  shows "log_start s' = log_start s" "log_outstanding s' = log_outstanding s" "cur_pid s' = cur_pid s" "sb s' = sb s" "p_cwd s' = p_cwd s"
    "log_committing s' = log_committing s" "fsst.more s' = fsst.more s"
  using assms by (simp_all add: fs_rest_def)

lemma mem_partsD: "mem_parts s' = mem_parts s \<Longrightarrow> itable s' = itable s \<and> um s' = um s"
  by (simp add: mem_parts_def)

text \<open>Changing the in-memory inodes or user memory is invisible below.\<close>

lemma below_inodes [simp]:
  fixes s :: "'a fsst_scheme"
  shows "log_ok (s\<lparr>itable := t\<rparr>) = log_ok s" "pinned (s\<lparr>itable := t\<rparr>) = pinned s" "view (s\<lparr>itable := t\<rparr>) = view s"
    "cached (s\<lparr>itable := t\<rparr>) = cached s" "fs_rest (s\<lparr>itable := t\<rparr>) = fs_rest s" "buf_data (s\<lparr>itable := t\<rparr>) = buf_data s"
    "log_ok (s\<lparr>um := u\<rparr>) = log_ok s" "pinned (s\<lparr>um := u\<rparr>) = pinned s" "view (s\<lparr>um := u\<rparr>) = view s"
    "cached (s\<lparr>um := u\<rparr>) = cached s" "fs_rest (s\<lparr>um := u\<rparr>) = fs_rest s" "buf_data (s\<lparr>um := u\<rparr>) = buf_data s"
proof -
  have p: "pinned (s\<lparr>itable := t\<rparr>) = pinned s" "pinned (s\<lparr>um := u\<rparr>) = pinned s" by (simp_all add: pinned_def homes_def)
  have h: "homes (s\<lparr>itable := t\<rparr>) = homes s" "homes (s\<lparr>um := u\<rparr>) = homes s" by (simp_all add: homes_def fun_eq_iff)
  have c: "BC (s\<lparr>itable := t\<rparr>) = BC s" "BC (s\<lparr>um := u\<rparr>) = BC s" by (rule cache_cong; simp)+
  show "log_ok (s\<lparr>itable := t\<rparr>) = log_ok s" "log_ok (s\<lparr>um := u\<rparr>) = log_ok s" by (simp_all add: fun_eq_iff log_ok_def p h c)
  show "pinned (s\<lparr>itable := t\<rparr>) = pinned s" "pinned (s\<lparr>um := u\<rparr>) = pinned s" by (rule p)+
  show "view (s\<lparr>itable := t\<rparr>) = view s" "view (s\<lparr>um := u\<rparr>) = view s" by (rule cache_cong; simp)+
  show "cached (s\<lparr>itable := t\<rparr>) = cached s" "cached (s\<lparr>um := u\<rparr>) = cached s" by (rule cache_cong; simp)+
  show "fs_rest (s\<lparr>itable := t\<rparr>) = fs_rest s" "fs_rest (s\<lparr>um := u\<rparr>) = fs_rest s" by (simp_all add: fs_rest_def)
  show "buf_data (s\<lparr>itable := t\<rparr>) = buf_data s" "buf_data (s\<lparr>um := u\<rparr>) = buf_data s" by (simp_all add: fun_eq_iff buf_data_def)
qed

lemma upd_inode_parts [simp]:
  "log_ok (upd_inode ip f s) = log_ok s" "pinned (upd_inode ip f s) = pinned s" "view (upd_inode ip f s) = view s"
  "cached (upd_inode ip f s) = cached s" "fs_rest (upd_inode ip f s) = fs_rest s" "buf_data (upd_inode ip f s) = buf_data s"
  "disk (upd_inode ip f s) = disk s" "dwrites (upd_inode ip f s) = dwrites s" "um (upd_inode ip f s) = um s" "sb (upd_inode ip f s) = sb s"
  "cur_pid (upd_inode ip f s) = cur_pid s" "log_start (upd_inode ip f s) = log_start s" "log_outstanding (upd_inode ip f s) = log_outstanding s"
  "itable (upd_inode ip f s) = (itable s)(ip := f (itable s ip))"
  by (simp_all add: upd_inode_def)

lemma tx_refl: "log_ok s H \<Longrightarrow> tx s s H (view s) {}"
  by (simp add: tx_def)

lemma tx_trans: "tx s s1 H V X \<Longrightarrow> tx s1 s2 H V' Y \<Longrightarrow> tx s s2 H V' (X \<union> Y)"
  by (auto simp: tx_def)

lemma tx_same_blocks:
  "tx s (s1\<lparr>itable := t\<rparr>) H V X = tx s s1 H V X" "tx s (s1\<lparr>um := u\<rparr>) H V X = tx s s1 H V X"
  "tx s (upd_inode ip f s1) H V X = tx s s1 H V X" "tx (upd_inode ip f s) s1 H V X = tx s s1 H V X"
  "tx (s\<lparr>um := u\<rparr>) s1 H V X = tx s s1 H V X"
  by (simp_all add: tx_def)

lemma room_mono: "room s H k \<Longrightarrow> j \<le> k \<Longrightarrow> room s H j"
  by (simp add: room_def)

lemma room_tx:
  assumes "room s H k" "tx s s' H V X" "card X \<le> j" "j \<le> k" "finite X"
  shows "room s' H (k - j)"
proof -
  have "pinned s' \<union> H = (pinned s \<union> H) \<union> X" using assms(2) by (auto simp: tx_def)
  then have "card (pinned s' \<union> H) \<le> card (pinned s \<union> H) + card X" by (metis card_Un_le)
  moreover have "card (pinned s \<union> H) + k < NBUF" using assms(1) by (simp add: room_def)
  ultimately have "card (pinned s' \<union> H) + (k - j) < NBUF" using assms(3,4) by linarith
  then show ?thesis using assms(1,2) fs_restD(2) [of s' s] by (simp add: room_def tx_def)
qed

lemma room_log: "log_ok s H \<Longrightarrow> room s H 0 \<Longrightarrow> lh_n s < int LOGBLOCKS"
proof -
  assume ok: "log_ok s H" and r: "room s H 0"
  have "finite (pinned s)" "finite H" using BC_facts(1,2) [OF log_okD(1) [OF ok]] by simp_all
  then have "card (pinned s) \<le> card (pinned s \<union> H)" by (intro card_mono) auto
  moreover have "card (pinned s \<union> H) < NBUF" using r by (simp add: room_def)
  ultimately have "nat (lh_n s) < NBUF" using log_okD(8) [OF ok] by linarith
  then show ?thesis using log_okD(2) [OF ok] by (simp add: param_defs nat_less_iff)
qed

text \<open>The three laws: read a block; release it unchanged; change, log and release it.\<close>

lemma tx_bread:
  assumes ok: "log_ok s H" and n: "n \<notin> H" and r: "n \<in> pinned s \<or> card (pinned s \<union> H) < NBUF"
  shows "\<exists>b s1. bread ROOTDEV n s = Ok (b, s1) \<and> opened s s1 H n b \<and> buf_data s1 b = view s n \<and> mem_parts s1 = mem_parts s"
proof -
  from log_bread [OF ok n r] obtain b s1 where *: "bread ROOTDEV n s = Ok (b, s1)" "log_ok s1 (insert n H)" "cached s1 n = Some b"
    "buf_data s1 b = view s n" "\<forall>m \<in> H. cached s1 m = cached s m" "view s1 = view s" "disk s1 = disk s" "dwrites s1 = dwrites s"
    "pinned s1 = pinned s" "log_rest s1 = log_rest s" by blast
  show ?thesis using * n log_rest_fs [OF *(10)] by (intro exI [of _ b] exI [of _ s1]) (simp add: opened_def)
qed

lemma opened_data: "opened s s1 H n b \<Longrightarrow> buf_data s1 b = view s n"
  using bc.dat_law [of s1 "pinned s1" "insert n H" n b] log_okD(1) [of s1 "insert n H"] by (simp add: opened_def)

lemma opened_clean: "log_ok s H \<Longrightarrow> opened s s1 H n b \<Longrightarrow> n \<in> pinned s \<or> view s n = disk s n"
  using bc.clean_law [OF log_okD(1)] by (auto simp: opened_def)

lemma tx_close:
  assumes ok: "log_ok s H" and o: "opened s s1 H n b"
  shows "\<exists>s2. brelse b s1 = Ok ((), s2) \<and> tx s s2 H (view s) {} \<and> mem_parts s2 = mem_parts s1"
proof -
  have "n \<in> pinned s1 \<or> view s1 n = disk s1 n" using opened_clean [OF ok o] o by (simp add: opened_def)
  from log_brelse [of s1 "insert n H" n b, OF _ _ _ this] o
  obtain s2 where *: "brelse b s1 = Ok ((), s2)" "log_ok s2 (insert n H - {n})" "cached s2 = cached s1" "view s2 = view s1" "disk s2 = disk s1"
    "dwrites s2 = dwrites s1" "pinned s2 = pinned s1" "log_rest s2 = log_rest s1" by (auto simp: opened_def)
  have "insert n H - {n} = H" using o by (auto simp: opened_def)
  then show ?thesis using * o log_rest_fs [OF *(8)] by (intro exI [of _ s2]) (simp add: tx_def opened_def)
qed

lemma tx_update:
  assumes ok: "log_ok s H" and o: "opened s s1 H n b" and r: "room s H 0"
    and n: "n \<notin> log_area (log_start s)" "n < 2 ^ 32"
  shows "\<exists>s2 s3. log_write b (set_data b d s1) = Ok ((), s2) \<and> brelse b s2 = Ok ((), s3) \<and> tx s s3 H ((view s)(n := d)) {n} \<and>
    mem_parts s3 = mem_parts s1"
proof -
  have f: "fs_rest s1 = fs_rest s" "pinned s1 = pinned s" "log_ok s1 (insert n H)" "cached s1 n = Some b" "n \<notin> H" using o by (simp_all add: opened_def)
  note f' = fs_restD [OF f(1)]
  have "lh_n s = int (card (pinned s))" "lh_n s1 = int (card (pinned s1))"
    using log_okD(2,8) [OF ok] log_okD(2,8) [OF f(3)] by simp_all
  then have lh: "lh_n s1 < int LOGBLOCKS" using room_log [OF ok r] f(2) by simp
  have "n \<in> insert n H" "n \<notin> log_area (log_start s1)" "1 \<le> log_outstanding s1" using n r f' by (simp_all add: room_def)
  from log_modify [OF f(3) this(1) f(4) this(2) n(2) lh this(3), of d]
  obtain s2 where 2: "log_write b (set_data b d s1) = Ok ((), s2)" "log_ok s2 (insert n H)" "cached s2 = cached s1"
    "view s2 = (view s1)(n := d)" "disk s2 = disk s1" "dwrites s2 = dwrites s1" "pinned s2 = insert n (pinned s1)" "log_rest s2 = log_rest s1" by auto
  have "cached s2 n = Some b" "n \<in> pinned s2 \<or> view s2 n = disk s2 n" using 2 f by simp_all
  then obtain s3 where 3: "brelse b s2 = Ok ((), s3)" "log_ok s3 (insert n H - {n})" "cached s3 = cached s2" "view s3 = view s2"
    "disk s3 = disk s2" "dwrites s3 = dwrites s2" "pinned s3 = pinned s2" "log_rest s3 = log_rest s2"
    using log_brelse [OF 2(2), of n b] by auto
  have "insert n H - {n} = H" using f(5) by auto
  then show ?thesis using 2 3 o log_rest_fs [OF 2(8)] log_rest_fs [OF 3(8)]
    by (intro exI [of _ s2] exI [of _ s3]) (auto simp: tx_def opened_def)
qed

subsection \<open>The bitmap\<close>

definition is_set :: "block \<Rightarrow> nat \<Rightarrow> bool" where
  "is_set d j \<longleftrightarrow> d (j div 8) AND bm_mask j \<noteq> 0"

definition bit_on :: "block \<Rightarrow> nat \<Rightarrow> block" where
  "bit_on d j = d(j div 8 := d (j div 8) OR bm_mask j)"

definition bit_off :: "block \<Rightarrow> nat \<Rightarrow> block" where
  "bit_off d j = d(j div 8 := d (j div 8) AND NOT (bm_mask j))"

lemma is_set_bit: "is_set d j \<longleftrightarrow> bit (d (j div 8)) (j mod 8)"
  by (simp add: is_set_def bm_mask_def bit_iff_and_push_bit_not_eq_0)

lemma bit_mask: "bit (bm_mask j) k \<longleftrightarrow> k = j mod 8"
proof -
  have "j mod 8 < 8" by simp
  then show ?thesis by (auto simp: bm_mask_def bit_simps)
qed

lemma same_bit: "j div 8 = k div 8 \<Longrightarrow> j mod 8 = k mod 8 \<Longrightarrow> j = k" for j k :: nat
  by (metis div_mult_mod_eq)

lemma is_set_on [simp]: "is_set (bit_on d j) k \<longleftrightarrow> k = j \<or> is_set d k"
  unfolding is_set_bit bit_on_def using same_bit [of k j] by (auto simp: bit_or_iff bit_mask)

lemma is_set_off [simp]: "is_set (bit_off d j) k \<longleftrightarrow> k \<noteq> j \<and> is_set d k"
proof -
  have "k mod 8 < LENGTH(8)" by simp
  then show ?thesis
    unfolding is_set_bit bit_off_def using same_bit [of k j] by (auto simp: bit_and_iff bit_not_iff bit_mask)
qed

lemma balloc_bit_Some:
  "balloc_bit k d b sz bi = Some r \<Longrightarrow> bi \<le> r \<and> r < bi + k \<and> b + r < sz \<and> \<not> is_set d r \<and> (\<forall>j. bi \<le> j \<longrightarrow> j < r \<longrightarrow> is_set d j)"
proof (induction k arbitrary: bi)
  case (Suc k)
  show ?case
  proof (cases "is_set d bi")
    case True
    then have "balloc_bit k d b sz (Suc bi) = Some r" using Suc.prems by (simp add: is_set_def split: if_splits)
    note ih = Suc.IH [OF this]
    have "is_set d j" if "bi \<le> j" "j < r" for j using that True ih by (cases "j = bi") auto
    then show ?thesis using ih by auto
  next
    case False
    then show ?thesis using Suc.prems by (auto simp: is_set_def split: if_splits)
  qed
qed simp

lemma balloc_bit_None:
  "balloc_bit k d b sz bi = None \<Longrightarrow> bi \<le> j \<Longrightarrow> j < bi + k \<Longrightarrow> b + j < sz \<Longrightarrow> is_set d j"
proof (induction k arbitrary: bi)
  case (Suc k)
  have "is_set d bi \<and> balloc_bit k d b sz (Suc bi) = None" if "b + bi < sz"
    using Suc.prems(1) that by (auto simp: is_set_def split: if_splits)
  then show ?case using Suc.IH [of "Suc bi"] Suc.prems by (cases "j = bi") auto
qed simp

subsection \<open>The layout of the disk\<close>

text \<open>
  Boot block, super block, log, inodes, bitmap, data, as \<^verbatim>\<open>mkfs\<close> lays them out. \<open>used V sp b\<close>: block \<open>b\<close> is marked in the bitmap of the content \<open>V\<close>.
\<close>

definition data_start :: "superblock \<Rightarrow> nat" where
  "data_start sp = sb_bmapstart sp + sb_size sp div BPB + 1"

definition fs_layout :: "superblock \<Rightarrow> bool" where
  "fs_layout sp \<longleftrightarrow> sb_logstart sp + LOGBLOCKS < sb_inodestart sp \<and>
     sb_inodestart sp + sb_ninodes sp div IPB + 1 \<le> sb_bmapstart sp \<and> data_start sp \<le> sb_size sp \<and> sb_size sp \<le> 2 ^ 31"

definition used :: "(nat \<Rightarrow> block) \<Rightarrow> superblock \<Rightarrow> nat \<Rightarrow> bool" where
  "used V sp b \<longleftrightarrow> is_set (V (BBLOCK b sp)) (b mod BPB)"

definition bitmap :: "superblock \<Rightarrow> nat set" where
  "bitmap sp = {sb_bmapstart sp..<data_start sp}"

lemma BBLOCK_bitmap: "b < sb_size sp \<Longrightarrow> BBLOCK b sp \<in> bitmap sp"
  using div_le_mono [of b "sb_size sp" BPB] by (simp add: BBLOCK_def bitmap_def data_start_def)

lemma log_area_layout:
  "fs_layout sp \<Longrightarrow> n \<in> log_area (sb_logstart sp) \<Longrightarrow> n < sb_inodestart sp"
  "fs_layout sp \<Longrightarrow> n \<in> bitmap sp \<Longrightarrow> n \<notin> log_area (sb_logstart sp) \<and> n < 2 ^ 32 \<and> n < data_start sp"
  "fs_layout sp \<Longrightarrow> data_start sp \<le> n \<Longrightarrow> n < sb_size sp \<Longrightarrow> n \<notin> log_area (sb_logstart sp) \<and> n < 2 ^ 32 \<and> n \<notin> bitmap sp"
  by (auto simp: fs_layout_def log_area_def bitmap_def data_start_def)

text \<open>A file system in a transaction: \<open>fs_ok s H\<close>. The super block describes the disk and the metadata blocks are in use.\<close>

definition fs_ok :: "'a fsst_scheme \<Rightarrow> nat set \<Rightarrow> bool" where
  "fs_ok s H \<longleftrightarrow> log_ok s H \<and> fs_layout (sb s) \<and> log_start s = sb_logstart (sb s) \<and> (\<forall>b < data_start (sb s). used (view s) (sb s) b) \<and>
     H \<inter> bitmap (sb s) = {} \<and> (\<forall>b \<in> H. b < sb_size (sb s) \<longrightarrow> used (view s) (sb s) b)"

lemma fs_okD:
  assumes "fs_ok s H"
  shows "log_ok s H" "fs_layout (sb s)" "log_start s = sb_logstart (sb s)" "b < data_start (sb s) \<Longrightarrow> used (view s) (sb s) b"
    "H \<inter> bitmap (sb s) = {}" "b \<in> H \<Longrightarrow> b < sb_size (sb s) \<Longrightarrow> used (view s) (sb s) b"
  using assms by (simp_all add: fs_ok_def)

lemma tx_fields:
  assumes "tx s s' H V X"
  shows "log_ok s' H" "view s' = V" "sb s' = sb s" "log_start s' = log_start s" "log_outstanding s' = log_outstanding s"
    "pinned s' = pinned s \<union> X" "cur_pid s' = cur_pid s" "p_cwd s' = p_cwd s" "fsst.more s' = fsst.more s"
  using assms fs_restD [of s' s] by (simp_all add: tx_def)

lemma fs_ok_tx:
  assumes "fs_ok s H" "tx s s' H V X" "\<forall>b < sb_size (sb s). used (view s) (sb s) b \<longrightarrow> b < data_start (sb s) \<or> b \<in> H \<longrightarrow> used V (sb s) b"
  shows "fs_ok s' H"
proof -
  note f = tx_fields [OF assms(2)] and d = fs_okD [OF assms(1)]
  have "data_start (sb s) \<le> sb_size (sb s)" using d(2) by (simp add: fs_layout_def)
  then show ?thesis using f d assms(3) by (auto simp: fs_ok_def)
qed

lemma used_other: "V' (BBLOCK b sp) = V (BBLOCK b sp) \<Longrightarrow> used V' sp b = used V sp b"
  by (simp add: used_def)

lemma block_split: "b = BPB * q + r \<Longrightarrow> r < BPB \<Longrightarrow> b div BPB = q \<and> b mod BPB = r"
  by simp

text \<open>Marking or clearing the bit of \<open>a\<close> changes \<open>used\<close> at \<open>a\<close> only.\<close>

lemma used_on: "V' (BBLOCK a sp) = bit_on (V (BBLOCK a sp)) (a mod BPB) \<Longrightarrow> \<forall>n \<in> bitmap sp. n \<noteq> BBLOCK a sp \<longrightarrow> V' n = V n \<Longrightarrow>
    b < sb_size sp \<Longrightarrow> used V' sp b \<longleftrightarrow> b = a \<or> used V sp b"
  "V' (BBLOCK a sp) = bit_off (V (BBLOCK a sp)) (a mod BPB) \<Longrightarrow> \<forall>n \<in> bitmap sp. n \<noteq> BBLOCK a sp \<longrightarrow> V' n = V n \<Longrightarrow>
    b < sb_size sp \<Longrightarrow> used V' sp b \<longleftrightarrow> b \<noteq> a \<and> used V sp b"
proof -
  have eq: "BBLOCK b sp = BBLOCK a sp \<Longrightarrow> b mod BPB = a mod BPB \<Longrightarrow> b = a" by (metis BBLOCK_def add_right_cancel div_mult_mod_eq)
  { assume "V' (BBLOCK a sp) = bit_on (V (BBLOCK a sp)) (a mod BPB)" "\<forall>n \<in> bitmap sp. n \<noteq> BBLOCK a sp \<longrightarrow> V' n = V n" "b < sb_size sp"
    then show "used V' sp b \<longleftrightarrow> b = a \<or> used V sp b"
      using BBLOCK_bitmap [of b sp] eq by (cases "BBLOCK b sp = BBLOCK a sp") (auto simp: used_def) }
  { assume "V' (BBLOCK a sp) = bit_off (V (BBLOCK a sp)) (a mod BPB)" "\<forall>n \<in> bitmap sp. n \<noteq> BBLOCK a sp \<longrightarrow> V' n = V n" "b < sb_size sp"
    then show "used V' sp b \<longleftrightarrow> b \<noteq> a \<and> used V sp b"
      using BBLOCK_bitmap [of b sp] eq by (cases "BBLOCK b sp = BBLOCK a sp") (auto simp: used_def) }
qed

subsection \<open>balloc and bfree\<close>

definition alloc_view :: "(nat \<Rightarrow> block) \<Rightarrow> superblock \<Rightarrow> nat \<Rightarrow> (nat \<Rightarrow> block)" where
  "alloc_view V sp a = V(BBLOCK a sp := bit_on (V (BBLOCK a sp)) (a mod BPB), a := (\<lambda>_. 0))"

definition balloc_post :: "'a fsst_scheme \<Rightarrow> nat set \<Rightarrow> nat \<Rightarrow> 'a fsst_scheme \<Rightarrow> bool" where
  "balloc_post s H a s' \<longleftrightarrow>
     (if \<exists>b < sb_size (sb s). \<not> used (view s) (sb s) b
      then a < sb_size (sb s) \<and> \<not> used (view s) (sb s) a \<and> (\<forall>b < a. used (view s) (sb s) b) \<and>
        tx s s' H (alloc_view (view s) (sb s) a) {BBLOCK a (sb s), a}
      else a = 0 \<and> tx s s' H (view s) {}) \<and> mem_parts s' = mem_parts s"

lemma bzero_tx:
  assumes ok: "log_ok s H" and n: "n \<notin> H" "n \<notin> log_area (log_start s)" "n < 2 ^ 32" and r: "room s H 0"
  shows "\<exists>s'. bzero ROOTDEV n s = Ok ((), s') \<and> tx s s' H ((view s)(n := (\<lambda>_. 0))) {n} \<and> mem_parts s' = mem_parts s"
proof -
  obtain b s1 where 1: "bread ROOTDEV n s = Ok (b, s1)" "opened s s1 H n b" "mem_parts s1 = mem_parts s"
    using tx_bread [OF ok n(1)] r by (auto simp: room_def)
  from tx_update [OF ok 1(2) r n(2,3)] obtain s2 s3 where "log_write b (set_data b (\<lambda>_. 0) s1) = Ok ((), s2)" "brelse b s2 = Ok ((), s3)"
    "tx s s3 H ((view s)(n := (\<lambda>_. 0))) {n}" "mem_parts s3 = mem_parts s1" by blast
  then show ?thesis using 1 by (intro exI [of _ s3]) (simp add: bzero_def)
qed

lemma balloc_found:
  assumes ok: "fs_ok s H" and r: "room s H 1" and a: "a < sb_size (sb s)" "\<not> used (view s) (sb s) a"
    and o: "opened s s1 H (BBLOCK a (sb s)) b" and m: "mem_parts s1 = mem_parts s" and bi: "bi = a mod BPB"
  shows "\<exists>s2 s3 s4. log_write b (set_data b ((buf_data s1 b)(bi div 8 := buf_data s1 b (bi div 8) OR bm_mask bi)) s1) = Ok ((), s2) \<and>
    brelse b s2 = Ok ((), s3) \<and> bzero ROOTDEV a s3 = Ok ((), s4) \<and>
    tx s s4 H (alloc_view (view s) (sb s) a) {BBLOCK a (sb s), a} \<and> mem_parts s4 = mem_parts s"
proof -
  note d = fs_okD [OF ok]
  let ?n = "BBLOCK a (sb s)" let ?d = "bit_on (view s ?n) bi"
  have n: "?n \<notin> log_area (log_start s)" "?n < 2 ^ 32" using log_area_layout(2) [OF d(2) BBLOCK_bitmap [OF a(1)]] d(3) by simp_all
  have "data_start (sb s) \<le> a" using d(4) a(2) by (meson not_le)
  then have A: "a \<notin> log_area (log_start s)" "a < 2 ^ 32" "a \<notin> H" "a \<noteq> ?n"
    using log_area_layout(3) [OF d(2) _ a(1)] d(3,6) a BBLOCK_bitmap [OF a(1)] by auto
  have e: "(buf_data s1 b)(bi div 8 := buf_data s1 b (bi div 8) OR bm_mask bi) = ?d" using opened_data [OF o] by (simp add: bit_on_def)
  obtain s2 s3 where 3: "log_write b (set_data b ?d s1) = Ok ((), s2)" "brelse b s2 = Ok ((), s3)" "tx s s3 H ((view s)(?n := ?d)) {?n}"
    "mem_parts s3 = mem_parts s1" using tx_update [OF d(1) o room_mono [OF r] n] by blast
  note f = tx_fields [OF 3(3)]
  have "room s3 H 0" using room_tx [OF r 3(3), of 1] by simp
  then obtain s4 where 4: "bzero ROOTDEV a s3 = Ok ((), s4)" "tx s3 s4 H ((view s3)(a := (\<lambda>_. 0))) {a}" "mem_parts s4 = mem_parts s3"
    using bzero_tx [OF f(1) A(3)] A f(4) by auto
  have "tx s s4 H (alloc_view (view s) (sb s) a) ({?n} \<union> {a})" using tx_trans [OF 3(3) 4(2)] f(2) bi by (simp add: alloc_view_def)
  then show ?thesis using 3 4 m e by (intro exI [of _ s2] exI [of _ s3] exI [of _ s4]) (simp add: insert_commute)
qed

lemma balloc_loop_ok:
  fixes s :: "'a fsst_scheme"
  assumes "fs_ok s H" "room s H 1" "BPB dvd b" "\<forall>j < b. j < sb_size (sb s) \<longrightarrow> used (view s) (sb s) j"
  shows "\<exists>a s'. balloc_loop ROOTDEV (sb_size (sb s)) b s = Ok (a, s') \<and> balloc_post s H a s'"
  using assms
proof (induction "sb_size (sb s) - b" arbitrary: b s rule: less_induct)
  case less
  note d = fs_okD [OF less.prems(1)]
  let ?sp = "sb s" let ?sz = "sb_size ?sp" let ?V = "view s"
  show ?case
  proof (cases "b < ?sz")
    case False
    then have "\<not> (\<exists>b < ?sz. \<not> used ?V ?sp b)" using less.prems(4) by auto
    then have "balloc_post s H 0 s" unfolding balloc_post_def using tx_refl [OF d(1)] by auto
    moreover have "balloc_loop ROOTDEV ?sz b s = Ok (0, s)" using False by (subst balloc_loop.simps) simp
    ultimately show ?thesis by blast
  next
    case True
    let ?n = "BBLOCK b ?sp"
    have "?n \<notin> H" using BBLOCK_bitmap [OF True] d(5) by blast
    then obtain bp s1 where 1: "bread ROOTDEV ?n s = Ok (bp, s1)" "opened s s1 H ?n bp" "buf_data s1 bp = ?V ?n" "mem_parts s1 = mem_parts s"
      using tx_bread [OF d(1), of ?n] less.prems(2) by (auto simp: room_def)
    obtain q where q: "b = BPB * q" using less.prems(3) by (rule dvdE)
    have blk: "BBLOCK (b + j) ?sp = ?n" "(b + j) mod BPB = j" if "j < BPB" for j using that by (simp_all add: BBLOCK_def q)
    show ?thesis
    proof (cases "balloc_bit BPB (?V ?n) b ?sz 0")
      case (Some bi)
      from balloc_bit_Some [OF this] have bi: "bi < BPB" "b + bi < ?sz" "\<not> is_set (?V ?n) bi" "\<forall>j < bi. is_set (?V ?n) j" by auto
      let ?a = "b + bi"
      have un: "\<not> used ?V ?sp ?a" using blk [OF bi(1)] bi(3) by (simp add: used_def)
      have low: "\<forall>j < ?a. used ?V ?sp j"
      proof (intro allI impI)
        fix j assume j: "j < ?a"
        show "used ?V ?sp j"
        proof (cases "j < b")
          case True
          then show ?thesis using less.prems(4) j bi(2) by simp
        next
          case False
          then obtain k where k: "j = b + k" by (metis le_Suc_ex not_less)
          then show ?thesis using j blk [of k] bi by (simp add: used_def)
        qed
      qed
      have o: "opened s s1 H (BBLOCK ?a ?sp) bp" using 1(2) blk(1) [OF bi(1)] by simp
      obtain s2 s3 s4 where "log_write bp (set_data bp ((buf_data s1 bp)(bi div 8 := buf_data s1 bp (bi div 8) OR bm_mask bi)) s1) = Ok ((), s2)"
        "brelse bp s2 = Ok ((), s3)" "bzero ROOTDEV ?a s3 = Ok ((), s4)" "tx s s4 H (alloc_view ?V ?sp ?a) {BBLOCK ?a ?sp, ?a}"
        "mem_parts s4 = mem_parts s"
        using balloc_found [OF less.prems(1,2) bi(2) un o 1(4), of bi] blk(2) [OF bi(1)] by auto
      moreover from this have "balloc_loop ROOTDEV ?sz b s = Ok (?a, s4)"
        using True 1 Some by (subst balloc_loop.simps) simp
      ultimately show ?thesis using un low bi(2) by (auto simp: balloc_post_def)
    next
      case None
      obtain s2 where 2: "brelse bp s1 = Ok ((), s2)" "tx s s2 H ?V {}" "mem_parts s2 = mem_parts s1" using tx_close [OF d(1) 1(2)] by blast
      note f = tx_fields [OF 2(2)]
      have ok2: "fs_ok s2 H" by (rule fs_ok_tx [OF less.prems(1) 2(2)]) simp
      have r2: "room s2 H 1" using room_tx [OF less.prems(2) 2(2), of 0] by simp
      have all: "\<forall>j < b + BPB. j < sb_size (sb s2) \<longrightarrow> used (view s2) (sb s2) j"
      proof (intro allI impI)
        fix j assume j: "j < b + BPB" "j < sb_size (sb s2)"
        show "used (view s2) (sb s2) j"
        proof (cases "j < b")
          case True
          then show ?thesis using less.prems(4) j f by simp
        next
          case False
          then obtain k where k: "j = b + k" by (metis le_Suc_ex not_less)
          then show ?thesis using j blk [of k] balloc_bit_None [OF None, of k] f by (simp add: used_def)
        qed
      qed
      have "sb_size (sb s2) - (b + BPB) < sb_size (sb s) - b" using True f(3) by (simp add: fs_consts)
      from less.hyps [OF this ok2 r2 _ all] obtain a s' where ih: "balloc_loop ROOTDEV (sb_size (sb s2)) (b + BPB) s2 = Ok (a, s')"
        "balloc_post s2 H a s'" using less.prems(3) by auto
      have "balloc_loop ROOTDEV ?sz b s = Ok (a, s')" using True 1 2 None ih(1) f(3) by (subst balloc_loop.simps) simp
      moreover have "balloc_post s H a s'"
        using ih(2) tx_trans [OF 2(2)] 2(3) 1(4) f unfolding balloc_post_def by (auto split: if_splits)
      ultimately show ?thesis by blast
    qed
  qed
qed

lemma balloc_ok:
  assumes "fs_ok s H" "room s H 1"
  shows "\<exists>a s'. balloc ROOTDEV s = Ok (a, s') \<and> balloc_post s H a s'"
  unfolding balloc_def using balloc_loop_ok [OF assms, of 0] by simp

lemma bfree_ok:
  assumes ok: "fs_ok s H" and r: "room s H 0" and a: "a < sb_size (sb s)"
  shows "if used (view s) (sb s) a then \<exists>s'. bfree ROOTDEV a s = Ok ((), s') \<and>
        tx s s' H ((view s)(BBLOCK a (sb s) := bit_off (view s (BBLOCK a (sb s))) (a mod BPB))) {BBLOCK a (sb s)} \<and> mem_parts s' = mem_parts s
      else bfree ROOTDEV a s = Panic ''freeing free block''"
proof -
  note d = fs_okD [OF ok]
  let ?n = "BBLOCK a (sb s)" let ?bi = "a mod BPB" let ?d = "view s ?n"
  have "?n \<notin> H" using BBLOCK_bitmap [OF a] d(5) by blast
  then obtain bp s1 where 1: "bread ROOTDEV ?n s = Ok (bp, s1)" "opened s s1 H ?n bp" "buf_data s1 bp = ?d" "mem_parts s1 = mem_parts s"
    using tx_bread [OF d(1), of ?n] r by (auto simp: room_def)
  have n: "?n \<notin> log_area (log_start s)" "?n < 2 ^ 32" using log_area_layout(2) [OF d(2) BBLOCK_bitmap [OF a]] d(3) by simp_all
  show ?thesis
  proof (cases "used (view s) (sb s) a")
    case True
    obtain s2 s3 where "log_write bp (set_data bp (bit_off ?d ?bi) s1) = Ok ((), s2)" "brelse bp s2 = Ok ((), s3)"
      "tx s s3 H ((view s)(?n := bit_off ?d ?bi)) {?n}" "mem_parts s3 = mem_parts s1" using tx_update [OF d(1) 1(2) r n] by blast
    then show ?thesis using True 1 by (auto simp: bfree_def Let_def used_def is_set_def bit_off_def)
  next
    case False
    then show ?thesis using 1 by (simp add: bfree_def Let_def used_def is_set_def)
  qed
qed

subsection \<open>A concrete file system\<close>

text \<open>An empty disk with 48 metadata blocks, mounted, with one file system call in progress.\<close>

definition demo_sb :: superblock where
  "demo_sb = \<lparr>sb_magic = FSMAGIC, sb_size = 2000, sb_nblocks = 1952, sb_ninodes = 200, sb_nlog = 31, sb_logstart = 2, sb_inodestart = 33,
     sb_bmapstart = 47\<rparr>"

definition demo_disk :: "nat \<Rightarrow> block" where
  "demo_disk n = (if n = 47 then (\<lambda>i. if i < 6 then - 1 else 0) else (\<lambda>_. 0))"

definition fs_boot :: "superblock \<Rightarrow> (nat \<Rightarrow> inode) \<Rightarrow> (nat \<Rightarrow> block) \<Rightarrow> fsst" where
  "fs_boot sp t d = \<lparr>bufs = bufs (boot_cache d), disk = d, dwrites = [], cur_pid = 1, log_start = sb_logstart sp, log_outstanding = 1,
     log_committing = False, log_dev = ROOTDEV, lh_n = 0, lh_block = (\<lambda>_. 0), sb = sp, itable = t,
     um = \<lparr>mem = (\<lambda>_. 0), freelist = 0, end_sym = 0, p_sz = 0, p_pagetable = 0\<rparr>, p_cwd = 0\<rparr>"

lemma fs_boot_view: "view (fs_boot sp t d) = d"
proof -
  have "view (fs_boot sp t d) = view (boot_cache d)"
    using boot_cache_ok(2,3) [of d] by (intro cache_cong(2)) (simp_all add: fs_boot_def)
  then show ?thesis by (simp add: fun_eq_iff view_boot)
qed

lemma fs_boot_log:
  assumes "hdr_n (d (sb_logstart sp)) = 0"
  shows "log_ok (fs_boot sp t d) {}" "pinned (fs_boot sp t d) = {}" "room (fs_boot sp t d) {} 28"
proof -
  have "BC (fs_boot sp t d) = BC (boot_cache d)"
    using boot_cache_ok(2,3) [of d] by (intro cache_cong(1)) (simp_all add: fs_boot_def)
  then have bc: "BC (fs_boot sp t d) {} {}" using BC_boot [of d] by simp
  show p: "pinned (fs_boot sp t d) = {}" by (simp add: pinned_def fs_boot_def)
  show "log_ok (fs_boot sp t d) {}" unfolding log_ok_def p using bc assms by (simp add: fs_boot_def)
  show "room (fs_boot sp t d) {} 28" unfolding room_def p by (simp add: fs_boot_def param_defs)
qed

lemma demo_used: "b < 2000 \<Longrightarrow> used demo_disk demo_sb b \<longleftrightarrow> b < 48"
proof -
  assume b: "b < 2000"
  have m: "b mod BPB = b" "BBLOCK b demo_sb = 47" using b by (simp_all add: fs_consts BBLOCK_def demo_sb_def)
  have "b mod 8 < 8" by simp
  then show ?thesis using b by (auto simp: used_def m is_set_bit demo_disk_def)
qed

lemma demo_layout: "fs_layout demo_sb" "data_start demo_sb = 48"
  by (simp_all add: fs_layout_def data_start_def demo_sb_def fs_consts param_defs)

lemma demo_hdr: "hdr_n (demo_disk (sb_logstart demo_sb)) = 0"
  by (simp add: demo_disk_def demo_sb_def hdr_n_def get32_def map_replicate_const)

lemmas demo_boot = fs_boot_log [where d = demo_disk and sp = demo_sb, OF demo_hdr]

lemma demo_fs_ok: "fs_ok (fs_boot demo_sb t demo_disk) {}"
proof -
  have "sb (fs_boot demo_sb t demo_disk) = demo_sb" "log_start (fs_boot demo_sb t demo_disk) = sb_logstart demo_sb"
    by (simp_all add: fs_boot_def)
  then show ?thesis using demo_boot demo_layout demo_used by (simp add: fs_ok_def fs_boot_view)
qed

text \<open>
  C18: The block allocator hands out free blocks and loses none. In a transaction with room in the log, \<^verbatim>\<open>balloc\<close> returns the lowest
  block that the bitmap does not mark, zeroed, and marks exactly that one; it returns 0 and changes nothing if every block is marked. \<^verbatim>\<open>bfree\<close> of a
  marked block unmarks exactly that one, and of a free block it panics. Both change no other block and keep the file system invariant.
\<close>

theorem balloc_bfree_correct:
  assumes ok: "fs_ok s H" and r: "room s H 1"
  shows "(\<exists>a s'. balloc ROOTDEV s = Ok (a, s') \<and> fs_ok s' H \<and>
      (if \<exists>b < sb_size (sb s). \<not> used (view s) (sb s) b
       then a < sb_size (sb s) \<and> \<not> used (view s) (sb s) a \<and> (\<forall>b < a. used (view s) (sb s) b) \<and> view s' a = (\<lambda>_. 0) \<and>
         (\<forall>b < sb_size (sb s). used (view s') (sb s) b \<longleftrightarrow> b = a \<or> used (view s) (sb s) b) \<and>
         (\<forall>n. n \<notin> {a, BBLOCK a (sb s)} \<longrightarrow> view s' n = view s n)
       else a = 0 \<and> view s' = view s)) \<and>
    (c < sb_size (sb s) \<and> data_start (sb s) \<le> c \<and> c \<notin> H \<longrightarrow>
      (if used (view s) (sb s) c
       then \<exists>s'. bfree ROOTDEV c s = Ok ((), s') \<and> fs_ok s' H \<and>
         (\<forall>b < sb_size (sb s). used (view s') (sb s) b \<longleftrightarrow> b \<noteq> c \<and> used (view s) (sb s) b) \<and>
         (\<forall>n. n \<noteq> BBLOCK c (sb s) \<longrightarrow> view s' n = view s n)
       else bfree ROOTDEV c s = Panic ''freeing free block''))"
proof -
  note d = fs_okD [OF ok]
  let ?sp = "sb s" let ?V = "view s"
  have A: "\<exists>a s'. balloc ROOTDEV s = Ok (a, s') \<and> fs_ok s' H \<and>
      (if \<exists>b < sb_size ?sp. \<not> used ?V ?sp b
       then a < sb_size ?sp \<and> \<not> used ?V ?sp a \<and> (\<forall>b < a. used ?V ?sp b) \<and> view s' a = (\<lambda>_. 0) \<and>
         (\<forall>b < sb_size ?sp. used (view s') ?sp b \<longleftrightarrow> b = a \<or> used ?V ?sp b) \<and> (\<forall>n. n \<notin> {a, BBLOCK a ?sp} \<longrightarrow> view s' n = ?V n)
       else a = 0 \<and> view s' = ?V)"
  proof -
    obtain a s' where b: "balloc ROOTDEV s = Ok (a, s')" "balloc_post s H a s'" using balloc_ok [OF ok r] by blast
    show ?thesis
    proof (cases "\<exists>b < sb_size ?sp. \<not> used ?V ?sp b")
      case True
      then have p: "a < sb_size ?sp" "\<not> used ?V ?sp a" "\<forall>b < a. used ?V ?sp b" "tx s s' H (alloc_view ?V ?sp a) {BBLOCK a ?sp, a}"
        using b(2) by (simp_all add: balloc_post_def)
      have v: "view s' = alloc_view ?V ?sp a" using tx_fields(2) [OF p(4)] .
      have "data_start ?sp \<le> a" using d(4) p(2) by (meson not_le)
      then have ne: "a \<notin> bitmap ?sp" using log_area_layout(3) [OF d(2) _ p(1)] by simp
      then have "BBLOCK a ?sp \<noteq> a" using BBLOCK_bitmap [OF p(1)] by auto
      then have "used (view s') ?sp b \<longleftrightarrow> b = a \<or> used ?V ?sp b" if "b < sb_size ?sp" for b
        using ne that unfolding v by (intro used_on(1)) (auto simp: alloc_view_def)
      note u = this
      have "fs_ok s' H" by (rule fs_ok_tx [OF ok p(4)]) (use u v in auto)
      then show ?thesis using b(1) p u v True by (intro exI [of _ a] exI [of _ s']) (auto simp: alloc_view_def)
    next
      case False
      then have p: "a = 0" "tx s s' H ?V {}" using b(2) by (simp_all add: balloc_post_def split: if_splits)
      have "fs_ok s' H" by (rule fs_ok_tx [OF ok p(2)]) simp
      then show ?thesis using b(1) p False tx_fields(2) [OF p(2)] by auto
    qed
  qed
  moreover have "if used ?V ?sp c
       then \<exists>s'. bfree ROOTDEV c s = Ok ((), s') \<and> fs_ok s' H \<and>
         (\<forall>b < sb_size ?sp. used (view s') ?sp b \<longleftrightarrow> b \<noteq> c \<and> used ?V ?sp b) \<and> (\<forall>n. n \<noteq> BBLOCK c ?sp \<longrightarrow> view s' n = ?V n)
       else bfree ROOTDEV c s = Panic ''freeing free block''"
    if c: "c < sb_size ?sp" "data_start ?sp \<le> c" "c \<notin> H"
  proof (cases "used ?V ?sp c")
    case True
    then obtain s' where b: "bfree ROOTDEV c s = Ok ((), s')"
      "tx s s' H (?V(BBLOCK c ?sp := bit_off (?V (BBLOCK c ?sp)) (c mod BPB))) {BBLOCK c ?sp}"
      using bfree_ok [OF ok room_mono [OF r] c(1)] by auto
    note v = tx_fields(2) [OF b(2)]
    have u: "used (view s') ?sp b \<longleftrightarrow> b \<noteq> c \<and> used ?V ?sp b" if "b < sb_size ?sp" for b
      using that unfolding v by (intro used_on(2)) auto
    have "fs_ok s' H" by (rule fs_ok_tx [OF ok b(2)]) (use u v c in auto)
    then show ?thesis using True b(1) u v by (auto intro!: exI [of _ s'])
  next
    case False
    then show ?thesis using bfree_ok [OF ok room_mono [OF r] c(1)] by simp
  qed
  ultimately show ?thesis by blast
qed

theorem balloc_bfree_correct_witness:
  "\<exists>s'. balloc ROOTDEV (fs_boot demo_sb (\<lambda>_. no_inode) demo_disk) = Ok (48, s') \<and> used (view s') demo_sb 48 \<and> view s' 48 = (\<lambda>_. 0)"
proof -
  let ?s = "fs_boot demo_sb (\<lambda>_. no_inode) demo_disk"
  have f: "sb ?s = demo_sb" "sb_size demo_sb = 2000" by (simp_all add: fs_boot_def demo_sb_def)
  have r: "room ?s {} 1" using room_mono [OF demo_boot(3)] by simp
  have ex: "\<exists>b < 2000. \<not> used demo_disk demo_sb b" using demo_used [of 48] by (intro exI [of _ 48]) simp
  obtain a s' where a: "balloc ROOTDEV ?s = Ok (a, s')" "a < 2000" "\<not> used demo_disk demo_sb a" "\<forall>b < a. used demo_disk demo_sb b"
    "view s' a = (\<lambda>_. 0)" "used (view s') demo_sb a"
    using balloc_bfree_correct [OF demo_fs_ok r, of 0] ex unfolding f fs_boot_view by auto
  have "a = 48"
  proof (rule antisym)
    show "48 \<le> a" using a(3) demo_used [OF a(2)] by simp
    have "\<not> 48 < a" using a(4) demo_used [of 48] by auto
    then show "a \<le> 48" by simp
  qed
  then show ?thesis using a by blast
qed

end
