(* ===== verification/Fs_File.thy ===== *)
theory Fs_File
  imports Fs_Alloc
begin

section \<open>Inode content: bmap, readi, writei\<close>

text \<open>
  The bytes of a file, as the block map of its inode defines them: \<open>blk_of V A bn\<close> is the disk block of file block \<open>bn\<close> for the address array
  \<open>A\<close> in the content \<open>V\<close> (0 if there is none), and \<open>fbyte V A i\<close> the byte at offset \<open>i\<close>, 0 in a hole. \<open>addrs_ok\<close>: the blocks of the
  file lie in the data area, are marked used, and are pairwise different. \<open>grown\<close>: the map was extended, no byte of the file
  changed, and no block that belongs to something else did.
\<close>

unbundle bit_operations_syntax

definition ind_of :: "(nat \<Rightarrow> u32) \<Rightarrow> nat" where
  "ind_of A = unat (A NDIRECT)"

definition blk_of :: "(nat \<Rightarrow> block) \<Rightarrow> (nat \<Rightarrow> u32) \<Rightarrow> nat \<Rightarrow> nat" where
  "blk_of V A bn =
     (if bn < NDIRECT then unat (A bn) else if ind_of A = 0 then 0 else unat (get32 (V (ind_of A)) (4 * (bn - NDIRECT))))"

definition fbyte :: "(nat \<Rightarrow> block) \<Rightarrow> (nat \<Rightarrow> u32) \<Rightarrow> nat \<Rightarrow> u8" where
  "fbyte V A i = (if blk_of V A (i div BSIZE) = 0 then 0 else V (blk_of V A (i div BSIZE)) (i mod BSIZE))"

definition data_block :: "(nat \<Rightarrow> block) \<Rightarrow> superblock \<Rightarrow> nat \<Rightarrow> bool" where
  "data_block V sp b \<longleftrightarrow> data_start sp \<le> b \<and> b < sb_size sp \<and> used V sp b"

definition file_blocks :: "(nat \<Rightarrow> block) \<Rightarrow> (nat \<Rightarrow> u32) \<Rightarrow> nat set" where
  "file_blocks V A = (blk_of V A ` {..<MAXFILE} \<union> {ind_of A}) - {0}"

definition addrs_ok :: "(nat \<Rightarrow> block) \<Rightarrow> superblock \<Rightarrow> (nat \<Rightarrow> u32) \<Rightarrow> bool" where
  "addrs_ok V sp A \<longleftrightarrow>
     (\<forall>b \<in> file_blocks V A. data_block V sp b) \<and>
     (\<forall>x < MAXFILE. blk_of V A x \<noteq> 0 \<longrightarrow> blk_of V A x \<noteq> ind_of A) \<and>
     (\<forall>x < MAXFILE. \<forall>y < MAXFILE. blk_of V A x = blk_of V A y \<longrightarrow> blk_of V A x \<noteq> 0 \<longrightarrow> x = y)"

definition grown :: "superblock \<Rightarrow> (nat \<Rightarrow> block) \<Rightarrow> (nat \<Rightarrow> u32) \<Rightarrow> (nat \<Rightarrow> block) \<Rightarrow> (nat \<Rightarrow> u32) \<Rightarrow> bool" where
  "grown sp V A V' A' \<longleftrightarrow>
     addrs_ok V' sp A' \<and> (\<forall>i < MAXFILE * BSIZE. fbyte V' A' i = fbyte V A i) \<and>
     (\<forall>x < MAXFILE. blk_of V A x \<noteq> 0 \<longrightarrow> blk_of V' A' x = blk_of V A x) \<and>
     (\<forall>b < sb_size sp. used V sp b \<longrightarrow> used V' sp b) \<and>
     (\<forall>n. n \<notin> bitmap sp \<and> n \<notin> file_blocks V A \<and> (n < sb_size sp \<longrightarrow> used V sp n) \<longrightarrow> V' n = V n \<and> n \<notin> file_blocks V' A') \<and>
     file_blocks V A \<subseteq> file_blocks V' A'"

lemma addrs_okD:
  assumes "addrs_ok V sp A"
  shows "b \<in> file_blocks V A \<Longrightarrow> data_block V sp b"
    "x < MAXFILE \<Longrightarrow> blk_of V A x \<noteq> 0 \<Longrightarrow> blk_of V A x \<noteq> ind_of A"
    "x < MAXFILE \<Longrightarrow> y < MAXFILE \<Longrightarrow> blk_of V A x = blk_of V A y \<Longrightarrow> blk_of V A x \<noteq> 0 \<Longrightarrow> x = y"
  using assms unfolding addrs_ok_def by blast+

lemma file_blocksI: "x < MAXFILE \<Longrightarrow> blk_of V A x \<noteq> 0 \<Longrightarrow> blk_of V A x \<in> file_blocks V A" "ind_of A \<noteq> 0 \<Longrightarrow> ind_of A \<in> file_blocks V A"
  by (auto simp: file_blocks_def)

lemma file_blocks_cong:
  "(\<And>x. x < MAXFILE \<Longrightarrow> blk_of V' A' x = blk_of V A x) \<Longrightarrow> ind_of A' = ind_of A \<Longrightarrow> file_blocks V' A' = file_blocks V A"
  unfolding file_blocks_def by (metis (no_types, lifting) image_cong lessThan_iff)

lemma blk_of_direct: "k < NDIRECT \<Longrightarrow> blk_of V (A(k := w)) x = (if x = k then unat w else blk_of V A x)"
  by (simp add: blk_of_def ind_of_def)

lemma grown_refl: "addrs_ok V sp A \<Longrightarrow> grown sp V A V A"
  by (simp add: grown_def)

lemma grown_trans:
  assumes "grown sp V A V' A'" "grown sp V' A' V'' A''"
  shows "grown sp V A V'' A''"
proof -
  have "V'' n = V n \<and> n \<notin> file_blocks V'' A''" if "n \<notin> bitmap sp \<and> n \<notin> file_blocks V A \<and> (n < sb_size sp \<longrightarrow> used V sp n)" for n
    using assms that unfolding grown_def by metis
  moreover have "blk_of V'' A'' x = blk_of V A x" if "x < MAXFILE" "blk_of V A x \<noteq> 0" for x
    using assms that unfolding grown_def by metis
  ultimately show ?thesis using assms unfolding grown_def by auto
qed

lemma small_word: "a < 2 ^ 31 \<Longrightarrow> unat (of_nat a :: u32) = a"
  by (simp add: unat_of_nat_small)

lemma block_div: "i < MAXFILE * BSIZE \<Longrightarrow> i div BSIZE < MAXFILE"
  by (simp add: less_mult_imp_div_less)

text \<open>Allocating a block changes nothing that belongs to the file.\<close>

lemma alloc_keeps:
  assumes A: "addrs_ok V sp A" and a: "a < sb_size sp" "\<not> used V sp a" "data_start sp \<le> a" and lay: "fs_layout sp"
    and V': "V' = alloc_view V sp a"
  shows "blk_of V' A x = blk_of V A x" "n \<notin> bitmap sp \<Longrightarrow> n \<noteq> a \<Longrightarrow> V' n = V n" "V' a = (\<lambda>_. 0)" "a \<notin> file_blocks V A"
    "\<forall>b < sb_size sp. used V' sp b \<longleftrightarrow> b = a \<or> used V sp b" "addrs_ok V' sp A" "fbyte V' A i = fbyte V A i \<or> \<not> i < MAXFILE * BSIZE" "a \<noteq> 0"
    "file_blocks V' A = file_blocks V A"
proof -
  have nb: "a \<notin> bitmap sp" using log_area_layout(3) [OF lay a(3,1)] by simp
  have BB: "BBLOCK a sp \<in> bitmap sp" using BBLOCK_bitmap [OF a(1)] .
  show other: "V' n = V n" if "n \<notin> bitmap sp" "n \<noteq> a" for n using that BB by (auto simp: V' alloc_view_def)
  show z: "V' a = (\<lambda>_. 0)" by (simp add: V' alloc_view_def)
  show nf: "a \<notin> file_blocks V A" using addrs_okD(1) [OF A] a(2) by (auto simp: data_block_def)
  show "a \<noteq> 0" using a(3) by (auto simp: data_start_def)
  have fb: "b \<notin> bitmap sp" "b \<noteq> a" if "b \<in> file_blocks V A" for b
    using addrs_okD(1) [OF A that] log_area_layout(3) [OF lay] nf that by (auto simp: data_block_def)
  have V: "V' b = V b" if "b \<in> file_blocks V A" for b using other fb [OF that] by blast
  show bl: "blk_of V' A x = blk_of V A x" for x using V [of "ind_of A"] by (simp add: blk_of_def file_blocks_def)
  show u: "\<forall>b < sb_size sp. used V' sp b \<longleftrightarrow> b = a \<or> used V sp b"
  proof (intro allI impI)
    fix b assume b: "b < sb_size sp"
    show "used V' sp b \<longleftrightarrow> b = a \<or> used V sp b"
      using nb BB b by (intro used_on(1)) (auto simp: V' alloc_view_def)
  qed
  show f: "file_blocks V' A = file_blocks V A" by (rule file_blocks_cong) (simp_all add: bl)
  show "addrs_ok V' sp A" using A u unfolding addrs_ok_def f bl data_block_def by auto
  show "fbyte V' A i = fbyte V A i \<or> \<not> i < MAXFILE * BSIZE"
    using V file_blocksI(1) [of "i div BSIZE" V A] block_div [of i] by (auto simp: fbyte_def bl)
qed

text \<open>Entering a fresh, zeroed block \<open>a\<close> in the map at a place that was empty.\<close>

lemma enter_block:
  assumes A: "addrs_ok V sp A" and a: "data_block V' sp a" "a \<notin> file_blocks V A" "V' a = (\<lambda>_. 0)" and k: "k < MAXFILE" "blk_of V A k = 0"
    and bl: "\<forall>x < MAXFILE. blk_of V' A' x = (if x = k then a else blk_of V A x)" and ind: "ind_of A' = ind_of A" "ind_of A \<noteq> a" "a \<noteq> 0"
    and same: "\<forall>x < MAXFILE. blk_of V A x \<noteq> 0 \<longrightarrow> V' (blk_of V A x) = V (blk_of V A x)"
    and u: "\<forall>b < sb_size sp. used V sp b \<longrightarrow> used V' sp b"
    and frame: "\<forall>n. n \<notin> bitmap sp \<and> n \<notin> file_blocks V A \<and> (n < sb_size sp \<longrightarrow> used V sp n) \<longrightarrow> V' n = V n \<and> n \<noteq> a"
  shows "grown sp V A V' A'"
proof -
  have fb: "file_blocks V' A' = insert a (file_blocks V A)"
  proof -
    have "blk_of V' A' ` {..<MAXFILE} = insert a (blk_of V A ` ({..<MAXFILE} - {k}))" using bl k(1) by (auto simp: image_iff)
    moreover have "blk_of V A ` {..<MAXFILE} - {0} = blk_of V A ` ({..<MAXFILE} - {k}) - {0}" using k(2) by auto
    ultimately show ?thesis unfolding file_blocks_def ind(1) using ind(3) by auto
  qed
  have "data_block V' sp b" if "b \<in> file_blocks V' A'" for b
    using that a(1) addrs_okD(1) [OF A, of b] u unfolding fb by (auto simp: data_block_def)
  moreover have "blk_of V' A' x \<noteq> ind_of A'" if "x < MAXFILE" "blk_of V' A' x \<noteq> 0" for x
    using that bl ind addrs_okD(2) [OF A that(1)] by (auto split: if_splits)
  moreover have "x = y" if "x < MAXFILE" "y < MAXFILE" "blk_of V' A' x = blk_of V' A' y" "blk_of V' A' x \<noteq> 0" for x y
  proof -
    have "blk_of V A z \<noteq> a \<or> blk_of V A z = 0" if "z < MAXFILE" for z using a(2) file_blocksI(1) [OF that, of V A] by auto
    then show ?thesis using that bl addrs_okD(3) [OF A, of x y] ind(3) by (auto split: if_splits)
  qed
  ultimately have ok: "addrs_ok V' sp A'" unfolding addrs_ok_def by blast
  have "fbyte V' A' i = fbyte V A i" if "i < MAXFILE * BSIZE" for i
  proof (cases "i div BSIZE = k")
    case True
    then show ?thesis using bl k a(3) ind(3) by (simp add: fbyte_def)
  next
    case False
    then show ?thesis using bl same block_div [OF that] by (simp add: fbyte_def)
  qed
  then show ?thesis unfolding grown_def fb using ok bl k u frame by auto
qed

lemma enter_indirect:
  assumes A: "addrs_ok V sp A" and a: "data_block V' sp a" "a \<notin> file_blocks V A" "V' a = (\<lambda>_. 0)" "a \<noteq> 0" and z: "ind_of A = 0" "ind_of A' = a"
    and dir: "\<forall>x < NDIRECT. A' x = A x"
    and same: "\<forall>x < MAXFILE. blk_of V A x \<noteq> 0 \<longrightarrow> V' (blk_of V A x) = V (blk_of V A x)"
    and u: "\<forall>b < sb_size sp. used V sp b \<longrightarrow> used V' sp b"
    and frame: "\<forall>n. n \<notin> bitmap sp \<and> n \<notin> file_blocks V A \<and> (n < sb_size sp \<longrightarrow> used V sp n) \<longrightarrow> V' n = V n \<and> n \<noteq> a"
  shows "grown sp V A V' A'"
proof -
  have "get32 (V' a) k = 0" for k unfolding a(3) by (simp add: get32_def map_replicate_const)
  then have bl: "blk_of V' A' x = blk_of V A x" for x using dir z a(4) by (simp add: blk_of_def)
  have fb: "file_blocks V' A' = insert a (file_blocks V A)" unfolding file_blocks_def bl z using a(4) by auto
  have "data_block V' sp b" if "b \<in> file_blocks V' A'" for b
    using that a(1) addrs_okD(1) [OF A, of b] u unfolding fb by (auto simp: data_block_def)
  moreover have "blk_of V A x \<noteq> ind_of A'" if "x < MAXFILE" "blk_of V A x \<noteq> 0" for x
    using file_blocksI(1) [OF that] a(2) z(2) by auto
  ultimately have ok: "addrs_ok V' sp A'" using addrs_okD(3) [OF A] unfolding addrs_ok_def bl by blast
  have "fbyte V' A' i = fbyte V A i" if "i < MAXFILE * BSIZE" for i using same block_div [OF that] by (simp add: fbyte_def bl)
  then show ?thesis unfolding grown_def fb bl using ok u frame by auto
qed

subsection \<open>Holding a block while working on others\<close>

lemma tx_update_held:
  assumes ok: "log_ok s H" and o: "opened s s1 H n b" and t: "tx s1 s2 (insert n H) V X" and r: "room s2 (insert n H) 0"
    and n: "n \<notin> log_area (log_start s)" "n < 2 ^ 32"
  shows "\<exists>s3 s4. log_write b (set_data b d s2) = Ok ((), s3) \<and> brelse b s3 = Ok ((), s4) \<and> tx s s4 H (V(n := d)) (insert n X) \<and>
    mem_parts s4 = mem_parts s2"
proof -
  note f = tx_fields [OF t]
  have g: "fs_rest s1 = fs_rest s" "pinned s1 = pinned s" "cached s1 n = Some b" "n \<notin> H" "\<forall>m \<in> H. cached s1 m = cached s m" "disk s1 = disk s"
    "dwrites s1 = dwrites s" using o by (simp_all add: opened_def)
  have h: "cached s2 n = Some b" "\<forall>m \<in> H. cached s2 m = cached s m" "disk s2 = disk s" "dwrites s2 = dwrites s" "fs_rest s2 = fs_rest s"
    using t g by (simp_all add: tx_def)
  have "n \<in> insert n H" "n \<notin> log_area (log_start s2)" "1 \<le> log_outstanding s2" using n r fs_restD [OF h(5)] by (simp_all add: room_def)
  from log_modify [OF f(1) this(1) h(1) this(2) n(2) room_log [OF f(1) r] this(3), of d]
  obtain s3 where 3: "log_write b (set_data b d s2) = Ok ((), s3)" "log_ok s3 (insert n H)" "cached s3 = cached s2"
    "view s3 = (view s2)(n := d)" "disk s3 = disk s2" "dwrites s3 = dwrites s2" "pinned s3 = insert n (pinned s2)" "log_rest s3 = log_rest s2" by auto
  have "cached s3 n = Some b" "n \<in> pinned s3 \<or> view s3 n = disk s3 n" using 3 h by simp_all
  then obtain s4 where 4: "brelse b s3 = Ok ((), s4)" "log_ok s4 (insert n H - {n})" "cached s4 = cached s3" "view s4 = view s3"
    "disk s4 = disk s3" "dwrites s4 = dwrites s3" "pinned s4 = pinned s3" "log_rest s4 = log_rest s3"
    using log_brelse [OF 3(2), of n b] by auto
  have "insert n H - {n} = H" using g(4) by auto
  then show ?thesis using 3 4 f g h log_rest_fs [OF 3(8)] log_rest_fs [OF 4(8)]
    by (intro exI [of _ s3] exI [of _ s4]) (auto simp: tx_def)
qed

lemma tx_close_held:
  assumes ok: "log_ok s H" and o: "opened s s1 H n b" and t: "tx s1 s2 (insert n H) V X" and V: "V n = view s n"
  shows "\<exists>s3. brelse b s2 = Ok ((), s3) \<and> tx s s3 H V X \<and> mem_parts s3 = mem_parts s2"
proof -
  note f = tx_fields [OF t]
  have g: "fs_rest s1 = fs_rest s" "pinned s1 = pinned s" "cached s1 n = Some b" "n \<notin> H" "\<forall>m \<in> H. cached s1 m = cached s m" "disk s1 = disk s"
    "dwrites s1 = dwrites s" using o by (simp_all add: opened_def)
  have h: "cached s2 n = Some b" "\<forall>m \<in> H. cached s2 m = cached s m" "disk s2 = disk s" "dwrites s2 = dwrites s" "fs_rest s2 = fs_rest s"
    using t g by (simp_all add: tx_def)
  have "n \<in> pinned s2 \<or> view s2 n = disk s2 n" using opened_clean [OF ok o] f(2,6) g(2) h(3) V by auto
  then obtain s3 where 3: "brelse b s2 = Ok ((), s3)" "log_ok s3 (insert n H - {n})" "cached s3 = cached s2" "view s3 = view s2"
    "disk s3 = disk s2" "dwrites s3 = dwrites s2" "pinned s3 = pinned s2" "log_rest s3 = log_rest s2"
    using log_brelse [OF f(1), of n b] h(1) by auto
  have "insert n H - {n} = H" using g(4) by auto
  then show ?thesis using 3 f g h log_rest_fs [OF 3(8)] by (intro exI [of _ s3]) (auto simp: tx_def)
qed

lemma held_data: "opened s s1 H n b \<Longrightarrow> tx s1 s2 (insert n H) V X \<Longrightarrow> buf_data s2 b = V n"
  using bc.dat_law [OF log_okD(1) [OF tx_fields(1)], of s1 s2 "insert n H" V X n b] tx_fields(2) [of s1 s2 "insert n H" V X]
  by (simp add: opened_def tx_def)

lemma opened_tx: "opened s s1 H n b \<Longrightarrow> tx s1 s1 (insert n H) (view s) {}"
  by (simp add: opened_def tx_def)

subsection \<open>bmap\<close>

definition set_addrs_of :: "nat \<Rightarrow> (nat \<Rightarrow> u32) \<Rightarrow> (nat \<Rightarrow> inode) \<Rightarrow> (nat \<Rightarrow> inode)" where
  "set_addrs_of ip A t = t(ip := (t ip)\<lparr>i_addrs := A\<rparr>)"

definition bmap_post :: "'a fsst_scheme \<Rightarrow> nat set \<Rightarrow> nat \<Rightarrow> nat \<Rightarrow> 'a fsst_scheme \<Rightarrow> (nat \<Rightarrow> u32) \<Rightarrow> (nat \<Rightarrow> block) \<Rightarrow> nat set \<Rightarrow> bool" where
  "bmap_post s H ip j s' A' V' X \<longleftrightarrow> tx s s' H V' X \<and> finite X \<and> card X \<le> j \<and> itable s' = set_addrs_of ip A' (itable s) \<and> um s' = um s \<and>
     grown (sb s) (view s) (i_addrs (itable s ip)) V' A'"

lemma set_addrs_same: "set_addrs_of ip (i_addrs (t ip)) t = t"
  by (simp add: set_addrs_of_def)

lemma bmap_post_refl: "fs_ok s H \<Longrightarrow> addrs_ok (view s) (sb s) (i_addrs (itable s ip)) \<Longrightarrow> bmap_post s H ip 0 s (i_addrs (itable s ip)) (view s) {}"
  by (simp add: bmap_post_def tx_refl fs_okD(1) set_addrs_same grown_refl)

text \<open>Entering a fresh block in a slot of the inode's address array.\<close>

lemma enter_slot:
  assumes A: "addrs_ok V sp A" and lay: "fs_layout sp" and a: "a < sb_size sp" "\<not> used V sp a" "data_start sp \<le> a" and k: "k \<le> NDIRECT" "A k = 0"
  shows "grown sp V A (alloc_view V sp a) (A(k := of_nat a))" "unat (of_nat a :: u32) = a" "a \<noteq> 0"
proof -
  let ?V' = "alloc_view V sp a" let ?A' = "A(k := of_nat a)"
  note al = alloc_keeps [OF A a lay refl]
  show w: "unat (of_nat a :: u32) = a" using a(1) lay by (intro small_word) (simp add: fs_layout_def)
  show "a \<noteq> 0" by (fact al(8))
  have db: "data_block ?V' sp a" using a al(5) by (simp add: data_block_def)
  have same: "\<forall>x < MAXFILE. blk_of V A x \<noteq> 0 \<longrightarrow> ?V' (blk_of V A x) = V (blk_of V A x)"
  proof (intro allI impI)
    fix x assume "x < MAXFILE" "blk_of V A x \<noteq> 0"
    then have f: "blk_of V A x \<in> file_blocks V A" by (rule file_blocksI)
    then show "?V' (blk_of V A x) = V (blk_of V A x)"
      using addrs_okD(1) [OF A f] log_area_layout(3) [OF lay] al(4) by (intro al(2)) (auto simp: data_block_def)
  qed
  have fr: "\<forall>n. n \<notin> bitmap sp \<and> n \<notin> file_blocks V A \<and> (n < sb_size sp \<longrightarrow> used V sp n) \<longrightarrow> ?V' n = V n \<and> n \<noteq> a"
    using al(2) a(1,2) by blast
  have u: "\<forall>b < sb_size sp. used V sp b \<longrightarrow> used ?V' sp b" using al(5) by blast
  have na: "ind_of A \<noteq> a" using al(4,8) file_blocksI(2) [of A V] by (cases "ind_of A = 0") auto
  show "grown sp V A ?V' ?A'"
  proof (cases "k = NDIRECT")
    case kd: True
    show ?thesis by (rule enter_indirect [OF A db al(4,3,8) _ _ _ same u fr]) (use k kd w in \<open>simp_all add: ind_of_def\<close>)
  next
    case False
    then have kl: "k < NDIRECT" using k by simp
    have bl: "\<forall>x < MAXFILE. blk_of ?V' ?A' x = (if x = k then a else blk_of V A x)"
      unfolding blk_of_direct [OF kl] al(1) w by simp
    have "k < MAXFILE" "blk_of V A k = 0" "ind_of ?A' = ind_of A" using kl k by (simp_all add: MAXFILE_def blk_of_def ind_of_def)
    then show ?thesis using enter_block [OF A db al(4,3) _ _ bl _ na al(8) same u fr] by blast
  qed
qed

lemma bmap_slot_ok:
  assumes ok: "fs_ok s H" and r: "room s H 1" and A: "addrs_ok (view s) (sb s) (i_addrs (itable s ip))" and dev: "i_dev (itable s ip) = ROOTDEV"
    and k: "k \<le> NDIRECT"
  shows "\<exists>a s' A' V' X. bmap_slot ip k s = Ok (a, s') \<and> bmap_post s H ip 2 s' A' V' X \<and> a = unat (A' k) \<and> (\<forall>j. j \<noteq> k \<longrightarrow> A' j = i_addrs (itable s ip) j) \<and>
    (a = 0 \<longrightarrow> (\<forall>b < sb_size (sb s). used V' (sb s) b))"
proof (cases "i_addrs (itable s ip) k = 0")
  case False
  then have "bmap_slot ip k s = Ok (unat (i_addrs (itable s ip) k), s)" by (simp add: bmap_slot_def)
  moreover have "unat (i_addrs (itable s ip) k) \<noteq> 0" using False by (simp add: unat_eq_0)
  ultimately show ?thesis using bmap_post_refl [OF ok A]
    by (intro exI [of _ "unat (i_addrs (itable s ip) k)"] exI [of _ s] exI [of _ "i_addrs (itable s ip)"] exI [of _ "view s"] exI [of _ "{}"])
      (simp add: bmap_post_def)
next
  case z: True
  let ?V = "view s" let ?sp = "sb s" let ?A = "i_addrs (itable s ip)"
  note d = fs_okD [OF ok]
  obtain a s1 where b: "balloc ROOTDEV s = Ok (a, s1)" "balloc_post s H a s1" using balloc_ok [OF ok r] by blast
  have m: "itable s1 = itable s" "um s1 = um s" using b(2) mem_partsD [of s1 s] by (simp_all add: balloc_post_def)
  show ?thesis
  proof (cases "\<exists>b < sb_size ?sp. \<not> used ?V ?sp b")
    case False
    then have "a = 0" "tx s s1 H ?V {}" using b(2) by (simp_all add: balloc_post_def split: if_splits)
    then show ?thesis using False b(1) z dev m A grown_refl [OF A]
      by (intro exI [of _ 0] exI [of _ s1] exI [of _ ?A] exI [of _ ?V] exI [of _ "{}"])
        (auto simp: bmap_slot_def bmap_post_def set_addrs_same)
  next
    case True
    then have p: "a < sb_size ?sp" "\<not> used ?V ?sp a" "tx s s1 H (alloc_view ?V ?sp a) {BBLOCK a ?sp, a}" using b(2) by (simp_all add: balloc_post_def)
    have ds: "data_start ?sp \<le> a" using d(4) p(2) by (meson not_le)
    let ?V' = "alloc_view ?V ?sp a" let ?A' = "?A(k := of_nat a)"
    note en = enter_slot [OF A d(2) p(1,2) ds k z]
    have run: "bmap_slot ip k s = Ok (a, upd_inode ip (\<lambda>x. x\<lparr>i_addrs := (i_addrs x)(k := of_nat a)\<rparr>) s1)"
      using b(1) z dev en(3) m by (simp add: bmap_slot_def)
    have "bmap_post s H ip 2 (upd_inode ip (\<lambda>x. x\<lparr>i_addrs := (i_addrs x)(k := of_nat a)\<rparr>) s1) ?A' ?V' {BBLOCK a ?sp, a}"
      using p(3) m en(1) by (simp add: bmap_post_def tx_same_blocks set_addrs_of_def card_insert_if)
    then show ?thesis using run en(2,3) by (intro exI conjI) (assumption, assumption, auto)
  qed
qed

lemma bmap_postD:
  assumes ok: "fs_ok s H" and H: "H \<inter> file_blocks (view s) (i_addrs (itable s ip)) = {}" and p: "bmap_post s H ip j s1 A V X"
  shows "fs_ok s1 H" "view s1 = V" "sb s1 = sb s" "i_addrs (itable s1 ip) = A" "addrs_ok V (sb s) A" "H \<inter> file_blocks V A = {}"
    "i_dev (itable s1 ip) = i_dev (itable s ip)" "room s H k \<Longrightarrow> j \<le> k \<Longrightarrow> room s1 H (k - j)" "log_start s1 = log_start s"
proof -
  have t: "tx s s1 H V X" and c: "finite X" "card X \<le> j" and it: "itable s1 = set_addrs_of ip A (itable s)"
    and g: "grown (sb s) (view s) (i_addrs (itable s ip)) V A" using p by (simp_all add: bmap_post_def)
  note f = tx_fields [OF t] and d = fs_okD [OF ok]
  have u: "\<forall>b < sb_size (sb s). used (view s) (sb s) b \<longrightarrow> used V (sb s) b" using g by (simp add: grown_def)
  show "fs_ok s1 H" by (rule fs_ok_tx [OF ok t]) (use u in blast)
  show "view s1 = V" "sb s1 = sb s" "log_start s1 = log_start s" by (rule f)+
  show "i_addrs (itable s1 ip) = A" "i_dev (itable s1 ip) = i_dev (itable s ip)" by (simp_all add: it set_addrs_of_def)
  show "addrs_ok V (sb s) A" using g by (simp add: grown_def)
  show "H \<inter> file_blocks V A = {}"
  proof -
    have "n \<notin> file_blocks V A" if "n \<in> H" for n
    proof -
      have "n \<notin> bitmap (sb s) \<and> n \<notin> file_blocks (view s) (i_addrs (itable s ip)) \<and> (n < sb_size (sb s) \<longrightarrow> used (view s) (sb s) n)"
        using that d(5,6) H by blast
      then show ?thesis using g by (simp add: grown_def)
    qed
    then show ?thesis by blast
  qed
  show "room s1 H (k - j)" if "room s H k" "j \<le> k" using room_tx [OF that(1) t c(2) that(2) c(1)] .
qed

lemma bmap_post_trans:
  assumes 1: "bmap_post s H ip j s1 A V X" and 2: "bmap_post s1 H ip k s2 A' V' Y"
  shows "bmap_post s H ip (j + k) s2 A' V' (X \<union> Y)"
proof -
  have f: "view s1 = V" "sb s1 = sb s" using tx_fields [of s s1 H V X] 1 by (simp_all add: bmap_post_def)
  have "card (X \<union> Y) \<le> j + k" using card_Un_le [of X Y] 1 2 by (simp add: bmap_post_def)
  moreover have "i_addrs (itable s1 ip) = A" "itable s2 = set_addrs_of ip A' (itable s)"
    using 1 2 by (simp_all add: bmap_post_def set_addrs_of_def)
  moreover have "um s2 = um s" "finite (X \<union> Y)" "tx s s2 H V' (X \<union> Y)"
    using 1 2 tx_trans [of s s1 H V X s2 V' Y] by (simp_all add: bmap_post_def)
  moreover have "grown (sb s) (view s) (i_addrs (itable s ip)) V' A'"
    using grown_trans 1 2 f calculation(2) unfolding bmap_post_def by metis
  ultimately show ?thesis by (simp add: bmap_post_def)
qed

lemma room_hold: "room s H k \<Longrightarrow> 1 \<le> k \<Longrightarrow> opened s s1 H n b \<Longrightarrow> room s1 (insert n H) (k - 1)"
proof -
  assume r: "room s H k" and k: "1 \<le> k" and o: "opened s s1 H n b"
  have e: "pinned s1 \<union> insert n H = insert n (pinned s \<union> H)" "log_outstanding s1 = log_outstanding s"
    using o fs_restD [of s1 s] by (auto simp: opened_def)
  have "card (insert n (pinned s \<union> H)) \<le> Suc (card (pinned s \<union> H))" by (rule card_insert_le_m1) simp_all
  then show ?thesis unfolding room_def e using r k unfolding room_def by linarith
qed

text \<open>The indirect block entry \<open>k\<close> receives the fresh block \<open>a\<close>.\<close>

lemma enter_entry:
  assumes A: "addrs_ok V sp A" and lay: "fs_layout sp" and a: "a < sb_size sp" "\<not> used V sp a" "data_start sp \<le> a"
    and k: "k < NINDIRECT" "ind_of A \<noteq> 0" "get32 (V (ind_of A)) (4 * k) = 0"
    and V': "V' = (alloc_view V sp a)(ind_of A := set32 (alloc_view V sp a (ind_of A)) (4 * k) (of_nat a))"
  shows "grown sp V A V' A" "blk_of V' A (NDIRECT + k) = a"
proof -
  let ?V1 = "alloc_view V sp a" let ?n = "ind_of A"
  note al = alloc_keeps [OF A a lay refl]
  have w: "unat (of_nat a :: u32) = a" using a(1) lay by (intro small_word) (simp add: fs_layout_def)
  have fb: "?n \<in> file_blocks V A" using k(2) by (rule file_blocksI)
  have nb: "?n \<notin> bitmap sp" "?n \<noteq> a" using addrs_okD(1) [OF A fb] log_area_layout(3) [OF lay] a(2) by (auto simp: data_block_def)
  have V1n: "?V1 ?n = V ?n" using al(2) [OF nb] .
  have ent: "blk_of V' A x = (if x = NDIRECT + k then a else blk_of V A x)" if "x < MAXFILE" for x
  proof (cases "x < NDIRECT")
    case True
    then show ?thesis by (simp add: blk_of_def)
  next
    case False
    then obtain m where m: "x = NDIRECT + m" by (metis le_Suc_ex not_less)
    have e: "V' ?n = set32 (V ?n) (4 * k) (of_nat a)" by (simp add: V' V1n)
    show ?thesis
    proof (cases "m = k")
      case True
      then show ?thesis using k(2) w by (simp add: m blk_of_def e)
    next
      case ne: False
      then have "4 * k + 4 \<le> 4 * m \<or> 4 * m + 4 \<le> 4 * k" by linarith
      then have "get32 (V' ?n) (4 * m) = get32 (V ?n) (4 * m)" unfolding e by (rule get32_set32_other)
      then show ?thesis using ne k(2) by (simp add: m blk_of_def)
    qed
  qed
  have kM: "NDIRECT + k < MAXFILE" using k(1) by (simp add: MAXFILE_def)
  then show "blk_of V' A (NDIRECT + k) = a" using ent by simp
  have u: "used V' sp b = used ?V1 sp b" if "b < sb_size sp" for b
    using BBLOCK_bitmap [OF that] nb(1) by (intro used_other) (auto simp: V')
  have other: "V' n = V n" if "n \<notin> bitmap sp" "n \<noteq> a" "n \<noteq> ?n" for n using al(2) [OF that(1,2)] that(3) by (simp add: V')
  show "grown sp V A V' A"
  proof (rule enter_block [OF A _ al(4) _ kM _ _ refl nb(2) al(8)])
    show "data_block V' sp a" using a al(5) u by (simp add: data_block_def)
    show "V' a = (\<lambda>_. 0)" using al(3) nb(2) by (simp add: V')
    show "blk_of V A (NDIRECT + k) = 0" using k by (simp add: blk_of_def)
    show "\<forall>x < MAXFILE. blk_of V' A x = (if x = NDIRECT + k then a else blk_of V A x)" using ent by blast
    show "\<forall>x < MAXFILE. blk_of V A x \<noteq> 0 \<longrightarrow> V' (blk_of V A x) = V (blk_of V A x)"
    proof (intro allI impI)
      fix x assume x: "x < MAXFILE" "blk_of V A x \<noteq> 0"
      have f: "blk_of V A x \<in> file_blocks V A" using x by (rule file_blocksI)
      then show "V' (blk_of V A x) = V (blk_of V A x)"
        using addrs_okD(1) [OF A f] log_area_layout(3) [OF lay] al(4) addrs_okD(2) [OF A x] by (intro other) (auto simp: data_block_def)
    qed
    show "\<forall>b < sb_size sp. used V sp b \<longrightarrow> used V' sp b" using u al(5) by simp
    show "\<forall>n. n \<notin> bitmap sp \<and> n \<notin> file_blocks V A \<and> (n < sb_size sp \<longrightarrow> used V sp n) \<longrightarrow> V' n = V n \<and> n \<noteq> a"
      using other fb a(1,2) by blast
  qed
qed

lemma indirect_ok:
  fixes s :: "'a fsst_scheme" and ip k :: nat
  defines "A \<equiv> i_addrs (itable s ip)" and "V \<equiv> view s"
  assumes ok: "fs_ok s H" and r: "room s H 3" and A: "addrs_ok V (sb s) A" and dev: "i_dev (itable s ip) = ROOTDEV"
    and H: "H \<inter> file_blocks V A = {}" and ind: "ind_of A \<noteq> 0" and k: "k < NINDIRECT"
  shows "\<exists>b s2. bread ROOTDEV (ind_of A) s = Ok (b, s2) \<and> itable s2 = itable s \<and> buf_data s2 b = V (ind_of A) \<and>
    (if get32 (V (ind_of A)) (4 * k) \<noteq> 0 then \<exists>s3. brelse b s2 = Ok ((), s3) \<and> bmap_post s H ip 3 s3 A V {}
     else \<exists>a s3. balloc ROOTDEV s2 = Ok (a, s3) \<and>
       (if a = 0 then (\<forall>b < sb_size (sb s). used V (sb s) b) \<and> (\<exists>s4. brelse b s3 = Ok ((), s4) \<and> bmap_post s H ip 3 s4 A V {})
        else \<exists>s4 s5 V' X. log_write b (set_data b (set32 (buf_data s3 b) (4 * k) (of_nat a)) s3) = Ok ((), s4) \<and> brelse b s4 = Ok ((), s5) \<and>
          bmap_post s H ip 3 s5 A V' X \<and> blk_of V' A (NDIRECT + k) = a))"
proof -
  let ?n = "ind_of A" let ?sp = "sb s"
  note d = fs_okD [OF ok]
  have fb: "?n \<in> file_blocks V A" using ind by (rule file_blocksI)
  then have nH: "?n \<notin> H" using H by blast
  have nd: "data_start ?sp \<le> ?n" "?n < sb_size ?sp" "used V ?sp ?n" using addrs_okD(1) [OF A fb] by (simp_all add: data_block_def)
  have nl: "?n \<notin> log_area (log_start s)" "?n \<notin> bitmap ?sp" "?n < 2 ^ 32"
    using log_area_layout(3) [OF d(2) nd(1,2)] nd(2) d(2) by (simp_all add: d(3) fs_layout_def)
  have "card (pinned s \<union> H) < NBUF" using r by (simp add: room_def)
  from tx_bread [OF d(1) nH disjI2 [OF this]] obtain b s2 where b: "bread ROOTDEV ?n s = Ok (b, s2)" "opened s s2 H ?n b" "buf_data s2 b = V ?n"
    "mem_parts s2 = mem_parts s" unfolding V_def by blast
  note g = fs_restD [of s2 s] mem_partsD [OF b(4)]
  have s2: "sb s2 = ?sp" "view s2 = V" "log_start s2 = log_start s" "log_ok s2 (insert ?n H)" "itable s2 = itable s"
    using b(2) g by (simp_all add: opened_def V_def)
  show ?thesis
  proof (cases "get32 (V ?n) (4 * k) = 0")
    case False
    obtain s3 where "brelse b s2 = Ok ((), s3)" "tx s s3 H (view s) {}" "mem_parts s3 = mem_parts s2" using tx_close [OF d(1) b(2)] by blast
    then have "brelse b s2 = Ok ((), s3) \<and> bmap_post s H ip 3 s3 A V {}"
      using grown_refl [OF A] b(4) mem_partsD [of s3 s] by (simp add: bmap_post_def A_def V_def set_addrs_same)
    then show ?thesis using b s2 False by (intro exI [of _ b] exI [of _ s2]) auto
  next
    case z: True
    have ok2: "fs_ok s2 (insert ?n H)" using ok nd nl by (auto simp: fs_ok_def s2 V_def)
    have r2: "room s2 (insert ?n H) 2" using room_hold [OF r _ b(2)] by simp
    obtain a s3 where a: "balloc ROOTDEV s2 = Ok (a, s3)" "balloc_post s2 (insert ?n H) a s3" using balloc_ok [OF ok2 room_mono [OF r2]] by auto
    have m3: "mem_parts s3 = mem_parts s" using a(2) b(4) by (simp add: balloc_post_def)
    show ?thesis
    proof (cases "\<exists>c < sb_size ?sp. \<not> used V ?sp c")
      case False
      then have t: "a = 0" "tx s2 s3 (insert ?n H) V {}" using a(2) by (simp_all add: balloc_post_def s2 split: if_splits)
      obtain s4 where "brelse b s3 = Ok ((), s4)" "tx s s4 H V {}" "mem_parts s4 = mem_parts s3"
        using tx_close_held [OF d(1) b(2) t(2)] by (auto simp: V_def)
      then have "brelse b s3 = Ok ((), s4) \<and> bmap_post s H ip 3 s4 A V {}"
        using grown_refl [OF A] m3 mem_partsD [of s4 s] by (simp add: bmap_post_def A_def V_def set_addrs_same)
      then show ?thesis using b s2 z a(1) t(1) False by (intro exI [of _ b] exI [of _ s2]) auto
    next
      case True
      let ?V1 = "alloc_view V ?sp a" let ?d = "set32 (?V1 ?n) (4 * k) (of_nat a)"
      have p: "a < sb_size ?sp" "\<not> used V ?sp a" "tx s2 s3 (insert ?n H) ?V1 {BBLOCK a ?sp, a}"
        using a(2) True by (simp_all add: balloc_post_def s2)
      have ds: "data_start ?sp \<le> a" using d(4) p(2) by (metis V_def not_le)
      have bd: "buf_data s3 b = ?V1 ?n" by (rule held_data [OF b(2) p(3)])
      have "room s3 (insert ?n H) 0" using room_tx [OF r2 p(3), of 2] by (simp add: card_insert_if)
      from tx_update_held [OF d(1) b(2) p(3) this nl(1,3), of ?d] obtain s4 s5
        where u: "log_write b (set_data b ?d s3) = Ok ((), s4)" "brelse b s4 = Ok ((), s5)" "tx s s5 H (?V1(?n := ?d)) (insert ?n {BBLOCK a ?sp, a})"
          "mem_parts s5 = mem_parts s3" by blast
      have e: "grown ?sp V A (?V1(?n := ?d)) A" "blk_of (?V1(?n := ?d)) A (NDIRECT + k) = a"
        using enter_entry [OF A d(2) p(1,2) ds k ind z refl] by simp_all
      have "bmap_post s H ip 3 s5 A (?V1(?n := ?d)) (insert ?n {BBLOCK a ?sp, a})"
        using u(3,4) m3 e(1) mem_partsD [of s5 s] by (simp add: bmap_post_def A_def V_def set_addrs_same card_insert_if)
      moreover have "a \<noteq> 0" using alloc_keeps(8) [OF A p(1,2) ds d(2) refl] .
      ultimately show ?thesis using b s2 z a(1) u(1,2) e(2) bd by (intro exI [of _ b] exI [of _ s2]) auto
    qed
  qed
qed

lemma bmap_post_mono: "bmap_post s H ip j s' A V X \<Longrightarrow> j \<le> k \<Longrightarrow> bmap_post s H ip k s' A V X"
  by (simp add: bmap_post_def)

lemma blk_of_slot: "bn < NDIRECT \<Longrightarrow> blk_of V A bn = unat (A bn)"
  by (simp add: blk_of_def)

lemma bmap_ok:
  assumes ok: "fs_ok s H" and r: "room s H 5" and A: "addrs_ok (view s) (sb s) (i_addrs (itable s ip))" and dev: "i_dev (itable s ip) = ROOTDEV"
    and H: "H \<inter> file_blocks (view s) (i_addrs (itable s ip)) = {}" and bn: "bn < MAXFILE"
  shows "\<exists>a s' A' V' X. bmap ip bn s = Ok (a, s') \<and> bmap_post s H ip 5 s' A' V' X \<and> a = blk_of V' A' bn \<and>
    (a = 0 \<longrightarrow> (\<forall>b < sb_size (sb s). used V' (sb s) b))"
proof (cases "bn < NDIRECT")
  case True
  obtain a s' A' V' X where "bmap_slot ip bn s = Ok (a, s')" "bmap_post s H ip 2 s' A' V' X" "a = unat (A' bn)"
    "a = 0 \<longrightarrow> (\<forall>b < sb_size (sb s). used V' (sb s) b)"
    using bmap_slot_ok [OF ok room_mono [OF r] A dev, of bn] True by auto
  then show ?thesis using True bmap_post_mono [of s H ip 2 s' A' V' X 5]
    by (intro exI [of _ a] exI [of _ s'] exI [of _ A'] exI [of _ V'] exI [of _ X]) (simp add: bmap_def blk_of_slot)
next
  case False
  then obtain k where k: "bn = NDIRECT + k" "k < NINDIRECT" using bn that [of "bn - NDIRECT"] by (simp add: MAXFILE_def)
  obtain n s1 A1 V1 X1 where 1: "bmap_slot ip NDIRECT s = Ok (n, s1)" "bmap_post s H ip 2 s1 A1 V1 X1" "n = ind_of A1"
    "n = 0 \<longrightarrow> (\<forall>b < sb_size (sb s). used V1 (sb s) b)"
    using bmap_slot_ok [OF ok room_mono [OF r] A dev, of NDIRECT] by (auto simp: ind_of_def)
  note p = bmap_postD [OF ok H 1(2)]
  show ?thesis
  proof (cases "n = 0")
    case True
    then have "bmap ip bn s = Ok (0, s1)" "blk_of V1 A1 bn = 0" using 1 k by (simp_all add: bmap_def blk_of_def)
    then show ?thesis using True 1 bmap_post_mono [OF 1(2), of 5]
      by (intro exI [of _ 0] exI [of _ s1] exI [of _ A1] exI [of _ V1] exI [of _ X1]) simp
  next
    case nz: False
    have r3: "room s1 H 3" using p(8) [OF r] by simp
    have nz': "ind_of A1 \<noteq> 0" using nz 1(3) by simp
    obtain b s2 where b: "bread ROOTDEV n s1 = Ok (b, s2)" "itable s2 = itable s1" "buf_data s2 b = V1 n"
      "if get32 (V1 n) (4 * k) \<noteq> 0 then \<exists>s3. brelse b s2 = Ok ((), s3) \<and> bmap_post s1 H ip 3 s3 A1 V1 {}
       else \<exists>a s3. balloc ROOTDEV s2 = Ok (a, s3) \<and>
         (if a = 0 then (\<forall>b < sb_size (sb s). used V1 (sb s) b) \<and> (\<exists>s4. brelse b s3 = Ok ((), s4) \<and> bmap_post s1 H ip 3 s4 A1 V1 {})
          else \<exists>s4 s5 V' X. log_write b (set_data b (set32 (buf_data s3 b) (4 * k) (of_nat a)) s3) = Ok ((), s4) \<and> brelse b s4 = Ok ((), s5) \<and>
            bmap_post s1 H ip 3 s5 A1 V' X \<and> blk_of V' A1 (NDIRECT + k) = a)"
      using indirect_ok [OF p(1) r3 _ _ _ _ k(2), of ip, unfolded p(2,3,4,7) dev, OF p(5) refl p(6) nz'] unfolding 1(3) by blast
    have d2: "i_dev (itable s1 ip) = ROOTDEV" "i_dev (itable s2 ip) = ROOTDEV" using p(7) dev b(2) by simp_all
    have bl: "blk_of V1 A1 bn = unat (get32 (V1 n) (4 * k))" using k nz 1(3) by (simp add: blk_of_def)
    have tr: "bmap_post s H ip 5 s' A1 V' (X1 \<union> Y)" if "bmap_post s1 H ip 3 s' A1 V' Y" for s' V' Y
      using bmap_post_trans [OF 1(2) that] by simp
    note run = bmap_def k 1(1) nz b(1,3) d2
    consider (old) s3 where "get32 (V1 n) (4 * k) \<noteq> 0" "brelse b s2 = Ok ((), s3)" "bmap_post s1 H ip 3 s3 A1 V1 {}"
      | (full) s3 s4 where "get32 (V1 n) (4 * k) = 0" "balloc ROOTDEV s2 = Ok (0, s3)" "\<forall>b < sb_size (sb s). used V1 (sb s) b"
          "brelse b s3 = Ok ((), s4)" "bmap_post s1 H ip 3 s4 A1 V1 {}"
      | (new) a s3 s4 s5 V' X where "get32 (V1 n) (4 * k) = 0" "balloc ROOTDEV s2 = Ok (a, s3)" "a \<noteq> 0"
          "log_write b (set_data b (set32 (buf_data s3 b) (4 * k) (of_nat a)) s3) = Ok ((), s4)" "brelse b s4 = Ok ((), s5)"
          "bmap_post s1 H ip 3 s5 A1 V' X" "blk_of V' A1 bn = a"
      using b(4) unfolding k(1) by metis
    then show ?thesis
    proof cases
      case old
      then have "unat (get32 (V1 n) (4 * k)) \<noteq> 0" by (simp add: unat_eq_0)
      then show ?thesis using old tr [OF old(3)] bl
        by (intro exI [of _ "blk_of V1 A1 bn"] exI [of _ s3] exI [of _ A1] exI [of _ V1] exI [of _ "X1 \<union> {}"]) (simp add: run)
    next
      case full
      then show ?thesis using tr [OF full(5)] bl
        by (intro exI [of _ 0] exI [of _ s4] exI [of _ A1] exI [of _ V1] exI [of _ "X1 \<union> {}"]) (simp add: run)
    next
      case new
      then show ?thesis using tr [OF new(6)]
        by (intro exI [of _ a] exI [of _ s5] exI [of _ A1] exI [of _ V'] exI [of _ "X1 \<union> X"]) (simp add: run)
    qed
  qed
qed

lemma bmap_mapped:
  assumes ok: "fs_ok s H" and r: "card (pinned s \<union> H) < NBUF" and A: "addrs_ok (view s) (sb s) (i_addrs (itable s ip))" and dev: "i_dev (itable s ip) = ROOTDEV"
    and H: "H \<inter> file_blocks (view s) (i_addrs (itable s ip)) = {}" and bn: "bn < MAXFILE" and m: "blk_of (view s) (i_addrs (itable s ip)) bn \<noteq> 0"
  shows "\<exists>s'. bmap ip bn s = Ok (blk_of (view s) (i_addrs (itable s ip)) bn, s') \<and> tx s s' H (view s) {} \<and> mem_parts s' = mem_parts s"
proof (cases "bn < NDIRECT")
  case True
  then have "i_addrs (itable s ip) bn \<noteq> 0" using m by (auto simp: blk_of_def unat_eq_0)
  then show ?thesis using True tx_refl [OF fs_okD(1) [OF ok]] by (simp add: bmap_def bmap_slot_def blk_of_def)
next
  case False
  let ?A = "i_addrs (itable s ip)"
  have nz: "ind_of ?A \<noteq> 0" "get32 (view s (ind_of ?A)) (4 * (bn - NDIRECT)) \<noteq> 0" using m False by (auto simp: blk_of_def unat_eq_0 split: if_splits)
  then have n: "ind_of ?A \<notin> H" "?A NDIRECT \<noteq> 0" using H file_blocksI(2) [of ?A "view s"] by (auto simp: ind_of_def unat_eq_0)
  obtain b s1 where b: "bread ROOTDEV (ind_of ?A) s = Ok (b, s1)" "opened s s1 H (ind_of ?A) b" "buf_data s1 b = view s (ind_of ?A)" "mem_parts s1 = mem_parts s"
    using tx_bread [OF fs_okD(1) [OF ok] n(1)] r by blast
  obtain s2 where c: "brelse b s1 = Ok ((), s2)" "tx s s2 H (view s) {}" "mem_parts s2 = mem_parts s1"
    using tx_close [OF fs_okD(1) [OF ok] b(2)] by blast
  have "bn - NDIRECT < NINDIRECT" using bn False by (auto simp: MAXFILE_def)
  then have "bmap ip bn s = Ok (blk_of (view s) ?A bn, s2)"
    using False nz n b(1,3) c(1) dev by (simp add: bmap_def bmap_slot_def blk_of_def ind_of_def)
  then show ?thesis using c(2,3) b(4) by auto
qed

end
