(* ===== verification/Fs_Rw.thy ===== *)
theory Fs_Rw
  imports Fs_File Vm_Copy
begin

section \<open>Reading and writing files\<close>

text \<open>
  What \<^verbatim>\<open>readi\<close> and \<^verbatim>\<open>writei\<close> do to the bytes of a file. \<open>file_wrote sp V A off bs V' A'\<close>: the bytes \<open>bs\<close> were written at offset \<open>off\<close>, every other
  byte of the file kept its value, every block of the range is mapped, and no block of anything else changed. Where the bytes come from and
  go to is a contract: \<open>byte_source\<close> for \<^verbatim>\<open>either_copyin\<close>, \<open>byte_sink\<close> for \<^verbatim>\<open>either_copyout\<close>, with an instance for kernel buffers and one
  for user memory each.
\<close>

unbundle bit_operations_syntax

definition file_wrote ::
  "superblock \<Rightarrow> (nat \<Rightarrow> block) \<Rightarrow> (nat \<Rightarrow> u32) \<Rightarrow> nat \<Rightarrow> u8 list \<Rightarrow> (nat \<Rightarrow> block) \<Rightarrow> (nat \<Rightarrow> u32) \<Rightarrow> bool" where
  "file_wrote sp V A off bs V' A' \<longleftrightarrow>
     addrs_ok V' sp A' \<and>
     (\<forall>i < MAXFILE * BSIZE. fbyte V' A' i = (if off \<le> i \<and> i < off + length bs then bs ! (i - off) else fbyte V A i)) \<and>
     (\<forall>i < MAXFILE * BSIZE. off \<le> i \<and> i < off + length bs \<longrightarrow> blk_of V' A' (i div BSIZE) \<noteq> 0) \<and>
     (\<forall>x < MAXFILE. blk_of V A x \<noteq> 0 \<longrightarrow> blk_of V' A' x = blk_of V A x) \<and>
     (\<forall>b < sb_size sp. used V sp b \<longrightarrow> used V' sp b) \<and>
     (\<forall>n. n \<notin> bitmap sp \<and> n \<notin> file_blocks V A \<and> (n < sb_size sp \<longrightarrow> used V sp n) \<longrightarrow> V' n = V n \<and> n \<notin> file_blocks V' A') \<and>
     file_blocks V A \<subseteq> file_blocks V' A'"

lemma grown_wrote: "grown sp V A V' A' \<Longrightarrow> file_wrote sp V A off [] V' A'"
  unfolding grown_def file_wrote_def by auto

lemma file_wrote_trans:
  assumes 1: "file_wrote sp V A off bs V' A'" and 2: "file_wrote sp V' A' (off + length bs) cs V'' A''"
  shows "file_wrote sp V A off (bs @ cs) V'' A''"
proof -
  have "fbyte V'' A'' i = (if off \<le> i \<and> i < off + length (bs @ cs) then (bs @ cs) ! (i - off) else fbyte V A i)" if i: "i < MAXFILE * BSIZE" for i
  proof -
    have "fbyte V'' A'' i = (if off + length bs \<le> i \<and> i < off + length bs + length cs then cs ! (i - (off + length bs)) else fbyte V' A' i)"
      "fbyte V' A' i = (if off \<le> i \<and> i < off + length bs then bs ! (i - off) else fbyte V A i)"
      using 1 2 i unfolding file_wrote_def by blast+
    then show ?thesis by (auto simp: nth_append)
  qed
  moreover have "blk_of V'' A'' (i div BSIZE) \<noteq> 0" if "i < MAXFILE * BSIZE" "off \<le> i \<and> i < off + length (bs @ cs)" for i
  proof (cases "i < off + length bs")
    case True
    then have "blk_of V' A' (i div BSIZE) \<noteq> 0" using that 1 unfolding file_wrote_def by blast
    then show ?thesis using 2 block_div [OF that(1)] unfolding file_wrote_def by metis
  next
    case False
    then have "off + length bs \<le> i \<and> i < off + length bs + length cs" using that(2) by simp
    then show ?thesis using that(1) 2 unfolding file_wrote_def by blast
  qed
  moreover have "blk_of V'' A'' x = blk_of V A x" if "x < MAXFILE" "blk_of V A x \<noteq> 0" for x
    using 1 2 that unfolding file_wrote_def by metis
  moreover have "V'' n = V n \<and> n \<notin> file_blocks V'' A''" if "n \<notin> bitmap sp \<and> n \<notin> file_blocks V A \<and> (n < sb_size sp \<longrightarrow> used V sp n)" for n
    using 1 2 that unfolding file_wrote_def by metis
  moreover have "addrs_ok V'' sp A''" "file_blocks V A \<subseteq> file_blocks V'' A''" "\<forall>b < sb_size sp. used V sp b \<longrightarrow> used V'' sp b"
    using 1 2 unfolding file_wrote_def by auto
  ultimately show ?thesis unfolding file_wrote_def by blast
qed

lemma blk_of_cong: "V' (ind_of A) = V (ind_of A) \<Longrightarrow> blk_of V' A = blk_of V A"
  by (rule ext) (simp add: blk_of_def)

text \<open>Storing into a block of the file.\<close>

lemma overwrite_block:
  assumes A: "addrs_ok V sp A" and lay: "fs_layout sp" and x: "x < MAXFILE" "blk_of V A x \<noteq> 0"
  shows "blk_of (V(blk_of V A x := d)) A = blk_of V A" "used (V(blk_of V A x := d)) sp b = used V sp b \<or> \<not> b < sb_size sp"
    "addrs_ok (V(blk_of V A x := d)) sp A" "file_blocks (V(blk_of V A x := d)) A = file_blocks V A"
    "i < MAXFILE * BSIZE \<Longrightarrow> fbyte (V(blk_of V A x := d)) A i = (if i div BSIZE = x then d (i mod BSIZE) else fbyte V A i)"
proof -
  let ?a = "blk_of V A x" let ?V = "V(?a := d)"
  have f: "?a \<in> file_blocks V A" using x by (rule file_blocksI)
  then have nb: "?a \<notin> bitmap sp" using addrs_okD(1) [OF A f] log_area_layout(3) [OF lay] by (auto simp: data_block_def)
  have "?V (ind_of A) = V (ind_of A)" using addrs_okD(2) [OF A x] by auto
  then show bl: "blk_of ?V A = blk_of V A" by (rule blk_of_cong)
  show u: "used ?V sp b = used V sp b \<or> \<not> b < sb_size sp" for b using BBLOCK_bitmap [of b sp] nb by (auto simp: used_def)
  show fb: "file_blocks ?V A = file_blocks V A" by (simp add: file_blocks_def bl)
  show "addrs_ok ?V sp A" using A u unfolding addrs_ok_def fb bl data_block_def by blast
  show "fbyte ?V A i = (if i div BSIZE = x then d (i mod BSIZE) else fbyte V A i)" if "i < MAXFILE * BSIZE"
    using x addrs_okD(3) [OF A x(1) block_div [OF that]] by (auto simp: fbyte_def bl)
qed

lemma chunk_range: "m \<le> BSIZE - off mod BSIZE \<Longrightarrow> off \<le> i \<Longrightarrow> i < off + m \<Longrightarrow> i div BSIZE = off div BSIZE \<and> i mod BSIZE = off mod BSIZE + (i - off)"
proof -
  assume a: "m \<le> BSIZE - off mod BSIZE" "off \<le> i" "i < off + m"
  have B: "0 < BSIZE" by (simp add: BSIZE_def)
  have "i = BSIZE * (off div BSIZE) + (off mod BSIZE + (i - off))" using a(2) by (simp add: mult.commute)
  moreover have "off mod BSIZE + (i - off) < BSIZE" using a mod_less_divisor [OF B, of off] by linarith
  ultimately show ?thesis using div_mult_self4 [of BSIZE] B by (metis add.commute add_0 div_less div_mult_self2 mod_less mod_mult_self2 not_gr_zero)
qed

lemma overwrite_wrote:
  assumes A: "addrs_ok V sp A" and lay: "fs_layout sp" and x: "off div BSIZE < MAXFILE" "blk_of V A (off div BSIZE) \<noteq> 0"
    and bs: "length bs \<le> BSIZE - off mod BSIZE"
  shows "file_wrote sp V A off bs (V(blk_of V A (off div BSIZE) := set_bytes (V (blk_of V A (off div BSIZE))) (off mod BSIZE) bs)) A"
proof -
  let ?x = "off div BSIZE" let ?a = "blk_of V A ?x" let ?d = "set_bytes (V ?a) (off mod BSIZE) bs"
  note o = overwrite_block [OF A lay x, where d = ?d]
  have byte: "fbyte (V(?a := ?d)) A i = (if off \<le> i \<and> i < off + length bs then bs ! (i - off) else fbyte V A i)" if i: "i < MAXFILE * BSIZE" for i
  proof (cases "off \<le> i \<and> i < off + length bs")
    case True
    then obtain k where k: "i = off + k" "k < length bs" by (metis le_Suc_ex nat_add_left_cancel_less)
    then have "i div BSIZE = ?x" "i mod BSIZE = off mod BSIZE + k" using chunk_range [OF bs, of i] by simp_all
    then show ?thesis using k o(5) [OF i] by (simp add: set_bytes_def)
  next
    case False
    have "\<not> (off mod BSIZE \<le> i mod BSIZE \<and> i mod BSIZE < off mod BSIZE + length bs)" if e: "i div BSIZE = ?x"
    proof -
      have "i = ?x * BSIZE + i mod BSIZE" "off = ?x * BSIZE + off mod BSIZE" using e by (metis div_mult_mod_eq)+
      then show ?thesis using False by linarith
    qed
    then show ?thesis using False o(5) [OF i] x by (auto simp: set_bytes_def fbyte_def)
  qed
  have "blk_of V A (i div BSIZE) \<noteq> 0" if "off \<le> i \<and> i < off + length bs" for i using chunk_range [OF bs] that x(2) by auto
  moreover have "V' n = V n" if "n \<notin> file_blocks V A" "V' = V(?a := ?d)" for n V' using that file_blocksI(1) [OF x] by auto
  ultimately show ?thesis unfolding file_wrote_def o(1,4) using o(2,3) byte by blast
qed

subsection \<open>One block of a write\<close>

lemma block_of_file:
  assumes "addrs_ok V sp A" "fs_layout sp" "H \<inter> file_blocks V A = {}" "x < MAXFILE" "blk_of V A x \<noteq> 0"
  shows "blk_of V A x \<notin> H" "blk_of V A x \<notin> log_area (sb_logstart sp)" "blk_of V A x < 2 ^ 32"
proof -
  have f: "blk_of V A x \<in> file_blocks V A" using assms(4,5) by (rule file_blocksI)
  then show "blk_of V A x \<notin> H" using assms(3) by blast
  show "blk_of V A x \<notin> log_area (sb_logstart sp)" "blk_of V A x < 2 ^ 32"
    using addrs_okD(1) [OF assms(1) f] log_area_layout(3) [OF assms(2)] by (simp_all add: data_block_def)
qed

lemma write_block:
  assumes ok: "fs_ok s H" and r: "room s H 0" and n: "n \<notin> H" "n \<notin> log_area (sb_logstart (sb s))" "n < 2 ^ 32"
  shows "\<exists>b s1. bread ROOTDEV n s = Ok (b, s1) \<and> mem_parts s1 = mem_parts s \<and> buf_data s1 b = view s n \<and> sb s1 = sb s \<and>
    (\<forall>d u. \<exists>s2 s3. log_write b (set_data b d (s1\<lparr>um := u\<rparr>)) = Ok ((), s2) \<and> brelse b s2 = Ok ((), s3) \<and> tx s s3 H ((view s)(n := d)) {n} \<and>
      itable s3 = itable s \<and> um s3 = u)"
proof -
  note d = fs_okD [OF ok]
  have "card (pinned s \<union> H) < NBUF" using r by (simp add: room_def)
  then obtain b s1 where b: "bread ROOTDEV n s = Ok (b, s1)" "opened s s1 H n b" "buf_data s1 b = view s n" "mem_parts s1 = mem_parts s"
    using tx_bread [OF d(1) n(1)] by blast
  have o: "opened s (s1\<lparr>um := u\<rparr>) H n b" for u using b(2) by (simp add: opened_def)
  have "\<exists>s2 s3. log_write b (set_data b d (s1\<lparr>um := u\<rparr>)) = Ok ((), s2) \<and> brelse b s2 = Ok ((), s3) \<and> tx s s3 H ((view s)(n := d)) {n} \<and>
      itable s3 = itable s \<and> um s3 = u" for d u
    using tx_update [OF d(1) o [of u] r, of d] n(2,3) d(3) b(4) by (auto simp: mem_parts_def)
  moreover have "sb s1 = sb s" using b(2) fs_restD [of s1 s] by (simp add: opened_def)
  ultimately show ?thesis using b by blast
qed

definition wrote_file ::
  "'a fsst_scheme \<Rightarrow> nat set \<Rightarrow> nat \<Rightarrow> nat \<Rightarrow> u8 list \<Rightarrow> nat \<Rightarrow> 'a fsst_scheme \<Rightarrow> (nat \<Rightarrow> u32) \<Rightarrow> (nat \<Rightarrow> block) \<Rightarrow> nat set \<Rightarrow> bool" where
  "wrote_file s H ip off bs j s' A' V' X \<longleftrightarrow> tx s s' H V' X \<and> finite X \<and> card X \<le> j \<and> itable s' = set_addrs_of ip A' (itable s) \<and>
     file_wrote (sb s) (view s) (i_addrs (itable s ip)) off bs V' A'"

lemma wrote_file_nothing:
  "fs_ok s H \<Longrightarrow> addrs_ok (view s) (sb s) (i_addrs (itable s ip)) \<Longrightarrow> wrote_file s H ip off [] j s (i_addrs (itable s ip)) (view s) {}"
  by (simp add: wrote_file_def tx_refl fs_okD(1) set_addrs_same grown_wrote grown_refl)

lemma wrote_file_bmap: "bmap_post s H ip j s' A V X \<Longrightarrow> wrote_file s H ip off [] j s' A V X"
  by (simp add: wrote_file_def bmap_post_def grown_wrote)

lemma wrote_file_mono: "wrote_file s H ip off bs j s' A V X \<Longrightarrow> j \<le> k \<Longrightarrow> wrote_file s H ip off bs k s' A V X"
  by (simp add: wrote_file_def)

lemma wrote_fileD:
  assumes ok: "fs_ok s H" and H: "H \<inter> file_blocks (view s) (i_addrs (itable s ip)) = {}" and p: "wrote_file s H ip off bs j s1 A V X"
  shows "fs_ok s1 H" "view s1 = V" "sb s1 = sb s" "i_addrs (itable s1 ip) = A" "addrs_ok V (sb s) A" "H \<inter> file_blocks V A = {}"
    "i_dev (itable s1 ip) = i_dev (itable s ip)" "room s H k \<Longrightarrow> j \<le> k \<Longrightarrow> room s1 H (k - j)" "i_size (itable s1 ip) = i_size (itable s ip)"
    "i_inum (itable s1 ip) = i_inum (itable s ip)"
proof -
  have t: "tx s s1 H V X" and c: "finite X" "card X \<le> j" and it: "itable s1 = set_addrs_of ip A (itable s)"
    and g: "file_wrote (sb s) (view s) (i_addrs (itable s ip)) off bs V A" using p by (simp_all add: wrote_file_def)
  note f = tx_fields [OF t] and d = fs_okD [OF ok]
  have u: "\<forall>b < sb_size (sb s). used (view s) (sb s) b \<longrightarrow> used V (sb s) b" using g by (simp add: file_wrote_def)
  show "fs_ok s1 H" by (rule fs_ok_tx [OF ok t]) (use u in blast)
  show "view s1 = V" "sb s1 = sb s" by (rule f)+
  show "i_addrs (itable s1 ip) = A" "i_dev (itable s1 ip) = i_dev (itable s ip)" "i_size (itable s1 ip) = i_size (itable s ip)"
    "i_inum (itable s1 ip) = i_inum (itable s ip)" by (simp_all add: it set_addrs_of_def)
  show "addrs_ok V (sb s) A" using g by (simp add: file_wrote_def)
  have "n \<notin> file_blocks V A" if "n \<in> H" for n
  proof -
    have "n \<notin> bitmap (sb s) \<and> n \<notin> file_blocks (view s) (i_addrs (itable s ip)) \<and> (n < sb_size (sb s) \<longrightarrow> used (view s) (sb s) n)"
      using that d(5,6) H by blast
    then show ?thesis using g by (simp add: file_wrote_def)
  qed
  then show "H \<inter> file_blocks V A = {}" by blast
  show "room s1 H (k - j)" if "room s H k" "j \<le> k" using room_tx [OF that(1) t c(2) that(2) c(1)] .
qed

lemma wrote_file_trans:
  assumes 1: "wrote_file s H ip off bs j s1 A V X" and 2: "wrote_file s1 H ip (off + length bs) cs k s2 A' V' Y"
  shows "wrote_file s H ip off (bs @ cs) (j + k) s2 A' V' (X \<union> Y)"
proof -
  have f: "view s1 = V" "sb s1 = sb s" using tx_fields [of s s1 H V X] 1 by (simp_all add: wrote_file_def)
  have "card (X \<union> Y) \<le> j + k" using card_Un_le [of X Y] 1 2 by (simp add: wrote_file_def)
  moreover have a: "i_addrs (itable s1 ip) = A" "itable s2 = set_addrs_of ip A' (itable s)"
    using 1 2 by (simp_all add: wrote_file_def set_addrs_of_def)
  moreover have "finite (X \<union> Y)" "tx s s2 H V' (X \<union> Y)" using 1 2 tx_trans [of s s1 H V X s2 V' Y] by (simp_all add: wrote_file_def)
  moreover have "file_wrote (sb s) (view s) (i_addrs (itable s ip)) off (bs @ cs) V' A'"
    using file_wrote_trans [of "sb s" "view s" "i_addrs (itable s ip)" off bs V A cs V' A'] 1 2 f a(1) by (simp add: wrote_file_def)
  ultimately show ?thesis by (simp add: wrote_file_def)
qed

lemma next_block_chunk:
  assumes "m = blk_chunk off (n - tot)" "tot < n" "off mod BSIZE + (n - tot) \<le> Suc c * BSIZE"
  shows "tot + m = n \<or> (off + m) mod BSIZE + (n - (tot + m)) \<le> c * BSIZE"
proof (cases "n - tot \<le> BSIZE - off mod BSIZE")
  case True
  then show ?thesis using assms by (simp add: blk_chunk_def)
next
  case False
  then have m: "m = BSIZE - off mod BSIZE" using assms(1) by (simp add: blk_chunk_def)
  have B: "off mod BSIZE < BSIZE" by (simp add: BSIZE_def)
  have "(off + m) mod BSIZE = 0" using B by (metis m le_add_diff_inverse less_or_eq_imp_le mod_add_left_eq mod_self)
  moreover have "n - (tot + m) \<le> c * BSIZE" using assms(3) m B unfolding mult_Suc by linarith
  ultimately show ?thesis by simp
qed

subsection \<open>Where the bytes come from\<close>

locale byte_source =
  fixes supplies :: "ksrc \<Rightarrow> vm \<Rightarrow> u8 list \<Rightarrow> bool"
  assumes copyin_law: "supplies src u bs \<Longrightarrow> m \<le> length bs \<Longrightarrow>
    \<exists>u'. either_copyin src m u = Ok ((0, take m bs), u') \<and> supplies (src_add src m) u' (drop m bs)"
begin

lemma write_step:
  assumes ok: "fs_ok s H" and H: "H \<inter> file_blocks (view s) (i_addrs (itable s ip)) = {}" and A: "addrs_ok (view s) (sb s) (i_addrs (itable s ip))"
    and dev: "i_dev (itable s ip) = ROOTDEV" and src: "supplies src (um s) bs" "length bs = n - tot" "tot < n" and r: "room s H 6"
    and off: "off + (n - tot) \<le> MAXFILE * BSIZE"
  shows "(\<exists>s' A' V' X. writei_loop ip src off n tot s = Ok ((tot, off), s') \<and> wrote_file s H ip off [] 6 s' A' V' X \<and>
      (\<forall>b < sb_size (sb s). used V' (sb s) b) \<and> blk_of (view s) (i_addrs (itable s ip)) (off div BSIZE) = 0) \<or>
    (\<exists>s' A' V' X m. writei_loop ip src off n tot s = writei_loop ip (src_add src m) (off + m) n (tot + m) s' \<and> m = blk_chunk off (n - tot) \<and>
      wrote_file s H ip off (take m bs) 6 s' A' V' X \<and> supplies (src_add src m) (um s') (drop m bs))"
proof -
  have x: "off div BSIZE < MAXFILE" using off src(3) by (intro block_div) linarith
  obtain a s1 A1 V1 X1 where 1: "bmap ip (off div BSIZE) s = Ok (a, s1)" "bmap_post s H ip 5 s1 A1 V1 X1" "a = blk_of V1 A1 (off div BSIZE)"
    "a = 0 \<longrightarrow> (\<forall>b < sb_size (sb s). used V1 (sb s) b)" using bmap_ok [OF ok room_mono [OF r] A dev H x] by auto
  note w1 = wrote_file_bmap [OF 1(2), of off] and p = bmap_postD [OF ok H 1(2)]
  show ?thesis
  proof (cases "a = 0")
    case True
    then have "blk_of (view s) (i_addrs (itable s ip)) (off div BSIZE) = 0" using 1(2,3) x by (auto simp: bmap_post_def grown_def)
    then show ?thesis using 1 True src(3) wrote_file_mono [OF w1, of 6] by (intro disjI1 exI [of _ s1]) (auto simp: writei_loop.simps [of ip src off n tot s])
  next
    case nz: False
    let ?m = "blk_chunk off (n - tot)"
    have m: "?m \<le> length bs" "length (take ?m bs) = ?m" "?m \<le> BSIZE - off mod BSIZE" using src(2) by (simp_all add: blk_chunk_def)
    have um1: "um s1 = um s" using 1(2) by (simp add: bmap_post_def)
    obtain u where u: "either_copyin src ?m (um s) = Ok ((0, take ?m bs), u)" "supplies (src_add src ?m) u (drop ?m bs)"
      using copyin_law [OF src(1) m(1)] by blast
    have bl: "blk_of V1 A1 (off div BSIZE) \<noteq> 0" using nz 1(3) by simp
    have lay: "fs_layout (sb s)" using fs_okD(2) [OF ok] .
    note bf = block_of_file [OF p(5) lay p(6) x bl, folded 1(3)]
    have "room s1 H 0" using room_mono [OF p(8) [OF r]] by simp
    then obtain b s2 where 2: "bread ROOTDEV a s1 = Ok (b, s2)" "mem_parts s2 = mem_parts s1" "buf_data s2 b = V1 a"
      "\<And>d u. \<exists>s3 s4. log_write b (set_data b d (s2\<lparr>um := u\<rparr>)) = Ok ((), s3) \<and> brelse b s3 = Ok ((), s4) \<and> tx s1 s4 H (V1(a := d)) {a} \<and>
        itable s4 = itable s1 \<and> um s4 = u"
      using write_block [OF p(1) _ bf(1) _ bf(3)] bf(2) p(2,3) by metis
    let ?d = "set_bytes (V1 a) (off mod BSIZE) (take ?m bs)"
    obtain s3 s4 where 3: "log_write b (set_data b ?d (s2\<lparr>um := u\<rparr>)) = Ok ((), s3)" "brelse b s3 = Ok ((), s4)" "tx s1 s4 H (V1(a := ?d)) {a}"
      "itable s4 = itable s1" "um s4 = u" using 2(4) by blast
    have "file_wrote (sb s) V1 A1 off (take ?m bs) (V1(a := ?d)) A1"
      using overwrite_wrote [OF p(5) lay x bl, of "take ?m bs"] m(3) unfolding 1(3) by simp
    then have "wrote_file s1 H ip (off + length []) (take ?m bs) 1 s4 A1 (V1(a := ?d)) {a}"
      using 3(3,4) p(2,3,4) set_addrs_same [of ip "itable s1"] by (simp add: wrote_file_def)
    from wrote_file_trans [OF w1 this] have w: "wrote_file s H ip off (take ?m bs) 6 s4 A1 (V1(a := ?d)) (X1 \<union> {a})" by simp
    have it2: "i_dev (itable s1 ip) = ROOTDEV" "um s2 = um s" using p(7) dev mem_partsD [OF 2(2)] um1 by simp_all
    have "writei_loop ip src off n tot s = writei_loop ip (src_add src ?m) (off + ?m) n (tot + ?m) s4"
      using src(3) 1(1) nz 2(1,3) it2 u(1) 3(1,2) by (subst writei_loop.simps) (simp add: Let_def)
    then show ?thesis using w u(2) 3(5) by blast
  qed
qed

lemma writei_loop_ok:
  "fs_ok s H \<Longrightarrow> H \<inter> file_blocks (view s) (i_addrs (itable s ip)) = {} \<Longrightarrow> addrs_ok (view s) (sb s) (i_addrs (itable s ip)) \<Longrightarrow>
   i_dev (itable s ip) = ROOTDEV \<Longrightarrow> supplies src (um s) bs \<Longrightarrow> length bs = n - tot \<Longrightarrow> tot \<le> n \<Longrightarrow> off + (n - tot) \<le> MAXFILE * BSIZE \<Longrightarrow>
   tot = n \<or> off mod BSIZE + (n - tot) \<le> c * BSIZE \<Longrightarrow> room s H (6 * c) \<Longrightarrow>
   \<exists>k s' A' V' X. writei_loop ip src off n tot s = Ok ((tot + k, off + k), s') \<and> k \<le> n - tot \<and>
     (k = n - tot \<or> (\<forall>b < sb_size (sb s). used V' (sb s) b) \<and> blk_of (view s) (i_addrs (itable s ip)) ((off + k) div BSIZE) = 0) \<and>
     wrote_file s H ip off (take k bs) (6 * c) s' A' V' X"
proof (induction c arbitrary: src off tot s bs)
  case 0
  then have "tot = n" by (auto simp: BSIZE_def)
  then show ?case using wrote_file_nothing [OF 0(1,3)] by (intro exI [of _ 0] exI [of _ s] exI) (auto simp: writei_loop.simps [of ip src off n n s])
next
  case (Suc c)
  show ?case
  proof (cases "tot = n")
    case True
    then show ?thesis using wrote_file_nothing [OF Suc(2,4)] by (intro exI [of _ 0] exI [of _ s] exI) (auto simp: writei_loop.simps [of ip src off n n s])
  next
    case False
    then have lt: "tot < n" and r6: "room s H 6" using Suc.prems(7) room_mono [OF Suc.prems(10)] by simp_all
    from write_step [OF Suc.prems(1-6) lt r6 Suc.prems(8)] show ?thesis
    proof (elim disjE exE conjE)
      fix s' A' V' X
      assume "writei_loop ip src off n tot s = Ok ((tot, off), s')" "wrote_file s H ip off [] 6 s' A' V' X" "\<forall>b < sb_size (sb s). used V' (sb s) b"
        "blk_of (view s) (i_addrs (itable s ip)) (off div BSIZE) = 0"
      then show ?thesis using wrote_file_mono [of s H ip off "[]" 6 s' A' V' X "6 * Suc c"]
        by (intro exI [of _ 0] exI [of _ s'] exI [of _ A'] exI [of _ V'] exI [of _ X]) simp
    next
      fix s1 A1 V1 X m
      assume st: "writei_loop ip src off n tot s = writei_loop ip (src_add src m) (off + m) n (tot + m) s1" "m = blk_chunk off (n - tot)"
        and w: "wrote_file s H ip off (take m bs) 6 s1 A1 V1 X" and src: "supplies (src_add src m) (um s1) (drop m bs)"
      note p = wrote_fileD [OF Suc.prems(1,2) w]
      have m: "m \<le> n - tot" "length (take m bs) = m" "length (drop m bs) = n - (tot + m)" using st(2) Suc.prems(6) by (simp_all add: blk_chunk_def)
      have nx: "tot + m = n \<or> (off + m) mod BSIZE + (n - (tot + m)) \<le> c * BSIZE" using st(2) lt Suc.prems(9) by (intro next_block_chunk) auto
      have len: "tot + m \<le> n" "off + m + (n - (tot + m)) \<le> MAXFILE * BSIZE" using m(1) lt Suc.prems(8) by simp_all
      have "room s1 H (6 * c)" using p(8) [OF Suc.prems(10)] by simp
      from Suc.IH [OF p(1) _ _ _ src m(3) len nx this, unfolded p(2,3,4,7), OF p(6,5) Suc.prems(4)]
      obtain k s' A' V' Y where k: "writei_loop ip (src_add src m) (off + m) n (tot + m) s1 = Ok ((tot + m + k, off + m + k), s')" "k \<le> n - (tot + m)"
        "k = n - (tot + m) \<or> (\<forall>b < sb_size (sb s). used V' (sb s) b) \<and> blk_of V1 A1 ((off + m + k) div BSIZE) = 0" "wrote_file s1 H ip (off + m) (take k (drop m bs)) (6 * c) s' A' V' Y" by blast
      have "wrote_file s H ip off (take m bs @ take k (drop m bs)) (6 + 6 * c) s' A' V' (X \<union> Y)" using wrote_file_trans [OF w] m(2) k(4) by simp
      moreover have "blk_of (view s) (i_addrs (itable s ip)) ((off + (m + k)) div BSIZE) = 0" if "blk_of V1 A1 ((off + m + k) div BSIZE) = 0" "k < n - (tot + m)"
      proof -
        have "(off + m + k) div BSIZE < MAXFILE" using that(2) Suc.prems(8) by (intro block_div) linarith
        then show ?thesis using that(1) w unfolding wrote_file_def file_wrote_def add.assoc by metis
      qed
      ultimately show ?thesis using k st(1) m(1)
        by (intro exI [of _ "m + k"] exI [of _ s'] exI [of _ A'] exI [of _ V'] exI [of _ "X \<union> Y"]) (auto simp: take_add)
    qed
  qed
qed

end

end
