(* ===== verification/Fs_Inode.thy ===== *)
theory Fs_Inode
  imports Fs_Rw
begin

section \<open>On-disk inodes\<close>

text \<open>
  The encoding of an inode in its block is a round trip, and storing one inode leaves the others of the block alone; with it, what
  \<^verbatim>\<open>iupdate\<close> and \<^verbatim>\<open>ilock\<close> do. Then \<^verbatim>\<open>writei\<close> and \<^verbatim>\<open>readi\<close> as a whole.
\<close>

unbundle bit_operations_syntax

lemma get16_cong: "(\<And>i. off \<le> i \<Longrightarrow> i < off + 2 \<Longrightarrow> b i = b' i) \<Longrightarrow> get16 b off = get16 b' off"
  unfolding get16_def by (intro arg_cong [of _ _ le_word] map_cong) auto

lemma get32_cong: "(\<And>i. off \<le> i \<Longrightarrow> i < off + 4 \<Longrightarrow> b i = b' i) \<Longrightarrow> get32 b off = get32 b' off"
  unfolding get32_def by (intro arg_cong [of _ _ le_word] map_cong) auto

lemma get16_set16 [simp]: "get16 (set16 b off v) off = v"
proof -
  have "map (\<lambda>k. set16 b off v (off + k)) [0..<2] = le_bytes 2 v"
    by (rule nth_equalityI) (simp_all add: set16_def)
  then show ?thesis by (simp add: get16_def le_word_le_bytes_full)
qed

lemma get16_other:
  "o1 + 2 \<le> o2 \<or> o2 + 2 \<le> o1 \<Longrightarrow> get16 (set16 b o1 v) o2 = get16 b o2"
  "o1 + 4 \<le> o2 \<or> o2 + 2 \<le> o1 \<Longrightarrow> get16 (set32 b o1 w) o2 = get16 b o2"
  by (rule get16_cong; auto simp: set16_def set32_def)+

lemma set_addrs_other: "i < off \<or> off + 4 * k \<le> i \<Longrightarrow> set_addrs k f off b i = b i"
  by (induction k) (auto simp: set32_def)

lemma get_set_addrs: "j < k \<Longrightarrow> get32 (set_addrs k f off b) (off + 4 * j) = f j"
proof (induction k)
  case (Suc k)
  show ?case
  proof (cases "j = k")
    case False
    then have "off + 4 * k + 4 \<le> off + 4 * j \<or> off + 4 * j + 4 \<le> off + 4 * k" by linarith
    then show ?thesis using Suc False by (simp add: get32_set32_other)
  qed simp
qed simp

lemma get_addrs_eq: "get_addrs k b off f = (\<lambda>j. if j < k then get32 b (off + 4 * j) else f j)"
  by (induction k) (auto simp: fun_eq_iff less_Suc_eq)

lemma store_dinode_other: "i < off \<or> off + 64 \<le> i \<Longrightarrow> store_dinode ip off b i = b i"
  unfolding store_dinode_def by (subst set_addrs_other) (auto simp: NDIRECT_def set16_def set32_def)

lemma load_store_dinode: "load_dinode (store_dinode ip off b) off x =
    x\<lparr>i_type := i_type ip, i_major := i_major ip, i_minor := i_minor ip, i_nlink := i_nlink ip, i_size := i_size ip,
      i_addrs := \<lambda>j. if j < NDIRECT + 1 then i_addrs ip j else i_addrs x j\<rparr>"
proof -
  let ?b = "set32 (set16 (set16 (set16 (set16 b off (i_type ip)) (off + 2) (i_major ip)) (off + 4) (i_minor ip)) (off + 6) (i_nlink ip)) (off + 8) (i_size ip)"
  let ?s = "store_dinode ip off b"
  have s: "?s = set_addrs (NDIRECT + 1) (i_addrs ip) (off + 12) ?b" by (simp add: store_dinode_def)
  have 16: "get16 ?s (off + k) = get16 ?b (off + k)" if "k \<le> 6" for k
    unfolding s using that by (intro get16_cong set_addrs_other) linarith
  have "get32 ?s (off + 8) = get32 ?b (off + 8)" unfolding s by (intro get32_cong set_addrs_other) linarith
  then have "get32 ?s (off + 8) = i_size ip" by simp
  moreover have "get16 ?s off = i_type ip" "get16 ?s (off + 2) = i_major ip" "get16 ?s (off + 4) = i_minor ip" "get16 ?s (off + 6) = i_nlink ip"
    using 16 [of 0] 16 [of 2] 16 [of 4] 16 [of 6] by (simp_all add: get16_other)
  moreover have "get_addrs (NDIRECT + 1) ?s (off + 12) (i_addrs x) = (\<lambda>j. if j < NDIRECT + 1 then i_addrs ip j else i_addrs x j)"
    unfolding get_addrs_eq s by (simp add: fun_eq_iff get_set_addrs del: One_nat_def)
  ultimately show ?thesis by (simp add: load_dinode_def)
qed

lemma load_dinode_cong: "(\<And>i. off \<le> i \<Longrightarrow> i < off + 64 \<Longrightarrow> b i = b' i) \<Longrightarrow> load_dinode b off x = load_dinode b' off x"
proof -
  assume a: "\<And>i. off \<le> i \<Longrightarrow> i < off + 64 \<Longrightarrow> b i = b' i"
  have "get16 b (off + k) = get16 b' (off + k)" if "k \<le> 6" for k using that by (intro get16_cong a) auto
  from this [of 0] this [of 2] this [of 4] this [of 6] have "get16 b off = get16 b' off" "get16 b (off + 2) = get16 b' (off + 2)"
    "get16 b (off + 4) = get16 b' (off + 4)" "get16 b (off + 6) = get16 b' (off + 6)" by simp_all
  moreover have "get32 b (off + k) = get32 b' (off + k)" if "k \<le> 60" for k using that by (intro get32_cong a) auto
  then have "get32 b (off + 8) = get32 b' (off + 8)" "get_addrs (NDIRECT + 1) b (off + 12) f = get_addrs (NDIRECT + 1) b' (off + 12) f" for f
    unfolding get_addrs_eq by (auto simp: fun_eq_iff NDIRECT_def add.assoc)
  ultimately show ?thesis by (simp add: load_dinode_def)
qed

lemma load_store_other: "dinode_off j \<noteq> dinode_off k \<Longrightarrow> load_dinode (store_dinode ip (dinode_off k) b) (dinode_off j) x = load_dinode b (dinode_off j) x"
proof (rule load_dinode_cong)
  fix i assume "dinode_off j \<noteq> dinode_off k" "dinode_off j \<le> i" "i < dinode_off j + 64"
  moreover have "64 * a \<noteq> 64 * b \<Longrightarrow> 64 * a \<le> i \<Longrightarrow> i < 64 * a + 64 \<Longrightarrow> i < 64 * b \<or> 64 * b + 64 \<le> i" for a b :: nat
    by (cases a b rule: linorder_cases) auto
  ultimately have "i < dinode_off k \<or> dinode_off k + 64 \<le> i" unfolding dinode_off_def by blast
  then show "store_dinode ip (dinode_off k) b i = b i" by (rule store_dinode_other)
qed

text \<open>A block of the inode area is not part of any file, nor of the bitmap.\<close>

definition inode_area :: "superblock \<Rightarrow> nat set" where
  "inode_area sp = {sb_inodestart sp..<sb_bmapstart sp}"

lemma IBLOCK_area: "fs_layout sp \<Longrightarrow> k < sb_ninodes sp \<Longrightarrow> IBLOCK k sp \<in> inode_area sp"
  using div_le_mono [of k "sb_ninodes sp" IPB] by (simp add: IBLOCK_def inode_area_def fs_layout_def)

lemma inode_area_facts:
  assumes "fs_layout sp" "n \<in> inode_area sp"
  shows "n \<notin> bitmap sp" "n < data_start sp" "n \<notin> log_area (sb_logstart sp)" "n < 2 ^ 32" "n < sb_size sp"
  using assms by (auto simp: fs_layout_def inode_area_def bitmap_def data_start_def log_area_def)

lemma inode_area_neutral:
  assumes A: "addrs_ok V sp A" and lay: "fs_layout sp" and n: "n \<in> inode_area sp"
  shows "n \<notin> file_blocks V A" "blk_of (V(n := d)) A = blk_of V A" "b < sb_size sp \<Longrightarrow> used (V(n := d)) sp b = used V sp b"
    "addrs_ok (V(n := d)) sp A" "file_blocks (V(n := d)) A = file_blocks V A" "i < MAXFILE * BSIZE \<Longrightarrow> fbyte (V(n := d)) A i = fbyte V A i"
proof -
  note nf = inode_area_facts [OF lay n]
  show nb: "n \<notin> file_blocks V A" using addrs_okD(1) [OF A] nf(2) by (fastforce simp: data_block_def)
  have "n = ind_of A \<Longrightarrow> ind_of A = 0" using nb file_blocksI(2) [of A V] by auto
  then show bl: "blk_of (V(n := d)) A = blk_of V A" by (intro ext) (auto simp: blk_of_def)
  show u: "used (V(n := d)) sp b = used V sp b" if "b < sb_size sp" for b using BBLOCK_bitmap [OF that] nf(1) by (intro used_other) auto
  show f: "file_blocks (V(n := d)) A = file_blocks V A" by (simp add: file_blocks_def bl)
  show "addrs_ok (V(n := d)) sp A" using A u unfolding addrs_ok_def f bl data_block_def by blast
  show "fbyte (V(n := d)) A i = fbyte V A i" if "i < MAXFILE * BSIZE"
    using nb file_blocksI(1) [OF block_div [OF that], of V A] by (auto simp: fbyte_def bl)
qed

lemma iupdate_ok:
  assumes ok: "fs_ok s H" and r: "room s H 0" and i: "i_inum (itable s ip) < sb_ninodes (sb s)" "i_dev (itable s ip) = ROOTDEV"
    and H: "IBLOCK (i_inum (itable s ip)) (sb s) \<notin> H"
  shows "\<exists>s'. iupdate ip s = Ok ((), s') \<and> mem_parts s' = mem_parts s \<and>
    tx s s' H ((view s)(IBLOCK (i_inum (itable s ip)) (sb s) :=
      store_dinode (itable s ip) (dinode_off (i_inum (itable s ip))) (view s (IBLOCK (i_inum (itable s ip)) (sb s)))))
      {IBLOCK (i_inum (itable s ip)) (sb s)}"
proof -
  let ?n = "IBLOCK (i_inum (itable s ip)) (sb s)" let ?d = "store_dinode (itable s ip) (dinode_off (i_inum (itable s ip))) (view s ?n)"
  have lay: "fs_layout (sb s)" using fs_okD(2) [OF ok] .
  note nf = inode_area_facts [OF lay IBLOCK_area [OF lay i(1)]]
  obtain b s1 where b: "bread ROOTDEV ?n s = Ok (b, s1)" "mem_parts s1 = mem_parts s" "buf_data s1 b = view s ?n"
    "\<forall>d u. \<exists>s2 s3. log_write b (set_data b d (s1\<lparr>um := u\<rparr>)) = Ok ((), s2) \<and> brelse b s2 = Ok ((), s3) \<and> tx s s3 H ((view s)(?n := d)) {?n} \<and>
      itable s3 = itable s \<and> um s3 = u"
    using write_block [OF ok r H nf(3,4)] by blast
  from spec [OF spec [OF b(4), of ?d], of "um s1"]
  obtain s2 s3 where 2: "log_write b (set_data b ?d s1) = Ok ((), s2)" "brelse b s2 = Ok ((), s3)" "tx s s3 H ((view s)(?n := ?d)) {?n}"
    "itable s3 = itable s" "um s3 = um s1" by auto
  have it: "itable s1 = itable s" "um s1 = um s" using mem_partsD [OF b(2)] by simp_all
  then have "iupdate ip s = Ok ((), s3)" using b(1,3) i(2) 2(1,2) by (simp add: iupdate_def)
  then show ?thesis using 2 it by (simp add: mem_parts_def)
qed

subsection \<open>writei\<close>

definition inode_after :: "inode \<Rightarrow> (nat \<Rightarrow> u32) \<Rightarrow> u32 \<Rightarrow> inode" where
  "inode_after ino A z = ino\<lparr>i_addrs := A, i_size := max (i_size ino) z\<rparr>"

definition writei_post :: "'a fsst_scheme \<Rightarrow> nat set \<Rightarrow> nat \<Rightarrow> nat \<Rightarrow> u8 list \<Rightarrow> nat \<Rightarrow> 'a fsst_scheme \<Rightarrow> (nat \<Rightarrow> block) \<Rightarrow> (nat \<Rightarrow> u32) \<Rightarrow> nat set \<Rightarrow> bool" where
  "writei_post s H ip off bs j s' V' A' X \<longleftrightarrow>
     (let ino = itable s ip; n = IBLOCK (i_inum ino) (sb s); ino' = inode_after ino A' (of_nat (off + length bs)) in
      file_wrote (sb s) (view s) (i_addrs ino) off bs V' A' \<and> itable s' = (itable s)(ip := ino') \<and> finite X \<and> card X \<le> j \<and>
      tx s s' H (V'(n := store_dinode ino' (dinode_off (i_inum ino)) (V' n))) (insert n X))"

definition inode_ok :: "'a fsst_scheme \<Rightarrow> nat set \<Rightarrow> nat \<Rightarrow> bool" where
  "inode_ok s H ip \<longleftrightarrow> addrs_ok (view s) (sb s) (i_addrs (itable s ip)) \<and> i_dev (itable s ip) = ROOTDEV \<and>
     i_inum (itable s ip) < sb_ninodes (sb s) \<and> H \<inter> file_blocks (view s) (i_addrs (itable s ip)) = {} \<and>
     IBLOCK (i_inum (itable s ip)) (sb s) \<notin> H"

lemma MAXFILE_BSIZE: "MAXFILE * BSIZE = 274432"
  by (simp add: MAXFILE_def NDIRECT_def NINDIRECT_def BSIZE_def)

lemma write_guards:
  fixes off n z :: u32
  assumes "off \<le> z" "unat off + unat n \<le> MAXFILE * BSIZE"
  shows "\<not> (off > z \<or> off + n < off)" "\<not> off + n > of_nat (MAXFILE * BSIZE)"
proof -
  have u: "unat (off + n) = unat off + unat n" using assms(2) unfolding MAXFILE_BSIZE by (subst unat_add_lem [symmetric]) simp
  show "\<not> (off > z \<or> off + n < off)" using assms(1) u by (auto simp: word_less_nat_alt word_le_nat_alt)
  show "\<not> off + n > of_nat (MAXFILE * BSIZE)" using assms(2) u unfolding MAXFILE_BSIZE by (simp add: word_less_nat_alt)
qed

lemma iupdate_size:
  assumes ok: "fs_ok s H" and i: "inode_ok s H ip" and w: "wrote_file s H ip off bs j s1 A V X" and r: "room s1 H 0"
  shows "\<exists>s'. (let s2 = (if of_nat (off + length bs) > i_size (itable s1 ip)
        then upd_inode ip (\<lambda>x. x\<lparr>i_size := of_nat (off + length bs)\<rparr>) s1 else s1) in iupdate ip s2) = Ok ((), s') \<and> writei_post s H ip off bs j s' V A X \<and> um s' = um s1"
proof -
  let ?z = "of_nat (off + length bs) :: u32"
  define s2 where "s2 = (if ?z > i_size (itable s1 ip) then upd_inode ip (\<lambda>x. x\<lparr>i_size := ?z\<rparr>) s1 else s1)"
  have H: "H \<inter> file_blocks (view s) (i_addrs (itable s ip)) = {}" using i by (simp add: inode_ok_def)
  note p = wrote_fileD [OF ok H w]
  have it1: "itable s1 = set_addrs_of ip A (itable s)" "tx s s1 H V X" "finite X" "card X \<le> j" using w by (simp_all add: wrote_file_def)
  have it: "itable s2 = (itable s)(ip := inode_after (itable s ip) A ?z)"
    by (cases "itable s ip") (auto simp: s2_def it1(1) set_addrs_of_def inode_after_def max_def not_less)
  have tx2: "tx s s2 H V X" using it1(2) by (simp add: s2_def tx_same_blocks)
  have f: "fs_ok s2 H" "room s2 H 0" "sb s2 = sb s" "view s2 = V" "um s2 = um s1"
    using p(1,2,3) r by (auto simp: s2_def fs_ok_def room_def)
  have num: "i_inum (itable s2 ip) = i_inum (itable s ip)" "i_dev (itable s2 ip) = ROOTDEV"
    using i by (simp_all add: it inode_after_def inode_ok_def)
  obtain s' where s': "iupdate ip s2 = Ok ((), s')" "mem_parts s' = mem_parts s2"
    "tx s2 s' H (V(IBLOCK (i_inum (itable s ip)) (sb s) := store_dinode (itable s2 ip) (dinode_off (i_inum (itable s ip))) (V (IBLOCK (i_inum (itable s ip)) (sb s)))))
      {IBLOCK (i_inum (itable s ip)) (sb s)}"
    using iupdate_ok [OF f(1,2), of ip] i num f(3,4) by (auto simp: inode_ok_def)
  have "writei_post s H ip off bs j s' V A X"
    using tx_trans [OF tx2 s'(3)] w mem_partsD [OF s'(2)] it it1(3,4) by (simp add: writei_post_def Let_def wrote_file_def)
  then show ?thesis using s'(1) mem_partsD [OF s'(2)] f(5) unfolding s2_def by (auto simp: Let_def)
qed

context byte_source
begin

lemma writei_ok:
  assumes ok: "fs_ok s H" and i: "inode_ok s H ip" and src: "supplies src (um s) bs" "length bs = unat n"
    and off: "off \<le> i_size (itable s ip)" "unat off + unat n \<le> MAXFILE * BSIZE"
    and c: "unat off mod BSIZE + unat n \<le> c * BSIZE" and r: "room s H (6 * c)"
  shows "\<exists>k s' V' A' X. writei ip src off n s = Ok (int k, s') \<and> k \<le> unat n \<and> (k = unat n \<or> (\<forall>b < sb_size (sb s). used V' (sb s) b) \<and> blk_of (view s) (i_addrs (itable s ip)) ((unat off + k) div BSIZE) = 0) \<and>
    writei_post s H ip (unat off) (take k bs) (6 * c) s' V' A' X"
proof -
  have io: "H \<inter> file_blocks (view s) (i_addrs (itable s ip)) = {}" "addrs_ok (view s) (sb s) (i_addrs (itable s ip))" "i_dev (itable s ip) = ROOTDEV"
    using i by (simp_all add: inode_ok_def)
  have len: "length bs = unat n - 0" "unat off + (unat n - 0) \<le> MAXFILE * BSIZE" "0 = unat n \<or> unat off mod BSIZE + (unat n - 0) \<le> c * BSIZE"
    using src(2) off(2) c by simp_all
  obtain k s1 A' V' X where k: "writei_loop ip src (unat off) (unat n) 0 s = Ok ((k, unat off + k), s1)" "k \<le> unat n"
    "k = unat n \<or> (\<forall>b < sb_size (sb s). used V' (sb s) b) \<and> blk_of (view s) (i_addrs (itable s ip)) ((unat off + k) div BSIZE) = 0"
    "wrote_file s H ip (unat off) (take k bs) (6 * c) s1 A' V' X"
    using writei_loop_ok [OF ok io src(1) len(1) le0 len(2,3) r, unfolded minus_nat.diff_0 add_0] by blast
  have r0: "room s1 H 0" using wrote_fileD(8) [OF ok io(1) k(4) r] by simp
  have lk: "length (take k bs) = k" using k(2) src(2) by simp
  obtain s' where "(let s2 = (if of_nat (unat off + k) > i_size (itable s1 ip)
        then upd_inode ip (\<lambda>x. x\<lparr>i_size := of_nat (unat off + k)\<rparr>) s1 else s1) in iupdate ip s2) = Ok ((), s')"
      "writei_post s H ip (unat off) (take k bs) (6 * c) s' V' A' X"
    using iupdate_size [OF ok i k(4) r0, unfolded lk] by blast
  then show ?thesis using k write_guards [OF off] by (intro exI [of _ k] exI [of _ s'] exI) (auto simp: writei_def Let_def split: if_splits)
qed

end

subsection \<open>readi\<close>

text \<open>A file without holes: every block below its size is mapped.\<close>

definition no_holes :: "(nat \<Rightarrow> block) \<Rightarrow> (nat \<Rightarrow> u32) \<Rightarrow> nat \<Rightarrow> bool" where
  "no_holes V A z \<longleftrightarrow> z \<le> MAXFILE * BSIZE \<and> (\<forall>i < z. blk_of V A (i div BSIZE) \<noteq> 0)"

text \<open>Every one of the \<open>m\<close> bytes from \<open>off\<close> lies in a block of the file.\<close>

definition mapped_range :: "(nat \<Rightarrow> block) \<Rightarrow> (nat \<Rightarrow> u32) \<Rightarrow> nat \<Rightarrow> nat \<Rightarrow> bool" where
  "mapped_range V A off m \<longleftrightarrow> (\<forall>i. off \<le> i \<and> i < off + m \<longrightarrow> i < MAXFILE * BSIZE \<and> blk_of V A (i div BSIZE) \<noteq> 0)"

lemma no_holes_mapped: "no_holes V A z \<Longrightarrow> off + m \<le> z \<or> m = 0 \<Longrightarrow> mapped_range V A off m"
  by (auto simp: no_holes_def mapped_range_def)

definition file_bytes :: "(nat \<Rightarrow> block) \<Rightarrow> (nat \<Rightarrow> u32) \<Rightarrow> nat \<Rightarrow> nat \<Rightarrow> u8 list" where
  "file_bytes V A off n = map (\<lambda>k. fbyte V A (off + k)) [0..<n]"

lemma length_file_bytes [simp]: "length (file_bytes V A off n) = n"
  by (simp add: file_bytes_def)

lemma file_bytes_add: "file_bytes V A off (m + k) = file_bytes V A off m @ file_bytes V A (off + m) k"
proof (rule nth_equalityI)
  fix i assume "i < length (file_bytes V A off (m + k))"
  then have "i < m + k" "\<not> i < m \<Longrightarrow> i - m < k" by simp_all
  then show "file_bytes V A off (m + k) ! i = (file_bytes V A off m @ file_bytes V A (off + m) k) ! i"
    by (cases "i < m") (simp_all add: file_bytes_def nth_append)
qed simp

lemma get_bytes_file:
  assumes "blk_of V A (off div BSIZE) \<noteq> 0" "m \<le> BSIZE - off mod BSIZE"
  shows "get_bytes (V (blk_of V A (off div BSIZE))) (off mod BSIZE) m = file_bytes V A off m"
proof (rule nth_equalityI)
  fix k assume "k < length (get_bytes (V (blk_of V A (off div BSIZE))) (off mod BSIZE) m)"
  then have k: "k < m" by (simp add: get_bytes_def)
  then have "(off + k) div BSIZE = off div BSIZE" "(off + k) mod BSIZE = off mod BSIZE + k" using chunk_range [OF assms(2), of "off + k"] by simp_all
  then show "get_bytes (V (blk_of V A (off div BSIZE))) (off mod BSIZE) m ! k = file_bytes V A off m ! k"
    using k assms(1) by (simp add: get_bytes_def file_bytes_def fbyte_def)
qed (simp add: get_bytes_def)

locale byte_sink =
  fixes accepts :: "kdst \<Rightarrow> vm \<Rightarrow> nat \<Rightarrow> bool" and delivered :: "kdst \<Rightarrow> u8 list \<Rightarrow> vm \<Rightarrow> vm \<Rightarrow> bool"
  assumes copyout_law: "accepts d u n \<Longrightarrow> length bs \<le> n \<Longrightarrow>
      \<exists>u'. either_copyout d bs u = Ok (0, u') \<and> accepts (dst_add d (length bs)) u' (n - length bs) \<and> delivered d bs u u'"
    and delivered_nothing: "delivered d [] u u"
    and delivered_append: "accepts d u (length bs + length cs) \<Longrightarrow> delivered d bs u u' \<Longrightarrow> delivered (dst_add d (length bs)) cs u' u'' \<Longrightarrow> delivered d (bs @ cs) u u''"
begin

lemma read_step:
  assumes ok: "fs_ok s H" and r: "card (pinned s \<union> H) < NBUF" and i: "inode_ok s H ip" and z: "mapped_range (view s) (i_addrs (itable s ip)) off (n - tot)"
    and n: "tot < n" and d: "accepts d (um s) (n - tot)"
  shows "\<exists>m s' bs. m = blk_chunk off (n - tot) \<and> bs = file_bytes (view s) (i_addrs (itable s ip)) off m \<and>
    readi_loop ip d off n tot out s = readi_loop ip (dst_add d m) (off + m) n (tot + m) (out @ bs) s' \<and>
    tx s s' H (view s) {} \<and> itable s' = itable s \<and> accepts (dst_add d m) (um s') (n - (tot + m)) \<and> delivered d bs (um s) (um s')"
proof -
  let ?V = "view s" let ?A = "i_addrs (itable s ip)" let ?x = "off div BSIZE" let ?a = "blk_of ?V ?A ?x" let ?m = "blk_chunk off (n - tot)"
  let ?bs = "file_bytes ?V ?A off ?m"
  have io: "addrs_ok ?V (sb s) ?A" "i_dev (itable s ip) = ROOTDEV" "H \<inter> file_blocks ?V ?A = {}" using i by (simp_all add: inode_ok_def)
  have x: "?x < MAXFILE" "?a \<noteq> 0" using z n block_div [of off] by (auto simp: mapped_range_def)
  have m: "?m \<le> BSIZE - off mod BSIZE" "?m \<le> n - tot" by (simp_all add: blk_chunk_def)
  obtain s1 where 1: "bmap ip ?x s = Ok (?a, s1)" "tx s s1 H ?V {}" "mem_parts s1 = mem_parts s" using bmap_mapped [OF ok r io x] by blast
  note f = tx_fields [OF 1(2)]
  have "?a \<notin> H" by (rule block_of_file(1) [OF io(1) fs_okD(2) [OF ok] io(3) x])
  moreover have "card (pinned s1 \<union> H) < NBUF" using r f(6) by simp
  ultimately obtain b s2 where 2: "bread ROOTDEV ?a s1 = Ok (b, s2)" "opened s1 s2 H ?a b" "buf_data s2 b = ?V ?a" "mem_parts s2 = mem_parts s1"
    using tx_bread [OF f(1)] f(2) by metis
  obtain u where u: "either_copyout d ?bs (um s) = Ok (0, u)" "accepts (dst_add d ?m) u (n - tot - ?m)" "delivered d ?bs (um s) u"
    using copyout_law [OF d, of ?bs] m(2) by auto
  have "opened s1 (s2\<lparr>um := u\<rparr>) H ?a b" using 2(2) by (simp add: opened_def)
  from tx_close [OF f(1) this] obtain s3 where 3: "brelse b (s2\<lparr>um := u\<rparr>) = Ok ((), s3)" "tx s1 s3 H ?V {}" "itable s3 = itable s2" "um s3 = u"
    unfolding f(2) by (auto simp: mem_parts_def)
  have it: "itable s1 = itable s" "itable s2 = itable s" "um s2 = um s" using mem_partsD [OF 1(3)] mem_partsD [OF 2(4)] by simp_all
  have "readi_loop ip d off n tot out s = readi_loop ip (dst_add d ?m) (off + ?m) n (tot + ?m) (out @ ?bs) s3"
    using n 1(1) x(2) 2(1,3) it io(2) u(1) 3(1) get_bytes_file [OF x(2) m(1)] by (subst readi_loop.simps) (simp add: Let_def)
  moreover have "tx s s3 H ?V {}" using tx_trans [OF 1(2) 3(2)] by simp
  moreover have "accepts (dst_add d ?m) (um s3) (n - (tot + ?m))" using u(2) 3(4) by simp
  ultimately show ?thesis using 3(3,4) it u(3) by (intro exI [of _ ?m] exI [of _ s3] exI [of _ ?bs]) simp
qed

lemma readi_loop_ok:
  "fs_ok s H \<Longrightarrow> card (pinned s \<union> H) < NBUF \<Longrightarrow> inode_ok s H ip \<Longrightarrow> mapped_range (view s) (i_addrs (itable s ip)) off (n - tot) \<Longrightarrow> tot \<le> n \<Longrightarrow>
   accepts d (um s) (n - tot) \<Longrightarrow>
   \<exists>s'. readi_loop ip d off n tot out s = Ok ((int n, out @ file_bytes (view s) (i_addrs (itable s ip)) off (n - tot)), s') \<and>
     tx s s' H (view s) {} \<and> itable s' = itable s \<and> delivered d (file_bytes (view s) (i_addrs (itable s ip)) off (n - tot)) (um s) (um s')"
proof (induction "n - tot" arbitrary: d off tot out s rule: less_induct)
  case less
  note ok = less.prems(1)
  show ?case
  proof (cases "tot = n")
    case True
    then show ?thesis using tx_refl [OF fs_okD(1) [OF ok]] delivered_nothing
      by (intro exI [of _ s]) (auto simp: readi_loop.simps [of ip d off n n out s] file_bytes_def)
  next
    case False
    then have lt: "tot < n" using less.prems(5) by simp
    let ?V = "view s" let ?A = "i_addrs (itable s ip)"
    obtain m s1 bs where 1: "m = blk_chunk off (n - tot)" "bs = file_bytes ?V ?A off m"
      "readi_loop ip d off n tot out s = readi_loop ip (dst_add d m) (off + m) n (tot + m) (out @ bs) s1" "tx s s1 H ?V {}" "itable s1 = itable s"
      "accepts (dst_add d m) (um s1) (n - (tot + m))" "delivered d bs (um s) (um s1)"
      using read_step [OF less.prems(1-4) lt less.prems(6)] by blast
    have m: "0 < m" "m \<le> n - tot" using blk_chunk_pos [of "n - tot" off] lt 1(1) by (simp_all add: blk_chunk_def)
    note f = tx_fields [OF 1(4)]
    have pre: "fs_ok s1 H" "card (pinned s1 \<union> H) < NBUF" "inode_ok s1 H ip" "mapped_range (view s1) (i_addrs (itable s1 ip)) (off + m) (n - (tot + m))"
      using fs_ok_tx [OF ok 1(4)] less.prems(2,3,4) f(2,3,6) 1(5) m by (auto simp: inode_ok_def mapped_range_def)
    have len: "n - (tot + m) < n - tot" "tot + m \<le> n" "n - tot = m + (n - (tot + m))" using m lt by simp_all
    let ?cs = "file_bytes ?V ?A (off + m) (n - (tot + m))"
    obtain s' where 2: "readi_loop ip (dst_add d m) (off + m) n (tot + m) (out @ bs) s1 = Ok ((int n, (out @ bs) @ ?cs), s')"
      "tx s1 s' H ?V {}" "itable s' = itable s" "delivered (dst_add d m) ?cs (um s1) (um s')"
      using less.hyps [OF len(1) pre len(2) 1(6), of "out @ bs"] unfolding f(2) 1(5) by blast
    have "file_bytes ?V ?A off (n - tot) = bs @ ?cs" using len(3) file_bytes_add [of ?V ?A off m] 1(2) by simp
    moreover have "delivered d (bs @ ?cs) (um s) (um s')"
      using delivered_append [of d "um s" bs ?cs "um s1" "um s'"] less.prems(6) 1(2,7) 2(4) len(3) by simp
    ultimately show ?thesis using 1(3) 2 tx_trans [OF 1(4) 2(2)] by (intro exI [of _ s']) simp
  qed
qed

lemma readi_ok:
  assumes ok: "fs_ok s H" and r: "card (pinned s \<union> H) < NBUF" and i: "inode_ok s H ip"
    and z: "mapped_range (view s) (i_addrs (itable s ip)) (unat off) k" and off: "unat off + unat n < 2 ^ 32"
    and k: "k = min (unat n) (unat (i_size (itable s ip)) - unat off)" and d: "accepts d (um s) k"
  shows "\<exists>s'. readi ip d off n s = Ok ((int k, file_bytes (view s) (i_addrs (itable s ip)) (unat off) k), s') \<and>
    tx s s' H (view s) {} \<and> itable s' = itable s \<and> delivered d (file_bytes (view s) (i_addrs (itable s ip)) (unat off) k) (um s) (um s')"
proof (cases "off > i_size (itable s ip)")
  case True
  then have "k = 0" using k by (simp add: word_less_nat_alt)
  then show ?thesis using True tx_refl [OF fs_okD(1) [OF ok]] delivered_nothing by (simp add: readi_def Let_def file_bytes_def)
next
  case False
  let ?z = "i_size (itable s ip)"
  have u: "unat (off + n) = unat off + unat n" using off by (subst unat_add_lem [symmetric]) simp
  have le: "off \<le> ?z" "\<not> off + n < off" using False u by (simp_all add: word_less_nat_alt word_le_nat_alt)
  have n': "unat (if off + n > ?z then ?z - off else n) = k"
    using le(1) u k by (auto simp: word_less_nat_alt word_le_nat_alt unat_sub)
  have "accepts d (um s) (k - 0)" "mapped_range (view s) (i_addrs (itable s ip)) (unat off) (k - 0)" using d z by simp_all
  from readi_loop_ok [OF ok r i this(2) le0 this(1), of "[]"] show ?thesis
    using False le(2) n' by (simp add: readi_def Let_def)
qed

end

end
