(* ===== verification/Fs_Content.thy ===== *)
theory Fs_Content
  imports Fs_Inode
begin

section \<open>File content: the contracts of readi and writei\<close>

text \<open>
  The kernel buffer and the user memory as sources and destinations of file data, and the theorems about \<^verbatim>\<open>readi\<close> and \<^verbatim>\<open>writei\<close> that follow for
  each of them.
\<close>

unbundle bit_operations_syntax

subsection \<open>Kernel buffers\<close>

definition kern_source :: "ksrc \<Rightarrow> vm \<Rightarrow> u8 list \<Rightarrow> bool" where
  "kern_source src u bs = (case src of KernS xs \<Rightarrow> take (length bs) xs = bs | UserS va \<Rightarrow> False)"

definition kern_sink :: "kdst \<Rightarrow> vm \<Rightarrow> nat \<Rightarrow> bool" where
  "kern_sink d u n = (d = KernD)"

definition kern_delivered :: "kdst \<Rightarrow> u8 list \<Rightarrow> vm \<Rightarrow> vm \<Rightarrow> bool" where
  "kern_delivered d bs u u' = (u' = u)"

interpretation ks: byte_source kern_source
proof unfold_locales
  fix src u bs and m :: nat
  assume a: "kern_source src u bs" "m \<le> length bs"
  then obtain xs where xs: "src = KernS xs" "take (length bs) xs = bs" by (auto simp: kern_source_def split: ksrc.splits)
  then have "take m xs = take m bs" "take (length bs - m) (drop m xs) = drop m bs"
    using a(2) by (metis min.absorb1 take_take, metis drop_take)
  then show "\<exists>u'. either_copyin src m u = Ok ((0, take m bs), u') \<and> kern_source (src_add src m) u' (drop m bs)"
    using xs(1) by (simp add: kern_source_def)
qed

interpretation kd: byte_sink kern_sink kern_delivered
  by unfold_locales (simp_all add: kern_sink_def kern_delivered_def)

subsection \<open>User memory\<close>

definition user_source :: "u64 \<Rightarrow> u64 \<Rightarrow> ksrc \<Rightarrow> vm \<Rightarrow> u8 list \<Rightarrow> bool" where
  "user_source root lim src u bs \<longleftrightarrow> (\<exists>va ps. p_pagetable u = root \<and> src = UserS va \<and> uvm_ok u (p_pagetable u) ps lim \<and> p_sz u \<le> lim \<and> unat va + length bs \<le> unat lim \<and>
     bs = ubytes (mem u) (p_pagetable u) va (length bs) \<and>
     (\<forall>v < lim. unat va \<le> unat v \<and> unat v < unat va + length bs \<longrightarrow> user_ok (leaf (mem u) (p_pagetable u) v)))"

definition user_sink :: "u64 \<Rightarrow> kdst \<Rightarrow> vm \<Rightarrow> nat \<Rightarrow> bool" where
  "user_sink lim d u n \<longleftrightarrow> (\<exists>va ps. d = UserD va \<and> uvm_ok u (p_pagetable u) ps lim \<and> p_sz u \<le> lim \<and> unat va + n \<le> unat lim \<and>
     (\<forall>v < lim. unat va \<le> unat v \<and> unat v < unat va + n \<longrightarrow> write_ok (leaf (mem u) (p_pagetable u) v)))"

definition user_delivered :: "u64 \<Rightarrow> kdst \<Rightarrow> u8 list \<Rightarrow> vm \<Rightarrow> vm \<Rightarrow> bool" where
  "user_delivered lim d bs u u' \<longleftrightarrow> (case d of KernD \<Rightarrow> True
     | UserD va \<Rightarrow> p_pagetable u' = p_pagetable u \<and> p_sz u' = p_sz u \<and> written (p_pagetable u) lim va bs (length bs) (mem u) (mem u'))"

lemma unat_step: "unat (va :: u64) + m \<le> unat (lim :: u64) \<Longrightarrow> unat (va + of_nat m) = unat va + m"
  using unat64_less [of lim] by (intro unat_add_of_nat) simp

interpretation us: byte_source "user_source root lim" for root lim
proof unfold_locales
  fix src u bs and m :: nat
  assume a: "user_source root lim src u bs" "m \<le> length bs"
  let ?r = "p_pagetable u"
  obtain va ps where root: "?r = root" and u: "src = UserS va" "uvm_ok u ?r ps lim" "p_sz u \<le> lim" "unat va + length bs \<le> unat lim" "bs = ubytes (mem u) ?r va (length bs)"
    "\<forall>v < lim. unat va \<le> unat v \<and> unat v < unat va + length bs \<longrightarrow> user_ok (leaf (mem u) ?r v)" using a(1) unfolding user_source_def by blast
  have len: "unat va + m \<le> unat lim" "length bs = m + (length bs - m)" using u(4) a(2) by simp_all
  obtain r cs u' ps' where c: "copyin ?r va m u = Ok ((r, cs), u')" "uvm_ok u' ?r ps' lim" "frame_on (pages_of u ?r ps lim) u u'" "copyin_post ?r lim va m u r cs u'"
    using copyin_user [OF u(2) refl u(3) len(1) order_refl] by blast
  note P = c(4) [unfolded copyin_post_def] and f = frame_on_vm [OF c(3)]
  have us: "user_ok (leaf (mem u) ?r v)" if "v < lim" "unat va \<le> unat v" "unat v < unat va + length bs" for v using u(6) that by blast
  have "\<forall>v < lim. unat va \<le> unat v \<and> unat v < unat va + m \<longrightarrow> user_ok (leaf (mem u) ?r v)" using us a(2) by simp
  then have r: "r = 0" "length cs = m" "cs = ubytes (mem u) ?r va m" using P by auto
  have split: "bs = cs @ ubytes (mem u) ?r (va + of_nat m) (length bs - m)" using u(5) len(2) r(3) ubytes_append by metis
  note nx = unat_step [OF len(1)]
  have "drop m bs = ubytes (mem u) ?r (va + of_nat m) (length bs - m)" using arg_cong [OF split, of "drop m"] r(2) by simp
  moreover have "ubytes (mem u') ?r (va + of_nat m) (length bs - m) = ubytes (mem u) ?r (va + of_nat m) (length bs - m)"
    using P nx u(4) a(2) by (intro ubytes_cong [of lim]) simp_all
  ultimately have dr: "drop m bs = ubytes (mem u') ?r (va + of_nat m) (length bs - m)" by simp
  have "user_ok (leaf (mem u') ?r v)" if "v < lim" "unat va + m \<le> unat v" "unat v < unat va + length bs" for v using us [of v] that P by simp
  then have "user_source root lim (UserS (va + of_nat m)) u' (drop m bs)"
    unfolding user_source_def using c(2) f root u(3,4) dr nx a(2) by (intro exI [of _ "va + of_nat m"] exI [of _ ps']) simp
  moreover have "take m bs = cs" using arg_cong [OF split, of "take m"] r(2) by simp
  ultimately show "\<exists>u'. either_copyin src m u = Ok ((0, take m bs), u') \<and> user_source root lim (src_add src m) u' (drop m bs)"
    using c(1) r(1) u(1) by simp
qed

interpretation ud: byte_sink "user_sink lim" "user_delivered lim" for lim
proof unfold_locales
  fix d u and bs :: "u8 list" and n :: nat
  assume a: "user_sink lim d u n" "length bs \<le> n"
  let ?r = "p_pagetable u" let ?m = "length bs"
  obtain va ps where u: "d = UserD va" "uvm_ok u ?r ps lim" "p_sz u \<le> lim" "unat va + n \<le> unat lim"
    "\<forall>v < lim. unat va \<le> unat v \<and> unat v < unat va + n \<longrightarrow> write_ok (leaf (mem u) ?r v)" using a(1) unfolding user_sink_def by blast
  have len: "unat va + ?m \<le> unat lim" using u(4) a(2) by simp
  obtain r u' ps' k where c: "copyout ?r va bs u = Ok (r, u')" "uvm_ok u' ?r ps' lim" "frame_on (pages_of u ?r ps lim) u u'" "copyout_post ?r lim va bs u r u' k"
    using copyout_user [OF u(2) refl u(3) len order_refl] by blast
  note P = c(4) [unfolded copyout_post_def] and f = frame_on_vm [OF c(3)]
  have us: "write_ok (leaf (mem u) ?r v)" if "v < lim" "unat va \<le> unat v" "unat v < unat va + n" for v using u(5) that by blast
  then have "\<forall>v < lim. unat va \<le> unat v \<and> unat v < unat va + ?m \<longrightarrow> write_ok (leaf (mem u) ?r v)" using a(2) by simp
  then have r: "r = 0" "k = ?m" using P by auto
  note nx = unat_step [OF len]
  have "write_ok (leaf (mem u') ?r v)" if "v < lim" "unat va + ?m \<le> unat v" "unat v < unat va + n" for v
    using us [of v] that P write_user_ok [OF us [of v]] by simp
  then have "user_sink lim (UserD (va + of_nat ?m)) u' (n - ?m)"
    unfolding user_sink_def using c(2) f u(3,4) nx a(2) by (intro exI [of _ "va + of_nat ?m"] exI [of _ ps']) simp
  moreover have "user_delivered lim d bs u u'" using P r f u(1) by (simp add: user_delivered_def)
  ultimately show "\<exists>u'. either_copyout d bs u = Ok (0, u') \<and> user_sink lim (dst_add d ?m) u' (n - ?m) \<and> user_delivered lim d bs u u'"
    using c(1) r(1) u(1) by auto
next
  show "user_delivered lim d [] u u" for d u by (auto simp: user_delivered_def written_def split: kdst.split)
next
  fix d u bs cs u' u''
  assume a: "user_sink lim d u (length bs + length cs)" "user_delivered lim d bs u u'" "user_delivered lim (dst_add d (length bs)) cs u' u''"
  then obtain va where u: "d = UserD va" "unat va + (length bs + length cs) \<le> unat lim" unfolding user_sink_def by blast
  then have "unat va + length bs \<le> unat lim" by simp
  note nx = unat_step [OF this]
  have "written (p_pagetable u) lim va (bs @ cs) (length (bs @ cs)) (mem u) (mem u'')"
    using a(2,3) u(1) nx by (auto simp: user_delivered_def written_def nth_append)
  then show "user_delivered lim d (bs @ cs) u u''" using a(2,3) u(1) by (simp add: user_delivered_def)
qed

subsection \<open>What a write leaves behind\<close>

lemma writei_postD:
  assumes ok: "fs_ok s H" and i: "inode_ok s H ip" and w: "writei_post s H ip off bs j0 s' V' A' X"
  defines "n \<equiv> IBLOCK (i_inum (itable s ip)) (sb s)"
  shows "fs_ok s' H" "inode_ok s' H ip" "sb s' = sb s"
    "j < MAXFILE * BSIZE \<Longrightarrow> fbyte (view s') (i_addrs (itable s' ip)) j =
      (if off \<le> j \<and> j < off + length bs then bs ! (j - off) else fbyte (view s) (i_addrs (itable s ip)) j)"
    "i_size (itable s' ip) = max (i_size (itable s ip)) (of_nat (off + length bs))"
    "load_dinode (view s' n) (dinode_off (i_inum (itable s ip))) (itable s' ip) = itable s' ip"
    "m \<notin> bitmap (sb s) \<Longrightarrow> m \<notin> file_blocks (view s) (i_addrs (itable s ip)) \<Longrightarrow> m \<noteq> n \<Longrightarrow> (m < sb_size (sb s) \<longrightarrow> used (view s) (sb s) m) \<Longrightarrow>
      view s' m = view s m"
    "b < sb_size (sb s) \<Longrightarrow> used (view s') (sb s) b = used V' (sb s) b"
    "x < MAXFILE \<Longrightarrow> blk_of (view s) (i_addrs (itable s ip)) x \<noteq> 0 \<Longrightarrow> blk_of (view s') (i_addrs (itable s' ip)) x \<noteq> 0"
    "j < MAXFILE * BSIZE \<Longrightarrow> off \<le> j \<Longrightarrow> j < off + length bs \<Longrightarrow> blk_of (view s') (i_addrs (itable s' ip)) (j div BSIZE) \<noteq> 0"
    "\<forall>q. q \<noteq> ip \<longrightarrow> itable s' q = itable s q" "disk s' = disk s" "pinned s' = pinned s \<union> insert n X"
proof -
  let ?ino = "itable s ip" let ?ino' = "inode_after ?ino A' (of_nat (off + length bs))"
  let ?d = "store_dinode ?ino' (dinode_off (i_inum ?ino)) (V' n)"
  have p: "file_wrote (sb s) (view s) (i_addrs ?ino) off bs V' A'" "itable s' = (itable s)(ip := ?ino')" "tx s s' H (V'(n := ?d)) (insert n X)"
    using w by (simp_all add: writei_post_def Let_def n_def)
  note f = tx_fields [OF p(3)] and d = fs_okD [OF ok]
  have io: "addrs_ok (view s) (sb s) (i_addrs ?ino)" "i_dev ?ino = ROOTDEV" "i_inum ?ino < sb_ninodes (sb s)"
    "H \<inter> file_blocks (view s) (i_addrs ?ino) = {}" "n \<notin> H" using i by (simp_all add: inode_ok_def n_def)
  have na: "n \<in> inode_area (sb s)" unfolding n_def by (rule IBLOCK_area [OF d(2) io(3)])
  have A': "addrs_ok V' (sb s) A'" using p(1) by (simp add: file_wrote_def)
  note N = inode_area_neutral [OF A' d(2) na]
  have a': "i_addrs (itable s' ip) = A'" by (simp add: p(2) inode_after_def)
  show u: "used (view s') (sb s) b = used V' (sb s) b" if "b < sb_size (sb s)" for b using N(3) [OF that] f(2) by simp
  have uk: "\<forall>b < sb_size (sb s). used (view s) (sb s) b \<longrightarrow> used V' (sb s) b" using p(1) by (simp add: file_wrote_def)
  show "fs_ok s' H" by (rule fs_ok_tx [OF ok p(3)]) (use u uk f(2) in auto)
  show sb: "sb s' = sb s" by (rule f(3))
  have "b \<notin> file_blocks V' A'" if "b \<in> H" for b
  proof -
    have "b \<notin> bitmap (sb s) \<and> b \<notin> file_blocks (view s) (i_addrs ?ino) \<and> (b < sb_size (sb s) \<longrightarrow> used (view s) (sb s) b)" using that d(5,6) io(4) by blast
    then show ?thesis using p(1) by (simp add: file_wrote_def)
  qed
  then show "inode_ok s' H ip" unfolding inode_ok_def sb a' f(2) N(5) using N(4) io(2,3,5)
    by (auto simp: p(2) inode_after_def n_def)
  show "fbyte (view s') (i_addrs (itable s' ip)) j = (if off \<le> j \<and> j < off + length bs then bs ! (j - off) else fbyte (view s) (i_addrs ?ino) j)"
    if "j < MAXFILE * BSIZE" using N(6) [OF that] that p(1) by (simp add: file_wrote_def f(2) a')
  show "i_size (itable s' ip) = max (i_size ?ino) (of_nat (off + length bs))" by (simp add: p(2) inode_after_def)
  have "view s' n = ?d" by (simp add: f(2))
  then show "load_dinode (view s' n) (dinode_off (i_inum ?ino)) (itable s' ip) = itable s' ip" by (simp add: load_store_dinode p(2))
  show "view s' m = view s m" if "m \<notin> bitmap (sb s)" "m \<notin> file_blocks (view s) (i_addrs ?ino)" "m \<noteq> n" "m < sb_size (sb s) \<longrightarrow> used (view s) (sb s) m"
    using p(1) that by (simp add: file_wrote_def f(2))
  show "blk_of (view s') (i_addrs (itable s' ip)) x \<noteq> 0" if "x < MAXFILE" "blk_of (view s) (i_addrs ?ino) x \<noteq> 0"
    using p(1) that N(2) by (simp add: file_wrote_def f(2) a')
  show "blk_of (view s') (i_addrs (itable s' ip)) (j div BSIZE) \<noteq> 0" if "j < MAXFILE * BSIZE" "off \<le> j" "j < off + length bs"
    using p(1) that N(2) by (simp add: file_wrote_def f(2) a')
  show "\<forall>q. q \<noteq> ip \<longrightarrow> itable s' q = itable s q" by (simp add: p(2))
  show "disk s' = disk s" "pinned s' = pinned s \<union> insert n X" using p(3) by (simp_all add: tx_def)
qed

lemma writei_no_holes:
  assumes ok: "fs_ok s H" and i: "inode_ok s H ip" and w: "writei_post s H ip off bs j0 s' V' A' X"
    and z: "no_holes (view s) (i_addrs (itable s ip)) (unat (i_size (itable s ip)))" "off \<le> unat (i_size (itable s ip))" "off + length bs \<le> MAXFILE * BSIZE"
  shows "no_holes (view s') (i_addrs (itable s' ip)) (unat (i_size (itable s' ip)))"
    "unat (i_size (itable s' ip)) = max (unat (i_size (itable s ip))) (off + length bs)"
proof -
  note p = writei_postD [OF ok i w]
  have u: "unat (of_nat (off + length bs) :: u32) = off + length bs" using z(3) unfolding MAXFILE_BSIZE by (intro small_word) simp
  show s: "unat (i_size (itable s' ip)) = max (unat (i_size (itable s ip))) (off + length bs)"
    using u unfolding p(5) by (auto simp: max_def word_le_nat_alt)
  have "blk_of (view s') (i_addrs (itable s' ip)) (j div BSIZE) \<noteq> 0" if j: "j < unat (i_size (itable s' ip))" for j
  proof (cases "j < unat (i_size (itable s ip))")
    case True
    then have "j < MAXFILE * BSIZE" "blk_of (view s) (i_addrs (itable s ip)) (j div BSIZE) \<noteq> 0" using z(1) by (auto simp: no_holes_def)
    then show ?thesis using p(9) [OF block_div] by blast
  next
    case False
    then have "off \<le> j" "j < off + length bs" "j < MAXFILE * BSIZE" using j z(2,3) unfolding s by (auto simp: max_def split: if_splits)
    then show ?thesis by (intro p(10))
  qed
  then show "no_holes (view s') (i_addrs (itable s' ip)) (unat (i_size (itable s' ip)))" using z s by (simp add: no_holes_def)
qed

subsection \<open>The theorems\<close>


text \<open>
  C12: \<^verbatim>\<open>readi\<close> delivers the bytes of the file to user memory. For a destination range that the process may write and a range of the file without holes
  (every byte read lies in a block of the file), it returns the number of bytes from the offset to the end of the file, at most the number asked for,
  the user memory at the destination holds exactly those bytes and is otherwise unchanged, and neither the inode nor the content of any block changes.
  On a hole \<^verbatim>\<open>bmap\<close> would allocate a block: \<open>readi_hole_panics\<close> below shows what that does outside a transaction.
\<close>

theorem readi_correct:
  assumes "fs_ok s H" "card (pinned s \<union> H) < NBUF" "inode_ok s H ip" "mapped_range (view s) (i_addrs (itable s ip)) (unat off) k"
    and "unat off + unat n < 2 ^ 32" "k = min (unat n) (unat (i_size (itable s ip)) - unat off)" "user_sink lim (UserD va) (um s) k"
  shows "\<exists>s'. readi ip (UserD va) off n s = Ok ((int k, file_bytes (view s) (i_addrs (itable s ip)) (unat off) k), s') \<and>
    (\<forall>v < lim. ubyte (mem (um s')) (p_pagetable (um s)) v =
      (if unat va \<le> unat v \<and> unat v < unat va + k then fbyte (view s) (i_addrs (itable s ip)) (unat off + (unat v - unat va))
       else ubyte (mem (um s)) (p_pagetable (um s)) v)) \<and>
    view s' = view s \<and> itable s' = itable s \<and> disk s' = disk s \<and> pinned s' = pinned s \<and> fs_ok s' H"
proof -
  obtain s' where r: "readi ip (UserD va) off n s = Ok ((int k, file_bytes (view s) (i_addrs (itable s ip)) (unat off) k), s')" "tx s s' H (view s) {}"
    "itable s' = itable s" "user_delivered lim (UserD va) (file_bytes (view s) (i_addrs (itable s ip)) (unat off) k) (um s) (um s')"
    using ud.readi_ok [OF assms] by blast
  have "fs_ok s' H" by (rule fs_ok_tx [OF assms(1) r(2)]) simp
  moreover have "ubyte (mem (um s')) (p_pagetable (um s)) v =
      (if unat va \<le> unat v \<and> unat v < unat va + k then fbyte (view s) (i_addrs (itable s ip)) (unat off + (unat v - unat va))
       else ubyte (mem (um s)) (p_pagetable (um s)) v)" if "v < lim" for v
  proof -
    have "file_bytes V A (unat off) k ! (unat v - unat va) = fbyte V A (unat off + (unat v - unat va))" if "unat va \<le> unat v" "unat v < unat va + k" for V A
      using that by (simp add: file_bytes_def less_diff_conv2)
    then show ?thesis using r(4) that by (auto simp: user_delivered_def written_def)
  qed
  ultimately show ?thesis using r(1-3) by (intro exI [of _ s']) (simp add: tx_def)
qed

text \<open>
  A read that meets a hole while no transaction is under way: \<^verbatim>\<open>bmap\<close> allocates a block for the hole, and the \<^verbatim>\<open>log_write\<close> of the bitmap panics. This is the
  situation of a \<^verbatim>\<open>read\<close> system call, whose \<^verbatim>\<open>fileread\<close> calls \<^verbatim>\<open>readi\<close> without \<^verbatim>\<open>begin_op\<close>.
\<close>

lemma balloc_loop_outside:
  fixes s :: "'a fsst_scheme"
  assumes "fs_ok s H" "card (pinned s \<union> H) < NBUF" "log_outstanding s < 1" "BPB dvd b" "b \<le> a" "a < sb_size (sb s)" "\<not> used (view s) (sb s) a"
  shows "balloc_loop ROOTDEV (sb_size (sb s)) b s = Panic ''log_write outside of trans''"
  using assms
proof (induction "sb_size (sb s) - b" arbitrary: b s rule: less_induct)
  case less
  note d = fs_okD [OF less.prems(1)]
  let ?sp = "sb s" let ?sz = "sb_size ?sp" let ?V = "view s" let ?n = "BBLOCK b ?sp"
  have b: "b < ?sz" using less.prems(5,6) by simp
  have "?n \<notin> H" using BBLOCK_bitmap [OF b] d(5) by blast
  then obtain bp s1 where 1: "bread ROOTDEV ?n s = Ok (bp, s1)" "opened s s1 H ?n bp" "buf_data s1 bp = ?V ?n" "mem_parts s1 = mem_parts s"
    using tx_bread [OF d(1), of ?n] less.prems(2) by blast
  show ?case
  proof (cases "balloc_bit BPB (?V ?n) b ?sz 0")
    case (Some bi)
    have o: "log_ok s1 (insert ?n H)" "pinned s1 = pinned s" "log_outstanding s1 = log_outstanding s"
      using 1(2) fs_restD(2) [of s1 s] by (simp_all add: opened_def)
    have "finite H" "finite (pinned s)" using BC_facts(1,2) [OF log_okD(1) [OF d(1)]] by simp_all
    then have "card (pinned s1) \<le> card (pinned s \<union> H)" unfolding o(2) by (intro card_mono) auto
    then have "nat (lh_n s1) < LOGBLOCKS" using less.prems(2) log_okD(8) [OF o(1)] by (simp add: param_defs)
    then have "lh_n s1 < int LOGBLOCKS" by linarith
    then have "log_write bp (set_data bp x s1) = Panic ''log_write outside of trans''" for x
      using less.prems(3) o(3) by (simp add: log_write_def set_data_def upd_buf_def)
    then show ?thesis using b 1(1,3) Some by (subst balloc_loop.simps) simp
  next
    case None
    obtain s2 where 2: "brelse bp s1 = Ok ((), s2)" "tx s s2 H ?V {}" using tx_close [OF d(1) 1(2)] by blast
    note f = tx_fields [OF 2(2)]
    have "b + BPB \<le> a"
    proof (rule ccontr)
      assume "\<not> b + BPB \<le> a"
      then obtain k where k: "a = b + k" "k < BPB" using less.prems(5) by (metis le_Suc_ex nat_add_left_cancel_less not_le)
      obtain q where "b = BPB * q" using less.prems(4) by (rule dvdE)
      then have "BBLOCK a ?sp = ?n" "a mod BPB = k" using k by (simp_all add: BBLOCK_def)
      then show False using balloc_bit_None [OF None, of k] k less.prems(6,7) by (simp add: used_def)
    qed
    moreover have "sb_size (sb s2) - (b + BPB) < sb_size (sb s) - b" using b f(3) by (simp add: fs_consts)
    ultimately have "balloc_loop ROOTDEV (sb_size (sb s2)) (b + BPB) s2 = Panic ''log_write outside of trans''"
      using less.prems fs_ok_tx [OF less.prems(1) 2(2)] f by (intro less.hyps) simp_all
    then show ?thesis using b 1(1,3) 2(1) None f(3) by (subst balloc_loop.simps) simp
  qed
qed

lemma readi_hole_panics:
  assumes "fs_ok s H" "card (pinned s \<union> H) < NBUF" "inode_ok s H ip" "log_outstanding s < 1" "a < sb_size (sb s)" "\<not> used (view s) (sb s) a"
    and "off < i_size (itable s ip)" "0 < n" "unat off + unat n < 2 ^ 32" "unat off div BSIZE < NDIRECT" "i_addrs (itable s ip) (unat off div BSIZE) = 0"
  shows "readi ip d off n s = Panic ''log_write outside of trans''"
proof -
  let ?z = "i_size (itable s ip)"
  have "balloc ROOTDEV s = Panic ''log_write outside of trans''"
    unfolding balloc_def by (rule balloc_loop_outside [OF assms(1,2,4) _ _ assms(5,6)]) simp_all
  then have m: "bmap ip (unat off div BSIZE) s = Panic ''log_write outside of trans''"
    using assms(3,10,11) by (simp add: bmap_def bmap_slot_def inode_ok_def)
  have u: "unat (off + n) = unat off + unat n" using assms(9) by (subst unat_add_lem [symmetric]) simp
  have "\<not> off > ?z" "\<not> off + n < off" using assms(7) u by (simp_all add: word_less_nat_alt)
  moreover have "0 < unat (if off + n > ?z then ?z - off else n)"
    using assms(7,8) by (auto simp: word_less_nat_alt unat_sub word_le_nat_alt)
  ultimately show ?thesis using m by (simp add: readi_def Let_def readi_loop.simps [of ip d "unat off"])
qed

text \<open>
  C26: What is written is read back. After \<^verbatim>\<open>writei\<close> stored a buffer in a file without holes and returned its full length, \<^verbatim>\<open>readi\<close> of the same
  range returns exactly the buffer, and a read of the whole file returns the old content overlaid with the buffer.
\<close>

theorem writei_readi_roundtrip:
  assumes ok: "fs_ok s H" and i: "inode_ok s H ip" and z: "no_holes (view s) (i_addrs (itable s ip)) (unat (i_size (itable s ip)))"
    and bs: "length bs = unat n" and off: "off \<le> i_size (itable s ip)" "unat off + unat n \<le> MAXFILE * BSIZE"
    and c: "unat off mod BSIZE + unat n \<le> c * BSIZE" "room s H (6 * c + 1)" and run: "writei ip (KernS bs) off n s = Ok (int (unat n), s1)"
    and old: "old = file_bytes (view s) (i_addrs (itable s ip)) 0 (unat (i_size (itable s ip)))" "z = i_size (itable s1 ip)"
  shows "(\<exists>s2. readi ip KernD off n s1 = Ok ((int (unat n), bs), s2) \<and> view s2 = view s1 \<and> itable s2 = itable s1) \<and>
    (\<exists>s2. readi ip KernD 0 z s1 = Ok ((int (unat z), take (unat off) old @ bs @ drop (unat off + unat n) old), s2))"
proof -
  have src: "kern_source (KernS bs) (um s) bs" by (simp add: kern_source_def)
  have r: "room s H (6 * c)" using room_mono [OF c(2)] by simp
  obtain k s' V' A' X where k: "writei ip (KernS bs) off n s = Ok (int k, s')" "writei_post s H ip (unat off) (take k bs) (6 * c) s' V' A' X"
    using ks.writei_ok [OF ok i src bs off c(1) r] by blast
  then have "s' = s1" "int k = int (unat n)" using run by simp_all
  then have "s' = s1" "k = unat n" by (simp_all only: of_nat_eq_iff)
  then have w: "writei_post s H ip (unat off) bs (6 * c) s1 V' A' X" using k(2) bs by simp
  note p = writei_postD [OF ok i w] and q = writei_no_holes [OF ok i w z]
  have oz: "unat off \<le> unat (i_size (itable s ip))" "unat off + length bs \<le> MAXFILE * BSIZE" using off bs by (simp_all add: word_le_nat_alt)
  note nh = q(1) [OF oz] and sz = q(2) [OF oz]
  have pin: "card (pinned s1 \<union> H) < NBUF"
  proof -
    let ?n = "IBLOCK (i_inum (itable s ip)) (sb s)"
    have X: "finite X" "card X \<le> 6 * c" using w by (simp_all add: writei_post_def Let_def)
    have "card (insert ?n X) \<le> 6 * c + 1" using X card_insert_le_m1 [of "6 * c + 1" X ?n] by simp
    moreover have "pinned s1 \<union> H = (pinned s \<union> H) \<union> insert ?n X" using p(13) by auto
    then have "card (pinned s1 \<union> H) \<le> card (pinned s \<union> H) + card (insert ?n X)" using card_Un_le [of "pinned s \<union> H" "insert ?n X"] by simp
    ultimately show ?thesis using c(2) unfolding room_def by linarith
  qed
  have sink: "kern_sink KernD (um s1) k" for k by (simp add: kern_sink_def)
  have rd: "\<exists>s2. readi ip KernD o' m s1 = Ok ((int k, file_bytes (view s1) (i_addrs (itable s1 ip)) (unat o') k), s2) \<and> view s2 = view s1 \<and> itable s2 = itable s1"
    if "unat o' + unat m < 2 ^ 32" "k = min (unat m) (unat (i_size (itable s1 ip)) - unat o')" for o' m k
  proof -
    have "mapped_range (view s1) (i_addrs (itable s1 ip)) (unat o') k" by (rule no_holes_mapped [OF nh]) (use that(2) in auto)
    from kd.readi_ok [OF p(1) pin p(2) this that sink] show ?thesis by (auto simp: tx_def)
  qed
  have fb: "fbyte (view s1) (i_addrs (itable s1 ip)) j = (if unat off \<le> j \<and> j < unat off + length bs then bs ! (j - unat off) else
      fbyte (view s) (i_addrs (itable s ip)) j)" if "j < MAXFILE * BSIZE" for j using p(4) that .
  have "file_bytes (view s1) (i_addrs (itable s1 ip)) (unat off) (unat n) = bs"
    using bs off(2) fb by (intro nth_equalityI) (simp_all add: file_bytes_def)
  then have A: "\<exists>s2. readi ip KernD off n s1 = Ok ((int (unat n), bs), s2) \<and> view s2 = view s1 \<and> itable s2 = itable s1"
    using rd [of off n "unat n"] off(2) bs unfolding sz MAXFILE_BSIZE by simp
  let ?Z = "unat (i_size (itable s ip))"
  have zM: "?Z \<le> MAXFILE * BSIZE" "unat z = max ?Z (unat off + length bs)" using z sz old(2) by (simp_all add: no_holes_def)
  have "file_bytes (view s1) (i_addrs (itable s1 ip)) 0 (unat z) = take (unat off) old @ bs @ drop (unat off + unat n) old"
  proof (rule nth_equalityI)
    show len: "length (file_bytes (view s1) (i_addrs (itable s1 ip)) 0 (unat z)) = length (take (unat off) old @ bs @ drop (unat off + unat n) old)"
      using zM oz(1) old(1) bs by auto
    fix j assume "j < length (file_bytes (view s1) (i_addrs (itable s1 ip)) 0 (unat z))"
    then have j: "j < unat z" "j < MAXFILE * BSIZE" using zM oz(2) by auto
    consider "j < unat off" | "unat off \<le> j" "j < unat off + length bs" | "unat off + length bs \<le> j" by linarith
    then show "file_bytes (view s1) (i_addrs (itable s1 ip)) 0 (unat z) ! j = (take (unat off) old @ bs @ drop (unat off + unat n) old) ! j"
      using j zM oz(1) old(1) bs fb [OF j(2)] by cases (auto simp: file_bytes_def nth_append)
  qed
  moreover have "unat z < 2 ^ 32" using zM oz(2) unfolding MAXFILE_BSIZE by simp
  ultimately have "\<exists>s2. readi ip KernD 0 z s1 = Ok ((int (unat z), take (unat off) old @ bs @ drop (unat off + unat n) old), s2)"
    using rd [of 0 z "unat z"] old(2) by auto
  then show ?thesis using A by blast
qed

subsection \<open>Examples\<close>

text \<open>A file of ten bytes in block 48.\<close>

definition file_disk :: "nat \<Rightarrow> block" where
  "file_disk n = (if n = 47 then (\<lambda>i. if i < 6 then - 1 else if i = 6 then 1 else 0) else if n = 48 then (\<lambda>i. of_nat i) else (\<lambda>_. 0))"

definition file_inode :: inode where
  "file_inode = no_inode\<lparr>i_dev := ROOTDEV, i_inum := 2, i_type := T_FILE, i_size := 10, i_addrs := (\<lambda>_. 0)(0 := 48)\<rparr>"

definition file_boot :: "vm \<Rightarrow> fsst" where
  "file_boot u = (fs_boot demo_sb (\<lambda>_. file_inode) file_disk)\<lparr>um := u\<rparr>"

lemma file_boot_fields: "sb (file_boot u) = demo_sb" "itable (file_boot u) = (\<lambda>_. file_inode)" "um (file_boot u) = u" "view (file_boot u) = file_disk"
  by (simp_all add: file_boot_def fs_boot_view) (simp_all add: fs_boot_def)

lemma file_used: "b < 2000 \<Longrightarrow> used file_disk demo_sb b \<longleftrightarrow> b < 49"
proof -
  assume b: "b < 2000"
  have m: "b mod BPB = b" "BBLOCK b demo_sb = 47" using b by (simp_all add: fs_consts BBLOCK_def demo_sb_def)
  have "b mod 8 < 8" by simp
  moreover have "b div 8 = 6 \<Longrightarrow> (b mod 8 = 0) = (b < 49)" using div_mult_mod_eq [of b 8] by linarith
  moreover have "b div 8 < 6 \<Longrightarrow> b < 49" "6 < b div 8 \<Longrightarrow> \<not> b < 49" using div_mult_mod_eq [of b 8] by linarith+
  ultimately show ?thesis using b by (auto simp: used_def m is_set_bit file_disk_def bit_1_iff)
qed

lemma file_hdr: "hdr_n (file_disk (sb_logstart demo_sb)) = 0"
  by (simp add: file_disk_def demo_sb_def hdr_n_def get32_def map_replicate_const)

lemma file_fs_ok: "fs_ok (file_boot u) {}"
proof -
  have "fs_ok (fs_boot demo_sb (\<lambda>_. file_inode) file_disk) {}"
    using fs_boot_log [where d = file_disk and sp = demo_sb, OF file_hdr] demo_layout file_used
    by (simp add: fs_ok_def fs_boot_view) (simp add: fs_boot_def)
  then show ?thesis by (simp add: fs_ok_def file_boot_def)
qed

lemma file_room: "room (file_boot u) {} 28" "pinned (file_boot u) = {}"
  using fs_boot_log [where d = file_disk and sp = demo_sb and t = "\<lambda>_. file_inode", OF file_hdr] by (simp_all add: room_def file_boot_def)

lemma file_blk: "blk_of V (i_addrs file_inode) x = (if x = 0 then 48 else 0)"
  by (simp add: blk_of_def ind_of_def file_inode_def fs_consts)

lemma file_inode_ok: "inode_ok (file_boot u) {} 0"
proof -
  have "file_blocks file_disk (i_addrs file_inode) \<subseteq> {48}" unfolding file_blocks_def file_blk by (auto simp: ind_of_def file_inode_def fs_consts split: if_splits)
  moreover have "data_block file_disk demo_sb 48" using file_used [of 48] demo_layout(2) by (simp add: data_block_def demo_sb_def)
  ultimately have "addrs_ok file_disk demo_sb (i_addrs file_inode)"
    unfolding addrs_ok_def file_blk by (auto simp: ind_of_def file_inode_def fs_consts split: if_splits)
  then show ?thesis unfolding inode_ok_def file_boot_fields by (simp add: file_inode_def demo_sb_def)
qed

lemma file_no_holes: "no_holes file_disk (i_addrs file_inode) 10"
  by (auto simp: no_holes_def file_blk BSIZE_def MAXFILE_def NDIRECT_def NINDIRECT_def)


theorem readi_correct_witness:
  "\<exists>(u :: vm) s'. readi 0 (UserD 0x1FFE) 8 100 (file_boot u) = Ok ((2, [8, 9]), s') \<and> ubyte (mem (um s')) 0x80000000 0x1FFF = 9"
proof -
  obtain u :: vm and ps where u: "uvm_ok u 0x80000000 ps 0x4000" "p_pagetable u = 0x80000000" "p_sz u = 0x4000"
    "\<forall>va < 0x4000. unat (0x1000 :: u64) \<le> unat va \<and> unat va < 0x2000 \<longrightarrow> write_ok (leaf (mem u) 0x80000000 va)"
    by (rule demo_mapped)
  have "user_sink 0x4000 (UserD 0x1FFE) u 2" unfolding user_sink_def using u by (intro exI [of _ "0x1FFE"] exI [of _ ps]) simp
  then have d: "user_sink 0x4000 (UserD 0x1FFE) (um (file_boot u)) 2" by (simp add: file_boot_fields)
  have pin: "card (pinned (file_boot u) \<union> {}) < NBUF" by (simp add: file_room(2) param_defs)
  have b: "fbyte file_disk (i_addrs file_inode) 8 = 8" "fbyte file_disk (i_addrs file_inode) 9 = 9"
    by (simp_all add: fbyte_def file_blk BSIZE_def file_disk_def)
  have sz: "unat (i_size file_inode) = 10" by (simp add: file_inode_def)
  have z: "mapped_range (view (file_boot u)) (i_addrs (itable (file_boot u) 0)) (unat (8 :: u32)) 2"
    unfolding file_boot_fields by (rule no_holes_mapped [OF file_no_holes]) simp
  have off: "unat (8 :: u32) + unat (100 :: u32) < 2 ^ 32" by simp
  have kk: "2 = min (unat (100 :: u32)) (unat (i_size (itable (file_boot u) 0)) - unat (8 :: u32))" unfolding file_boot_fields sz by simp
  obtain s' where s': "readi 0 (UserD 0x1FFE) 8 100 (file_boot u) = Ok ((int 2, file_bytes file_disk (i_addrs file_inode) 8 2), s')"
    "\<forall>v < 0x4000. ubyte (mem (um s')) 0x80000000 v = (if unat (0x1FFE :: u64) \<le> unat v \<and> unat v < unat (0x1FFE :: u64) + 2
       then fbyte file_disk (i_addrs file_inode) (8 + (unat v - unat (0x1FFE :: u64))) else ubyte (mem u) 0x80000000 v)"
    using readi_correct [OF file_fs_ok pin file_inode_ok z off kk d] unfolding file_boot_fields u(2) by auto
  have "ubyte (mem (um s')) 0x80000000 0x1FFF = 9" using s'(2) b by simp
  moreover have "file_bytes file_disk (i_addrs file_inode) 8 2 = [8, 9]" using b by (simp add: file_bytes_def upt_rec)
  ultimately show ?thesis using s'(1) by auto
qed

theorem writei_readi_roundtrip_witness:
  "\<exists>s1 s2. writei 0 (KernS [7, 6, 5]) 9 3 (file_boot demo_vm) = Ok (3, s1) \<and> readi 0 KernD 0 12 s1 = Ok ((12, [0, 1, 2, 3, 4, 5, 6, 7, 8, 7, 6, 5]), s2)"
proof -
  let ?s = "file_boot demo_vm" let ?bs = "[7, 6, 5] :: u8 list"
  have src: "kern_source (KernS ?bs) (um ?s) ?bs" by (simp add: kern_source_def)
  have r: "room ?s {} (6 * 1)" "room ?s {} (6 * 1 + 1)" using room_mono [OF file_room(1)] by simp_all
  have sz: "i_size (itable ?s 0) = 10" by (simp add: file_boot_fields file_inode_def)
  have pre: "length ?bs = unat (3 :: u32)" "(9 :: u32) \<le> i_size (itable ?s 0)" "unat (9 :: u32) + unat (3 :: u32) \<le> MAXFILE * BSIZE"
    "unat (9 :: u32) mod BSIZE + unat (3 :: u32) \<le> 1 * BSIZE" by (simp_all add: sz BSIZE_def MAXFILE_def NDIRECT_def NINDIRECT_def)
  obtain k s1 V' A' X where k: "writei 0 (KernS ?bs) 9 3 ?s = Ok (int k, s1)" "k \<le> 3"
    "k = 3 \<or> blk_of file_disk (i_addrs file_inode) ((9 + k) div BSIZE) = 0" "writei_post ?s {} 0 (unat (9 :: u32)) (take k ?bs) (6 * 1) s1 V' A' X"
    using ks.writei_ok [OF file_fs_ok file_inode_ok src pre r(1)] unfolding file_boot_fields by auto
  have k3: "k = 3" using k(2,3) by (auto simp: file_blk BSIZE_def)
  have run: "writei 0 (KernS ?bs) 9 3 ?s = Ok (int (unat (3 :: u32)), s1)" using k(1) k3 by simp
  have z: "no_holes (view ?s) (i_addrs (itable ?s 0)) (unat (i_size (itable ?s 0)))" using file_no_holes by (simp add: sz) (simp add: file_boot_fields)
  have s1: "i_size (itable s1 0) = 12" using writei_postD(5) [OF file_fs_ok file_inode_ok k(4)] sz k3 by simp
  have fb: "file_bytes (view ?s) (i_addrs (itable ?s 0)) 0 (unat (i_size (itable ?s 0))) = [0, 1, 2, 3, 4, 5, 6, 7, 8, 9]"
    unfolding sz by (simp add: file_boot_fields file_bytes_def fbyte_def file_blk BSIZE_def file_disk_def upt_rec)
  from writei_readi_roundtrip [OF file_fs_ok file_inode_ok z pre(1-3) pre(4) r(2) run refl refl]
  show ?thesis using k(1) k3 unfolding s1 fb by auto
qed

end
