(* ===== verification/Fs_Path.thy ===== *)
theory Fs_Path
  imports Fs
begin

section \<open>Path names\<close>

text \<open>
  What \<^verbatim>\<open>skipelem\<close> makes of a path. \<open>path_elements\<close> is the specification: the non-empty pieces between slashes, cut to \<open>DIRSIZ\<close> bytes. \<open>skip_all\<close> calls
  \<^verbatim>\<open>skipelem\<close> the way \<^verbatim>\<open>namex\<close> does, with one buffer for all names, and collects what a comparison with \<^verbatim>\<open>namecmp\<close> sees of it.
\<close>

fun split_slash :: "u8 list \<Rightarrow> u8 list list" where
  "split_slash [] = [[]]"
| "split_slash (c # cs) = (if c = 47 then [] # split_slash cs else (c # hd (split_slash cs)) # tl (split_slash cs))"

definition path_elements :: "u8 list \<Rightarrow> u8 list list" where
  "path_elements path = map (take DIRSIZ) (filter (\<lambda>e. e \<noteq> []) (split_slash path))"

definition cname :: "cptr \<Rightarrow> u8 list" where
  "cname name = takeWhile (\<lambda>c. c \<noteq> 0) (map name [0..<DIRSIZ])"

function skip_all :: "u8 list \<Rightarrow> cptr \<Rightarrow> u8 list list" where
  "skip_all path name = (case skipelem path name of None \<Rightarrow> [] | Some (rest, name1) \<Rightarrow> cname name1 # skip_all rest name1)"
  by pat_completeness auto

termination skip_all
  by (relation "measure (\<lambda>(path, name). length path)") (auto simp: skipelem_shorter)

declare skip_all.simps [simp del]

lemma split_slash_ne [simp]: "split_slash p \<noteq> []"
  by (cases p) auto

lemma split_drop_slash: "filter (\<lambda>e. e \<noteq> []) (split_slash (dropWhile (\<lambda>c. c = 47) p)) = filter (\<lambda>e. e \<noteq> []) (split_slash p)"
  by (induction p) auto

lemma split_first: "split_slash p = takeWhile (\<lambda>c. c \<noteq> 47) p #
    (case dropWhile (\<lambda>c. c \<noteq> 47) p of [] \<Rightarrow> [] | c # cs \<Rightarrow> split_slash cs)"
  by (induction p) (auto split: list.splits)

lemma elements_drop_slash [simp]: "path_elements (dropWhile (\<lambda>c. c = 47) p) = path_elements p"
  by (simp add: path_elements_def split_drop_slash)

lemma elements_first:
  assumes "p \<noteq> []" "hd p \<noteq> 47"
  shows "path_elements p = take DIRSIZ (takeWhile (\<lambda>c. c \<noteq> 47) p) # path_elements (dropWhile (\<lambda>c. c \<noteq> 47) p)"
proof -
  obtain c cs where p: "p = c # cs" using assms(1) by (cases p) auto
  have "takeWhile (\<lambda>c. c \<noteq> 47) p \<noteq> []" using assms p by simp
  moreover have "path_elements (dropWhile (\<lambda>c. c \<noteq> 47) p) =
      map (take DIRSIZ) (filter (\<lambda>e. e \<noteq> []) (case dropWhile (\<lambda>c. c \<noteq> 47) p of [] \<Rightarrow> [] | c # cs \<Rightarrow> split_slash cs))"
  proof (cases "dropWhile (\<lambda>c. c \<noteq> 47) p")
    case (Cons d ds)
    then have "d = 47" using hd_dropWhile [of "\<lambda>c. c \<noteq> 47" p] by simp
    then show ?thesis by (simp add: Cons path_elements_def)
  next
    case Nil
    show ?thesis unfolding Nil by (simp add: path_elements_def)
  qed
  ultimately show ?thesis by (simp add: path_elements_def split_first [of p])
qed

lemma cname_element:
  assumes "0 \<notin> set e"
  shows "cname (if length e \<ge> DIRSIZ then (\<lambda>i. if i < DIRSIZ then e ! i else name i)
    else (\<lambda>i. if i < length e then e ! i else if i = length e then 0 else name i)) = take DIRSIZ e"
proof (cases "length e \<ge> DIRSIZ")
  case True
  then have "map (\<lambda>i. if i < DIRSIZ then e ! i else name i) [0..<DIRSIZ] = take DIRSIZ e" by (intro nth_equalityI) simp_all
  moreover have "takeWhile (\<lambda>c. c \<noteq> 0) (take DIRSIZ e) = take DIRSIZ e"
    using assms in_set_takeD [of _ DIRSIZ e] by (intro takeWhile_eq_all_conv [THEN iffD2]) auto
  ultimately show ?thesis using True by (simp add: cname_def)
next
  case False
  let ?n = "\<lambda>i. if i < length e then e ! i else if i = length e then 0 else name i"
  have "[0..<DIRSIZ] = [0..<length e] @ length e # [Suc (length e)..<DIRSIZ]"
    using False upt_add_eq_append [of 0 "length e" "DIRSIZ - length e"] upt_conv_Cons [of "length e" DIRSIZ] by simp
  moreover have "map ?n [0..<length e] = e" by (intro nth_equalityI) simp_all
  ultimately have "map ?n [0..<DIRSIZ] = e @ 0 # map ?n [Suc (length e)..<DIRSIZ]" by simp
  moreover have "takeWhile (\<lambda>c. c \<noteq> 0) (e @ 0 # xs) = e" for xs using assms by (simp add: takeWhile_append)
  ultimately show ?thesis using False by (simp add: cname_def)
qed

lemma skipelem_spec:
  assumes "0 \<notin> set path"
  shows "case skipelem path name of None \<Rightarrow> path_elements path = []
    | Some (rest, name1) \<Rightarrow> path_elements path = cname name1 # path_elements rest \<and> set rest \<subseteq> set path"
proof -
  let ?p = "dropWhile (\<lambda>c. c = 47) path"
  show ?thesis
  proof (cases "?p = []")
    case True
    have "path_elements path = path_elements ?p" by simp
    then show ?thesis using True by (simp add: skipelem_def path_elements_def)
  next
    case False
    let ?e = "takeWhile (\<lambda>c. c \<noteq> 47) ?p" let ?r = "dropWhile (\<lambda>c. c \<noteq> 47) ?p"
    have "0 \<notin> set ?e" using assms by (meson set_dropWhileD set_takeWhileD)
    note c = cname_element [OF this, of name]
    have "hd ?p \<noteq> 47" using hd_dropWhile [OF False] .
    then have "path_elements path = take DIRSIZ ?e # path_elements (dropWhile (\<lambda>c. c = 47) ?r)"
      using elements_first [OF False] by simp
    moreover have "set (dropWhile (\<lambda>c. c = 47) ?r) \<subseteq> set path" by (meson set_dropWhileD subsetI)
    ultimately show ?thesis using False c by (simp add: skipelem_def Let_def)
  qed
qed

text \<open>
  C29: Walking a path with \<^verbatim>\<open>skipelem\<close> visits exactly its elements. For a path without NUL bytes, the calls return in turn the
  non-empty pieces between slashes, each cut to \<open>DIRSIZ\<close> bytes, whatever was in the name buffer before, and then 0.
\<close>

theorem skipelem_elements: "0 \<notin> set path \<Longrightarrow> skip_all path name = path_elements path"
proof (induction path name rule: skip_all.induct)
  case (1 path name)
  show ?case
  proof (cases "skipelem path name")
    case None
    then show ?thesis using skipelem_spec [OF 1(2), of name] by (subst skip_all.simps) simp
  next
    case (Some r)
    obtain rest name1 where r: "r = (rest, name1)" by (cases r)
    have s: "path_elements path = cname name1 # path_elements rest" "set rest \<subseteq> set path" using skipelem_spec [OF 1(2), of name] Some r by simp_all
    have "skip_all rest name1 = path_elements rest" using 1(1) [OF Some r [symmetric]] 1(2) s(2) by blast
    then show ?thesis using Some r s(1) by (subst skip_all.simps) simp
  qed
qed

theorem skipelem_elements_witness:
  "skip_all [47, 97, 47, 47, 98, 98, 47] (\<lambda>_. 1) = [[97], [98, 98]]"
  using skipelem_elements [of "[47, 97, 47, 47, 98, 98, 47]" "\<lambda>_. 1"] by (simp add: path_elements_def DIRSIZ_def)

end
