(* ===== verification/Printf.thy ===== *)
theory Printf
  imports Riscv
begin

section \<open>Formatted output: kernel/printf.c and user/printf.c\<close>

text \<open>
  The two printf implementations, as functions from the format and the arguments to the bytes they send: to the console (\<^verbatim>\<open>consputc\<close>) in the
  kernel, to a file descriptor (\<^verbatim>\<open>putc\<close>) in a user program. A format is the list of its bytes before the NUL. An argument is what \<^verbatim>\<open>va_arg\<close> reads: a
  register or a string (\<open>None\<close> is the null pointer); a call passes as many as its format uses. The bases are 10 and 16 in every call.
\<close>

unbundle bit_operations_syntax

datatype varg = VI u64 | VS "u8 list option"

definition va_word :: "varg list \<Rightarrow> u64" where
  "va_word args = (case args of VI w # _ \<Rightarrow> w | _ \<Rightarrow> 0)"

definition va_str :: "varg list \<Rightarrow> u8 list option" where
  "va_str args = (case args of VS s # _ \<Rightarrow> s | _ \<Rightarrow> None)"

definition va_int :: "varg list \<Rightarrow> u64" where
  "va_int args = scast (ucast (va_word args) :: u32)"

definition va_uint :: "varg list \<Rightarrow> u64" where
  "va_uint args = ucast (ucast (va_word args) :: u32)"

definition nth0 :: "u8 list \<Rightarrow> nat \<Rightarrow> u8" where
  "nth0 xs k = (if k < length xs then xs ! k else 0)"

definition null_str :: "u8 list" where
  "null_str = [40, 110, 117, 108, 108, 41]"

subsection \<open>kernel/printf.c\<close>

definition BACKSPACE :: u32 where "BACKSPACE = 0x100"

definition consputc :: "u32 \<Rightarrow> u8 list" where
  "consputc c = (if c = BACKSPACE then [8, 32, 8] else [ucast c])"

definition digits :: "nat \<Rightarrow> u8" where
  "digits d = (if d < 10 then 48 + of_nat d else 87 + of_nat d)"

function printint_loop :: "nat \<Rightarrow> nat \<Rightarrow> u8 list" where
  "printint_loop base x = digits (x mod base) # (if base < 2 \<or> x div base = 0 then [] else printint_loop base (x div base))"
  by pat_completeness auto

termination printint_loop
  by (relation "measure snd") (auto intro!: div_less_dividend gr0I)

declare printint_loop.simps [simp del]

definition printint :: "u64 \<Rightarrow> nat \<Rightarrow> bool \<Rightarrow> u8 list" where
  "printint xx base sign =
     (let neg = (sign \<and> sint xx < 0); x = (if neg then - xx else xx); buf = printint_loop base (unat x)
      in rev (if neg then buf @ [45] else buf))"

primrec printptr_loop :: "nat \<Rightarrow> u64 \<Rightarrow> u8 list" where
  "printptr_loop 0 x = []"
| "printptr_loop (Suc k) x = digits (unat (drop_bit 60 x)) # printptr_loop k (push_bit 4 x)"

definition printptr :: "u64 \<Rightarrow> u8 list" where
  "printptr x = [48, 120] @ printptr_loop 16 x"

function printf_loop :: "u8 list \<Rightarrow> varg list \<Rightarrow> u8 list" where
  "printf_loop fmt args =
     (case fmt of [] \<Rightarrow> []
      | cx # rest \<Rightarrow>
          if cx \<noteq> 37 then consputc (ucast cx) @ printf_loop rest args
          else let c0 = nth0 rest 0; c1 = nth0 rest 1; c2 = nth0 rest 2 in
            if c0 = 100 then printint (va_int args) 10 True @ printf_loop (drop 1 rest) (tl args)
            else if c0 = 108 \<and> c1 = 100 then printint (va_word args) 10 True @ printf_loop (drop 2 rest) (tl args)
            else if c0 = 108 \<and> c1 = 108 \<and> c2 = 100 then printint (va_word args) 10 True @ printf_loop (drop 3 rest) (tl args)
            else if c0 = 117 then printint (va_uint args) 10 False @ printf_loop (drop 1 rest) (tl args)
            else if c0 = 108 \<and> c1 = 117 then printint (va_word args) 10 False @ printf_loop (drop 2 rest) (tl args)
            else if c0 = 108 \<and> c1 = 108 \<and> c2 = 117 then printint (va_word args) 10 False @ printf_loop (drop 3 rest) (tl args)
            else if c0 = 120 then printint (va_uint args) 16 False @ printf_loop (drop 1 rest) (tl args)
            else if c0 = 108 \<and> c1 = 120 then printint (va_word args) 16 False @ printf_loop (drop 2 rest) (tl args)
            else if c0 = 108 \<and> c1 = 108 \<and> c2 = 120 then printint (va_word args) 16 False @ printf_loop (drop 3 rest) (tl args)
            else if c0 = 112 then printptr (va_word args) @ printf_loop (drop 1 rest) (tl args)
            else if c0 = 99 then consputc (ucast (va_word args)) @ printf_loop (drop 1 rest) (tl args)
            else if c0 = 115 then
              concat (map (\<lambda>c. consputc (ucast c)) (case va_str args of None \<Rightarrow> null_str | Some s \<Rightarrow> s)) @ printf_loop (drop 1 rest) (tl args)
            else if c0 = 37 then consputc 37 @ printf_loop (drop 1 rest) args
            else if c0 = 0 then []
            else consputc 37 @ consputc (ucast c0) @ printf_loop (drop 1 rest) args)"
  by pat_completeness auto

termination printf_loop
  by (relation "measure (\<lambda>(fmt, args). length fmt)") auto

declare printf_loop.simps [simp del]

definition printf :: "u8 list \<Rightarrow> varg list \<Rightarrow> u8 list" where
  "printf fmt args = printf_loop fmt args"

subsection \<open>user/printf.c\<close>

definition udigits :: "nat \<Rightarrow> u8" where
  "udigits d = (if d < 10 then 48 + of_nat d else 55 + of_nat d)"

function uprintint_loop :: "nat \<Rightarrow> nat \<Rightarrow> u8 list" where
  "uprintint_loop base x = udigits (x mod base) # (if base < 2 \<or> x div base = 0 then [] else uprintint_loop base (x div base))"
  by pat_completeness auto

termination uprintint_loop
  by (relation "measure snd") (auto intro!: div_less_dividend gr0I)

declare uprintint_loop.simps [simp del]

definition uprintint :: "u64 \<Rightarrow> nat \<Rightarrow> bool \<Rightarrow> u8 list" where
  "uprintint xx base sg =
     (let neg = (sg \<and> sint xx < 0); x = (if neg then ucast (- xx) else ucast xx) :: u32; buf = uprintint_loop base (unat x)
      in rev (if neg then buf @ [45] else buf))"

primrec uprintptr_loop :: "nat \<Rightarrow> u64 \<Rightarrow> u8 list" where
  "uprintptr_loop 0 x = []"
| "uprintptr_loop (Suc k) x = udigits (unat (drop_bit 60 x)) # uprintptr_loop k (push_bit 4 x)"

definition uprintptr :: "u64 \<Rightarrow> u8 list" where
  "uprintptr x = [48, 120] @ uprintptr_loop 16 x"

text \<open>The conversion after a percent sign: the bytes sent, the format characters skipped beyond the first, and whether an argument was used.\<close>

definition uconv :: "u8 \<Rightarrow> u8 \<Rightarrow> u8 \<Rightarrow> varg list \<Rightarrow> u8 list \<times> nat \<times> bool" where
  "uconv c0 c1 c2 args =
     (if c0 = 100 then (uprintint (va_int args) 10 True, 0, True)
      else if c0 = 108 \<and> c1 = 100 then (uprintint (va_word args) 10 True, 1, True)
      else if c0 = 108 \<and> c1 = 108 \<and> c2 = 100 then (uprintint (va_word args) 10 True, 2, True)
      else if c0 = 117 then (uprintint (va_uint args) 10 False, 0, True)
      else if c0 = 108 \<and> c1 = 117 then (uprintint (va_word args) 10 False, 1, True)
      else if c0 = 108 \<and> c1 = 108 \<and> c2 = 117 then (uprintint (va_word args) 10 False, 2, True)
      else if c0 = 120 then (uprintint (va_uint args) 16 False, 0, True)
      else if c0 = 108 \<and> c1 = 120 then (uprintint (va_word args) 16 False, 1, True)
      else if c0 = 108 \<and> c1 = 108 \<and> c2 = 120 then (uprintint (va_word args) 16 False, 2, True)
      else if c0 = 112 then (uprintptr (va_word args), 0, True)
      else if c0 = 99 then ([ucast (va_word args)], 0, True)
      else if c0 = 115 then ((case va_str args of None \<Rightarrow> null_str | Some s \<Rightarrow> s), 0, True)
      else if c0 = 37 then ([37], 0, False)
      else ([37, c0], 0, False))"

text \<open>The loop of \<^verbatim>\<open>vprintf\<close>; \<open>pct\<close> is \<^verbatim>\<open>state == '%'\<close>.\<close>

function vprintf_loop :: "bool \<Rightarrow> u8 list \<Rightarrow> varg list \<Rightarrow> u8 list" where
  "vprintf_loop pct fmt args =
     (case fmt of [] \<Rightarrow> []
      | c0 # rest \<Rightarrow>
          if \<not> pct then (if c0 = 37 then vprintf_loop True rest args else c0 # vprintf_loop False rest args)
          else let (out, k, used) = uconv c0 (nth0 rest 0) (nth0 rest 1) args in
            out @ vprintf_loop False (drop k rest) (if used then tl args else args))"
  by pat_completeness auto

termination vprintf_loop
  by (relation "measure (\<lambda>(pct, fmt, args). length fmt)") auto

declare vprintf_loop.simps [simp del]

definition vprintf :: "u8 list \<Rightarrow> varg list \<Rightarrow> u8 list" where
  "vprintf fmt args = vprintf_loop False fmt args"

subsection \<open>What is printed can be read back\<close>

definition digval :: "u8 \<Rightarrow> nat" where
  "digval c = (if c < 58 then unat c - 48 else if c < 97 then unat c - 55 else unat c - 87)"

definition numval :: "nat \<Rightarrow> u8 list \<Rightarrow> nat" where
  "numval base cs = foldl (\<lambda>v c. v * base + digval c) 0 cs"

definition parse :: "nat \<Rightarrow> u8 list \<Rightarrow> int" where
  "parse base cs = (if cs \<noteq> [] \<and> hd cs = 45 then - int (numval base (tl cs)) else int (numval base cs))"

lemma digval_digits: "d < 16 \<Longrightarrow> digval (digits d) = d" "d < 16 \<Longrightarrow> digits d \<noteq> 45" "d < 16 \<Longrightarrow> digval (udigits d) = d" "d < 16 \<Longrightarrow> udigits d \<noteq> 45"
proof -
  assume "d < 16"
  then have "d \<in> set [0..<16]" by simp
  moreover have "list_all (\<lambda>d. digval (digits d) = d \<and> digits d \<noteq> 45 \<and> digval (udigits d) = d \<and> udigits d \<noteq> 45) [0..<16]" by code_simp
  ultimately have "digval (digits d) = d \<and> digits d \<noteq> 45 \<and> digval (udigits d) = d \<and> udigits d \<noteq> 45" unfolding list_all_iff by blast
  then show "digval (digits d) = d" "digits d \<noteq> 45" "digval (udigits d) = d" "udigits d \<noteq> 45" by simp_all
qed

text \<open>Both digit loops, for any digit alphabet.\<close>

locale digit_loop =
  fixes dig :: "nat \<Rightarrow> u8" and loop :: "nat \<Rightarrow> nat \<Rightarrow> u8 list"
  assumes dig_law: "d < 16 \<Longrightarrow> digval (dig d) = d" "d < 16 \<Longrightarrow> dig d \<noteq> 45"
    and loop_law: "loop base x = dig (x mod base) # (if base < 2 \<or> x div base = 0 then [] else loop base (x div base))"
begin

lemma numval_loop: "2 \<le> base \<Longrightarrow> base \<le> 16 \<Longrightarrow> numval base (rev (loop base x)) = x"
proof (induction x rule: less_induct)
  case (less x)
  have m: "x mod base < base" using less.prems by (intro mod_less_divisor) simp
  then have "x mod base < 16" using less.prems(2) by simp
  then have d: "digval (dig (x mod base)) = x mod base" by (rule dig_law)
  show ?case
  proof (cases "x div base = 0")
    case True
    then have "x mod base = x" using div_mult_mod_eq [of x base] by simp
    then show ?thesis using d True by (subst loop_law) (simp add: numval_def)
  next
    case False
    then have "x div base < x" using less.prems(1) by (intro div_less_dividend) (auto intro!: gr0I)
    then have "numval base (rev (loop base (x div base))) = x div base" using less by blast
    then show ?thesis using False less.prems(1) d by (subst loop_law) (simp add: numval_def)
  qed
qed

lemma loop_no_minus: "2 \<le> base \<Longrightarrow> base \<le> 16 \<Longrightarrow> 45 \<notin> set (loop base x) \<and> loop base x \<noteq> []"
proof (induction x rule: less_induct)
  case (less x)
  have "x mod base < base" using less.prems by (intro mod_less_divisor) simp
  then have d: "dig (x mod base) \<noteq> 45" using less.prems(2) by (intro dig_law) simp
  note l = loop_law [of base x]
  show ?case
  proof (cases "x div base = 0")
    case False
    then have "x div base < x" using less.prems(1) by (intro div_less_dividend) (auto intro!: gr0I)
    then have "45 \<notin> set (loop base (x div base))" using less by blast
    then show ?thesis using d by (auto simp: l)
  qed (use d in \<open>auto simp: l\<close>)
qed

lemma loop_length: "2 \<le> base \<Longrightarrow> x < base ^ Suc k \<Longrightarrow> length (loop base x) \<le> Suc k"
proof (induction k arbitrary: x)
  case 0
  then have "x div base = 0" by simp
  then show ?case by (subst loop_law) simp
next
  case (Suc k)
  have "x div base < base ^ Suc k" using Suc.prems by (intro less_mult_imp_div_less) (simp add: mult.commute)
  then show ?case using Suc.IH [OF Suc.prems(1)] by (subst loop_law) simp
qed

lemma parse_loop:
  assumes "2 \<le> base" "base \<le> 16"
  shows "parse base (rev (loop base x)) = int x" "parse base (rev (loop base x @ [45])) = - int x"
proof -
  have n: "45 \<notin> set (loop base x)" "loop base x \<noteq> []" using loop_no_minus [OF assms] by auto
  then have "hd (rev (loop base x)) \<noteq> 45" by (metis hd_in_set rev_is_Nil_conv set_rev)
  then show "parse base (rev (loop base x)) = int x" using numval_loop [OF assms] by (simp add: parse_def)
  show "parse base (rev (loop base x @ [45])) = - int x" using numval_loop [OF assms] by (simp add: parse_def)
qed

end

interpretation kdig: digit_loop digits printint_loop
  by unfold_locales (simp_all add: digval_digits printint_loop.simps)

interpretation udig: digit_loop udigits uprintint_loop
  by unfold_locales (simp_all add: digval_digits uprintint_loop.simps)

lemma uint_of_sint: "uint (x :: u64) = (if sint x < 0 then sint x + 2 ^ 64 else sint x)"
proof -
  have r: "- (2 ^ 63) \<le> sint x" "sint x < 2 ^ 63" using sint_ge [of x] sint_lt [of x] by simp_all
  have "uint x = sint x mod 2 ^ 64" using uint_sint [of x] by (simp add: take_bit_eq_mod)
  moreover have "sint x mod 2 ^ 64 = (sint x + 2 ^ 64) mod 2 ^ 64" by simp
  moreover have "sint x < 0 \<Longrightarrow> (sint x + 2 ^ 64) mod 2 ^ 64 = sint x + 2 ^ 64" using r by (intro mod_pos_pos_trivial) simp_all
  moreover have "\<not> sint x < 0 \<Longrightarrow> sint x mod 2 ^ 64 = sint x" using r by (intro mod_pos_pos_trivial) simp_all
  ultimately show ?thesis by presburger
qed

lemma neg_value:
  fixes x :: u64
  assumes "sint x < 0"
  shows "int (unat (- x)) = - sint x" "unat (- x) \<le> 2 ^ 63" "int (unat (ucast (- x) :: u32)) = (- sint x) mod 2 ^ 32"
proof -
  have s: "sint x = uint x - 2 ^ 64" using assms uint_of_sint [of x] by simp
  have r: "- (2 ^ 63) \<le> sint x" using sint_ge [of x] by simp
  have "uint (- x) = (- uint x) mod 2 ^ 64" by (simp add: uint_word_ariths)
  also have "\<dots> = (- sint x) mod 2 ^ 64" unfolding s by (simp add: mod_diff_right_eq [symmetric] mod_diff_eq)
  also have "\<dots> = - sint x" using assms r by (intro mod_pos_pos_trivial) auto
  finally have u: "uint (- x) = - sint x" .
  show i: "int (unat (- x)) = - sint x" using u by simp
  have "int (unat (- x)) \<le> int (2 ^ 63)" using i r by simp
  then show "unat (- x) \<le> 2 ^ 63" by (simp only: of_nat_le_iff)
  have "uint (ucast (- x) :: u32) = uint (- x) mod 2 ^ 32" by (simp add: unsigned_ucast_eq take_bit_eq_mod)
  then show "int (unat (ucast (- x) :: u32)) = (- sint x) mod 2 ^ 32" using u by simp
qed

text \<open>
  C38: The kernel's \<^verbatim>\<open>printint\<close> prints numbers exactly. Reading back what it prints in base 10 or 16 gives the signed or unsigned value of the 64-bit
  argument, and the text always fits its 20-byte buffer, the most negative number included.
\<close>

theorem printint_roundtrip:
  "parse 10 (printint xx 10 sign) = (if sign then sint xx else uint xx) \<and> length (printint xx 10 sign) \<le> 20 \<and>
   parse 16 (printint xx 16 sign) = (if sign then sint xx else uint xx) \<and> length (printint xx 16 sign) \<le> 20"
proof (cases "sign \<and> sint xx < 0")
  case True
  note n = neg_value [of xx]
  have "unat (- xx) < 10 ^ Suc 18" "unat (- xx) < 16 ^ Suc 18" using n(2) True by simp_all
  then have "length (printint_loop 10 (unat (- xx))) \<le> Suc 18" "length (printint_loop 16 (unat (- xx))) \<le> Suc 18"
    by (intro kdig.loop_length; simp)+
  then show ?thesis using True n(1) kdig.parse_loop(2) [of 10 "unat (- xx)"] kdig.parse_loop(2) [of 16 "unat (- xx)"]
    by (simp add: printint_def Let_def del: rev_append rev.simps)
next
  case False
  have "unat xx < 2 ^ 64" using unsigned_less [of xx] by simp
  then have "unat xx < 10 ^ Suc 19" "unat xx < 16 ^ Suc 19" by simp_all
  then have "length (printint_loop 10 (unat xx)) \<le> Suc 19" "length (printint_loop 16 (unat xx)) \<le> Suc 19"
    by (intro kdig.loop_length; simp)+
  moreover have "sign \<Longrightarrow> sint xx = uint xx" using False uint_of_sint [of xx] by simp
  ultimately show ?thesis using False kdig.parse_loop(1) [of 10 "unat xx"] kdig.parse_loop(1) [of 16 "unat xx"]
    by (auto simp: printint_def Let_def)
qed

text \<open>
  C39: The user library's \<^verbatim>\<open>printint\<close> prints only the low 32 bits of the magnitude of its argument. So \<^verbatim>\<open>%d\<close>, \<^verbatim>\<open>%u\<close> and \<^verbatim>\<open>%x\<close> of an
  int are exact, while \<^verbatim>\<open>%ld\<close>, \<^verbatim>\<open>%lu\<close> and \<^verbatim>\<open>%lx\<close> lose the high half of a 64-bit value: 2^32 is printed as 0.
\<close>

theorem uprintint_truncates:
  "parse 10 (uprintint xx 10 sg) = (if sg \<and> sint xx < 0 then - (- sint xx mod 2 ^ 32) else uint xx mod 2 ^ 32) \<and>
   parse 16 (uprintint xx 16 sg) = (if sg \<and> sint xx < 0 then - (- sint xx mod 2 ^ 32) else uint xx mod 2 ^ 32) \<and>
   vprintf [37, 108, 100] [VI (2 ^ 32)] = [48]"
proof -
  have 1: "vprintf [37, 108, 100] [VI (2 ^ 32)] = [48]"
    by (simp add: vprintf_def vprintf_loop.simps uconv_def nth0_def va_word_def uprintint_def uprintint_loop.simps udigits_def)
  have "uint (ucast xx :: u32) = uint xx mod 2 ^ 32" by (simp add: unsigned_ucast_eq take_bit_eq_mod)
  then have u: "int (unat (ucast xx :: u32)) = uint xx mod 2 ^ 32" by simp
  show ?thesis
  proof (cases "sg \<and> sint xx < 0")
    case True
    then show ?thesis using 1 neg_value(3) [of xx] udig.parse_loop(2) [of 10 "unat (ucast (- xx) :: u32)"] udig.parse_loop(2) [of 16 "unat (ucast (- xx) :: u32)"]
      by (simp add: uprintint_def Let_def del: rev_append rev.simps)
  next
    case False
    then show ?thesis using 1 u udig.parse_loop(1) [of 10 "unat (ucast xx :: u32)"] udig.parse_loop(1) [of 16 "unat (ucast xx :: u32)"]
      by (auto simp: uprintint_def Let_def)
  qed
qed

end
