(* ===== verification/Kstate.thy ===== *)
theory Kstate
  imports Fs Printf
begin

section \<open>The state of the kernel above the file system\<close>

text \<open>
  The process table (\<^verbatim>\<open>proc.h\<close>), the open-file table (\<^verbatim>\<open>file.h\<close>), the pipes, the console and the clock, added to the state of the file system. Sections
  under \<^verbatim>\<open>p->lock\<close>, \<^verbatim>\<open>wait_lock\<close>, \<^verbatim>\<open>ftable.lock\<close> and the like are atomic and the locks are left out. A process is its index in the table;
  \<open>cur\<close> is \<^verbatim>\<open>mycpu()->proc\<close>. Pipes are objects named by the address of their page. The trapframe of a process is in its page of physical memory, at the
  offsets of \<^verbatim>\<open>struct trapframe\<close>.

  The file system and the virtual memory code work on the current process through \<^verbatim>\<open>myproc()\<close>: \<open>load_cur\<close> presents its \<^verbatim>\<open>pid\<close>, \<^verbatim>\<open>cwd\<close>, \<^verbatim>\<open>sz\<close> and
  \<^verbatim>\<open>pagetable\<close> to them, and is applied whenever one of those changes or another process is scheduled. A call that has to wait returns \<open>Asleep k\<close>, with the process
  marked \<open>SLEEPING\<close> on its channel and \<open>k\<close> the progress made; running the loop again from \<open>k\<close> is the continuation after a wakeup. Waiting for a
  sleep-lock is \<open>Blocked\<close>.
\<close>

unbundle bit_operations_syntax

datatype 'r wait = Done 'r | Asleep nat

datatype procstate = UNUSED | USED | SLEEPING | RUNNABLE | RUNNING | ZOMBIE

datatype wchan = NoChan | ChProc nat | ChNread u64 | ChNwrite u64 | ChCons | ChTicks | ChTx

record ctx =
  ctx_ra :: u64
  ctx_sp :: u64
  ctx_s :: "nat \<Rightarrow> u64"

record proc =
  pr_state :: procstate
  pr_chan :: wchan
  pr_killed :: bool
  pr_xstate :: u32
  pr_pid :: int
  pr_parent :: "nat option"
  pr_kstack :: u64
  pr_sz :: u64
  pr_pagetable :: u64
  pr_trapframe :: u64
  pr_context :: ctx
  pr_ofile :: "nat \<Rightarrow> nat option"
  pr_cwd :: "nat option"
  pr_name :: cptr

datatype ftype = FD_NONE | FD_PIPE | FD_INODE | FD_DEVICE

record ofile =
  f_type :: ftype
  f_ref :: int
  f_readable :: bool
  f_writable :: bool
  f_pipe :: u64
  f_ip :: "nat option"
  f_off :: u32
  f_major :: u16

record pipe =
  pi_data :: "nat \<Rightarrow> u8"
  pi_nread :: u32
  pi_nwrite :: u32
  pi_readopen :: bool
  pi_writeopen :: bool

record conbuf =
  c_buf :: "nat \<Rightarrow> u8"
  c_r :: u32
  c_w :: u32
  c_e :: u32

record kst = fsst +
  procs :: "nat \<Rightarrow> proc"
  cur :: "nat option"
  initproc :: "nat option"
  nextpid :: int
  trampoline :: u64
  forkret_addr :: u64
  ftable :: "nat \<Rightarrow> ofile"
  pipes :: "u64 \<Rightarrow> pipe"
  consl :: conbuf
  ticks :: u32
  tx_busy :: bool
  uart_out :: "u8 list"

subsection \<open>The current process\<close>

definition me :: "'a kst_scheme \<Rightarrow> nat" where
  "me s = (case cur s of Some i \<Rightarrow> i | None \<Rightarrow> 0)"

definition myproc :: "'a kst_scheme \<Rightarrow> proc" where
  "myproc s = procs s (me s)"

definition upd_proc :: "nat \<Rightarrow> (proc \<Rightarrow> proc) \<Rightarrow> 'a kst_scheme \<Rightarrow> 'a kst_scheme" where
  "upd_proc i f s = s\<lparr>procs := (procs s)(i := f (procs s i))\<rparr>"

definition load_cur :: "'a kst_scheme \<Rightarrow> 'a kst_scheme" where
  "load_cur s =
     (let p = myproc s in
      s\<lparr>cur_pid := pr_pid p, p_cwd := (case pr_cwd p of Some i \<Rightarrow> i | None \<Rightarrow> 0),
        um := (um s)\<lparr>p_sz := pr_sz p, p_pagetable := pr_pagetable p\<rparr>\<rparr>)"

text \<open>Virtual memory code on the memory of this state.\<close>

definition on_vm :: "(vm \<Rightarrow> ('r \<times> vm) kres) \<Rightarrow> 'a kst_scheme \<Rightarrow> ('r \<times> 'a kst_scheme) kres" where
  "on_vm f s = kbind (f (um s)) (\<lambda>(r, u). Ok (r, s\<lparr>um := u\<rparr>))"

text \<open>The trapframe: offsets of \<^verbatim>\<open>struct trapframe\<close>.\<close>

definition TF_kernel_satp :: u64 where "TF_kernel_satp = 0"
definition TF_kernel_sp :: u64 where "TF_kernel_sp = 8"
definition TF_kernel_trap :: u64 where "TF_kernel_trap = 16"
definition TF_epc :: u64 where "TF_epc = 24"
definition TF_kernel_hartid :: u64 where "TF_kernel_hartid = 32"
definition TF_sp :: u64 where "TF_sp = 48"
definition TF_a0 :: u64 where "TF_a0 = 112"
definition TF_a1 :: u64 where "TF_a1 = 120"
definition TF_a7 :: u64 where "TF_a7 = 168"
definition TF_SIZE :: nat where "TF_SIZE = 288"

definition tf_get :: "nat \<Rightarrow> u64 \<Rightarrow> 'a kst_scheme \<Rightarrow> u64" where
  "tf_get i off s = load64 (mem (um s)) (pr_trapframe (procs s i) + off)"

definition tf_set :: "nat \<Rightarrow> u64 \<Rightarrow> u64 \<Rightarrow> 'a kst_scheme \<Rightarrow> 'a kst_scheme" where
  "tf_set i off v s = s\<lparr>um := (um s)\<lparr>mem := store64 (mem (um s)) (pr_trapframe (procs s i) + off) v\<rparr>\<rparr>"

subsection \<open>proc.c: sleep, wakeup, kill\<close>

text \<open>\<^verbatim>\<open>sleep\<close> up to its call of \<^verbatim>\<open>sched\<close>, and what it does once scheduled again.\<close>

definition sleep_on :: "wchan \<Rightarrow> 'a kst_scheme \<Rightarrow> 'a kst_scheme" where
  "sleep_on ch s = upd_proc (me s) (\<lambda>p. p\<lparr>pr_chan := ch, pr_state := SLEEPING\<rparr>) s"

definition sleep_resume :: "'a kst_scheme \<Rightarrow> 'a kst_scheme" where
  "sleep_resume s = upd_proc (me s) (\<lambda>p. p\<lparr>pr_chan := NoChan\<rparr>) s"

primrec wakeup_loop :: "nat \<Rightarrow> nat \<Rightarrow> wchan \<Rightarrow> 'a kst_scheme \<Rightarrow> 'a kst_scheme" where
  "wakeup_loop 0 i ch s = s"
| "wakeup_loop (Suc k) i ch s =
     wakeup_loop k (Suc i) ch
       (if cur s \<noteq> Some i \<and> pr_state (procs s i) = SLEEPING \<and> pr_chan (procs s i) = ch
        then upd_proc i (\<lambda>p. p\<lparr>pr_state := RUNNABLE\<rparr>) s else s)"

definition wakeup :: "wchan \<Rightarrow> 'a kst_scheme \<Rightarrow> 'a kst_scheme" where
  "wakeup ch s = wakeup_loop NPROC 0 ch s"

primrec kkill_loop :: "nat \<Rightarrow> nat \<Rightarrow> int \<Rightarrow> 'a kst_scheme \<Rightarrow> int \<times> 'a kst_scheme" where
  "kkill_loop 0 i pid s = (- 1, s)"
| "kkill_loop (Suc k) i pid s =
     (if pr_pid (procs s i) = pid
      then (0, upd_proc i (\<lambda>p. p\<lparr>pr_killed := True, pr_state := (if pr_state p = SLEEPING then RUNNABLE else pr_state p)\<rparr>) s)
      else kkill_loop k (Suc i) pid s)"

definition kkill :: "int \<Rightarrow> 'a kst_scheme \<Rightarrow> int \<times> 'a kst_scheme" where
  "kkill pid s = kkill_loop NPROC 0 pid s"

definition setkilled :: "nat \<Rightarrow> 'a kst_scheme \<Rightarrow> 'a kst_scheme" where
  "setkilled i s = upd_proc i (\<lambda>p. p\<lparr>pr_killed := True\<rparr>) s"

definition killed :: "nat \<Rightarrow> 'a kst_scheme \<Rightarrow> bool" where
  "killed i s = pr_killed (procs s i)"

subsection \<open>Facts\<close>

lemma upd_proc_fields [simp]:
  "procs (upd_proc i f s) = (procs s)(i := f (procs s i))" "cur (upd_proc i f s) = cur s" "initproc (upd_proc i f s) = initproc s"
  "nextpid (upd_proc i f s) = nextpid s" "ftable (upd_proc i f s) = ftable s" "pipes (upd_proc i f s) = pipes s" "um (upd_proc i f s) = um s"
  "consl (upd_proc i f s) = consl s" "ticks (upd_proc i f s) = ticks s" "tx_busy (upd_proc i f s) = tx_busy s" "uart_out (upd_proc i f s) = uart_out s"
  "itable (upd_proc i f s) = itable s" "me (upd_proc i f s) = me s" "trampoline (upd_proc i f s) = trampoline s" "cur_pid (upd_proc i f s) = cur_pid s"
  by (simp_all add: upd_proc_def me_def)

text \<open>What \<^verbatim>\<open>wakeup\<close> does to the table: every other sleeper on the channel becomes runnable, nothing else changes.\<close>

definition woken :: "nat option \<Rightarrow> wchan \<Rightarrow> nat \<Rightarrow> proc \<Rightarrow> proc" where
  "woken c ch i p = (if c \<noteq> Some i \<and> pr_state p = SLEEPING \<and> pr_chan p = ch then p\<lparr>pr_state := RUNNABLE\<rparr> else p)"

lemma wakeup_loop_procs:
  "wakeup_loop k i ch s = s\<lparr>procs := (\<lambda>j. if i \<le> j \<and> j < i + k then woken (cur s) ch j (procs s j) else procs s j)\<rparr>"
proof (induction k arbitrary: i s)
  case 0
  have "(\<lambda>j. if i \<le> j \<and> j < i + 0 then woken (cur s) ch j (procs s j) else procs s j) = procs s" by (intro ext) auto
  then show ?case by simp
next
  case (Suc k)
  have "(if cur s \<noteq> Some i \<and> pr_state (procs s i) = SLEEPING \<and> pr_chan (procs s i) = ch then upd_proc i (\<lambda>p. p\<lparr>pr_state := RUNNABLE\<rparr>) s else s) =
      s\<lparr>procs := (procs s)(i := woken (cur s) ch i (procs s i))\<rparr>" (is "?s = ?t")
    by (auto simp: upd_proc_def woken_def)
  then have "wakeup_loop (Suc k) i ch s = wakeup_loop k (Suc i) ch ?t" by simp
  also have "\<dots> = s\<lparr>procs := (\<lambda>j. if i \<le> j \<and> j < i + Suc k then woken (cur s) ch j (procs s j) else procs s j)\<rparr>"
    unfolding Suc.IH by (auto simp: fun_eq_iff intro!: arg_cong [of _ _ "\<lambda>f. s\<lparr>procs := f\<rparr>"])
  finally show ?case .
qed

lemma wakeup_eq: "wakeup ch s = s\<lparr>procs := (\<lambda>j. if j < NPROC then woken (cur s) ch j (procs s j) else procs s j)\<rparr>"
  by (simp add: wakeup_def wakeup_loop_procs)

lemma wakeup_fields [simp]:
  "cur (wakeup ch s) = cur s" "pipes (wakeup ch s) = pipes s" "um (wakeup ch s) = um s" "ftable (wakeup ch s) = ftable s" "itable (wakeup ch s) = itable s"
  "consl (wakeup ch s) = consl s" "ticks (wakeup ch s) = ticks s" "uart_out (wakeup ch s) = uart_out s" "initproc (wakeup ch s) = initproc s"
  "nextpid (wakeup ch s) = nextpid s" "me (wakeup ch s) = me s" "tx_busy (wakeup ch s) = tx_busy s" "trampoline (wakeup ch s) = trampoline s"
  "procs (wakeup ch s) j = (if j < NPROC then woken (cur s) ch j (procs s j) else procs s j)"
  by (simp_all add: wakeup_eq me_def)

lemma woken_fields [simp]:
  "pr_chan (woken c ch i p) = pr_chan p" "pr_killed (woken c ch i p) = pr_killed p" "pr_xstate (woken c ch i p) = pr_xstate p" "pr_pid (woken c ch i p) = pr_pid p"
  "pr_parent (woken c ch i p) = pr_parent p" "pr_sz (woken c ch i p) = pr_sz p" "pr_pagetable (woken c ch i p) = pr_pagetable p"
  "pr_trapframe (woken c ch i p) = pr_trapframe p" "pr_ofile (woken c ch i p) = pr_ofile p" "pr_cwd (woken c ch i p) = pr_cwd p"
  "pr_state (woken c ch i p) = (if c \<noteq> Some i \<and> pr_state p = SLEEPING \<and> pr_chan p = ch then RUNNABLE else pr_state p)"
  "woken (Some i) ch i p = p"
  by (simp_all add: woken_def)

end
