(* ===== verification/Pipe.thy ===== *)
theory Pipe
  imports Kstate Fs_Content
begin

section \<open>Pipes: kernel/pipe.c\<close>

text \<open>
  The ring buffer of a pipe and its readers and writers. The abstraction \<open>pipe_bytes\<close> is the queue of bytes written and not yet read; the counters are
  32-bit and wrap around. \<^verbatim>\<open>pipealloc\<close> is with the file table, in \<open>File\<close>.
\<close>

unbundle bit_operations_syntax

definition PIPESIZE :: nat where "PIPESIZE = 512"

definition upd_pipe :: "u64 \<Rightarrow> (pipe \<Rightarrow> pipe) \<Rightarrow> 'a kst_scheme \<Rightarrow> 'a kst_scheme" where
  "upd_pipe pi f s = s\<lparr>pipes := (pipes s)(pi := f (pipes s pi))\<rparr>"

definition pipeclose :: "u64 \<Rightarrow> bool \<Rightarrow> 'a kst_scheme \<Rightarrow> (unit \<times> 'a kst_scheme) kres" where
  "pipeclose pi writable s =
     (let s1 = (if writable then wakeup (ChNread pi) (upd_pipe pi (\<lambda>p. p\<lparr>pi_writeopen := False\<rparr>) s)
                else wakeup (ChNwrite pi) (upd_pipe pi (\<lambda>p. p\<lparr>pi_readopen := False\<rparr>) s)) in
      if \<not> pi_readopen (pipes s1 pi) \<and> \<not> pi_writeopen (pipes s1 pi) then on_vm (kfree pi) s1 else Ok ((), s1))"

definition pipe_put :: "u8 \<Rightarrow> pipe \<Rightarrow> pipe" where
  "pipe_put ch p = p\<lparr>pi_data := (pi_data p)(unat (pi_nwrite p) mod PIPESIZE := ch), pi_nwrite := pi_nwrite p + 1\<rparr>"

function pipewrite_loop :: "u64 \<Rightarrow> u64 \<Rightarrow> int \<Rightarrow> nat \<Rightarrow> 'a kst_scheme \<Rightarrow> (int wait \<times> 'a kst_scheme) kres" where
  "pipewrite_loop pi addr n i s =
     (if int i < n then
        if \<not> pi_readopen (pipes s pi) \<or> killed (me s) s then Ok (Done (- 1), s)
        else if pi_nwrite (pipes s pi) = pi_nread (pipes s pi) + of_nat PIPESIZE then
          Ok (Asleep i, sleep_on (ChNwrite pi) (wakeup (ChNread pi) s))
        else kbind (on_vm (copyin (pr_pagetable (myproc s)) (addr + of_nat i) 1) s) (\<lambda>r.
          if fst (fst r) = - 1 then Ok (Done (int i), wakeup (ChNread pi) (snd r))
          else pipewrite_loop pi addr n (Suc i) (upd_pipe pi (pipe_put (hd (snd (fst r)))) (snd r)))
      else Ok (Done (int i), wakeup (ChNread pi) s))"
  by pat_completeness auto

termination pipewrite_loop
  by (relation "measure (\<lambda>(pi, addr, n, i, s). nat n - i)") auto

declare pipewrite_loop.simps [simp del]

definition pipewrite :: "u64 \<Rightarrow> u64 \<Rightarrow> int \<Rightarrow> 'a kst_scheme \<Rightarrow> (int wait \<times> 'a kst_scheme) kres" where
  "pipewrite pi addr n s = pipewrite_loop pi addr n 0 s"

definition pipe_next :: "pipe \<Rightarrow> u8" where
  "pipe_next p = pi_data p (unat (pi_nread p) mod PIPESIZE)"

function piperead_loop :: "u64 \<Rightarrow> u64 \<Rightarrow> int \<Rightarrow> nat \<Rightarrow> 'a kst_scheme \<Rightarrow> (int wait \<times> 'a kst_scheme) kres" where
  "piperead_loop pi addr n i s =
     (if int i < n \<and> pi_nread (pipes s pi) \<noteq> pi_nwrite (pipes s pi) then
        kbind (on_vm (copyout (pr_pagetable (myproc s)) (addr + of_nat i) [pipe_next (pipes s pi)])
            (upd_pipe pi (\<lambda>p. p\<lparr>pi_nread := pi_nread p + 1\<rparr>) s)) (\<lambda>r.
          if fst r = - 1 then Ok (Done (int i), wakeup (ChNwrite pi) (snd r))
          else piperead_loop pi addr n (Suc i) (snd r))
      else Ok (Done (int i), wakeup (ChNwrite pi) s))"
  by pat_completeness auto

termination piperead_loop
  by (relation "measure (\<lambda>(pi, addr, n, i, s). nat n - i)") auto

declare piperead_loop.simps [simp del]

definition piperead :: "u64 \<Rightarrow> u64 \<Rightarrow> int \<Rightarrow> 'a kst_scheme \<Rightarrow> (int wait \<times> 'a kst_scheme) kres" where
  "piperead pi addr n s =
     (if pi_nread (pipes s pi) = pi_nwrite (pipes s pi) \<and> pi_writeopen (pipes s pi) then
        if killed (me s) s then Ok (Done (- 1), s) else Ok (Asleep 0, sleep_on (ChNread pi) s)
      else piperead_loop pi addr n 0 s)"

subsection \<open>The queue\<close>

definition pipe_len :: "pipe \<Rightarrow> nat" where
  "pipe_len p = unat (pi_nwrite p - pi_nread p)"

definition pipe_ok :: "pipe \<Rightarrow> bool" where
  "pipe_ok p \<longleftrightarrow> pipe_len p \<le> PIPESIZE"

definition pipe_bytes :: "pipe \<Rightarrow> u8 list" where
  "pipe_bytes p = map (\<lambda>k. pi_data p ((unat (pi_nread p) + k) mod PIPESIZE)) [0..<pipe_len p]"

definition pipe_get :: "pipe \<Rightarrow> pipe" where
  "pipe_get p = p\<lparr>pi_nread := pi_nread p + 1\<rparr>"

lemma unat_add_mod: "512 dvd (2::nat) ^ 32 \<Longrightarrow> unat (w + of_nat k :: u32) mod 512 = (unat w + k) mod 512"
  by (simp add: unat_word_ariths unsigned_of_nat take_bit_eq_mod mod_mod_cancel mod_add_right_eq)

lemma pipe_index: "unat (w + of_nat k :: u32) mod PIPESIZE = (unat w + k) mod PIPESIZE"
  unfolding PIPESIZE_def by (rule unat_add_mod) simp

lemma pipe_nwrite: "pi_nwrite p = pi_nread p + of_nat (pipe_len p)"
  by (simp add: pipe_len_def)

lemma pipe_full_iff: "pi_nwrite p = pi_nread p + of_nat PIPESIZE \<longleftrightarrow> pipe_len p = PIPESIZE"
proof
  assume "pi_nwrite p = pi_nread p + of_nat PIPESIZE"
  then show "pipe_len p = PIPESIZE" by (simp add: pipe_len_def PIPESIZE_def)
qed (metis pipe_nwrite)

lemma pipe_empty_iff: "pi_nread p = pi_nwrite p \<longleftrightarrow> pipe_len p = 0"
  by (auto simp: pipe_len_def unat_eq_0)

lemma length_pipe_bytes [simp]: "length (pipe_bytes p) = pipe_len p"
  by (simp add: pipe_bytes_def)

lemma pipe_put_ok:
  assumes "pipe_len p < PIPESIZE"
  shows "pipe_len (pipe_put c p) = Suc (pipe_len p)" "pipe_bytes (pipe_put c p) = pipe_bytes p @ [c]"
proof -
  have "pi_nwrite (pipe_put c p) - pi_nread (pipe_put c p) = of_nat (Suc (pipe_len p))"
    using pipe_nwrite [of p] by (simp add: pipe_put_def)
  then have "pipe_len (pipe_put c p) = unat (of_nat (Suc (pipe_len p)) :: u32)" by (simp only: pipe_len_def [of "pipe_put c p"])
  moreover have "unat (of_nat (Suc (pipe_len p)) :: u32) = Suc (pipe_len p)" using assms by (intro unat_of_nat_small) (simp add: PIPESIZE_def)
  ultimately show l: "pipe_len (pipe_put c p) = Suc (pipe_len p)" by (rule trans)
  have w: "unat (pi_nwrite p) mod PIPESIZE = (unat (pi_nread p) + pipe_len p) mod PIPESIZE" using pipe_nwrite [of p] pipe_index by metis
  have ne: "(unat (pi_nread p) + k) mod PIPESIZE \<noteq> (unat (pi_nread p) + pipe_len p) mod PIPESIZE" if k: "k < pipe_len p" for k
  proof
    assume "(unat (pi_nread p) + k) mod PIPESIZE = (unat (pi_nread p) + pipe_len p) mod PIPESIZE"
    then have "PIPESIZE dvd (unat (pi_nread p) + pipe_len p) - (unat (pi_nread p) + k)" using k by (intro mod_eq_dvd_iff_nat [THEN iffD1]) simp_all
    then have "PIPESIZE dvd pipe_len p - k" by simp
    then show False using k assms by (meson dvd_imp_le less_imp_diff_less not_le zero_less_diff)
  qed
  show "pipe_bytes (pipe_put c p) = pipe_bytes p @ [c]"
    unfolding pipe_bytes_def l using ne by (simp add: pipe_put_def w)
qed

lemma pipe_get_ok:
  assumes "pipe_len p \<noteq> 0"
  shows "pipe_len (pipe_get p) = pipe_len p - 1" "pipe_bytes p = pipe_next p # pipe_bytes (pipe_get p)"
proof -
  have "pi_nwrite (pipe_get p) - pi_nread (pipe_get p) = of_nat (pipe_len p) - 1" using pipe_nwrite [of p] by (simp add: pipe_get_def)
  also have "\<dots> = of_nat (pipe_len p - 1)" using assms by (simp add: of_nat_diff)
  finally have "pipe_len (pipe_get p) = unat (of_nat (pipe_len p - 1) :: u32)" by (simp add: pipe_len_def)
  moreover have "pipe_len p < 2 ^ 32" using unsigned_less [of "pi_nwrite p - pi_nread p"] by (simp add: pipe_len_def)
  ultimately show l: "pipe_len (pipe_get p) = pipe_len p - 1" by (simp add: unat_of_nat_small)
  have i: "(unat (pi_nread p + 1) + k) mod PIPESIZE = (unat (pi_nread p) + Suc k) mod PIPESIZE" for k
    using pipe_index [of "pi_nread p" 1] mod_add_left_eq [of "unat (pi_nread p + 1)" PIPESIZE k] mod_add_left_eq [of "unat (pi_nread p) + 1" PIPESIZE k] by simp
  have "[0..<pipe_len p] = 0 # map Suc [0..<pipe_len p - 1]" using assms by (cases "pipe_len p") (simp_all add: upt_conv_Cons map_Suc_upt del: upt_Suc)
  then show "pipe_bytes p = pipe_next p # pipe_bytes (pipe_get p)"
    unfolding pipe_bytes_def l by (simp add: pipe_next_def pipe_get_def i)
qed

subsection \<open>A bounded queue and its clients\<close>

locale bounded_queue =
  fixes put :: "'a \<Rightarrow> 'q \<Rightarrow> 'q" and get :: "'q \<Rightarrow> 'q" and front :: "'q \<Rightarrow> 'a" and items :: "'q \<Rightarrow> 'a list" and cap :: nat
  assumes put_law: "length (items q) < cap \<Longrightarrow> items (put x q) = items q @ [x]"
    and get_law: "items q \<noteq> [] \<Longrightarrow> items q = front q # items (get q)"
begin

lemma puts: "length (items q) + length xs \<le> cap \<Longrightarrow> items (fold put xs q) = items q @ xs"
  by (induction xs arbitrary: q) (simp_all add: put_law)

lemma gets: "k \<le> length (items q) \<Longrightarrow> items ((get ^^ k) q) = drop k (items q)"
proof (induction k arbitrary: q)
  case (Suc k)
  have g: "items q = front q # items (get q)" using Suc.prems by (intro get_law) auto
  have "items ((get ^^ k) (get q)) = drop k (items (get q))" using Suc.prems by (intro Suc.IH) (simp add: g)
  then show ?case by (simp add: funpow_swap1 g)
qed simp

end

interpretation pq: bounded_queue pipe_put pipe_get pipe_next pipe_bytes PIPESIZE
proof unfold_locales
  show "length (pipe_bytes q) < PIPESIZE \<Longrightarrow> pipe_bytes (pipe_put x q) = pipe_bytes q @ [x]" for q x by (simp add: pipe_put_ok)
  show "pipe_bytes q \<noteq> [] \<Longrightarrow> pipe_bytes q = pipe_next q # pipe_bytes (pipe_get q)" for q
    by (rule pipe_get_ok(2)) (simp flip: length_pipe_bytes)
qed

subsection \<open>Writing\<close>

definition wrote_pipe :: "u64 \<Rightarrow> u8 list \<Rightarrow> vm \<Rightarrow> 'a kst_scheme \<Rightarrow> 'a kst_scheme" where
  "wrote_pipe pi bs u s = s\<lparr>um := u, pipes := (pipes s)(pi := fold pipe_put bs (pipes s pi))\<rparr>"

definition write_result :: "u64 \<Rightarrow> nat \<Rightarrow> nat \<Rightarrow> nat \<Rightarrow> 'a kst_scheme \<Rightarrow> int wait \<times> 'a kst_scheme" where
  "write_result pi i k n s = (if k = n then (Done (int (i + n)), wakeup (ChNread pi) s)
     else (Asleep (i + k), sleep_on (ChNwrite pi) (wakeup (ChNread pi) s)))"

lemma pipewrite_loop_ok:
  assumes "user_source root lim (UserS (addr + of_nat i)) (um s) bs" "pr_pagetable (myproc s) = root" "pi_readopen (pipes s pi)"
    and "\<not> killed (me s) s" "pipe_ok (pipes s pi)" "k = min (length bs) (PIPESIZE - pipe_len (pipes s pi))"
  shows "\<exists>u. pipewrite_loop pi addr (int (i + length bs)) i s = Ok (write_result pi i k (length bs) (wrote_pipe pi (take k bs) u s)) \<and>
    user_source root lim (UserS (addr + of_nat (i + k))) u (drop k bs)"
  using assms
proof (induction bs arbitrary: i s k)
  case Nil
  then show ?case by (intro exI [of _ "um s"]) (simp add: pipewrite_loop.simps [of pi addr "int i" i s] write_result_def wrote_pipe_def)
next
  case (Cons b bs)
  let ?p = "pipes s pi"
  have lt: "int i < int (i + length (b # bs))" by simp
  show ?case
  proof (cases "pipe_len ?p = PIPESIZE")
    case True
    then have "k = 0" using Cons.prems(6) by simp
    moreover have "pi_nwrite ?p = pi_nread ?p + of_nat PIPESIZE" using True by (simp add: pipe_full_iff)
    ultimately show ?thesis using lt Cons.prems(1,3,4)
      by (intro exI [of _ "um s"]) (subst pipewrite_loop.simps, simp add: write_result_def wrote_pipe_def)
  next
    case False
    then have len: "pipe_len ?p < PIPESIZE" using Cons.prems(5) by (simp add: pipe_ok_def)
    obtain u where "either_copyin (UserS (addr + of_nat i)) 1 (um s) = Ok ((0, take 1 (b # bs)), u)"
      "user_source root lim (src_add (UserS (addr + of_nat i)) 1) u (drop 1 (b # bs))"
      using us.copyin_law [OF Cons.prems(1), of 1] by auto
    moreover have "p_pagetable (um s) = root" using Cons.prems(1) by (auto simp: user_source_def)
    ultimately have u: "copyin root (addr + of_nat i) 1 (um s) = Ok ((0, [b]), u)" "user_source root lim (UserS (addr + of_nat (Suc i))) u bs"
      by (simp_all add: algebra_simps)
    define s1 where "s1 = upd_pipe pi (pipe_put b) (s\<lparr>um := u\<rparr>)"
    have s1: "um s1 = u" "myproc s1 = myproc s" "me s1 = me s" "killed (me s) s1 = killed (me s) s" "pipes s1 pi = pipe_put b ?p"
      by (simp_all add: s1_def upd_pipe_def myproc_def me_def killed_def)
    have run: "pipewrite_loop pi addr (int (i + length (b # bs))) i s = pipewrite_loop pi addr (int (Suc i + length bs)) (Suc i) s1"
      using lt Cons.prems(2,3,4) False u(1) by (subst pipewrite_loop.simps) (simp add: pipe_full_iff on_vm_def s1_def)
    have k: "k = Suc (min (length bs) (PIPESIZE - pipe_len (pipes s1 pi)))" using Cons.prems(6) len by (simp add: s1 pipe_put_ok)
    have "\<exists>u'. pipewrite_loop pi addr (int (Suc i + length bs)) (Suc i) s1 =
        Ok (write_result pi (Suc i) (k - 1) (length bs) (wrote_pipe pi (take (k - 1) bs) u' s1)) \<and>
        user_source root lim (UserS (addr + of_nat (Suc i + (k - 1)))) u' (drop (k - 1) bs)"
      using Cons.prems(2-5) u(2) len k
      by (intro Cons.IH) (simp_all add: s1 pipe_ok_def pipe_put_ok, simp add: pipe_put_def)
    moreover have "wrote_pipe pi (take (k - 1) bs) u' s1 = wrote_pipe pi (take k (b # bs)) u' s" for u'
      using k by (simp add: wrote_pipe_def s1_def upd_pipe_def)
    ultimately show ?thesis using run k by (auto simp: write_result_def)
  qed
qed

subsection \<open>Reading\<close>

definition read_pipe :: "u64 \<Rightarrow> nat \<Rightarrow> vm \<Rightarrow> 'a kst_scheme \<Rightarrow> 'a kst_scheme" where
  "read_pipe pi k u s = s\<lparr>um := u, pipes := (pipes s)(pi := (pipe_get ^^ k) (pipes s pi))\<rparr>"

lemma piperead_loop_ok:
  assumes "user_sink lim (UserD (addr + of_nat i)) (um s) n" "p_pagetable (um s) = pr_pagetable (myproc s)"
    and "k = min n (pipe_len (pipes s pi))"
  shows "\<exists>u. piperead_loop pi addr (int (i + n)) i s = Ok (Done (int (i + k)), wakeup (ChNwrite pi) (read_pipe pi k u s)) \<and>
    user_delivered lim (UserD (addr + of_nat i)) (take k (pipe_bytes (pipes s pi))) (um s) u"
  using assms
proof (induction n arbitrary: i s k)
  case 0
  then show ?case using ud.delivered_nothing
    by (intro exI [of _ "um s"]) (simp add: piperead_loop.simps [of pi addr "int i" i s] read_pipe_def)
next
  case (Suc n)
  let ?p = "pipes s pi" let ?d = "UserD (addr + of_nat i)"
  show ?case
  proof (cases "pipe_len ?p = 0")
    case True
    then have "k = 0" "pi_nread ?p = pi_nwrite ?p" using Suc.prems(3) by (simp_all add: pipe_empty_iff)
    then show ?thesis using ud.delivered_nothing
      by (intro exI [of _ "um s"]) (subst piperead_loop.simps, simp add: read_pipe_def)
  next
    case False
    note g = pipe_get_ok [OF False]
    obtain u where u: "either_copyout ?d [pipe_next ?p] (um s) = Ok (0, u)" "user_sink lim (dst_add ?d 1) u n" "user_delivered lim ?d [pipe_next ?p] (um s) u"
      using ud.copyout_law [OF Suc.prems(1), of "[pipe_next ?p]"] by auto
    define s1 where "s1 = (upd_pipe pi pipe_get s)\<lparr>um := u\<rparr>"
    have s1: "um s1 = u" "myproc s1 = myproc s" "pipes s1 pi = pipe_get ?p" by (simp_all add: s1_def upd_pipe_def myproc_def me_def)
    have pt: "p_pagetable u = pr_pagetable (myproc s)" using u(3) Suc.prems(2) by (simp add: user_delivered_def)
    have "piperead_loop pi addr (int (i + Suc n)) i s = piperead_loop pi addr (int (Suc i + n)) (Suc i) s1"
      using False u(1) Suc.prems(2) unfolding s1_def upd_pipe_def pipe_get_def
      by (subst piperead_loop.simps) (simp add: pipe_empty_iff on_vm_def upd_pipe_def)
    moreover have k: "k = Suc (min n (pipe_len (pipes s1 pi)))" using Suc.prems(3) False g(1) by (simp add: s1)
    moreover have "\<exists>u'. piperead_loop pi addr (int (Suc i + n)) (Suc i) s1 = Ok (Done (int (Suc i + (k - 1))), wakeup (ChNwrite pi) (read_pipe pi (k - 1) u' s1)) \<and>
        user_delivered lim (UserD (addr + of_nat (Suc i))) (take (k - 1) (pipe_bytes (pipes s1 pi))) (um s1) u'"
      using u(2) pt k by (intro Suc.IH) (simp_all add: s1 algebra_simps)
    moreover have "read_pipe pi (k - 1) u' s1 = read_pipe pi k u' s" for u'
      using k by (simp add: read_pipe_def s1_def upd_pipe_def funpow_swap1)
    moreover have "user_delivered lim ?d ([pipe_next ?p] @ take (k - 1) (pipe_bytes (pipe_get ?p))) (um s) u'"
      if "user_delivered lim (UserD (addr + of_nat (Suc i))) (take (k - 1) (pipe_bytes (pipe_get ?p))) u u'" for u'
    proof (rule ud.delivered_append [OF _ u(3)])
      have "length (take (k - 1) (pipe_bytes (pipe_get ?p))) \<le> n" using k by simp
      then show "user_sink lim ?d (um s) (length [pipe_next ?p] + length (take (k - 1) (pipe_bytes (pipe_get ?p))))"
        using Suc.prems(1) unfolding user_sink_def by (auto intro: order_trans)
      show "user_delivered lim (dst_add ?d (length [pipe_next ?p])) (take (k - 1) (pipe_bytes (pipe_get ?p))) u u'" using that by (simp add: algebra_simps)
    qed
    moreover have "take k (pipe_bytes ?p) = [pipe_next ?p] @ take (k - 1) (pipe_bytes (pipe_get ?p))" using k by (subst g(2)) simp
    ultimately show ?thesis by (auto simp: s1)
  qed
qed

subsection \<open>The theorems\<close>

lemma wrote_pipe_fields:
  "pipes (wrote_pipe pi bs u s) pi = fold pipe_put bs (pipes s pi)" "procs (wrote_pipe pi bs u s) = procs s" "cur (wrote_pipe pi bs u s) = cur s"
  "me (wrote_pipe pi bs u s) = me s" "um (wrote_pipe pi bs u s) = u"
  by (simp_all add: wrote_pipe_def me_def)

lemma read_pipe_fields:
  "pipes (read_pipe pi k u s) pi = (pipe_get ^^ k) (pipes s pi)" "procs (read_pipe pi k u s) = procs s" "cur (read_pipe pi k u s) = cur s"
  "um (read_pipe pi k u s) = u"
  by (simp_all add: read_pipe_def)

lemma sleep_on_fields [simp]:
  "procs (sleep_on ch s) = (procs s)(me s := (procs s (me s))\<lparr>pr_chan := ch, pr_state := SLEEPING\<rparr>)" "cur (sleep_on ch s) = cur s"
  "pipes (sleep_on ch s) = pipes s" "um (sleep_on ch s) = um s" "me (sleep_on ch s) = me s"
  by (simp_all add: sleep_on_def)

text \<open>
  C27: A write to a pipe appends to its queue. For a readable source range and an open read end, \<^verbatim>\<open>pipewrite\<close> appends as many of the bytes as fit, in
  order, whatever the values of the wrapping 32-bit counters; it returns the full count if all fit, and otherwise goes to sleep on
  \<^verbatim>\<open>nwrite\<close> having appended exactly the bytes that fit. Either way every process asleep on \<^verbatim>\<open>nread\<close> has been woken.
\<close>

theorem pipewrite_correct:
  assumes src: "user_source root lim (UserS addr) (um s) bs" and root: "pr_pagetable (myproc s) = root" and o: "pi_readopen (pipes s pi)"
    and c: "cur s = Some i" "i < NPROC" "\<not> killed i s" and ok: "pipe_ok (pipes s pi)"
    and k: "k = min (length bs) (PIPESIZE - length (pipe_bytes (pipes s pi)))"
  shows "\<exists>s'. pipewrite pi addr (int (length bs)) s = Ok (if k = length bs then Done (int k) else Asleep k, s') \<and>
    pipe_bytes (pipes s' pi) = pipe_bytes (pipes s pi) @ take k bs \<and> pipe_ok (pipes s' pi) \<and>
    (k < length bs \<longrightarrow> pr_state (procs s' i) = SLEEPING \<and> pr_chan (procs s' i) = ChNwrite pi) \<and>
    (\<forall>j < NPROC. j \<noteq> i \<longrightarrow> \<not> (pr_state (procs s' j) = SLEEPING \<and> pr_chan (procs s' j) = ChNread pi))"
proof -
  have me: "me s = i" using c(1) by (simp add: me_def)
  have k': "k = min (length bs) (PIPESIZE - pipe_len (pipes s pi))" using k by simp
  have src': "user_source root lim (UserS (addr + of_nat 0)) (um s) bs" "\<not> killed (me s) s" using src c(3) me by simp_all
  obtain u where run: "pipewrite_loop pi addr (int (0 + length bs)) 0 s = Ok (write_result pi 0 k (length bs) (wrote_pipe pi (take k bs) u s))"
    using pipewrite_loop_ok [OF src'(1) root o src'(2) ok k'] by blast
  let ?s1 = "wrote_pipe pi (take k bs) u s" let ?s' = "snd (write_result pi 0 k (length bs) ?s1)"
  have "length (pipe_bytes (pipes s pi)) + length (take k bs) \<le> PIPESIZE" using k' ok by (simp add: pipe_ok_def)
  note b = pq.puts [OF this]
  have p: "pipes ?s' pi = fold pipe_put (take k bs) (pipes s pi)" by (simp add: write_result_def wrote_pipe_fields)
  have len: "pipe_len (pipes ?s' pi) \<le> PIPESIZE" using arg_cong [OF b, of length] k' ok unfolding p by (simp add: pipe_ok_def)
  have "\<not> (pr_state (procs ?s' j) = SLEEPING \<and> pr_chan (procs ?s' j) = ChNread pi)" if "j < NPROC" "j \<noteq> i" for j
    using that c(1) me by (auto simp: write_result_def wrote_pipe_fields)
  moreover have "k < length bs \<Longrightarrow> pr_state (procs ?s' i) = SLEEPING \<and> pr_chan (procs ?s' i) = ChNwrite pi"
    using me by (simp add: write_result_def wrote_pipe_fields)
  moreover have "pipewrite pi addr (int (length bs)) s = Ok (if k = length bs then Done (int k) else Asleep k, ?s')"
    using run by (simp add: pipewrite_def write_result_def)
  ultimately show ?thesis using b p len by (intro exI [of _ ?s']) (simp add: pipe_ok_def)
qed

text \<open>
  C28: A read from a pipe takes from the front of its queue. \<^verbatim>\<open>piperead\<close> of a pipe that has bytes, or whose write end is closed, returns the number of bytes
  available, at most the number asked for, with exactly those bytes delivered to user memory and removed from the queue, and wakes every process
  asleep on \<^verbatim>\<open>nwrite\<close>; from an empty pipe with its write end open it goes to sleep on \<^verbatim>\<open>nread\<close>, with the queue unchanged.
\<close>

theorem piperead_correct:
  assumes d: "user_sink lim (UserD addr) (um s) n" and root: "p_pagetable (um s) = pr_pagetable (myproc s)"
    and c: "cur s = Some i" "i < NPROC" "\<not> killed i s" and k: "k = min n (length (pipe_bytes (pipes s pi)))"
  shows "if pipe_bytes (pipes s pi) = [] \<and> pi_writeopen (pipes s pi)
    then \<exists>s'. piperead pi addr (int n) s = Ok (Asleep 0, s') \<and> pipes s' = pipes s \<and> pr_state (procs s' i) = SLEEPING \<and> pr_chan (procs s' i) = ChNread pi
    else \<exists>s'. piperead pi addr (int n) s = Ok (Done (int k), s') \<and> pipe_bytes (pipes s' pi) = drop k (pipe_bytes (pipes s pi)) \<and>
      (\<forall>v < lim. ubyte (mem (um s')) (p_pagetable (um s)) v =
        (if unat addr \<le> unat v \<and> unat v < unat addr + k then pipe_bytes (pipes s pi) ! (unat v - unat addr) else ubyte (mem (um s)) (p_pagetable (um s)) v)) \<and>
      (\<forall>j < NPROC. j \<noteq> i \<longrightarrow> \<not> (pr_state (procs s' j) = SLEEPING \<and> pr_chan (procs s' j) = ChNwrite pi))"
proof -
  have me: "me s = i" using c(1) by (simp add: me_def)
  have e: "(pi_nread (pipes s pi) = pi_nwrite (pipes s pi)) = (pipe_bytes (pipes s pi) = [])" by (simp add: pipe_empty_iff flip: length_0_conv)
  show ?thesis
  proof (cases "pipe_bytes (pipes s pi) = [] \<and> pi_writeopen (pipes s pi)")
    case True
    then show ?thesis using e c(3) me by (simp add: piperead_def)
  next
    case False
    have k': "k = min n (pipe_len (pipes s pi))" "k \<le> length (pipe_bytes (pipes s pi))" using k by simp_all
    have "user_sink lim (UserD (addr + of_nat 0)) (um s) n" using d by simp
    from piperead_loop_ok [OF this root k'(1)] obtain u
      where u: "piperead_loop pi addr (int n) 0 s = Ok (Done (int k), wakeup (ChNwrite pi) (read_pipe pi k u s))"
        "user_delivered lim (UserD addr) (take k (pipe_bytes (pipes s pi))) (um s) u" by auto
    let ?s' = "wakeup (ChNwrite pi) (read_pipe pi k u s)"
    have "piperead pi addr (int n) s = Ok (Done (int k), ?s')" using u(1) False e by (auto simp: piperead_def)
    moreover have "pipe_bytes (pipes ?s' pi) = drop k (pipe_bytes (pipes s pi))" using pq.gets [OF k'(2)] by (simp add: read_pipe_fields)
    moreover have "\<not> (pr_state (procs ?s' j) = SLEEPING \<and> pr_chan (procs ?s' j) = ChNwrite pi)" if "j < NPROC" "j \<noteq> i" for j
      using that c(1) by (auto simp: read_pipe_fields)
    moreover have "ubyte (mem (um ?s')) (p_pagetable (um s)) v =
        (if unat addr \<le> unat v \<and> unat v < unat addr + k then pipe_bytes (pipes s pi) ! (unat v - unat addr) else ubyte (mem (um s)) (p_pagetable (um s)) v)"
      if "v < lim" for v
      using u(2) that k'(2) by (auto simp: user_delivered_def written_def read_pipe_fields min_def)
    ultimately show ?thesis using False by (auto simp del: wakeup_fields)
  qed
qed

subsection \<open>No wakeup is lost\<close>

text \<open>
  Sleepers on a pipe have a reason to sleep: \<open>pipe_inv\<close>. It is kept by every call on the pipe, in any order and by any processes, whatever
  becomes of their user addresses.
\<close>

definition pipe_inv :: "u64 \<Rightarrow> 'a kst_scheme \<Rightarrow> bool" where
  "pipe_inv pi s \<longleftrightarrow> pipe_ok (pipes s pi) \<and>
     (\<forall>j < NPROC. pr_state (procs s j) = SLEEPING \<and> pr_chan (procs s j) = ChNread pi \<longrightarrow> pipe_bytes (pipes s pi) = [] \<and> pi_writeopen (pipes s pi)) \<and>
     (\<forall>j < NPROC. pr_state (procs s j) = SLEEPING \<and> pr_chan (procs s j) = ChNwrite pi \<longrightarrow>
        length (pipe_bytes (pipes s pi)) = PIPESIZE \<and> pi_readopen (pipes s pi))"

text \<open>One call on the pipe by a process that is not asleep; a write may be the continuation of one that slept after \<open>i\<close> bytes.\<close>

inductive pipe_step :: "u64 \<Rightarrow> 'a kst_scheme \<Rightarrow> 'a kst_scheme \<Rightarrow> bool" for pi where
  step_write: "j < NPROC \<Longrightarrow> pr_state (procs s j) \<noteq> SLEEPING \<Longrightarrow> pipewrite_loop pi addr n i (s\<lparr>cur := Some j\<rparr>) = Ok (r, s') \<Longrightarrow> pipe_step pi s s'"
| step_read: "j < NPROC \<Longrightarrow> pr_state (procs s j) \<noteq> SLEEPING \<Longrightarrow> piperead pi addr n (s\<lparr>cur := Some j\<rparr>) = Ok (r, s') \<Longrightarrow> pipe_step pi s s'"
| step_close: "j < NPROC \<Longrightarrow> pr_state (procs s j) \<noteq> SLEEPING \<Longrightarrow> pipeclose pi w (s\<lparr>cur := Some j\<rparr>) = Ok ((), s') \<Longrightarrow> pipe_step pi s s'"
| step_kill: "kkill pid s = (r, s') \<Longrightarrow> pipe_step pi s s'"

text \<open>What a call leaves, whatever the user addresses are.\<close>

definition same_ends :: "u64 \<Rightarrow> 'a kst_scheme \<Rightarrow> 'a kst_scheme \<Rightarrow> bool" where
  "same_ends pi s s1 \<longleftrightarrow> procs s1 = procs s \<and> cur s1 = cur s \<and> pi_readopen (pipes s1 pi) = pi_readopen (pipes s pi) \<and>
     pi_writeopen (pipes s1 pi) = pi_writeopen (pipes s pi) \<and> pipe_ok (pipes s1 pi)"

lemma pipewrite_loop_any:
  "pipewrite_loop pi addr n i s = Ok (r, s') \<Longrightarrow> pipe_ok (pipes s pi) \<Longrightarrow>
   s' = s \<and> (\<not> pi_readopen (pipes s pi) \<or> killed (me s) s) \<or> (\<exists>s1. same_ends pi s s1 \<and> pipe_len (pipes s pi) \<le> pipe_len (pipes s1 pi) \<and> (s' = wakeup (ChNread pi) s1 \<or>
     s' = sleep_on (ChNwrite pi) (wakeup (ChNread pi) s1) \<and> pipe_len (pipes s1 pi) = PIPESIZE \<and> pi_readopen (pipes s1 pi)))"
proof (induction pi addr n i s arbitrary: r s' rule: pipewrite_loop.induct)
  case (1 pi addr n i s)
  note run = "1.prems"(1) [unfolded pipewrite_loop.simps [of pi addr n i s]]
  have refl: "same_ends pi s s" using "1.prems"(2) by (simp add: same_ends_def)
  consider "\<not> int i < n" | "int i < n" "\<not> pi_readopen (pipes s pi) \<or> killed (me s) s"
    | "int i < n" "pi_readopen (pipes s pi) \<and> \<not> killed (me s) s" "pipe_len (pipes s pi) = PIPESIZE"
    | (go) "int i < n" "pi_readopen (pipes s pi) \<and> \<not> killed (me s) s" "pipe_len (pipes s pi) \<noteq> PIPESIZE" by blast
  then show ?case
  proof cases
    case go
    then have go': "\<not> (\<not> pi_readopen (pipes s pi) \<or> killed (me s) s)" "pi_nwrite (pipes s pi) \<noteq> pi_nread (pipes s pi) + of_nat PIPESIZE"
      by (simp_all add: pipe_full_iff)
    obtain x where x: "on_vm (copyin (pr_pagetable (myproc s)) (addr + of_nat i) 1) s = Ok x"
      "(if fst (fst x) = - 1 then Ok (Done (int i), wakeup (ChNread pi) (snd x))
        else pipewrite_loop pi addr n (Suc i) (upd_pipe pi (pipe_put (hd (snd (fst x)))) (snd x))) = Ok (r, s')"
      using run go(1) go' by auto
    obtain u where s2: "snd x = s\<lparr>um := u\<rparr>" using x(1) by (auto simp: on_vm_def)
    show ?thesis
    proof (cases "fst (fst x) = - 1")
      case True
      then show ?thesis using x(2) s2 refl by (intro disjI2 exI [of _ "s\<lparr>um := u\<rparr>"]) (auto simp: same_ends_def)
    next
      case False
      let ?s2 = "upd_pipe pi (pipe_put (hd (snd (fst x)))) (snd x)"
      have len: "pipe_len (pipes s pi) < PIPESIZE" using go(3) "1.prems"(2) by (simp add: pipe_ok_def)
      have e: "same_ends pi s ?s2"
        using pipe_put_ok(1) [OF len] len by (simp add: same_ends_def s2 upd_pipe_def pipe_ok_def, simp add: pipe_put_def)
      then have ok2: "pipe_ok (pipes ?s2 pi)" by (simp add: same_ends_def)
      have k: "\<not> (\<not> pi_readopen (pipes ?s2 pi) \<or> killed (me ?s2) ?s2)" using go(2) e
        by (simp add: s2 upd_pipe_def killed_def me_def same_ends_def)
      have l2: "pipe_len (pipes s pi) \<le> pipe_len (pipes ?s2 pi)" using pipe_put_ok(1) [OF len] by (simp add: s2 upd_pipe_def)
      have tr: "same_ends pi ?s2 s1 \<Longrightarrow> same_ends pi s s1" "pipe_len (pipes ?s2 pi) \<le> pipe_len (pipes s1 pi) \<Longrightarrow> pipe_len (pipes s pi) \<le> pipe_len (pipes s1 pi)"
        for s1 using e l2 by (auto simp: same_ends_def)
      have "pipewrite_loop pi addr n (Suc i) ?s2 = Ok (r, s')" using x(2) False by simp
      from "1.IH" [OF go(1) go' x(1) False this ok2] k tr show ?thesis by blast
    qed
  qed (use run refl in \<open>auto simp: pipe_full_iff same_ends_def\<close>)
qed

lemma pipe_get_same: "pi_readopen (pipe_get p) = pi_readopen p" "pi_writeopen (pipe_get p) = pi_writeopen p"
  by (simp_all add: pipe_get_def)

lemma piperead_loop_any:
  "piperead_loop pi addr n i s = Ok (r, s') \<Longrightarrow> pipe_ok (pipes s pi) \<Longrightarrow>
   \<exists>s1. same_ends pi s s1 \<and> pipe_len (pipes s1 pi) \<le> pipe_len (pipes s pi) \<and> s' = wakeup (ChNwrite pi) s1"
proof (induction pi addr n i s arbitrary: r s' rule: piperead_loop.induct)
  case (1 pi addr n i s)
  note run = "1.prems"(1) [unfolded piperead_loop.simps [of pi addr n i s]]
  show ?case
  proof (cases "int i < n \<and> pi_nread (pipes s pi) \<noteq> pi_nwrite (pipes s pi)")
    case False
    then show ?thesis using run "1.prems"(2) by (intro exI [of _ s]) (auto simp: same_ends_def split: if_splits)
  next
    case True
    then have ne: "pipe_len (pipes s pi) \<noteq> 0" by (simp add: pipe_empty_iff)
    obtain x where x: "on_vm (copyout (pr_pagetable (myproc s)) (addr + of_nat i) [pipe_next (pipes s pi)])
          (upd_pipe pi (\<lambda>p. p\<lparr>pi_nread := pi_nread p + 1\<rparr>) s) = Ok x"
      "(if fst x = - 1 then Ok (Done (int i), wakeup (ChNwrite pi) (snd x)) else piperead_loop pi addr n (Suc i) (snd x)) = Ok (r, s')"
      using run True by auto
    obtain u where u: "snd x = (upd_pipe pi pipe_get s)\<lparr>um := u\<rparr>" using x(1) by (auto simp: on_vm_def pipe_get_def upd_pipe_def)
    have e: "same_ends pi s (snd x)" "pipe_len (pipes (snd x) pi) \<le> pipe_len (pipes s pi)" "pipe_ok (pipes (snd x) pi)"
      using "1.prems"(2) pipe_get_ok(1) [OF ne] by (simp_all add: u upd_pipe_def same_ends_def pipe_ok_def pipe_get_same)
    show ?thesis
    proof (cases "fst x = - 1")
      case True
      then show ?thesis using x(2) e by auto
    next
      case False
      then have "piperead_loop pi addr n (Suc i) (snd x) = Ok (r, s')" using x(2) by simp
      from "1.IH" [OF True x(1) False this e(3)] e show ?thesis by (fastforce simp: same_ends_def)
    qed
  qed
qed

lemma pipe_bytes_empty: "pipe_bytes p = [] \<longleftrightarrow> pipe_len p = 0"
  by (simp flip: length_0_conv)

lemma write_keeps_inv:
  assumes inv: "pipe_inv pi s" and j: "j < NPROC" "pr_state (procs s j) \<noteq> SLEEPING"
    and run: "pipewrite_loop pi addr n i (s\<lparr>cur := Some j\<rparr>) = Ok (r, s')"
  shows "pipe_inv pi s'"
proof -
  have ok: "pipe_ok (pipes (s\<lparr>cur := Some j\<rparr>) pi)" using inv by (simp add: pipe_inv_def)
  consider "s' = s\<lparr>cur := Some j\<rparr>"
    | (w) s1 where "same_ends pi (s\<lparr>cur := Some j\<rparr>) s1" "pipe_len (pipes s pi) \<le> pipe_len (pipes s1 pi)" "s' = wakeup (ChNread pi) s1"
    | (z) s1 where "same_ends pi (s\<lparr>cur := Some j\<rparr>) s1" "s' = sleep_on (ChNwrite pi) (wakeup (ChNread pi) s1)" "pipe_len (pipes s1 pi) = PIPESIZE"
        "pi_readopen (pipes s1 pi)"
    using pipewrite_loop_any [OF run ok] by auto
  then show ?thesis
  proof cases
    case w
    then show ?thesis using inv j by (auto simp: pipe_inv_def same_ends_def pipe_ok_def)
  next
    case z
    then have "me s1 = j" by (simp add: same_ends_def me_def)
    then show ?thesis using z inv j by (auto simp: pipe_inv_def same_ends_def)
  qed (use inv in \<open>simp add: pipe_inv_def\<close>)
qed

lemma read_keeps_inv:
  assumes inv: "pipe_inv pi s" and j: "j < NPROC" "pr_state (procs s j) \<noteq> SLEEPING" and run: "piperead pi addr n (s\<lparr>cur := Some j\<rparr>) = Ok (r, s')"
  shows "pipe_inv pi s'"
proof -
  have ok: "pipe_ok (pipes (s\<lparr>cur := Some j\<rparr>) pi)" using inv by (simp add: pipe_inv_def)
  consider "s' = s\<lparr>cur := Some j\<rparr>"
    | (z) "s' = sleep_on (ChNread pi) (s\<lparr>cur := Some j\<rparr>)" "pipe_len (pipes s pi) = 0" "pi_writeopen (pipes s pi)"
    | (r) s1 where "same_ends pi (s\<lparr>cur := Some j\<rparr>) s1" "pipe_len (pipes s1 pi) \<le> pipe_len (pipes s pi)" "s' = wakeup (ChNwrite pi) s1"
    using run piperead_loop_any [of pi addr n 0 "s\<lparr>cur := Some j\<rparr>" r s', OF _ ok] by (auto simp: piperead_def pipe_empty_iff split: if_splits)
  then show ?thesis
  proof cases
    case z
    then show ?thesis using inv j by (auto simp: pipe_inv_def me_def pipe_bytes_empty)
  next
    case r
    then show ?thesis using inv j by (auto simp: pipe_inv_def same_ends_def pipe_bytes_empty)
  qed (use inv in \<open>simp add: pipe_inv_def\<close>)
qed

lemma close_keeps_inv:
  assumes inv: "pipe_inv pi s" and j: "j < NPROC" "pr_state (procs s j) \<noteq> SLEEPING" and run: "pipeclose pi w (s\<lparr>cur := Some j\<rparr>) = Ok ((), s')"
  shows "pipe_inv pi s'"
proof -
  define t where "t = (if w then wakeup (ChNread pi) (upd_pipe pi (\<lambda>p. p\<lparr>pi_writeopen := False\<rparr>) (s\<lparr>cur := Some j\<rparr>))
    else wakeup (ChNwrite pi) (upd_pipe pi (\<lambda>p. p\<lparr>pi_readopen := False\<rparr>) (s\<lparr>cur := Some j\<rparr>)))"
  have len: "pipe_len (p\<lparr>pi_writeopen := b\<rparr>) = pipe_len p" "pipe_bytes (p\<lparr>pi_writeopen := b\<rparr>) = pipe_bytes p"
    "pipe_len (p\<lparr>pi_readopen := b\<rparr>) = pipe_len p" "pipe_bytes (p\<lparr>pi_readopen := b\<rparr>) = pipe_bytes p" for p b
    by (simp_all add: pipe_len_def pipe_bytes_def)
  have "pipe_inv pi t" using inv j unfolding t_def by (auto simp: pipe_inv_def upd_pipe_def pipe_ok_def len)
  moreover have "s' = t \<or> (\<exists>u. s' = t\<lparr>um := u\<rparr>)" using run unfolding pipeclose_def Let_def t_def [symmetric] by (auto simp: on_vm_def split: if_splits)
  ultimately show ?thesis by (auto simp: pipe_inv_def)
qed

lemma kkill_loop_procs:
  "kkill_loop k i pid s = (r, s') \<Longrightarrow> pipes s' = pipes s \<and> (\<forall>j. pr_state (procs s' j) = SLEEPING \<longrightarrow> pr_state (procs s j) = SLEEPING \<and> pr_chan (procs s' j) = pr_chan (procs s j))"
  by (induction k arbitrary: i) (auto split: if_splits)


text \<open>
  C40: A failed delivery loses a byte. If the first byte of a read cannot be copied to user memory, \<^verbatim>\<open>piperead\<close> returns 0, as it does at end of
  file, but the byte has been taken from the queue and no later read returns it.
\<close>

theorem piperead_loses_byte:
  assumes b: "pipe_bytes (pipes s pi) = b # bs" and n: "0 < n" and fail: "copyout (pr_pagetable (myproc s)) addr [b] (um s) = Ok (- 1, u)"
  shows "\<exists>s'. piperead pi addr n s = Ok (Done 0, s') \<and> pipe_bytes (pipes s' pi) = bs"
proof -
  have ne: "pipe_len (pipes s pi) \<noteq> 0" using b by (metis list.distinct(1) pipe_bytes_empty)
  have g: "pipe_next (pipes s pi) = b" "pipe_bytes (pipe_get (pipes s pi)) = bs" using pipe_get_ok(2) [OF ne] b by simp_all
  let ?s1 = "(upd_pipe pi pipe_get s)\<lparr>um := u\<rparr>"
  have "piperead pi addr n s = Ok (Done 0, wakeup (ChNwrite pi) ?s1)"
    using ne n fail g(1) by (simp add: piperead_def pipe_empty_iff) (subst piperead_loop.simps, simp add: pipe_empty_iff on_vm_def upd_pipe_def pipe_get_def)
  then show ?thesis using g(2) by (simp add: upd_pipe_def)
qed

subsection \<open>Examples\<close>

definition no_proc :: proc where
  "no_proc = \<lparr>pr_state = UNUSED, pr_chan = NoChan, pr_killed = False, pr_xstate = 0, pr_pid = 0, pr_parent = None, pr_kstack = 0, pr_sz = 0,
     pr_pagetable = 0, pr_trapframe = 0, pr_context = \<lparr>ctx_ra = 0, ctx_sp = 0, ctx_s = (\<lambda>_. 0)\<rparr>, pr_ofile = (\<lambda>_. None), pr_cwd = None, pr_name = (\<lambda>_. 0)\<rparr>"

definition no_file :: ofile where
  "no_file = \<lparr>f_type = FD_NONE, f_ref = 0, f_readable = False, f_writable = False, f_pipe = 0, f_ip = None, f_off = 0, f_major = 0\<rparr>"

definition no_pipe :: pipe where
  "no_pipe = \<lparr>pi_data = (\<lambda>_. 0), pi_nread = - 1, pi_nwrite = - 1, pi_readopen = True, pi_writeopen = True\<rparr>"

text \<open>A kernel with the process table \<open>t\<close>, process 1 running, every pipe empty with its counters about to wrap.\<close>

definition demo_kst :: "vm \<Rightarrow> (nat \<Rightarrow> proc) \<Rightarrow> kst" where
  "demo_kst u t = fsst.extend (file_boot u) (kst.fields t (Some 1) (Some 0) 3 0x80007000 0x80001234 (\<lambda>_. no_file) (\<lambda>_. no_pipe)
     \<lparr>c_buf = (\<lambda>_. 0), c_r = 0, c_w = 0, c_e = 0\<rparr> 0 False [])"

definition demo_procs :: "nat \<Rightarrow> proc" where
  "demo_procs i = (if i = 1 then no_proc\<lparr>pr_state := RUNNING, pr_pid := 2, pr_pagetable := 0x80000000, pr_sz := 0x4000\<rparr>
     else if i = 2 then no_proc\<lparr>pr_state := SLEEPING, pr_chan := ChNread 0x87000000, pr_pid := 3\<rparr> else no_proc)"

lemma demo_kst_fields [simp]:
  "um (demo_kst u t) = u" "procs (demo_kst u t) = t" "cur (demo_kst u t) = Some 1" "pipes (demo_kst u t) = (\<lambda>_. no_pipe)" "me (demo_kst u t) = 1"
  "myproc (demo_kst u t) = t 1" "ftable (demo_kst u t) = (\<lambda>_. no_file)"
  by (simp_all add: demo_kst_def fsst.defs kst.defs file_boot_fields me_def myproc_def)

lemma no_pipe_bytes [simp]: "pipe_bytes no_pipe = []" "pipe_ok no_pipe" "pi_readopen no_pipe" "pi_writeopen no_pipe" "pipe_len no_pipe = 0"
  by (simp_all add: pipe_bytes_def pipe_ok_def pipe_len_def no_pipe_def)

theorem pipewrite_correct_witness:
  "\<exists>u s'. pipewrite 0x87000000 0x1FFE 2 (demo_kst u demo_procs) = Ok (Done 2, s') \<and>
     pipe_bytes (pipes s' 0x87000000) = [ubyte (mem u) 0x80000000 0x1FFE, ubyte (mem u) 0x80000000 0x1FFF] \<and>
     \<not> (pr_state (procs s' 2) = SLEEPING \<and> pr_chan (procs s' 2) = ChNread 0x87000000)"
proof -
  obtain u :: vm and ps where u: "uvm_ok u 0x80000000 ps 0x4000" "p_pagetable u = 0x80000000" "p_sz u = 0x4000"
    "\<forall>va < 0x4000. unat (0x1000 :: u64) \<le> unat va \<and> unat va < 0x2000 \<longrightarrow> write_ok (leaf (mem u) 0x80000000 va)"
    by (rule demo_mapped)
  let ?bs = "ubytes (mem u) 0x80000000 0x1FFE 2" let ?s = "demo_kst u demo_procs"
  have "user_source 0x80000000 0x4000 (UserS 0x1FFE) u ?bs"
    unfolding user_source_def using u write_user_ok by (intro exI [of _ "0x1FFE"] exI [of _ ps]) simp
  then have src: "user_source 0x80000000 0x4000 (UserS 0x1FFE) (um ?s) ?bs" by simp
  have b: "?bs = [ubyte (mem u) 0x80000000 0x1FFE, ubyte (mem u) 0x80000000 0x1FFF]" by (simp add: ubytes_def upt_rec)
  have pre: "pr_pagetable (myproc ?s) = 0x80000000" "pi_readopen (pipes ?s 0x87000000)" "cur ?s = Some 1" "1 < NPROC" "\<not> killed 1 ?s" "pipe_ok (pipes ?s 0x87000000)"
    "2 = min (length ?bs) (PIPESIZE - length (pipe_bytes (pipes ?s 0x87000000)))"
    by (simp_all add: demo_procs_def NPROC_def killed_def no_proc_def PIPESIZE_def)
  obtain s' where s': "pipewrite 0x87000000 0x1FFE 2 ?s = Ok (Done 2, s')" "pipe_bytes (pipes s' 0x87000000) = ?bs"
    "\<forall>j < NPROC. j \<noteq> 1 \<longrightarrow> \<not> (pr_state (procs s' j) = SLEEPING \<and> pr_chan (procs s' j) = ChNread 0x87000000)"
    using pipewrite_correct [OF src pre] by auto
  have "2 < NPROC" by (simp add: NPROC_def)
  then show ?thesis using s' b by (intro exI [of _ u] exI [of _ s']) simp
qed

theorem piperead_correct_witness:
  "\<exists>(s :: kst) s'. pipe_bytes (pipes s 0x87000000) = [7, 9] \<and> piperead 0x87000000 0x1FFE 2 s = Ok (Done 2, s') \<and> pipe_bytes (pipes s' 0x87000000) = [] \<and>
     ubyte (mem (um s')) 0x80000000 0x1FFF = 9"
proof -
  obtain u :: vm and ps where u: "uvm_ok u 0x80000000 ps 0x4000" "p_pagetable u = 0x80000000" "p_sz u = 0x4000"
    "\<forall>va < 0x4000. unat (0x1000 :: u64) \<le> unat va \<and> unat va < 0x2000 \<longrightarrow> write_ok (leaf (mem u) 0x80000000 va)"
    by (rule demo_mapped)
  let ?s = "upd_pipe 0x87000000 (fold pipe_put [7, 9]) (demo_kst u demo_procs)"
  have b: "pipe_bytes (pipes ?s 0x87000000) = [7, 9]"
    using pq.puts [of no_pipe "[7, 9]"] by (simp add: upd_pipe_def PIPESIZE_def)
  have f: "um ?s = u" "myproc ?s = demo_procs 1" "cur ?s = Some 1" "procs ?s = demo_procs" by (simp_all add: upd_pipe_def myproc_def me_def)
  have "user_sink 0x4000 (UserD 0x1FFE) u 2" unfolding user_sink_def using u by (intro exI [of _ "0x1FFE"] exI [of _ ps]) simp
  then have d: "user_sink 0x4000 (UserD 0x1FFE) (um ?s) 2" by (simp only: f)
  have pre: "p_pagetable (um ?s) = pr_pagetable (myproc ?s)" "1 < NPROC" "\<not> killed 1 ?s" "2 = min 2 (length (pipe_bytes (pipes ?s 0x87000000)))"
    unfolding killed_def f b by (simp_all add: u(2) demo_procs_def NPROC_def no_proc_def)
  have "\<exists>s'. piperead 0x87000000 0x1FFE (int 2) ?s = Ok (Done (int 2), s') \<and> pipe_bytes (pipes s' 0x87000000) = drop 2 [7, 9] \<and>
      (\<forall>v < 0x4000. ubyte (mem (um s')) 0x80000000 v = (if unat (0x1FFE :: u64) \<le> unat v \<and> unat v < unat (0x1FFE :: u64) + 2
         then [7, 9] ! (unat v - unat (0x1FFE :: u64)) else ubyte (mem u) 0x80000000 v))"
    using piperead_correct [OF d pre(1) f(3) pre(2-4)] unfolding b f u(2) by auto
  then obtain s' where s': "piperead 0x87000000 0x1FFE 2 ?s = Ok (Done 2, s')" "pipe_bytes (pipes s' 0x87000000) = []"
    "ubyte (mem (um s')) 0x80000000 0x1FFF = 9" by auto
  then show ?thesis using b by (intro exI [of _ ?s] exI [of _ s']) simp
qed


theorem piperead_loses_byte_witness:
  "\<exists>s s'. pipe_bytes (pipes (s :: kst) 0x87000000) = [7, 9] \<and> piperead 0x87000000 MAXVA 2 s = Ok (Done 0, s') \<and> pipe_bytes (pipes s' 0x87000000) = [9]"
proof -
  let ?s = "upd_pipe 0x87000000 (fold pipe_put [7, 9]) (demo_kst demo_vm demo_procs)"
  have b: "pipe_bytes (pipes ?s 0x87000000) = [7, 9]"
    using pq.puts [of no_pipe "[7, 9]"] by (simp add: upd_pipe_def PIPESIZE_def)
  have "copyout (pr_pagetable (myproc ?s)) MAXVA [7] (um ?s) = Ok (- 1, um ?s)"
    by (subst copyout.simps) (simp add: PGROUNDDOWN_def)
  then show ?thesis using piperead_loses_byte [OF b, of 2 MAXVA "um ?s"] b by auto
qed

end
