(* ===== verification/Console.thy ===== *)
theory Console
  imports Pipe
begin

section \<open>The console: kernel/console.c, kernel/uart.c, procdump of kernel/proc.c\<close>

text \<open>
  The UART driver sends bytes to the output (\<open>uart_out\<close>) and hands received ones to the console, which edits a line, and gives whole lines to readers.
  The registers of the device are outside: that the transmitter is idle, and the bytes that arrived, are arguments of the interrupt handler; \<^verbatim>\<open>uartputc_sync\<close>
  waits for the transmitter and then sends. A console read or write that has to wait returns \<open>Asleep\<close> with the number of bytes done.
\<close>

unbundle bit_operations_syntax

definition str :: "string \<Rightarrow> u8 list" where
  "str s = map (\<lambda>c. of_nat (of_char c)) s"

definition emit :: "u8 list \<Rightarrow> 'a kst_scheme \<Rightarrow> 'a kst_scheme" where
  "emit bs s = s\<lparr>uart_out := uart_out s @ bs\<rparr>"

definition kprintf :: "string \<Rightarrow> varg list \<Rightarrow> 'a kst_scheme \<Rightarrow> 'a kst_scheme" where
  "kprintf fmt args s = emit (printf (str fmt) args) s"

subsection \<open>uart.c\<close>

definition IER :: nat where "IER = 1"
definition FCR :: nat where "FCR = 2"
definition LCR :: nat where "LCR = 3"

text \<open>The register writes of \<^verbatim>\<open>uartinit\<close>, in order.\<close>

definition uartinit :: "(nat \<times> u8) list" where
  "uartinit = [(IER, 0x00), (LCR, push_bit 7 1), (0, 0x03), (1, 0x00), (LCR, 3), (FCR, 1 OR push_bit 1 3), (IER, push_bit 1 1 OR 1)]"

function uartwrite :: "u8 list \<Rightarrow> nat \<Rightarrow> 'a kst_scheme \<Rightarrow> unit wait \<times> 'a kst_scheme" where
  "uartwrite buf i s =
     (if i < length buf then
        if tx_busy s then (Asleep i, sleep_on ChTx s)
        else uartwrite buf (Suc i) ((emit [buf ! i] s)\<lparr>tx_busy := True\<rparr>)
      else (Done (), s))"
  by pat_completeness auto

termination uartwrite
  by (relation "measure (\<lambda>(buf, i, s). length buf - i)") auto

declare uartwrite.simps [simp del]

definition uartputc_sync :: "u8 \<Rightarrow> 'a kst_scheme \<Rightarrow> 'a kst_scheme" where
  "uartputc_sync c s = emit [c] s"

subsection \<open>procdump\<close>

definition state_name :: "procstate \<Rightarrow> string" where
  "state_name st = (case st of UNUSED \<Rightarrow> ''unused'' | USED \<Rightarrow> ''used'' | SLEEPING \<Rightarrow> ''sleep '' | RUNNABLE \<Rightarrow> ''runble'' | RUNNING \<Rightarrow> ''run   '' | ZOMBIE \<Rightarrow> ''zombie'')"

definition name_str :: "cptr \<Rightarrow> u8 list" where
  "name_str n = takeWhile (\<lambda>c. c \<noteq> 0) (map n [0..<16])"

primrec procdump_loop :: "nat \<Rightarrow> nat \<Rightarrow> 'a kst_scheme \<Rightarrow> 'a kst_scheme" where
  "procdump_loop 0 i s = s"
| "procdump_loop (Suc k) i s =
     (let p = procs s i in
      procdump_loop k (Suc i)
        (if pr_state p = UNUSED then s
         else kprintf [CHR 0x0A] [] (kprintf ''%d %s %s'' [VI (word_of_int (pr_pid p)), VS (Some (str (state_name (pr_state p)))), VS (Some (name_str (pr_name p)))] s)))"

definition procdump :: "'a kst_scheme \<Rightarrow> 'a kst_scheme" where
  "procdump s = procdump_loop NPROC 0 (kprintf [CHR 0x0A] [] s)"

subsection \<open>console.c\<close>

definition INPUT_BUF_SIZE :: nat where "INPUT_BUF_SIZE = 128"

definition kconsputc :: "u32 \<Rightarrow> 'a kst_scheme \<Rightarrow> 'a kst_scheme" where
  "kconsputc c s = (if c = BACKSPACE then uartputc_sync 8 (uartputc_sync 32 (uartputc_sync 8 s)) else uartputc_sync (ucast c) s)"

definition upd_cons :: "(conbuf \<Rightarrow> conbuf) \<Rightarrow> 'a kst_scheme \<Rightarrow> 'a kst_scheme" where
  "upd_cons f s = s\<lparr>consl := f (consl s)\<rparr>"

function consolewrite_loop :: "ksrc \<Rightarrow> int \<Rightarrow> nat \<Rightarrow> 'a kst_scheme \<Rightarrow> (int wait \<times> 'a kst_scheme) kres" where
  "consolewrite_loop src n i s =
     (if int i < n then
        let nn = min 32 (nat n - i) in
        kbind (on_vm (either_copyin (src_add src i) nn) s) (\<lambda>r.
          if fst (fst r) = - 1 then Ok (Done (int i), snd r)
          else case uartwrite (snd (fst r)) 0 (snd r) of
              (Asleep j, s2) \<Rightarrow> Ok (Asleep (i + j), s2)
            | (Done _, s2) \<Rightarrow> consolewrite_loop src n (i + nn) s2)
      else Ok (Done (int i), s))"
  by pat_completeness auto

termination consolewrite_loop
  by (relation "measure (\<lambda>(src, n, i, s). nat n - i)") auto

declare consolewrite_loop.simps [simp del]

text \<open>The continuation of a write that slept with \<open>j\<close> bytes of the chunk \<open>buf\<close> sent.\<close>

definition consolewrite_resume :: "ksrc \<Rightarrow> int \<Rightarrow> nat \<Rightarrow> u8 list \<Rightarrow> nat \<Rightarrow> 'a kst_scheme \<Rightarrow> (int wait \<times> 'a kst_scheme) kres" where
  "consolewrite_resume src n i buf j s =
     (case uartwrite buf j s of
        (Asleep k, s2) \<Rightarrow> Ok (Asleep (i + k), s2)
      | (Done _, s2) \<Rightarrow> consolewrite_loop src n (i + length buf) s2)"

definition consolewrite :: "ksrc \<Rightarrow> int \<Rightarrow> 'a kst_scheme \<Rightarrow> (int wait \<times> 'a kst_scheme) kres" where
  "consolewrite src n s = consolewrite_loop src n 0 s"

fun consoleread_loop :: "kdst \<Rightarrow> nat \<Rightarrow> nat \<Rightarrow> 'a kst_scheme \<Rightarrow> (int wait \<times> 'a kst_scheme) kres" where
  "consoleread_loop dst target 0 s = Ok (Done (int target), s)"
| "consoleread_loop dst target (Suc n) s =
     (if c_r (consl s) = c_w (consl s) then
        if killed (me s) s then Ok (Done (- 1), s) else Ok (Asleep (target - Suc n), sleep_on ChCons s)
      else
        let c = c_buf (consl s) (unat (c_r (consl s)) mod INPUT_BUF_SIZE); s1 = upd_cons (\<lambda>b. b\<lparr>c_r := c_r b + 1\<rparr>) s in
        if c = 4 then
          Ok (Done (int (target - Suc n)), if Suc n < target then upd_cons (\<lambda>b. b\<lparr>c_r := c_r b - 1\<rparr>) s1 else s1)
        else kbind (on_vm (either_copyout dst [c]) s1) (\<lambda>r.
          if fst r = - 1 then Ok (Done (int (target - Suc n)), snd r)
          else if c = 10 then Ok (Done (int (target - n)), snd r)
          else consoleread_loop (dst_add dst 1) target n (snd r)))"

definition consoleread :: "kdst \<Rightarrow> int \<Rightarrow> 'a kst_scheme \<Rightarrow> (int wait \<times> 'a kst_scheme) kres" where
  "consoleread dst n s = consoleread_loop dst (nat n) (nat n) s"

text \<open>The loop of control-U.\<close>

function kill_line :: "'a kst_scheme \<Rightarrow> 'a kst_scheme" where
  "kill_line s =
     (if c_e (consl s) \<noteq> c_w (consl s) \<and> c_buf (consl s) (unat (c_e (consl s) - 1) mod INPUT_BUF_SIZE) \<noteq> 10
      then kill_line (kconsputc BACKSPACE (upd_cons (\<lambda>b. b\<lparr>c_e := c_e b - 1\<rparr>) s)) else s)"
  by pat_completeness auto

lemma kconsputc_consl [simp]: "consl (kconsputc c s) = consl s" "procs (kconsputc c s) = procs s" "cur (kconsputc c s) = cur s"
  by (simp_all add: kconsputc_def uartputc_sync_def emit_def)

lemma upd_cons_consl [simp]: "consl (upd_cons f s) = f (consl s)" "procs (upd_cons f s) = procs s" "cur (upd_cons f s) = cur s"
  by (simp_all add: upd_cons_def)

lemma pred_less: "(x :: u32) \<noteq> 0 \<Longrightarrow> unat (x - 1) < unat x"
  using word_less_nat_alt [of "x - 1" x] by (simp add: unat_minus_one unat_gt_0)

termination kill_line
proof (relation "measure (\<lambda>s. unat (c_e (consl s) - c_w (consl s)))")
  fix s :: "'a kst_scheme"
  assume "c_e (consl s) \<noteq> c_w (consl s) \<and> c_buf (consl s) (unat (c_e (consl s) - 1) mod INPUT_BUF_SIZE) \<noteq> 10"
  then have "unat (c_e (consl s) - c_w (consl s) - 1) < unat (c_e (consl s) - c_w (consl s))" by (intro pred_less) simp
  then show "(kconsputc BACKSPACE (upd_cons (\<lambda>b. b\<lparr>c_e := c_e b - 1\<rparr>) s), s) \<in> measure (\<lambda>s. unat (c_e (consl s) - c_w (consl s)))"
    by (simp add: algebra_simps)
qed simp

declare kill_line.simps [simp del]

definition consoleintr :: "u8 \<Rightarrow> 'a kst_scheme \<Rightarrow> 'a kst_scheme" where
  "consoleintr c s =
     (if c = 16 then procdump s
      else if c = 21 then kill_line s
      else if c = 8 \<or> c = 0x7f then
        (if c_e (consl s) \<noteq> c_w (consl s) then kconsputc BACKSPACE (upd_cons (\<lambda>b. b\<lparr>c_e := c_e b - 1\<rparr>) s) else s)
      else if c \<noteq> 0 \<and> c_e (consl s) - c_r (consl s) < of_nat INPUT_BUF_SIZE then
        let d = (if c = 13 then 10 else c);
            s1 = kconsputc (ucast d) s;
            s2 = upd_cons (\<lambda>b. b\<lparr>c_buf := (c_buf b)(unat (c_e b) mod INPUT_BUF_SIZE := d), c_e := c_e b + 1\<rparr>) s1 in
        if d = 10 \<or> d = 4 \<or> c_e (consl s2) - c_r (consl s2) = of_nat INPUT_BUF_SIZE
        then wakeup ChCons (upd_cons (\<lambda>b. b\<lparr>c_w := c_e b\<rparr>) s2) else s2
      else s)"

text \<open>\<^verbatim>\<open>uartintr\<close>: the transmitter's state and the bytes \<^verbatim>\<open>uartgetc\<close> returns before it returns -1.\<close>

definition uartintr :: "bool \<Rightarrow> u8 list \<Rightarrow> 'a kst_scheme \<Rightarrow> 'a kst_scheme" where
  "uartintr tx_idle rx s = fold consoleintr rx (if tx_idle then wakeup ChTx (s\<lparr>tx_busy := False\<rparr>) else s)"

section \<open>The line discipline\<close>

text \<open>
  The three indices split the ring into the bytes readers may take and the line being edited. \<open>con_ok\<close> is the invariant: the buffer holds at most
  \<open>INPUT_BUF_SIZE\<close> bytes and no newline is left in the edited line.
\<close>

definition ring :: "conbuf \<Rightarrow> u32 \<Rightarrow> nat \<Rightarrow> u8 list" where
  "ring b i n = map (\<lambda>k. c_buf b (unat (i + of_nat k) mod INPUT_BUF_SIZE)) [0..<n]"

definition con_ready :: "conbuf \<Rightarrow> u8 list" where
  "con_ready b = ring b (c_r b) (unat (c_w b - c_r b))"

definition con_line :: "conbuf \<Rightarrow> u8 list" where
  "con_line b = ring b (c_w b) (unat (c_e b - c_w b))"

definition con_ok :: "conbuf \<Rightarrow> bool" where
  "con_ok b \<longleftrightarrow> unat (c_w b - c_r b) + unat (c_e b - c_w b) \<le> INPUT_BUF_SIZE \<and> 10 \<notin> set (con_line b)"

text \<open>The promise: a pair of the committed bytes and the edited line.\<close>

definition edit :: "u8 \<Rightarrow> u8 list \<times> u8 list \<Rightarrow> u8 list \<times> u8 list" where
  "edit c q =
     (let ready = fst q; line = snd q; d = (if c = 13 then 10 else c) in
      if c = 16 then q
      else if c = 21 then (ready, [])
      else if c = 8 \<or> c = 0x7f then (ready, butlast line)
      else if c = 0 \<or> INPUT_BUF_SIZE \<le> length ready + length line then q
      else if d = 10 \<or> d = 4 \<or> length ready + length line + 1 = INPUT_BUF_SIZE then (ready @ line @ [d], [])
      else (ready, line @ [d]))"

definition con_abs :: "conbuf \<Rightarrow> u8 list \<times> u8 list" where
  "con_abs b = (con_ready b, con_line b)"

lemma ring_length [simp]: "length (ring b i n) = n"
  by (simp add: ring_def)

lemma ring_Suc: "ring b i (Suc n) = ring b i n @ [c_buf b (unat (i + of_nat n) mod INPUT_BUF_SIZE)]"
  by (simp add: ring_def)

lemma ring_append: "ring b i (m + n) = ring b i m @ ring b (i + of_nat m) n"
  by (induction n) (simp_all add: ring_Suc algebra_simps, simp_all add: ring_def)

lemma ring_head: "0 < n \<Longrightarrow> ring b i n = c_buf b (unat i mod INPUT_BUF_SIZE) # ring b (i + 1) (n - 1)"
  using ring_append [of b i 1 "n - 1"] by (simp add: ring_def)

lemma ring_cong: "c_buf b = c_buf b' \<Longrightarrow> ring b i n = ring b' i n"
  by (simp add: ring_def)

text \<open>The ring has a power of two of slots, so a slot is the index modulo it, also across the wrap of the index.\<close>

lemma slot_neq:
  assumes "k < n" "n < INPUT_BUF_SIZE"
  shows "unat ((i :: u32) + of_nat k) mod INPUT_BUF_SIZE \<noteq> unat (i + of_nat n) mod INPUT_BUF_SIZE"
proof -
  have m: "unat (i + of_nat j) mod 128 = (unat i + j) mod 128" for j
    by (simp add: unat_word_ariths unat_of_nat mod_mod_cancel mod_add_right_eq)
  have "(unat i + k) mod 128 \<noteq> (unat i + n) mod 128"
  proof
    assume "(unat i + k) mod 128 = (unat i + n) mod 128"
    then have "128 dvd (unat i + n) - (unat i + k)" using assms by (intro mod_eq_dvd_iff_nat [THEN iffD1]) auto
    then show False using assms by (auto simp: INPUT_BUF_SIZE_def dest!: dvd_imp_le)
  qed
  then show ?thesis unfolding INPUT_BUF_SIZE_def m .
qed

lemma ring_store:
  assumes "n < INPUT_BUF_SIZE" "e = i + of_nat n"
  shows "ring (b\<lparr>c_buf := (c_buf b)(unat e mod INPUT_BUF_SIZE := d), c_e := x\<rparr>) i n = ring b i n"
  using slot_neq [OF _ assms(1), of _ i] assms(2) by (auto simp: ring_def)


lemma kprintf_consl [simp]: "consl (kprintf f a s) = consl s"
  by (simp add: kprintf_def emit_def)

lemma procdump_loop_consl [simp]: "consl (procdump_loop k i s) = consl s"
  by (induction k arbitrary: i s) (simp_all add: Let_def)

lemma procdump_consl [simp]: "consl (procdump s) = consl s"
  by (simp add: procdump_def)

lemma unat_pred: "(x :: u32) \<noteq> 0 \<Longrightarrow> unat (x - 1) = unat x - 1"
  by (simp add: unat_minus_one)

text \<open>Taking the last byte off the line.\<close>

lemma con_line_back:
  assumes "c_e b \<noteq> c_w b"
  shows "con_line b = con_line (b\<lparr>c_e := c_e b - 1\<rparr>) @ [c_buf b (unat (c_e b - 1) mod INPUT_BUF_SIZE)]"
    "con_ready (b\<lparr>c_e := c_e b - 1\<rparr>) = con_ready b"
proof -
  let ?d = "c_e b - c_w b"
  have nz: "?d \<noteq> 0" using assms by simp
  then have S: "unat ?d = Suc (unat (?d - 1))" unfolding unat_pred [OF nz] using unat_gt_0 [of ?d] by linarith
  have i: "c_w b + of_nat (unat (?d - 1)) = c_e b - 1" by simp
  have e: "c_e b - 1 - c_w b = ?d - 1" by simp
  show "con_line b = con_line (b\<lparr>c_e := c_e b - 1\<rparr>) @ [c_buf b (unat (c_e b - 1) mod INPUT_BUF_SIZE)]"
    unfolding con_line_def S ring_Suc i by (simp add: e ring_def)
  show "con_ready (b\<lparr>c_e := c_e b - 1\<rparr>) = con_ready b" by (simp add: con_ready_def ring_def)
qed

lemma con_ok_back: "con_ok b \<Longrightarrow> c_e b \<noteq> c_w b \<Longrightarrow> con_ok (b\<lparr>c_e := c_e b - 1\<rparr>)"
  using con_line_back [of b] pred_less [of "c_e b - c_w b"] by (auto simp: con_ok_def algebra_simps)

lemma kill_line_abs: "con_ok (consl s) \<Longrightarrow> con_abs (consl (kill_line s)) = (con_ready (consl s), []) \<and> con_ok (consl (kill_line s))"
proof (induction s rule: kill_line.induct)
  case (1 s)
  let ?b = "consl s"
  show ?case
  proof (cases "c_e ?b = c_w ?b")
    case True
    then show ?thesis using 1 by (subst (1 2) kill_line.simps) (simp add: con_abs_def con_line_def ring_def)
  next
    case False
    have n: "c_buf ?b (unat (c_e ?b - 1) mod INPUT_BUF_SIZE) \<noteq> 10"
      using con_line_back(1) [OF False] 1(2) by (auto simp: con_ok_def)
    show ?thesis using 1(1) [OF conjI [OF False n]] con_ok_back [OF 1(2) False] con_line_back(2) [OF False] False n
      by (subst (1 2) kill_line.simps) simp
  qed
qed

text \<open>Appending a byte at the edit index.\<close>

lemma con_append:
  fixes d :: u8
  assumes ok: "con_ok b" and room: "unat (c_w b - c_r b) + unat (c_e b - c_w b) < INPUT_BUF_SIZE"
  defines "b' \<equiv> b\<lparr>c_buf := (c_buf b)(unat (c_e b) mod INPUT_BUF_SIZE := d), c_e := c_e b + 1\<rparr>"
  shows "con_ready b' = con_ready b" "con_line b' = con_line b @ [d]"
    "unat (c_e b' - c_w b') = Suc (unat (c_e b - c_w b))" "unat (c_w b' - c_r b') = unat (c_w b - c_r b)"
proof -
  let ?n = "unat (c_e b - c_w b)" and ?m = "unat (c_w b - c_r b)"
  have n: "?n < INPUT_BUF_SIZE" using room by simp
  have e: "c_e b = c_w b + of_nat ?n" by simp
  have er: "c_e b = c_r b + of_nat (?m + ?n)" by simp
  have mn: "ring b' (c_r b) (?m + ?n) = ring b (c_r b) (?m + ?n)" unfolding b'_def by (rule ring_store [OF room er])
  have "unat (c_e b - c_w b + 1) = Suc ?n" using n by (subst unat_plus_simple [THEN iffD1]) (auto simp: INPUT_BUF_SIZE_def word_le_nat_alt unat_word_ariths)
  then show S: "unat (c_e b' - c_w b') = Suc ?n" by (simp add: b'_def algebra_simps)
  show "unat (c_w b' - c_r b') = ?m" by (simp add: b'_def)
  have l: "ring b' (c_w b) ?n = ring b (c_w b) ?n" unfolding b'_def by (rule ring_store [OF n e])
  have r: "ring b' (c_r b) ?m = ring b (c_r b) ?m" using mn unfolding ring_append by simp
  show "con_ready b' = con_ready b" using r by (simp add: con_ready_def b'_def)
  have "con_line b' = ring b' (c_w b) ?n @ [c_buf b' (unat (c_w b + of_nat ?n) mod INPUT_BUF_SIZE)]"
    unfolding con_line_def S ring_Suc by (simp add: b'_def)
  then show "con_line b' = con_line b @ [d]" unfolding l by (simp add: con_line_def b'_def)
qed

lemma con_commit:
  assumes "unat (c_w b - c_r b) + unat (c_e b - c_w b) \<le> INPUT_BUF_SIZE"
  shows "con_ready (b\<lparr>c_w := c_e b\<rparr>) = con_ready b @ con_line b" "con_line (b\<lparr>c_w := c_e b\<rparr>) = []" "con_ok (b\<lparr>c_w := c_e b\<rparr>)"
    "unat (c_e b - c_r b) = unat (c_w b - c_r b) + unat (c_e b - c_w b)"
proof -
  have "unat (c_e b - c_r b) = unat ((c_w b - c_r b) + (c_e b - c_w b))" by simp
  also have "\<dots> = unat (c_w b - c_r b) + unat (c_e b - c_w b)"
    using assms by (simp only: unat_word_ariths) (simp add: INPUT_BUF_SIZE_def)
  finally show u: "unat (c_e b - c_r b) = unat (c_w b - c_r b) + unat (c_e b - c_w b)" .
  show "con_ready (b\<lparr>c_w := c_e b\<rparr>) = con_ready b @ con_line b"
    by (simp add: con_ready_def con_line_def u ring_append) (simp add: ring_def)
  show l: "con_line (b\<lparr>c_w := c_e b\<rparr>) = []" by (simp add: con_line_def ring_def)
  show "con_ok (b\<lparr>c_w := c_e b\<rparr>)" using assms u l by (simp add: con_ok_def)
qed

lemma con_ok_len: "con_ok b \<Longrightarrow> length (con_ready b) + length (con_line b) \<le> INPUT_BUF_SIZE"
  "length (con_ready b) = unat (c_w b - c_r b)" "length (con_line b) = unat (c_e b - c_w b)"
  by (simp_all add: con_ok_def con_ready_def con_line_def)

lemma con_room:
  assumes "con_ok b"
  shows "c_e b - c_r b < of_nat INPUT_BUF_SIZE \<longleftrightarrow> length (con_ready b) + length (con_line b) < INPUT_BUF_SIZE"
    "c_e b - c_r b = of_nat INPUT_BUF_SIZE \<longleftrightarrow> length (con_ready b) + length (con_line b) = INPUT_BUF_SIZE"
proof -
  have u: "unat (c_e b - c_r b) = length (con_ready b) + length (con_line b)"
    using con_commit(4) [of b] assms by (simp add: con_ok_len con_ok_def)
  show "c_e b - c_r b < of_nat INPUT_BUF_SIZE \<longleftrightarrow> length (con_ready b) + length (con_line b) < INPUT_BUF_SIZE"
    unfolding word_less_nat_alt u by (simp add: INPUT_BUF_SIZE_def)
  show "c_e b - c_r b = of_nat INPUT_BUF_SIZE \<longleftrightarrow> length (con_ready b) + length (con_line b) = INPUT_BUF_SIZE"
    unfolding u [symmetric] by (simp add: INPUT_BUF_SIZE_def word_unat_eq_iff)
qed

text \<open>A typed character: it is stored, and commits the line when it ends one or fills the buffer.\<close>

lemma consoleintr_char:
  assumes ok: "con_ok (consl s)" and c: "c \<noteq> 16" "c \<noteq> 21" "c \<noteq> 8" "c \<noteq> 0x7f" "c \<noteq> 0"
    and room: "length (con_ready (consl s)) + length (con_line (consl s)) < INPUT_BUF_SIZE"
  shows "con_abs (consl (consoleintr c s)) = edit c (con_abs (consl s)) \<and> con_ok (consl (consoleintr c s))"
proof -
  let ?b = "consl s"
  define d where "d = (if c = 13 then 10 else c)"
  define b' where "b' = ?b\<lparr>c_buf := (c_buf ?b)(unat (c_e ?b) mod INPUT_BUF_SIZE := d), c_e := c_e ?b + 1\<rparr>"
  have r: "unat (c_w ?b - c_r ?b) + unat (c_e ?b - c_w ?b) < INPUT_BUF_SIZE" using room by (simp add: con_ok_len)
  note A = con_append [OF ok r, of d, folded b'_def]
  have le: "unat (c_w b' - c_r b') + unat (c_e b' - c_w b') \<le> INPUT_BUF_SIZE" using A(3,4) r by simp
  note K = con_commit [OF le]
  have full: "c_e b' - c_r b' = of_nat INPUT_BUF_SIZE \<longleftrightarrow> length (con_ready ?b) + length (con_line ?b) + 1 = INPUT_BUF_SIZE"
    using K(4) A(3,4) by (simp add: word_unat_eq_iff con_ok_len) (simp add: INPUT_BUF_SIZE_def)
  have ok': "d \<noteq> 10 \<Longrightarrow> con_ok b'" using le ok A(2) by (simp add: con_ok_def)
  have "consl (consoleintr c s) = (if d = 10 \<or> d = 4 \<or> c_e b' - c_r b' = of_nat INPUT_BUF_SIZE then b'\<lparr>c_w := c_e b'\<rparr> else b')"
    using c con_room(1) [OF ok] room unfolding consoleintr_def d_def [symmetric] b'_def by (simp add: Let_def)
  then show ?thesis using c room K A ok' unfolding full
    by (simp add: con_abs_def edit_def Let_def d_def [symmetric])
qed

lemma consoleintr_edit:
  assumes ok: "con_ok (consl s)"
  shows "con_abs (consl (consoleintr c s)) = edit c (con_abs (consl s)) \<and> con_ok (consl (consoleintr c s))"
proof -
  let ?b = "consl s"
  consider "c = 16" | "c = 21" | "c = 8 \<or> c = 0x7f"
    | "c \<noteq> 16" "c \<noteq> 21" "c \<noteq> 8" "c \<noteq> 0x7f" "c = 0 \<or> \<not> length (con_ready ?b) + length (con_line ?b) < INPUT_BUF_SIZE"
    | "c \<noteq> 16" "c \<noteq> 21" "c \<noteq> 8" "c \<noteq> 0x7f" "c \<noteq> 0" "length (con_ready ?b) + length (con_line ?b) < INPUT_BUF_SIZE" by blast
  then show ?thesis
  proof cases
    case 1
    then show ?thesis using ok by (simp add: consoleintr_def edit_def)
  next
    case 2
    then show ?thesis using kill_line_abs [OF ok] by (simp add: consoleintr_def edit_def con_abs_def)
  next
    case 3
    show ?thesis
    proof (cases "c_e ?b = c_w ?b")
      case True
      then have "con_line ?b = []" by (simp add: con_line_def ring_def)
      then show ?thesis using 3 True ok by (auto simp: consoleintr_def edit_def con_abs_def)
    next
      case False
      show ?thesis using 3 False con_line_back [OF False] con_ok_back [OF ok False] by (auto simp: consoleintr_def edit_def con_abs_def)
    qed
  next
    case 4
    then show ?thesis using ok con_room(1) [OF ok] by (auto simp: consoleintr_def edit_def con_abs_def Let_def)
  next
    case 5
    then show ?thesis using consoleintr_char [OF ok] by blast
  qed
qed

text \<open>No reader is left asleep while there are bytes to read.\<close>

definition readers_awake :: "'a kst_scheme \<Rightarrow> bool" where
  "readers_awake s \<longleftrightarrow> (\<forall>j < NPROC. cur s \<noteq> Some j \<and> pr_state (procs s j) = SLEEPING \<and> pr_chan (procs s j) = ChCons \<longrightarrow> c_r (consl s) = c_w (consl s))"

lemma readers_awake_cong:
  "procs s' = procs s \<Longrightarrow> cur s' = cur s \<Longrightarrow> c_r (consl s') = c_r (consl s) \<Longrightarrow> c_w (consl s') = c_w (consl s) \<Longrightarrow> readers_awake s' = readers_awake s"
  by (simp add: readers_awake_def)

lemma readers_awake_wakeup: "readers_awake (wakeup ChCons s)" "readers_awake s \<Longrightarrow> readers_awake (wakeup ch s)"
  by (auto simp: readers_awake_def split: if_splits)

lemma kprintf_procs [simp]: "procs (kprintf f a s) = procs s" "cur (kprintf f a s) = cur s"
  by (simp_all add: kprintf_def emit_def)

lemma procdump_loop_procs [simp]: "procs (procdump_loop k i s) = procs s" "cur (procdump_loop k i s) = cur s"
  by (induction k arbitrary: i s) (simp_all add: Let_def)

lemma kill_line_rest: "procs (kill_line s) = procs s \<and> cur (kill_line s) = cur s \<and> c_r (consl (kill_line s)) = c_r (consl s) \<and> c_w (consl (kill_line s)) = c_w (consl s)"
proof (induction s rule: kill_line.induct)
  case (1 s)
  then show ?case by (subst (1 2 3 4) kill_line.simps) simp
qed

lemma consoleintr_awake: "readers_awake s \<Longrightarrow> readers_awake (consoleintr c s)"
  unfolding consoleintr_def Let_def
  by (auto simp: procdump_def readers_awake_wakeup kill_line_rest elim!: readers_awake_cong [THEN iffD2, rotated -1])

lemma consoleintrs:
  "con_ok (consl s) \<Longrightarrow> readers_awake s \<Longrightarrow>
   con_abs (consl (fold consoleintr rx s)) = fold edit rx (con_abs (consl s)) \<and> con_ok (consl (fold consoleintr rx s)) \<and> readers_awake (fold consoleintr rx s)"
proof (induction rx arbitrary: s)
  case (Cons c rx)
  then show ?case using consoleintr_edit [OF Cons.prems(1), of c] consoleintr_awake [OF Cons.prems(2), of c] by simp
qed simp

text \<open>
  C17: The console implements a line editor. For every sequence of received bytes, the interrupt handler takes the ring buffer, through whatever wrap-around
  of its indices, exactly as the abstract editor takes the pair of committed bytes and edited line: control-U empties the line, backspace and delete take its last
  byte off and never reach a committed one, carriage return becomes newline, and a newline, a control-D or a full buffer commits the line. The buffer never
  holds more than \<^verbatim>\<open>INPUT_BUF_SIZE\<close> bytes, and no reader is left asleep while there are bytes to read.
\<close>

theorem console_line_discipline:
  assumes "con_ok (consl s)" "readers_awake s"
  shows "con_abs (consl (uartintr idle rx s)) = fold edit rx (con_abs (consl s)) \<and> con_ok (consl (uartintr idle rx s)) \<and> readers_awake (uartintr idle rx s)"
proof -
  let ?s = "if idle then wakeup ChTx (s\<lparr>tx_busy := False\<rparr>) else s"
  have "consl ?s = consl s" "readers_awake ?s"
    using assms(2) readers_awake_wakeup(2) [of "s\<lparr>tx_busy := False\<rparr>" ChTx] readers_awake_cong [of "s\<lparr>tx_busy := False\<rparr>" s] by auto
  then show ?thesis using consoleintrs [of ?s rx] assms(1) by (simp add: uartintr_def)
qed

theorem console_line_discipline_witness:
  "\<exists>s :: kst. con_ok (consl s) \<and> readers_awake s \<and> con_abs (consl (uartintr True (str ''ab'' @ [8, 13] @ str ''c'') s)) = ([97, 10], [99])"
proof -
  let ?s = "(demo_kst demo_vm demo_procs)\<lparr>consl := \<lparr>c_buf = (\<lambda>_. 0), c_r = 0xFFFFFFFE, c_w = 0xFFFFFFFE, c_e = 0xFFFFFFFE\<rparr>\<rparr>"
  have ok: "con_ok (consl ?s)" "readers_awake ?s" and a: "con_abs (consl ?s) = ([], [])"
    by (simp_all add: con_ok_def con_abs_def con_ready_def con_line_def ring_def readers_awake_def)
  have "fold edit (str ''ab'' @ [8, 13] @ str ''c'') ([], []) = ([97, 10], [99])" by code_simp
  then show ?thesis using console_line_discipline [OF ok, of True "str ''ab'' @ [8, 13] @ str ''c''"] ok a by (intro exI [of _ ?s]) simp
qed

end
