(* ===== verification/File.thy ===== *)
theory File
  imports Console
begin

section \<open>Open files: kernel/file.c and pipealloc of kernel/pipe.c\<close>

text \<open>
  A \<^verbatim>\<open>struct file\<close> is an index of the table \<open>ftable\<close>. A read or a write returns a value of \<open>int wait\<close>: pipes and the console may put the process to sleep.
  \<open>devsw\<close> is the device table as \<^verbatim>\<open>consoleinit\<close> fills it.
\<close>

unbundle bit_operations_syntax

definition CONSOLE :: nat where "CONSOLE = 1"

definition devsw_read :: "nat \<Rightarrow> (kdst \<Rightarrow> int \<Rightarrow> 'a kst_scheme \<Rightarrow> (int wait \<times> 'a kst_scheme) kres) option" where
  "devsw_read m = (if m = CONSOLE then Some consoleread else None)"

definition devsw_write :: "nat \<Rightarrow> (ksrc \<Rightarrow> int \<Rightarrow> 'a kst_scheme \<Rightarrow> (int wait \<times> 'a kst_scheme) kres) option" where
  "devsw_write m = (if m = CONSOLE then Some consolewrite else None)"

definition upd_file :: "nat \<Rightarrow> (ofile \<Rightarrow> ofile) \<Rightarrow> 'a kst_scheme \<Rightarrow> 'a kst_scheme" where
  "upd_file f g s = s\<lparr>ftable := (ftable s)(f := g (ftable s f))\<rparr>"

primrec filealloc_loop :: "nat \<Rightarrow> nat \<Rightarrow> 'a kst_scheme \<Rightarrow> nat option \<times> 'a kst_scheme" where
  "filealloc_loop 0 f s = (None, s)"
| "filealloc_loop (Suc k) f s =
     (if f_ref (ftable s f) = 0 then (Some f, upd_file f (\<lambda>x. x\<lparr>f_ref := 1\<rparr>) s) else filealloc_loop k (Suc f) s)"

definition filealloc :: "'a kst_scheme \<Rightarrow> nat option \<times> 'a kst_scheme" where
  "filealloc s = filealloc_loop NFILE 0 s"

definition filedup :: "nat \<Rightarrow> 'a kst_scheme \<Rightarrow> (nat \<times> 'a kst_scheme) kres" where
  "filedup f s = (if f_ref (ftable s f) < 1 then Panic ''filedup'' else Ok (f, upd_file f (\<lambda>x. x\<lparr>f_ref := f_ref x + 1\<rparr>) s))"

text \<open>A null inode is a fault of the kernel.\<close>

definition with_ip :: "nat option \<Rightarrow> (nat \<Rightarrow> 'b kres) \<Rightarrow> 'b kres" where
  "with_ip ip k = (case ip of None \<Rightarrow> Panic ''kerneltrap'' | Some i \<Rightarrow> k i)"

definition fileclose :: "nat \<Rightarrow> 'a kst_scheme \<Rightarrow> (unit \<times> 'a kst_scheme) kres" where
  "fileclose f s =
     (if f_ref (ftable s f) < 1 then Panic ''fileclose''
      else let s1 = upd_file f (\<lambda>x. x\<lparr>f_ref := f_ref x - 1\<rparr>) s in
        if f_ref (ftable s1 f) > 0 then Ok ((), s1)
        else let ff = ftable s1 f; s2 = upd_file f (\<lambda>x. x\<lparr>f_ref := 0, f_type := FD_NONE\<rparr>) s1 in
          (case f_type ff of
             FD_PIPE \<Rightarrow> pipeclose (f_pipe ff) (f_writable ff) s2
           | FD_NONE \<Rightarrow> Ok ((), s2)
           | _ \<Rightarrow> kbind (begin_op s2) (\<lambda>(_, s3). with_ip (f_ip ff) (\<lambda>ip. kbind (iput ip s3) (\<lambda>(_, s4). end_op s4)))))"

text \<open>The bytes of a \<^verbatim>\<open>struct stat\<close>; the padding before the size is whatever the kernel stack held.\<close>

definition stat_bytes :: "u8 list \<Rightarrow> stat \<Rightarrow> u8 list" where
  "stat_bytes pad st = le_bytes 4 (of_nat (st_dev st) :: u32) @ le_bytes 4 (of_nat (st_ino st) :: u32) @ le_bytes 2 (st_type st) @ le_bytes 2 (st_nlink st) @
     take 4 pad @ le_bytes 8 (st_size st)"

definition filestat :: "u8 list \<Rightarrow> nat \<Rightarrow> u64 \<Rightarrow> 'a kst_scheme \<Rightarrow> (int \<times> 'a kst_scheme) kres" where
  "filestat pad f addr s =
     (if f_type (ftable s f) = FD_INODE \<or> f_type (ftable s f) = FD_DEVICE then
        kbind (ilock (f_ip (ftable s f)) s) (\<lambda>(_, s1). with_ip (f_ip (ftable s f)) (\<lambda>ip.
        let st = stati ip s1 in
        kbind (iunlock (Some ip) s1) (\<lambda>(_, s2).
        kbind (on_vm (copyout (pr_pagetable (myproc s2)) addr (stat_bytes pad st)) s2) (\<lambda>(r, s3).
          Ok (if r < 0 then - 1 else 0, s3)))))
      else Ok (- 1, s))"

definition fileread :: "nat \<Rightarrow> u64 \<Rightarrow> int \<Rightarrow> 'a kst_scheme \<Rightarrow> (int wait \<times> 'a kst_scheme) kres" where
  "fileread f addr n s =
     (if \<not> f_readable (ftable s f) then Ok (Done (- 1), s)
      else case f_type (ftable s f) of
        FD_PIPE \<Rightarrow> piperead (f_pipe (ftable s f)) addr n s
      | FD_DEVICE \<Rightarrow>
          (let major = sint (f_major (ftable s f)) in
           if major < 0 \<or> major \<ge> int NDEV then Ok (Done (- 1), s)
           else case devsw_read (nat major) of None \<Rightarrow> Ok (Done (- 1), s) | Some rd \<Rightarrow> rd (UserD addr) n s)
      | FD_INODE \<Rightarrow>
          kbind (ilock (f_ip (ftable s f)) s) (\<lambda>(_, s1). with_ip (f_ip (ftable s f)) (\<lambda>ip.
          kbind (readi ip (UserD addr) (f_off (ftable s1 f)) (word_of_int n) s1) (\<lambda>((r, _), s2).
          let s3 = (if r > 0 then upd_file f (\<lambda>x. x\<lparr>f_off := f_off x + word_of_int r\<rparr>) s2 else s2) in
          kbind (iunlock (Some ip) s3) (\<lambda>(_, s4). Ok (Done r, s4)))))
      | FD_NONE \<Rightarrow> Panic ''fileread'')"

definition FILEWRITE_MAX :: nat where
  "FILEWRITE_MAX = (MAXOPBLOCKS - 1 - 1 - 2) div 2 * BSIZE"

function filewrite_loop :: "nat \<Rightarrow> u64 \<Rightarrow> int \<Rightarrow> nat \<Rightarrow> 'a kst_scheme \<Rightarrow> (nat \<times> 'a kst_scheme) kres" where
  "filewrite_loop f addr n i s =
     (if int i < n then
        let n1 = min (nat n - i) FILEWRITE_MAX in
        kbind (begin_op s) (\<lambda>w.
        kbind (ilock (f_ip (ftable (snd w) f)) (snd w)) (\<lambda>x. with_ip (f_ip (ftable (snd x) f)) (\<lambda>ip.
        kbind (writei ip (UserS (addr + of_nat i)) (f_off (ftable (snd x) f)) (of_nat n1) (snd x)) (\<lambda>y.
        let s3 = (if fst y > 0 then upd_file f (\<lambda>z. z\<lparr>f_off := f_off z + word_of_int (fst y)\<rparr>) (snd y) else snd y) in
        kbind (iunlock (Some ip) s3) (\<lambda>z.
        kbind (end_op (snd z)) (\<lambda>v.
          if fst y \<noteq> int n1 then Ok (i, snd v) else filewrite_loop f addr n (i + n1) (snd v)))))))
      else Ok (i, s))"
  by pat_completeness auto

lemma FILEWRITE_MAX [simp]: "FILEWRITE_MAX = 3072"
  by (simp add: FILEWRITE_MAX_def MAXOPBLOCKS_def BSIZE_def)

termination filewrite_loop
  by (relation "measure (\<lambda>(f, addr, n, i, s). nat n - i)") auto

declare filewrite_loop.simps [simp del]

definition filewrite :: "nat \<Rightarrow> u64 \<Rightarrow> int \<Rightarrow> 'a kst_scheme \<Rightarrow> (int wait \<times> 'a kst_scheme) kres" where
  "filewrite f addr n s =
     (if \<not> f_writable (ftable s f) then Ok (Done (- 1), s)
      else case f_type (ftable s f) of
        FD_PIPE \<Rightarrow> pipewrite (f_pipe (ftable s f)) addr n s
      | FD_DEVICE \<Rightarrow>
          (let major = sint (f_major (ftable s f)) in
           if major < 0 \<or> major \<ge> int NDEV then Ok (Done (- 1), s)
           else case devsw_write (nat major) of None \<Rightarrow> Ok (Done (- 1), s) | Some wr \<Rightarrow> wr (UserS addr) n s)
      | FD_INODE \<Rightarrow> kbind (filewrite_loop f addr n 0 s) (\<lambda>(i, s1). Ok (Done (if int i = n then n else - 1), s1))
      | FD_NONE \<Rightarrow> Panic ''filewrite'')"

text \<open>\<^verbatim>\<open>pipealloc\<close>: the new page, filled with 5 by \<^verbatim>\<open>kalloc\<close>, becomes the pipe.\<close>

definition close_opt :: "nat option \<Rightarrow> 'a kst_scheme \<Rightarrow> (unit \<times> 'a kst_scheme) kres" where
  "close_opt f s = (case f of None \<Rightarrow> Ok ((), s) | Some i \<Rightarrow> fileclose i s)"

definition pipealloc_bad :: "nat option \<Rightarrow> nat option \<Rightarrow> 'a kst_scheme \<Rightarrow> ((nat \<times> nat) option \<times> 'a kst_scheme) kres" where
  "pipealloc_bad f0 f1 s = kbind (close_opt f0 s) (\<lambda>(_, s1). kbind (close_opt f1 s1) (\<lambda>(_, s2). Ok (None, s2)))"

definition pipealloc :: "'a kst_scheme \<Rightarrow> ((nat \<times> nat) option \<times> 'a kst_scheme) kres" where
  "pipealloc s =
     (case filealloc s of
        (None, s1) \<Rightarrow> pipealloc_bad None None s1
      | (Some f0, s1) \<Rightarrow>
          (case filealloc s1 of
             (None, s2) \<Rightarrow> pipealloc_bad (Some f0) None s2
           | (Some f1, s2) \<Rightarrow>
               (let pi = fst (kalloc (um s2)); s3 = s2\<lparr>um := snd (kalloc (um s2))\<rparr> in
                if pi = 0 then pipealloc_bad (Some f0) (Some f1) s3
                else
                  let s4 = upd_pipe pi (\<lambda>_. \<lparr>pi_data = (\<lambda>_. 5), pi_nread = 0, pi_nwrite = 0, pi_readopen = True, pi_writeopen = True\<rparr>) s3;
                      s5 = upd_file f0 (\<lambda>x. x\<lparr>f_type := FD_PIPE, f_readable := True, f_writable := False, f_pipe := pi\<rparr>) s4;
                      s6 = upd_file f1 (\<lambda>x. x\<lparr>f_type := FD_PIPE, f_readable := False, f_writable := True, f_pipe := pi\<rparr>) s5 in
                  Ok (Some (f0, f1), s6))))"

end
