(* ===== verification/Spinlock.thy ===== *)
theory Spinlock
  imports Riscv
begin

section \<open>kernel/spinlock.c\<close>

text \<open>
  First the operations as one CPU executes them: \<^verbatim>\<open>push_off\<close> and \<^verbatim>\<open>pop_off\<close> on the per-CPU fields \<^verbatim>\<open>noff\<close>
  and \<^verbatim>\<open>intena\<close> and the interrupt-enable bit of \<^verbatim>\<open>sstatus\<close>, and \<^verbatim>\<open>acquire\<close>, \<^verbatim>\<open>release\<close> and \<^verbatim>\<open>holding\<close> on
  a lock. An \<^verbatim>\<open>acquire\<close> that would spin is \<open>Blocked\<close>. The counter \<^verbatim>\<open>noff\<close> is an unbounded integer; the C code would
  need more than 2^31 nested sections to overflow it. Then the protocol as several CPUs execute it,
  one atomic memory access per step: \<^verbatim>\<open>amoswap\<close>, the write of \<^verbatim>\<open>lk->cpu\<close>, its clearing, and the releasing swap.
\<close>

subsection \<open>The operations of one CPU\<close>

record cpu =
  noff :: int
  intena :: bool
  sie :: bool

record spinlock =
  lk_locked :: bool
  lk_cpu :: "nat option"

definition initlock :: spinlock where
  "initlock = \<lparr>lk_locked = False, lk_cpu = None\<rparr>"

definition holding :: "nat \<Rightarrow> spinlock \<Rightarrow> bool" where
  "holding c lk \<longleftrightarrow> lk_locked lk \<and> lk_cpu lk = Some c"

definition push_off :: "cpu \<Rightarrow> cpu" where
  "push_off c =
     (let old = sie c; c1 = c\<lparr>sie := False\<rparr>;
          c2 = (if noff c1 = 0 then c1\<lparr>intena := old\<rparr> else c1)
      in c2\<lparr>noff := noff c2 + 1\<rparr>)"

definition pop_off :: "cpu \<Rightarrow> cpu kres" where
  "pop_off c =
     (if sie c then Panic ''pop_off - interruptible''
      else if noff c < 1 then Panic ''pop_off''
      else let c1 = c\<lparr>noff := noff c - 1\<rparr> in
        Ok (if noff c1 = 0 \<and> intena c1 then c1\<lparr>sie := True\<rparr> else c1))"

definition acquire :: "nat \<Rightarrow> spinlock \<Rightarrow> cpu \<Rightarrow> (spinlock \<times> cpu) kres" where
  "acquire me lk c =
     (let c1 = push_off c in
      if holding me lk then Panic ''acquire''
      else if lk_locked lk then Blocked
      else Ok (lk\<lparr>lk_locked := True, lk_cpu := Some me\<rparr>, c1))"

definition release :: "nat \<Rightarrow> spinlock \<Rightarrow> cpu \<Rightarrow> (spinlock \<times> cpu) kres" where
  "release me lk c =
     (if \<not> holding me lk then Panic ''release''
      else let lk1 = lk\<lparr>lk_cpu := None\<rparr>; lk2 = lk1\<lparr>lk_locked := False\<rparr> in
        kbind (pop_off c) (\<lambda>c1. Ok (lk2, c1)))"

subsection \<open>Matched push_off and pop_off\<close>

text \<open>
  The nesting discipline: \<open>noff\<close> counts the open \<^verbatim>\<open>push_off\<close>s, interrupts are off while any is open, and
  \<open>intena\<close> remembers what to restore. \<open>cpu_ok\<close> is the invariant of the per-CPU state.
\<close>

definition cpu_ok :: "cpu \<Rightarrow> bool" where
  "cpu_ok c \<longleftrightarrow> 0 \<le> noff c \<and> (0 < noff c \<longrightarrow> \<not> sie c)"

lemma cpu_ok_push: "cpu_ok c \<Longrightarrow> cpu_ok (push_off c)"
  by (simp add: cpu_ok_def push_off_def Let_def)

lemma push_off_simps [simp]:
  "noff (push_off c) = noff c + 1" "\<not> sie (push_off c)"
  "intena (push_off c) = (if noff c = 0 then sie c else intena c)"
  by (simp_all add: push_off_def Let_def)

lemma pop_push:
  assumes "cpu_ok c"
  shows "\<exists>c'. pop_off (push_off c) = Ok c' \<and> noff c' = noff c \<and> sie c' = sie c \<and>
    (0 < noff c \<longrightarrow> intena c' = intena c) \<and> cpu_ok c'"
proof (cases "noff c = 0")
  case True
  then show ?thesis using assms by (auto simp: pop_off_def Let_def cpu_ok_def)
next
  case False
  then show ?thesis using assms by (auto simp: pop_off_def Let_def cpu_ok_def)
qed

primrec pops :: "nat \<Rightarrow> cpu \<Rightarrow> cpu kres" where
  "pops 0 c = Ok c"
| "pops (Suc n) c = kbind (pop_off c) (pops n)"

lemma pops_pushes:
  assumes "0 < noff c" "\<not> sie c"
  shows "\<exists>c'. pops n ((push_off ^^ n) c) = Ok c' \<and> noff c' = noff c \<and> \<not> sie c' \<and> intena c' = intena c"
  using assms
proof (induction n arbitrary: c)
  case (Suc n)
  let ?d = "(push_off ^^ n) c"
  have d: "noff ?d = noff c + int n \<and> \<not> sie ?d \<and> intena ?d = intena c"
    using Suc.prems by (induction n) auto
  have "pop_off (push_off ?d) = Ok ?d"
  proof -
    have "pop_off (push_off ?d) = Ok ((push_off ?d)\<lparr>noff := noff ?d\<rparr>)"
      using d Suc.prems by (simp add: pop_off_def Let_def)
    moreover have "(push_off ?d)\<lparr>noff := noff ?d\<rparr> = ?d"
      using d Suc.prems by (simp add: push_off_def Let_def)
    ultimately show ?thesis by simp
  qed
  then show ?case using Suc.IH [OF Suc.prems] by simp
qed simp

text \<open>
  C37: interrupt disabling nests. After \<open>n + 1\<close> calls of \<^verbatim>\<open>push_off\<close> it takes exactly \<open>n + 1\<close> calls of
  \<^verbatim>\<open>pop_off\<close> to restore the interrupt state the CPU had before the first: interrupts stay off for the
  first \<open>n\<close>, no call panics, and the last one re-enables them if and only if they were on.
\<close>

theorem push_off_pop_off_nest:
  assumes "noff c = 0"
  shows "\<exists>c1 c2. pops n ((push_off ^^ Suc n) c) = Ok c1 \<and> \<not> sie c1 \<and> noff c1 = 1 \<and>
    pop_off c1 = Ok c2 \<and> sie c2 = sie c \<and> noff c2 = 0"
proof -
  have eq: "(push_off ^^ Suc n) c = (push_off ^^ n) (push_off c)" by (simp add: funpow_swap1)
  have "\<exists>c1. pops n ((push_off ^^ n) (push_off c)) = Ok c1 \<and> noff c1 = noff (push_off c) \<and> \<not> sie c1 \<and>
      intena c1 = intena (push_off c)"
    using assms by (intro pops_pushes) simp_all
  then obtain c1 where c1: "pops n ((push_off ^^ Suc n) c) = Ok c1" "noff c1 = 1" "\<not> sie c1" "intena c1 = sie c"
    unfolding eq using assms by auto
  then show ?thesis by (cases "sie c") (auto simp: pop_off_def Let_def)
qed

theorem push_off_pop_off_nest_witness:
  "\<exists>c1 c2. pops 2 ((push_off ^^ Suc 2) \<lparr>noff = 0, intena = False, sie = True\<rparr>) = Ok c1 \<and> \<not> sie c1 \<and>
     pop_off c1 = Ok c2 \<and> sie c2"
  using push_off_pop_off_nest [of "\<lparr>noff = 0, intena = False, sie = True\<rparr>" 2] by auto

lemma release_acquire:
  assumes "cpu_ok c" "acquire me lk c = Ok (lk1, c1)"
  shows "holding me lk1 \<and> \<not> sie c1 \<and>
    (\<exists>lk2 c2. release me lk1 c1 = Ok (lk2, c2) \<and> \<not> lk_locked lk2 \<and> noff c2 = noff c \<and> sie c2 = sie c)"
proof -
  have "lk1 = lk\<lparr>lk_locked := True, lk_cpu := Some me\<rparr>" "c1 = push_off c"
    using assms(2) by (auto simp: acquire_def Let_def split: if_splits)
  then show ?thesis using pop_push [OF assms(1)] by (auto simp: holding_def release_def Let_def)
qed

subsection \<open>The protocol between CPUs\<close>

text \<open>Where a CPU is in \<^verbatim>\<open>acquire\<close> or \<^verbatim>\<open>release\<close>, between two memory accesses to the lock.\<close>

datatype pc = Outside | Spinning | Swapped | Critical | Cleared

record proto =
  lk :: spinlock
  pcs :: "nat \<Rightarrow> pc"

inductive step :: "proto \<Rightarrow> proto \<Rightarrow> bool" where
  enter: "pcs s c = Outside \<Longrightarrow> \<not> holding c (lk s) \<Longrightarrow> step s (s\<lparr>pcs := (pcs s)(c := Spinning)\<rparr>)"
| swap_fail: "pcs s c = Spinning \<Longrightarrow> lk_locked (lk s) \<Longrightarrow> step s s"
| swap_win: "pcs s c = Spinning \<Longrightarrow> \<not> lk_locked (lk s) \<Longrightarrow>
    step s (s\<lparr>lk := (lk s)\<lparr>lk_locked := True\<rparr>, pcs := (pcs s)(c := Swapped)\<rparr>)"
| set_cpu: "pcs s c = Swapped \<Longrightarrow>
    step s (s\<lparr>lk := (lk s)\<lparr>lk_cpu := Some c\<rparr>, pcs := (pcs s)(c := Critical)\<rparr>)"
| clear_cpu: "pcs s c = Critical \<Longrightarrow> holding c (lk s) \<Longrightarrow>
    step s (s\<lparr>lk := (lk s)\<lparr>lk_cpu := None\<rparr>, pcs := (pcs s)(c := Cleared)\<rparr>)"
| unlock: "pcs s c = Cleared \<Longrightarrow>
    step s (s\<lparr>lk := (lk s)\<lparr>lk_locked := False\<rparr>, pcs := (pcs s)(c := Outside)\<rparr>)"

inductive_cases stepE: "step s s'"

definition inside :: "pc \<Rightarrow> bool" where
  "inside p \<longleftrightarrow> p \<in> {Swapped, Critical, Cleared}"

lemma inside_simps [simp]:
  "inside Swapped" "inside Critical" "inside Cleared" "\<not> inside Outside" "\<not> inside Spinning"
  by (simp_all add: inside_def)

definition proto_ok :: "proto \<Rightarrow> bool" where
  "proto_ok s \<longleftrightarrow>
     (lk_locked (lk s) \<longleftrightarrow> (\<exists>c. inside (pcs s c))) \<and>
     (\<forall>c d. inside (pcs s c) \<longrightarrow> inside (pcs s d) \<longrightarrow> c = d) \<and>
     (\<forall>c. lk_cpu (lk s) = Some c \<longleftrightarrow> pcs s c = Critical)"

definition proto_init :: proto where
  "proto_init = \<lparr>lk = initlock, pcs = (\<lambda>_. Outside)\<rparr>"

lemma proto_ok_init: "proto_ok proto_init"
  by (simp add: proto_ok_def proto_init_def initlock_def)

lemma proto_okD:
  assumes "proto_ok s"
  shows "inside (pcs s c) \<Longrightarrow> lk_locked (lk s)" "inside (pcs s c) \<Longrightarrow> inside (pcs s d) \<Longrightarrow> c = d"
    "lk_cpu (lk s) = Some c \<longleftrightarrow> pcs s c = Critical"
  using assms by (auto simp: proto_ok_def)

lemma proto_ok_step:
  assumes "proto_ok s" "step s s'"
  shows "proto_ok s'"
  using assms(2)
proof cases
  case (enter c)
  have "inside (((pcs s)(c := Spinning)) d) \<longleftrightarrow> inside (pcs s d)"
    "((pcs s)(c := Spinning)) d = Critical \<longleftrightarrow> pcs s d = Critical" for d using enter(2) by auto
  then show ?thesis using assms(1) enter(1) by (simp add: proto_ok_def del: fun_upd_apply)
next
  case (swap_fail c)
  then show ?thesis using assms(1) by simp
next
  case (swap_win c)
  have "\<not> inside (pcs s d)" for d using swap_win(3) proto_okD(1) [OF assms(1)] by blast
  then show ?thesis using assms(1) swap_win by (auto simp: proto_ok_def)
next
  case (set_cpu c)
  have i: "inside (pcs s c)" using set_cpu by simp
  have no: "pcs s d \<noteq> Critical" if "d \<noteq> c" for d
    using proto_okD(2) [OF assms(1) i, of d] that by auto
  have "inside (((pcs s)(c := Critical)) d) \<longleftrightarrow> inside (pcs s d)"
    "((pcs s)(c := Critical)) d = Critical \<longleftrightarrow> d = c" for d using i no by auto
  then show ?thesis using assms(1) set_cpu(1) by (auto simp: proto_ok_def simp del: fun_upd_apply)
next
  case (clear_cpu c)
  have i: "inside (pcs s c)" using clear_cpu by simp
  have no: "pcs s d \<noteq> Critical" if "d \<noteq> c" for d
    using proto_okD(2) [OF assms(1) i, of d] that by auto
  have "inside (((pcs s)(c := Cleared)) d) \<longleftrightarrow> inside (pcs s d)"
    "((pcs s)(c := Cleared)) d \<noteq> Critical" for d using i no by auto
  then show ?thesis using assms(1) clear_cpu(1) by (auto simp: proto_ok_def simp del: fun_upd_apply)
next
  case (unlock c)
  have i: "inside (pcs s c)" using unlock by simp
  have "\<not> inside (pcs s d)" if "d \<noteq> c" for d
    using proto_okD(2) [OF assms(1) i, of d] that by auto
  then show ?thesis using assms(1) unlock i by (auto simp: proto_ok_def)
qed

lemma proto_ok_reachable: "step\<^sup>*\<^sup>* proto_init s \<Longrightarrow> proto_ok s"
  by (induction rule: rtranclp_induct) (auto simp: proto_ok_init proto_ok_step)

text \<open>
  C14: mutual exclusion. In every state the CPUs can reach by interleaving their accesses to one spinlock,
  at most one CPU is between winning the swap in \<^verbatim>\<open>acquire\<close> and the releasing swap in \<^verbatim>\<open>release\<close>; and
  \<^verbatim>\<open>holding\<close> is true on a CPU exactly while that CPU is in its critical section, so \<^verbatim>\<open>release\<close>
  never panics there.
\<close>

theorem spinlock_mutual_exclusion:
  assumes "step\<^sup>*\<^sup>* proto_init s"
  shows "(inside (pcs s c) \<and> inside (pcs s d) \<longrightarrow> c = d) \<and> (holding c (lk s) \<longleftrightarrow> pcs s c = Critical)"
proof -
  have ok: "proto_ok s" using assms by (rule proto_ok_reachable)
  have "lk_locked (lk s)" if "pcs s c = Critical" using that proto_okD(1) [OF ok, of c] by simp
  then show ?thesis using proto_okD(2,3) [OF ok] by (auto simp: holding_def)
qed

theorem spinlock_mutual_exclusion_witness:
  "\<exists>s. step\<^sup>*\<^sup>* proto_init s \<and> holding 1 (lk s) \<and> \<not> holding 0 (lk s)"
proof -
  define s1 where "s1 = proto_init\<lparr>pcs := (pcs proto_init)(1 := Spinning)\<rparr>"
  define s2 where "s2 = s1\<lparr>lk := (lk s1)\<lparr>lk_locked := True\<rparr>, pcs := (pcs s1)(1 := Swapped)\<rparr>"
  define s3 where "s3 = s2\<lparr>lk := (lk s2)\<lparr>lk_cpu := Some 1\<rparr>, pcs := (pcs s2)(1 := Critical)\<rparr>"
  have "step proto_init s1" unfolding s1_def
    by (rule step.enter) (simp_all add: proto_init_def initlock_def holding_def)
  moreover have "step s1 s2" unfolding s2_def
    by (rule step.swap_win) (simp_all add: s1_def proto_init_def initlock_def)
  moreover have "step s2 s3" unfolding s3_def by (rule step.set_cpu) (simp add: s2_def)
  ultimately have r: "step\<^sup>*\<^sup>* proto_init s3" by (meson converse_rtranclp_into_rtranclp r_into_rtranclp)
  have "holding 1 (lk s3)" "\<not> holding 0 (lk s3)"
    using spinlock_mutual_exclusion [OF r, of 1] spinlock_mutual_exclusion [OF r, of 0]
    by (simp_all add: s3_def s2_def s1_def proto_init_def)
  with r show ?thesis by blast
qed

end
