(* ===== verification/Proc.thy ===== *)
theory Proc
  imports File Spinlock
begin

section \<open>Processes: kernel/proc.c\<close>

text \<open>
  Creation, exit, waiting and scheduling of processes. The addresses of the trampoline and of \<^verbatim>\<open>forkret\<close> are parameters held in the state. The scheduler
  is a pass over the table, with what a process does between two calls of \<^verbatim>\<open>swtch\<close> as its argument; \<^verbatim>\<open>sched\<close> and \<^verbatim>\<open>yield\<close> are modelled with the
  process lock and the interrupt state of the CPU, the rest with the locked sections atomic. Process ids are unbounded integers, so the model does not show what a wrap of \<^verbatim>\<open>nextpid\<close>
  after 2^31 forks would do.
\<close>

unbundle bit_operations_syntax

primrec procinit_loop :: "nat \<Rightarrow> nat \<Rightarrow> 'a kst_scheme \<Rightarrow> 'a kst_scheme" where
  "procinit_loop 0 i s = s"
| "procinit_loop (Suc k) i s = procinit_loop k (Suc i) (upd_proc i (\<lambda>p. p\<lparr>pr_state := UNUSED, pr_kstack := KSTACK (of_nat i)\<rparr>) s)"

definition procinit :: "'a kst_scheme \<Rightarrow> 'a kst_scheme" where
  "procinit s = procinit_loop NPROC 0 s"

definition allocpid :: "'a kst_scheme \<Rightarrow> int \<times> 'a kst_scheme" where
  "allocpid s = (nextpid s, s\<lparr>nextpid := nextpid s + 1\<rparr>)"

definition proc_freepagetable :: "u64 \<Rightarrow> u64 \<Rightarrow> vm \<Rightarrow> (unit \<times> vm) kres" where
  "proc_freepagetable pagetable sz m =
     kbind (uvmunmap pagetable TRAMPOLINE 1 False m) (\<lambda>(_, m1).
     kbind (uvmunmap pagetable TRAPFRAME 1 False m1) (\<lambda>(_, m2).
     uvmfree pagetable sz m2))"

definition proc_pagetable :: "u64 \<Rightarrow> u64 \<Rightarrow> vm \<Rightarrow> (u64 \<times> vm) kres" where
  "proc_pagetable tramp trapframe m =
     (case uvmcreate m of (pagetable, m1) \<Rightarrow>
        if pagetable = 0 then Ok (0, m1)
        else kbind (mappages pagetable TRAMPOLINE PGSIZE tramp (PTE_R OR PTE_X) m1) (\<lambda>(r, m2).
          if r < 0 then kbind (uvmfree pagetable 0 m2) (\<lambda>(_, m3). Ok (0, m3))
          else kbind (mappages pagetable TRAPFRAME PGSIZE trapframe (PTE_R OR PTE_W) m2) (\<lambda>(r2, m3).
            if r2 < 0 then
              kbind (uvmunmap pagetable TRAMPOLINE 1 False m3) (\<lambda>(_, m4).
              kbind (uvmfree pagetable 0 m4) (\<lambda>(_, m5). Ok (0, m5)))
            else Ok (pagetable, m3))))"

definition freeproc :: "nat \<Rightarrow> 'a kst_scheme \<Rightarrow> (unit \<times> 'a kst_scheme) kres" where
  "freeproc i s =
     kbind (if pr_trapframe (procs s i) \<noteq> 0 then on_vm (kfree (pr_trapframe (procs s i))) s else Ok ((), s)) (\<lambda>(_, s1).
     let s2 = upd_proc i (\<lambda>p. p\<lparr>pr_trapframe := 0\<rparr>) s1 in
     kbind (if pr_pagetable (procs s2 i) \<noteq> 0 then on_vm (proc_freepagetable (pr_pagetable (procs s2 i)) (pr_sz (procs s2 i))) s2 else Ok ((), s2)) (\<lambda>(_, s3).
     Ok ((), upd_proc i (\<lambda>p. p\<lparr>pr_pagetable := 0, pr_sz := 0, pr_pid := 0, pr_parent := None, pr_name := (pr_name p)(0 := 0), pr_chan := NoChan,
       pr_killed := False, pr_xstate := 0, pr_state := UNUSED\<rparr>) s3)))"

primrec find_unused :: "nat \<Rightarrow> nat \<Rightarrow> 'a kst_scheme \<Rightarrow> nat option" where
  "find_unused 0 i s = None"
| "find_unused (Suc k) i s = (if pr_state (procs s i) = UNUSED then Some i else find_unused k (Suc i) s)"

definition new_context :: "u64 \<Rightarrow> u64 \<Rightarrow> ctx" where
  "new_context ra sp = \<lparr>ctx_ra = ra, ctx_sp = sp, ctx_s = (\<lambda>_. 0)\<rparr>"

definition allocproc :: "'a kst_scheme \<Rightarrow> (nat option \<times> 'a kst_scheme) kres" where
  "allocproc s =
     (case find_unused NPROC 0 s of
        None \<Rightarrow> Ok (None, s)
      | Some i \<Rightarrow>
          (case allocpid s of (pid, s1) \<Rightarrow>
             let s2 = upd_proc i (\<lambda>p. p\<lparr>pr_pid := pid, pr_state := USED\<rparr>) s1;
                 tf = fst (kalloc (um s2));
                 s3 = upd_proc i (\<lambda>p. p\<lparr>pr_trapframe := tf\<rparr>) (s2\<lparr>um := snd (kalloc (um s2))\<rparr>) in
             if tf = 0 then kbind (freeproc i s3) (\<lambda>(_, s4). Ok (None, s4))
             else kbind (on_vm (proc_pagetable (trampoline s3) tf) s3) (\<lambda>(pt, s4).
               let s5 = upd_proc i (\<lambda>p. p\<lparr>pr_pagetable := pt\<rparr>) s4 in
               if pt = 0 then kbind (freeproc i s5) (\<lambda>(_, s6). Ok (None, s6))
               else Ok (Some i, upd_proc i (\<lambda>p. p\<lparr>pr_context := new_context (forkret_addr s5) (pr_kstack p + PGSIZE)\<rparr>) s5))))"

definition userinit :: "'a kst_scheme \<Rightarrow> (unit \<times> 'a kst_scheme) kres" where
  "userinit s =
     kbind (allocproc s) (\<lambda>(p, s1). with_ip p (\<lambda>i.
     kbind (namei (str ''/'') (s1\<lparr>initproc := Some i\<rparr>)) (\<lambda>(ip, s2).
     Ok ((), upd_proc i (\<lambda>p. p\<lparr>pr_cwd := ip, pr_state := RUNNABLE\<rparr>) s2))))"

definition growproc :: "int \<Rightarrow> 'a kst_scheme \<Rightarrow> (int \<times> 'a kst_scheme) kres" where
  "growproc n s =
     (let i = me s; sz = pr_sz (procs s i); pt = pr_pagetable (procs s i);
          put = (\<lambda>z s1. load_cur (upd_proc i (\<lambda>p. p\<lparr>pr_sz := z\<rparr>) s1)) in
      if n > 0 then kbind (on_vm (uvmalloc pt sz (sz + word_of_int n) PTE_W) s) (\<lambda>(z, s1). if z = 0 then Ok (- 1, s1) else Ok (0, put z s1))
      else if n < 0 then kbind (on_vm (uvmdealloc pt sz (sz + word_of_int n)) s) (\<lambda>(z, s1). Ok (0, put z s1))
      else Ok (0, put sz s))"

primrec kfork_files :: "nat \<Rightarrow> nat \<Rightarrow> nat \<Rightarrow> nat \<Rightarrow> 'a kst_scheme \<Rightarrow> (unit \<times> 'a kst_scheme) kres" where
  "kfork_files 0 fd p np s = Ok ((), s)"
| "kfork_files (Suc k) fd p np s =
     (case pr_ofile (procs s p) fd of
        None \<Rightarrow> kfork_files k (Suc fd) p np s
      | Some f \<Rightarrow> kbind (filedup f s) (\<lambda>(g, s1). kfork_files k (Suc fd) p np (upd_proc np (\<lambda>q. q\<lparr>pr_ofile := (pr_ofile q)(fd := Some g)\<rparr>) s1)))"

definition copy_trapframe :: "nat \<Rightarrow> nat \<Rightarrow> 'a kst_scheme \<Rightarrow> 'a kst_scheme" where
  "copy_trapframe p np s =
     s\<lparr>um := (um s)\<lparr>mem := store_bytes (mem (um s)) (pr_trapframe (procs s np)) (load_bytes (mem (um s)) (pr_trapframe (procs s p)) TF_SIZE)\<rparr>\<rparr>"

text \<open>The copy of the process \<open>p\<close> into the new entry \<open>np\<close>.\<close>

definition kfork_child :: "nat \<Rightarrow> nat \<Rightarrow> 'a kst_scheme \<Rightarrow> (int \<times> 'a kst_scheme) kres" where
  "kfork_child p np s =
     kbind (on_vm (uvmcopy (pr_pagetable (procs s p)) (pr_pagetable (procs s np)) (pr_sz (procs s p))) s) (\<lambda>(e, s2).
     if e < 0 then kbind (freeproc np s2) (\<lambda>(_, s3). Ok (- 1, s3))
     else
       let s3 = upd_proc np (\<lambda>q. q\<lparr>pr_sz := pr_sz (procs s2 p)\<rparr>) s2;
           s4 = tf_set np TF_a0 0 (copy_trapframe p np s3) in
       kbind (kfork_files NOFILE 0 p np s4) (\<lambda>(_, s5). with_ip (pr_cwd (procs s5 p)) (\<lambda>d.
       let s6 = snd (idup d s5);
           s7 = upd_proc np (\<lambda>q. q\<lparr>pr_cwd := Some d, pr_name := safestrcpy (pr_name q) (pr_name (procs s6 p)) 16\<rparr>) s6;
           pid = pr_pid (procs s7 np) in
       Ok (pid, upd_proc np (\<lambda>q. q\<lparr>pr_parent := Some p, pr_state := RUNNABLE\<rparr>) s7))))"

definition kfork :: "'a kst_scheme \<Rightarrow> (int \<times> 'a kst_scheme) kres" where
  "kfork s = kbind (allocproc s) (\<lambda>(r, s1). case r of None \<Rightarrow> Ok (- 1, s1) | Some np \<Rightarrow> kfork_child (me s) np s1)"

text \<open>The channel of a process pointer, null included.\<close>

definition chan_of :: "nat option \<Rightarrow> wchan" where
  "chan_of p = (case p of None \<Rightarrow> NoChan | Some i \<Rightarrow> ChProc i)"

primrec reparent_loop :: "nat \<Rightarrow> nat \<Rightarrow> nat \<Rightarrow> 'a kst_scheme \<Rightarrow> 'a kst_scheme" where
  "reparent_loop 0 i p s = s"
| "reparent_loop (Suc k) i p s =
     reparent_loop k (Suc i) p
       (if pr_parent (procs s i) = Some p then wakeup (chan_of (initproc s)) (upd_proc i (\<lambda>q. q\<lparr>pr_parent := initproc s\<rparr>) s) else s)"

definition reparent :: "nat \<Rightarrow> 'a kst_scheme \<Rightarrow> 'a kst_scheme" where
  "reparent p s = reparent_loop NPROC 0 p s"

primrec kexit_files :: "nat \<Rightarrow> nat \<Rightarrow> nat \<Rightarrow> 'a kst_scheme \<Rightarrow> (unit \<times> 'a kst_scheme) kres" where
  "kexit_files 0 fd p s = Ok ((), s)"
| "kexit_files (Suc k) fd p s =
     (case pr_ofile (procs s p) fd of
        None \<Rightarrow> kexit_files k (Suc fd) p s
      | Some f \<Rightarrow> kbind (fileclose f s) (\<lambda>(_, s1). kexit_files k (Suc fd) p (upd_proc p (\<lambda>q. q\<lparr>pr_ofile := (pr_ofile q)(fd := None)\<rparr>) s1)))"

text \<open>\<^verbatim>\<open>kexit\<close> up to its call of \<^verbatim>\<open>sched\<close>, from which it does not return.\<close>

definition kexit_end :: "nat \<Rightarrow> u32 \<Rightarrow> 'a kst_scheme \<Rightarrow> 'a kst_scheme" where
  "kexit_end p status s =
     (let s1 = reparent p s; s2 = wakeup (chan_of (pr_parent (procs s1 p))) s1 in
      upd_proc p (\<lambda>q. q\<lparr>pr_xstate := status, pr_state := ZOMBIE\<rparr>) s2)"

definition kexit :: "u32 \<Rightarrow> 'a kst_scheme \<Rightarrow> (unit \<times> 'a kst_scheme) kres" where
  "kexit status s =
     (let p = me s in
      if initproc s = Some p then Panic ''init exiting''
      else kbind (kexit_files NOFILE 0 p s) (\<lambda>(_, s1).
        kbind (begin_op s1) (\<lambda>(_, s2). with_ip (pr_cwd (procs s2 p)) (\<lambda>d.
        kbind (iput d s2) (\<lambda>(_, s3).
        kbind (end_op s3) (\<lambda>(_, s4).
        Ok ((), kexit_end p status (upd_proc p (\<lambda>q. q\<lparr>pr_cwd := None\<rparr>) s4))))))))"

primrec kwait_scan :: "nat \<Rightarrow> nat \<Rightarrow> u64 \<Rightarrow> bool \<Rightarrow> 'a kst_scheme \<Rightarrow> (int wait \<times> 'a kst_scheme) kres" where
  "kwait_scan 0 i addr havekids s =
     (if \<not> havekids \<or> killed (me s) s then Ok (Done (- 1), s) else Ok (Asleep 0, sleep_on (ChProc (me s)) s))"
| "kwait_scan (Suc k) i addr havekids s =
     (if pr_parent (procs s i) = Some (me s) then
        if pr_state (procs s i) = ZOMBIE then
          let pid = pr_pid (procs s i) in
          kbind (if addr \<noteq> 0 then on_vm (copyout (pr_pagetable (myproc s)) addr (le_bytes 4 (pr_xstate (procs s i)))) s else Ok (0, s)) (\<lambda>(r, s1).
            if r < 0 then Ok (Done (- 1), s1)
            else kbind (freeproc i s1) (\<lambda>(_, s2). Ok (Done pid, s2)))
        else kwait_scan k (Suc i) addr True s
      else kwait_scan k (Suc i) addr havekids s)"

definition kwait :: "u64 \<Rightarrow> 'a kst_scheme \<Rightarrow> (int wait \<times> 'a kst_scheme) kres" where
  "kwait addr s = kwait_scan NPROC 0 addr False s"

subsection \<open>Scheduling\<close>

text \<open>
  One pass of the loop of \<^verbatim>\<open>scheduler\<close>. \<open>run i\<close> is what happens from the switch to process \<open>i\<close> until it switches back; the result lists the processes the pass ran,
  and \<^verbatim>\<open>wfi\<close> follows when there are none.
\<close>

primrec scheduler_pass :: "(nat \<Rightarrow> 'a kst_scheme \<Rightarrow> 'a kst_scheme) \<Rightarrow> nat \<Rightarrow> nat \<Rightarrow> 'a kst_scheme \<Rightarrow> nat list \<times> 'a kst_scheme" where
  "scheduler_pass run 0 i s = ([], s)"
| "scheduler_pass run (Suc k) i s =
     (if pr_state (procs s i) = RUNNABLE then
        let s1 = load_cur ((upd_proc i (\<lambda>p. p\<lparr>pr_state := RUNNING\<rparr>) s)\<lparr>cur := Some i\<rparr>);
            s2 = (run i s1)\<lparr>cur := None\<rparr> in
        (case scheduler_pass run k (Suc i) s2 of (ran_later, s3) \<Rightarrow> (i # ran_later, s3))
      else scheduler_pass run k (Suc i) s)"

definition scheduler :: "(nat \<Rightarrow> 'a kst_scheme \<Rightarrow> 'a kst_scheme) \<Rightarrow> 'a kst_scheme \<Rightarrow> nat list \<times> 'a kst_scheme" where
  "scheduler run s = scheduler_pass run NPROC 0 (s\<lparr>cur := None\<rparr>)"

text \<open>
  \<^verbatim>\<open>sched\<close> and \<^verbatim>\<open>yield\<close> on the lock of the process, the CPU and the process state. \<open>swtch\<close> gives the CPU the process comes back on, with its lock and interrupt state.
\<close>

definition sched :: "(spinlock \<Rightarrow> cpu \<Rightarrow> nat \<times> spinlock \<times> cpu) \<Rightarrow> nat \<Rightarrow> procstate \<Rightarrow> spinlock \<Rightarrow> cpu \<Rightarrow> (nat \<times> spinlock \<times> cpu) kres" where
  "sched swtch hart st plk c =
     (if \<not> holding hart plk then Panic ''sched p->lock''
      else if noff c \<noteq> 1 then Panic ''sched locks''
      else if st = RUNNING then Panic ''sched RUNNING''
      else if sie c then Panic ''sched interruptible''
      else case swtch plk c of (hart2, lk2, c2) \<Rightarrow> Ok (hart2, lk2, c2\<lparr>intena := intena c\<rparr>))"

definition yield :: "(spinlock \<Rightarrow> cpu \<Rightarrow> nat \<times> spinlock \<times> cpu) \<Rightarrow> nat \<Rightarrow> spinlock \<Rightarrow> cpu \<Rightarrow> (nat \<times> spinlock \<times> cpu) kres" where
  "yield swtch hart plk c =
     kbind (acquire hart plk c) (\<lambda>(lk1, c1).
     kbind (sched swtch hart RUNNABLE lk1 c1) (\<lambda>(hart2, lk2, c2).
     kbind (release hart2 lk2 c2) (\<lambda>(lk3, c3). Ok (hart2, lk3, c3))))"

section \<open>The scheduler\<close>

text \<open>What the scheduler relies on: a process that runs does not take another one out of the runnable state.\<close>

definition leaves_runnable :: "(nat \<Rightarrow> 'a kst_scheme \<Rightarrow> 'a kst_scheme) \<Rightarrow> bool" where
  "leaves_runnable run \<longleftrightarrow> (\<forall>i j s. i \<noteq> j \<and> pr_state (procs s j) = RUNNABLE \<longrightarrow> pr_state (procs (run i s) j) = RUNNABLE)"

lemma load_cur_procs [simp]: "procs (load_cur s) = procs s"
  by (simp add: load_cur_def Let_def)

lemma scheduler_pass_range: "sorted_wrt (<) (fst (scheduler_pass run k i s)) \<and> set (fst (scheduler_pass run k i s)) \<subseteq> {i..<i + k}"
proof (induction k arbitrary: i s)
  case (Suc k)
  show ?case
  proof (cases "pr_state (procs s i) = RUNNABLE")
    case True
    define t where "t = (run i (load_cur ((upd_proc i (\<lambda>p. p\<lparr>pr_state := RUNNING\<rparr>) s)\<lparr>cur := Some i\<rparr>)))\<lparr>cur := None\<rparr>"
    have "fst (scheduler_pass run (Suc k) i s) = i # fst (scheduler_pass run k (Suc i) t)"
      using True by (simp add: t_def Let_def split: prod.split)
    then show ?thesis using Suc.IH [of "Suc i" t] by auto
  next
    case False
    then show ?thesis using Suc.IH [of "Suc i" s] by auto
  qed
qed simp

lemma scheduler_pass_all:
  assumes "leaves_runnable run" "i \<le> j" "j < i + k" "pr_state (procs s j) = RUNNABLE"
  shows "j \<in> set (fst (scheduler_pass run k i s))"
  using assms(2-)
proof (induction k arbitrary: i s)
  case (Suc k)
  define t where "t = (run i (load_cur ((upd_proc i (\<lambda>p. p\<lparr>pr_state := RUNNING\<rparr>) s)\<lparr>cur := Some i\<rparr>)))\<lparr>cur := None\<rparr>"
  have r: "pr_state (procs s i) = RUNNABLE \<Longrightarrow> fst (scheduler_pass run (Suc k) i s) = i # fst (scheduler_pass run k (Suc i) t)"
    by (simp add: t_def Let_def split: prod.split)
  show ?case
  proof (cases "j = i")
    case True
    then show ?thesis using r Suc.prems(3) by simp
  next
    case False
    then have "pr_state (procs t j) = RUNNABLE"
      using assms(1) [unfolded leaves_runnable_def, rule_format, of i j "load_cur ((upd_proc i (\<lambda>p. p\<lparr>pr_state := RUNNING\<rparr>) s)\<lparr>cur := Some i\<rparr>)"] Suc.prems(3)
      by (simp add: t_def)
    then have "j \<in> set (fst (scheduler_pass run k (Suc i) t))" "j \<in> set (fst (scheduler_pass run k (Suc i) s))"
      using Suc.IH [of "Suc i"] Suc.prems False by auto
    then show ?thesis using r by (cases "pr_state (procs s i) = RUNNABLE") auto
  qed
qed simp

text \<open>
  C23: No runnable process starves on one CPU. Whatever the processes do when they run, as long as they do not take each other out of the runnable state, one pass of the
  scheduler runs every process that was runnable when the pass began, each at most once and in table order, and it finds nothing to run only when no process
  was runnable.
\<close>

theorem scheduler_runs_every_runnable:
  assumes "leaves_runnable run"
  shows "{i. i < NPROC \<and> pr_state (procs s i) = RUNNABLE} \<subseteq> set (fst (scheduler run s)) \<and> sorted_wrt (<) (fst (scheduler run s)) \<and>
    set (fst (scheduler run s)) \<subseteq> {..<NPROC} \<and> (fst (scheduler run s) = [] \<longrightarrow> (\<forall>i < NPROC. pr_state (procs s i) \<noteq> RUNNABLE))"
proof -
  have all: "j \<in> set (fst (scheduler run s))" if "j < NPROC" "pr_state (procs s j) = RUNNABLE" for j
    unfolding scheduler_def using that by (intro scheduler_pass_all [OF assms]) simp_all
  show ?thesis using all scheduler_pass_range [of run NPROC 0 "s\<lparr>cur := None\<rparr>"] unfolding scheduler_def
    by (auto simp: atLeast0LessThan)
qed

theorem scheduler_runs_every_runnable_witness:
  "\<exists>s :: kst. 5 \<in> set (fst (scheduler (\<lambda>i. upd_proc i (\<lambda>p. p\<lparr>pr_state := ZOMBIE\<rparr>)) s)) \<and> pr_state (procs s 4) = RUNNABLE"
proof -
  let ?run = "\<lambda>i. upd_proc i (\<lambda>p. p\<lparr>pr_state := ZOMBIE\<rparr>)"
  let ?s = "demo_kst demo_vm (\<lambda>i. if i = 4 \<or> i = 5 then no_proc\<lparr>pr_state := RUNNABLE\<rparr> else no_proc)"
  have "leaves_runnable (?run :: nat \<Rightarrow> kst \<Rightarrow> kst)" by (simp add: leaves_runnable_def)
  from scheduler_runs_every_runnable [OF this, of ?s] have "5 \<in> set (fst (scheduler ?run ?s))" by (auto simp: NPROC_def)
  then show ?thesis by (intro exI [of _ ?s]) simp
qed

section \<open>Giving up the CPU\<close>

text \<open>What the scheduler promises a process it switches back to: it holds its lock, with interrupts off and nothing else pushed.\<close>

definition comes_back :: "(spinlock \<Rightarrow> cpu \<Rightarrow> nat \<times> spinlock \<times> cpu) \<Rightarrow> bool" where
  "comes_back swtch \<longleftrightarrow> (\<forall>plk c. case swtch plk c of (h, plk2, c2) \<Rightarrow> holding h plk2 \<and> noff c2 = 1 \<and> \<not> sie c2)"

lemma yield_ok:
  assumes "comes_back swtch" "noff c = 0" "\<not> lk_locked plk"
  shows "\<exists>h plk2 c2. yield swtch hart plk c = Ok (h, plk2, c2) \<and> \<not> lk_locked plk2 \<and> noff c2 = 0 \<and> sie c2 = sie c"
proof -
  define plk1 where "plk1 = plk\<lparr>lk_locked := True, lk_cpu := Some hart\<rparr>"
  obtain h plk2 c2 where s: "swtch plk1 (push_off c) = (h, plk2, c2)" by (cases "swtch plk1 (push_off c)") auto
  have r: "holding h plk2" "noff c2 = 1" "\<not> sie c2" using assms(1) [unfolded comes_back_def, rule_format, of plk1 "push_off c"] s by simp_all
  have a: "acquire hart plk c = Ok (plk1, push_off c)" using assms(3) by (simp add: acquire_def holding_def plk1_def)
  have h1: "holding hart plk1" by (simp add: holding_def plk1_def)
  show ?thesis using a h1 s r assms(2) by (simp add: yield_def sched_def release_def pop_off_def Let_def)
qed

end
