(* ===== verification/Exec.thy ===== *)
theory Exec
  imports Proc
begin

section \<open>Program loading: kernel/exec.c and kernel/elf.h\<close>

text \<open>
  \<^verbatim>\<open>kexec\<close> on the path and the argument strings, without their terminating NULs. The headers are decoded from the bytes \<^verbatim>\<open>readi\<close> delivers, at the offsets of the
  structures of \<^verbatim>\<open>elf.h\<close>; a segment goes to the physical pages of the new address space. The result of the loading phase carries the size reached, since the
  error path frees that much.
\<close>

unbundle bit_operations_syntax

definition ELF_MAGIC :: u32 where "ELF_MAGIC = 0x464C457F"
definition ELF_PROG_LOAD :: u32 where "ELF_PROG_LOAD = 1"

record elfhdr =
  e_magic :: u32
  e_elf :: "u8 list"
  e_type :: u16
  e_machine :: u16
  e_version :: u32
  e_entry :: u64
  e_phoff :: u64
  e_shoff :: u64
  e_flags :: u32
  e_ehsize :: u16
  e_phentsize :: u16
  e_phnum :: u16
  e_shentsize :: u16
  e_shnum :: u16
  e_shstrndx :: u16

record proghdr =
  ph_type :: u32
  ph_flags :: u32
  ph_off :: u64
  ph_vaddr :: u64
  ph_paddr :: u64
  ph_filesz :: u64
  ph_memsz :: u64
  ph_align :: u64

definition field :: "u8 list \<Rightarrow> nat \<Rightarrow> nat \<Rightarrow> 'b::len word" where
  "field bs off n = le_word (take n (drop off bs))"

definition decode_elfhdr :: "u8 list \<Rightarrow> elfhdr" where
  "decode_elfhdr bs =
     \<lparr>e_magic = field bs 0 4, e_elf = take 12 (drop 4 bs), e_type = field bs 16 2, e_machine = field bs 18 2, e_version = field bs 20 4,
      e_entry = field bs 24 8, e_phoff = field bs 32 8, e_shoff = field bs 40 8, e_flags = field bs 48 4, e_ehsize = field bs 52 2,
      e_phentsize = field bs 54 2, e_phnum = field bs 56 2, e_shentsize = field bs 58 2, e_shnum = field bs 60 2, e_shstrndx = field bs 62 2\<rparr>"

definition decode_proghdr :: "u8 list \<Rightarrow> proghdr" where
  "decode_proghdr bs =
     \<lparr>ph_type = field bs 0 4, ph_flags = field bs 4 4, ph_off = field bs 8 8, ph_vaddr = field bs 16 8, ph_paddr = field bs 24 8,
      ph_filesz = field bs 32 8, ph_memsz = field bs 40 8, ph_align = field bs 48 8\<rparr>"

definition flags2perm :: "u32 \<Rightarrow> u64" where
  "flags2perm flags = (if flags AND 1 \<noteq> 0 then PTE_X else 0) OR (if flags AND 2 \<noteq> 0 then PTE_W else 0)"

definition put_mem :: "u64 \<Rightarrow> u8 list \<Rightarrow> 'a kst_scheme \<Rightarrow> 'a kst_scheme" where
  "put_mem pa bs s = s\<lparr>um := (um s)\<lparr>mem := store_bytes (mem (um s)) pa bs\<rparr>\<rparr>"

text \<open>The counter \<open>i\<close> stays below the memory size, as every page it passes is mapped, so it does not wrap; the offset into the file may.\<close>

function loadseg_loop :: "u64 \<Rightarrow> u64 \<Rightarrow> nat \<Rightarrow> u32 \<Rightarrow> u32 \<Rightarrow> nat \<Rightarrow> 'a kst_scheme \<Rightarrow> (int \<times> 'a kst_scheme) kres" where
  "loadseg_loop pagetable va ip offset sz i s =
     (if i < unat sz then
        kbind (on_vm (walkaddr pagetable (va + of_nat i)) s) (\<lambda>r.
          if fst r = 0 then Panic ''loadseg: address should exist''
          else let n = min (unat sz - i) 4096 in
            kbind (readi ip KernD (offset + of_nat i) (of_nat n) (snd r)) (\<lambda>q.
              let s2 = put_mem (fst r) (snd (fst q)) (snd q) in
              if fst (fst q) \<noteq> int n then Ok (- 1, s2) else loadseg_loop pagetable va ip offset sz (i + 4096) s2))
      else Ok (0, s))"
  by pat_completeness auto

termination loadseg_loop
  by (relation "measure (\<lambda>(pt, va, ip, off, sz, i, s). unat sz - i)") auto

declare loadseg_loop.simps [simp del]

definition loadseg :: "u64 \<Rightarrow> u64 \<Rightarrow> nat \<Rightarrow> u32 \<Rightarrow> u32 \<Rightarrow> 'a kst_scheme \<Rightarrow> (int \<times> 'a kst_scheme) kres" where
  "loadseg pagetable va ip offset sz s = loadseg_loop pagetable va ip offset sz 0 s"

text \<open>The loop over the program headers: success, and the size reached.\<close>

primrec kexec_load :: "nat \<Rightarrow> u64 \<Rightarrow> nat \<Rightarrow> u32 \<Rightarrow> u64 \<Rightarrow> 'a kst_scheme \<Rightarrow> ((bool \<times> u64) \<times> 'a kst_scheme) kres" where
  "kexec_load 0 pagetable ip off sz s = Ok ((True, sz), s)"
| "kexec_load (Suc k) pagetable ip off sz s =
     kbind (readi ip KernD off 56 s) (\<lambda>((r, bs), s1).
       let ph = decode_proghdr bs in
       if r \<noteq> 56 then Ok ((False, sz), s1)
       else if ph_type ph \<noteq> ELF_PROG_LOAD then kexec_load k pagetable ip (off + 56) sz s1
       else if ph_memsz ph < ph_filesz ph then Ok ((False, sz), s1)
       else if ph_vaddr ph + ph_memsz ph < ph_vaddr ph then Ok ((False, sz), s1)
       else if ph_vaddr ph mod PGSIZE \<noteq> 0 then Ok ((False, sz), s1)
       else kbind (on_vm (uvmalloc pagetable sz (ph_vaddr ph + ph_memsz ph) (flags2perm (ph_flags ph))) s1) (\<lambda>(sz1, s2).
         if sz1 = 0 then Ok ((False, sz), s2)
         else kbind (loadseg pagetable (ph_vaddr ph) ip (ucast (ph_off ph)) (ucast (ph_filesz ph)) s2) (\<lambda>(e, s3).
           if e < 0 then Ok ((False, sz1), s3) else kexec_load k pagetable ip (off + 56) sz1 s3)))"

text \<open>The argument strings onto the new stack: the stack pointer reached and the addresses of the strings, or nothing on an error.\<close>

primrec kexec_args :: "u8 list list \<Rightarrow> u64 \<Rightarrow> u64 \<Rightarrow> u64 \<Rightarrow> u64 list \<Rightarrow> 'a kst_scheme \<Rightarrow> ((u64 \<times> u64 list) option \<times> 'a kst_scheme) kres" where
  "kexec_args [] pagetable stackbase sp ustack s = Ok (Some (sp, ustack), s)"
| "kexec_args (a # argv) pagetable stackbase sp ustack s =
     (if length ustack \<ge> MAXARG then Ok (None, s)
      else let sp1 = sp - (of_nat (length a) + 1); sp2 = sp1 - sp1 mod 16 in
        if sp2 < stackbase then Ok (None, s)
        else kbind (on_vm (copyout pagetable sp2 (a @ [0])) s) (\<lambda>(r, s1).
          if r < 0 then Ok (None, s1) else kexec_args argv pagetable stackbase sp2 (ustack @ [sp2]) s1))"

primrec path_last :: "u8 list \<Rightarrow> u8 list \<Rightarrow> u8 list" where
  "path_last [] l = l"
| "path_last (c # cs) l = path_last cs (if c = 47 then cs else l)"

definition cstr_ptr :: "u8 list \<Rightarrow> cptr" where
  "cstr_ptr bs = (\<lambda>i. if i < length bs then bs ! i else 0)"

text \<open>The label \<^verbatim>\<open>bad\<close>.\<close>

definition kexec_bad :: "u64 \<Rightarrow> u64 \<Rightarrow> nat option \<Rightarrow> 'a kst_scheme \<Rightarrow> (int \<times> 'a kst_scheme) kres" where
  "kexec_bad pagetable sz ip s =
     kbind (if pagetable \<noteq> 0 then on_vm (proc_freepagetable pagetable sz) s else Ok ((), s)) (\<lambda>(_, s1).
     case ip of None \<Rightarrow> Ok (- 1, s1)
     | Some i \<Rightarrow> kbind (iunlockput i s1) (\<lambda>(_, s2). kbind (end_op s2) (\<lambda>(_, s3). Ok (- 1, s3))))"

text \<open>From the stack pages to the switch to the new image.\<close>

definition kexec_stack :: "u8 list \<Rightarrow> u8 list list \<Rightarrow> u64 \<Rightarrow> u64 \<Rightarrow> u64 \<Rightarrow> 'a kst_scheme \<Rightarrow> (int \<times> 'a kst_scheme) kres" where
  "kexec_stack path argv entry pagetable sz0 s =
     (let p = me s; oldsz = pr_sz (procs s p); sz = PGROUNDUP sz0; stk = of_nat USERSTACK * PGSIZE in
      kbind (on_vm (uvmalloc pagetable sz (sz + (of_nat USERSTACK + 1) * PGSIZE) PTE_W) s) (\<lambda>(sz1, s1).
      if sz1 = 0 then kexec_bad pagetable sz None s1
      else kbind (on_vm (uvmclear pagetable (sz1 - (of_nat USERSTACK + 1) * PGSIZE)) s1) (\<lambda>(_, s2).
        kbind (kexec_args argv pagetable (sz1 - stk) sz1 [] s2) (\<lambda>(r, s3).
        case r of None \<Rightarrow> kexec_bad pagetable sz1 None s3
        | Some (sp1, ustack) \<Rightarrow>
            let sp2 = sp1 - (of_nat (length ustack) + 1) * 8; sp3 = sp2 - sp2 mod 16 in
            if sp3 < sz1 - stk then kexec_bad pagetable sz1 None s3
            else kbind (on_vm (copyout pagetable sp3 (concat (map (le_bytes 8) (ustack @ [0])))) s3) (\<lambda>(e, s4).
              if e < 0 then kexec_bad pagetable sz1 None s4
              else
                let s5 = tf_set p TF_a1 sp3 s4;
                    s6 = upd_proc p (\<lambda>q. q\<lparr>pr_name := safestrcpy (pr_name q) (cstr_ptr (path_last path path)) 16\<rparr>) s5;
                    oldpagetable = pr_pagetable (procs s6 p);
                    s7 = load_cur (upd_proc p (\<lambda>q. q\<lparr>pr_pagetable := pagetable, pr_sz := sz1\<rparr>) s6);
                    s8 = tf_set p TF_sp sp3 (tf_set p TF_epc entry s7) in
                kbind (on_vm (proc_freepagetable oldpagetable oldsz) s8) (\<lambda>(_, s9). Ok (int (length ustack), s9)))))))"

definition kexec :: "u8 list \<Rightarrow> u8 list list \<Rightarrow> 'a kst_scheme \<Rightarrow> (int \<times> 'a kst_scheme) kres" where
  "kexec path argv s =
     kbind (begin_op s) (\<lambda>(_, s1).
     kbind (namei path s1) (\<lambda>(r, s2).
     case r of None \<Rightarrow> kbind (end_op s2) (\<lambda>(_, s3). Ok (- 1, s3))
     | Some ip \<Rightarrow>
         kbind (ilock (Some ip) s2) (\<lambda>(_, s3).
         kbind (readi ip KernD 0 64 s3) (\<lambda>((n, bs), s4).
         let elf = decode_elfhdr bs in
         if n \<noteq> 64 then kexec_bad 0 0 (Some ip) s4
         else if e_magic elf \<noteq> ELF_MAGIC then kexec_bad 0 0 (Some ip) s4
         else kbind (on_vm (proc_pagetable (trampoline s4) (pr_trapframe (myproc s4))) s4) (\<lambda>(pagetable, s5).
           if pagetable = 0 then kexec_bad 0 0 (Some ip) s5
           else kbind (kexec_load (unat (e_phnum elf)) pagetable ip (ucast (e_phoff elf)) 0 s5) (\<lambda>((ok, sz), s6).
             if \<not> ok then kexec_bad pagetable sz (Some ip) s6
             else kbind (iunlockput ip s6) (\<lambda>(_, s7).
               kbind (end_op s7) (\<lambda>(_, s8). kexec_stack path argv (e_entry elf) pagetable sz s8))))))))"

end
