(* ===== verification/Sysfile.thy ===== *)
theory Sysfile
  imports Exec
begin

section \<open>System call arguments and file system calls: kernel/syscall.c, kernel/sysfile.c\<close>

text \<open>
  A system call takes its arguments from the trapframe of the current process and returns an \<open>int wait\<close>: a value for \<^verbatim>\<open>a0\<close>, or \<open>Asleep\<close> when control went to the
  scheduler. An \<^verbatim>\<open>int\<close> argument is the signed value of the low half of its register. Strings are the bytes before the NUL.
\<close>

unbundle bit_operations_syntax

subsection \<open>Arguments\<close>

definition fetchaddr :: "u64 \<Rightarrow> 'a kst_scheme \<Rightarrow> ((int \<times> u64) \<times> 'a kst_scheme) kres" where
  "fetchaddr addr s =
     (let p = myproc s in
      if addr \<ge> pr_sz p \<or> addr + 8 > pr_sz p then Ok ((- 1, 0), s)
      else kbind (on_vm (copyin (pr_pagetable p) addr 8) s) (\<lambda>((r, bs), s1). if r \<noteq> 0 then Ok ((- 1, 0), s1) else Ok ((0, le_word bs), s1)))"

definition fetchstr :: "u64 \<Rightarrow> nat \<Rightarrow> 'a kst_scheme \<Rightarrow> ((int \<times> u8 list) \<times> 'a kst_scheme) kres" where
  "fetchstr addr mx s =
     kbind (on_vm (copyinstr (pr_pagetable (myproc s)) addr mx) s) (\<lambda>((r, bs), s1).
       let st = takeWhile (\<lambda>c. c \<noteq> 0) bs in
       if r < 0 then Ok ((- 1, []), s1) else Ok ((int (length st), st), s1))"

definition argraw :: "nat \<Rightarrow> 'a kst_scheme \<Rightarrow> u64 kres" where
  "argraw n s = (if n \<le> 5 then Ok (tf_get (me s) (TF_a0 + 8 * of_nat n) s) else Panic ''argraw'')"

definition argint :: "nat \<Rightarrow> 'a kst_scheme \<Rightarrow> int kres" where
  "argint n s = kbind (argraw n s) (\<lambda>w. Ok (sint (ucast w :: u32)))"

definition argaddr :: "nat \<Rightarrow> 'a kst_scheme \<Rightarrow> u64 kres" where
  "argaddr n s = argraw n s"

definition argstr :: "nat \<Rightarrow> nat \<Rightarrow> 'a kst_scheme \<Rightarrow> ((int \<times> u8 list) \<times> 'a kst_scheme) kres" where
  "argstr n mx s = kbind (argaddr n s) (\<lambda>addr. fetchstr addr mx s)"

subsection \<open>Descriptors\<close>

definition argfd :: "nat \<Rightarrow> 'a kst_scheme \<Rightarrow> (nat \<times> nat) option kres" where
  "argfd n s =
     kbind (argint n s) (\<lambda>fd.
       if fd < 0 \<or> fd \<ge> int NOFILE then Ok None
       else case pr_ofile (myproc s) (nat fd) of None \<Rightarrow> Ok None | Some f \<Rightarrow> Ok (Some (nat fd, f)))"

definition set_fd :: "nat \<Rightarrow> nat option \<Rightarrow> 'a kst_scheme \<Rightarrow> 'a kst_scheme" where
  "set_fd fd f s = upd_proc (me s) (\<lambda>p. p\<lparr>pr_ofile := (pr_ofile p)(fd := f)\<rparr>) s"

primrec fdalloc_loop :: "nat \<Rightarrow> nat \<Rightarrow> nat \<Rightarrow> 'a kst_scheme \<Rightarrow> nat option \<times> 'a kst_scheme" where
  "fdalloc_loop 0 fd f s = (None, s)"
| "fdalloc_loop (Suc k) fd f s =
     (if pr_ofile (myproc s) fd = None then (Some fd, set_fd fd (Some f) s) else fdalloc_loop k (Suc fd) f s)"

definition fdalloc :: "nat \<Rightarrow> 'a kst_scheme \<Rightarrow> nat option \<times> 'a kst_scheme" where
  "fdalloc f s = fdalloc_loop NOFILE 0 f s"

type_synonym 's sysres = "(int wait \<times> 's) kres"

definition sys_dup :: "'a kst_scheme \<Rightarrow> 'a kst_scheme sysres" where
  "sys_dup s =
     kbind (argfd 0 s) (\<lambda>r. case r of None \<Rightarrow> Ok (Done (- 1), s)
     | Some (_, f) \<Rightarrow>
         (case fdalloc f s of (None, s1) \<Rightarrow> Ok (Done (- 1), s1)
          | (Some fd, s1) \<Rightarrow> kbind (filedup f s1) (\<lambda>(_, s2). Ok (Done (int fd), s2))))"

definition sys_read :: "'a kst_scheme \<Rightarrow> 'a kst_scheme sysres" where
  "sys_read s =
     kbind (argaddr 1 s) (\<lambda>p. kbind (argint 2 s) (\<lambda>n.
     kbind (argfd 0 s) (\<lambda>r. case r of None \<Rightarrow> Ok (Done (- 1), s) | Some (_, f) \<Rightarrow> fileread f p n s)))"

definition sys_write :: "'a kst_scheme \<Rightarrow> 'a kst_scheme sysres" where
  "sys_write s =
     kbind (argaddr 1 s) (\<lambda>p. kbind (argint 2 s) (\<lambda>n.
     kbind (argfd 0 s) (\<lambda>r. case r of None \<Rightarrow> Ok (Done (- 1), s) | Some (_, f) \<Rightarrow> filewrite f p n s)))"

definition sys_close :: "'a kst_scheme \<Rightarrow> 'a kst_scheme sysres" where
  "sys_close s =
     kbind (argfd 0 s) (\<lambda>r. case r of None \<Rightarrow> Ok (Done (- 1), s)
     | Some (fd, f) \<Rightarrow> kbind (fileclose f (set_fd fd None s)) (\<lambda>(_, s1). Ok (Done 0, s1)))"

definition sys_fstat :: "u8 list \<Rightarrow> 'a kst_scheme \<Rightarrow> 'a kst_scheme sysres" where
  "sys_fstat pad s =
     kbind (argaddr 1 s) (\<lambda>st.
     kbind (argfd 0 s) (\<lambda>r. case r of None \<Rightarrow> Ok (Done (- 1), s)
     | Some (_, f) \<Rightarrow> kbind (filestat pad f st s) (\<lambda>(e, s1). Ok (Done e, s1))))"

subsection \<open>Links\<close>

definition finish :: "int \<Rightarrow> 'a kst_scheme \<Rightarrow> 'a kst_scheme sysres" where
  "finish r s = kbind (end_op s) (\<lambda>(_, s1). Ok (Done r, s1))"

definition put_finish :: "nat \<Rightarrow> int \<Rightarrow> 'a kst_scheme \<Rightarrow> 'a kst_scheme sysres" where
  "put_finish ip r s = kbind (iunlockput ip s) (\<lambda>(_, s1). finish r s1)"

definition add_nlink :: "nat \<Rightarrow> u16 \<Rightarrow> 'a kst_scheme \<Rightarrow> (unit \<times> 'a kst_scheme) kres" where
  "add_nlink ip d s = iupdate ip (upd_inode ip (\<lambda>x. x\<lparr>i_nlink := i_nlink x + d\<rparr>) s)"

definition sys_link_bad :: "nat \<Rightarrow> 'a kst_scheme \<Rightarrow> 'a kst_scheme sysres" where
  "sys_link_bad ip s = kbind (ilock (Some ip) s) (\<lambda>(_, s1). kbind (add_nlink ip (- 1) s1) (\<lambda>(_, s2). put_finish ip (- 1) s2))"

text \<open>\<^verbatim>\<open>sys_link\<close> once both paths are fetched.\<close>

definition link_paths :: "u8 list \<Rightarrow> u8 list \<Rightarrow> 'a kst_scheme \<Rightarrow> 'a kst_scheme sysres" where
  "link_paths old new s =
     kbind (begin_op s) (\<lambda>(_, s1).
     kbind (namei old s1) (\<lambda>(r, s2). case r of None \<Rightarrow> finish (- 1) s2
     | Some ip \<Rightarrow>
         kbind (ilock (Some ip) s2) (\<lambda>(_, s3).
         if i_type (itable s3 ip) = T_DIR then put_finish ip (- 1) s3
         else kbind (add_nlink ip 1 s3) (\<lambda>(_, s4).
           kbind (iunlock (Some ip) s4) (\<lambda>(_, s5).
           kbind (nameiparent new (\<lambda>_. 0) s5) (\<lambda>((d, name), s6). case d of None \<Rightarrow> sys_link_bad ip s6
           | Some dp \<Rightarrow>
               kbind (ilock (Some dp) s6) (\<lambda>(_, s7).
               kbind (if i_dev (itable s7 dp) \<noteq> i_dev (itable s7 ip) then Ok (- 1, s7) else dirlink dp name (i_inum (itable s7 ip)) s7) (\<lambda>(e, s8).
               if e < 0 then kbind (iunlockput dp s8) (\<lambda>(_, s9). sys_link_bad ip s9)
               else kbind (iunlockput dp s8) (\<lambda>(_, s9). kbind (iput ip s9) (\<lambda>(_, s10). finish 0 s10))))))))))"

definition sys_link :: "'a kst_scheme \<Rightarrow> 'a kst_scheme sysres" where
  "sys_link s =
     kbind (argstr 0 MAXPATH s) (\<lambda>((e, old), s1). if e < 0 then Ok (Done (- 1), s1)
     else kbind (argstr 1 MAXPATH s1) (\<lambda>((e2, new), s2). if e2 < 0 then Ok (Done (- 1), s2) else link_paths old new s2))"

function isdirempty_loop :: "nat \<Rightarrow> nat \<Rightarrow> nat \<Rightarrow> 'a kst_scheme \<Rightarrow> (bool \<times> 'a kst_scheme) kres" where
  "isdirempty_loop dp sz off s =
     (if off < sz then
        kbind (readi dp KernD (of_nat off) 16 s) (\<lambda>r.
          if fst (fst r) \<noteq> 16 then Panic ''isdirempty: readi''
          else if de_inum (snd (fst r)) \<noteq> 0 then Ok (False, snd r)
          else isdirempty_loop dp sz (off + 16) (snd r))
      else Ok (True, s))"
  by pat_completeness auto

termination isdirempty_loop
  by (relation "measure (\<lambda>(dp, sz, off, s). sz - off)") auto

declare isdirempty_loop.simps [simp del]

definition isdirempty :: "nat \<Rightarrow> 'a kst_scheme \<Rightarrow> (bool \<times> 'a kst_scheme) kres" where
  "isdirempty dp s = isdirempty_loop dp (unat (i_size (itable s dp))) 32 s"

text \<open>The part of \<^verbatim>\<open>sys_unlink\<close> that removes the entry at \<open>off\<close> of \<open>dp\<close> for the locked inode \<open>ip\<close>.\<close>

definition unlink_entry :: "nat \<Rightarrow> nat \<Rightarrow> nat \<Rightarrow> 'a kst_scheme \<Rightarrow> 'a kst_scheme sysres" where
  "unlink_entry dp ip off s =
     kbind (writei dp (KernS (replicate 16 0)) (of_nat off) 16 s) (\<lambda>(w, s1).
     if w \<noteq> 16 then Panic ''unlink: writei''
     else kbind (if i_type (itable s1 ip) = T_DIR then add_nlink dp (- 1) s1 else Ok ((), s1)) (\<lambda>(_, s2).
       kbind (iunlockput dp s2) (\<lambda>(_, s3).
       kbind (add_nlink ip (- 1) s3) (\<lambda>(_, s4). put_finish ip 0 s4))))"

definition unlink_path :: "u8 list \<Rightarrow> 'a kst_scheme \<Rightarrow> 'a kst_scheme sysres" where
  "unlink_path path s =
     kbind (begin_op s) (\<lambda>(_, s1).
     kbind (nameiparent path (\<lambda>_. 0) s1) (\<lambda>((d, name), s2). case d of None \<Rightarrow> finish (- 1) s2
     | Some dp \<Rightarrow>
         kbind (ilock (Some dp) s2) (\<lambda>(_, s3).
         if namecmp name (cstr_ptr (str ''.'')) = 0 \<or> namecmp name (cstr_ptr (str ''..'')) = 0 then put_finish dp (- 1) s3
         else kbind (dirlookup dp name s3) (\<lambda>(r, s4). case r of None \<Rightarrow> put_finish dp (- 1) s4
         | Some (ip, off) \<Rightarrow>
             kbind (ilock (Some ip) s4) (\<lambda>(_, s5).
             if sint (i_nlink (itable s5 ip)) < 1 then Panic ''unlink: nlink < 1''
             else kbind (if i_type (itable s5 ip) = T_DIR then isdirempty ip s5 else Ok (True, s5)) (\<lambda>(emp, s6).
               if \<not> emp then kbind (iunlockput ip s6) (\<lambda>(_, s7). put_finish dp (- 1) s7)
               else unlink_entry dp ip off s6))))))"

definition sys_unlink :: "'a kst_scheme \<Rightarrow> 'a kst_scheme sysres" where
  "sys_unlink s = kbind (argstr 0 MAXPATH s) (\<lambda>((e, path), s1). if e < 0 then Ok (Done (- 1), s1) else unlink_path path s1)"

subsection \<open>Creating and opening\<close>

definition create_fail :: "nat \<Rightarrow> nat \<Rightarrow> 'a kst_scheme \<Rightarrow> (nat option \<times> 'a kst_scheme) kres" where
  "create_fail dp ip s =
     kbind (iupdate ip (upd_inode ip (\<lambda>x. x\<lparr>i_nlink := 0\<rparr>) s)) (\<lambda>(_, s1).
     kbind (iunlockput ip s1) (\<lambda>(_, s2).
     kbind (iunlockput dp s2) (\<lambda>(_, s3). Ok (None, s3))))"

text \<open>The entries \<^verbatim>\<open>.\<close> and \<^verbatim>\<open>..\<close> of a new directory.\<close>

definition create_dots :: "u16 \<Rightarrow> nat \<Rightarrow> nat \<Rightarrow> 'a kst_scheme \<Rightarrow> (int \<times> 'a kst_scheme) kres" where
  "create_dots type dp ip s =
     (if type = T_DIR then
        kbind (dirlink ip (cstr_ptr (str ''.'')) (i_inum (itable s ip)) s) (\<lambda>(e, s1).
          if e < 0 then Ok (- 1, s1) else dirlink ip (cstr_ptr (str ''..'')) (i_inum (itable s1 dp)) s1)
      else Ok (0, s))"

definition create :: "u8 list \<Rightarrow> u16 \<Rightarrow> u16 \<Rightarrow> u16 \<Rightarrow> 'a kst_scheme \<Rightarrow> (nat option \<times> 'a kst_scheme) kres" where
  "create path type major minor s =
     kbind (nameiparent path (\<lambda>_. 0) s) (\<lambda>((d, name), s1). case d of None \<Rightarrow> Ok (None, s1)
     | Some dp \<Rightarrow>
         kbind (ilock (Some dp) s1) (\<lambda>(_, s2).
         kbind (dirlookup dp name s2) (\<lambda>(r, s3). case r of
           Some (ip, _) \<Rightarrow>
             kbind (iunlockput dp s3) (\<lambda>(_, s4).
             kbind (ilock (Some ip) s4) (\<lambda>(_, s5).
             if type = T_FILE \<and> (i_type (itable s5 ip) = T_FILE \<or> i_type (itable s5 ip) = T_DEVICE) then Ok (Some ip, s5)
             else kbind (iunlockput ip s5) (\<lambda>(_, s6). Ok (None, s6))))
         | None \<Rightarrow>
             kbind (ialloc (i_dev (itable s3 dp)) type s3) (\<lambda>(q, s4). case q of
               None \<Rightarrow> kbind (iunlockput dp s4) (\<lambda>(_, s5). Ok (None, s5))
             | Some ip \<Rightarrow>
                 kbind (ilock (Some ip) s4) (\<lambda>(_, s5).
                 kbind (iupdate ip (upd_inode ip (\<lambda>x. x\<lparr>i_major := major, i_minor := minor, i_nlink := 1\<rparr>) s5)) (\<lambda>(_, s6).
                 kbind (create_dots type dp ip s6) (\<lambda>(e, s7).
                 if e < 0 then create_fail dp ip s7
                 else kbind (dirlink dp name (i_inum (itable s7 ip)) s7) (\<lambda>(e2, s8).
                   if e2 < 0 then create_fail dp ip s8
                   else kbind (if type = T_DIR then add_nlink dp 1 s8 else Ok ((), s8)) (\<lambda>(_, s9).
                     kbind (iunlockput dp s9) (\<lambda>(_, s10). Ok (Some ip, s10)))))))))))"

definition set_open :: "nat \<Rightarrow> nat \<Rightarrow> u32 \<Rightarrow> 'a kst_scheme \<Rightarrow> 'a kst_scheme" where
  "set_open f ip omode s =
     (let s1 = (if i_type (itable s ip) = T_DEVICE then upd_file f (\<lambda>x. x\<lparr>f_type := FD_DEVICE, f_major := i_major (itable s ip)\<rparr>) s
                else upd_file f (\<lambda>x. x\<lparr>f_type := FD_INODE, f_off := 0\<rparr>) s) in
      upd_file f (\<lambda>x. x\<lparr>f_ip := Some ip, f_readable := (omode AND O_WRONLY = 0), f_writable := (omode AND O_WRONLY \<noteq> 0 \<or> omode AND O_RDWR \<noteq> 0)\<rparr>) s1)"

definition open_finish :: "nat \<Rightarrow> u32 \<Rightarrow> nat \<Rightarrow> 'a kst_scheme \<Rightarrow> 'a kst_scheme sysres" where
  "open_finish ip omode fd s =
     kbind (if omode AND O_TRUNC \<noteq> 0 \<and> i_type (itable s ip) = T_FILE then itrunc ip s else Ok ((), s)) (\<lambda>(_, s1).
     kbind (iunlock (Some ip) s1) (\<lambda>(_, s2). finish (int fd) s2))"

text \<open>The rest of \<^verbatim>\<open>sys_open\<close>, with the inode locked.\<close>

definition open_inode :: "nat \<Rightarrow> u32 \<Rightarrow> 'a kst_scheme \<Rightarrow> 'a kst_scheme sysres" where
  "open_inode ip omode s =
     (if i_type (itable s ip) = T_DEVICE \<and> (sint (i_major (itable s ip)) < 0 \<or> sint (i_major (itable s ip)) \<ge> int NDEV) then put_finish ip (- 1) s
      else case filealloc s of (None, s1) \<Rightarrow> put_finish ip (- 1) s1
      | (Some f, s1) \<Rightarrow>
          (case fdalloc f s1 of
             (None, s2) \<Rightarrow> kbind (fileclose f s2) (\<lambda>(_, s3). put_finish ip (- 1) s3)
           | (Some fd, s2) \<Rightarrow> open_finish ip omode fd (set_open f ip omode s2)))"

definition open_path :: "u8 list \<Rightarrow> u32 \<Rightarrow> 'a kst_scheme \<Rightarrow> 'a kst_scheme sysres" where
  "open_path path omode s =
     kbind (begin_op s) (\<lambda>(_, s1).
     if omode AND O_CREATE \<noteq> 0 then
       kbind (create path T_FILE 0 0 s1) (\<lambda>(r, s2). case r of None \<Rightarrow> finish (- 1) s2 | Some ip \<Rightarrow> open_inode ip omode s2)
     else
       kbind (namei path s1) (\<lambda>(r, s2). case r of None \<Rightarrow> finish (- 1) s2
       | Some ip \<Rightarrow>
           kbind (ilock (Some ip) s2) (\<lambda>(_, s3).
           if i_type (itable s3 ip) = T_DIR \<and> omode \<noteq> O_RDONLY then put_finish ip (- 1) s3 else open_inode ip omode s3)))"

definition sys_open :: "'a kst_scheme \<Rightarrow> 'a kst_scheme sysres" where
  "sys_open s =
     kbind (argint 1 s) (\<lambda>omode.
     kbind (argstr 0 MAXPATH s) (\<lambda>((n, path), s1). if n < 0 then Ok (Done (- 1), s1) else open_path path (word_of_int omode) s1))"

definition sys_mkdir :: "'a kst_scheme \<Rightarrow> 'a kst_scheme sysres" where
  "sys_mkdir s =
     kbind (begin_op s) (\<lambda>(_, s1).
     kbind (argstr 0 MAXPATH s1) (\<lambda>((n, path), s2). if n < 0 then finish (- 1) s2
     else kbind (create path T_DIR 0 0 s2) (\<lambda>(r, s3). case r of None \<Rightarrow> finish (- 1) s3 | Some ip \<Rightarrow> put_finish ip 0 s3)))"

definition sys_mknod :: "'a kst_scheme \<Rightarrow> 'a kst_scheme sysres" where
  "sys_mknod s =
     kbind (begin_op s) (\<lambda>(_, s1).
     kbind (argint 1 s1) (\<lambda>major. kbind (argint 2 s1) (\<lambda>minor.
     kbind (argstr 0 MAXPATH s1) (\<lambda>((n, path), s2). if n < 0 then finish (- 1) s2
     else kbind (create path T_DEVICE (word_of_int major) (word_of_int minor) s2) (\<lambda>(r, s3).
       case r of None \<Rightarrow> finish (- 1) s3 | Some ip \<Rightarrow> put_finish ip 0 s3)))))"

definition sys_chdir :: "'a kst_scheme \<Rightarrow> 'a kst_scheme sysres" where
  "sys_chdir s =
     kbind (begin_op s) (\<lambda>(_, s1).
     kbind (argstr 0 MAXPATH s1) (\<lambda>((n, path), s2). if n < 0 then finish (- 1) s2
     else kbind (namei path s2) (\<lambda>(r, s3). case r of None \<Rightarrow> finish (- 1) s3
     | Some ip \<Rightarrow>
         kbind (ilock (Some ip) s3) (\<lambda>(_, s4).
         if i_type (itable s4 ip) \<noteq> T_DIR then put_finish ip (- 1) s4
         else kbind (iunlock (Some ip) s4) (\<lambda>(_, s5). with_ip (pr_cwd (myproc s5)) (\<lambda>d.
           kbind (iput d s5) (\<lambda>(_, s6).
           kbind (end_op s6) (\<lambda>(_, s7). Ok (Done 0, load_cur (upd_proc (me s7) (\<lambda>p. p\<lparr>pr_cwd := Some ip\<rparr>) s7))))))))))"

subsection \<open>exec and pipe\<close>

primrec free_pages :: "u64 list \<Rightarrow> 'a kst_scheme \<Rightarrow> (unit \<times> 'a kst_scheme) kres" where
  "free_pages [] s = Ok ((), s)"
| "free_pages (a # as) s = kbind (on_vm (kfree a) s) (\<lambda>(_, s1). free_pages as s1)"

text \<open>The loop that fetches the arguments into new pages: whether it succeeded, the strings, and the pages in use.\<close>

primrec exec_args :: "nat \<Rightarrow> u64 \<Rightarrow> u8 list list \<Rightarrow> u64 list \<Rightarrow> 'a kst_scheme \<Rightarrow> ((bool \<times> u8 list list \<times> u64 list) \<times> 'a kst_scheme) kres" where
  "exec_args 0 uargv strs pages s = Ok ((False, strs, pages), s)"
| "exec_args (Suc k) uargv strs pages s =
     kbind (fetchaddr (uargv + 8 * of_nat (length pages)) s) (\<lambda>((e, uarg), s1).
     if e < 0 then Ok ((False, strs, pages), s1)
     else if uarg = 0 then Ok ((True, strs, pages), s1)
     else
       let pg = fst (kalloc (um s1)); s2 = s1\<lparr>um := snd (kalloc (um s1))\<rparr> in
       if pg = 0 then Ok ((False, strs, pages), s2)
       else kbind (fetchstr uarg 4096 s2) (\<lambda>((n, st), s3).
         if n < 0 then Ok ((False, strs, pages @ [pg]), s3)
         else exec_args k uargv (strs @ [st]) (pages @ [pg]) (put_mem pg (st @ [0]) s3)))"

definition sys_exec :: "'a kst_scheme \<Rightarrow> 'a kst_scheme sysres" where
  "sys_exec s =
     kbind (argaddr 1 s) (\<lambda>uargv.
     kbind (argstr 0 MAXPATH s) (\<lambda>((n, path), s1). if n < 0 then Ok (Done (- 1), s1)
     else kbind (exec_args MAXARG uargv [] [] s1) (\<lambda>((ok, strs, pages), s2).
       if ok then kbind (kexec path strs s2) (\<lambda>(r, s3). kbind (free_pages pages s3) (\<lambda>(_, s4). Ok (Done r, s4)))
       else kbind (free_pages pages s2) (\<lambda>(_, s3). Ok (Done (- 1), s3)))))"

definition close_both :: "nat \<Rightarrow> nat \<Rightarrow> 'a kst_scheme \<Rightarrow> 'a kst_scheme sysres" where
  "close_both rf wrf s = kbind (fileclose rf s) (\<lambda>(_, s1). kbind (fileclose wrf s1) (\<lambda>(_, s2). Ok (Done (- 1), s2)))"

text \<open>The second half of \<^verbatim>\<open>sys_pipe\<close>, which tells the user both descriptors, and the allocation of the descriptors.\<close>

definition pipe_out :: "nat \<Rightarrow> nat \<Rightarrow> nat \<Rightarrow> nat \<Rightarrow> u64 \<Rightarrow> 'a kst_scheme \<Rightarrow> 'a kst_scheme sysres" where
  "pipe_out rf wrf fd0 fd1 fdarray s =
     (let pt = pr_pagetable (myproc s); bad = (\<lambda>t. close_both rf wrf (set_fd fd1 None (set_fd fd0 None t))) in
      kbind (on_vm (copyout pt fdarray (le_bytes 4 (of_nat fd0 :: u32))) s) (\<lambda>(e, s1).
      if e < 0 then bad s1
      else kbind (on_vm (copyout pt (fdarray + 4) (le_bytes 4 (of_nat fd1 :: u32))) s1) (\<lambda>(e2, s2).
        if e2 < 0 then bad s2 else Ok (Done 0, s2))))"

definition pipe_fds :: "nat \<Rightarrow> nat \<Rightarrow> u64 \<Rightarrow> 'a kst_scheme \<Rightarrow> 'a kst_scheme sysres" where
  "pipe_fds rf wrf fdarray s =
     (case fdalloc rf s of (None, s1) \<Rightarrow> close_both rf wrf s1
      | (Some fd0, s1) \<Rightarrow>
          (case fdalloc wrf s1 of (None, s2) \<Rightarrow> close_both rf wrf (set_fd fd0 None s2)
           | (Some fd1, s2) \<Rightarrow> pipe_out rf wrf fd0 fd1 fdarray s2))"

definition sys_pipe :: "'a kst_scheme \<Rightarrow> 'a kst_scheme sysres" where
  "sys_pipe s =
     kbind (argaddr 0 s) (\<lambda>fdarray.
     kbind (pipealloc s) (\<lambda>(r, s1). case r of None \<Rightarrow> Ok (Done (- 1), s1) | Some (rf, wrf) \<Rightarrow> pipe_fds rf wrf fdarray s1))"

end
