(* ===== verification/Trap.thy ===== *)
theory Trap
  imports Sysfile
begin

section \<open>Process system calls, dispatch and traps: kernel/sysproc.c, kernel/syscall.c, kernel/trap.c\<close>

text \<open>
  The system calls about processes, the table that maps call numbers to them, and the trap handlers. The control registers are the record \<open>hw\<close>, together with what
  the devices answer: the interrupt number of the PLIC, whether the UART is idle and what it received, the clock. Disk transfers are complete when
  \<^verbatim>\<open>virtio_disk_rw\<close> returns in this model, so the interrupt of the disk changes nothing here. \<^verbatim>\<open>usertrap\<close> is split where it calls \<^verbatim>\<open>yield\<close>: what runs
  before, and \<^verbatim>\<open>usertrap_finish\<close>, after the process is scheduled again. A panic ends the model, so the line that \<^verbatim>\<open>kerneltrap\<close> prints before it panics is left out.
\<close>

unbundle bit_operations_syntax

subsection \<open>sysproc.c\<close>

definition SBRK_EAGER :: int where "SBRK_EAGER = 1"
definition SBRK_LAZY :: int where "SBRK_LAZY = 2"

text \<open>\<^verbatim>\<open>kexit\<close> does not return; the process is left to the scheduler.\<close>

definition sys_exit :: "'a kst_scheme \<Rightarrow> 'a kst_scheme sysres" where
  "sys_exit s = kbind (argint 0 s) (\<lambda>n. kbind (kexit (word_of_int n) s) (\<lambda>(_, s1). Ok (Asleep 0, s1)))"

definition sys_getpid :: "'a kst_scheme \<Rightarrow> 'a kst_scheme sysres" where
  "sys_getpid s = Ok (Done (pr_pid (myproc s)), s)"

definition sys_fork :: "'a kst_scheme \<Rightarrow> 'a kst_scheme sysres" where
  "sys_fork s = kbind (kfork s) (\<lambda>(r, s1). Ok (Done r, s1))"

definition sys_wait :: "'a kst_scheme \<Rightarrow> 'a kst_scheme sysres" where
  "sys_wait s = kbind (argaddr 0 s) (\<lambda>p. kwait p s)"

definition sbrk :: "int \<Rightarrow> int \<Rightarrow> 'a kst_scheme \<Rightarrow> 'a kst_scheme sysres" where
  "sbrk n t s =
     (let addr = pr_sz (myproc s) in
      if t = SBRK_EAGER \<or> n < 0 then kbind (growproc n s) (\<lambda>(r, s1). Ok (Done (if r < 0 then - 1 else uint addr), s1))
      else if addr + word_of_int n < addr then Ok (Done (- 1), s)
      else Ok (Done (uint addr), load_cur (upd_proc (me s) (\<lambda>p. p\<lparr>pr_sz := pr_sz p + word_of_int n\<rparr>) s)))"

definition sys_sbrk :: "'a kst_scheme \<Rightarrow> 'a kst_scheme sysres" where
  "sys_sbrk s = kbind (argint 0 s) (\<lambda>n. kbind (argint 1 s) (\<lambda>t. sbrk n t s))"

text \<open>The loop of \<^verbatim>\<open>sys_pause\<close>, entered again after a wakeup with the same \<open>ticks0\<close>.\<close>

definition sys_pause_loop :: "u32 \<Rightarrow> int \<Rightarrow> 'a kst_scheme \<Rightarrow> 'a kst_scheme sysres" where
  "sys_pause_loop ticks0 n s =
     (if ticks s - ticks0 < word_of_int n then
        if killed (me s) s then Ok (Done (- 1), s) else Ok (Asleep (unat (ticks s - ticks0)), sleep_on ChTicks s)
      else Ok (Done 0, s))"

definition sys_pause :: "'a kst_scheme \<Rightarrow> 'a kst_scheme sysres" where
  "sys_pause s = kbind (argint 0 s) (\<lambda>n. sys_pause_loop (ticks s) (if n < 0 then 0 else n) s)"

definition sys_kill :: "'a kst_scheme \<Rightarrow> 'a kst_scheme sysres" where
  "sys_kill s = kbind (argint 0 s) (\<lambda>pid. case kkill pid s of (r, s1) \<Rightarrow> Ok (Done r, s1))"

definition sys_uptime :: "'a kst_scheme \<Rightarrow> 'a kst_scheme sysres" where
  "sys_uptime s = Ok (Done (uint (ticks s)), s)"

subsection \<open>Dispatch\<close>

text \<open>The table, by number; \<open>pad\<close> are the padding bytes \<^verbatim>\<open>fstat\<close> copies out.\<close>

definition syscalls :: "u8 list \<Rightarrow> ('a kst_scheme \<Rightarrow> 'a kst_scheme sysres) list" where
  "syscalls pad = [sys_fork, sys_exit, sys_wait, sys_pipe, sys_read, sys_kill, sys_exec, sys_fstat pad, sys_chdir, sys_dup, sys_getpid, sys_sbrk, sys_pause,
     sys_uptime, sys_open, sys_write, sys_mknod, sys_unlink, sys_link, sys_mkdir, sys_close]"

definition syscall :: "u8 list \<Rightarrow> 'a kst_scheme \<Rightarrow> (bool \<times> 'a kst_scheme) kres" where
  "syscall pad s =
     (let num = sint (ucast (tf_get (me s) TF_a7 s) :: u32) in
      if 0 < num \<and> num < 22 then
        kbind ((syscalls pad ! (nat num - 1)) s) (\<lambda>(r, s1).
          case r of Done v \<Rightarrow> Ok (True, tf_set (me s1) TF_a0 (word_of_int v) s1) | Asleep _ \<Rightarrow> Ok (False, s1))
      else
        Ok (True, tf_set (me s) TF_a0 (- 1)
          (kprintf (''%d %s: unknown sys call %d'' @ [CHR 0x0A])
             [VI (word_of_int (pr_pid (myproc s))), VS (Some (name_str (pr_name (myproc s)))), VI (word_of_int num)] s)))"

subsection \<open>trap.c\<close>

definition SSTATUS_SPP :: u64 where "SSTATUS_SPP = push_bit 8 1"
definition SSTATUS_SPIE :: u64 where "SSTATUS_SPIE = push_bit 5 1"
definition SSTATUS_SIE :: u64 where "SSTATUS_SIE = push_bit 1 1"
definition UART0_IRQ :: nat where "UART0_IRQ = 10"
definition VIRTIO0_IRQ :: nat where "VIRTIO0_IRQ = 1"

record hw =
  h_sstatus :: u64
  h_sepc :: u64
  h_scause :: u64
  h_stval :: u64
  h_stvec :: u64
  h_satp :: u64
  h_tp :: u64
  h_irq :: nat
  h_tx_idle :: bool
  h_rx :: "u8 list"
  h_time :: u64
  h_stimecmp :: u64
  h_kernelvec :: u64
  h_usertrap :: u64
  h_uservec :: u64

definition intr_on :: "hw \<Rightarrow> hw" where
  "intr_on h = h\<lparr>h_sstatus := h_sstatus h OR SSTATUS_SIE\<rparr>"

definition intr_off :: "hw \<Rightarrow> hw" where
  "intr_off h = h\<lparr>h_sstatus := h_sstatus h AND NOT SSTATUS_SIE\<rparr>"

definition intr_get :: "hw \<Rightarrow> bool" where
  "intr_get h \<longleftrightarrow> h_sstatus h AND SSTATUS_SIE \<noteq> 0"

definition clockintr :: "hw \<Rightarrow> 'a kst_scheme \<Rightarrow> hw \<times> 'a kst_scheme" where
  "clockintr h s =
     (h\<lparr>h_stimecmp := h_time h + 1000000\<rparr>,
      if (ucast (h_tp h) :: u32) = 0 then wakeup ChTicks (s\<lparr>ticks := ticks s + 1\<rparr>) else s)"

definition devintr :: "hw \<Rightarrow> 'a kst_scheme \<Rightarrow> int \<times> hw \<times> 'a kst_scheme" where
  "devintr h s =
     (if h_scause h = 0x8000000000000009 then
        (1, h, if h_irq h = UART0_IRQ then uartintr (h_tx_idle h) (h_rx h) s
               else if h_irq h = VIRTIO0_IRQ then s
               else if h_irq h \<noteq> 0 then kprintf (''unexpected interrupt irq=%d'' @ [CHR 0x0A]) [VI (of_nat (h_irq h))] s
               else s)
      else if h_scause h = 0x8000000000000005 then (case clockintr h s of (h1, s1) \<Rightarrow> (2, h1, s1))
      else (0, h, s))"

definition prepare_return :: "hw \<Rightarrow> 'a kst_scheme \<Rightarrow> hw \<times> 'a kst_scheme" where
  "prepare_return h s =
     (let p = me s;
          h1 = (intr_off h)\<lparr>h_stvec := TRAMPOLINE + (h_uservec h - trampoline s)\<rparr>;
          s1 = tf_set p TF_kernel_satp (h_satp h1) s;
          s2 = tf_set p TF_kernel_sp (pr_kstack (procs s1 p) + PGSIZE) s1;
          s3 = tf_set p TF_kernel_trap (h_usertrap h1) s2;
          s4 = tf_set p TF_kernel_hartid (h_tp h1) s3;
          h2 = h1\<lparr>h_sstatus := (h_sstatus h1 AND NOT SSTATUS_SPP) OR SSTATUS_SPIE, h_sepc := tf_get p TF_epc s4\<rparr> in
      (h2, s4))"

text \<open>What a trap leads to: back to user mode, giving up the CPU first, or to the scheduler from inside the kernel.\<close>

datatype trapnext = ToUser | YieldFirst | InKernel

definition exit_if_killed :: "(hw \<Rightarrow> 'a kst_scheme \<Rightarrow> (trapnext \<times> hw \<times> 'a kst_scheme) kres) \<Rightarrow> hw \<Rightarrow> 'a kst_scheme \<Rightarrow> (trapnext \<times> hw \<times> 'a kst_scheme) kres" where
  "exit_if_killed k h s = (if killed (me s) s then kbind (kexit (- 1) s) (\<lambda>(_, s1). Ok (InKernel, h, s1)) else k h s)"

definition usertrap_end :: "int \<Rightarrow> hw \<Rightarrow> 'a kst_scheme \<Rightarrow> (trapnext \<times> hw \<times> 'a kst_scheme) kres" where
  "usertrap_end which_dev h s = exit_if_killed (\<lambda>h1 s1. Ok (if which_dev = 2 then YieldFirst else ToUser, h1, s1)) h s"

definition unexpected_trap :: "hw \<Rightarrow> 'a kst_scheme \<Rightarrow> 'a kst_scheme" where
  "unexpected_trap h s =
     setkilled (me s)
       (kprintf (''            sepc=0x%lx stval=0x%lx'' @ [CHR 0x0A]) [VI (h_sepc h), VI (h_stval h)]
         (kprintf (''usertrap(): unexpected scause 0x%lx pid=%d'' @ [CHR 0x0A]) [VI (h_scause h), VI (word_of_int (pr_pid (myproc s)))] s))"

definition usertrap :: "u8 list \<Rightarrow> hw \<Rightarrow> 'a kst_scheme \<Rightarrow> (trapnext \<times> hw \<times> 'a kst_scheme) kres" where
  "usertrap pad h s =
     (if h_sstatus h AND SSTATUS_SPP \<noteq> 0 then Panic ''usertrap: not from user mode''
      else
        let h1 = h\<lparr>h_stvec := h_kernelvec h\<rparr>; p = me s; s1 = tf_set p TF_epc (h_sepc h1) s in
        if h_scause h1 = 8 then
          exit_if_killed (\<lambda>h2 s2.
            kbind (syscall pad (tf_set p TF_epc (tf_get p TF_epc s2 + 4) s2)) (\<lambda>(returned, s3).
              if returned then usertrap_end 0 (intr_on h2) s3 else Ok (InKernel, intr_on h2, s3))) h1 s1
        else
          (case devintr h1 s1 of (which_dev, h2, s2) \<Rightarrow>
             if which_dev \<noteq> 0 then usertrap_end which_dev h2 s2
             else if h_scause h2 = 15 \<or> h_scause h2 = 13 then
               kbind (on_vm (vmfault (pr_pagetable (myproc s2)) (h_stval h2) (h_scause h2 = 13)) s2) (\<lambda>(pa, s3).
                 usertrap_end 0 h2 (if pa \<noteq> 0 then s3 else unexpected_trap h2 s3))
             else usertrap_end 0 h2 (unexpected_trap h2 s2)))"

definition usertrap_finish :: "hw \<Rightarrow> 'a kst_scheme \<Rightarrow> u64 \<times> hw \<times> 'a kst_scheme" where
  "usertrap_finish h s = (case prepare_return h s of (h1, s1) \<Rightarrow> (MAKE_SATP (pr_pagetable (myproc s1)), h1, s1))"

definition kerneltrap :: "hw \<Rightarrow> 'a kst_scheme \<Rightarrow> (trapnext \<times> hw \<times> 'a kst_scheme) kres" where
  "kerneltrap h s =
     (if h_sstatus h AND SSTATUS_SPP = 0 then Panic ''kerneltrap: not from supervisor mode''
      else if intr_get h then Panic ''kerneltrap: interrupts enabled''
      else case devintr h s of (which_dev, h1, s1) \<Rightarrow>
        if which_dev = 0 then Panic ''kerneltrap''
        else Ok (if which_dev = 2 \<and> cur s1 \<noteq> None then YieldFirst else InKernel, h1\<lparr>h_sepc := h_sepc h, h_sstatus := h_sstatus h\<rparr>, s1))"

text \<open>\<^verbatim>\<open>forkret\<close>: the first process initialises the file system and loads \<^verbatim>\<open>/init\<close>; the result is the register \<^verbatim>\<open>satp\<close> for the trampoline.\<close>

definition forkret :: "bool \<Rightarrow> hw \<Rightarrow> 'a kst_scheme \<Rightarrow> ((u64 \<times> hw) \<times> 'a kst_scheme) kres" where
  "forkret first h s =
     kbind (if first then
              kbind (fsinit ROOTDEV s) (\<lambda>(_, s1).
              kbind (kexec (str ''/init'') [str ''/init''] s1) (\<lambda>(r, s2).
              let s3 = tf_set (me s2) TF_a0 (word_of_int r) s2 in
              if tf_get (me s3) TF_a0 s3 = - 1 then Panic ''exec'' else Ok ((), s3)))
            else Ok ((), s)) (\<lambda>(_, s4).
     case usertrap_finish h s4 of (satp, h1, s5) \<Rightarrow> Ok ((satp, h1), s5))"

end
