(* ===== verification/Fs_Frame.thy ===== *)
theory Fs_Frame
  imports Fs
begin

section \<open>What the file system leaves alone\<close>

text \<open>
  The file system and the log change the buffers, the disk, the log, the inodes and, when they copy to or from a user address, user memory. \<open>fs_frame\<close> is the
  interface of a component whose state, seen through \<open>g\<close>, none of those updates touches; every operation of \<^verbatim>\<open>bio.c\<close>, \<^verbatim>\<open>log.c\<close> and \<^verbatim>\<open>fs.c\<close>
  then leaves it alone, on every path.
\<close>

named_theorems kframe \<open>rules for what an outcome leaves alone\<close>

definition kframed :: "('s \<Rightarrow> 'b) \<Rightarrow> 's \<Rightarrow> ('r \<times> 's) kres \<Rightarrow> bool" where
  "kframed g s m \<longleftrightarrow> (\<forall>r s'. m = Ok (r, s') \<longrightarrow> g s' = g s)"

lemma kframed_Ok [kframe]: "g (snd p) = g s \<Longrightarrow> kframed g s (Ok p)"
  by (auto simp: kframed_def)

lemma kframed_Panic [kframe]: "kframed g s (Panic msg)" "kframed g s Blocked"
  by (simp_all add: kframed_def)

lemma kframed_bind [kframe]:
  assumes m: "kframed g s m" and f: "\<And>p. g (snd p) = g s \<Longrightarrow> kframed g s (f p)"
  shows "kframed g s (kbind m f)"
proof (cases m)
  case (Ok p)
  then have "g (snd p) = g s" using m by (cases p) (simp add: kframed_def)
  then show ?thesis using f [of p] Ok by simp
qed (simp_all add: kframed_def)

lemma kframed_if [kframe]: "(b \<Longrightarrow> kframed g s m) \<Longrightarrow> (\<not> b \<Longrightarrow> kframed g s n) \<Longrightarrow> kframed g s (if b then m else n)"
  by simp

lemma kframed_prod [kframe]: "(\<And>a b. p = (a, b) \<Longrightarrow> kframed g s (f a b)) \<Longrightarrow> kframed g s (case p of (a, b) \<Rightarrow> f a b)"
  by (cases p) simp

lemma kframed_prod2 [kframe]: "(\<And>a b. p = (a, b) \<Longrightarrow> kframed g s (f a b x)) \<Longrightarrow> kframed g s ((case p of (a, b) \<Rightarrow> f a b) x)"
  by (cases p) simp

lemma kframed_opt [kframe]:
  "(x = None \<Longrightarrow> kframed g s m) \<Longrightarrow> (\<And>y. x = Some y \<Longrightarrow> kframed g s (f y)) \<Longrightarrow> kframed g s (case x of None \<Rightarrow> m | Some y \<Rightarrow> f y)"
  by (cases x) simp_all

lemma kframed_let [kframe]: "(\<And>y. y = x \<Longrightarrow> kframed g s (f y)) \<Longrightarrow> kframed g s (let y = x in f y)"
  by simp

lemma kframed_pure: "(\<And>x. kframed g s (f x)) \<Longrightarrow> kframed g s (kbind m f)"
  by (cases m) (simp_all add: kframed_def)

lemmas kframed_pures [kframe] =
  kframed_pure [of _ _ _ "acquiresleep p l" for p l] kframed_pure [of _ _ _ "scan_next n P b t" for n P b t]
  kframed_pure [of _ _ _ "scan_prev n P b t" for n P b t] kframed_pure [of _ _ _ "either_copyout d bs u" for d bs u]
  kframed_pure [of _ _ _ "either_copyin d n u" for d n u]

lemma kframedD: "kframed g s m \<Longrightarrow> m = Ok (r, s') \<Longrightarrow> g s' = g s"
  by (simp add: kframed_def)

lemma kframed_trans: "g s = g t \<Longrightarrow> kframed g s m \<Longrightarrow> kframed g t m"
  by (simp add: kframed_def)

locale fs_frame =
  fixes g :: "'a fsst_scheme \<Rightarrow> 'b"
  assumes bufs_law [simp]: "g (s\<lparr>bufs := x1\<rparr>) = g s" and disk_law [simp]: "g (s\<lparr>disk := x2\<rparr>) = g s" and dwrites_law [simp]: "g (s\<lparr>dwrites := x3\<rparr>) = g s"
    and outstanding_law [simp]: "g (s\<lparr>log_outstanding := x4\<rparr>) = g s" and committing_law [simp]: "g (s\<lparr>log_committing := x5\<rparr>) = g s"
    and lh_n_law [simp]: "g (s\<lparr>lh_n := x6\<rparr>) = g s" and lh_block_law [simp]: "g (s\<lparr>lh_block := x7\<rparr>) = g s" and itable_law [simp]: "g (s\<lparr>itable := x8\<rparr>) = g s"
begin

lemma upd_buf_frame [simp]: "g (upd_buf b f s) = g s"
  by (simp add: upd_buf_def)

lemma small_frames [simp]: "g (upd_inode ip h s) = g s" "g (set_data b d s) = g s" "g (bpin b s) = g s" "g (bunpin b s) = g s" "g (virtio_disk_rw b wr s) = g s"
  "g (unlink_buf b s) = g s" "g (push_front b s) = g s"
  by (simp_all add: upd_inode_def set_data_def bpin_def bunpin_def virtio_disk_rw_def unlink_buf_def push_front_def Let_def)

lemma lock_buf_frame [kframe]: "g t = g s \<Longrightarrow> kframed g s (lock_buf b t)"
  unfolding lock_buf_def by (intro kframe) simp

lemma bread_frame [kframe]: "g t = g s \<Longrightarrow> kframed g s (bread dev b t)"
  unfolding bread_def bget_def by (intro kframe) simp_all

lemma bwrite_frame [kframe]: "g t = g s \<Longrightarrow> kframed g s (bwrite b t)"
  unfolding bwrite_def by (intro kframe) simp_all

lemma brelse_frame [kframe]: "g t = g s \<Longrightarrow> kframed g s (brelse b t)"
  unfolding brelse_def Let_def by (intro kframe) simp_all

lemma install_loop_frame [kframe]: "g t = g s \<Longrightarrow> kframed g s (install_loop k i r t)"
  by (induction k arbitrary: i t) (auto intro!: kframe)

lemma write_head_frame [kframe]: "g t = g s \<Longrightarrow> kframed g s (write_head t)"
  unfolding write_head_def by (intro kframe) simp_all

lemma write_log_loop_frame [kframe]: "g t = g s \<Longrightarrow> kframed g s (write_log_loop k i t)"
  by (induction k arbitrary: i t) (auto intro!: kframe)

lemma commit_frame [kframe]: "g t = g s \<Longrightarrow> kframed g s (commit t)"
  unfolding commit_def write_log_def install_trans_def by (intro kframe) simp_all

lemma end_op_frame [kframe]: "g t = g s \<Longrightarrow> kframed g s (end_op t)"
  unfolding end_op_def Let_def by (intro kframe) simp_all

lemma begin_op_frame [kframe]: "g t = g s \<Longrightarrow> kframed g s (begin_op t)"
  unfolding begin_op_def by (intro kframe) simp_all

lemma log_write_frame [kframe]: "g t = g s \<Longrightarrow> kframed g s (log_write b t)"
  unfolding log_write_def Let_def by (intro kframe) simp_all

lemma bzero_frame [kframe]: "g t = g s \<Longrightarrow> kframed g s (bzero dev b t)"
  unfolding bzero_def by (intro kframe) simp_all

lemma bfree_frame [kframe]: "g t = g s \<Longrightarrow> kframed g s (bfree dev b t)"
  unfolding bfree_def Let_def by (intro kframe) simp_all

lemma iupdate_frame [kframe]: "g t = g s \<Longrightarrow> kframed g s (iupdate ip t)"
  unfolding iupdate_def by (intro kframe) simp_all

lemma ilock_frame [kframe]: "g t = g s \<Longrightarrow> kframed g s (ilock ip t)"
  unfolding ilock_def Let_def by (intro kframe) simp_all

lemma iunlock_frame [kframe]: "g t = g s \<Longrightarrow> kframed g s (iunlock ip t)"
  unfolding iunlock_def by (intro kframe) simp_all

lemma free_direct_frame [kframe]: "g t = g s \<Longrightarrow> kframed g s (free_direct k i ip t)"
  by (induction k arbitrary: i t) (auto intro!: kframe)

lemma free_indirect_frame [kframe]: "g t = g s \<Longrightarrow> kframed g s (free_indirect k i dev bp t)"
  by (induction k arbitrary: i t) (auto intro!: kframe simp: Let_def)

lemma itrunc_frame [kframe]: "g t = g s \<Longrightarrow> kframed g s (itrunc ip t)"
  unfolding itrunc_def by (intro kframe) simp_all

lemma iput_frame [kframe]: "g t = g s \<Longrightarrow> kframed g s (iput ip t)"
  unfolding iput_def by (intro kframe) simp_all

lemma iunlockput_frame [kframe]: "g t = g s \<Longrightarrow> kframed g s (iunlockput ip t)"
  unfolding iunlockput_def by (intro kframe) simp_all

end

text \<open>The operations that may copy to or from user memory.\<close>

locale fs_frame_um = fs_frame g for g :: "'a fsst_scheme \<Rightarrow> 'b" +
  assumes um_law [simp]: "g (s\<lparr>um := x\<rparr>) = g s"
begin

lemma balloc_loop_frame: "g t = g s \<Longrightarrow> kframed g s (balloc_loop dev sz b t)"
proof (induction "sz - b" arbitrary: b t rule: less_induct)
  case less
  have "kframed g s (balloc_loop dev sz (b + BPB) t')" if "b < sz" "g t' = g s" for t' using that by (intro less.hyps) (auto simp: fs_consts)
  then show ?case using less.prems by (subst balloc_loop.simps) (auto intro!: kframe)
qed

lemma balloc_frame [kframe]: "g t = g s \<Longrightarrow> kframed g s (balloc dev t)"
  unfolding balloc_def by (rule balloc_loop_frame)

lemma bmap_slot_frame [kframe]: "g t = g s \<Longrightarrow> kframed g s (bmap_slot ip k t)"
  unfolding bmap_slot_def by (intro kframe) simp_all

lemma bmap_frame [kframe]: "g t = g s \<Longrightarrow> kframed g s (bmap ip bn t)"
  unfolding bmap_def Let_def by (intro kframe) simp_all

lemma readi_loop_frame: "g t = g s \<Longrightarrow> kframed g s (readi_loop ip dst off n tot out t)"
proof (induction "n - tot" arbitrary: dst off tot out t rule: less_induct)
  case less
  have "kframed g s (readi_loop ip (dst_add dst m) (off + m) n (tot + m) (out @ bs) t')"
    if "tot < n" "m = blk_chunk off (n - tot)" "g t' = g s" for m bs t'
    using that by (intro less.hyps) (auto simp: blk_chunk_dec)
  then show ?case using less.prems by (subst readi_loop.simps) (auto intro!: kframe)
qed

lemma readi_frame [kframe]: "g t = g s \<Longrightarrow> kframed g s (readi ip dst off n t)"
  unfolding readi_def Let_def by (intro kframe readi_loop_frame) simp_all

lemma writei_loop_frame: "g t = g s \<Longrightarrow> kframed g s (writei_loop ip src off n tot t)"
proof (induction "n - tot" arbitrary: src off tot t rule: less_induct)
  case less
  have "kframed g s (writei_loop ip (src_add src m) (off + m) n (tot + m) t')"
    if "tot < n" "m = blk_chunk off (n - tot)" "g t' = g s" for m t'
    using that by (intro less.hyps) (auto simp: blk_chunk_dec)
  then show ?case using less.prems by (subst writei_loop.simps) (auto intro!: kframe)
qed

lemma writei_frame [kframe]: "g t = g s \<Longrightarrow> kframed g s (writei ip src off n t)"
  unfolding writei_def Let_def by (intro kframe writei_loop_frame) simp_all

lemma iget_frame [kframe]: "g t = g s \<Longrightarrow> kframed g s (iget dev inum t)"
  unfolding iget_def by (intro kframe) simp_all

lemma ialloc_loop_frame [kframe]: "g t = g s \<Longrightarrow> kframed g s (ialloc_loop k dev ty inum t)"
  by (induction k arbitrary: inum t) (auto intro!: kframe simp: Let_def)

lemma ialloc_frame [kframe]: "g t = g s \<Longrightarrow> kframed g s (ialloc dev ty t)"
  unfolding ialloc_def by (intro kframe)

lemma dirlookup_loop_frame: "g t = g s \<Longrightarrow> kframed g s (dirlookup_loop dp name sz off t)"
proof (induction "sz - off" arbitrary: off t rule: less_induct)
  case less
  have "kframed g s (dirlookup_loop dp name sz (off + 16) t')" if "off < sz" "g t' = g s" for t' using that by (intro less.hyps) auto
  then show ?case using less.prems by (subst dirlookup_loop.simps) (auto intro!: kframe)
qed

lemma dirlookup_frame [kframe]: "g t = g s \<Longrightarrow> kframed g s (dirlookup dp name t)"
  unfolding dirlookup_def by (intro kframe dirlookup_loop_frame)

lemma dirlink_loop_frame: "g t = g s \<Longrightarrow> kframed g s (dirlink_loop dp sz off t)"
proof (induction "sz - off" arbitrary: off t rule: less_induct)
  case less
  have "kframed g s (dirlink_loop dp sz (off + 16) t')" if "off < sz" "g t' = g s" for t' using that by (intro less.hyps) auto
  then show ?case using less.prems by (subst dirlink_loop.simps) (auto intro!: kframe)
qed

lemma dirlink_frame [kframe]: "g t = g s \<Longrightarrow> kframed g s (dirlink dp name inum t)"
  unfolding dirlink_def by (intro kframe dirlink_loop_frame) simp_all

lemma namex_loop_frame: "g t = g s \<Longrightarrow> kframed g s (namex_loop ip path np name t)"
proof (induction "length path" arbitrary: ip path name t rule: less_induct)
  case less
  have "kframed g s (namex_loop nxt rest np name1 t')" if "skipelem path name = Some (rest, name1)" "g t' = g s" for nxt rest name1 t'
    using that skipelem_shorter [OF that(1)] by (intro less.hyps)
  then show ?case using less.prems by (subst namex_loop.simps) (auto intro!: kframe)
qed

lemma namex_frame [kframe]: "g t = g s \<Longrightarrow> kframed g s (namex path np name t)"
  unfolding namex_def idup_def by (intro kframe namex_loop_frame) simp_all

lemma namei_frame [kframe]: "g t = g s \<Longrightarrow> kframed g s (namei path t)"
  unfolding namei_def by (intro kframe) simp_all

lemma nameiparent_frame [kframe]: "g t = g s \<Longrightarrow> kframed g s (nameiparent path name t)"
  unfolding nameiparent_def by (intro kframe)

end

end
