(* ===== verification/Proc_Wait.thy ===== *)
theory Proc_Wait
  imports Proc Fs_Frame
begin

section \<open>Exit and wait\<close>

text \<open>
  The file system leaves the kernel's tables alone, and closing a file only wakes processes and drops a reference. With that, every exit reaches the parent: in
  every interleaving of fork, exit, wait, kill, sleep, wakeup and scheduling no process is left asleep in \<^verbatim>\<open>kwait\<close> while it has a zombie child.
\<close>

subsection \<open>What closing a file changes\<close>

definition kview :: "'a kst_scheme \<Rightarrow> (nat \<Rightarrow> proc) \<times> nat option \<times> nat option \<times> (nat \<Rightarrow> ofile)" where
  "kview s = (procs s, cur s, initproc s, ftable s)"

interpretation kv: fs_frame_um kview
  by unfold_locales (simp_all add: kview_def)

lemma kviewD: "kview s' = kview s \<Longrightarrow> procs s' = procs s \<and> cur s' = cur s \<and> initproc s' = initproc s \<and> ftable s' = ftable s \<and> me s' = me s"
  by (simp add: kview_def me_def)

lemma with_ip_Ok [simp]: "with_ip ip k = Ok x \<longleftrightarrow> (\<exists>i. ip = Some i \<and> k i = Ok x)"
  by (cases ip) (simp_all add: with_ip_def)

lemma kframed_with_ip [kframe]: "(\<And>i. ip = Some i \<Longrightarrow> kframed g s (k i)) \<Longrightarrow> kframed g s (with_ip ip k)"
  by (cases ip) (simp_all add: with_ip_def kframed_def)

lemma kframed_on_vm [kframe]: "(\<And>u. g (t\<lparr>um := u\<rparr>) = g s) \<Longrightarrow> kframed g s (on_vm f t)"
  by (auto simp: kframed_def on_vm_def)

text \<open>\<open>quiet s s'\<close>: between the two states sleepers may have been woken; no process has moved otherwise.\<close>

definition quiet :: "'a kst_scheme \<Rightarrow> 'a kst_scheme \<Rightarrow> bool" where
  "quiet s s' \<longleftrightarrow> cur s' = cur s \<and> initproc s' = initproc s \<and> (\<forall>i. pr_parent (procs s' i) = pr_parent (procs s i) \<and> pr_chan (procs s' i) = pr_chan (procs s i) \<and>
     pr_ofile (procs s' i) = pr_ofile (procs s i) \<and> pr_cwd (procs s' i) = pr_cwd (procs s i) \<and>
     (pr_state (procs s' i) = pr_state (procs s i) \<or> pr_state (procs s i) = SLEEPING \<and> pr_state (procs s' i) = RUNNABLE))"

lemma quiet_refl: "kview s' = kview s \<Longrightarrow> quiet s s'"
  by (auto simp: quiet_def dest: kviewD)

lemma quiet_trans: "quiet s t \<Longrightarrow> quiet t u \<Longrightarrow> quiet s u"
  unfolding quiet_def by (metis procstate.distinct(1) procstate.distinct(21))

lemma quiet_wakeup: "quiet s t \<Longrightarrow> quiet s (wakeup ch t)"
  by (rule quiet_trans, assumption) (auto simp: quiet_def)

lemma upd_pipe_kview [simp]: "kview (upd_pipe pi f s) = kview s"
  by (simp add: kview_def upd_pipe_def)

lemma on_vm_kview: "on_vm f s = Ok (r, s') \<Longrightarrow> kview s' = kview s"
  by (auto simp: on_vm_def kview_def)

lemma pipeclose_quiet:
  assumes "pipeclose pi w s = Ok (r, s')"
  shows "quiet s s' \<and> ftable s' = ftable s"
proof -
  define s1 where "s1 = (if w then wakeup (ChNread pi) (upd_pipe pi (\<lambda>p. p\<lparr>pi_writeopen := False\<rparr>) s) else wakeup (ChNwrite pi) (upd_pipe pi (\<lambda>p. p\<lparr>pi_readopen := False\<rparr>) s))"
  have 1: "quiet s s1" "ftable s1 = ftable s" by (simp_all add: s1_def quiet_wakeup quiet_refl upd_pipe_def kview_def)
  have "kview s' = kview s1"
    using assms on_vm_kview [of "kfree pi" s1 r s'] unfolding pipeclose_def s1_def [symmetric] Let_def by (auto split: if_splits)
  then show ?thesis using 1 quiet_trans [OF 1(1) quiet_refl [of s' s1]] by (simp add: kview_def)
qed

text \<open>Closing drops exactly one reference, whatever kind of file it was the last reference to.\<close>

lemma fileclose_quiet:
  assumes "fileclose f s = Ok (r, s')"
  shows "quiet s s' \<and> 1 \<le> f_ref (ftable s f) \<and> (\<forall>h. f_ref (ftable s' h) = f_ref (ftable s h) - (if h = f then 1 else 0))"
proof -
  define s1 where "s1 = upd_file f (\<lambda>x. x\<lparr>f_ref := f_ref x - 1\<rparr>) s"
  define s2 where "s2 = upd_file f (\<lambda>x. x\<lparr>f_ref := 0, f_type := FD_NONE\<rparr>) s1"
  have r: "1 \<le> f_ref (ftable s f)" using assms by (auto simp: fileclose_def split: if_splits)
  have q: "quiet s s1" "quiet s s2" by (simp_all add: quiet_def s1_def s2_def upd_file_def)
  have 1: "f_ref (ftable s1 h) = f_ref (ftable s h) - (if h = f then 1 else 0)" for h by (simp add: s1_def upd_file_def)
  show ?thesis
  proof (cases "f_ref (ftable s1 f) > 0")
    case True
    then have "s' = s1" using assms r by (simp add: fileclose_def Let_def s1_def [symmetric])
    then show ?thesis using q r 1 by simp
  next
    case False
    then have z: "f_ref (ftable s f) = 1" using r 1 by simp
    then have 2: "f_ref (ftable s2 h) = f_ref (ftable s h) - (if h = f then 1 else 0)" for h by (simp add: s2_def s1_def upd_file_def)
    have run: "(case f_type (ftable s1 f) of FD_PIPE \<Rightarrow> pipeclose (f_pipe (ftable s1 f)) (f_writable (ftable s1 f)) s2 | FD_NONE \<Rightarrow> Ok ((), s2)
        | _ \<Rightarrow> kbind (begin_op s2) (\<lambda>(_, s3). with_ip (f_ip (ftable s1 f)) (\<lambda>ip. kbind (iput ip s3) (\<lambda>(_, s4). end_op s4)))) = Ok (r, s')"
      using assms r False by (simp add: fileclose_def Let_def s1_def [symmetric] s2_def [symmetric])
    have k: "kframed kview s2 (kbind (begin_op s2) (\<lambda>(_, s3). with_ip (f_ip (ftable s1 f)) (\<lambda>ip. kbind (iput ip s3) (\<lambda>(_, s4). end_op s4))))"
      by (intro kframe) simp_all
    have "quiet s2 s' \<and> ftable s' = ftable s2"
    proof (cases "f_type (ftable s1 f)")
      case FD_NONE
      then show ?thesis using run by (simp add: quiet_def)
    next
      case FD_PIPE
      then show ?thesis using run pipeclose_quiet by simp
    next
      case FD_INODE
      then show ?thesis using kframedD [OF k, of r s'] run quiet_refl [of s' s2] by (simp add: kview_def)
    next
      case FD_DEVICE
      then show ?thesis using kframedD [OF k, of r s'] run quiet_refl [of s' s2] by (simp add: kview_def)
    qed
    then show ?thesis using quiet_trans [OF q(2)] 2 r by simp
  qed
qed

subsection \<open>No exit is lost\<close>

definition calm :: "'a kst_scheme \<Rightarrow> 'a kst_scheme \<Rightarrow> bool" where
  "calm s s' \<longleftrightarrow> cur s' = cur s \<and> initproc s' = initproc s \<and> (\<forall>i. pr_parent (procs s' i) = pr_parent (procs s i) \<and> pr_chan (procs s' i) = pr_chan (procs s i) \<and>
     (pr_state (procs s' i) = pr_state (procs s i) \<or> pr_state (procs s i) = SLEEPING \<and> pr_state (procs s' i) = RUNNABLE))"

lemma calm_quiet: "quiet s s' \<Longrightarrow> calm s s'"
  by (simp add: quiet_def calm_def)

lemma calm_kview: "kview s' = kview s \<Longrightarrow> calm s s'"
  by (rule calm_quiet) (rule quiet_refl)

lemma calm_trans: "calm s t \<Longrightarrow> calm t u \<Longrightarrow> calm s u"
  unfolding calm_def by (metis procstate.distinct(1) procstate.distinct(21))

lemma calm_refl [simp]: "calm s s"
  by (simp add: calm_def)

lemma calm_own:
  "calm s (upd_proc i (\<lambda>q. q\<lparr>pr_ofile := h q\<rparr>) s)" "calm s (upd_proc i (\<lambda>q. q\<lparr>pr_cwd := d\<rparr>) s)"
  by (simp_all add: calm_def)

lemma calm_wakeup: "calm s (wakeup ch s)"
  by (rule calm_quiet) (rule quiet_wakeup, simp add: quiet_refl)

lemma kexit_files_calm: "kexit_files k fd p s = Ok (r, s') \<Longrightarrow> calm s s'"
proof (induction k arbitrary: fd s)
  case (Suc k)
  show ?case
  proof (cases "pr_ofile (procs s p) fd")
    case None
    then show ?thesis using Suc by simp
  next
    case (Some f)
    then obtain w s1 where c: "fileclose f s = Ok (w, s1)" "kexit_files k (Suc fd) p (upd_proc p (\<lambda>q. q\<lparr>pr_ofile := (pr_ofile q)(fd := None)\<rparr>) s1) = Ok (r, s')"
      using Suc.prems by auto
    show ?thesis using calm_trans [OF calm_trans [OF calm_quiet calm_own(1)] Suc.IH [OF c(2)]] fileclose_quiet [OF c(1)] by blast
  qed
qed simp

text \<open>The invariant: a process asleep in \<^verbatim>\<open>kwait\<close> has no zombie child.\<close>

definition wait_inv :: "'a kst_scheme \<Rightarrow> bool" where
  "wait_inv s \<longleftrightarrow> (\<forall>q < NPROC. \<forall>i < NPROC. pr_state (procs s q) = SLEEPING \<and> pr_chan (procs s q) = ChProc q \<and> pr_parent (procs s i) = Some q \<longrightarrow>
     pr_state (procs s i) \<noteq> ZOMBIE)"

lemma wait_inv_calm: "wait_inv s \<Longrightarrow> calm s s' \<Longrightarrow> wait_inv s'"
proof -
  assume w: "wait_inv s" and c: "calm s s'"
  have "pr_parent (procs s' i) = pr_parent (procs s i) \<and> pr_chan (procs s' i) = pr_chan (procs s i) \<and>
      (pr_state (procs s' i) = SLEEPING \<longrightarrow> pr_state (procs s i) = SLEEPING) \<and> (pr_state (procs s' i) = ZOMBIE \<longrightarrow> pr_state (procs s i) = ZOMBIE)" for i
    using c [unfolded calm_def, THEN conjunct2, THEN conjunct2, rule_format, of i] by auto
  then show "wait_inv s'" using w unfolding wait_inv_def by metis
qed

text \<open>Giving the children of \<open>p\<close> to init, which is woken for each of them.\<close>

definition awake :: "'a kst_scheme \<Rightarrow> nat \<Rightarrow> bool" where
  "awake s q \<longleftrightarrow> \<not> (pr_state (procs s q) = SLEEPING \<and> pr_chan (procs s q) = ChProc q)"

lemma wakeup_awake: "q < NPROC \<Longrightarrow> cur s \<noteq> Some q \<Longrightarrow> awake (wakeup (ChProc q) s) q"
  by (simp add: awake_def)

lemma wait_inv_alt: "wait_inv s \<longleftrightarrow> (\<forall>i < NPROC. pr_state (procs s i) = ZOMBIE \<longrightarrow> (\<forall>q < NPROC. pr_parent (procs s i) = Some q \<longrightarrow> awake s q))"
  by (auto simp: wait_inv_def awake_def)

lemma reparent_loop_inv:
  assumes "wait_inv s" "cur s \<noteq> initproc s" "pr_state (procs s p) \<noteq> ZOMBIE"
  shows "wait_inv (reparent_loop k i p s) \<and> cur (reparent_loop k i p s) = cur s \<and> pr_state (procs (reparent_loop k i p s) p) \<noteq> ZOMBIE"
  using assms
proof (induction k arbitrary: i s)
  case (Suc k)
  show ?case
  proof (cases "pr_parent (procs s i) = Some p")
    case False
    then show ?thesis using Suc by simp
  next
    case True
    define t where "t = upd_proc i (\<lambda>q. q\<lparr>pr_parent := initproc s\<rparr>) s"
    define u where "u = wakeup (chan_of (initproc s)) t"
    have u: "cur u = cur s" "initproc u = initproc s" by (simp_all add: u_def t_def)
    have st: "pr_state (procs u j) = ZOMBIE \<longleftrightarrow> pr_state (procs s j) = ZOMBIE" for j by (auto simp: u_def t_def)
    have aw: "awake s q \<Longrightarrow> awake u q" for q by (auto simp: u_def t_def awake_def)
    have "wait_inv u" unfolding wait_inv_alt
    proof (intro allI impI)
      fix j q assume j: "j < NPROC" "pr_state (procs u j) = ZOMBIE" and q: "q < NPROC" "pr_parent (procs u j) = Some q"
      show "awake u q"
      proof (cases "initproc s = Some q")
        case True
        then show ?thesis using wakeup_awake [OF q(1), of t] Suc.prems(2) by (simp add: u_def t_def chan_of_def)
      next
        case False
        then have "pr_parent (procs s j) = Some q" using q(2) by (auto simp: u_def t_def split: if_splits)
        then show ?thesis using Suc.prems(1) st j q aw unfolding wait_inv_alt by blast
      qed
    qed
    then show ?thesis using Suc.IH [of u "Suc i"] Suc.prems st u True by (simp add: u_def t_def)
  qed
qed simp

lemma kexit_end_inv:
  assumes "wait_inv s" "cur s = Some p" "initproc s \<noteq> Some p" "pr_state (procs s p) \<noteq> ZOMBIE"
  shows "wait_inv (kexit_end p st s)"
proof -
  define s1 where "s1 = reparent p s"
  have 1: "wait_inv s1" "cur s1 = Some p" using reparent_loop_inv [of s p NPROC 0] assms by (auto simp: s1_def reparent_def)
  define s2 where "s2 = wakeup (chan_of (pr_parent (procs s1 p))) s1"
  have 2: "wait_inv s2" unfolding s2_def by (rule wait_inv_calm [OF 1(1) calm_wakeup])
  have e: "kexit_end p st s = upd_proc p (\<lambda>q. q\<lparr>pr_xstate := st, pr_state := ZOMBIE\<rparr>) s2"
    by (simp add: kexit_end_def s1_def s2_def Let_def)
  show ?thesis unfolding e wait_inv_alt
  proof (intro allI impI)
    fix j q assume j: "j < NPROC" "pr_state (procs (upd_proc p (\<lambda>q. q\<lparr>pr_xstate := st, pr_state := ZOMBIE\<rparr>) s2) j) = ZOMBIE"
      and q: "q < NPROC" "pr_parent (procs (upd_proc p (\<lambda>q. q\<lparr>pr_xstate := st, pr_state := ZOMBIE\<rparr>) s2) j) = Some q"
    have pq: "pr_parent (procs s2 j) = Some q" using q(2) by (auto split: if_splits)
    have "awake s2 q \<or> q = p"
    proof (cases "j = p")
      case True
      then have "pr_parent (procs s1 p) = Some q" using pq by (simp add: s2_def split: if_splits)
      then show ?thesis using wakeup_awake [OF q(1), of s1] 1(2) by (auto simp: s2_def chan_of_def)
    next
      case False
      then show ?thesis using 2 j q pq unfolding wait_inv_alt by (auto split: if_splits)
    qed
    then show "awake (upd_proc p (\<lambda>q. q\<lparr>pr_xstate := st, pr_state := ZOMBIE\<rparr>) s2) q" by (auto simp: awake_def)
  qed
qed

text \<open>Everything but one entry of the table.\<close>

definition others :: "nat \<Rightarrow> 'a kst_scheme \<Rightarrow> (nat \<Rightarrow> proc) \<times> nat option \<times> nat option" where
  "others i s = ((procs s)(i := no_proc), cur s, initproc s)"

lemma others_simps [simp]: "others i (upd_proc i f s) = others i s" "others i (s\<lparr>um := u\<rparr>) = others i s" "others i (s\<lparr>nextpid := n\<rparr>) = others i s"
  "others i (upd_file n2 h s) = others i s" "others i (upd_inode ip k s) = others i s" "others i (tf_set j off v s) = others i s" "others i (copy_trapframe a b s) = others i s"
  by (simp_all add: others_def upd_proc_def upd_file_def upd_inode_def tf_set_def copy_trapframe_def)

text \<open>\<open>touched s s'\<close>: at most one entry differs, and it is neither asleep nor a zombie now.\<close>

definition touched :: "'a kst_scheme \<Rightarrow> 'a kst_scheme \<Rightarrow> bool" where
  "touched s s' \<longleftrightarrow> procs s' = procs s \<or> (\<exists>i. others i s' = others i s \<and> pr_state (procs s' i) \<noteq> SLEEPING \<and> pr_state (procs s' i) \<noteq> ZOMBIE)"

lemma wait_inv_touched:
  assumes w: "wait_inv s" and t: "touched s s'"
  shows "wait_inv s'"
  using t unfolding touched_def
proof
  assume "procs s' = procs s"
  then show ?thesis using w by (simp add: wait_inv_def)
next
  assume "\<exists>i. others i s' = others i s \<and> pr_state (procs s' i) \<noteq> SLEEPING \<and> pr_state (procs s' i) \<noteq> ZOMBIE"
  then obtain i where i: "(procs s')(i := no_proc) = (procs s)(i := no_proc)" "pr_state (procs s' i) \<noteq> SLEEPING" "pr_state (procs s' i) \<noteq> ZOMBIE"
    by (auto simp: others_def)
  have o: "procs s' j = procs s j" if "j \<noteq> i" for j using fun_cong [OF i(1), of j] that by simp
  show ?thesis unfolding wait_inv_def
  proof (intro allI impI)
    fix q j assume q: "q < NPROC" "j < NPROC" and a: "pr_state (procs s' q) = SLEEPING \<and> pr_chan (procs s' q) = ChProc q \<and> pr_parent (procs s' j) = Some q"
    show "pr_state (procs s' j) \<noteq> ZOMBIE" using i(2,3) a q w o [of q] o [of j] unfolding wait_inv_def by (cases "j = i"; cases "q = i") auto
  qed
qed

lemma on_vm_others: "on_vm f t = Ok (r, s') \<Longrightarrow> others i s' = others i t"
  by (auto simp: on_vm_def)

lemma freeproc_touched:
  assumes "freeproc i s = Ok (r, s')"
  shows "others i s' = others i s \<and> pr_state (procs s' i) = UNUSED"
proof -
  have "kframed (others i) s (freeproc i s)" unfolding freeproc_def Let_def by (intro kframe) simp_all
  moreover have "pr_state (procs s' i) = UNUSED" using assms by (auto simp: freeproc_def Let_def)
  ultimately show ?thesis using assms by (simp add: kframed_def)
qed

lemma allocproc_touched:
  assumes "allocproc s = Ok (r, s')"
  shows "case r of None \<Rightarrow> touched s s' | Some i \<Rightarrow> others i s' = others i s"
proof (cases "find_unused NPROC 0 s")
  case None
  then show ?thesis using assms by (auto simp: allocproc_def touched_def)
next
  case (Some i)
  define s3 where "s3 = (let s2 = upd_proc i (\<lambda>p. p\<lparr>pr_pid := nextpid s, pr_state := USED\<rparr>) (s\<lparr>nextpid := nextpid s + 1\<rparr>) in
    upd_proc i (\<lambda>p. p\<lparr>pr_trapframe := fst (kalloc (um s))\<rparr>) (s2\<lparr>um := snd (kalloc (um s))\<rparr>))"
  have 3: "others i s3 = others i s" by (simp add: s3_def Let_def)
  show ?thesis
  proof (cases "fst (kalloc (um s)) = 0")
    case True
    then obtain w where "freeproc i s3 = Ok (w, s')" "r = None"
      using assms Some by (auto simp: allocproc_def allocpid_def Let_def s3_def)
    then show ?thesis using freeproc_touched [of i s3 w s'] 3 by (auto simp: touched_def intro!: exI [of _ i])
  next
    case False
    then obtain pt s4 where 4: "on_vm (proc_pagetable (trampoline s3) (fst (kalloc (um s)))) s3 = Ok (pt, s4)"
      and e: "(let s5 = upd_proc i (\<lambda>p. p\<lparr>pr_pagetable := pt\<rparr>) s4 in
               if pt = 0 then kbind (freeproc i s5) (\<lambda>(_, s6). Ok (None, s6))
               else Ok (Some i, upd_proc i (\<lambda>p. p\<lparr>pr_context := new_context (forkret_addr s5) (pr_kstack p + PGSIZE)\<rparr>) s5)) = Ok (r, s')"
      using assms Some by (auto simp: allocproc_def allocpid_def Let_def s3_def)
    define s5 where "s5 = upd_proc i (\<lambda>p. p\<lparr>pr_pagetable := pt\<rparr>) s4"
    have o: "others i s5 = others i s" using on_vm_others [OF 4, of i] 3 by (simp add: s5_def)
    show ?thesis
    proof (cases "pt = 0")
      case True
      then obtain w where "freeproc i s5 = Ok (w, s')" "r = None" using e by (auto simp: Let_def s5_def)
      then show ?thesis using freeproc_touched [of i s5 w s'] o by (auto simp: touched_def intro!: exI [of _ i])
    next
      case False
      then have "r = Some i" "s' = upd_proc i (\<lambda>p. p\<lparr>pr_context := new_context (forkret_addr s5) (pr_kstack p + PGSIZE)\<rparr>) s5" using e by (auto simp: Let_def s5_def)
      then show ?thesis using o by simp
    qed
  qed
qed

lemma kfork_files_others: "others np t = others np s \<Longrightarrow> kframed (others np) s (kfork_files k fd p np t)"
  by (induction k arbitrary: fd t) (auto intro!: kframe simp: filedup_def)

lemma kfork_child_touched:
  assumes "kfork_child p np s = Ok (r, s')"
  shows "others np s' = others np s \<and> pr_state (procs s' np) \<noteq> SLEEPING \<and> pr_state (procs s' np) \<noteq> ZOMBIE"
proof -
  have fr: "kframed (others np) s (freeproc np t)" if "others np t = others np s" for t
    using freeproc_touched [of np t] that by (auto simp: kframed_def)
  have "kframed (others np) s (kfork_child p np s)"
    unfolding kfork_child_def Let_def idup_def by (intro kframe kfork_files_others fr) simp_all
  then have "others np s' = others np s" using assms by (simp add: kframed_def)
  moreover have "pr_state (procs s' np) \<noteq> SLEEPING \<and> pr_state (procs s' np) \<noteq> ZOMBIE"
    using assms by (auto simp: kfork_child_def Let_def split: if_splits dest!: freeproc_touched)
  ultimately show ?thesis by blast
qed

lemma kfork_touched:
  assumes "kfork s = Ok (r, s')"
  shows "touched s s'"
proof -
  obtain a s1 where a: "allocproc s = Ok (a, s1)" "(case a of None \<Rightarrow> Ok (- 1, s1) | Some np \<Rightarrow> kfork_child (me s) np s1) = Ok (r, s')"
    using assms by (auto simp: kfork_def)
  show ?thesis
  proof (cases a)
    case None
    then show ?thesis using a allocproc_touched [OF a(1)] by simp
  next
    case (Some np)
    then show ?thesis using kfork_child_touched [of "me s" np s1 r s'] a allocproc_touched [OF a(1)] by (auto simp: touched_def)
  qed
qed

text \<open>A wait that goes to sleep has looked at every child.\<close>

lemma kwait_scan_result:
  assumes "kwait_scan k i addr hk s = Ok (r, s')" "\<forall>j < i. pr_parent (procs s j) = Some (me s) \<longrightarrow> pr_state (procs s j) \<noteq> ZOMBIE"
  shows "touched s s' \<or> s' = sleep_on (ChProc (me s)) s \<and> (\<forall>j < i + k. pr_parent (procs s j) = Some (me s) \<longrightarrow> pr_state (procs s j) \<noteq> ZOMBIE)"
  using assms
proof (induction k arbitrary: i hk)
  case 0
  then show ?case by (auto simp: touched_def split: if_splits)
next
  case (Suc k)
  show ?case
  proof (cases "pr_parent (procs s i) = Some (me s) \<and> pr_state (procs s i) = ZOMBIE")
    case True
    then obtain c s1 where c: "(if addr \<noteq> 0 then on_vm (copyout (pr_pagetable (myproc s)) addr (le_bytes 4 (pr_xstate (procs s i)))) s else Ok (0, s)) = Ok (c, s1)"
      "(if c < 0 then Ok (Done (- 1), s1) else kbind (freeproc i s1) (\<lambda>(_, s2). Ok (Done (pr_pid (procs s i)), s2))) = Ok (r, s')"
      using Suc.prems(1) by (auto simp: Let_def)
    have 1: "kview s1 = kview s" using c(1) by (auto split: if_splits dest: on_vm_kview)
    then have 2: "others i s1 = others i s" by (simp add: kview_def others_def)
    show ?thesis using c(2) 1 2 freeproc_touched [of i s1 _ s'] by (auto simp: touched_def kview_def split: if_splits intro!: exI [of _ i])
  next
    case False
    then obtain hk' where "kwait_scan k (Suc i) addr hk' s = Ok (r, s')" using Suc.prems(1) by (auto split: if_splits)
    moreover have "\<forall>j < Suc i. pr_parent (procs s j) = Some (me s) \<longrightarrow> pr_state (procs s j) \<noteq> ZOMBIE" using Suc.prems(2) False by (auto simp: less_Suc_eq)
    ultimately show ?thesis using Suc.IH [of "Suc i" hk'] by simp
  qed
qed

inductive wait_step :: "'a kst_scheme \<Rightarrow> 'a kst_scheme \<Rightarrow> bool" where
  step_fork: "j < NPROC \<Longrightarrow> pr_state (procs s j) = RUNNING \<Longrightarrow> kfork (s\<lparr>cur := Some j\<rparr>) = Ok (r, s') \<Longrightarrow> wait_step s s'"
| step_exit: "j < NPROC \<Longrightarrow> pr_state (procs s j) = RUNNING \<Longrightarrow> kexit st (s\<lparr>cur := Some j\<rparr>) = Ok (r, s') \<Longrightarrow> wait_step s s'"
| step_wait: "j < NPROC \<Longrightarrow> pr_state (procs s j) = RUNNING \<Longrightarrow> kwait addr (s\<lparr>cur := Some j\<rparr>) = Ok (w, s') \<Longrightarrow> wait_step s s'"
| step_kkill: "kkill pid s = (e, s') \<Longrightarrow> wait_step s s'"
| step_wakeup: "wait_step s (wakeup ch (s\<lparr>cur := c\<rparr>))"
| step_sleep: "j < NPROC \<Longrightarrow> \<forall>q. ch \<noteq> ChProc q \<Longrightarrow> wait_step s (sleep_on ch (s\<lparr>cur := Some j\<rparr>))"
| step_run: "pr_state (procs s j) = RUNNABLE \<Longrightarrow> wait_step s (upd_proc j (\<lambda>p. p\<lparr>pr_state := RUNNING\<rparr>) s)"
| step_yield: "pr_state (procs s j) = RUNNING \<Longrightarrow> wait_step s (upd_proc j (\<lambda>p. p\<lparr>pr_state := RUNNABLE\<rparr>) s)"

lemma wait_inv_cur [simp]: "wait_inv (s\<lparr>cur := c\<rparr>) = wait_inv s"
  by (simp add: wait_inv_def)

lemma kexit_inv:
  assumes w: "wait_inv s" and c: "cur s = Some p" "pr_state (procs s p) = RUNNING" and run: "kexit st s = Ok (r, s')"
  shows "wait_inv s'"
proof -
  have m: "me s = p" using c(1) by (simp add: me_def)
  obtain s1 w1 s2 d s4 where 1: "kexit_files NOFILE 0 p s = Ok (w1, s1)" and 4: "kview s4 = kview s1"
    and e: "s' = kexit_end p st (upd_proc p (\<lambda>q. q\<lparr>pr_cwd := None\<rparr>) s4)" and i: "initproc s \<noteq> Some p"
    using run unfolding kexit_def m Let_def
    by (auto split: if_splits dest!: kframedD [OF kv.begin_op_frame [OF refl]] kframedD [OF kv.iput_frame [OF refl]] kframedD [OF kv.end_op_frame [OF refl]])
  have "calm s1 (upd_proc p (\<lambda>q. q\<lparr>pr_cwd := None\<rparr>) s4)" using calm_trans [OF calm_kview [OF 4] calm_own(2)] by blast
  then have k: "calm s (upd_proc p (\<lambda>q. q\<lparr>pr_cwd := None\<rparr>) s4)" (is "calm s ?t") using calm_trans [OF kexit_files_calm [OF 1]] by blast
  then have "cur ?t = Some p" "initproc ?t \<noteq> Some p" "pr_state (procs ?t p) \<noteq> ZOMBIE"
    using c i k [unfolded calm_def, THEN conjunct2, THEN conjunct2, rule_format, of p] by (auto simp: calm_def)
  then show ?thesis unfolding e using kexit_end_inv [OF wait_inv_calm [OF w k]] by blast
qed

lemma kkill_calm: "kkill_loop k i pid s = (e, s') \<Longrightarrow> calm s s'"
  by (induction k arbitrary: i) (auto simp: calm_def split: if_splits)

lemma wait_step_inv: "wait_step s s' \<Longrightarrow> wait_inv s \<Longrightarrow> wait_inv s'"
proof (induction rule: wait_step.induct)
  case (step_fork j s r s')
  show ?case by (rule wait_inv_touched [OF _ kfork_touched [OF step_fork(3)]]) (simp add: step_fork(4))
next
  case (step_exit j s st r s')
  show ?case by (rule kexit_inv [where p = j, OF _ _ _ step_exit(3)]) (simp_all add: step_exit(2,4))
next
  case (step_wait j s addr w s')
  have m: "me (s\<lparr>cur := Some j\<rparr>) = j" by (simp add: me_def)
  have "touched (s\<lparr>cur := Some j\<rparr>) s' \<or> s' = sleep_on (ChProc j) (s\<lparr>cur := Some j\<rparr>) \<and> (\<forall>i < NPROC. pr_parent (procs s i) = Some j \<longrightarrow> pr_state (procs s i) \<noteq> ZOMBIE)"
    using kwait_scan_result [OF step_wait(3) [unfolded kwait_def]] unfolding m by simp
  then show ?case
  proof
    assume "touched (s\<lparr>cur := Some j\<rparr>) s'"
    then show ?thesis using wait_inv_touched [of "s\<lparr>cur := Some j\<rparr>"] step_wait(4) by simp
  next
    assume a: "s' = sleep_on (ChProc j) (s\<lparr>cur := Some j\<rparr>) \<and> (\<forall>i < NPROC. pr_parent (procs s i) = Some j \<longrightarrow> pr_state (procs s i) \<noteq> ZOMBIE)"
    then show ?thesis using step_wait(4) unfolding wait_inv_def by (auto simp: sleep_on_def m)
  qed
next
  case (step_kkill pid s e s')
  then show ?case using wait_inv_calm kkill_calm [of NPROC 0 pid s e s'] by (auto simp: kkill_def)
next
  case (step_wakeup s ch c)
  then show ?case using wait_inv_calm [OF _ calm_wakeup, of "s\<lparr>cur := c\<rparr>" ch] by simp
next
  case (step_sleep j ch s)
  then show ?case by (auto simp: wait_inv_def sleep_on_def me_def)
next
  case (step_run s j)
  then show ?case by (auto simp: wait_inv_def)
next
  case (step_yield s j)
  then show ?case by (auto simp: wait_inv_def)
qed

text \<open>
  C4: No exit is lost. In every interleaving of \<^verbatim>\<open>kfork\<close>, \<^verbatim>\<open>kexit\<close>, \<^verbatim>\<open>kwait\<close>, \<^verbatim>\<open>kkill\<close>, sleeps, wakeups, preemptions and scheduling, by any processes,
  no process is asleep in \<^verbatim>\<open>kwait\<close> while one of its children is a zombie: a child that exits wakes its parent, and the zombies of a parent that exits itself
  go to init, which is woken for them.
\<close>

theorem wait_no_lost_exit:
  assumes "wait_step\<^sup>*\<^sup>* s s'" "wait_inv s"
  shows "wait_inv s'"
  using assms by (induction rule: rtranclp_induct) (auto intro: wait_step_inv)

theorem wait_no_lost_exit_witness:
  "\<exists>(s :: kst) s'. wait_step\<^sup>*\<^sup>* s s' \<and> pr_state (procs s' 1) = SLEEPING \<and> pr_chan (procs s' 1) = ChProc 1 \<and> wait_inv s'"
proof -
  let ?t = "\<lambda>i. if i = 2 then no_proc\<lparr>pr_state := RUNNABLE, pr_parent := Some 1\<rparr> else if i = 1 then no_proc\<lparr>pr_state := RUNNING\<rparr> else no_proc"
  let ?s = "demo_kst demo_vm ?t" let ?s' = "sleep_on (ChProc 1) (?s\<lparr>cur := Some 1\<rparr>)"
  have n: "1 < NPROC" "pr_state (procs ?s 1) = RUNNING" by (simp_all add: NPROC_def)
  have "kwait 0 (?s\<lparr>cur := Some 1\<rparr>) = Ok (Asleep 0, ?s')"
    by (simp add: kwait_def NPROC_def numeral_eq_Suc killed_def me_def no_proc_def)
  then have "wait_step ?s ?s'" by (rule step_wait [OF n])
  then have r: "wait_step\<^sup>*\<^sup>* ?s ?s'" by (rule r_into_rtranclp)
  moreover have "wait_inv ?s" by (simp add: wait_inv_def no_proc_def)
  ultimately have "wait_inv ?s'" by (rule wait_no_lost_exit)
  then show ?thesis using r by (intro exI [of _ ?s] exI [of _ ?s']) (simp add: sleep_on_def me_def)
qed

end
