(* ===== verification/Sys_Refs.thy ===== *)
theory Sys_Refs
  imports Trap Proc_Wait
begin

section \<open>Descriptors and references\<close>

text \<open>
  The reference count of every open file is the number of descriptors that name it, over all processes, and a process that is unused or a zombie has no descriptor.
  Every system call keeps this, on every path. Calls that change no descriptor leave the view \<open>fdv\<close> alone; the others are followed with a balance \<open>D\<close>, the references a call
  holds that no descriptor accounts for yet.
\<close>

subsection \<open>The view\<close>

definition dead :: "procstate \<Rightarrow> bool" where
  "dead st \<longleftrightarrow> st = UNUSED \<or> st = ZOMBIE"

definition fdv :: "'a kst_scheme \<Rightarrow> (nat \<Rightarrow> nat \<Rightarrow> nat option) \<times> (nat \<Rightarrow> int) \<times> (nat \<Rightarrow> bool) \<times> nat option" where
  "fdv s = (\<lambda>j. pr_ofile (procs s j), \<lambda>f. f_ref (ftable s f), \<lambda>j. dead (pr_state (procs s j)), cur s)"

interpretation fv: fs_frame_um fdv
  by unfold_locales (simp_all add: fdv_def)

lemma fdv_simps [simp]:
  "fdv (s\<lparr>consl := x1\<rparr>) = fdv s" "fdv (s\<lparr>pipes := x2\<rparr>) = fdv s" "fdv (s\<lparr>tx_busy := x3\<rparr>) = fdv s" "fdv (s\<lparr>uart_out := x4\<rparr>) = fdv s" "fdv (s\<lparr>ticks := x5\<rparr>) = fdv s"
  "fdv (upd_pipe pi f s) = fdv s" "fdv (upd_cons g s) = fdv s" "fdv (emit bs s) = fdv s" "fdv (put_mem a bs s) = fdv s" "fdv (tf_set j off v s) = fdv s" "fdv (load_cur s) = fdv s"
  by (simp_all add: fdv_def upd_pipe_def upd_cons_def emit_def put_mem_def tf_set_def load_cur_def Let_def)

lemma fdv_upd_file [simp]: "(\<And>x. f_ref (h x) = f_ref x) \<Longrightarrow> fdv (upd_file f h s) = fdv s"
  by (auto simp: fdv_def upd_file_def)

lemma fdv_upd_proc [simp]: "(\<And>q. pr_ofile (h q) = pr_ofile q) \<Longrightarrow> dead (pr_state (h (procs s j))) = dead (pr_state (procs s j)) \<Longrightarrow> fdv (upd_proc j h s) = fdv s"
  by (auto simp: fdv_def)

lemma fdv_wakeup [simp]: "fdv (wakeup ch s) = fdv s"
  by (auto simp: fdv_def dead_def)

lemma fdv_quiet: "quiet s s' \<Longrightarrow> ftable s' = ftable s \<Longrightarrow> fdv s' = fdv s"
proof -
  assume q: "quiet s s'" and f: "ftable s' = ftable s"
  have "pr_ofile (procs s' j) = pr_ofile (procs s j) \<and> dead (pr_state (procs s' j)) = dead (pr_state (procs s j))" for j
    using q [unfolded quiet_def, THEN conjunct2, THEN conjunct2, rule_format, of j] by (auto simp: dead_def)
  moreover have "cur s' = cur s" using q by (simp add: quiet_def)
  ultimately show ?thesis using f by (simp add: fdv_def)
qed

text \<open>The current process is one of the table and alive; then going to sleep is no change.\<close>

definition live :: "'a kst_scheme \<Rightarrow> bool" where
  "live s \<longleftrightarrow> (\<exists>p. cur s = Some p \<and> p < NPROC \<and> \<not> dead (pr_state (procs s p)))"

lemma live_cong: "fdv s' = fdv s \<Longrightarrow> live s' = live s"
  by (simp add: fdv_def live_def fun_eq_iff)

lemma me_cong: "fdv s' = fdv s \<Longrightarrow> me s' = me s"
  by (simp add: fdv_def me_def)

lemma fdv_sleep: "live s \<Longrightarrow> fdv t = fdv s \<Longrightarrow> fdv (sleep_on ch t) = fdv s"
proof -
  assume l: "live s" and e: "fdv t = fdv s"
  have "live t" using l e live_cong by blast
  then have "fdv (sleep_on ch t) = fdv t" unfolding sleep_on_def by (intro fdv_upd_proc) (auto simp: live_def me_def dead_def)
  then show ?thesis using e by simp
qed

subsection \<open>Calls that change no descriptor\<close>

lemma pipewrite_loop_fdv: "live s \<Longrightarrow> fdv t = fdv s \<Longrightarrow> kframed fdv s (pipewrite_loop pi addr n i t)"
proof (induction "nat n - i" arbitrary: i t rule: less_induct)
  case less
  have "kframed fdv s (pipewrite_loop pi addr n (Suc i) t')" if "int i < n" "fdv t' = fdv s" for t'
    using that less.prems by (intro less.hyps) auto
  then show ?case using less.prems by (subst pipewrite_loop.simps) (auto intro!: kframe fdv_sleep)
qed

lemma piperead_loop_fdv: "fdv t = fdv s \<Longrightarrow> kframed fdv s (piperead_loop pi addr n i t)"
proof (induction "nat n - i" arbitrary: i t rule: less_induct)
  case less
  have "kframed fdv s (piperead_loop pi addr n (Suc i) t')" if "int i < n" "fdv t' = fdv s" for t'
    using that by (intro less.hyps) auto
  then show ?case using less.prems by (subst piperead_loop.simps) (auto intro!: kframe)
qed

lemma pipe_fdv [kframe]: "live s \<Longrightarrow> fdv t = fdv s \<Longrightarrow> kframed fdv s (pipewrite pi addr n t)"
  "live s \<Longrightarrow> fdv t = fdv s \<Longrightarrow> kframed fdv s (piperead pi addr n t)"
  unfolding pipewrite_def piperead_def by (auto intro!: kframe pipewrite_loop_fdv piperead_loop_fdv fdv_sleep)

lemma uartwrite_fdv:
  fixes s t :: "'a kst_scheme"
  assumes "live s" "fdv t = fdv s"
  shows "fdv (snd (uartwrite buf i t)) = fdv s"
  using assms
proof (induction "length buf - i" arbitrary: i t rule: less_induct)
  case less
  have "fdv (snd (uartwrite buf (Suc i) t')) = fdv s" if "i < length buf" "fdv t' = fdv s" for t' :: "'a kst_scheme" using that less.prems by (intro less.hyps) auto
  then show ?case using less.prems by (subst uartwrite.simps) (auto intro!: fdv_sleep)
qed

lemma kframed_wait [kframe]:
  "(\<And>v. w = Done v \<Longrightarrow> kframed g s (f v)) \<Longrightarrow> (\<And>j. w = Asleep j \<Longrightarrow> kframed g s (h j)) \<Longrightarrow> kframed g s (case w of Done v \<Rightarrow> f v | Asleep j \<Rightarrow> h j)"
  by (cases w) simp_all

lemma consolewrite_loop_fdv:
  fixes s t :: "'a kst_scheme"
  assumes "live s" "fdv t = fdv s"
  shows "kframed fdv s (consolewrite_loop src n i t)"
  using assms
proof (induction "nat n - i" arbitrary: i t rule: less_induct)
  case less
  have step: "kframed fdv s (consolewrite_loop src n (i + min 32 (nat n - i)) t')" if "int i < n" "fdv t' = fdv s" for t'
    using that less.prems by (intro less.hyps) auto
  have sent: "fdv s2 = fdv s" if "uartwrite bs 0 t' = (w, s2)" "fdv t' = fdv s" for bs w s2 and t' :: "'a kst_scheme"
    using uartwrite_fdv [OF less.prems(1) that(2), of bs 0] that(1) by simp
  show ?case using less.prems step by (subst consolewrite_loop.simps) (auto intro!: kframe simp: Let_def dest: sent)
qed

lemma consoleread_loop_fdv: "live s \<Longrightarrow> fdv t = fdv s \<Longrightarrow> kframed fdv s (consoleread_loop dst tg n t)"
  by (induction n arbitrary: dst t) (auto intro!: kframe fdv_sleep simp: Let_def)

lemma console_fdv [kframe]: "live s \<Longrightarrow> fdv t = fdv s \<Longrightarrow> kframed fdv s (consolewrite src n t)"
  "live s \<Longrightarrow> fdv t = fdv s \<Longrightarrow> kframed fdv s (consoleread dst n t)"
  unfolding consolewrite_def consoleread_def by (auto intro: consolewrite_loop_fdv consoleread_loop_fdv)

lemma kframed_ftype [kframe]:
  "(y = FD_NONE \<Longrightarrow> kframed g s a) \<Longrightarrow> (y = FD_PIPE \<Longrightarrow> kframed g s b) \<Longrightarrow> (y = FD_INODE \<Longrightarrow> kframed g s c) \<Longrightarrow> (y = FD_DEVICE \<Longrightarrow> kframed g s d) \<Longrightarrow>
   kframed g s (case y of FD_NONE \<Rightarrow> a | FD_PIPE \<Rightarrow> b | FD_INODE \<Rightarrow> c | FD_DEVICE \<Rightarrow> d)"
  by (cases y) simp_all

lemma filestat_fdv [kframe]: "fdv t = fdv s \<Longrightarrow> kframed fdv s (filestat pad f addr t)"
  unfolding filestat_def Let_def by (intro kframe) simp_all

lemma devsw_fdv:
  "live s \<Longrightarrow> fdv t = fdv s \<Longrightarrow> devsw_read m = Some rd \<Longrightarrow> kframed fdv s (rd dst n t)"
  "live s \<Longrightarrow> fdv t = fdv s \<Longrightarrow> devsw_write m = Some wr \<Longrightarrow> kframed fdv s (wr src n t)"
  by (auto simp: devsw_read_def devsw_write_def split: if_splits intro: console_fdv)

lemma fileread_fdv [kframe]: "live s \<Longrightarrow> fdv t = fdv s \<Longrightarrow> kframed fdv s (fileread f addr n t)"
  unfolding fileread_def Let_def by (intro kframe devsw_fdv) simp_all

lemma filewrite_loop_fdv: "fdv t = fdv s \<Longrightarrow> kframed fdv s (filewrite_loop f addr n i t)"
proof (induction "nat n - i" arbitrary: i t rule: less_induct)
  case less
  have "kframed fdv s (filewrite_loop f addr n (i + min (nat n - i) FILEWRITE_MAX) t')" if "int i < n" "fdv t' = fdv s" for t'
    using that by (intro less.hyps) auto
  then show ?case using less.prems by (subst filewrite_loop.simps) (auto intro!: kframe simp: Let_def)
qed

lemma filewrite_fdv [kframe]: "live s \<Longrightarrow> fdv t = fdv s \<Longrightarrow> kframed fdv s (filewrite f addr n t)"
  unfolding filewrite_def Let_def by (intro kframe filewrite_loop_fdv) (simp_all, erule (2) devsw_fdv(2))

lemma kwait_scan_fdv: "live s \<Longrightarrow> fdv t = fdv s \<Longrightarrow> kframed fdv s (kwait_scan k i addr hk t)"
proof (induction k arbitrary: i hk t)
  case 0
  then show ?case by (auto intro!: kframe fdv_sleep)
next
  case (Suc k)
  have free: "kframed fdv s (freeproc i u)" if "fdv u = fdv s" "dead (pr_state (procs u i))" for u
  proof -
    have "dead (pr_state (procs w i))" if "fdv w = fdv s" for w
      using that \<open>fdv u = fdv s\<close> \<open>dead (pr_state (procs u i))\<close> by (simp add: fdv_def fun_eq_iff)
    then show ?thesis unfolding freeproc_def Let_def using that(1) by (intro kframe) (auto simp: dead_def [of UNUSED] intro!: trans [OF fdv_upd_proc])
  qed
  have keep: "dead (pr_state (procs u i))" if "fdv u = fdv s" "pr_state (procs t i) = ZOMBIE" for u
    using that Suc.prems(2) by (simp add: fdv_def fun_eq_iff) (metis dead_def)
  show ?case using Suc by (auto intro!: kframe free keep simp: Let_def)
qed

lemma growproc_fdv [kframe]: "fdv t = fdv s \<Longrightarrow> kframed fdv s (growproc n t)"
  unfolding growproc_def Let_def by (intro kframe) simp_all

lemma loadseg_loop_fdv: "fdv t = fdv s \<Longrightarrow> kframed fdv s (loadseg_loop pt va ip off sz i t)"
proof (induction "unat sz - i" arbitrary: i t rule: less_induct)
  case less
  have "kframed fdv s (loadseg_loop pt va ip off sz (i + 4096) t')" if "i < unat sz" "fdv t' = fdv s" for t'
    using that by (intro less.hyps) auto
  then show ?case using less.prems by (subst loadseg_loop.simps) (auto intro!: kframe simp: Let_def)
qed

lemma loadseg_fdv [kframe]: "fdv t = fdv s \<Longrightarrow> kframed fdv s (loadseg pt va ip off sz t)"
  unfolding loadseg_def by (rule loadseg_loop_fdv)

lemma kexec_load_fdv [kframe]: "fdv t = fdv s \<Longrightarrow> kframed fdv s (kexec_load k pt ip off sz t)"
  by (induction k arbitrary: off sz t) (auto intro!: kframe simp: Let_def)

lemma kexec_args_fdv [kframe]: "fdv t = fdv s \<Longrightarrow> kframed fdv s (kexec_args argv pt base sp us t)"
  by (induction argv arbitrary: sp us t) (auto intro!: kframe simp: Let_def)

lemma kexec_bad_fdv [kframe]: "fdv t = fdv s \<Longrightarrow> kframed fdv s (kexec_bad pt sz ip t)"
  unfolding kexec_bad_def by (intro kframe) simp_all

lemma kexec_stack_fdv [kframe]: "fdv t = fdv s \<Longrightarrow> kframed fdv s (kexec_stack path argv entry pt sz t)"
  unfolding kexec_stack_def Let_def by (intro kframe) simp_all

lemma kexec_fdv [kframe]: "fdv t = fdv s \<Longrightarrow> kframed fdv s (kexec path argv t)"
  unfolding kexec_def Let_def by (intro kframe) simp_all

lemmas kframed_args [kframe] = kframed_pure [of _ _ _ "argint n t" for n t] kframed_pure [of _ _ _ "argaddr n t" for n t] kframed_pure [of _ _ _ "argfd n t" for n t]

lemma fetch_fdv [kframe]: "fdv t = fdv s \<Longrightarrow> kframed fdv s (fetchaddr a t)" "fdv t = fdv s \<Longrightarrow> kframed fdv s (fetchstr a mx t)"
  "fdv t = fdv s \<Longrightarrow> kframed fdv s (argstr n mx t)"
  unfolding fetchaddr_def fetchstr_def argstr_def Let_def by (intro kframe; simp)+

lemma finish_fdv [kframe]: "fdv t = fdv s \<Longrightarrow> kframed fdv s (finish r t)" "fdv t = fdv s \<Longrightarrow> kframed fdv s (put_finish ip r t)"
  "fdv t = fdv s \<Longrightarrow> kframed fdv s (add_nlink ip d t)" "fdv t = fdv s \<Longrightarrow> kframed fdv s (sys_link_bad ip t)"
  unfolding finish_def put_finish_def add_nlink_def sys_link_bad_def by (intro kframe; simp)+

lemma link_paths_fdv [kframe]: "fdv t = fdv s \<Longrightarrow> kframed fdv s (link_paths old new t)"
  unfolding link_paths_def by (intro kframe) simp_all

lemma isdirempty_loop_fdv: "fdv t = fdv s \<Longrightarrow> kframed fdv s (isdirempty_loop dp sz off t)"
proof (induction "sz - off" arbitrary: off t rule: less_induct)
  case less
  have "kframed fdv s (isdirempty_loop dp sz (off + 16) t')" if "off < sz" "fdv t' = fdv s" for t' using that by (intro less.hyps) auto
  then show ?case using less.prems by (subst isdirempty_loop.simps) (auto intro!: kframe)
qed

lemma isdirempty_fdv [kframe]: "fdv t = fdv s \<Longrightarrow> kframed fdv s (isdirempty dp t)"
  unfolding isdirempty_def by (rule isdirempty_loop_fdv)

lemma unlink_entry_fdv [kframe]: "fdv t = fdv s \<Longrightarrow> kframed fdv s (unlink_entry dp ip off t)"
  unfolding unlink_entry_def by (intro kframe) simp_all

lemma unlink_path_fdv [kframe]: "fdv t = fdv s \<Longrightarrow> kframed fdv s (unlink_path path t)"
  unfolding unlink_path_def by (intro kframe) simp_all

lemma create_parts_fdv [kframe]: "fdv t = fdv s \<Longrightarrow> kframed fdv s (create_fail dp ip t)" "fdv t = fdv s \<Longrightarrow> kframed fdv s (create_dots ty dp ip t)"
  unfolding create_fail_def create_dots_def by (intro kframe; simp)+

lemma create_fdv [kframe]: "fdv t = fdv s \<Longrightarrow> kframed fdv s (create path ty ma mi t)"
  unfolding create_def by (intro kframe) simp_all

lemma free_pages_fdv [kframe]: "fdv t = fdv s \<Longrightarrow> kframed fdv s (free_pages pgs t)"
  by (induction pgs arbitrary: t) (auto intro!: kframe)

lemma exec_args_fdv [kframe]: "fdv t = fdv s \<Longrightarrow> kframed fdv s (exec_args k uargv strs pgs t)"
  by (induction k arbitrary: strs pgs t) (auto intro!: kframe simp: Let_def)

lemma kkill_fdv: "fdv (snd (kkill_loop k i pid s)) = fdv s"
  by (induction k arbitrary: i) (auto simp: dead_def intro!: fdv_upd_proc)

text \<open>The system calls that open and close nothing.\<close>

lemma sys_frames:
  assumes "live s"
  shows "kframed fdv s (sys_read s)" "kframed fdv s (sys_write s)" "kframed fdv s (sys_fstat pad s)" "kframed fdv s (sys_link s)" "kframed fdv s (sys_unlink s)"
    "kframed fdv s (sys_mkdir s)" "kframed fdv s (sys_mknod s)" "kframed fdv s (sys_chdir s)" "kframed fdv s (sys_exec s)" "kframed fdv s (sys_wait s)"
    "kframed fdv s (sys_getpid s)" "kframed fdv s (sys_sbrk s)" "kframed fdv s (sys_pause s)" "kframed fdv s (sys_kill s)" "kframed fdv s (sys_uptime s)"
proof -
  note l = assms
  show "kframed fdv s (sys_read s)" "kframed fdv s (sys_write s)" "kframed fdv s (sys_fstat pad s)"
    unfolding sys_read_def sys_write_def sys_fstat_def by (intro kframe l refl; simp)+
  show "kframed fdv s (sys_link s)" "kframed fdv s (sys_unlink s)" "kframed fdv s (sys_mkdir s)" "kframed fdv s (sys_mknod s)"
    unfolding sys_link_def sys_unlink_def sys_mkdir_def sys_mknod_def by (intro kframe; simp)+
  show "kframed fdv s (sys_chdir s)" "kframed fdv s (sys_exec s)" unfolding sys_chdir_def sys_exec_def by (intro kframe; simp)+
  show "kframed fdv s (sys_wait s)" unfolding sys_wait_def kwait_def by (intro kframe kwait_scan_fdv l refl)
  show "kframed fdv s (sys_getpid s)" "kframed fdv s (sys_uptime s)" unfolding sys_getpid_def sys_uptime_def by (intro kframe; simp)+
  show "kframed fdv s (sys_sbrk s)" unfolding sys_sbrk_def sbrk_def Let_def by (intro kframe) simp_all
  show "kframed fdv s (sys_pause s)" unfolding sys_pause_def sys_pause_loop_def by (intro kframe) (simp_all add: fdv_sleep l)
  show "kframed fdv s (sys_kill s)" unfolding sys_kill_def kkill_def
    by (intro kframe) (metis kkill_fdv snd_conv)
qed

subsection \<open>The balance of references\<close>

definition nrefs :: "'a kst_scheme \<Rightarrow> nat \<Rightarrow> int" where
  "nrefs s f = (\<Sum>(j, fd) \<in> {..<NPROC} \<times> {..<NOFILE}. of_bool (pr_ofile (procs s j) fd = Some f))"

definition bal :: "'a kst_scheme \<Rightarrow> (nat \<Rightarrow> int) \<Rightarrow> bool" where
  "bal s D \<longleftrightarrow> (\<forall>f. f_ref (ftable s f) = nrefs s f + D f)"

definition dead_clean :: "'a kst_scheme \<Rightarrow> bool" where
  "dead_clean s \<longleftrightarrow> (\<forall>j < NPROC. dead (pr_state (procs s j)) \<longrightarrow> (\<forall>fd < NOFILE. pr_ofile (procs s j) fd = None))"

definition fd_ok :: "'a kst_scheme \<Rightarrow> bool" where
  "fd_ok s \<longleftrightarrow> bal s (\<lambda>_. 0) \<and> dead_clean s"

definition good :: "'a kst_scheme \<Rightarrow> (nat \<Rightarrow> int) \<Rightarrow> bool" where
  "good s D \<longleftrightarrow> bal s D \<and> dead_clean s \<and> live s"

definition one :: "nat \<Rightarrow> nat \<Rightarrow> int" where
  "one f x = of_bool (x = f)"

lemma nrefs_cong: "(\<And>j. pr_ofile (procs s' j) = pr_ofile (procs s j)) \<Longrightarrow> nrefs s' f = nrefs s f"
  by (simp add: nrefs_def)

lemma fdvD: "fdv s' = fdv s \<Longrightarrow> pr_ofile (procs s' j) = pr_ofile (procs s j) \<and> f_ref (ftable s' f) = f_ref (ftable s f) \<and>
    dead (pr_state (procs s' j)) = dead (pr_state (procs s j)) \<and> cur s' = cur s"
  by (simp add: fdv_def fun_eq_iff)

lemma fdv_good: "fdv s' = fdv s \<Longrightarrow> good s' D = good s D" "fdv s' = fdv s \<Longrightarrow> fd_ok s' = fd_ok s"
  using fdvD [of s' s] nrefs_cong [of s' s] live_cong [of s' s] by (simp_all add: good_def fd_ok_def bal_def dead_clean_def)

lemma nrefs_set:
  assumes "j < NPROC" "fd < NOFILE"
  shows "nrefs (upd_proc j (\<lambda>p. p\<lparr>pr_ofile := (pr_ofile p)(fd := v)\<rparr>) s) f = nrefs s f - of_bool (pr_ofile (procs s j) fd = Some f) + of_bool (v = Some f)"
proof -
  let ?A = "{..<NPROC} \<times> {..<NOFILE}"
  have a: "(j, fd) \<in> ?A" "finite ?A" using assms by simp_all
  show ?thesis unfolding nrefs_def sum.remove [OF a(2,1)] by (auto intro!: sum.cong split: if_splits)
qed

lemma good_set:
  assumes g: "good s D" and m: "me s = p" "fd < NOFILE" and D': "\<And>x. D' x = D x + of_bool (pr_ofile (procs s p) fd = Some x) - of_bool (v = Some x)"
  shows "good (set_fd fd v s) D'"
proof -
  have p: "p < NPROC" "\<not> dead (pr_state (procs s p))" using g m(1) by (auto simp: good_def live_def me_def)
  have "bal (set_fd fd v s) D'" using g unfolding good_def bal_def set_fd_def m(1) nrefs_set [OF p(1) m(2)] by (simp add: D')
  moreover have "dead_clean (set_fd fd v s)" using g p(2) m(1) by (auto simp: good_def dead_clean_def set_fd_def)
  moreover have "live (set_fd fd v s)" using g by (auto simp: good_def live_def set_fd_def)
  ultimately show ?thesis by (simp add: good_def)
qed

lemma good_filealloc:
  assumes "good s D" "filealloc s = (Some f, s1)"
  shows "good s1 (\<lambda>x. D x + one f x)"
proof -
  have "f_ref (ftable s f) = 0 \<and> s1 = upd_file f (\<lambda>x. x\<lparr>f_ref := 1\<rparr>) s" if "filealloc_loop k i s = (Some f, s1)" for k i
    using that by (induction k arbitrary: i) (auto split: if_splits)
  from this [OF assms(2) [unfolded filealloc_def]] show ?thesis
    using assms(1) nrefs_cong [of s1 s] by (auto simp: good_def bal_def dead_clean_def live_def upd_file_def one_def)
qed

lemma filealloc_none: "filealloc s = (None, s1) \<Longrightarrow> s1 = s"
proof -
  have "filealloc_loop k i s = (None, s1) \<Longrightarrow> s1 = s" for k i by (induction k arbitrary: i) (auto split: if_splits)
  then show "filealloc s = (None, s1) \<Longrightarrow> s1 = s" by (simp add: filealloc_def)
qed

lemma good_filedup:
  assumes "good s D" "filedup f s = Ok (r, s1)"
  shows "good s1 (\<lambda>x. D x + one f x)" "r = f" "procs s1 = procs s" "me s1 = me s"
  using assms nrefs_cong [of s1 s] by (auto simp: filedup_def good_def bal_def dead_clean_def live_def upd_file_def one_def me_def split: if_splits)

lemma good_fileclose:
  assumes g: "good s D" and c: "fileclose f s = Ok (r, s1)"
  shows "good s1 (\<lambda>x. D x - one f x)" "\<forall>j. pr_ofile (procs s1 j) = pr_ofile (procs s j)" "me s1 = me s"
proof -
  note q = fileclose_quiet [OF c]
  have st: "pr_ofile (procs s1 j) = pr_ofile (procs s j) \<and> dead (pr_state (procs s1 j)) = dead (pr_state (procs s j))" for j
    using q [THEN conjunct1, unfolded quiet_def, THEN conjunct2, THEN conjunct2, rule_format, of j] by (auto simp: dead_def)
  have cu: "cur s1 = cur s" using q by (simp add: quiet_def)
  show "good s1 (\<lambda>x. D x - one f x)" using g q st cu nrefs_cong [of s1 s] by (auto simp: good_def bal_def dead_clean_def live_def one_def)
  show "\<forall>j. pr_ofile (procs s1 j) = pr_ofile (procs s j)" "me s1 = me s" using st cu by (simp_all add: me_def)
qed

lemma fdalloc_result:
  assumes "fdalloc f s = (r, s1)"
  shows "case r of None \<Rightarrow> s1 = s | Some fd \<Rightarrow> fd < NOFILE \<and> s1 = set_fd fd (Some f) s \<and> pr_ofile (procs s (me s)) fd = None"
proof -
  have "fdalloc_loop k i f s = (r, s1) \<Longrightarrow> case r of None \<Rightarrow> s1 = s | Some fd \<Rightarrow> fd < i + k \<and> s1 = set_fd fd (Some f) s \<and> pr_ofile (procs s (me s)) fd = None" for k i
    by (induction k arbitrary: i) (force simp: myproc_def split: if_splits option.splits)+
  from this [OF assms [unfolded fdalloc_def]] show ?thesis by (cases r) simp_all
qed

lemma good_fdalloc:
  assumes "good s D" "fdalloc f s = (Some fd, s1)"
  shows "good s1 (\<lambda>x. D x - one f x)" "fd < NOFILE" "pr_ofile (procs s1 (me s1)) fd = Some f" "me s1 = me s"
proof -
  have r: "fd < NOFILE" "s1 = set_fd fd (Some f) s" "pr_ofile (procs s (me s)) fd = None" using fdalloc_result [OF assms(2)] by simp_all
  show "good s1 (\<lambda>x. D x - one f x)" unfolding r(2) by (rule good_set [OF assms(1) refl r(1)]) (auto simp: r(3) one_def)
  show "fd < NOFILE" "pr_ofile (procs s1 (me s1)) fd = Some f" "me s1 = me s" using r by (simp_all add: set_fd_def)
qed

subsection \<open>Calls that open or close\<close>

abbreviation good0 :: "'a kst_scheme \<Rightarrow> bool" where
  "good0 s \<equiv> good s (\<lambda>_. 0)"

definition keeps :: "('r \<times> 'a kst_scheme) kres \<Rightarrow> bool" where
  "keeps m \<longleftrightarrow> (\<forall>r s'. m = Ok (r, s') \<longrightarrow> fd_ok s')"

named_theorems kgood \<open>rules for calls that keep the descriptors in balance\<close>

lemma good_eq: "good s D \<Longrightarrow> (\<And>x. D' x = D x) \<Longrightarrow> good s D'"
  by (metis ext)

lemma good0_fd_ok: "good0 s \<Longrightarrow> fd_ok s"
  by (simp add: good_def fd_ok_def)

lemma keeps_frame: "good0 s \<Longrightarrow> kframed fdv s m \<Longrightarrow> keeps m"
  unfolding keeps_def kframed_def using fdv_good(2) good0_fd_ok by blast

lemma keeps_bind [kgood]: "kframed fdv s m \<Longrightarrow> (\<And>p. fdv (snd p) = fdv s \<Longrightarrow> keeps (f p)) \<Longrightarrow> keeps (kbind m f)"
  by (cases m) (auto simp: keeps_def kframed_def)

lemma keeps_pure: "(\<And>x. m = Ok x \<Longrightarrow> keeps (f x)) \<Longrightarrow> keeps (kbind m f)"
  by (cases m) (auto simp: keeps_def)

lemma keeps_Ok [kgood]: "good0 (snd p) \<Longrightarrow> keeps (Ok p)" "keeps (Panic msg)"
  by (auto simp: keeps_def good0_fd_ok)

lemma keeps_if [kgood]: "(b \<Longrightarrow> keeps m) \<Longrightarrow> (\<not> b \<Longrightarrow> keeps n) \<Longrightarrow> keeps (if b then m else n)"
  by simp

lemma keeps_prod [kgood]: "(\<And>a b. p = (a, b) \<Longrightarrow> keeps (f a b)) \<Longrightarrow> keeps (case p of (a, b) \<Rightarrow> f a b)"
  by (cases p) simp

lemma keeps_prod2 [kgood]: "(\<And>a b. p = (a, b) \<Longrightarrow> keeps (f a b x)) \<Longrightarrow> keeps ((case p of (a, b) \<Rightarrow> f a b) x)"
  by (cases p) simp

lemma keeps_opt [kgood]: "(x = None \<Longrightarrow> keeps m) \<Longrightarrow> (\<And>y. x = Some y \<Longrightarrow> keeps (f y)) \<Longrightarrow> keeps (case x of None \<Rightarrow> m | Some y \<Rightarrow> f y)"
  by (cases x) simp_all

lemma keeps_optp: "(\<And>t. x = (None, t) \<Longrightarrow> keeps (m t)) \<Longrightarrow> (\<And>y t. x = (Some y, t) \<Longrightarrow> keeps (f y t)) \<Longrightarrow> keeps (case x of (None, t) \<Rightarrow> m t | (Some y, t) \<Rightarrow> f y t)"
  by (cases x; cases "fst x") auto

lemma good_fdv: "good0 s \<Longrightarrow> fdv t = fdv s \<Longrightarrow> good0 t"
  using fdv_good(1) by blast

text \<open>Closing a file that a call holds one reference of.\<close>

lemma keeps_fileclose:
  assumes "good s (one f)" and "\<And>t. good0 t \<Longrightarrow> me t = me s \<Longrightarrow> keeps (k ((), t))"
  shows "keeps (kbind (fileclose f s) k)"
proof (rule keeps_pure)
  fix x assume x: "fileclose f s = Ok x"
  then obtain t where t: "x = ((), t)" "fileclose f s = Ok ((), t)" by (cases x) simp
  show "keeps (k x)" unfolding t(1) using good_eq [OF good_fileclose(1) [OF assms(1) t(2)], of "\<lambda>_. 0"] good_fileclose(3) [OF assms(1) t(2)] by (intro assms(2)) simp_all
qed

lemma argfd_Some: "argfd n s = Ok (Some (fd, f)) \<Longrightarrow> fd < NOFILE \<and> pr_ofile (procs s (me s)) fd = Some f"
  by (auto simp: argfd_def myproc_def split: if_splits option.splits)

lemma good0_Ok: "good0 s \<Longrightarrow> keeps (Ok (r, s))"
  by (rule keeps_Ok(1)) simp

lemma sys_dup_keeps:
  assumes g: "good0 s"
  shows "keeps (sys_dup s)"
proof -
  have d: "keeps (case fdalloc f s of (None, s1) \<Rightarrow> Ok (Done (- 1), s1) | (Some fd, s1) \<Rightarrow> kbind (filedup f s1) (\<lambda>(_, s2). Ok (Done (int fd), s2)))" for f
  proof (rule keeps_optp)
    show "keeps (Ok (Done (- 1 :: int), t))" if "fdalloc f s = (None, t)" for t using g fdalloc_result [OF that] by (simp add: good0_Ok)
  next
    fix fd t assume t: "fdalloc f s = (Some fd, t)"
    have "good s2 (\<lambda>x. 0 - one f x + one f x)" if "filedup f t = Ok (b, s2)" for b s2 using good_filedup(1) [OF good_fdalloc(1) [OF g t] that] by simp
    then show "keeps (kbind (filedup f t) (\<lambda>(_, s2). Ok (Done (int fd), s2)))" by (intro keeps_pure) (auto intro: good0_Ok)
  qed
  show ?thesis unfolding sys_dup_def
    by (rule keeps_pure, rule keeps_opt, rule good0_Ok [OF g], rule keeps_prod, rule d)
qed

lemma sys_close_keeps:
  assumes g: "good0 s"
  shows "keeps (sys_close s)"
proof -
  have d: "keeps (kbind (fileclose f (set_fd fd None s)) (\<lambda>(_, s1). Ok (Done (0 :: int), s1)))" if a: "argfd 0 s = Ok (Some (fd, f))" for fd f
  proof (rule keeps_fileclose)
    note a = argfd_Some [OF a]
    show "good (set_fd fd None s) (one f)" by (rule good_set [OF g refl]) (use a in \<open>auto simp: one_def\<close>)
  qed (simp add: good0_Ok)
  show ?thesis unfolding sys_close_def
    by (rule keeps_pure, rule keeps_opt, rule good0_Ok [OF g], rule keeps_prod, rule d) simp
qed

lemma set_open_fdv [simp]: "fdv (set_open f ip om s) = fdv s"
  by (simp add: set_open_def Let_def)

lemma open_finish_fdv [kframe]: "fdv t = fdv s \<Longrightarrow> kframed fdv s (open_finish ip om fd t)"
  unfolding open_finish_def by (intro kframe) simp_all

lemma open_inode_keeps:
  fixes s :: "'a kst_scheme"
  assumes g: "good0 s"
  shows "keeps (open_inode ip om s)"
proof -
  have p: "keeps (put_finish ip r t)" if "good0 t" for r and t :: "'a kst_scheme" by (rule keeps_frame [OF that]) (intro kframe refl)
  have d: "keeps (case fdalloc f s1 of (None, s2) \<Rightarrow> kbind (fileclose f s2) (\<lambda>(_, s3). put_finish ip (- 1) s3)
      | (Some fd, s2) \<Rightarrow> open_finish ip om fd (set_open f ip om s2))" if f: "filealloc s = (Some f, s1)" for f s1
  proof (rule keeps_optp)
    have g1: "good s1 (one f)" using good_eq [OF good_filealloc [OF g f], of "one f"] by simp
    show "keeps (kbind (fileclose f t) (\<lambda>(_, s3). put_finish ip (- 1) s3))" if "fdalloc f s1 = (None, t)" for t
      using fdalloc_result [OF that] g1 by (intro keeps_fileclose) (simp_all add: p)
    show "keeps (open_finish ip om fd (set_open f ip om s2))" if "fdalloc f s1 = (Some fd, s2)" for fd s2
      using good_eq [OF good_fdalloc(1) [OF g1 that], of "\<lambda>_. 0"] by (intro keeps_frame [of s2]) (auto intro!: kframe)
  qed
  show ?thesis unfolding open_inode_def using filealloc_none [of s] g p by (intro keeps_if p keeps_optp d) auto
qed

lemma sys_open_keeps:
  fixes s :: "'a kst_scheme"
  assumes g: "good0 s"
  shows "keeps (sys_open s)"
proof -
  have "keeps (finish r t)" "keeps (put_finish ip r t)" "keeps (open_inode ip om t)" if "fdv t = fdv s" for ip r om and t :: "'a kst_scheme"
    using good_fdv [OF g that] by (auto intro!: open_inode_keeps intro: keeps_frame kframe)
  note k = this
  have "keeps (open_path path om t)" if t: "fdv t = fdv s" for path om and t :: "'a kst_scheme"
    unfolding open_path_def by (intro keeps_bind [of s] keeps_prod keeps_if keeps_opt k) (auto intro!: kframe simp: t)
  then show ?thesis unfolding sys_open_def
    by (intro keeps_pure [of "argint 1 s"] keeps_bind [of s] keeps_prod keeps_prod2 keeps_if good0_Ok good_fdv [OF g]) (auto intro!: kframe)
qed

lemma close_both_keeps:
  assumes "good s (\<lambda>x. one rf x + one wrf x)"
  shows "keeps (close_both rf wrf s)"
  unfolding close_both_def
proof (rule keeps_pure, rule keeps_prod)
  fix x a s1 assume x: "fileclose rf s = Ok x" "x = (a, s1)"
  have "good s1 (one wrf)" using good_eq [OF good_fileclose(1) [OF assms, of rf a s1], of "one wrf"] x by simp
  then show "keeps (kbind (fileclose wrf s1) (\<lambda>(_, s2). Ok (Done (- 1 :: int), s2)))" by (intro keeps_fileclose) (simp_all add: good0_Ok)
qed

lemma close_opt_good:
  assumes "good s D" "close_opt f s = Ok (r, s')"
  shows "good s' (\<lambda>x. D x - (case f of None \<Rightarrow> 0 | Some i \<Rightarrow> one i x))"
  using assms good_fileclose(1) [OF assms(1)] by (cases f) (auto simp: close_opt_def)

lemma pipealloc_bad_good:
  assumes g: "good t (\<lambda>x. (case a of None \<Rightarrow> 0 | Some i \<Rightarrow> one i x) + (case b of None \<Rightarrow> 0 | Some i \<Rightarrow> one i x))" and run: "pipealloc_bad a b t = Ok (q, t')"
  shows "q = None \<and> good0 t'"
proof -
  obtain u v s1 where 1: "close_opt a t = Ok (u, s1)" "close_opt b s1 = Ok (v, t')" "q = None" using run by (auto simp: pipealloc_bad_def)
  show ?thesis using good_eq [OF close_opt_good [OF close_opt_good [OF g 1(1)] 1(2)], of "\<lambda>_. 0"] 1(3) by simp
qed

lemma pipealloc_good:
  assumes g: "good0 s" and run: "pipealloc s = Ok (r, s')"
  shows "case r of None \<Rightarrow> good0 s' | Some (f0, f1) \<Rightarrow> good s' (\<lambda>x. one f0 x + one f1 x)"
proof -
  show ?thesis
  proof (cases "filealloc s")
    case (Pair a s1)
    show ?thesis
    proof (cases a)
      case None
      then show ?thesis using run Pair filealloc_none [of s s1] g pipealloc_bad_good [of s1 None None r s'] by (simp add: pipealloc_def)
    next
      case (Some f0)
      have g1: "good s1 (one f0)" using good_eq [OF good_filealloc [OF g, of f0 s1], of "one f0"] Pair Some by simp
      obtain b s2 where 2: "filealloc s1 = (b, s2)" by (cases "filealloc s1")
      show ?thesis
      proof (cases b)
        case None
        then show ?thesis using run Pair Some 2 filealloc_none [of s1 s2] g1 pipealloc_bad_good [of s2 "Some f0" None r s'] by (simp add: pipealloc_def)
      next
        case b: (Some f1)
        define s3 where "s3 = s2\<lparr>um := snd (kalloc (um s2))\<rparr>"
        have g2: "good s2 (\<lambda>x. one f0 x + one f1 x)" using good_filealloc [OF g1] 2 b by simp
        then have g3: "good s3 (\<lambda>x. one f0 x + one f1 x)" using fdv_good(1) [of s3 s2] by (simp add: s3_def)
        show ?thesis
        proof (cases "fst (kalloc (um s2)) = 0")
          case True
          then show ?thesis using run Pair Some 2 b g3 pipealloc_bad_good [of s3 "Some f0" "Some f1" r s'] by (simp add: pipealloc_def s3_def)
        next
          case False
          then have r: "r = Some (f0, f1)" and "fdv s' = fdv s3" using run Pair Some 2 b by (auto simp: pipealloc_def s3_def Let_def)
          then show ?thesis using g3 fdv_good(1) [of s' s3] by simp
        qed
      qed
    qed
  qed
qed

text \<open>Giving back both descriptors.\<close>

lemma pipe_bad_keeps:
  assumes g: "good0 t" and n: "fd0 < NOFILE" "fd1 < NOFILE" "fd0 \<noteq> fd1"
    and f: "pr_ofile (procs t (me t)) fd0 = Some rf" "pr_ofile (procs t (me t)) fd1 = Some wrf"
  shows "keeps (close_both rf wrf (set_fd fd1 None (set_fd fd0 None t)))"
proof (rule close_both_keeps)
  have 1: "good (set_fd fd0 None t) (one rf)" by (rule good_set [OF g refl n(1)]) (auto simp: f one_def)
  show "good (set_fd fd1 None (set_fd fd0 None t)) (\<lambda>x. one rf x + one wrf x)"
    by (rule good_set [OF 1 refl n(2)]) (use n(3) f in \<open>auto simp: one_def set_fd_def\<close>)
qed

lemma pipe_out_keeps:
  fixes s1 s2 s3 :: "'a kst_scheme"
  assumes g1: "good s1 (\<lambda>x. one rf x + one wrf x)" and d: "fdalloc rf s1 = (Some fd0, s2)" "fdalloc wrf s2 = (Some fd1, s3)"
  shows "keeps (pipe_out rf wrf fd0 fd1 a s3)"
proof -
  have g2: "good s2 (one wrf)" using good_eq [OF good_fdalloc(1) [OF g1 d(1)], of "one wrf"] by simp
  have g3: "good0 s3" using good_eq [OF good_fdalloc(1) [OF g2 d(2)], of "\<lambda>_. 0"] by simp
  note a0 = good_fdalloc(2-4) [OF g1 d(1)] and a1 = good_fdalloc(2-4) [OF g2 d(2)] and r1 = fdalloc_result [OF d(2), simplified]
  have ne: "fd0 \<noteq> fd1" using a0(2) r1 by auto
  have f0: "pr_ofile (procs s3 (me s3)) fd0 = Some rf" using a0(2) r1 ne by (simp add: set_fd_def)
  have bad: "keeps (close_both rf wrf (set_fd fd1 None (set_fd fd0 None t)))" if t: "fdv t = fdv s3" for t :: "'a kst_scheme"
    using fdvD [OF t, of "me s3"] me_cong [OF t] f0 a1(2) by (intro pipe_bad_keeps [OF good_fdv [OF g3 t] a0(1) a1(1) ne]) simp_all
  show ?thesis unfolding pipe_out_def Let_def
    by (intro keeps_bind [of s3] keeps_prod keeps_if bad good0_Ok good_fdv [OF g3]) (auto intro!: kframe)
qed

lemma pipe_fds_keeps:
  assumes g1: "good s1 (\<lambda>x. one rf x + one wrf x)"
  shows "keeps (pipe_fds rf wrf a s1)"
  unfolding pipe_fds_def
proof (rule keeps_optp)
  show "keeps (close_both rf wrf t)" if "fdalloc rf s1 = (None, t)" for t using fdalloc_result [OF that] g1 by (intro close_both_keeps) simp
next
  fix fd0 s2 assume d: "fdalloc rf s1 = (Some fd0, s2)"
  note a0 = good_fdalloc [OF g1 d]
  have "good (set_fd fd0 None s2) (\<lambda>x. one rf x + one wrf x)" by (rule good_set [OF a0(1) refl a0(2)]) (auto simp: a0(3) one_def)
  then show "keeps (case fdalloc wrf s2 of (None, s3) \<Rightarrow> close_both rf wrf (set_fd fd0 None s3) | (Some fd1, s3) \<Rightarrow> pipe_out rf wrf fd0 fd1 a s3)"
    using fdalloc_result [of wrf s2 None] pipe_out_keeps [OF g1 d] by (intro keeps_optp close_both_keeps) auto
qed

lemma sys_pipe_keeps:
  assumes g: "good0 s"
  shows "keeps (sys_pipe s)"
  unfolding sys_pipe_def
proof (rule keeps_pure, rule keeps_pure, rule keeps_prod, rule keeps_opt)
  fix a q r s1 assume q: "pipealloc s = Ok q" "q = (r, s1)"
  show "keeps (Ok (Done (- 1 :: int), s1))" if "r = None" using pipealloc_good [OF g, of r s1] q that by (intro good0_Ok) simp
  show "keeps (case y of (rf, wrf) \<Rightarrow> pipe_fds rf wrf a s1)" if "r = Some y" for y
    using pipealloc_good [OF g, of r s1] q that by (cases y) (simp add: pipe_fds_keeps)
qed

subsection \<open>Exit and fork\<close>

lemma kexit_files_good:
  assumes "good0 s" "me s = p" "kexit_files k fd p s = Ok (r, s')" "fd + k \<le> NOFILE" "\<forall>i < fd. pr_ofile (procs s p) i = None"
  shows "good0 s' \<and> me s' = p \<and> (\<forall>i < fd + k. pr_ofile (procs s' p) i = None)"
  using assms
proof (induction k arbitrary: fd s)
  case (Suc k)
  show ?case
  proof (cases "pr_ofile (procs s p) fd")
    case None
    then show ?thesis using Suc.IH [of s "Suc fd"] Suc.prems by (simp add: less_Suc_eq)
  next
    case (Some f)
    then obtain u s1 where c: "fileclose f s = Ok (u, s1)" "kexit_files k (Suc fd) p (upd_proc p (\<lambda>q. q\<lparr>pr_ofile := (pr_ofile q)(fd := None)\<rparr>) s1) = Ok (r, s')"
      using Suc.prems(3) by auto
    note q = good_fileclose [OF Suc.prems(1) c(1)]
    let ?t = "set_fd fd None s1"
    have e: "upd_proc p (\<lambda>q. q\<lparr>pr_ofile := (pr_ofile q)(fd := None)\<rparr>) s1 = ?t" using q(3) Suc.prems(2) by (simp add: set_fd_def)
    have "good0 ?t" by (rule good_set [OF q(1), of p]) (use q(2,3) Suc.prems(2,4) Some in \<open>auto simp: one_def\<close>)
    moreover have "me ?t = p" "\<forall>i < Suc fd. pr_ofile (procs ?t p) i = None" using q(2,3) Suc.prems(2,5) by (auto simp: set_fd_def less_Suc_eq)
    ultimately show ?thesis using Suc.IH [of ?t "Suc fd"] c(2) Suc.prems(4) unfolding e by simp
  qed
qed simp

lemma reparent_fdv [simp]: "fdv (reparent p s) = fdv s"
proof -
  have "fdv (reparent_loop k i p s) = fdv s" for k i by (induction k arbitrary: i s) simp_all
  then show ?thesis by (simp add: reparent_def)
qed

lemma kexit_keeps:
  assumes g: "good0 s"
  shows "keeps (kexit st s)"
proof -
  let ?p = "me s"
  have fin: "fd_ok (kexit_end ?p st (upd_proc ?p (\<lambda>q. q\<lparr>pr_cwd := None\<rparr>) s4))" if 1: "kexit_files NOFILE 0 ?p s = Ok (u, s1)" and 4: "fdv s4 = fdv s1" for u s1 s4
  proof -
    define t where "t = wakeup (chan_of (pr_parent (procs (reparent ?p (upd_proc ?p (\<lambda>q. q\<lparr>pr_cwd := None\<rparr>) s4)) ?p))) (reparent ?p (upd_proc ?p (\<lambda>q. q\<lparr>pr_cwd := None\<rparr>) s4))"
    have c: "good0 s1" "\<forall>i < NOFILE. pr_ofile (procs s1 ?p) i = None" using kexit_files_good [OF g refl 1] by simp_all
    have e: "fdv t = fdv s1" using 4 by (simp add: t_def)
    then have "good0 t" "\<forall>i < NOFILE. pr_ofile (procs t ?p) i = None" using c good_fdv [OF c(1)] fdvD [OF e] by auto
    then show ?thesis unfolding kexit_end_def Let_def t_def [symmetric]
      using nrefs_cong [of "upd_proc ?p (\<lambda>q. q\<lparr>pr_xstate := st, pr_state := ZOMBIE\<rparr>) t" t] by (auto simp: good_def fd_ok_def bal_def dead_clean_def)
  qed
  show ?thesis unfolding keeps_def kexit_def Let_def
    by (auto split: if_splits intro: fin dest!: kframedD [OF fv.begin_op_frame [OF refl]] kframedD [OF fv.iput_frame [OF refl]] kframedD [OF fv.end_op_frame [OF refl]])
qed

text \<open>Descriptors and counts, without the states of the processes.\<close>

definition ofv :: "'a kst_scheme \<Rightarrow> (nat \<Rightarrow> nat \<Rightarrow> nat option) \<times> (nat \<Rightarrow> int) \<times> nat option" where
  "ofv s = (\<lambda>j. pr_ofile (procs s j), \<lambda>f. f_ref (ftable s f), cur s)"

lemma ofv_simps [simp]: "(\<And>q. pr_ofile (h q) = pr_ofile q) \<Longrightarrow> ofv (upd_proc j h s) = ofv s" "ofv (s\<lparr>um := u\<rparr>) = ofv s" "ofv (s\<lparr>nextpid := n\<rparr>) = ofv s"
  "ofv (tf_set j off v s) = ofv s" "ofv (copy_trapframe a b s) = ofv s" "ofv (upd_inode ip k s) = ofv s"
  by (auto simp: ofv_def upd_inode_def tf_set_def copy_trapframe_def)

lemma ofvD: "ofv s' = ofv s \<Longrightarrow> pr_ofile (procs s' j) = pr_ofile (procs s j) \<and> f_ref (ftable s' f) = f_ref (ftable s f) \<and> cur s' = cur s"
  by (simp add: ofv_def fun_eq_iff)

lemma bal_ofv: "ofv s' = ofv s \<Longrightarrow> bal s' D = bal s D"
  using ofvD [of s' s] nrefs_cong [of s' s] by (simp add: bal_def)

lemma freeproc_ofv [kframe]: "ofv t = ofv s \<Longrightarrow> kframed ofv s (freeproc i t)"
  unfolding freeproc_def Let_def by (intro kframe) simp_all

lemma find_unused_Some: "find_unused k i s = Some j \<Longrightarrow> j < i + k \<and> pr_state (procs s j) = UNUSED"
  by (induction k arbitrary: i) (force split: if_splits)+

lemma allocproc_slot:
  assumes "allocproc s = Ok (r, s')"
  shows "ofv s' = ofv s \<and> (s' = s \<and> r = None \<or> (\<exists>i < NPROC. pr_state (procs s i) = UNUSED \<and> others i s' = others i s \<and> (r = Some i \<or> r = None)))"
proof (cases "find_unused NPROC 0 s")
  case None
  then show ?thesis using assms by (auto simp: allocproc_def)
next
  case (Some i)
  have "kframed ofv s (allocproc s)" unfolding allocproc_def allocpid_def Let_def by (intro kframe) simp_all
  moreover have "kframed (others i) s (freeproc i t)" if "others i t = others i s" for t using freeproc_touched [of i t] that by (auto simp: kframed_def)
  then have "kframed (others i) s (allocproc s)" unfolding allocproc_def allocpid_def Let_def Some by (simp, intro conjI impI kframe) simp_all
  moreover have "r = Some i \<or> r = None" using assms Some by (auto simp: allocproc_def Let_def split: prod.splits if_splits)
  ultimately show ?thesis using assms find_unused_Some [OF Some] by (auto simp: kframed_def)
qed

lemma kfork_files_bal:
  assumes "bal s (\<lambda>_. 0)" "np < NPROC" "p \<noteq> np" "\<forall>i. fd \<le> i \<and> i < NOFILE \<longrightarrow> pr_ofile (procs s np) i = None" "kfork_files k fd p np s = Ok (r, s')" "fd + k \<le> NOFILE"
  shows "bal s' (\<lambda>_. 0)"
  using assms
proof (induction k arbitrary: fd s)
  case (Suc k)
  show ?case
  proof (cases "pr_ofile (procs s p) fd")
    case None
    then show ?thesis using Suc.IH [of s "Suc fd"] Suc.prems by simp
  next
    case (Some f)
    let ?t = "upd_proc np (\<lambda>q. q\<lparr>pr_ofile := (pr_ofile q)(fd := Some f)\<rparr>) (upd_file f (\<lambda>x. x\<lparr>f_ref := f_ref x + 1\<rparr>) s)"
    have run: "kfork_files k (Suc fd) p np ?t = Ok (r, s')" using Suc.prems(5) Some by (auto simp: filedup_def split: if_splits)
    have n: "pr_ofile (procs (upd_file f (\<lambda>x. x\<lparr>f_ref := f_ref x + 1\<rparr>) s) np) fd = None" using Suc.prems(4,6) by (simp add: upd_file_def)
    have "nrefs (upd_file f (\<lambda>x. x\<lparr>f_ref := f_ref x + 1\<rparr>) s) x = nrefs s x" for x by (rule nrefs_cong) (simp add: upd_file_def)
    then have "nrefs ?t x = nrefs s x + of_bool (f = x)" for x using nrefs_set [OF Suc.prems(2), of fd "Some f" "upd_file f (\<lambda>x. x\<lparr>f_ref := f_ref x + 1\<rparr>) s" x] n Suc.prems(6) by simp
    then have "bal ?t (\<lambda>_. 0)" using Suc.prems(1) by (auto simp: bal_def upd_file_def)
    moreover have "\<forall>i. Suc fd \<le> i \<and> i < NOFILE \<longrightarrow> pr_ofile (procs ?t np) i = None" using Suc.prems(4) by (simp add: upd_file_def)
    ultimately show ?thesis using Suc.IH [of ?t "Suc fd"] run Suc.prems(2,3,6) by simp
  qed
qed simp

lemma clean_slot:
  assumes "dead_clean s" "others np s' = others np s" "dead (pr_state (procs s' np)) \<longrightarrow> (\<forall>i < NOFILE. pr_ofile (procs s' np) i = None)"
  shows "dead_clean s'"
proof -
  have "procs s' j = procs s j" if "j \<noteq> np" for j using assms(2) that by (metis others_def fun_upd_apply prod.inject)
  then show ?thesis using assms(1,3) unfolding dead_clean_def by metis
qed

lemma kfork_child_keeps:
  assumes b: "bal s (\<lambda>_. 0)" "dead_clean s" and np: "np < NPROC" "p \<noteq> np" "\<forall>i < NOFILE. pr_ofile (procs s np) i = None"
  shows "keeps (kfork_child p np s)"
  unfolding keeps_def
proof (intro allI impI)
  fix r s' assume run: "kfork_child p np s = Ok (r, s')"
  have o: "others np s' = others np s" using kfork_child_touched [OF run] by blast
  obtain e s2 where 2: "on_vm (uvmcopy (pr_pagetable (procs s p)) (pr_pagetable (procs s np)) (pr_sz (procs s p))) s = Ok (e, s2)"
    using run by (auto simp: kfork_child_def)
  have v2: "ofv s2 = ofv s" using 2 by (auto simp: on_vm_def)
  show "fd_ok s'"
  proof (cases "e < 0")
    case True
    then obtain u where "freeproc np s2 = Ok (u, s')" using run 2 by (auto simp: kfork_child_def)
    then have v: "ofv s' = ofv s" using freeproc_ofv [of s2 s2 np] v2 by (simp add: kframed_def)
    show ?thesis using b bal_ofv [OF v] ofvD [OF v] np(3) clean_slot [OF b(2) o] by (simp add: fd_ok_def)
  next
    case False
    define s4 where "s4 = tf_set np TF_a0 0 (copy_trapframe p np (upd_proc np (\<lambda>q. q\<lparr>pr_sz := pr_sz (procs s2 p)\<rparr>) s2))"
    have v4: "ofv s4 = ofv s" using v2 by (simp add: s4_def)
    obtain u s5 where 5: "kfork_files NOFILE 0 p np s4 = Ok (u, s5)" "ofv s' = ofv s5" "pr_state (procs s' np) = RUNNABLE"
      using run 2 False by (auto simp: kfork_child_def Let_def s4_def idup_def)
    have "bal s5 (\<lambda>_. 0)"
      by (rule kfork_files_bal [OF _ np(1,2) _ 5(1)]) (use b(1) bal_ofv [OF v4] ofvD [OF v4] np(3) in simp_all)
    then show ?thesis using bal_ofv [OF 5(2)] clean_slot [OF b(2) o] 5(3) by (simp add: fd_ok_def dead_def)
  qed
qed

lemma kfork_keeps:
  assumes g: "good0 s"
  shows "keeps (kfork s)"
  unfolding kfork_def
proof (rule keeps_pure, rule keeps_prod, rule keeps_opt)
  fix x a s1 assume x: "allocproc s = Ok x" "x = (a, s1)"
  note A = allocproc_slot [of s a s1, OF x(1) [unfolded x(2)]]
  have gs: "bal s (\<lambda>_. 0)" "dead_clean s" "\<not> dead (pr_state (procs s (me s)))" using g by (auto simp: good_def live_def me_def)
  have b: "bal s1 (\<lambda>_. 0)" using gs bal_ofv [of s1 s] A by simp
  have n: "\<forall>i < NOFILE. pr_ofile (procs s1 j) i = None" if "pr_state (procs s j) = UNUSED" "j < NPROC" for j
    using gs(2) that ofvD [of s1 s j] A by (simp add: dead_clean_def dead_def)
  have c: "dead_clean s1" using A gs(2) n by (auto intro: clean_slot)
  show "keeps (Ok (- 1 :: int, s1))" using b c by (simp add: keeps_def fd_ok_def)
  show "keeps (kfork_child (me s) y s1)" if "a = Some y" for y
    using A that n gs(3) by (intro kfork_child_keeps [OF b c]) (auto simp: dead_def)
qed

subsection \<open>Every system call\<close>

lemma syscalls_length: "length (syscalls pad) = 21"
  by (simp add: syscalls_def)

lemma syscalls_keep:
  assumes g: "good0 s"
  shows "\<forall>c \<in> set (syscalls pad). keeps (c s)"
proof -
  have l: "live s" using g by (simp add: good_def)
  note f = sys_frames [OF l, THEN keeps_frame [OF g]]
  have "keeps (sys_fork s)" using kfork_keeps [OF g] by (auto simp: sys_fork_def keeps_def)
  moreover have "keeps (sys_exit s)" using kexit_keeps [OF g] by (auto simp: sys_exit_def keeps_def)
  ultimately show ?thesis
    by (simp add: syscalls_def f sys_pipe_keeps [OF g] sys_dup_keeps [OF g] sys_open_keeps [OF g] sys_close_keeps [OF g])
qed

text \<open>
  C3: Open files are counted exactly. Whatever system call a live process makes, with whatever arguments and whatever the outcome, failed opens and pipes, forks and
  exits included: afterwards the reference count of every open file is again the number of descriptors naming it over all processes, no unused or zombie
  process has a descriptor, and so every descriptor names a file in use.
\<close>

theorem syscall_keeps_descriptors:
  fixes s :: "'a kst_scheme"
  assumes ok: "fd_ok s" and p: "cur s = Some p" "p < NPROC" "pr_state (procs s p) = RUNNING" and run: "syscall pad s = Ok (r, s')"
  shows "fd_ok s' \<and> (\<forall>j < NPROC. \<forall>fd < NOFILE. \<forall>f. pr_ofile (procs s' j) fd = Some f \<longrightarrow> 1 \<le> f_ref (ftable s' f))"
proof -
  have g: "good0 s" using ok p by (auto simp: good_def fd_ok_def live_def dead_def)
  have a: "fd_ok (tf_set i off v t) = fd_ok t" for i off v and t :: "'a kst_scheme" by (rule fdv_good(2)) simp
  have k: "fd_ok (tf_set i off v (kprintf fmt args t)) = fd_ok t" for i off v fmt args and t :: "'a kst_scheme" by (rule fdv_good(2)) (simp add: kprintf_def)
  have ok': "fd_ok s'"
  proof (cases "0 < sint (ucast (tf_get (me s) TF_a7 s) :: u32) \<and> sint (ucast (tf_get (me s) TF_a7 s) :: u32) < 22")
    case True
    define c :: "'a kst_scheme \<Rightarrow> 'a kst_scheme sysres" where "c = syscalls pad ! (nat (sint (ucast (tf_get (me s) TF_a7 s) :: u32)) - 1)"
    have "c \<in> set (syscalls pad)" unfolding c_def using True by (intro nth_mem) (simp only: syscalls_length, linarith)
    then have "keeps (c s)" using syscalls_keep [OF g] by blast
    moreover obtain w s1 where "c s = Ok (w, s1)" "(case w of Done v \<Rightarrow> Ok (True, tf_set (me s1) TF_a0 (word_of_int v) s1) | Asleep _ \<Rightarrow> Ok (False, s1)) = Ok (r, s')"
      using run True by (auto simp: syscall_def Let_def c_def)
    ultimately show ?thesis by (auto simp: keeps_def a split: wait.splits)
  next
    case False
    then show ?thesis using run ok by (auto simp: syscall_def Let_def k)
  qed
  have "1 \<le> nrefs s' f" if "j < NPROC" "fd < NOFILE" "pr_ofile (procs s' j) fd = Some f" for j fd f
  proof -
    have "of_bool (pr_ofile (procs s' j) fd = Some f) \<le> nrefs s' f"
      unfolding nrefs_def using that by (intro member_le_sum [of "(j, fd)" "{..<NPROC} \<times> {..<NOFILE}" "\<lambda>(j, fd). of_bool (pr_ofile (procs s' j) fd = Some f)", simplified]) auto
    then show ?thesis using that by simp
  qed
  then show ?thesis using ok' by (auto simp: fd_ok_def bal_def)
qed

text \<open>Process 1 with descriptor 3 open on file 5, making the call \<^verbatim>\<open>dup(3)\<close>.\<close>

definition dup_state :: kst where
  "dup_state =
     (let m = store64 (store64 (\<lambda>_. 0) (0x87000000 + TF_a7) 10) (0x87000000 + TF_a0) 3;
          s = (demo_kst (demo_vm\<lparr>mem := m\<rparr>) (\<lambda>i. if i = 1 then no_proc\<lparr>pr_state := RUNNING, pr_trapframe := 0x87000000\<rparr> else no_proc))
      in upd_file 5 (\<lambda>x. x\<lparr>f_ref := 1\<rparr>) (set_fd 3 (Some 5) s))"

lemma dup_state_fields: "cur dup_state = Some 1" "pr_state (procs dup_state 1) = RUNNING" "tf_get 1 TF_a7 dup_state = 10" "tf_get 1 TF_a0 dup_state = 3"
  "me dup_state = 1" "pr_ofile (procs dup_state 1) = (\<lambda>_. None)(3 := Some 5)" "f_ref (ftable dup_state 5) = 1"
proof -
  have "load64 (store64 (store64 (\<lambda>_. 0) (0x87000000 + TF_a7) 10) (0x87000000 + TF_a0) 3) (0x87000000 + TF_a7) = 10"
    by (subst load64_store64_other) (auto simp: TF_a7_def TF_a0_def in_region_def)
  then show "tf_get 1 TF_a7 dup_state = 10" by (simp add: dup_state_def Let_def tf_get_def upd_file_def set_fd_def)
qed (simp_all add: dup_state_def Let_def tf_get_def upd_file_def set_fd_def me_def no_proc_def)

lemma dup_state_ok: "fd_ok dup_state"
proof -
  let ?s = "demo_kst (demo_vm\<lparr>mem := store64 (store64 (\<lambda>_. 0) (0x87000000 + TF_a7) 10) (0x87000000 + TF_a0) 3\<rparr>)
    (\<lambda>i. if i = 1 then no_proc\<lparr>pr_state := RUNNING, pr_trapframe := 0x87000000\<rparr> else no_proc)"
  have "nrefs ?s f = 0" for f unfolding nrefs_def by (intro sum.neutral) (auto simp: no_proc_def)
  moreover have "bal ?s (\<lambda>_. 0)" "dead_clean ?s" "live ?s" using calculation
    by (auto simp: bal_def dead_clean_def live_def no_proc_def no_file_def dead_def NPROC_def)
  ultimately have "good0 ?s" by (simp add: good_def)
  then have g: "good (set_fd 3 (Some 5) ?s) (\<lambda>x. - one 5 x)"
    by (rule good_set) (auto simp: NOFILE_def no_proc_def one_def)
  have "nrefs (upd_file 5 (\<lambda>x. x\<lparr>f_ref := 1\<rparr>) (set_fd 3 (Some 5) ?s)) f = nrefs (set_fd 3 (Some 5) ?s) f" for f by (rule nrefs_cong) (simp add: upd_file_def)
  then show ?thesis using g unfolding dup_state_def Let_def
    by (auto simp: good_def fd_ok_def bal_def dead_clean_def upd_file_def one_def set_fd_def no_file_def)
qed

theorem syscall_keeps_descriptors_witness:
  "\<exists>s'. syscall [] dup_state = Ok (True, s') \<and> pr_ofile (procs s' 1) 0 = Some 5 \<and> f_ref (ftable s' 5) = 2 \<and> fd_ok s'"
proof -
  note d = dup_state_fields
  define t where "t = upd_file 5 (\<lambda>x. x\<lparr>f_ref := f_ref x + 1\<rparr>) (set_fd 0 (Some 5) dup_state)"
  have a: "argfd 0 dup_state = Ok (Some (3, 5))" using d by (simp add: argfd_def argint_def argraw_def myproc_def NOFILE_def)
  have f: "fdalloc 5 dup_state = (Some 0, set_fd 0 (Some 5) dup_state)" using d by (simp add: fdalloc_def NOFILE_def numeral_eq_Suc myproc_def)
  have r: "f_ref (ftable (set_fd 0 (Some 5) dup_state) 5) = 1" using d by (simp add: set_fd_def)
  have "sys_dup dup_state = Ok (Done 0, t)" using a f r by (simp add: sys_dup_def filedup_def t_def)
  then have run: "syscall [] dup_state = Ok (True, tf_set (me t) TF_a0 0 t)" using d by (simp add: syscall_def syscalls_def)
  have "fd_ok (tf_set (me t) TF_a0 0 t)" using syscall_keeps_descriptors [OF dup_state_ok d(1) _ d(2) run] by (simp add: NPROC_def)
  moreover have "pr_ofile (procs (tf_set (me t) TF_a0 0 t) 1) 0 = Some 5" "f_ref (ftable (tf_set (me t) TF_a0 0 t) 5) = 2"
    using d by (simp_all add: t_def tf_set_def upd_file_def set_fd_def)
  ultimately show ?thesis using run by blast
qed

end
