(* ===== verification/Trap_Props.thy ===== *)
theory Trap_Props
  imports Trap
begin

section \<open>Arguments, page faults and the return to user mode\<close>

text \<open>
  The properties of the system call boundary: what \<^verbatim>\<open>fetchaddr\<close> accepts, what a trap leaves for the return to user mode, and what a fault beyond the address space does
  after lazy growth.
\<close>

unbundle bit_operations_syntax

subsection \<open>Fetching a word\<close>

lemma fetch_guard:
  assumes "(sz :: u64) \<le> MAXVA"
  shows "addr \<ge> sz \<or> addr + 8 > sz \<longleftrightarrow> unat sz < unat addr + 8"
proof -
  have z: "unat sz \<le> 0x4000000000" using assms by (simp add: word_le_nat_alt MAXVA_def)
  show ?thesis
  proof (cases "unat addr < unat sz")
    case True
    then have "unat (addr + 8) = unat addr + 8" using z by (simp add: unat_word_ariths)
    then show ?thesis unfolding word_le_nat_alt word_less_nat_alt by linarith
  next
    case False
    then show ?thesis unfolding word_le_nat_alt word_less_nat_alt by linarith
  qed
qed

text \<open>
  C25: What \<^verbatim>\<open>fetchaddr\<close> reads from user memory, for a process whose size is at most the bound \<open>lim\<close> of its well-formed address space (and so at most \<^verbatim>\<open>MAXVA\<close>). It never panics. A word
  of which any byte lies at or beyond \<^verbatim>\<open>p->sz\<close>, also when its end wraps around, is refused with nothing touched. For a word below \<^verbatim>\<open>p->sz\<close> it returns 0 with the little-endian
  value of the eight visible bytes, or -1. It returns 0 if the user can access the pages of the word, and -1 if one of them is mapped without access for the user, as the guard page
  below the stack is; a page that is not mapped yet is allocated on the way when there is memory. The memory the process sees does not change.
\<close>

theorem fetchaddr_correct:
  assumes ok: "uvm_ok (um s) root ps lim" and root: "p_pagetable (um s) = root" "pr_pagetable (myproc s) = root" and sz: "p_sz (um s) = pr_sz (myproc s)" "pr_sz (myproc s) \<le> lim"
  shows "(unat (pr_sz (myproc s)) < unat addr + 8 \<longrightarrow> fetchaddr addr s = Ok ((- 1, 0), s)) \<and>
    (unat addr + 8 \<le> unat (pr_sz (myproc s)) \<longrightarrow>
      (\<exists>r v u ps'. fetchaddr addr s = Ok ((r, v), s\<lparr>um := u\<rparr>) \<and> uvm_ok u root ps' lim \<and> (\<forall>va < lim. ubyte (mem u) root va = ubyte (mem (um s)) root va) \<and>
        (r = 0 \<and> v = le_word (ubytes (mem (um s)) root addr 8) \<or> r = - 1) \<and>
        ((\<forall>va < lim. unat addr \<le> unat va \<and> unat va < unat addr + 8 \<longrightarrow> user_ok (leaf (mem (um s)) root va)) \<longrightarrow> r = 0) \<and>
        ((\<exists>va < lim. unat addr \<le> unat va \<and> unat va < unat addr + 8 \<and> pte_valid (leaf (mem (um s)) root va) \<and> \<not> user_ok (leaf (mem (um s)) root va)) \<longrightarrow> r = - 1)))"
proof -
  have "lim \<le> MAXVA" using uvm_okD(2) [OF ok] .
  then have "pr_sz (myproc s) \<le> MAXVA" using sz(2) by (rule order_trans [rotated])
  note g = fetch_guard [OF this, of addr]
  have "fetchaddr addr s = Ok ((- 1, 0), s)" if "unat (pr_sz (myproc s)) < unat addr + 8"
    using g that by (auto simp: fetchaddr_def Let_def)
  moreover have "\<exists>r v u ps'. fetchaddr addr s = Ok ((r, v), s\<lparr>um := u\<rparr>) \<and> uvm_ok u root ps' lim \<and> (\<forall>va < lim. ubyte (mem u) root va = ubyte (mem (um s)) root va) \<and>
        (r = 0 \<and> v = le_word (ubytes (mem (um s)) root addr 8) \<or> r = - 1) \<and>
        ((\<forall>va < lim. unat addr \<le> unat va \<and> unat va < unat addr + 8 \<longrightarrow> user_ok (leaf (mem (um s)) root va)) \<longrightarrow> r = 0) \<and>
        ((\<exists>va < lim. unat addr \<le> unat va \<and> unat va < unat addr + 8 \<and> pte_valid (leaf (mem (um s)) root va) \<and> \<not> user_ok (leaf (mem (um s)) root va)) \<longrightarrow> r = - 1)"
    if w: "unat addr + 8 \<le> unat (pr_sz (myproc s))"
  proof -
    have lim: "p_sz (um s) \<le> lim" "unat addr + 8 \<le> unat lim" using sz w by (simp_all add: word_le_nat_alt)
    obtain r bs u ps' where c: "copyin root addr 8 (um s) = Ok ((r, bs), u)" "uvm_ok u root ps' lim" "copyin_post root lim addr 8 (um s) r bs u"
      using copyin_user [OF ok root(1) lim order_refl] by blast
    note P = c(3) [unfolded copyin_post_def]
    have run: "fetchaddr addr s = Ok (if r \<noteq> 0 then (- 1, 0) else (0, le_word bs), s\<lparr>um := u\<rparr>)" using c(1) g w root(2) by (auto simp: fetchaddr_def Let_def on_vm_def)
    have r: "r = 0 \<and> bs = ubytes (mem (um s)) root addr 8 \<or> r = - 1" using P by auto
    show ?thesis
      by (rule exI [of _ r], rule exI [of _ "if r \<noteq> 0 then 0 else le_word bs"], rule exI [of _ u], rule exI [of _ ps']) (use run r c(2) P in auto)
  qed
  ultimately show ?thesis by blast
qed

theorem fetchaddr_correct_witness:
  "\<exists>u u'. fetchaddr 0x1FF8 (demo_kst u demo_procs) = Ok ((0, le_word (ubytes (mem u) 0x80000000 0x1FF8 8)), (demo_kst u demo_procs)\<lparr>um := u'\<rparr>) \<and>
     fetchaddr 0xFFFFFFFFFFFFFFFC (demo_kst u demo_procs) = Ok ((- 1, 0), demo_kst u demo_procs)"
proof -
  obtain u :: vm and ps where u: "uvm_ok u 0x80000000 ps 0x4000" "p_pagetable u = 0x80000000" "p_sz u = 0x4000"
    "\<forall>va < 0x4000. unat (0x1000 :: u64) \<le> unat va \<and> unat va < 0x2000 \<longrightarrow> write_ok (leaf (mem u) 0x80000000 va)"
    by (rule demo_mapped)
  let ?s = "demo_kst u demo_procs"
  have f: "uvm_ok (um ?s) 0x80000000 ps 0x4000" "p_pagetable (um ?s) = 0x80000000" "pr_pagetable (myproc ?s) = 0x80000000" "p_sz (um ?s) = pr_sz (myproc ?s)"
    "pr_sz (myproc ?s) \<le> 0x4000" "pr_sz (myproc ?s) = 0x4000" using u by (simp_all add: demo_procs_def)
  note c = fetchaddr_correct [OF f(1-5)]
  have "\<forall>va < 0x4000. unat (0x1FF8 :: u64) \<le> unat va \<and> unat va < unat (0x1FF8 :: u64) + 8 \<longrightarrow> user_ok (leaf (mem (um ?s)) 0x80000000 va)"
    using u(4) write_user_ok by simp
  then obtain u' where "fetchaddr 0x1FF8 ?s = Ok ((0, le_word (ubytes (mem u) 0x80000000 0x1FF8 8)), ?s\<lparr>um := u'\<rparr>)"
    using c [of "0x1FF8"] unfolding f(6) by auto
  moreover have "fetchaddr 0xFFFFFFFFFFFFFFFC ?s = Ok ((- 1, 0), ?s)" using c [of "0xFFFFFFFFFFFFFFFC"] unfolding f(6) by simp
  ultimately show ?thesis by blast
qed

subsection \<open>Lazy growth without a bound\<close>

text \<open>A process that calls \<^verbatim>\<open>sbrk(n, SBRK_LAZY)\<close> \<open>k\<close> times.\<close>

primrec lazy_sbrks :: "nat \<Rightarrow> int \<Rightarrow> 'a kst_scheme \<Rightarrow> (unit \<times> 'a kst_scheme) kres" where
  "lazy_sbrks 0 n s = Ok ((), s)"
| "lazy_sbrks (Suc k) n s = kbind (sbrk n SBRK_LAZY s) (\<lambda>(_, s1). lazy_sbrks k n s1)"

lemma load_cur_more [simp]: "cur (load_cur s) = cur s" "me (load_cur s) = me s" "p_sz (um (load_cur s)) = pr_sz (myproc s)" "myproc (load_cur s) = myproc s"
  by (simp_all add: load_cur_def Let_def me_def myproc_def)

lemma lazy_sbrks_size:
  assumes "0 \<le> n" "n < 2 ^ 31" "unat (pr_sz (myproc s)) + k * nat n < 2 ^ 64" "p_sz (um s) = pr_sz (myproc s)"
  shows "\<exists>s1. lazy_sbrks k n s = Ok ((), s1) \<and> unat (pr_sz (myproc s1)) = unat (pr_sz (myproc s)) + k * nat n \<and> p_sz (um s1) = pr_sz (myproc s1)"
  using assms(3,4)
proof (induction k arbitrary: s)
  case (Suc k)
  let ?z = "pr_sz (myproc s)"
  define t where "t = load_cur (upd_proc (me s) (\<lambda>p. p\<lparr>pr_sz := pr_sz p + word_of_int n\<rparr>) s)"
  have w: "(word_of_int n :: u64) = of_nat (nat n)" using assms(1) by simp
  have u: "unat (?z + word_of_int n) = unat ?z + nat n" unfolding w using Suc.prems(1) by (intro unat_add_of_nat) simp
  have nw: "\<not> ?z + word_of_int n < ?z" using u by (simp add: word_less_nat_alt)
  have "sbrk n SBRK_LAZY s = Ok (Done (uint ?z), t)" using assms(1) nw by (simp add: sbrk_def Let_def SBRK_LAZY_def SBRK_EAGER_def t_def)
  moreover have z: "pr_sz (myproc t) = ?z + word_of_int n" "p_sz (um t) = pr_sz (myproc t)" by (simp_all add: t_def myproc_def)
  have "\<exists>s1. lazy_sbrks k n t = Ok ((), s1) \<and> unat (pr_sz (myproc s1)) = unat (pr_sz (myproc t)) + k * nat n \<and> p_sz (um s1) = pr_sz (myproc s1)"
    using Suc.prems(1) z u by (intro Suc.IH) simp_all
  ultimately show ?case using z u by (simp add: add.assoc)
qed simp

lemma vmfault_beyond:
  assumes "MAXVA \<le> va" "va < p_sz m"
  shows "vmfault pt va rd m = Panic ''walk''"
proof -
  have "MAXVA \<le> PGROUNDDOWN va" using assms(1) unfolding word_le_nat_alt unat_PGROUNDDOWN by (simp add: MAXVA_def)
  then show ?thesis using assms(2) by (simp add: vmfault_def ismapped_def walk_def)
qed

text \<open>
  C30: A user program can stop the kernel. Lazy \<^verbatim>\<open>sbrk\<close> checks only that the size does not wrap, so enough calls take the size of any process beyond \<^verbatim>\<open>MAXVA\<close>; a load or store of the
  process at an address between \<^verbatim>\<open>MAXVA\<close> and its size is then a page fault that \<^verbatim>\<open>vmfault\<close> passes on to \<^verbatim>\<open>walk\<close>, which panics, instead of killing the process.
\<close>

theorem lazy_sbrk_fault_panics:
  assumes n: "0 \<le> n" "n < 2 ^ 31" "unat (pr_sz (myproc s)) + k * nat n < 2 ^ 64" and m: "p_sz (um s) = pr_sz (myproc s)"
    and va: "MAXVA \<le> h_stval h" "unat (h_stval h) < unat (pr_sz (myproc s)) + k * nat n"
    and h: "h_sstatus h AND SSTATUS_SPP = 0" "h_scause h = 13 \<or> h_scause h = 15"
  shows "\<exists>s1. lazy_sbrks k n s = Ok ((), s1) \<and> usertrap pad h s1 = Panic ''walk''"
proof -
  obtain s1 where s1: "lazy_sbrks k n s = Ok ((), s1)" "unat (pr_sz (myproc s1)) = unat (pr_sz (myproc s)) + k * nat n" "p_sz (um s1) = pr_sz (myproc s1)"
    using lazy_sbrks_size [OF n m] by blast
  define t where "t = tf_set (me s1) TF_epc (h_sepc h) s1"
  have p: "p_sz (um t) = pr_sz (myproc s1)" using s1(3) by (simp add: t_def tf_set_def)
  have "h_stval h < p_sz (um t)" unfolding p using va(2) s1(2) by (simp add: word_less_nat_alt)
  from vmfault_beyond [OF va(1) this] have "on_vm (vmfault pt (h_stval h) rd) t = Panic ''walk''" for pt rd by (simp add: on_vm_def)
  moreover have "h_scause h \<noteq> 8" "devintr (h\<lparr>h_stvec := h_kernelvec h\<rparr>) t = (0, h\<lparr>h_stvec := h_kernelvec h\<rparr>, t)" using h(2) by (auto simp: devintr_def)
  ultimately have "usertrap pad h s1 = Panic ''walk''" using h by (auto simp: usertrap_def Let_def t_def [symmetric])
  then show ?thesis using s1(1) by blast
qed

definition fault_hw :: "u64 \<Rightarrow> hw" where
  "fault_hw va = \<lparr>h_sstatus = 0, h_sepc = 0x100, h_scause = 13, h_stval = va, h_stvec = 0, h_satp = 0, h_tp = 0, h_irq = 0, h_tx_idle = True, h_rx = [],
     h_time = 0, h_stimecmp = 0, h_kernelvec = 0x80005000, h_usertrap = 0x80002000, h_uservec = 0x80007000\<rparr>"

theorem lazy_sbrk_fault_panics_witness:
  "\<exists>s1. lazy_sbrks 256 0x40000000 (demo_kst demo_vm demo_procs) = Ok ((), s1) \<and> usertrap [] (fault_hw MAXVA) s1 = Panic ''walk''"
  by (rule lazy_sbrk_fault_panics) (simp_all add: fault_hw_def demo_procs_def demo_vm_def MAXVA_def)

subsection \<open>The return to user mode\<close>

lemma tf_get_set:
  assumes "unat (pr_trapframe (procs s i) + off) mod 8 = 0" "unat (pr_trapframe (procs s i) + off2) mod 8 = 0"
  shows "tf_get i off2 (tf_set i off v s) = (if off2 = off then v else tf_get i off2 s)"
  using assms load64_store64_other [of "pr_trapframe (procs s i) + off" "pr_trapframe (procs s i) + off2"] by (auto simp: tf_get_def tf_set_def)

lemma tf_set_procs [simp]: "procs (tf_set i off v s) = procs s" "me (tf_set i off v s) = me s" "trampoline (tf_set i off v s) = trampoline s"
  by (simp_all add: tf_set_def me_def)

lemma bit_single: "bit (push_bit k (1 :: u64)) n \<longleftrightarrow> n = k \<and> k < 64"
  by (auto simp: bit_exp_iff)

lemma sstatus_bits: "bit SSTATUS_SPP n \<longleftrightarrow> n = 8" "bit SSTATUS_SPIE n \<longleftrightarrow> n = 5" "bit SSTATUS_SIE n \<longleftrightarrow> n = 1"
  unfolding SSTATUS_SPP_def SSTATUS_SPIE_def SSTATUS_SIE_def bit_single by simp_all

lemma sstatus_return:
  fixes x :: u64
  defines "y \<equiv> ((x AND NOT SSTATUS_SIE) AND NOT SSTATUS_SPP) OR SSTATUS_SPIE"
  shows "y AND SSTATUS_SPP = 0 \<and> y AND SSTATUS_SPIE \<noteq> 0 \<and> y AND SSTATUS_SIE = 0"
proof (intro conjI)
  show "y AND SSTATUS_SPP = 0" "y AND SSTATUS_SIE = 0"
    by (rule bit_word_eqI, auto simp: y_def bit_and_iff bit_or_iff bit_not_iff sstatus_bits)+
  have "bit (y AND SSTATUS_SPIE) 5" by (simp add: y_def bit_and_iff bit_or_iff sstatus_bits)
  then show "y AND SSTATUS_SPIE \<noteq> 0" by auto
qed

lemma tf_aligned: "unat (a :: u64) mod 4096 = 0 \<Longrightarrow> unat off < 4096 \<Longrightarrow> unat off mod 8 = 0 \<Longrightarrow> unat (a + off) mod 8 = 0"
proof -
  assume a: "unat a mod 4096 = 0" "unat off < 4096" "unat off mod 8 = 0"
  have "unat (a + off) mod 8 = (unat a + unat off) mod 8" by (simp add: unat_word_ariths mod_mod_cancel)
  moreover have "8 dvd unat a" using a(1) dvd_trans [of 8 4096 "unat a"] by (simp add: mod_eq_0_iff_dvd)
  then have "(unat a + unat off) mod 8 = 0" using a(3) by (simp add: mod_eq_0_iff_dvd)
  ultimately show ?thesis by simp
qed

text \<open>
  C22: The kernel returns to the process exactly where and as it was. After \<^verbatim>\<open>prepare_return\<close> an \<^verbatim>\<open>sret\<close> goes to user mode with interrupts enabled, at the saved program
  counter, while the kernel itself is left with interrupts off; traps go to the trampoline; the result is the page table of the process; the trapframe holds
  the kernel's page table, stack, entry and CPU for the next trap, and every user register in it is unchanged.
\<close>

theorem return_to_user_mode:
  assumes "pg_aligned (pr_trapframe (myproc s))" "usertrap_finish h s = (satp, h', s')"
  shows "h_sstatus h' AND SSTATUS_SPP = 0 \<and> h_sstatus h' AND SSTATUS_SPIE \<noteq> 0 \<and> \<not> intr_get h' \<and> h_sepc h' = tf_get (me s) TF_epc s \<and>
    h_stvec h' = TRAMPOLINE + (h_uservec h - trampoline s) \<and> satp = MAKE_SATP (pr_pagetable (myproc s)) \<and>
    tf_get (me s) TF_kernel_satp s' = h_satp h \<and> tf_get (me s) TF_kernel_sp s' = pr_kstack (myproc s) + PGSIZE \<and>
    tf_get (me s) TF_kernel_trap s' = h_usertrap h \<and> tf_get (me s) TF_kernel_hartid s' = h_tp h \<and>
    (\<forall>r < 32. tf_get (me s) (40 + 8 * of_nat r) s' = tf_get (me s) (40 + 8 * of_nat r) s)"
proof -
  let ?i = "me s" and ?tf = "pr_trapframe (myproc s)"
  have al: "unat ?tf mod 4096 = 0" using assms(1) by (simp add: pg_aligned_def)
  note d = TF_kernel_satp_def TF_kernel_sp_def TF_kernel_trap_def TF_kernel_hartid_def TF_epc_def
  have o: "unat (pr_trapframe (procs t ?i) + off) mod 8 = 0" if "procs t = procs s" "unat off < 4096" "unat off mod 8 = 0" for t :: "'a kst_scheme" and off
    using tf_aligned [OF al that(2,3)] that(1) by (simp add: myproc_def)
  have g: "tf_get ?i off2 (tf_set ?i off v t) = (if off2 = off then v else tf_get ?i off2 t)"
    if "procs t = procs s" "unat off < 4096" "unat off mod 8 = 0" "unat off2 < 4096" "unat off2 mod 8 = 0" for off off2 v and t :: "'a kst_scheme"
    using o that by (intro tf_get_set) auto
  have r: "unat (40 + 8 * of_nat r :: u64) = 40 + 8 * r" if "r < 32" for r using that by (simp add: unat_word_ariths unat_of_nat)
  have ne: "40 + 8 * of_nat r \<noteq> (off :: u64)" if "r < 32" "unat off < 40" for r off using r [OF that(1)] that(2) by auto
  show ?thesis using assms(2) sstatus_return [of "h_sstatus h"]
    by (auto simp: usertrap_finish_def prepare_return_def Let_def intr_off_def intr_get_def g r ne d myproc_def)
qed

theorem return_to_user_mode_witness:
  "pg_aligned (pr_trapframe (myproc (demo_kst demo_vm demo_procs))) \<and>
   h_sepc (fst (snd (usertrap_finish (fault_hw 0) (demo_kst demo_vm demo_procs)))) = tf_get 1 TF_epc (demo_kst demo_vm demo_procs)"
proof -
  let ?s = "demo_kst demo_vm demo_procs"
  have a: "pg_aligned (pr_trapframe (myproc ?s))" by (simp add: demo_procs_def no_proc_def pg_aligned_def)
  obtain satp h' s' where r: "usertrap_finish (fault_hw 0) ?s = (satp, h', s')" by (cases "usertrap_finish (fault_hw 0) ?s") auto
  show ?thesis using return_to_user_mode [OF a r] a r by simp
qed

end
