(* ===== verification/Virtio.thy ===== *)
theory Virtio
  imports Bio Kalloc
begin

section \<open>kernel/virtio_disk.c: the disk driver\<close>

text \<open>
  The driver and the device share a table of descriptors and two rings: the driver puts the heads of descriptor chains into the \<^verbatim>\<open>avail\<close> ring, the device puts the heads it
  has finished into the \<^verbatim>\<open>used\<close> ring. The state \<open>vst\<close> extends the buffer cache by the fields of \<^verbatim>\<open>struct disk\<close>, by the rings, by what the device has fetched, and by
  where each process is inside \<^verbatim>\<open>virtio_disk_rw\<close>. The ring counters are 16-bit words and wrap. The addresses in descriptors are symbolic, one constructor for each object the
  driver points at. A section of the code under \<^verbatim>\<open>vdisk_lock\<close> between two sleeps is one function. The device is what the virtio specification says of it: it fetches
  heads in ring order, completes fetched requests in any order, and for each one moves the data, sets the status byte to 0 and adds the head to the \<^verbatim>\<open>used\<close> ring.
\<close>

unbundle bit_operations_syntax

subsection \<open>State\<close>

definition NUM :: nat where "NUM = 8"

definition VRING_DESC_F_NEXT :: u16 where "VRING_DESC_F_NEXT = 1"
definition VRING_DESC_F_WRITE :: u16 where "VRING_DESC_F_WRITE = 2"
definition VIRTIO_BLK_T_IN :: u32 where "VIRTIO_BLK_T_IN = 0"
definition VIRTIO_BLK_T_OUT :: u32 where "VIRTIO_BLK_T_OUT = 1"

datatype dptr = DNull | DOps nat | DData nat | DStatus nat

record virtq_desc =
  d_addr :: dptr
  d_len :: nat
  d_flags :: u16
  d_next :: nat

record virtio_blk_req =
  rq_type :: u32
  rq_reserved :: u32
  rq_sector :: u64

text \<open>Where a process is: outside, asleep for free descriptors or woken from that, asleep for its buffer (with the head of its chain) or woken from that.\<close>

datatype vpc = VIdle | VSleepFree nat bool | VRetry nat bool | VSleepBuf nat nat bool | VWoken nat nat bool

record vst = bcache +
  vdesc :: "nat \<Rightarrow> virtq_desc"
  avail_ring :: "nat \<Rightarrow> nat"
  avail_idx :: u16
  used_ring :: "nat \<Rightarrow> nat"
  used_idx :: u16
  vfree :: "nat \<Rightarrow> bool"
  seen_idx :: u16
  info_b :: "nat \<Rightarrow> nat option"
  info_status :: "nat \<Rightarrow> u8"
  vops :: "nat \<Rightarrow> virtio_blk_req"
  vpcs :: "nat \<Rightarrow> vpc"
  dev_idx :: u16
  dev_pending :: "nat list"

subsection \<open>Descriptors\<close>

primrec alloc_desc_loop :: "nat \<Rightarrow> nat \<Rightarrow> 'a vst_scheme \<Rightarrow> nat option \<times> 'a vst_scheme" where
  "alloc_desc_loop 0 i s = (None, s)"
| "alloc_desc_loop (Suc k) i s = (if vfree s i then (Some i, s\<lparr>vfree := (vfree s)(i := False)\<rparr>) else alloc_desc_loop k (Suc i) s)"

definition alloc_desc :: "'a vst_scheme \<Rightarrow> nat option \<times> 'a vst_scheme" where
  "alloc_desc s = alloc_desc_loop NUM 0 s"

definition no_desc :: virtq_desc where
  "no_desc = \<lparr>d_addr = DNull, d_len = 0, d_flags = 0, d_next = 0\<rparr>"

definition wake_free :: "vpc \<Rightarrow> vpc" where
  "wake_free p = (case p of VSleepFree b wr \<Rightarrow> VRetry b wr | _ \<Rightarrow> p)"

definition wake_buf :: "nat \<Rightarrow> vpc \<Rightarrow> vpc" where
  "wake_buf b p = (case p of VSleepBuf i c wr \<Rightarrow> if c = b then VWoken i c wr else p | _ \<Rightarrow> p)"

definition free_desc :: "nat \<Rightarrow> 'a vst_scheme \<Rightarrow> 'a vst_scheme kres" where
  "free_desc i s =
     (if i \<ge> NUM then Panic ''free_desc 1''
      else if vfree s i then Panic ''free_desc 2''
      else Ok (s\<lparr>vdesc := (vdesc s)(i := no_desc), vfree := (vfree s)(i := True), vpcs := wake_free \<circ> vpcs s\<rparr>))"

lemma free_desc_measure:
  assumes "free_desc i s = Ok s'"
  shows "card {d. d < NUM \<and> \<not> vfree s' d} < card {d. d < NUM \<and> \<not> vfree s d}"
proof -
  have e: "{d. d < NUM \<and> \<not> vfree s' d} = {d. d < NUM \<and> \<not> vfree s d} - {i}" and i: "i \<in> {d. d < NUM \<and> \<not> vfree s d}"
    using assms by (auto simp: free_desc_def split: if_splits)
  show ?thesis unfolding e by (rule card_Diff1_less [OF _ i]) simp
qed

function free_chain :: "nat \<Rightarrow> 'a vst_scheme \<Rightarrow> 'a vst_scheme kres" where
  "free_chain i s =
     kbind (free_desc i s) (\<lambda>s1. if d_flags (vdesc s i) AND VRING_DESC_F_NEXT \<noteq> 0 then free_chain (d_next (vdesc s i)) s1 else Ok s1)"
  by pat_completeness auto
termination
  by (relation "measure (\<lambda>(_, s). card {d. d < NUM \<and> \<not> vfree s d})") (auto simp: free_desc_measure)

declare free_chain.simps [simp del]

definition alloc3_desc :: "'a vst_scheme \<Rightarrow> ((nat \<times> nat \<times> nat) option \<times> 'a vst_scheme) kres" where
  "alloc3_desc s =
     (case alloc_desc s of (None, s1) \<Rightarrow> Ok (None, s1)
      | (Some i0, s1) \<Rightarrow> (case alloc_desc s1 of (None, s2) \<Rightarrow> kbind (free_desc i0 s2) (\<lambda>s3. Ok (None, s3))
      | (Some i1, s2) \<Rightarrow> (case alloc_desc s2 of (None, s3) \<Rightarrow> kbind (free_desc i0 s3) (\<lambda>s4. kbind (free_desc i1 s4) (\<lambda>s5. Ok (None, s5)))
      | (Some i2, s3) \<Rightarrow> Ok (Some (i0, i1, i2), s3))))"

subsection \<open>Requests\<close>

text \<open>Formatting the three descriptors and telling the device.\<close>

definition rw_submit :: "nat \<Rightarrow> bool \<Rightarrow> nat \<times> nat \<times> nat \<Rightarrow> 'a vst_scheme \<Rightarrow> 'a vst_scheme" where
  "rw_submit b wr idx s =
     (case idx of (i0, i1, i2) \<Rightarrow>
      let sector = ucast (of_nat (b_blockno (bufs s b)) * 2 :: u32) :: u64;
          req = \<lparr>rq_type = (if wr then VIRTIO_BLK_T_OUT else VIRTIO_BLK_T_IN), rq_reserved = 0, rq_sector = sector\<rparr>;
          d0 = \<lparr>d_addr = DOps i0, d_len = 16, d_flags = VRING_DESC_F_NEXT, d_next = i1\<rparr>;
          d1 = \<lparr>d_addr = DData b, d_len = 1024, d_flags = (if wr then 0 else VRING_DESC_F_WRITE) OR VRING_DESC_F_NEXT, d_next = i2\<rparr>;
          d2 = \<lparr>d_addr = DStatus i0, d_len = 1, d_flags = VRING_DESC_F_WRITE, d_next = 0\<rparr>;
          s1 = s\<lparr>vops := (vops s)(i0 := req), vdesc := (vdesc s)(i0 := d0, i1 := d1, i2 := d2), info_status := (info_status s)(i0 := 0xff)\<rparr>;
          s2 = (upd_buf b (\<lambda>x. x\<lparr>b_disk := True\<rparr>) s1)\<lparr>info_b := (info_b s1)(i0 := Some b)\<rparr> in
      s2\<lparr>avail_ring := (avail_ring s2)(unat (avail_idx s2) mod NUM := i0), avail_idx := avail_idx s2 + 1\<rparr>)"

text \<open>The wait for the interrupt and the release of the chain.\<close>

definition rw_wait :: "nat \<Rightarrow> nat \<Rightarrow> nat \<Rightarrow> bool \<Rightarrow> 'a vst_scheme \<Rightarrow> 'a vst_scheme kres" where
  "rw_wait t i0 b wr s =
     (if b_disk (bufs s b) then Ok (s\<lparr>vpcs := (vpcs s)(t := VSleepBuf i0 b wr)\<rparr>)
      else kbind (free_chain i0 (s\<lparr>info_b := (info_b s)(i0 := None)\<rparr>)) (\<lambda>s1. Ok (s1\<lparr>vpcs := (vpcs s1)(t := VIdle)\<rparr>)))"

text \<open>\<^verbatim>\<open>virtio_disk_rw\<close> by process \<open>t\<close>, from its start or from the top of its first loop.\<close>

definition rw_start :: "nat \<Rightarrow> nat \<Rightarrow> bool \<Rightarrow> 'a vst_scheme \<Rightarrow> 'a vst_scheme kres" where
  "rw_start t b wr s =
     kbind (alloc3_desc s) (\<lambda>(r, s1).
       case r of None \<Rightarrow> Ok (s1\<lparr>vpcs := (vpcs s1)(t := VSleepFree b wr)\<rparr>)
       | Some idx \<Rightarrow> rw_wait t (fst idx) b wr (rw_submit b wr idx s1))"

function virtio_disk_intr :: "'a vst_scheme \<Rightarrow> 'a vst_scheme kres" where
  "virtio_disk_intr s =
     (if seen_idx s \<noteq> used_idx s then
        let id = used_ring s (unat (seen_idx s) mod NUM) in
        if info_status s id \<noteq> 0 then Panic ''virtio_disk_intr status''
        else case info_b s id of None \<Rightarrow> Panic ''kerneltrap''
        | Some b \<Rightarrow> virtio_disk_intr ((upd_buf b (\<lambda>x. x\<lparr>b_disk := False\<rparr>) s)\<lparr>vpcs := wake_buf b \<circ> vpcs s, seen_idx := seen_idx s + 1\<rparr>)
      else Ok s)"
  by pat_completeness auto

lemma ring_measure: "(a :: u16) \<noteq> e \<Longrightarrow> unat (e - (a + 1)) < unat (e - a)"
  by (metis diff_diff_eq eq_iff_diff_eq_0 measure_unat)

termination virtio_disk_intr
  by (relation "measure (\<lambda>s. unat (used_idx s - seen_idx s))") (auto simp: ring_measure upd_buf_def)

declare virtio_disk_intr.simps [simp del]

subsection \<open>The device\<close>

text \<open>The request of the chain with head \<open>h\<close>, as the device reads it: direction, block, buffer and the place of the status byte.\<close>

definition dev_request :: "nat \<Rightarrow> 'a vst_scheme \<Rightarrow> (bool \<times> nat \<times> nat \<times> nat) option" where
  "dev_request h s =
     (let d0 = vdesc s h; d1 = vdesc s (d_next d0); d2 = vdesc s (d_next d1) in
      if d_flags d0 AND VRING_DESC_F_NEXT = 0 \<or> d_flags d1 AND VRING_DESC_F_NEXT = 0 \<or> d_flags d2 AND VRING_DESC_F_NEXT \<noteq> 0 \<or> d_flags d2 AND VRING_DESC_F_WRITE = 0 then None
      else case (d_addr d0, d_addr d1, d_addr d2) of
        (DOps q, DData b, DStatus i) \<Rightarrow>
          let wr = (rq_type (vops s q) = VIRTIO_BLK_T_OUT) in
          if wr = (d_flags d1 AND VRING_DESC_F_WRITE \<noteq> 0) then None else Some (wr, unat (rq_sector (vops s q)) div 2, b, i)
      | _ \<Rightarrow> None)"

definition dev_fetch :: "'a vst_scheme \<Rightarrow> 'a vst_scheme" where
  "dev_fetch s = s\<lparr>dev_pending := dev_pending s @ [avail_ring s (unat (dev_idx s) mod NUM)], dev_idx := dev_idx s + 1\<rparr>"

definition dev_move :: "bool \<Rightarrow> nat \<Rightarrow> nat \<Rightarrow> 'a vst_scheme \<Rightarrow> 'a vst_scheme" where
  "dev_move wr bno b s =
     (if wr then s\<lparr>disk := (disk s)(bno := b_data (bufs s b)), dwrites := dwrites s @ [(bno, b_data (bufs s b))]\<rparr>
      else upd_buf b (\<lambda>x. x\<lparr>b_data := disk s bno\<rparr>) s)"

definition dev_complete :: "nat \<Rightarrow> bool \<Rightarrow> nat \<Rightarrow> nat \<Rightarrow> nat \<Rightarrow> 'a vst_scheme \<Rightarrow> 'a vst_scheme" where
  "dev_complete h wr bno b i s =
     (let s1 = dev_move wr bno b s in
      s1\<lparr>info_status := (info_status s1)(i := 0), dev_pending := remove1 h (dev_pending s1),
         used_ring := (used_ring s1)(unat (used_idx s1) mod NUM := h), used_idx := used_idx s1 + 1\<rparr>)"

subsection \<open>Initialisation\<close>

text \<open>
  \<^verbatim>\<open>virtio_disk_init\<close> reads and writes the registers of the device. A read depends on the writes before it: \<open>reg r ws\<close> is the value of register \<open>r\<close> after the writes \<open>ws\<close>, a
  list of register and value.
\<close>

definition virtio_features :: "u32 \<Rightarrow> u64" where
  "virtio_features x = fold (\<lambda>k f. f AND NOT (push_bit k 1)) [5, 7, 11, 12, 27, 29, 28] (ucast x)"

definition virtio_queue :: "(nat \<times> u32) list \<Rightarrow> 'a kmem_scheme \<Rightarrow> (((nat \<times> u32) list \<times> addr \<times> addr \<times> addr) \<times> 'a kmem_scheme) kres" where
  "virtio_queue ws s =
     (let (desc, s1) = kalloc s; (avail, s2) = kalloc s1; (used, s3) = kalloc s2 in
      if desc = 0 \<or> avail = 0 \<or> used = 0 then Panic ''virtio disk kalloc''
      else let m = memset (memset (memset (mem s3) desc 0 (ucast PGSIZE)) avail 0 (ucast PGSIZE)) used 0 (ucast PGSIZE) in
        Ok ((ws @ [(0x38, of_nat NUM), (0x80, ucast desc), (0x84, ucast (drop_bit 32 desc)), (0x90, ucast avail), (0x94, ucast (drop_bit 32 avail)),
               (0xa0, ucast used), (0xa4, ucast (drop_bit 32 used)), (0x44, 1)], desc, avail, used), s3\<lparr>mem := m\<rparr>))"

definition virtio_disk_init :: "(nat \<Rightarrow> (nat \<times> u32) list \<Rightarrow> u32) \<Rightarrow> 'a kmem_scheme \<Rightarrow> (((nat \<times> u32) list \<times> addr \<times> addr \<times> addr) \<times> 'a kmem_scheme) kres" where
  "virtio_disk_init reg s =
     (if reg 0 [] \<noteq> 0x74726976 \<or> reg 4 [] \<noteq> 2 \<or> reg 8 [] \<noteq> 2 \<or> reg 0xc [] \<noteq> 0x554d4551 then Panic ''could not find virtio disk''
      else let w1 = [(0x70, 0), (0x70, 1), (0x70, 3)]; w2 = w1 @ [(0x20, ucast (virtio_features (reg 0x10 w1))), (0x70, 11)]; status = reg 0x70 w2 in
        if status AND 8 = 0 then Panic ''virtio disk FEATURES_OK unset''
        else let w3 = w2 @ [(0x30, 0)] in
          if reg 0x44 w3 \<noteq> 0 then Panic ''virtio disk should not be ready''
          else if reg 0x34 w3 = 0 then Panic ''virtio disk has no queue 0''
          else if reg 0x34 w3 < of_nat NUM then Panic ''virtio disk max queue too short''
          else kbind (virtio_queue w3 s) (\<lambda>((w4, q), s1). Ok ((w4 @ [(0x70, status OR 4)], q), s1)))"

text \<open>The descriptors start out unused and the rings empty.\<close>

definition vst_init :: "'a vst_scheme \<Rightarrow> bool" where
  "vst_init s \<longleftrightarrow> (\<forall>i < NUM. vfree s i) \<and> avail_idx s = 0 \<and> used_idx s = 0 \<and> seen_idx s = 0 \<and> dev_idx s = 0 \<and> dev_pending s = [] \<and> (\<forall>t. vpcs s t = VIdle) \<and>
     (\<forall>b. \<not> b_disk (bufs s b))"

subsection \<open>Interleavings\<close>

text \<open>
  One step of a process, of the device or of the interrupt handler, with the event the world sees of it: a call of \<^verbatim>\<open>virtio_disk_rw\<close>, the transfer by the device, the return. A
  process calls the driver with a buffer whose lock it holds, so no other process is in the driver with that buffer, and buffers outside the driver may change. A process
  asleep may be woken at any time, by a kill.
\<close>

datatype vevent = Start nat bool | Xfer nat bool | Return nat bool | Quiet

definition vuses :: "vpc \<Rightarrow> (nat \<times> bool) option" where
  "vuses p = (case p of VIdle \<Rightarrow> None | VSleepFree b wr \<Rightarrow> Some (b, wr) | VRetry b wr \<Rightarrow> Some (b, wr) | VSleepBuf i b wr \<Rightarrow> Some (b, wr) | VWoken i b wr \<Rightarrow> Some (b, wr))"

definition in_use :: "'a vst_scheme \<Rightarrow> nat \<Rightarrow> bool" where
  "in_use s b \<longleftrightarrow> (\<exists>t wr. vuses (vpcs s t) = Some (b, wr))"

inductive vstep :: "'a vst_scheme \<Rightarrow> vevent \<Rightarrow> 'a vst_scheme \<Rightarrow> bool" where
  v_start: "vpcs s t = VIdle \<Longrightarrow> \<not> in_use s b \<Longrightarrow> b_blockno (bufs s b) < 2 ^ 31 \<Longrightarrow> rw_start t b wr s = Ok s' \<Longrightarrow> vstep s (Start b wr) s'"
| v_retry: "vpcs s t = VRetry b wr \<Longrightarrow> rw_start t b wr s = Ok s' \<Longrightarrow> vstep s Quiet s'"
| v_resume: "vpcs s t = VWoken i b wr \<Longrightarrow> rw_wait t i b wr s = Ok s' \<Longrightarrow> vstep s (if vpcs s' t = VIdle then Return b wr else Quiet) s'"
| v_kill: "vstep s Quiet (s\<lparr>vpcs := (vpcs s)(t := wake_buf b (wake_free (vpcs s t)))\<rparr>)"
| v_fetch: "dev_idx s \<noteq> avail_idx s \<Longrightarrow> vstep s Quiet (dev_fetch s)"
| v_complete: "h \<in> set (dev_pending s) \<Longrightarrow> dev_request h s = Some (wr, bno, b, i) \<Longrightarrow> vstep s (Xfer b wr) (dev_complete h wr bno b i s)"
| v_intr: "virtio_disk_intr s = Ok s' \<Longrightarrow> vstep s Quiet s'"
| v_buffer: "\<not> in_use s b \<Longrightarrow> vstep s Quiet (upd_buf b (\<lambda>x. x\<lparr>b_data := d, b_blockno := n, b_valid := v\<rparr>) s)"

inductive vruns :: "'a vst_scheme \<Rightarrow> vevent list \<Rightarrow> 'a vst_scheme \<Rightarrow> bool" where
  vruns_nil: "vruns s [] s"
| vruns_step: "vruns s es s1 \<Longrightarrow> vstep s1 e s2 \<Longrightarrow> vruns s (es @ [e]) s2"

text \<open>What the events so far say of buffer \<open>b\<close>: nothing under way, called, or carried out by the device; or that the order call, transfer, return was broken.\<close>

datatype vphase = Idle | Called bool | Moved bool | Broken

definition vphase_step :: "nat \<Rightarrow> vphase \<Rightarrow> vevent \<Rightarrow> vphase" where
  "vphase_step b p e =
     (case e of Quiet \<Rightarrow> p
      | Start c wr \<Rightarrow> if c \<noteq> b then p else if p = Idle then Called wr else Broken
      | Xfer c wr \<Rightarrow> if c \<noteq> b then p else if p = Called wr then Moved wr else Broken
      | Return c wr \<Rightarrow> if c \<noteq> b then p else if p = Moved wr then Idle else Broken)"

definition vphase_of :: "nat \<Rightarrow> vevent list \<Rightarrow> vphase" where
  "vphase_of b es = foldl (vphase_step b) Idle es"

text \<open>The negotiated features are those the device offers without the seven the driver cannot use.\<close>

lemma clear_bit1: "bit ((v :: u64) AND NOT (push_bit k 1)) n \<longleftrightarrow> bit v n \<and> n \<noteq> k"
proof (cases "n < 64")
  case True
  then show ?thesis by (auto simp: bit_and_iff bit_not_iff bit_exp_iff)
next
  case False
  then have "\<not> bit w n" for w :: u64 using bit_imp_le_length [of w n] by auto
  then show ?thesis by blast
qed

lemma fold_clear_bits: "bit (fold (\<lambda>k f. f AND NOT (push_bit k 1)) ks (v :: u64)) n \<longleftrightarrow> bit v n \<and> n \<notin> set ks"
  by (induction ks arbitrary: v) (simp_all only: fold.simps comp_apply id_apply clear_bit1 set_simps, auto)

lemma virtio_features_bit: "bit (virtio_features x) n \<longleftrightarrow> bit x n \<and> n \<notin> {5, 7, 11, 12, 27, 28, 29}"
proof -
  have "bit (ucast x :: u64) n = bit x n" using bit_imp_le_length [of x n] by (auto simp: bit_ucast_iff)
  then show ?thesis unfolding virtio_features_def fold_clear_bits by auto
qed

end
