(* ===== verification/Virtio_Props.thy ===== *)
theory Virtio_Props
  imports Virtio
begin

section \<open>The disk driver carries out every request\<close>

text \<open>
  An invariant of the driver and the device that holds in every interleaving: the descriptors in use are the disjoint chains of the requests under way, the heads of the chains
  are in exactly one of the \<^verbatim>\<open>avail\<close> ring, the device and the \<^verbatim>\<open>used\<close> ring until the interrupt handler has taken them, and no process sleeps without a reason.
\<close>

unbundle bit_operations_syntax

subsection \<open>Rings\<close>

definition ring_from :: "(nat \<Rightarrow> nat) \<Rightarrow> u16 \<Rightarrow> u16 \<Rightarrow> nat list" where
  "ring_from r a e = map (\<lambda>k. r ((unat a + k) mod NUM)) [0..<unat (e - a)]"

lemma ring_empty [simp]: "ring_from r a a = []"
  by (simp add: ring_from_def)

lemma unat_Suc_mod: "unat (a + 1 :: u16) mod NUM = Suc (unat a) mod NUM"
proof -
  have "unat (a + 1) = Suc (unat a) mod 2 ^ 16" by (simp add: unat_word_ariths)
  moreover have "Suc (unat a) mod 2 ^ 16 mod 8 = Suc (unat a) mod 8" by (rule mod_mod_cancel) simp
  ultimately show ?thesis by (simp add: NUM_def)
qed

lemma ring_pop: "a \<noteq> e \<Longrightarrow> ring_from r a e = r (unat a mod NUM) # ring_from r (a + 1) e"
proof -
  assume a: "a \<noteq> e"
  have x: "e - (a + 1) = (e - a) - 1" and z: "e - a \<noteq> 0" using a by simp_all
  have n: "unat (e - a) = Suc (unat (e - (a + 1)))" unfolding x unat_minus_one [OF z] using unat_gt_0 [of "e - a"] z by simp
  have m: "(unat (a + 1) + k) mod NUM = (unat a + Suc k) mod NUM" for k
  proof -
    have "(unat (a + 1) + k) mod NUM = (unat (a + 1) mod NUM + k) mod NUM" by (simp add: mod_add_left_eq)
    also have "\<dots> = (Suc (unat a) + k) mod NUM" unfolding unat_Suc_mod by (simp add: mod_add_left_eq)
    finally show ?thesis by simp
  qed
  have "[0..<Suc x] = 0 # map Suc [0..<x]" for x using upt_conv_Cons [of 0 "Suc x"] map_Suc_upt [of 0 x] by simp
  then show ?thesis unfolding ring_from_def n by (simp add: m comp_def)
qed

lemma ring_len: "length (ring_from r a e) = unat (e - a)"
  by (simp add: ring_from_def)

lemma ring_push:
  assumes l: "length (ring_from r a e) < NUM"
  shows "ring_from (r(unat e mod NUM := h)) a (e + 1) = ring_from r a e @ [h]"
proof -
  let ?n = "unat (e - a)"
  have n: "?n < 8" using l by (simp add: ring_len NUM_def)
  have s: "unat (e + 1 - a) = Suc ?n"
  proof -
    have x: "e + 1 - a = (e - a) + 1" by simp
    show ?thesis unfolding x unat_word_ariths using n by simp
  qed
  have e: "unat e mod 8 = (unat a + ?n) mod 8"
  proof -
    have "unat (a + (e - a)) = (unat a + ?n) mod 2 ^ 16" unfolding unat_word_ariths by simp
    then have "unat e = (unat a + ?n) mod 2 ^ 16" by simp
    moreover have "(unat a + ?n) mod 2 ^ 16 mod 8 = (unat a + ?n) mod 8" by (rule mod_mod_cancel) simp
    ultimately show ?thesis by simp
  qed
  have "(unat a + k) mod 8 \<noteq> (unat a + ?n) mod 8" if "k < ?n" for k
  proof
    assume "(unat a + k) mod 8 = (unat a + ?n) mod 8"
    then have "8 dvd ?n - k" using that by (metis add_diff_cancel_left less_imp_le_nat mod_eq_dvd_iff_nat nat_add_left_cancel_le)
    then show False using n that by (auto dest!: dvd_imp_le)
  qed
  then show ?thesis unfolding ring_from_def s by (auto simp: NUM_def e)
qed

subsection \<open>The invariant\<close>

definition vreq :: "vpc \<Rightarrow> (nat \<times> nat \<times> bool) option" where
  "vreq p = (case p of VSleepBuf i b wr \<Rightarrow> Some (i, b, wr) | VWoken i b wr \<Rightarrow> Some (i, b, wr) | _ \<Rightarrow> None)"

definition chain :: "'a vst_scheme \<Rightarrow> nat \<Rightarrow> nat set" where
  "chain s i = {i, d_next (vdesc s i), d_next (vdesc s (d_next (vdesc s i)))}"

definition chain_ok :: "'a vst_scheme \<Rightarrow> nat \<Rightarrow> nat \<Rightarrow> bool \<Rightarrow> bool" where
  "chain_ok s i b wr \<longleftrightarrow>
     (let j = d_next (vdesc s i); k = d_next (vdesc s j) in
      distinct [i, j, k] \<and> (\<forall>d \<in> {i, j, k}. d < NUM \<and> \<not> vfree s d) \<and>
      d_addr (vdesc s i) = DOps i \<and> d_flags (vdesc s i) = VRING_DESC_F_NEXT \<and>
      d_addr (vdesc s j) = DData b \<and> d_flags (vdesc s j) = (if wr then 0 else VRING_DESC_F_WRITE) OR VRING_DESC_F_NEXT \<and>
      d_addr (vdesc s k) = DStatus i \<and> d_flags (vdesc s k) = VRING_DESC_F_WRITE \<and>
      rq_type (vops s i) = (if wr then VIRTIO_BLK_T_OUT else VIRTIO_BLK_T_IN) \<and>
      rq_sector (vops s i) = ucast (of_nat (b_blockno (bufs s b)) * 2 :: u32) \<and> info_b s i = Some b \<and> b_blockno (bufs s b) < 2 ^ 31)"

definition v_table :: "'a vst_scheme \<Rightarrow> bool" where
  "v_table s \<longleftrightarrow> (\<forall>t i b wr. vreq (vpcs s t) = Some (i, b, wr) \<longrightarrow> chain_ok s i b wr) \<and>
     (\<forall>t t' i b wr i' b' wr'. vreq (vpcs s t) = Some (i, b, wr) \<longrightarrow> vreq (vpcs s t') = Some (i', b', wr') \<longrightarrow> t \<noteq> t' \<longrightarrow> chain s i \<inter> chain s i' = {}) \<and>
     (\<forall>d < NUM. \<not> vfree s d \<longrightarrow> (\<exists>t i b wr. vreq (vpcs s t) = Some (i, b, wr) \<and> d \<in> chain s i))"

definition v_excl :: "'a vst_scheme \<Rightarrow> bool" where
  "v_excl s \<longleftrightarrow> (\<forall>t t' b wr wr'. vuses (vpcs s t) = Some (b, wr) \<longrightarrow> vuses (vpcs s t') = Some (b, wr') \<longrightarrow> t = t')"

definition offered :: "'a vst_scheme \<Rightarrow> nat list" where
  "offered s = ring_from (avail_ring s) (dev_idx s) (avail_idx s) @ dev_pending s"

definition finished :: "'a vst_scheme \<Rightarrow> nat list" where
  "finished s = ring_from (used_ring s) (seen_idx s) (used_idx s)"

definition v_rings :: "'a vst_scheme \<Rightarrow> bool" where
  "v_rings s \<longleftrightarrow> distinct (offered s @ finished s) \<and> (\<forall>i \<in> set (finished s). info_status s i = 0) \<and>
     (\<forall>i. i \<in> set (offered s @ finished s) \<longleftrightarrow> (\<exists>t b wr. vreq (vpcs s t) = Some (i, b, wr) \<and> b_disk (bufs s b)))"

definition v_sleep :: "'a vst_scheme \<Rightarrow> bool" where
  "v_sleep s \<longleftrightarrow> (\<forall>t b wr. vpcs s t = VSleepFree b wr \<longrightarrow> length (filter (vfree s) [0..<NUM]) < 3) \<and> (\<forall>t i b wr. vpcs s t = VSleepBuf i b wr \<longrightarrow> b_disk (bufs s b)) \<and>
     (\<forall>b. b_disk (bufs s b) \<longrightarrow> (\<exists>t i wr. vreq (vpcs s t) = Some (i, b, wr))) \<and> (\<forall>t b wr. vuses (vpcs s t) = Some (b, wr) \<longrightarrow> b_blockno (bufs s b) < 2 ^ 31)"

definition v_phase :: "(nat \<Rightarrow> vphase) \<Rightarrow> 'a vst_scheme \<Rightarrow> bool" where
  "v_phase ph s \<longleftrightarrow> (\<forall>b. \<not> in_use s b \<longrightarrow> ph b = Idle) \<and>
     (\<forall>t b wr. vuses (vpcs s t) = Some (b, wr) \<longrightarrow>
        ph b = (case vreq (vpcs s t) of None \<Rightarrow> Called wr | Some (i, _, _) \<Rightarrow> if i \<in> set (offered s) then Called wr else Moved wr))"

definition vinv :: "(nat \<Rightarrow> vphase) \<Rightarrow> 'a vst_scheme \<Rightarrow> bool" where
  "vinv ph s \<longleftrightarrow> v_table s \<and> v_excl s \<and> v_rings s \<and> v_sleep s \<and> v_phase ph s"

lemma vreq_uses: "vreq p = Some (i, b, wr) \<Longrightarrow> vuses p = Some (b, wr)"
  by (cases p) (auto simp: vreq_def vuses_def)

lemma vreq_wake [simp]: "vreq (wake_free p) = vreq p" "vreq (wake_buf b p) = vreq p" "vuses (wake_free p) = vuses p" "vuses (wake_buf b p) = vuses p"
  by (cases p; simp add: vreq_def vuses_def wake_free_def wake_buf_def)+

lemma wake_sleepers:
  "wake_free p \<noteq> VSleepFree b wr" "wake_free p = VSleepBuf i b wr \<longleftrightarrow> p = VSleepBuf i b wr"
  "wake_buf c p = VSleepFree b wr \<longleftrightarrow> p = VSleepFree b wr" "wake_buf c p = VSleepBuf i b wr \<longleftrightarrow> p = VSleepBuf i b wr \<and> b \<noteq> c"
  by (cases p; auto simp: wake_free_def wake_buf_def)+

lemma vreq_simps [simp]: "vreq VIdle = None" "vreq (VSleepFree b wr) = None" "vreq (VRetry b wr) = None" "vreq (VSleepBuf i b wr) = Some (i, b, wr)" "vreq (VWoken i b wr) = Some (i, b, wr)"
  "vuses VIdle = None" "vuses (VSleepFree b wr) = Some (b, wr)" "vuses (VRetry b wr) = Some (b, wr)" "vuses (VSleepBuf i b wr) = Some (b, wr)" "vuses (VWoken i b wr) = Some (b, wr)"
  by (simp_all add: vreq_def vuses_def)

lemma chain_ok_chain: "chain_ok s i b wr \<Longrightarrow> \<forall>d \<in> chain s i. d < NUM \<and> \<not> vfree s d"
  by (auto simp: chain_ok_def chain_def Let_def)

lemma chain_frame:
  assumes "\<forall>d \<in> chain s i. vdesc s' d = vdesc s d"
  shows "chain s' i = chain s i"
  using assms by (simp add: chain_def)

lemma chain_ok_frame:
  assumes ok: "chain_ok s i b wr" and d: "\<forall>d \<in> chain s i. vdesc s' d = vdesc s d \<and> vfree s' d = vfree s d"
    and o: "vops s' i = vops s i" "info_b s' i = info_b s i" "b_blockno (bufs s' b) = b_blockno (bufs s b)"
  shows "chain_ok s' i b wr"
  using ok d o by (simp add: chain_ok_def chain_def Let_def)

lemma blockno_sector: "n < 2 ^ 31 \<Longrightarrow> unat (ucast (of_nat n * 2 :: u32) :: u64) div 2 = n"
proof -
  assume n: "n < 2 ^ 31"
  have "unat (of_nat n * 2 :: u32) = n * 2" using n by (simp add: unat_word_ariths unat_of_nat)
  then show ?thesis by (simp add: unat_ucast32)
qed

text \<open>The device reads a chain as the request it was made for.\<close>

lemma chain_request: "chain_ok s i b wr \<Longrightarrow> dev_request i s = Some (wr, b_blockno (bufs s b), b, i)"
  by (auto simp: chain_ok_def dev_request_def Let_def VRING_DESC_F_NEXT_def VRING_DESC_F_WRITE_def VIRTIO_BLK_T_OUT_def VIRTIO_BLK_T_IN_def blockno_sector)

lemma v_tableD:
  assumes "v_table s" "vreq (vpcs s t) = Some (i, b, wr)"
  shows "chain_ok s i b wr" "\<forall>d \<in> chain s i. d < NUM \<and> \<not> vfree s d" "i \<in> chain s i" "i < NUM"
    "vreq (vpcs s t') = Some (i', b', wr') \<Longrightarrow> t \<noteq> t' \<Longrightarrow> chain s i \<inter> chain s i' = {}"
    "vreq (vpcs s t') = Some (i, b', wr') \<Longrightarrow> t' = t"
proof -
  show c: "chain_ok s i b wr" using assms unfolding v_table_def by blast
  show "\<forall>d \<in> chain s i. d < NUM \<and> \<not> vfree s d" by (rule chain_ok_chain [OF c])
  then show "i \<in> chain s i" "i < NUM" by (auto simp: chain_def)
  show "vreq (vpcs s t') = Some (i', b', wr') \<Longrightarrow> t \<noteq> t' \<Longrightarrow> chain s i \<inter> chain s i' = {}" for i' b' wr' using assms unfolding v_table_def by blast
  from this [of i] show "vreq (vpcs s t') = Some (i, b', wr') \<Longrightarrow> t' = t" by (auto simp: chain_def)
qed

subsection \<open>Steps that move no descriptor\<close>

lemma v_table_frame:
  assumes t: "v_table s" and r: "\<And>t. vreq (vpcs s' t) = vreq (vpcs s t)" and d: "\<And>d. d < NUM \<Longrightarrow> \<not> vfree s d \<Longrightarrow> vdesc s' d = vdesc s d"
    and f: "\<And>d. d < NUM \<Longrightarrow> vfree s' d = vfree s d" and o: "vops s' = vops s" "info_b s' = info_b s"
    and n: "\<And>t i b wr. vreq (vpcs s t) = Some (i, b, wr) \<Longrightarrow> b_blockno (bufs s' b) = b_blockno (bufs s b)"
  shows "v_table s'"
proof -
  have c: "\<forall>d \<in> chain s i. vdesc s' d = vdesc s d \<and> vfree s' d = vfree s d" if "vreq (vpcs s t) = Some (i, b, wr)" for t i b wr
    using v_tableD(2) [OF t that] d f by blast
  have ch: "chain s' i = chain s i" if "vreq (vpcs s t) = Some (i, b, wr)" for t i b wr using chain_frame c [OF that] by blast
  have "chain_ok s' i b wr" if "vreq (vpcs s t) = Some (i, b, wr)" for t i b wr
    using chain_ok_frame [OF v_tableD(1) [OF t that] c [OF that]] o n [OF that] by simp
  moreover have "chain s' i \<inter> chain s' i' = {}" if "vreq (vpcs s t) = Some (i, b, wr)" "vreq (vpcs s t') = Some (i', b', wr')" "t \<noteq> t'" for t t' i b wr i' b' wr'
    using v_tableD(5) [OF t that] ch [OF that(1)] ch [OF that(2)] by simp
  moreover have "\<exists>t i b wr. vreq (vpcs s t) = Some (i, b, wr) \<and> e \<in> chain s' i" if e: "e < NUM" "\<not> vfree s' e" for e
  proof -
    have "\<not> vfree s e" using f e by simp
    then obtain t i b wr where "vreq (vpcs s t) = Some (i, b, wr)" "e \<in> chain s i" using t e(1) unfolding v_table_def by blast
    then show ?thesis using ch by blast
  qed
  ultimately show ?thesis unfolding v_table_def r by blast
qed

lemma in_use_cong: "(\<And>t. vuses (vpcs s' t) = vuses (vpcs s t)) \<Longrightarrow> in_use s' b = in_use s b"
  by (simp add: in_use_def)

lemma vinv_pcs:
  assumes i: "vinv ph s" and r: "\<And>t. vreq (p t) = vreq (vpcs s t)" "\<And>t. vuses (p t) = vuses (vpcs s t)"
    and f: "\<And>t b wr. p t = VSleepFree b wr \<Longrightarrow> length (filter (vfree s) [0..<NUM]) < 3" and b: "\<And>t i b wr. p t = VSleepBuf i b wr \<Longrightarrow> b_disk (bufs s b)"
  shows "vinv ph (s\<lparr>vpcs := p\<rparr>)"
proof -
  have "v_table (s\<lparr>vpcs := p\<rparr>)" using i by - (rule v_table_frame [of s], auto simp: vinv_def r)
  moreover have "v_sleep (s\<lparr>vpcs := p\<rparr>)"
    using i b f unfolding vinv_def v_sleep_def by (auto simp: r)
  moreover have "in_use (s\<lparr>vpcs := p\<rparr>) = in_use s" by (rule ext) (simp add: in_use_def r)
  moreover have e: "offered (s\<lparr>vpcs := p\<rparr>) = offered s" "finished (s\<lparr>vpcs := p\<rparr>) = finished s" "vpcs (s\<lparr>vpcs := p\<rparr>) = p" by (simp_all add: offered_def finished_def)
  ultimately show ?thesis using i unfolding vinv_def v_excl_def v_rings_def v_phase_def e r by simp
qed

lemma vinv_kill: "vinv ph s \<Longrightarrow> vinv ph (s\<lparr>vpcs := (vpcs s)(t := wake_buf b (wake_free (vpcs s t)))\<rparr>)"
proof (rule vinv_pcs)
  assume i: "vinv ph s"
  show "b_disk (bufs s c)" if "((vpcs s)(t := wake_buf b (wake_free (vpcs s t)))) t' = VSleepBuf j c wr" for t' j c wr
    using i that unfolding vinv_def v_sleep_def by (cases "t' = t") (auto simp: wake_sleepers)
  show "length (filter (vfree s) [0..<NUM]) < 3" if "((vpcs s)(t := wake_buf b (wake_free (vpcs s t)))) t' = VSleepFree c wr" for t' c wr
    using i that unfolding vinv_def v_sleep_def by (cases "t' = t") (auto simp: wake_sleepers)
qed auto

lemma vinv_buffer:
  assumes i: "vinv ph s" and u: "\<not> in_use s b"
  shows "vinv ph (upd_buf b (\<lambda>x. x\<lparr>b_data := d, b_blockno := n, b_valid := v\<rparr>) s)" (is "vinv ph ?s")
proof -
  have b: "b_disk (bufs ?s c) = b_disk (bufs s c)" "c \<noteq> b \<Longrightarrow> bufs ?s c = bufs s c" for c by (simp_all add: upd_buf_def)
  have nb: "vuses (vpcs s t) = Some (c, wr) \<Longrightarrow> c \<noteq> b" for t c wr using u by (auto simp: in_use_def)
  have e: "vpcs ?s = vpcs s" "vdesc ?s = vdesc s" "vfree ?s = vfree s" "vops ?s = vops s" "info_b ?s = info_b s" "info_status ?s = info_status s" "offered ?s = offered s" "finished ?s = finished s"
    by (simp_all add: upd_buf_def offered_def finished_def)
  have "v_table ?s" using i b(2) by - (rule v_table_frame [of s], auto simp: vinv_def e dest: vreq_uses nb)
  moreover have "in_use ?s = in_use s" by (rule ext) (simp add: in_use_def e)
  moreover have "v_sleep ?s" using i b nb unfolding vinv_def v_sleep_def e by simp
  ultimately show ?thesis using i unfolding vinv_def v_excl_def v_rings_def v_phase_def e b by simp
qed

lemma vinv_fetch: "vinv ph s \<Longrightarrow> dev_idx s \<noteq> avail_idx s \<Longrightarrow> vinv ph (dev_fetch s)"
proof -
  assume i: "vinv ph s" and n: "dev_idx s \<noteq> avail_idx s"
  let ?s = "dev_fetch s"
  have o: "set (offered ?s) = set (offered s)" "distinct (offered ?s) = distinct (offered s)"
    using ring_pop [OF n, of "avail_ring s"] by (auto simp: offered_def dev_fetch_def)
  have e: "vpcs ?s = vpcs s" "vdesc ?s = vdesc s" "vfree ?s = vfree s" "vops ?s = vops s" "info_b ?s = info_b s" "info_status ?s = info_status s" "finished ?s = finished s" "bufs ?s = bufs s"
    by (simp_all add: dev_fetch_def finished_def)
  have "v_table ?s" using i by - (rule v_table_frame [of s], auto simp: vinv_def e)
  moreover have "in_use ?s = in_use s" by (rule ext) (simp add: in_use_def e)
  ultimately show ?thesis using i unfolding vinv_def v_excl_def v_rings_def v_phase_def v_sleep_def distinct_append set_append e o by simp
qed

subsection \<open>Completion and interrupt\<close>

lemma room_below: "distinct xs \<Longrightarrow> set xs \<subseteq> {..<NUM} \<Longrightarrow> x < NUM \<Longrightarrow> x \<notin> set xs \<Longrightarrow> length xs < NUM"
proof -
  assume a: "distinct xs" "set xs \<subseteq> {..<NUM}" "x < NUM" "x \<notin> set xs"
  have "length xs = card (set xs)" using a(1) by (simp add: distinct_card)
  also have "\<dots> < card {..<NUM}" using a by (intro psubset_card_mono) auto
  finally show ?thesis by simp
qed

lemma vinv_head:
  assumes "vinv ph s" "h \<in> set (offered s @ finished s)"
  obtains t b wr where "vreq (vpcs s t) = Some (h, b, wr)" "b_disk (bufs s b)" "h < NUM"
proof -
  obtain t b wr where r: "vreq (vpcs s t) = Some (h, b, wr)" "b_disk (bufs s b)" using assms unfolding vinv_def v_rings_def by blast
  moreover have "h < NUM" using assms(1) r(1) v_tableD(4) unfolding vinv_def by blast
  ultimately show ?thesis using that by blast
qed

lemma vinv_excl: "vinv ph s \<Longrightarrow> vuses (vpcs s t) = Some (b, wr) \<Longrightarrow> vuses (vpcs s t') = Some (b, wr') \<Longrightarrow> t = t'"
  unfolding vinv_def v_excl_def by blast

lemma vinv_complete:
  assumes i: "vinv ph s" and h: "h \<in> set (dev_pending s)" and q: "dev_request h s = Some (wr, bno, b, k)"
  shows "vinv (\<lambda>c. vphase_step c (ph c) (Xfer b wr)) (dev_complete h wr bno b k s)" (is "vinv ?ph ?s")
    and "bno = b_blockno (bufs s b)" "ph b = Called wr"
proof -
  have ho: "h \<in> set (offered s)" using h by (simp add: offered_def)
  obtain t b0 wr0 where t0: "vreq (vpcs s t) = Some (h, b0, wr0)" "b_disk (bufs s b0)" "h < NUM" using vinv_head [OF i, of h] ho by auto
  note tb = i [unfolded vinv_def, THEN conjunct1] and rg = i [unfolded vinv_def, THEN conjunct2, THEN conjunct2, THEN conjunct1]
  have "wr0 = wr" "b0 = b" and k: "k = h" and n: "bno = b_blockno (bufs s b)" using chain_request [OF v_tableD(1) [OF tb t0(1)]] q by auto
  note t = t0 [unfolded \<open>wr0 = wr\<close> \<open>b0 = b\<close>]
  show "bno = b_blockno (bufs s b)" by (rule n)
  show pb: "ph b = Called wr" using i t(1) ho vreq_uses [OF t(1)] unfolding vinv_def v_phase_def by fastforce
  have e: "vpcs ?s = vpcs s" "vdesc ?s = vdesc s" "vfree ?s = vfree s" "vops ?s = vops s" "info_b ?s = info_b s" "info_status ?s = (info_status s)(h := 0)"
    "b_disk (bufs ?s c) = b_disk (bufs s c)" "b_blockno (bufs ?s c) = b_blockno (bufs s c)" for c
    by (simp_all add: dev_complete_def dev_move_def upd_buf_def k Let_def)
  have d: "distinct (offered s @ finished s)" using rg by (simp add: v_rings_def)
  have "set (finished s) \<subseteq> {..<NUM}" using vinv_head [OF i] by (metis Un_iff lessThan_iff set_append subsetI)
  moreover have hf: "h \<notin> set (finished s)" "distinct (finished s)" using d ho by auto
  ultimately have "length (finished s) < NUM" using room_below t(3) by blast
  then have f: "finished ?s = finished s @ [h]" using ring_push [of "used_ring s" "seen_idx s" "used_idx s" h]
    by (simp add: finished_def dev_complete_def dev_move_def upd_buf_def Let_def)
  have "offered ?s = ring_from (avail_ring s) (dev_idx s) (avail_idx s) @ remove1 h (dev_pending s)"
    by (simp add: offered_def dev_complete_def dev_move_def upd_buf_def Let_def)
  then have o: "set (offered ?s) = set (offered s) - {h}" "distinct (offered ?s)" using d h by (auto simp: offered_def)
  have iu: "in_use ?s = in_use s" by (rule ext) (simp add: in_use_def e)
  have "v_table ?s" using tb by - (rule v_table_frame [of s], auto simp: e)
  moreover have "v_excl ?s" using i unfolding vinv_def v_excl_def e by simp
  moreover have "v_rings ?s"
  proof -
    have "set (offered ?s @ finished ?s) = set (offered s @ finished s)" using o(1) f ho by auto
    moreover have "distinct (offered ?s @ finished ?s)" unfolding f using o d hf by auto
    moreover have "\<forall>j \<in> set (finished ?s). ((info_status s)(h := 0)) j = 0" using f rg by (auto simp: v_rings_def)
    ultimately show ?thesis using rg unfolding v_rings_def e by simp
  qed
  moreover have "v_sleep ?s" using i unfolding vinv_def v_sleep_def e by simp
  moreover have "v_phase ?ph ?s" unfolding v_phase_def iu e
  proof (intro conjI allI impI)
    fix c assume c: "\<not> in_use s c"
    then have "c \<noteq> b" using vreq_uses [OF t(1)] by (auto simp: in_use_def)
    then show "?ph c = Idle" using i c by (simp add: vinv_def v_phase_def vphase_step_def)
  next
    fix t' c w assume u: "vuses (vpcs s t') = Some (c, w)"
    show "?ph c = (case vreq (vpcs s t') of None \<Rightarrow> Called w | Some (j, _, _) \<Rightarrow> if j \<in> set (offered ?s) then Called w else Moved w)"
    proof (cases "t' = t")
      case True
      then show ?thesis using u t(1) vreq_uses [OF t(1)] pb o(1) by (simp add: vphase_step_def)
    next
      case False
      then have "c \<noteq> b" using vinv_excl [OF i u] vreq_uses [OF t(1)] by blast
      moreover have "ph c = (case vreq (vpcs s t') of None \<Rightarrow> Called w | Some (j, _, _) \<Rightarrow> if j \<in> set (offered s) then Called w else Moved w)"
        using i u unfolding vinv_def v_phase_def by blast
      moreover have "j \<noteq> h" if "vreq (vpcs s t') = Some (j, c', w')" for j c' w' using v_tableD(6) [OF tb t(1)] that False by blast
      ultimately show ?thesis using o(1) by (cases "vreq (vpcs s t')") (auto simp: vphase_step_def)
    qed
  qed
  ultimately show "vinv ?ph ?s" unfolding vinv_def by blast
qed

lemma vinv_intr_once:
  assumes i: "vinv ph s" and n: "seen_idx s \<noteq> used_idx s"
  defines "h \<equiv> used_ring s (unat (seen_idx s) mod NUM)"
  shows "\<exists>b. info_status s h = 0 \<and> info_b s h = Some b \<and>
    vinv ph ((upd_buf b (\<lambda>x. x\<lparr>b_disk := False\<rparr>) s)\<lparr>vpcs := wake_buf b \<circ> vpcs s, seen_idx := seen_idx s + 1\<rparr>)"
proof -
  have f: "finished s = h # ring_from (used_ring s) (seen_idx s + 1) (used_idx s)" using ring_pop [OF n] by (simp add: finished_def h_def)
  obtain t b wr where t: "vreq (vpcs s t) = Some (h, b, wr)" "b_disk (bufs s b)" "h < NUM" using vinv_head [OF i, of h] f by auto
  note tb = i [unfolded vinv_def, THEN conjunct1] and rg = i [unfolded vinv_def, THEN conjunct2, THEN conjunct2, THEN conjunct1]
  have st: "info_status s h = 0" "info_b s h = Some b" using rg f v_tableD(1) [OF tb t(1)] by (auto simp: v_rings_def chain_ok_def Let_def)
  let ?s = "(upd_buf b (\<lambda>x. x\<lparr>b_disk := False\<rparr>) s)\<lparr>vpcs := wake_buf b \<circ> vpcs s, seen_idx := seen_idx s + 1\<rparr>"
  have e: "vpcs ?s = wake_buf b \<circ> vpcs s" "vdesc ?s = vdesc s" "vfree ?s = vfree s" "vops ?s = vops s" "info_b ?s = info_b s" "info_status ?s = info_status s"
    "b_disk (bufs ?s c) \<longleftrightarrow> c \<noteq> b \<and> b_disk (bufs s c)" "b_blockno (bufs ?s c) = b_blockno (bufs s c)" "offered ?s = offered s" for c
    by (simp_all add: upd_buf_def offered_def)
  have f': "finished s = h # finished ?s" using f by (simp add: finished_def upd_buf_def)
  have iu: "in_use ?s = in_use s" by (rule ext) (simp add: in_use_def e)
  have d: "distinct (offered s @ finished s)" using rg by (simp add: v_rings_def)
  have "v_table ?s" using tb by - (rule v_table_frame [of s], auto simp: e)
  moreover have "v_excl ?s" using i unfolding vinv_def v_excl_def e by simp
  moreover have "v_sleep ?s" using i unfolding vinv_def v_sleep_def e by (auto simp: wake_sleepers)
  moreover have "v_phase ph ?s" using i unfolding vinv_def v_phase_def iu e by simp
  moreover have "v_rings ?s" unfolding v_rings_def e
  proof (intro conjI allI)
    show "distinct (offered s @ finished ?s)" "\<forall>j \<in> set (finished ?s). info_status s j = 0" using d rg f' by (auto simp: v_rings_def)
    fix j
    have "j \<in> set (offered s @ finished ?s) \<longleftrightarrow> j \<in> set (offered s @ finished s) \<and> j \<noteq> h" using d f' by auto
    also have "\<dots> \<longleftrightarrow> (\<exists>t b wr. vreq (vpcs s t) = Some (j, b, wr) \<and> b_disk (bufs s b)) \<and> j \<noteq> h" using rg unfolding v_rings_def by blast
    also have "\<dots> \<longleftrightarrow> (\<exists>t c wr. vreq (vpcs s t) = Some (j, c, wr) \<and> c \<noteq> b \<and> b_disk (bufs s c))"
      using t(1) vinv_excl [OF i] vreq_uses v_tableD(6) [OF tb t(1)] by (metis option.inject prod.inject)
    finally show "j \<in> set (offered s @ finished ?s) \<longleftrightarrow> (\<exists>t c wr. vreq ((wake_buf b \<circ> vpcs s) t) = Some (j, c, wr) \<and> c \<noteq> b \<and> b_disk (bufs s c))" by simp
  qed
  ultimately show ?thesis using st unfolding vinv_def by blast
qed

lemma vinv_intr:
  "vinv ph s \<Longrightarrow> \<exists>s'. virtio_disk_intr s = Ok s' \<and> vinv ph s' \<and> finished s' = [] \<and> offered s' = offered s \<and> (\<forall>t. vreq (vpcs s' t) = vreq (vpcs s t))"
proof (induction s rule: virtio_disk_intr.induct)
  case (1 s)
  show ?case
  proof (cases "seen_idx s = used_idx s")
    case True
    then show ?thesis using 1(2) by (subst virtio_disk_intr.simps) (simp add: finished_def)
  next
    case False
    from vinv_intr_once [OF 1(2) this] obtain b where b: "info_status s (used_ring s (unat (seen_idx s) mod NUM)) = 0" "info_b s (used_ring s (unat (seen_idx s) mod NUM)) = Some b"
      "vinv ph ((upd_buf b (\<lambda>x. x\<lparr>b_disk := False\<rparr>) s)\<lparr>vpcs := wake_buf b \<circ> vpcs s, seen_idx := seen_idx s + 1\<rparr>)" (is "vinv ph ?s") by blast
    have "offered ?s = offered s" "\<forall>t. vreq (vpcs ?s t) = vreq (vpcs s t)" by (simp_all add: offered_def upd_buf_def)
    moreover have "virtio_disk_intr s = virtio_disk_intr ?s" using False b(1,2) by (subst virtio_disk_intr.simps) simp
    ultimately show ?thesis using 1(1) [OF False refl _ b(2,3)] b(1) by auto
  qed
qed

subsection \<open>Allocation, submission and release\<close>

lemma filter_upd: "distinct xs \<Longrightarrow> filter P xs = d # r \<Longrightarrow> filter (P(d := False)) xs = r"
proof -
  assume a: "distinct xs" "filter P xs = d # r"
  have "filter (P(d := False)) xs = filter (\<lambda>x. x \<noteq> d) (filter P xs)" unfolding filter_filter by (rule filter_cong) auto
  moreover have "d \<notin> set r" using distinct_filter [OF a(1), of P] a(2) by simp
  ultimately show ?thesis using a(2) by (auto simp: filter_id_conv)
qed

lemma alloc_desc_filter:
  "alloc_desc s = (case filter (vfree s) [0..<NUM] of [] \<Rightarrow> (None, s) | d # _ \<Rightarrow> (Some d, s\<lparr>vfree := (vfree s)(d := False)\<rparr>))"
proof -
  have "alloc_desc_loop k i s = (case filter (vfree s) [i..<i + k] of [] \<Rightarrow> (None, s) | d # _ \<Rightarrow> (Some d, s\<lparr>vfree := (vfree s)(d := False)\<rparr>))" for k i
    by (induction k arbitrary: i) (simp_all add: upt_conv_Cons del: upt_Suc)
  then show ?thesis by (simp add: alloc_desc_def)
qed

lemma alloc3_some:
  assumes "filter (vfree s) [0..<NUM] = i0 # i1 # i2 # r"
  shows "alloc3_desc s = Ok (Some (i0, i1, i2), s\<lparr>vfree := (vfree s)(i0 := False, i1 := False, i2 := False)\<rparr>)"
proof -
  have 1: "filter ((vfree s)(i0 := False)) [0..<NUM] = i1 # i2 # r" using filter_upd [OF _ assms] by simp
  have 2: "filter ((vfree s)(i0 := False, i1 := False)) [0..<NUM] = i2 # r" using filter_upd [OF _ 1] by simp
  show ?thesis using assms 1 2 by (simp add: alloc3_desc_def alloc_desc_filter)
qed

lemma wake_free_twice: "wake_free \<circ> (wake_free \<circ> p) = wake_free \<circ> p"
  by (rule ext) (simp add: wake_free_def split: vpc.splits)

lemma filter_mem: "filter P [0..<NUM] = xs \<Longrightarrow> d \<in> set xs \<Longrightarrow> d < NUM \<and> P d"
  by auto

lemma alloc3_none:
  assumes l: "length (filter (vfree s) [0..<NUM]) < 3"
  shows "\<exists>D p. alloc3_desc s = Ok (None, s\<lparr>vdesc := D, vpcs := p\<rparr>) \<and> (\<forall>d. \<not> vfree s d \<longrightarrow> D d = vdesc s d) \<and> p \<in> {vpcs s, wake_free \<circ> vpcs s}"
proof -
  consider "filter (vfree s) [0..<NUM] = []" | i where "filter (vfree s) [0..<NUM] = [i]" | i j where "filter (vfree s) [0..<NUM] = [i, j]"
    using l by (cases "filter (vfree s) [0..<NUM]"; cases "tl (filter (vfree s) [0..<NUM])") auto
  then show ?thesis
  proof cases
    case 1
    then show ?thesis by (intro exI [of _ "vdesc s"] exI [of _ "vpcs s"]) (simp add: alloc3_desc_def alloc_desc_filter)
  next
    case (2 i)
    have f: "filter ((vfree s)(i := False)) [0..<NUM] = []" using filter_upd [OF _ 2] by simp
    have i: "i < NUM" "vfree s i" using filter_mem [OF 2] by auto
    have v: "(vfree s)(i := True) = vfree s" using i by (auto simp: fun_eq_iff)
    show ?thesis using 2 f i
      by (intro exI [of _ "(vdesc s)(i := no_desc)"] exI [of _ "wake_free \<circ> vpcs s"]) (auto simp: alloc3_desc_def alloc_desc_filter free_desc_def v)
  next
    case (3 i j)
    have f: "filter ((vfree s)(i := False)) [0..<NUM] = [j]" using filter_upd [OF _ 3] by simp
    have g: "filter ((vfree s)(i := False, j := False)) [0..<NUM] = []" using filter_upd [OF _ f] by simp
    have i: "i < NUM" "vfree s i" "j < NUM" "vfree s j" using filter_mem [OF 3] by auto
    have ij: "i \<noteq> j" using distinct_filter [of "[0..<NUM]" "vfree s"] 3 by simp
    have v: "(vfree s)(i := True, j := True) = vfree s" using i ij by (auto simp: fun_eq_iff)
    show ?thesis using 3 f g i ij
      by (intro exI [of _ "(vdesc s)(i := no_desc, j := no_desc)"] exI [of _ "wake_free \<circ> vpcs s"])
        (auto simp: alloc3_desc_def alloc_desc_filter free_desc_def wake_free_twice fun_upd_twist v)
  qed
qed

text \<open>A process enters the driver: it is as if it had been woken to try for descriptors.\<close>

lemma vinv_enter:
  assumes i: "vinv ph s" and t: "vpcs s t = VIdle" and u: "\<not> in_use s b" and n: "b_blockno (bufs s b) < 2 ^ 31"
  shows "vinv (\<lambda>c. vphase_step c (ph c) (Start b wr)) (s\<lparr>vpcs := (vpcs s)(t := VRetry b wr)\<rparr>)" (is "vinv ?ph ?s")
proof -
  have r: "vreq (vpcs ?s x) = vreq (vpcs s x)" for x using t by simp
  have us: "vuses (vpcs ?s x) = (if x = t then Some (b, wr) else vuses (vpcs s x))" for x by simp
  have e: "offered ?s = offered s" "finished ?s = finished s" by (simp_all add: offered_def finished_def)
  have nb: "vuses (vpcs s x) = Some (c, w) \<Longrightarrow> c \<noteq> b" for x c w using u by (auto simp: in_use_def)
  have "v_table ?s" using i t by - (rule v_table_frame [of s], auto simp: vinv_def)
  moreover have "v_excl ?s" using i nb unfolding vinv_def v_excl_def us by (auto split: if_splits)
  moreover have "v_rings ?s" using i unfolding vinv_def v_rings_def e r by simp
  moreover have "v_sleep ?s" using i n unfolding vinv_def v_sleep_def us r by auto
  moreover have "v_phase ?ph ?s" unfolding v_phase_def us r e
  proof (intro conjI allI impI)
    fix c assume "\<not> in_use ?s c"
    then have "c \<noteq> b" "\<not> in_use s c" using t by (auto simp: in_use_def split: if_splits) (metis option.distinct(1) vreq_simps(6))
    then show "?ph c = Idle" using i by (simp add: vinv_def v_phase_def vphase_step_def)
  next
    fix x c w assume x: "(if x = t then Some (b, wr) else vuses (vpcs s x)) = Some (c, w)"
    have pb: "ph b = Idle" using i u by (simp add: vinv_def v_phase_def)
    show "?ph c = (case vreq (vpcs s x) of None \<Rightarrow> Called w | Some (j, _, _) \<Rightarrow> if j \<in> set (offered s) then Called w else Moved w)"
    proof (cases "x = t")
      case True
      then show ?thesis using x pb t by (simp add: vphase_step_def)
    next
      case False
      then have "vuses (vpcs s x) = Some (c, w)" using x by simp
      then show ?thesis using nb i unfolding vinv_def v_phase_def by (auto simp: vphase_step_def)
    qed
  qed
  ultimately show ?thesis unfolding vinv_def by blast
qed

lemma vinv_sleeper: "vinv ph s \<Longrightarrow> vpcs s t = VSleepBuf i b wr \<Longrightarrow> b_disk (bufs s b)"
  unfolding vinv_def v_sleep_def by blast

lemma vinv_starved: "vinv ph s \<Longrightarrow> vpcs s t = VSleepFree b wr \<Longrightarrow> length (filter (vfree s) [0..<NUM]) < 3"
  unfolding vinv_def v_sleep_def by blast

text \<open>It finds too few free descriptors and sleeps.\<close>

lemma vinv_sleep_free:
  assumes i: "vinv ph s" and t: "vpcs s t = VRetry b wr" and l: "length (filter (vfree s) [0..<NUM]) < 3"
    and d: "\<And>d. \<not> vfree s d \<Longrightarrow> D d = vdesc s d" and p: "p \<in> {vpcs s, wake_free \<circ> vpcs s}"
  shows "vinv ph (s\<lparr>vdesc := D, vpcs := p(t := VSleepFree b wr)\<rparr>)"
proof -
  let ?s = "s\<lparr>vdesc := D\<rparr>"
  have e: "offered ?s = offered s" "finished ?s = finished s" "vpcs ?s = vpcs s" "in_use ?s = in_use s" by (simp_all add: offered_def finished_def in_use_def fun_eq_iff)
  have "v_table ?s" using i d by - (rule v_table_frame [of s], auto simp: vinv_def)
  then have "vinv ph ?s" using i unfolding vinv_def v_excl_def v_rings_def v_sleep_def v_phase_def e by simp
  then have "vinv ph (?s\<lparr>vpcs := p(t := VSleepFree b wr)\<rparr>)"
  proof (rule vinv_pcs)
    show "vreq ((p(t := VSleepFree b wr)) x) = vreq (vpcs ?s x)" "vuses ((p(t := VSleepFree b wr)) x) = vuses (vpcs ?s x)" for x using t p by auto
    show "length (filter (vfree ?s) [0..<NUM]) < 3" using l by simp
    show "b_disk (bufs ?s c)" if "(p(t := VSleepFree b wr)) x = VSleepBuf j c w" for x j c w
    proof -
      have "vpcs s x = VSleepBuf j c w" using that p by (cases "x = t") (auto simp: wake_sleepers)
      then show ?thesis using vinv_sleeper [OF i] by simp
    qed
  qed
  then show ?thesis by simp
qed

text \<open>It has three descriptors, tells the device and sleeps until the transfer is done.\<close>

lemma submit_table:
  assumes i: "vinv ph s" and t: "vpcs s t = VRetry b wr" and f: "filter (vfree s) [0..<NUM] = i0 # i1 # i2 # r"
  defines "s' \<equiv> (rw_submit b wr (i0, i1, i2) (s\<lparr>vfree := (vfree s)(i0 := False, i1 := False, i2 := False)\<rparr>))\<lparr>vpcs := (vpcs s)(t := VSleepBuf i0 b wr)\<rparr>"
  shows "v_table s'"
proof -
  note tb = i [unfolded vinv_def, THEN conjunct1]
  have m: "i0 < NUM" "vfree s i0" "i1 < NUM" "vfree s i1" "i2 < NUM" "vfree s i2" using filter_mem [OF f] by auto
  have dis: "distinct [i0, i1, i2]" using distinct_filter [of "[0..<NUM]" "vfree s"] f by simp
  have e: "vfree s' = (vfree s)(i0 := False, i1 := False, i2 := False)" "b_blockno (bufs s' c) = b_blockno (bufs s c)"
    "d \<notin> {i0, i1, i2} \<Longrightarrow> vdesc s' d = vdesc s d" "d \<noteq> i0 \<Longrightarrow> vops s' d = vops s d" "d \<noteq> i0 \<Longrightarrow> info_b s' d = info_b s d" for c d
    by (simp_all add: s'_def rw_submit_def Let_def upd_buf_def)
  have rq: "vreq (vpcs s' x) = (if x = t then Some (i0, b, wr) else vreq (vpcs s x))" for x by (simp add: s'_def)
  have c0: "chain s' i0 = {i0, i1, i2}" using dis by (simp add: chain_def s'_def rw_submit_def Let_def upd_buf_def)
  have bn: "b_blockno (bufs s b) < 2 ^ 31" using i t unfolding vinv_def v_sleep_def by (metis vreq_simps(8))
  have ok0: "chain_ok s' i0 b wr" using dis m bn by (simp add: chain_ok_def s'_def rw_submit_def Let_def upd_buf_def)
  have other: "chain_ok s' j c w \<and> chain s' j = chain s j \<and> chain s j \<inter> {i0, i1, i2} = {}" if x: "vreq (vpcs s x) = Some (j, c, w)" for x j c w
  proof -
    have z: "chain s j \<inter> {i0, i1, i2} = {}" using v_tableD(2) [OF tb x] m by auto
    then have fr: "\<forall>d \<in> chain s j. vdesc s' d = vdesc s d \<and> vfree s' d = vfree s d" "j \<noteq> i0" using e(1,3) v_tableD(3) [OF tb x] by auto
    then show ?thesis using z chain_ok_frame [OF v_tableD(1) [OF tb x] fr(1)] chain_frame [of s j s'] e by blast
  qed
  have nt: "vreq (vpcs s t) = None" using t by simp
  show ?thesis unfolding v_table_def rq
  proof (intro conjI allI impI)
    fix x j c w assume "(if x = t then Some (i0, b, wr) else vreq (vpcs s x)) = Some (j, c, w)"
    then show "chain_ok s' j c w" using ok0 other by (auto split: if_splits)
  next
    fix x y j c w j' c' w' assume "(if x = t then Some (i0, b, wr) else vreq (vpcs s x)) = Some (j, c, w)"
      "(if y = t then Some (i0, b, wr) else vreq (vpcs s y)) = Some (j', c', w')" "x \<noteq> y"
    then show "chain s' j \<inter> chain s' j' = {}" using c0 other v_tableD(5) [OF tb] by (auto split: if_splits)
  next
    fix d assume d: "d < NUM" "\<not> vfree s' d"
    show "\<exists>x j c w. (if x = t then Some (i0, b, wr) else vreq (vpcs s x)) = Some (j, c, w) \<and> d \<in> chain s' j"
    proof (cases "d \<in> {i0, i1, i2}")
      case True
      then show ?thesis using c0 by auto
    next
      case False
      then have "\<not> vfree s d" using d e(1) by simp
      then obtain x j c w where "vreq (vpcs s x) = Some (j, c, w)" "d \<in> chain s j" using tb d(1) unfolding v_table_def by blast
      then show ?thesis using other nt by (metis option.distinct(1))
    qed
  qed
qed

lemma vinv_submit:
  assumes i: "vinv ph s" and t: "vpcs s t = VRetry b wr" and f: "filter (vfree s) [0..<NUM] = i0 # i1 # i2 # r"
  shows "vinv ph ((rw_submit b wr (i0, i1, i2) (s\<lparr>vfree := (vfree s)(i0 := False, i1 := False, i2 := False)\<rparr>))\<lparr>vpcs := (vpcs s)(t := VSleepBuf i0 b wr)\<rparr>)" (is "vinv ph ?s")
proof -
  note tb = i [unfolded vinv_def, THEN conjunct1] and rg = i [unfolded vinv_def, THEN conjunct2, THEN conjunct2, THEN conjunct1]
  have m: "i0 < NUM" "vfree s i0" using filter_mem [OF f] by auto
  have h0: "i0 \<notin> set (offered s @ finished s)" using vinv_head [OF i, of i0] v_tableD(2,3) [OF tb] m(2) by metis
  have rq: "vreq (vpcs ?s x) = (if x = t then Some (i0, b, wr) else vreq (vpcs s x))" for x by simp
  have us: "vuses (vpcs ?s x) = vuses (vpcs s x)" for x using t by simp
  have nb: "c \<noteq> b" if "vreq (vpcs s x) = Some (j, c, w)" for x j c w
    using vinv_excl [OF i vreq_uses [OF that], of t wr] t that by (cases "x = t") auto
  have e: "info_status ?s = (info_status s)(i0 := 0xff)" "b_disk (bufs ?s c) \<longleftrightarrow> c = b \<or> b_disk (bufs s c)" "b_blockno (bufs ?s c) = b_blockno (bufs s c)" "finished ?s = finished s" for c
    by (simp_all add: rw_submit_def Let_def upd_buf_def finished_def)
  let ?A = "ring_from (avail_ring s) (dev_idx s) (avail_idx s)"
  have d: "distinct (offered s @ finished s)" using rg by (simp add: v_rings_def)
  have "set ?A \<subseteq> {..<NUM}" using vinv_head [OF i] unfolding offered_def by (metis Un_iff lessThan_iff set_append subsetI)
  then have "length ?A < NUM" using room_below [of ?A i0] h0 d m by (simp add: offered_def)
  then have o: "offered ?s = ?A @ [i0] @ dev_pending s" using ring_push [of "avail_ring s" "dev_idx s" "avail_idx s" i0]
    by (simp add: offered_def rw_submit_def Let_def upd_buf_def)
  then have os: "set (offered ?s) = insert i0 (set (offered s))" "distinct (offered ?s)" using h0 d by (auto simp: offered_def)
  have iu: "in_use ?s = in_use s" by (rule ext) (simp only: in_use_def us)
  have "v_excl ?s" using i unfolding vinv_def v_excl_def us by simp
  moreover have "v_rings ?s" unfolding v_rings_def rq e
  proof (intro conjI allI)
    show "distinct (offered ?s @ finished s)" using os h0 d by auto
    have "\<forall>j \<in> set (finished s). info_status s j = 0" using rg by (simp add: v_rings_def)
    moreover have "i0 \<notin> set (finished s)" using h0 by simp
    ultimately show "\<forall>j \<in> set (finished s). ((info_status s)(i0 := 0xff)) j = 0" by auto
    fix j
    have "j \<in> set (offered ?s @ finished s) \<longleftrightarrow> j = i0 \<or> j \<in> set (offered s @ finished s)" using os by auto
    also have "\<dots> \<longleftrightarrow> j = i0 \<or> (\<exists>x c w. vreq (vpcs s x) = Some (j, c, w) \<and> b_disk (bufs s c))" using rg unfolding v_rings_def by blast
    also have "\<dots> \<longleftrightarrow> (\<exists>x c w. (if x = t then Some (i0, b, wr) else vreq (vpcs s x)) = Some (j, c, w) \<and> (c = b \<or> b_disk (bufs s c)))"
    proof -
      have "vreq (vpcs s t) = None" using t by simp
      then show ?thesis using nb by (metis option.distinct(1) option.inject prod.inject)
    qed
    finally show "j \<in> set (offered ?s @ finished s) \<longleftrightarrow> (\<exists>x c w. (if x = t then Some (i0, b, wr) else vreq (vpcs s x)) = Some (j, c, w) \<and> (c = b \<or> b_disk (bufs s c)))" .
  qed
  moreover have "v_sleep ?s"
    unfolding v_sleep_def
  proof (intro conjI allI impI)
    fix x c w assume "vpcs ?s x = VSleepFree c w"
    then have "vpcs s x = VSleepFree c w" by (simp split: if_splits)
    then show "length (filter (vfree ?s) [0..<NUM]) < 3" using i f unfolding vinv_def v_sleep_def by fastforce
  next
    fix x j c w assume "vpcs ?s x = VSleepBuf j c w"
    then show "b_disk (bufs ?s c)" unfolding e(2) using vinv_sleeper [OF i, of x] by (cases "x = t") auto
  next
    fix c assume "b_disk (bufs ?s c)"
    then show "\<exists>x j w. vreq (vpcs ?s x) = Some (j, c, w)" using i t unfolding vinv_def v_sleep_def e(2) rq by (metis option.distinct(1) vreq_simps(3))
  next
    fix x c w assume "vuses (vpcs ?s x) = Some (c, w)"
    then show "b_blockno (bufs ?s c) < 2 ^ 31" unfolding us e(3) using i unfolding vinv_def v_sleep_def by blast
  qed
  moreover have "v_phase ph ?s" unfolding v_phase_def iu us rq
  proof (intro conjI allI impI)
    fix c assume "\<not> in_use s c"
    then show "ph c = Idle" using i by (simp add: vinv_def v_phase_def)
  next
    fix x c w assume x: "vuses (vpcs s x) = Some (c, w)"
    then have p: "ph c = (case vreq (vpcs s x) of None \<Rightarrow> Called w | Some (j, _, _) \<Rightarrow> if j \<in> set (offered s) then Called w else Moved w)"
      using i unfolding vinv_def v_phase_def by blast
    have "j \<noteq> i0" if "vreq (vpcs s x) = Some (j, c', w')" for j c' w' using v_tableD(2,3) [OF tb that] m by blast
    then show "ph c = (case if x = t then Some (i0, b, wr) else vreq (vpcs s x) of None \<Rightarrow> Called w | Some (j, _, _) \<Rightarrow> if j \<in> set (offered ?s) then Called w else Moved w)"
      using p x t os(1) by (cases "x = t"; cases "vreq (vpcs s x)") auto
  qed
  ultimately show ?thesis using submit_table [OF i t f] unfolding vinv_def by blast
qed

text \<open>It is woken after the interrupt, frees its chain and returns.\<close>

lemma release_chain:
  assumes ok: "chain_ok s i b wr"
  shows "\<exists>j k. distinct [i, j, k] \<and> chain s i = {i, j, k} \<and> free_chain i (s\<lparr>info_b := (info_b s)(i := None)\<rparr>) =
    Ok (s\<lparr>info_b := (info_b s)(i := None), vdesc := (vdesc s)(i := no_desc, j := no_desc, k := no_desc), vfree := (vfree s)(i := True, j := True, k := True), vpcs := wake_free \<circ> vpcs s\<rparr>)"
proof -
  define j where "j = d_next (vdesc s i)"
  define k where "k = d_next (vdesc s j)"
  have c: "distinct [i, j, k]" "i < NUM" "j < NUM" "k < NUM" "\<not> vfree s i" "\<not> vfree s j" "\<not> vfree s k"
    "d_flags (vdesc s i) AND VRING_DESC_F_NEXT \<noteq> 0" "d_flags (vdesc s j) AND VRING_DESC_F_NEXT \<noteq> 0" "d_flags (vdesc s k) AND VRING_DESC_F_NEXT = 0"
    using ok by (auto simp: chain_ok_def Let_def j_def k_def VRING_DESC_F_NEXT_def VRING_DESC_F_WRITE_def)
  have "chain s i = {i, j, k}" by (simp add: chain_def j_def k_def)
  moreover have "free_chain i (s\<lparr>info_b := (info_b s)(i := None)\<rparr>) =
    Ok (s\<lparr>info_b := (info_b s)(i := None), vdesc := (vdesc s)(i := no_desc, j := no_desc, k := no_desc), vfree := (vfree s)(i := True, j := True, k := True), vpcs := wake_free \<circ> vpcs s\<rparr>)"
    using c by (simp add: free_chain.simps [of i] free_chain.simps [of j] free_chain.simps [of k] free_desc_def j_def [symmetric] k_def [symmetric] wake_free_twice)
  ultimately show ?thesis using c(1) by blast
qed

lemma release_table:
  assumes i: "vinv ph s" and t: "vpcs s t = VWoken i b wr" and c: "distinct [i, j, k]" "chain s i = {i, j, k}"
  defines "s' \<equiv> s\<lparr>info_b := (info_b s)(i := None), vdesc := (vdesc s)(i := no_desc, j := no_desc, k := no_desc), vfree := (vfree s)(i := True, j := True, k := True),
      vpcs := (wake_free \<circ> vpcs s)(t := VIdle)\<rparr>"
  shows "v_table s'"
proof -
  note tb = i [unfolded vinv_def, THEN conjunct1]
  have r: "vreq (vpcs s t) = Some (i, b, wr)" using t by simp
  have rq: "vreq (vpcs s' x) = (if x = t then None else vreq (vpcs s x))" for x by (simp add: s'_def)
  have other: "chain_ok s' l d w \<and> chain s' l = chain s l \<and> chain s l \<inter> {i, j, k} = {}" if x: "vreq (vpcs s x) = Some (l, d, w)" "x \<noteq> t" for x l d w
  proof -
    have z: "chain s l \<inter> {i, j, k} = {}" using v_tableD(5) [OF tb x(1) r x(2)] c(2) by simp
    then have fr: "\<forall>d \<in> chain s l. vdesc s' d = vdesc s d \<and> vfree s' d = vfree s d" by (auto simp: s'_def)
    have "l \<noteq> i" using z v_tableD(3) [OF tb x(1)] by auto
    then have "vops s' l = vops s l" "info_b s' l = info_b s l" "bufs s' = bufs s" by (simp_all add: s'_def)
    then show ?thesis using z chain_ok_frame [OF v_tableD(1) [OF tb x(1)] fr] chain_frame [of s l s'] fr by simp
  qed
  show ?thesis unfolding v_table_def rq
  proof (intro conjI allI impI)
    fix x l d w assume "(if x = t then None else vreq (vpcs s x)) = Some (l, d, w)"
    then show "chain_ok s' l d w" using other by (auto split: if_splits)
  next
    fix x y l d w l' d' w' assume "(if x = t then None else vreq (vpcs s x)) = Some (l, d, w)" "(if y = t then None else vreq (vpcs s y)) = Some (l', d', w')" "x \<noteq> y"
    then show "chain s' l \<inter> chain s' l' = {}" using other v_tableD(5) [OF tb] by (auto split: if_splits)
  next
    fix e assume e: "e < NUM" "\<not> vfree s' e"
    then have "e \<notin> chain s i" "\<not> vfree s e" using c by (auto simp: s'_def split: if_splits)
    moreover then obtain x l d w where x: "vreq (vpcs s x) = Some (l, d, w)" "e \<in> chain s l" using tb e(1) unfolding v_table_def by blast
    ultimately have "x \<noteq> t" using r by auto
    then show "\<exists>x l d w. (if x = t then None else vreq (vpcs s x)) = Some (l, d, w) \<and> e \<in> chain s' l" using x other [OF x(1)] by auto
  qed
qed

lemma vinv_release:
  assumes i: "vinv ph s" and t: "vpcs s t = VWoken i b wr" and b: "\<not> b_disk (bufs s b)"
  shows "\<exists>s'. rw_wait t i b wr s = Ok s' \<and> vpcs s' t = VIdle \<and> vinv (\<lambda>c. vphase_step c (ph c) (Return b wr)) s'"
proof -
  note tb = i [unfolded vinv_def, THEN conjunct1] and rg = i [unfolded vinv_def, THEN conjunct2, THEN conjunct2, THEN conjunct1]
  have r: "vreq (vpcs s t) = Some (i, b, wr)" and u: "vuses (vpcs s t) = Some (b, wr)" using t by simp_all
  obtain j k where c: "distinct [i, j, k]" "chain s i = {i, j, k}" and fc: "free_chain i (s\<lparr>info_b := (info_b s)(i := None)\<rparr>) =
    Ok (s\<lparr>info_b := (info_b s)(i := None), vdesc := (vdesc s)(i := no_desc, j := no_desc, k := no_desc), vfree := (vfree s)(i := True, j := True, k := True), vpcs := wake_free \<circ> vpcs s\<rparr>)"
    using release_chain [OF v_tableD(1) [OF tb r]] by auto
  define s' where "s' = s\<lparr>info_b := (info_b s)(i := None), vdesc := (vdesc s)(i := no_desc, j := no_desc, k := no_desc), vfree := (vfree s)(i := True, j := True, k := True),
      vpcs := (wake_free \<circ> vpcs s)(t := VIdle)\<rparr>"
  have w: "rw_wait t i b wr s = Ok s'" "vpcs s' t = VIdle" using b fc by (simp_all add: rw_wait_def s'_def)
  have rq: "vreq (vpcs s' x) = (if x = t then None else vreq (vpcs s x))" and us: "vuses (vpcs s' x) = (if x = t then None else vuses (vpcs s x))" for x by (simp_all add: s'_def)
  have e: "bufs s' = bufs s" "offered s' = offered s" "finished s' = finished s" "info_status s' = info_status s" by (simp_all add: s'_def offered_def finished_def)
  have ni: "i \<notin> set (offered s)" using vinv_head [OF i, of i] v_tableD(6) [OF tb r] b r by (metis UnCI option.inject prod.inject set_append)
  have nb: "vuses (vpcs s x) = Some (d, w) \<Longrightarrow> x \<noteq> t \<Longrightarrow> d \<noteq> b" for x d w using vinv_excl [OF i u] by blast
  have iu: "in_use s' d \<longleftrightarrow> in_use s d \<and> d \<noteq> b" for d unfolding in_use_def us using nb u by (metis option.distinct(1) option.inject prod.inject)
  have bd: "b_disk (bufs s d) \<Longrightarrow> vreq (vpcs s x) = Some (l, d, w) \<Longrightarrow> x \<noteq> t" for x l d w using r b by auto
  have "v_table s'" unfolding s'_def by (rule release_table [OF i t c])
  moreover have "v_excl s'" using i unfolding vinv_def v_excl_def us by auto
  moreover have "v_rings s'"
  proof -
    have "(\<exists>x d w. (if x = t then None else vreq (vpcs s x)) = Some (l, d, w) \<and> b_disk (bufs s d)) \<longleftrightarrow> (\<exists>x d w. vreq (vpcs s x) = Some (l, d, w) \<and> b_disk (bufs s d))" for l
      using bd by (metis option.distinct(1))
    then show ?thesis using rg unfolding v_rings_def e rq by simp
  qed
  moreover have "v_sleep s'" unfolding v_sleep_def e us rq
  proof (intro conjI allI impI)
    fix x d w assume "vpcs s' x = VSleepFree d w"
    then show "length (filter (vfree s') [0..<NUM]) < 3" by (simp add: s'_def wake_sleepers split: if_splits)
  next
    fix x l d w assume "vpcs s' x = VSleepBuf l d w"
    then have "vpcs s x = VSleepBuf l d w" by (simp add: s'_def wake_sleepers split: if_splits)
    then show "b_disk (bufs s d)" by (rule vinv_sleeper [OF i])
  next
    fix d assume d: "b_disk (bufs s d)"
    then obtain x l w where "vreq (vpcs s x) = Some (l, d, w)" using i unfolding vinv_def v_sleep_def by blast
    then show "\<exists>x l w. (if x = t then None else vreq (vpcs s x)) = Some (l, d, w)" using bd [OF d] by (metis (full_types))
  next
    fix x d w assume "(if x = t then None else vuses (vpcs s x)) = Some (d, w)"
    then show "b_blockno (bufs s d) < 2 ^ 31" using i unfolding vinv_def v_sleep_def by (metis option.distinct(1))
  qed
  moreover have "v_phase (\<lambda>c. vphase_step c (ph c) (Return b wr)) s'" unfolding v_phase_def iu us rq e
  proof (intro conjI allI impI)
    fix d assume d: "\<not> (in_use s d \<and> d \<noteq> b)"
    have "ph b = Moved wr" using i u r ni unfolding vinv_def v_phase_def by fastforce
    then show "vphase_step d (ph d) (Return b wr) = Idle" using i d by (auto simp: vphase_step_def vinv_def v_phase_def)
  next
    fix x d w assume x: "(if x = t then None else vuses (vpcs s x)) = Some (d, w)"
    then have y: "x \<noteq> t" "vuses (vpcs s x) = Some (d, w)" by (auto split: if_splits)
    then have "ph d = (case vreq (vpcs s x) of None \<Rightarrow> Called w | Some (l, _, _) \<Rightarrow> if l \<in> set (offered s) then Called w else Moved w)"
      using i unfolding vinv_def v_phase_def by blast
    then show "vphase_step d (ph d) (Return b wr) = (case if x = t then None else vreq (vpcs s x) of None \<Rightarrow> Called w | Some (l, _, _) \<Rightarrow> if l \<in> set (offered s) then Called w else Moved w)"
      using y nb [OF y(2) y(1)] by (simp add: vphase_step_def)
  qed
  ultimately have "vinv (\<lambda>c. vphase_step c (ph c) (Return b wr)) s'" unfolding vinv_def by blast
  then show ?thesis using w by blast
qed

subsection \<open>Every interleaving\<close>

lemma rw_start_some:
  assumes "filter (vfree s) [0..<NUM] = i0 # i1 # i2 # r"
  shows "rw_start t b wr s =
    Ok ((rw_submit b wr (i0, i1, i2) (s\<lparr>vfree := (vfree s)(i0 := False, i1 := False, i2 := False)\<rparr>))\<lparr>vpcs := (vpcs s)(t := VSleepBuf i0 b wr)\<rparr>)"
  by (simp add: rw_start_def alloc3_some [OF assms] rw_wait_def rw_submit_def Let_def upd_buf_def)

lemma rw_start_inv:
  assumes i: "vinv ph (s\<lparr>vpcs := (vpcs s)(t := VRetry b wr)\<rparr>)" (is "vinv ph ?s")
  shows "\<exists>s'. rw_start t b wr s = Ok s' \<and> vinv ph s'"
proof (cases "length (filter (vfree s) [0..<NUM]) < 3")
  case True
  from alloc3_none [OF this] obtain D p where a: "alloc3_desc s = Ok (None, s\<lparr>vdesc := D, vpcs := p\<rparr>)" "\<forall>d. \<not> vfree s d \<longrightarrow> D d = vdesc s d" "p \<in> {vpcs s, wake_free \<circ> vpcs s}" by auto
  define p0 where "p0 = (if p = vpcs s then vpcs ?s else wake_free \<circ> vpcs ?s)"
  have "vinv ph (?s\<lparr>vdesc := D, vpcs := p0(t := VSleepFree b wr)\<rparr>)" using True a(2) by (intro vinv_sleep_free [OF i]) (auto simp: p0_def)
  moreover have "p0(t := VSleepFree b wr) = p(t := VSleepFree b wr)" using a(3) by (auto simp: p0_def fun_eq_iff)
  ultimately show ?thesis using a(1) by (simp add: rw_start_def)
next
  case False
  then obtain i0 i1 i2 r where f: "filter (vfree s) [0..<NUM] = i0 # i1 # i2 # r"
    by (metis (no_types) One_nat_def Suc_le_length_iff not_less numeral_3_eq_3)
  have "vinv ph ((rw_submit b wr (i0, i1, i2) (?s\<lparr>vfree := (vfree ?s)(i0 := False, i1 := False, i2 := False)\<rparr>))\<lparr>vpcs := (vpcs ?s)(t := VSleepBuf i0 b wr)\<rparr>)"
    using f by (intro vinv_submit [OF i]) auto
  then show ?thesis using rw_start_some [OF f] by (simp add: rw_submit_def Let_def upd_buf_def)
qed

lemma rw_wait_inv:
  assumes i: "vinv ph s" and t: "vpcs s t = VWoken k b wr"
  shows "\<exists>s'. rw_wait t k b wr s = Ok s' \<and> vinv (\<lambda>c. vphase_step c (ph c) (if vpcs s' t = VIdle then Return b wr else Quiet)) s'"
proof (cases "b_disk (bufs s b)")
  case True
  have "vinv ph (s\<lparr>vpcs := (vpcs s)(t := VSleepBuf k b wr)\<rparr>)"
  proof (rule vinv_pcs [OF i])
    show "length (filter (vfree s) [0..<NUM]) < 3" if "((vpcs s)(t := VSleepBuf k b wr)) x = VSleepFree c w" for x c w
      using that vinv_starved [OF i, of x] by (simp split: if_splits)
    show "b_disk (bufs s c)" if "((vpcs s)(t := VSleepBuf k b wr)) x = VSleepBuf j c w" for x j c w
      using that True vinv_sleeper [OF i, of x] by (cases "x = t") auto
  qed (use t in auto)
  then show ?thesis using True by (simp add: rw_wait_def vphase_step_def)
next
  case False
  then show ?thesis using vinv_release [OF i t] by auto
qed

lemma vstep_inv: "vstep s e s' \<Longrightarrow> vinv ph s \<Longrightarrow> vinv (\<lambda>c. vphase_step c (ph c) e) s'"
proof (induction rule: vstep.induct)
  case (v_start s t b wr s')
  then show ?case using rw_start_inv [OF vinv_enter [OF v_start(5,1,2,3), of wr]] by auto
next
  case (v_retry s t b wr s')
  then have "s\<lparr>vpcs := (vpcs s)(t := VRetry b wr)\<rparr> = s" by (metis fun_upd_triv vst.surjective vst.update_convs(11))
  then show ?case using rw_start_inv [of ph s t b wr] v_retry by (auto simp: vphase_step_def)
next
  case (v_resume s t i b wr s')
  then show ?case using rw_wait_inv [OF v_resume(3,1)] by auto
next
  case (v_kill s t b)
  then show ?case using vinv_kill by (simp add: vphase_step_def)
next
  case (v_fetch s)
  then show ?case using vinv_fetch by (simp add: vphase_step_def)
next
  case (v_complete h s wr bno b i)
  then show ?case using vinv_complete(1) by blast
next
  case (v_intr s s')
  then show ?case using vinv_intr [OF v_intr(2)] by (auto simp: vphase_step_def)
next
  case (v_buffer s b d n v)
  then show ?case using vinv_buffer by (simp add: vphase_step_def)
qed

lemma vinv_init: "vst_init s \<Longrightarrow> vinv (\<lambda>_. Idle) s"
  by (simp add: vst_init_def vinv_def v_table_def v_excl_def v_rings_def v_sleep_def v_phase_def offered_def finished_def)

lemma vruns_inv: "vruns s es s' \<Longrightarrow> vst_init s \<Longrightarrow> vinv (\<lambda>b. vphase_of b es) s'"
proof (induction rule: vruns.induct)
  case (vruns_nil s)
  then show ?case using vinv_init by (simp add: vphase_of_def)
next
  case (vruns_step s es s1 e s2)
  then show ?case using vstep_inv [OF vruns_step(2)] by (fastforce simp: vphase_of_def)
qed

lemma vinv_not_broken: "vinv ph s \<Longrightarrow> ph b \<noteq> Broken"
proof (cases "in_use s b")
  case True
  assume i: "vinv ph s"
  obtain t wr where "vuses (vpcs s t) = Some (b, wr)" using True by (auto simp: in_use_def)
  then have "ph b = (case vreq (vpcs s t) of None \<Rightarrow> Called wr | Some (j, _, _) \<Rightarrow> if j \<in> set (offered s) then Called wr else Moved wr)"
    using i unfolding vinv_def v_phase_def by blast
  then show ?thesis by (cases "vreq (vpcs s t)") (auto split: if_splits)
next
  case False
  assume "vinv ph s"
  then show ?thesis using False by (simp add: vinv_def v_phase_def)
qed

subsection \<open>No request is lost\<close>

text \<open>A process that waits for its buffer has its request in exactly one place on the way through the rings and the device.\<close>

lemma vinv_under_way:
  assumes i: "vinv ph s" and t: "vpcs s t = VSleepBuf k b wr"
  shows "distinct (offered s @ finished s) \<and> k \<in> set (offered s @ finished s)"
proof -
  have "b_disk (bufs s b)" by (rule vinv_sleeper [OF i t])
  moreover have "vreq (vpcs s t) = Some (k, b, wr)" using t by simp
  ultimately show ?thesis using i unfolding vinv_def v_rings_def by blast
qed

text \<open>The interrupt handler wakes everyone whose request the device has finished.\<close>

lemma intr_wakes:
  assumes i: "vinv ph s" and r: "vreq (vpcs s t) = Some (k, b, wr)" and k: "k \<in> set (finished s)" and s': "virtio_disk_intr s = Ok s'"
  shows "vpcs s' t = VWoken k b wr" "\<not> b_disk (bufs s' b)" "vinv ph s'"
proof -
  have v: "vinv ph s'" "finished s' = []" "offered s' = offered s" "\<forall>t. vreq (vpcs s' t) = vreq (vpcs s t)" using vinv_intr [OF i] s' by auto
  show "vinv ph s'" by (fact v(1))
  have "k \<notin> set (offered s)" using i k unfolding vinv_def v_rings_def by auto
  then show nd: "\<not> b_disk (bufs s' b)" using v r unfolding vinv_def v_rings_def by (metis append_Nil2)
  have "vreq (vpcs s' t) = Some (k, b, wr)" using v(4) r by simp
  moreover have "vpcs s' t \<noteq> VSleepBuf k b wr" using vinv_sleeper [OF v(1)] nd by blast
  ultimately show "vpcs s' t = VWoken k b wr" by (cases "vpcs s' t") auto
qed

lemma vruns_trans: "vruns s2 fs s3 \<Longrightarrow> vruns s1 es s2 \<Longrightarrow> vruns s1 (es @ fs) s3"
proof (induction rule: vruns.induct)
  case (vruns_step s fs s3 e s4)
  then have "vruns s1 ((es @ fs) @ [e]) s4" by (intro vruns.vruns_step)
  then show ?case by simp
qed simp

lemma vruns_one: "vstep s e s' \<Longrightarrow> vruns s [e] s'"
  using vruns_step [OF vruns_nil] by fastforce

lemma fetch_all:
  assumes "vinv ph s"
  shows "\<exists>es s'. vruns s es s' \<and> vinv ph s' \<and> vpcs s' = vpcs s \<and> set (dev_pending s') = set (offered s)"
  using assms
proof (induction "unat (avail_idx s - dev_idx s)" arbitrary: s rule: less_induct)
  case less
  show ?case
  proof (cases "dev_idx s = avail_idx s")
    case True
    then show ?thesis using less.prems by (intro exI [of _ "[]"] exI [of _ s]) (simp add: vruns_nil offered_def)
  next
    case False
    let ?s = "dev_fetch s"
    have m: "unat (avail_idx ?s - dev_idx ?s) < unat (avail_idx s - dev_idx s)" using ring_measure [OF False] by (simp add: dev_fetch_def)
    have o: "set (offered ?s) = set (offered s)" using ring_pop [OF False, of "avail_ring s"] by (auto simp: offered_def dev_fetch_def)
    obtain es s' where "vruns ?s es s'" "vinv ph s'" "vpcs s' = vpcs ?s" "set (dev_pending s') = set (offered ?s)"
      using less.hyps [OF m vinv_fetch [OF less.prems False]] by blast
    then show ?thesis using vruns_trans [OF _ vruns_one [OF v_fetch [OF False]]] o by (intro exI [of _ "[Quiet] @ es"] exI [of _ s']) (auto simp: dev_fetch_def)
  qed
qed

lemma finish_request:
  assumes i: "vinv ph s" and r: "vreq (vpcs s t) = Some (k, b, wr)" and k: "k \<in> set (finished s)"
  shows "\<exists>es s'. vruns s es s' \<and> Return b wr \<in> set es"
proof -
  obtain s1 where s1: "virtio_disk_intr s = Ok s1" using vinv_intr [OF i] by blast
  note w = intr_wakes [OF i r k s1]
  obtain s2 where s2: "rw_wait t k b wr s1 = Ok s2" "vpcs s2 t = VIdle" using vinv_release [OF w(3,1,2)] by blast
  have "vruns s ([Quiet] @ [if vpcs s2 t = VIdle then Return b wr else Quiet]) s2"
    by (rule vruns_trans [OF vruns_one [OF v_resume [OF w(1) s2(1)]] vruns_one [OF v_intr [OF s1]]])
  then show ?thesis using s2(2) by (intro exI [of _ "[Quiet, Return b wr]"] exI [of _ s2]) simp
qed

lemma request_can_return:
  assumes i: "vinv ph s" and t: "vpcs s t = VSleepBuf k b wr"
  shows "\<exists>es s'. vruns s es s' \<and> Return b wr \<in> set es"
proof (cases "k \<in> set (finished s)")
  case True
  then show ?thesis using finish_request [OF i, of t k b wr] t by simp
next
  case False
  obtain es s1 where 1: "vruns s es s1" "vinv ph s1" "vpcs s1 = vpcs s" "set (dev_pending s1) = set (offered s)" using fetch_all [OF i] by blast
  have k: "k \<in> set (dev_pending s1)" using vinv_under_way [OF i t] False 1(4) by auto
  have r: "vreq (vpcs s1 t) = Some (k, b, wr)" using t 1(3) by simp
  have q: "dev_request k s1 = Some (wr, b_blockno (bufs s1 b), b, k)" using chain_request v_tableD(1) [OF 1(2) [unfolded vinv_def, THEN conjunct1] r] by blast
  let ?s2 = "dev_complete k wr (b_blockno (bufs s1 b)) b k s1" let ?ph = "\<lambda>c. vphase_step c (ph c) (Xfer b wr)"
  note c = vinv_complete [OF 1(2) k q]
  have e: "vpcs ?s2 = vpcs s1" "b_disk (bufs ?s2 b) = b_disk (bufs s1 b)" by (simp_all add: dev_complete_def dev_move_def upd_buf_def Let_def)
  have t2: "vpcs ?s2 t = VSleepBuf k b wr" using t 1(3) e(1) by simp
  have "?ph b = Moved wr" using c(3) by (simp add: vphase_step_def)
  moreover have "vuses (vpcs ?s2 t) = Some (b, wr)" using t2 by simp
  then have "?ph b = (case vreq (vpcs ?s2 t) of None \<Rightarrow> Called wr | Some (j, _, _) \<Rightarrow> if j \<in> set (offered ?s2) then Called wr else Moved wr)"
    using c(1) unfolding vinv_def v_phase_def by blast
  ultimately have "k \<notin> set (offered ?s2)" using t2 by auto
  then have "k \<in> set (finished ?s2)" using vinv_under_way [OF c(1) t2] by auto
  then obtain fs s3 where 3: "vruns ?s2 fs s3" "Return b wr \<in> set fs" using finish_request [OF c(1), of t k b wr] t2 by auto
  have "vruns s ((es @ [Xfer b wr]) @ fs) s3"
    by (rule vruns_trans [OF 3(1) vruns_trans [OF vruns_one [OF v_complete [OF k q]] 1(1)]])
  then show ?thesis using 3(2) by (intro exI [of _ "(es @ [Xfer b wr]) @ fs"] exI [of _ s3]) simp
qed

lemma dev_move_rw: "dev_move wr (b_blockno (bufs s b)) b s = virtio_disk_rw b wr s"
  by (simp add: dev_move_def virtio_disk_rw_def Let_def)

text \<open>
  C2: The disk driver carries out every request exactly once and loses none. In every interleaving of any number of processes calling \<^verbatim>\<open>virtio_disk_rw\<close>, kills, the interrupt handler
  and a device that fetches requests in order and completes them in any order, with the ring counters wrapping: for each buffer the events are call, transfer in the direction of the
  call, return, over and over. What the device finds in the descriptors of a request is the transfer the file system asked for. Neither the interrupt handler nor a call panics, be it a
  fresh call, one that tries again for descriptors or one that is woken. The interrupt handler takes every finished request from the ring and leaves each process whose request it was woken with
  its buffer released by the device. A process asleep for its buffer has its request in exactly one place, waiting for the device, with the device, or finished and not yet seen by the
  driver, and from there the run can go on to the return of its call. A process sleeps for descriptors only while fewer than three are free.
\<close>

theorem virtio_disk_correct:
  assumes "vruns s es s'" "vst_init s"
  shows "vphase_of b es \<noteq> Broken \<and>
    (\<exists>r. virtio_disk_intr s' = Ok r \<and> finished r = [] \<and>
       (\<forall>t i c wr. vpcs s' t \<in> {VSleepBuf i c wr, VWoken i c wr} \<and> i \<in> set (finished s') \<longrightarrow> vpcs r t = VWoken i c wr \<and> \<not> b_disk (bufs r c))) \<and>
    (\<forall>t c wr. vpcs s' t = VIdle \<and> \<not> in_use s' c \<and> b_blockno (bufs s' c) < 2 ^ 31 \<longrightarrow> (\<exists>r. rw_start t c wr s' = Ok r)) \<and>
    (\<forall>t c wr. vpcs s' t = VRetry c wr \<longrightarrow> (\<exists>r. rw_start t c wr s' = Ok r)) \<and> (\<forall>t i c wr. vpcs s' t = VWoken i c wr \<longrightarrow> (\<exists>r. rw_wait t i c wr s' = Ok r)) \<and>
    (\<forall>h \<in> set (dev_pending s'). \<exists>wr bno c. dev_request h s' = Some (wr, bno, c, h) \<and> vphase_of c es = Called wr \<and> dev_move wr bno c s' = virtio_disk_rw c wr s') \<and>
    (\<forall>t c wr. vpcs s' t = VSleepFree c wr \<longrightarrow> length (filter (vfree s') [0..<NUM]) < 3) \<and>
    (\<forall>t i c wr. vpcs s' t = VSleepBuf i c wr \<longrightarrow> b_disk (bufs s' c) \<and> distinct (offered s' @ finished s') \<and> i \<in> set (offered s' @ finished s') \<and>
       (\<exists>fs s2. vruns s' fs s2 \<and> Return c wr \<in> set fs))"
proof -
  have i: "vinv (\<lambda>b. vphase_of b es) s'" by (rule vruns_inv [OF assms])
  obtain r where r: "virtio_disk_intr s' = Ok r" "finished r = []" using vinv_intr [OF i] by blast
  have wake: "vpcs r t = VWoken j c wr \<and> \<not> b_disk (bufs r c)" if "vpcs s' t \<in> {VSleepBuf j c wr, VWoken j c wr} \<and> j \<in> set (finished s')" for t j c wr
    using intr_wakes(1,2) [OF i _ _ r(1), of t j c wr] that by auto
  have call: "\<exists>r. rw_start t c wr s' = Ok r" if "vpcs s' t = VIdle \<and> \<not> in_use s' c \<and> b_blockno (bufs s' c) < 2 ^ 31" for t c wr
    using rw_start_inv [OF vinv_enter [OF i]] that by blast
  have start: "\<exists>r. rw_start t c wr s' = Ok r" if "vpcs s' t = VRetry c wr" for t c wr
  proof -
    have "s'\<lparr>vpcs := (vpcs s')(t := VRetry c wr)\<rparr> = s'" using that by (metis fun_upd_triv vst.surjective vst.update_convs(11))
    then show ?thesis using rw_start_inv [of _ s' t c wr] i by auto
  qed
  have pend: "\<exists>wr bno c. dev_request h s' = Some (wr, bno, c, h) \<and> vphase_of c es = Called wr \<and> dev_move wr bno c s' = virtio_disk_rw c wr s'" if h: "h \<in> set (dev_pending s')" for h
  proof -
    have "h \<in> set (offered s' @ finished s')" using h by (simp add: offered_def)
    then obtain t c wr where q: "vreq (vpcs s' t) = Some (h, c, wr)" by (rule vinv_head [OF i])
    have q: "dev_request h s' = Some (wr, b_blockno (bufs s' c), c, h)" using chain_request v_tableD(1) [OF i [unfolded vinv_def, THEN conjunct1] q] by blast
    show ?thesis using q vinv_complete(3) [OF i h q] dev_move_rw by blast
  qed
  have wait: "\<exists>r. rw_wait t j c wr s' = Ok r" if "vpcs s' t = VWoken j c wr" for t j c wr using rw_wait_inv [OF i that] by blast
  have asleep: "b_disk (bufs s' c) \<and> distinct (offered s' @ finished s') \<and> j \<in> set (offered s' @ finished s') \<and> (\<exists>fs s2. vruns s' fs s2 \<and> Return c wr \<in> set fs)"
    if "vpcs s' t = VSleepBuf j c wr" for t j c wr
    using vinv_sleeper [OF i that] vinv_under_way [OF i that] request_can_return [OF i that] by blast
  show ?thesis
  proof (intro conjI)
    show "\<exists>r. virtio_disk_intr s' = Ok r \<and> finished r = [] \<and>
       (\<forall>t i c wr. vpcs s' t \<in> {VSleepBuf i c wr, VWoken i c wr} \<and> i \<in> set (finished s') \<longrightarrow> vpcs r t = VWoken i c wr \<and> \<not> b_disk (bufs r c))"
      using r wake by blast
  qed (use vinv_not_broken [OF i, of b] call start wait pend vinv_starved [OF i] asleep in blast)+
qed

text \<open>A process reads block 5 into buffer 3: it calls the driver, the device fetches and completes the request, the interrupt wakes the process and it returns.\<close>

definition demo_vst :: vst where
  "demo_vst = \<lparr>bufs = (\<lambda>_. \<lparr>b_valid = False, b_disk = False, b_dev = 1, b_blockno = 5, b_lock = initsleeplock, b_refcnt = 1, b_prev = 0, b_next = 0, b_data = (\<lambda>_. 0)\<rparr>),
     disk = (\<lambda>n _. of_nat n), dwrites = [], cur_pid = 1, vdesc = (\<lambda>_. no_desc), avail_ring = (\<lambda>_. 0), avail_idx = 0, used_ring = (\<lambda>_. 0), used_idx = 0, vfree = (\<lambda>_. True), seen_idx = 0,
     info_b = (\<lambda>_. None), info_status = (\<lambda>_. 0), vops = (\<lambda>_. \<lparr>rq_type = 0, rq_reserved = 0, rq_sector = 0\<rparr>), vpcs = (\<lambda>_. VIdle), dev_idx = 0, dev_pending = []\<rparr>"

theorem virtio_disk_correct_witness:
  "\<exists>s'. vruns demo_vst [Start 3 False, Quiet, Xfer 3 False, Quiet, Return 3 False] s' \<and> vphase_of 3 [Start 3 False, Quiet, Xfer 3 False, Quiet, Return 3 False] \<noteq> Broken \<and>
     b_data (bufs s' 3) = (\<lambda>_. 5) \<and> (\<exists>r. virtio_disk_intr s' = Ok r)"
proof -
  have f: "filter (vfree demo_vst) [0..<NUM] = 0 # 1 # 2 # [3..<8]" by (simp add: demo_vst_def NUM_def upt_rec)
  define s1 where "s1 = (rw_submit 3 False (0, 1, 2) (demo_vst\<lparr>vfree := (vfree demo_vst)(0 := False, 1 := False, 2 := False)\<rparr>))\<lparr>vpcs := (vpcs demo_vst)(9 := VSleepBuf 0 3 False)\<rparr>"
  define s2 where "s2 = dev_fetch s1"
  define s3 where "s3 = dev_complete 0 False 5 3 0 s2"
  define s4 where "s4 = (upd_buf 3 (\<lambda>x. x\<lparr>b_disk := False\<rparr>) s3)\<lparr>vpcs := wake_buf 3 \<circ> vpcs s3, seen_idx := seen_idx s3 + 1\<rparr>"
  note d = s1_def s2_def s3_def s4_def rw_submit_def Let_def upd_buf_def dev_fetch_def dev_complete_def dev_move_def demo_vst_def
  have 1: "vstep demo_vst (Start 3 False) s1"
    using rw_start_some [OF f, of 9 3 False] by (intro v_start [of _ 9]) (simp_all add: s1_def in_use_def demo_vst_def)
  have 2: "vstep s1 Quiet s2" unfolding s2_def by (rule v_fetch) (simp add: d)
  have "dev_request 0 s2 = Some (False, 5, 3, 0)"
    by (simp add: dev_request_def d NUM_def VRING_DESC_F_NEXT_def VRING_DESC_F_WRITE_def VIRTIO_BLK_T_OUT_def VIRTIO_BLK_T_IN_def)
  then have 3: "vstep s2 (Xfer 3 False) s3" unfolding s3_def by (rule v_complete [rotated]) (simp add: d NUM_def)
  have "virtio_disk_intr s3 = Ok s4"
    by (subst virtio_disk_intr.simps, subst virtio_disk_intr.simps) (simp add: d NUM_def)
  then have 4: "vstep s3 Quiet s4" by (rule v_intr)
  have p4: "vpcs s4 9 = VWoken 0 3 False" "\<not> b_disk (bufs s4 3)" by (simp_all add: d wake_buf_def)
  have init: "vst_init demo_vst" by (simp add: vst_init_def demo_vst_def)
  have r4: "vruns demo_vst [Start 3 False, Quiet, Xfer 3 False, Quiet] s4"
    using vruns_step [OF vruns_step [OF vruns_step [OF vruns_step [OF vruns_nil 1] 2] 3] 4] by simp
  obtain s5 where s5: "rw_wait 9 0 3 False s4 = Ok s5" "vpcs s5 9 = VIdle" using vinv_release [OF vruns_inv [OF r4 init] p4] by auto
  have "bufs s5 = bufs s4" using s5(1) p4(2) release_chain [OF v_tableD(1) [OF vruns_inv [OF r4 init, unfolded vinv_def, THEN conjunct1], of 9 0 3 False]] p4(1)
    by (auto simp: rw_wait_def)
  moreover have "b_data (bufs s4 3) = (\<lambda>_. 5)" by (simp add: d)
  moreover have r5: "vruns demo_vst [Start 3 False, Quiet, Xfer 3 False, Quiet, Return 3 False] s5"
    using vruns_step [OF r4 v_resume [OF p4(1) s5(1)]] s5(2) by simp
  moreover have "vphase_of 3 [Start 3 False, Quiet, Xfer 3 False, Quiet, Return 3 False] \<noteq> Broken"
    by (rule virtio_disk_correct [OF r5 init, THEN conjunct1])
  moreover have "\<exists>r. virtio_disk_intr s5 = Ok r" using virtio_disk_correct [OF r5 init, of 3, THEN conjunct2, THEN conjunct1] by auto
  ultimately show ?thesis by (intro exI [of _ s5]) simp
qed

end
