(* ===== verification/Ulib.thy ===== *)
theory Ulib
  imports Kstring
begin

section \<open>user/ulib.c\<close>

text \<open>
  The string and memory routines every user program is linked with. A user program's string is the list of the bytes from the pointer on, where the byte after the
  list is NUL; a NUL inside the list ends the string early, as it does in C. \<^verbatim>\<open>umemset\<close> and \<^verbatim>\<open>umemmove\<close> act on byte memory, like the kernel's routines of the same name.
  The standard input of a program is the list of the bytes it has not read yet.
\<close>

unbundle bit_operations_syntax

subsection \<open>Definitions\<close>

definition cat0 :: "u8 list \<Rightarrow> u8" where
  "cat0 s = (case s of [] \<Rightarrow> 0 | c # _ \<Rightarrow> c)"

fun strcpy :: "u8 list \<Rightarrow> u8 list" where
  "strcpy [] = [0]"
| "strcpy (c # t) = (if c = 0 then [0] else c # strcpy t)"

fun strcmp :: "u8 list \<Rightarrow> u8 list \<Rightarrow> int" where
  "strcmp (a # p) (b # q) = (if a \<noteq> 0 \<and> a = b then strcmp p q else uint a - uint b)"
| "strcmp p q = uint (cat0 p) - uint (cat0 q)"

fun ustrlen :: "u8 list \<Rightarrow> nat" where
  "ustrlen [] = 0"
| "ustrlen (c # s) = (if c = 0 then 0 else Suc (ustrlen s))"

fun strchr :: "u8 list \<Rightarrow> u8 \<Rightarrow> u8 list option" where
  "strchr [] c = None"
| "strchr (x # s) c = (if x = 0 then None else if x = c then Some (x # s) else strchr s c)"

definition umemset :: "memory \<Rightarrow> addr \<Rightarrow> int \<Rightarrow> u32 \<Rightarrow> memory" where
  "umemset m dst c n = memset_loop m dst (word_of_int c) 0 (unat n)"

definition umemmove :: "memory \<Rightarrow> addr \<Rightarrow> addr \<Rightarrow> int \<Rightarrow> memory" where
  "umemmove m dst src n =
     (if src > dst then copy_up m dst src (nat n)
      else copy_down m (dst + word_of_int n) (src + word_of_int n) (nat n))"

definition umemcmp :: "cptr \<Rightarrow> cptr \<Rightarrow> u32 \<Rightarrow> int" where
  "umemcmp s1 s2 n = memcmp_loop s1 s2 0 (unat n)"

definition umemcpy :: "memory \<Rightarrow> addr \<Rightarrow> addr \<Rightarrow> u32 \<Rightarrow> memory" where
  "umemcpy m dst src n = umemmove m dst src (sint n)"

text \<open>\<open>gets_loop k inp\<close>: the bytes stored by \<^verbatim>\<open>gets\<close> with room for \<open>k\<close> more, and the input left.\<close>

fun gets_loop :: "nat \<Rightarrow> u8 list \<Rightarrow> u8 list \<times> u8 list" where
  "gets_loop 0 inp = ([], inp)"
| "gets_loop (Suc k) [] = ([], [])"
| "gets_loop (Suc k) (c # inp) =
     (if c = 10 \<or> c = 13 then ([c], inp) else case gets_loop k inp of (l, r) \<Rightarrow> (c # l, r))"

definition gets :: "int \<Rightarrow> u8 list \<Rightarrow> u8 list \<times> u8 list" where
  "gets mx inp = gets_loop (nat (mx - 1)) inp"

fun atoi_loop :: "u32 \<Rightarrow> u8 list \<Rightarrow> u32" where
  "atoi_loop n [] = n"
| "atoi_loop n (c # s) = (if 48 \<le> c \<and> c \<le> 57 then atoi_loop (n * 10 + ucast c - 48) s else n)"

definition atoi :: "u8 list \<Rightarrow> u32" where
  "atoi s = atoi_loop 0 s"

subsection \<open>What they compute\<close>

lemma ustrlen_le: "ustrlen s \<le> length s"
  by (induction s rule: ustrlen.induct) auto

lemma ustrlen_takeWhile: "ustrlen s = length (takeWhile (\<lambda>c. c \<noteq> 0) s)"
  by (induction s rule: ustrlen.induct) auto

lemma strcpy_takeWhile: "strcpy s = takeWhile (\<lambda>c. c \<noteq> 0) s @ [0]"
  by (induction s rule: strcpy.induct) auto

lemma uint_inject8: "uint (a :: u8) = uint b \<longleftrightarrow> a = b" "uint (a :: u8) = 0 \<longleftrightarrow> a = 0"
  by (simp_all add: word_uint_eq_iff)

text \<open>\<^verbatim>\<open>strcmp\<close> is zero exactly on equal strings.\<close>

lemma strcmp_eq_0: "strcmp p q = 0 \<longleftrightarrow> takeWhile (\<lambda>c. c \<noteq> 0) p = takeWhile (\<lambda>c. c \<noteq> 0) q"
  by (induction p q rule: strcmp.induct) (auto simp: cat0_def uint_inject8 split: list.splits)

lemma strchr_None_iff: "c \<noteq> 0 \<Longrightarrow> strchr s c = None \<longleftrightarrow> c \<notin> set (takeWhile (\<lambda>x. x \<noteq> 0) s)"
  by (induction s) auto

lemma strchr_split: "0 \<notin> set s \<Longrightarrow> strchr s c = (if c \<in> set s then Some (dropWhile (\<lambda>x. x \<noteq> c) s) else None)"
  by (induction s) auto

text \<open>The user's \<^verbatim>\<open>memmove\<close> chooses its direction by a weaker test than the kernel's and moves the same bytes.\<close>

lemma umemmove_moved:
  assumes s: "unat src + n < 2 ^ 64" and d: "unat dst + n < 2 ^ 64"
  shows "umemmove m dst src (int n) = moved m dst src n"
proof (cases "src > dst")
  case True
  have "n \<le> unat (dst - src)"
  proof -
    have "unat (dst - src) = 2 ^ 64 + unat dst - unat src" using True by (simp add: unat_sub_if_size word_less_nat_alt word_size)
    then show ?thesis using s by simp
  qed
  then show ?thesis using True s by (simp add: umemmove_def copy_up_eq moved_def in_region_def)
next
  case False
  have "dst = src \<or> n \<le> unat (src - dst)"
  proof (cases "dst = src")
    case False
    then have "src < dst" using \<open>\<not> src > dst\<close> by simp
    then have "unat (src - dst) = 2 ^ 64 + unat src - unat dst" by (simp add: unat_sub_if_size word_less_nat_alt word_size)
    then show ?thesis using d by linarith
  qed simp
  then show ?thesis using False d by (simp add: umemmove_def copy_down_eq moved_def in_region_def)
qed

text \<open>A line read by \<^verbatim>\<open>gets\<close> and the input left make up the input, and a line break can only be its last byte.\<close>

lemma gets_loop_split: "gets_loop k inp = (l, r) \<Longrightarrow> inp = l @ r \<and> length l \<le> k \<and> 10 \<notin> set (butlast l) \<and> 13 \<notin> set (butlast l)"
  by (induction k inp arbitrary: l r rule: gets_loop.induct) (auto split: if_splits prod.splits)

text \<open>\<^verbatim>\<open>atoi\<close> gives the value of the leading digits modulo \<open>2 ^ 32\<close>.\<close>

definition digits_value :: "u8 list \<Rightarrow> nat" where
  "digits_value = foldl (\<lambda>n c. n * 10 + (unat c - 48)) 0"

lemma atoi_loop_foldl: "atoi_loop (of_nat n) s = of_nat (foldl (\<lambda>n c. n * 10 + (unat c - 48)) n (takeWhile (\<lambda>c. 48 \<le> c \<and> c \<le> 57) s))"
proof (induction s arbitrary: n)
  case (Cons c s)
  show ?case
  proof (cases "48 \<le> c \<and> c \<le> 57")
    case True
    then have c: "48 \<le> unat c" by (simp add: word_le_nat_alt)
    have "(ucast c :: u32) = of_nat (unat c)" by simp
    then have "of_nat n * 10 + ucast c - 48 = (of_nat (n * 10 + (unat c - 48)) :: u32)" using c by (simp add: of_nat_diff)
    then show ?thesis using True Cons [of "n * 10 + (unat c - 48)"] by (simp del: of_nat_add of_nat_mult add: add_diff_eq [symmetric])
  qed auto
qed simp

lemma atoi_value: "atoi s = of_nat (digits_value (takeWhile (\<lambda>c. 48 \<le> c \<and> c \<le> 57) s))"
  using atoi_loop_foldl [of 0 s] by (simp add: atoi_def digits_value_def)

end
