(* ===== verification/Grep.thy ===== *)
theory Grep
  imports Ulib "HOL-Library.Sublist"
begin

section \<open>user/grep.c\<close>

text \<open>
  The pattern matcher and the reading loop of \<^verbatim>\<open>grep\<close>, and what they compute: the matcher decides membership in the language its pattern denotes, and the loop prints
  exactly the lines of its input that match, however \<^verbatim>\<open>read\<close> cuts the input into pieces. A pattern and a line are lists of bytes without NUL. The bytes of the
  buffer \<^verbatim>\<open>buf\<close> below \<open>m\<close> are a list. \<^verbatim>\<open>read\<close> is a parameter: from the number of bytes asked for and the input not yet read it gives the bytes delivered
  and the input left.
\<close>

subsection \<open>Definitions\<close>

function matchhere :: "u8 list \<Rightarrow> u8 list \<Rightarrow> bool" and matchstar :: "u8 \<Rightarrow> u8 list \<Rightarrow> u8 list \<Rightarrow> bool" where
  "matchhere re tx =
     (case re of [] \<Rightarrow> True
      | c # re1 \<Rightarrow>
          if cat0 re1 = 42 then matchstar c (tl re1) tx
          else if c = 36 \<and> re1 = [] then tx = []
          else case tx of [] \<Rightarrow> False | x # tx1 \<Rightarrow> if c = 46 \<or> c = x then matchhere re1 tx1 else False)"
| "matchstar c re tx =
     (if matchhere re tx then True
      else case tx of [] \<Rightarrow> False | x # tx1 \<Rightarrow> if x = c \<or> c = 46 then matchstar c re tx1 else False)"
  by pat_completeness auto
termination
  by (relation "measures [\<lambda>p. case p of Inl (re, _) \<Rightarrow> length re | Inr (_, re, _) \<Rightarrow> length re,
        \<lambda>p. case p of Inl (_, tx) \<Rightarrow> length tx | Inr (_, _, tx) \<Rightarrow> length tx, \<lambda>p. case p of Inl _ \<Rightarrow> 0 | Inr _ \<Rightarrow> 1]") auto

fun match_from :: "u8 list \<Rightarrow> u8 list \<Rightarrow> bool" where
  "match_from re tx = (if matchhere re tx then True else case tx of [] \<Rightarrow> False | _ # tx1 \<Rightarrow> match_from re tx1)"

definition match :: "u8 list \<Rightarrow> u8 list \<Rightarrow> bool" where
  "match re tx = (if cat0 re = 94 then matchhere (tl re) tx else match_from re tx)"

text \<open>The inner loop of \<^verbatim>\<open>grep\<close>: the bytes written for the complete lines in the buffer, and the bytes after the last of them.\<close>

function grep_lines :: "u8 list \<Rightarrow> u8 list \<Rightarrow> u8 list \<times> u8 list" where
  "grep_lines pattern p =
     (case strchr p 10 of None \<Rightarrow> ([], p)
      | Some q \<Rightarrow>
          let line = take (length p - length q) p; (out, rest) = grep_lines pattern (tl q) in
          (if match pattern line then line @ [10] @ out else out, rest))"
  by pat_completeness auto

definition BUFSIZE :: nat where "BUFSIZE = 1024"

partial_function (option) grep :: "u8 list \<Rightarrow> (nat \<Rightarrow> u8 list \<Rightarrow> u8 list \<times> u8 list) \<Rightarrow> u8 list \<Rightarrow> u8 list \<Rightarrow> u8 list \<Rightarrow> (u8 list \<times> u8 list) option" where
  "grep pattern rd buf inp out =
     (case rd (BUFSIZE - length buf - 1) inp of (bs, inp1) \<Rightarrow>
        if bs = [] then Some (out, inp1)
        else case grep_lines pattern (buf @ bs) of (w, rest) \<Rightarrow> grep pattern rd rest inp1 (out @ w))"

termination grep_lines
proof (relation "measure (\<lambda>(_, p). length p)", simp_all)
  fix p q :: "u8 list"
  assume "strchr p 10 = Some q"
  then show "length q - Suc 0 < length p" by (induction p "10 :: u8" rule: strchr.induct) (auto split: if_splits)
qed

declare matchhere.simps [simp del] matchstar.simps [simp del] match_from.simps [simp del] grep_lines.simps [simp del]

text \<open>\<^verbatim>\<open>main\<close> over the files named by its arguments: what it writes to descriptors 1 and 2 and its exit status. \<open>opn\<close> gives the content of a file that can be opened.\<close>

primrec grep_files :: "u8 list \<Rightarrow> (nat \<Rightarrow> u8 list \<Rightarrow> u8 list \<times> u8 list) \<Rightarrow> (u8 list \<Rightarrow> u8 list option) \<Rightarrow> u8 list list \<Rightarrow> u8 list \<Rightarrow> (u8 list \<times> int) option" where
  "grep_files pattern rd opn [] out = Some (out, 0)"
| "grep_files pattern rd opn (f # fs) out =
     (case opn f of None \<Rightarrow> Some (out @ map (of_nat \<circ> of_char) ''grep: cannot open '' @ f @ [10], 1)
      | Some inp \<Rightarrow> Option.bind (grep pattern rd [] inp out) (\<lambda>(out1, _). grep_files pattern rd opn fs out1))"

definition grep_main :: "(nat \<Rightarrow> u8 list \<Rightarrow> u8 list \<times> u8 list) \<Rightarrow> (u8 list \<Rightarrow> u8 list option) \<Rightarrow> u8 list \<Rightarrow> u8 list list \<Rightarrow> (u8 list \<times> u8 list \<times> int) option" where
  "grep_main rd opn stdin argv =
     (if length argv \<le> 1 then Some ([], map (of_nat \<circ> of_char) ''usage: grep pattern [file ...]'' @ [10], 1)
      else if length argv \<le> 2 then Option.bind (grep (argv ! 1) rd [] stdin []) (\<lambda>(out, _). Some (out, [], 0))
      else Option.bind (grep_files (argv ! 1) rd opn (drop 2 argv) []) (\<lambda>(out, st). Some (out, [], st)))"

subsection \<open>The language of a pattern\<close>

text \<open>
  A pattern is a sequence of single bytes and starred bytes, where \<^verbatim>\<open>.\<close> stands for any byte, that may be anchored at its end by a final \<^verbatim>\<open>$\<close> and at its start by a
  leading \<^verbatim>\<open>^\<close>.
\<close>

datatype item = One u8 | Many u8

fun parse_re :: "u8 list \<Rightarrow> item list \<times> bool" where
  "parse_re [] = ([], False)"
| "parse_re [c] = (if c = 36 then ([], True) else ([One c], False))"
| "parse_re (c # d # re) = (if d = 42 then apfst ((#) (Many c)) (parse_re re) else apfst ((#) (One c)) (parse_re (d # re)))"

definition accepts :: "u8 \<Rightarrow> u8 \<Rightarrow> bool" where
  "accepts c x \<longleftrightarrow> c = 46 \<or> c = x"

primrec item_lang :: "item \<Rightarrow> u8 list set" where
  "item_lang (One c) = {[x] | x. accepts c x}"
| "item_lang (Many c) = {u. list_all (accepts c) u}"

primrec lang :: "item list \<Rightarrow> u8 list set" where
  "lang [] = {[]}"
| "lang (i # is) = {u @ v | u v. u \<in> item_lang i \<and> v \<in> lang is}"

definition hits :: "u8 list \<Rightarrow> u8 list \<Rightarrow> bool" where
  "hits re tx \<longleftrightarrow> (\<exists>u v. tx = u @ v \<and> u \<in> lang (fst (parse_re re)) \<and> (snd (parse_re re) \<longrightarrow> v = []))"

definition pattern_matches :: "u8 list \<Rightarrow> u8 list \<Rightarrow> bool" where
  "pattern_matches re tx \<longleftrightarrow> (case re of c # re1 \<Rightarrow> if c = 94 then hits re1 tx else \<exists>w t. tx = w @ t \<and> hits re t | [] \<Rightarrow> True)"

lemma split_Cons: "(\<exists>u v. x # t = u @ v \<and> P u v) \<longleftrightarrow> P [] (x # t) \<or> (\<exists>u v. t = u @ v \<and> P (x # u) v)"
  unfolding Cons_eq_append_conv by blast

lemma split_assoc:
  "(\<exists>u v. t = u @ v \<and> (\<exists>a b. u = a @ b \<and> Q a \<and> R b) \<and> S v) \<longleftrightarrow> (\<exists>a w. t = a @ w \<and> Q a \<and> (\<exists>b v. w = b @ v \<and> R b \<and> S v))"
proof
  assume "\<exists>u v. t = u @ v \<and> (\<exists>a b. u = a @ b \<and> Q a \<and> R b) \<and> S v"
  then obtain a b v where "t = a @ (b @ v)" "Q a" "R b" "S v" by auto
  then show "\<exists>a w. t = a @ w \<and> Q a \<and> (\<exists>b v. w = b @ v \<and> R b \<and> S v)" by blast
next
  assume "\<exists>a w. t = a @ w \<and> Q a \<and> (\<exists>b v. w = b @ v \<and> R b \<and> S v)"
  then obtain a b v where "t = (a @ b) @ v" "Q a" "R b" "S v" by auto
  then show "\<exists>u v. t = u @ v \<and> (\<exists>a b. u = a @ b \<and> Q a \<and> R b) \<and> S v" by blast
qed

lemma matchstar_iff: "matchstar c re tx \<longleftrightarrow> (\<exists>u v. tx = u @ v \<and> list_all (accepts c) u \<and> matchhere re v)"
proof (induction tx)
  case Nil
  then show ?case by (subst matchstar.simps) simp
next
  case (Cons x tx)
  have "matchstar c re (x # tx) \<longleftrightarrow> matchhere re (x # tx) \<or> accepts c x \<and> matchstar c re tx"
    by (subst matchstar.simps) (auto simp: accepts_def)
  also have "\<dots> \<longleftrightarrow> (\<exists>u v. x # tx = u @ v \<and> list_all (accepts c) u \<and> matchhere re v)"
    unfolding Cons.IH split_Cons by auto
  finally show ?case .
qed

lemma hits_Many: "hits (c # 42 # re) tx \<longleftrightarrow> (\<exists>u v. tx = u @ v \<and> list_all (accepts c) u \<and> hits re v)"
  using split_assoc [of tx "list_all (accepts c)" "\<lambda>b. b \<in> lang (fst (parse_re re))" "\<lambda>v. snd (parse_re re) \<longrightarrow> v = []"]
  by (simp add: hits_def)

lemma hits_One: "d \<noteq> 42 \<Longrightarrow> hits (c # d # re) tx \<longleftrightarrow> (\<exists>x tx1. tx = x # tx1 \<and> accepts c x \<and> hits (d # re) tx1)"
proof -
  assume d: "d \<noteq> 42"
  have "hits (c # d # re) tx \<longleftrightarrow> (\<exists>a w. tx = a @ w \<and> (\<exists>x. a = [x] \<and> accepts c x) \<and> hits (d # re) w)"
    using split_assoc [of tx "\<lambda>a. \<exists>x. a = [x] \<and> accepts c x" "\<lambda>b. b \<in> lang (fst (parse_re (d # re)))" "\<lambda>v. snd (parse_re (d # re)) \<longrightarrow> v = []"] d
    by (simp add: hits_def)
  also have "\<dots> \<longleftrightarrow> (\<exists>x tx1. tx = x # tx1 \<and> accepts c x \<and> hits (d # re) tx1)" by (metis append_Cons append_Nil)
  finally show ?thesis .
qed

lemma hits_last: "hits [c] tx \<longleftrightarrow> (if c = 36 then tx = [] else \<exists>x tx1. tx = x # tx1 \<and> accepts c x)"
proof -
  have "(\<exists>u. (\<exists>v. tx = u @ v) \<and> (\<exists>x. u = [x] \<and> accepts c x)) \<longleftrightarrow> (\<exists>x tx1. tx = x # tx1 \<and> accepts c x)" by (metis append_Cons append_Nil)
  then show ?thesis by (simp add: hits_def)
qed

lemma matchhere_hits: "matchhere re tx \<longleftrightarrow> hits re tx"
proof (induction re arbitrary: tx rule: parse_re.induct)
  case 1
  then show ?case by (subst matchhere.simps) (simp add: hits_def)
next
  case (2 c)
  then show ?case
    by (subst matchhere.simps) (auto simp: hits_last cat0_def accepts_def matchhere.simps [of "[]"] split: list.splits)
next
  case (3 c d re)
  show ?case
  proof (cases "d = 42")
    case True
    have "matchhere (c # d # re) tx \<longleftrightarrow> matchstar c re tx" using True by (subst matchhere.simps) (simp add: cat0_def)
    then show ?thesis using 3(1) True by (simp add: matchstar_iff hits_Many)
  next
    case False
    have "matchhere (c # d # re) tx \<longleftrightarrow> (\<exists>x tx1. tx = x # tx1 \<and> accepts c x \<and> matchhere (d # re) tx1)"
      using False by (subst matchhere.simps) (auto simp: cat0_def accepts_def split: list.splits)
    then show ?thesis using 3(2) False by (simp add: hits_One)
  qed
qed

lemma match_from_iff: "match_from re tx \<longleftrightarrow> (\<exists>w t. tx = w @ t \<and> matchhere re t)"
proof (induction tx)
  case Nil
  then show ?case by (subst match_from.simps) simp
next
  case (Cons x tx)
  have "match_from re (x # tx) \<longleftrightarrow> matchhere re (x # tx) \<or> match_from re tx" by (subst match_from.simps) simp
  then show ?case unfolding Cons.IH by (auto simp: Cons_eq_append_conv)
qed

lemma match_pattern_matches: "match re tx \<longleftrightarrow> pattern_matches re tx"
  by (auto simp: match_def pattern_matches_def cat0_def match_from_iff matchhere_hits hits_def split: list.splits)

subsection \<open>The lines that are printed\<close>

text \<open>The complete lines of an input, without their newlines, and the bytes after the last newline.\<close>

function full_lines :: "u8 list \<Rightarrow> u8 list list" where
  "full_lines s = (if 10 \<in> set s then takeWhile (\<lambda>c. c \<noteq> 10) s # full_lines (tl (dropWhile (\<lambda>c. c \<noteq> 10) s)) else [])"
  by pat_completeness auto
termination
proof (relation "measure length", simp_all)
  fix s :: "u8 list"
  assume "10 \<in> set s"
  then have "dropWhile (\<lambda>c. c \<noteq> 10) s \<noteq> []" by auto
  moreover have "length (dropWhile (\<lambda>c. c \<noteq> 10) s) \<le> length s" by (rule length_dropWhile_le)
  ultimately show "length (dropWhile (\<lambda>c. c \<noteq> 10) s) - Suc 0 < length s" by (cases "dropWhile (\<lambda>c. c \<noteq> 10) s") auto
qed

declare full_lines.simps [simp del]

definition unfinished :: "u8 list \<Rightarrow> u8 list" where
  "unfinished s = rev (takeWhile (\<lambda>c. c \<noteq> 10) (rev s))"

lemma while_no_nl [simp]: "10 \<notin> set l \<Longrightarrow> takeWhile (\<lambda>c. c \<noteq> (10 :: u8)) l = l"
    "10 \<notin> set l \<Longrightarrow> takeWhile (\<lambda>c. c \<noteq> (10 :: u8)) (l @ 10 # s) = l" "10 \<notin> set l \<Longrightarrow> dropWhile (\<lambda>c. c \<noteq> (10 :: u8)) (l @ 10 # s) = 10 # s"
  by (induction l) auto

lemma full_lines_none [simp]: "10 \<notin> set s \<Longrightarrow> full_lines s = []"
  by (subst full_lines.simps) simp

lemma full_lines_line [simp]: "10 \<notin> set l \<Longrightarrow> full_lines (l @ 10 # s) = l # full_lines s"
  by (subst full_lines.simps) simp

lemma unfinished_none [simp]: "10 \<notin> set s \<Longrightarrow> unfinished s = s"
  by (simp add: unfinished_def)

lemma unfinished_line [simp]: "unfinished (l @ 10 # s) = unfinished s"
  by (cases "10 \<in> set s") (simp_all add: unfinished_def takeWhile_append takeWhile_eq_all_conv [THEN iffD2])

lemma unfinished_props: "10 \<notin> set (unfinished s) \<and> length (unfinished s) \<le> length s \<and> set (unfinished s) \<subseteq> set s"
proof -
  have "x \<in> set s \<and> x \<noteq> 10" if "x \<in> set (unfinished s)" for x
    using set_takeWhileD [of x "\<lambda>c. c \<noteq> 10" "rev s"] that by (simp add: unfinished_def)
  moreover have "length (unfinished s) \<le> length s" using length_takeWhile_le [of "\<lambda>c. c \<noteq> 10" "rev s"] by (simp add: unfinished_def)
  ultimately show ?thesis by blast
qed

text \<open>Induction over the lines of an input.\<close>

lemma line_induct [case_names none line]:
  assumes "\<And>s. 10 \<notin> set s \<Longrightarrow> P s" "\<And>l s. 10 \<notin> set l \<Longrightarrow> P s \<Longrightarrow> P (l @ (10 :: u8) # s)"
  shows "P s"
proof (induction s rule: length_induct)
  case (1 s)
  show ?case
  proof (cases "10 \<in> set s")
    case True
    then obtain l t where "s = l @ 10 # t" "10 \<notin> set l" by (metis split_list_first)
    then show ?thesis using 1 assms(2) by simp
  qed (rule assms(1))
qed

lemma full_lines_append: "full_lines (s @ t) = full_lines s @ full_lines (unfinished s @ t)"
  by (induction s rule: line_induct) simp_all

definition printed :: "(u8 list \<Rightarrow> bool) \<Rightarrow> u8 list list \<Rightarrow> u8 list" where
  "printed sel ls = concat (map (\<lambda>l. l @ [10]) (filter sel ls))"

lemma printed_simps [simp]: "printed sel [] = []" "printed sel (l # ls) = (if sel l then l @ [10] else []) @ printed sel ls"
  "printed sel (ls @ ms) = printed sel ls @ printed sel ms"
  by (simp_all add: printed_def)

lemma grep_lines_correct: "0 \<notin> set p \<Longrightarrow> grep_lines pattern p = (printed (match pattern) (full_lines p), unfinished p)"
proof (induction p rule: line_induct)
  case (none p)
  then show ?case by (subst grep_lines.simps) (simp add: strchr_split)
next
  case (line l p)
  then have "strchr (l @ 10 # p) 10 = Some (10 # p)" by (auto simp: strchr_split dropWhile_append)
  then show ?case using line by (subst grep_lines.simps) simp
qed

text \<open>The contract of \<^verbatim>\<open>read\<close>: it delivers bytes from the front of the input, no more than asked for, and none only when none were asked for or the input is at its end.\<close>

definition reader :: "(nat \<Rightarrow> u8 list \<Rightarrow> u8 list \<times> u8 list) \<Rightarrow> bool" where
  "reader rd \<longleftrightarrow> (\<forall>k inp. fst (rd k inp) @ snd (rd k inp) = inp \<and> length (fst (rd k inp)) \<le> k \<and> (fst (rd k inp) = [] \<longrightarrow> k = 0 \<or> inp = []))"

lemma grep_correct:
  assumes rd: "reader rd"
  shows "10 \<notin> set buf \<Longrightarrow> 0 \<notin> set (buf @ inp) \<Longrightarrow> length buf < BUFSIZE \<Longrightarrow> \<forall>l \<in> set (full_lines (buf @ inp)). length l < BUFSIZE - 1 \<Longrightarrow>
    \<exists>rest. grep pattern rd buf inp out = Some (out @ printed (match pattern) (full_lines (buf @ inp)), rest)"
proof (induction "length inp" arbitrary: inp buf out rule: less_induct)
  case less
  obtain bs r where b: "rd (BUFSIZE - length buf - 1) inp = (bs, r)" by (cases "rd (BUFSIZE - length buf - 1) inp")
  then have inp: "inp = bs @ r" and len: "length bs \<le> BUFSIZE - length buf - 1" and nil: "bs = [] \<Longrightarrow> BUFSIZE - length buf - 1 = 0 \<or> inp = []"
    using rd unfolding reader_def by (metis fst_conv snd_conv)+
  show ?case
  proof (cases "bs = []")
    case True
    have "full_lines (buf @ inp) = []"
    proof (cases "10 \<in> set inp")
      case nl: True
      then obtain l t where l: "inp = l @ 10 # t" "10 \<notin> set l" by (metis split_list_first)
      then have "length (buf @ l) < BUFSIZE - 1" using less.prems(1,4) full_lines_line [of "buf @ l" t] by simp
      then show ?thesis using nil [OF True] nl by auto
    qed (use less.prems(1) in simp)
    then show ?thesis using b True by (subst grep.simps) simp
  next
    case False
    let ?p = "buf @ bs"
    have e: "full_lines (buf @ inp) = full_lines ?p @ full_lines (unfinished ?p @ r)" using full_lines_append [of ?p r] inp by simp
    have "length r < length inp" using False inp by simp
    moreover have "0 \<notin> set (unfinished ?p @ r)" using less.prems(2) inp unfinished_props [of ?p] by auto
    moreover have "length (unfinished ?p) < BUFSIZE" using unfinished_props [of ?p, THEN conjunct2, THEN conjunct1] len less.prems(3) unfolding length_append by linarith
    ultimately obtain rest where "grep pattern rd (unfinished ?p) r (out @ printed (match pattern) (full_lines ?p)) =
        Some ((out @ printed (match pattern) (full_lines ?p)) @ printed (match pattern) (full_lines (unfinished ?p @ r)), rest)"
      using less.hyps [of r "unfinished ?p" "out @ printed (match pattern) (full_lines ?p)"] less.prems(4) unfinished_props [of ?p] unfolding e by auto
    then show ?thesis using b False less.prems(2) inp grep_lines_correct [of ?p pattern] e by (subst grep.simps) simp
  qed
qed

text \<open>
  C9: \<^verbatim>\<open>grep\<close> terminates and prints exactly the matching lines. Whatever pieces \<^verbatim>\<open>read\<close> delivers the input in, when no line is longer than the buffer holds and the input
  has no NUL, the output is the sequence of those complete lines that have a part in the language of the pattern: at the start of the line under \<^verbatim>\<open>^\<close>, at its end under a
  final \<^verbatim>\<open>$\<close>. Bytes after the last newline are never printed.
\<close>

theorem grep_prints_matching_lines:
  assumes "reader rd" "0 \<notin> set inp" "\<forall>l \<in> set (full_lines inp). length l < BUFSIZE - 1"
  shows "\<exists>rest. grep pattern rd [] inp [] = Some (printed (pattern_matches pattern) (full_lines inp), rest)"
proof -
  have "match pattern = pattern_matches pattern" using match_pattern_matches by blast
  then show ?thesis using grep_correct [OF assms(1), of "[]" inp pattern "[]"] assms(2,3) by (simp add: BUFSIZE_def)
qed

text \<open>A reader that delivers at most three bytes at a time.\<close>

definition short_read :: "nat \<Rightarrow> u8 list \<Rightarrow> u8 list \<times> u8 list" where
  "short_read k inp = (take (min k 3) inp, drop (min k 3) inp)"

theorem grep_prints_matching_lines_witness:
  "\<exists>rest. grep [94, 97, 46, 42, 98, 36] short_read [] [97, 120, 98, 10, 99, 98, 10, 97, 98] [] = Some ([97, 120, 98, 10], rest)"
proof -
  have r: "reader short_read" by (auto simp: reader_def short_read_def)
  have l: "full_lines [97, 120, 98, 10, 99, 98, 10, 97, 98] = [[97, 120, 98], [99, 98]]" by (simp add: full_lines.simps)
  have m: "match [94, 97, 46, 42, 98, 36] [97, 120, 98]" "\<not> match [94, 97, 46, 42, 98, 36] [99, 98]"
    by (simp_all add: match_def matchhere.simps matchstar.simps cat0_def)
  show ?thesis using grep_prints_matching_lines [OF r, of "[97, 120, 98, 10, 99, 98, 10, 97, 98]" "[94, 97, 46, 42, 98, 36]"] m
    by (simp add: l BUFSIZE_def match_pattern_matches)
qed

end
