(* ===== verification/Sh.thy ===== *)
theory Sh
  imports Ulib
begin

section \<open>user/sh.c: the command parser\<close>

text \<open>
  The recursive-descent parser of the shell. The buffer is the list of the bytes of the command line up to its NUL, a \<^verbatim>\<open>char *\<close> into it is an index, and the byte at the end is
  NUL. The parse tree has the source's constructors; a word is the pair of indices (\<^verbatim>\<open>q\<close>, \<^verbatim>\<open>eq\<close>) where it starts and ends, and becomes a string when \<^verbatim>\<open>nulterminate\<close> has
  written a NUL at its end. A call of the shell's \<^verbatim>\<open>panic\<close> is the outcome \<open>Syntax\<close> with its message. The mutual recursion of the four parsers counts its depth down from a fuel
  that \<open>parsecmd\<close> computes from the length of the line; it is proved to be enough for every line.
\<close>

unbundle bit_operations_syntax

subsection \<open>Definitions\<close>

definition MAXARGS :: nat where "MAXARGS = 10"

datatype 'w cmd =
    EXEC "'w list"
  | REDIR "'w cmd" 'w u32 nat
  | PIPE "'w cmd" "'w cmd"
  | LIST "'w cmd" "'w cmd"
  | BACK "'w cmd"

type_synonym word_at = "nat \<times> nat"

datatype 'a parsed = Parsed 'a | Syntax string | NoFuel

primrec pbind :: "'a parsed \<Rightarrow> ('a \<Rightarrow> 'b parsed) \<Rightarrow> 'b parsed" where
  "pbind (Parsed x) f = f x"
| "pbind (Syntax msg) f = Syntax msg"
| "pbind NoFuel f = NoFuel"

definition whitespace :: "u8 list" where "whitespace = [32, 9, 13, 10, 11]"

definition symbols :: "u8 list" where "symbols = [60, 124, 62, 38, 59, 40, 41]"

definition isws :: "u8 \<Rightarrow> bool" where
  "isws c \<longleftrightarrow> strchr whitespace c \<noteq> None"

definition issym :: "u8 \<Rightarrow> bool" where
  "issym c \<longleftrightarrow> strchr symbols c \<noteq> None"

definition byte_at :: "u8 list \<Rightarrow> nat \<Rightarrow> u8" where
  "byte_at b s = (if s < length b then b ! s else 0)"

function skip_ws :: "u8 list \<Rightarrow> nat \<Rightarrow> nat" where
  "skip_ws b s = (if s < length b \<and> isws (byte_at b s) then skip_ws b (Suc s) else s)"
  by pat_completeness auto
termination by (relation "measure (\<lambda>(b, s). length b - s)") auto

function skip_word :: "u8 list \<Rightarrow> nat \<Rightarrow> nat" where
  "skip_word b s = (if s < length b \<and> \<not> isws (byte_at b s) \<and> \<not> issym (byte_at b s) then skip_word b (Suc s) else s)"
  by pat_completeness auto
termination by (relation "measure (\<lambda>(b, s). length b - s)") auto

declare skip_ws.simps [simp del] skip_word.simps [simp del]

text \<open>The token, where it starts and ends, and where the next one starts.\<close>

definition gettoken :: "u8 list \<Rightarrow> nat \<Rightarrow> u8 \<times> nat \<times> nat \<times> nat" where
  "gettoken b s =
     (let q = skip_ws b s; c = byte_at b q;
          (ret, eq) =
            (if c = 0 then (c, q)
             else if c \<in> {124, 40, 41, 59, 38, 60} then (c, q + 1)
             else if c = 62 then (if byte_at b (q + 1) = 62 then (43, q + 2) else (c, q + 1))
             else (97, skip_word b q)) in
      (ret, q, eq, skip_ws b eq))"

definition after_token :: "u8 list \<Rightarrow> nat \<Rightarrow> nat" where
  "after_token b s = snd (snd (snd (gettoken b s)))"

definition peek :: "u8 list \<Rightarrow> nat \<Rightarrow> u8 list \<Rightarrow> nat \<times> bool" where
  "peek b s toks = (let s1 = skip_ws b s in (s1, byte_at b s1 \<noteq> 0 \<and> strchr toks (byte_at b s1) \<noteq> None))"

definition redir_mode :: "u8 \<Rightarrow> u32 \<times> nat" where
  "redir_mode tok = (if tok = 60 then (O_RDONLY, 0) else if tok = 62 then (O_WRONLY OR O_CREATE OR O_TRUNC, 1) else (O_WRONLY OR O_CREATE, 1))"

text \<open>\<^verbatim>\<open>cmd->argv[argc] = q\<close> through the pointer to the command inside its redirections.\<close>

primrec add_arg :: "'w \<Rightarrow> 'w cmd \<Rightarrow> 'w cmd" where
  "add_arg w (EXEC ws) = EXEC (ws @ [w])"
| "add_arg w (REDIR c f mode fd) = REDIR (add_arg w c) f mode fd"
| "add_arg w (PIPE l r) = PIPE l r"
| "add_arg w (LIST l r) = LIST l r"
| "add_arg w (BACK c) = BACK c"

lemma skip_ws_ge: "s \<le> skip_ws b s"
proof (induction b s rule: skip_ws.induct)
  case (1 b s)
  then show ?case by (subst skip_ws.simps) auto
qed

lemma skip_word_ge: "s \<le> skip_word b s"
proof (induction b s rule: skip_word.induct)
  case (1 b s)
  then show ?case by (subst skip_word.simps) auto
qed

lemma issym_iff: "issym c \<longleftrightarrow> c \<in> {60, 124, 62, 38, 59, 40, 41}"
  by (auto simp: issym_def symbols_def split: if_splits)

lemma isws_iff: "isws c \<longleftrightarrow> c \<in> {32, 9, 13, 10, 11}"
  by (auto simp: isws_def whitespace_def split: if_splits)

lemma skip_ws_stop: "\<not> isws (byte_at b (skip_ws b s))"
proof (induction b s rule: skip_ws.induct)
  case (1 b s)
  then show ?case by (subst skip_ws.simps) (auto simp: byte_at_def isws_iff)
qed

lemma skip_ws_idem [simp]: "skip_ws b (skip_ws b s) = skip_ws b s"
  using skip_ws_stop [of b s] by (subst skip_ws.simps) simp

lemma gettoken_shape:
  assumes "gettoken b s = (t, q, eq, s')"
  shows "q = skip_ws b s" "q \<le> eq" "s' = skip_ws b eq" "byte_at b q \<noteq> 0 \<Longrightarrow> q < eq"
proof -
  show q: "q = skip_ws b s" and "s' = skip_ws b eq" using assms by (auto simp: gettoken_def Let_def split: prod.splits)
  have "q < skip_word b q" if "byte_at b q \<noteq> 0" "\<not> issym (byte_at b q)"
  proof -
    have "q < length b" using that(1) by (auto simp: byte_at_def split: if_splits)
    then show ?thesis using that skip_ws_stop [of b s] skip_word_ge [of "Suc q" b] q by (subst skip_word.simps) simp
  qed
  then show "q \<le> eq" "byte_at b q \<noteq> 0 \<Longrightarrow> q < eq"
    using assms unfolding gettoken_def Let_def q [symmetric] by (auto simp: issym_iff split: if_splits)
qed

lemma after_token_ge: "gettoken b s = (t, q, eq, s') \<Longrightarrow> s \<le> s'"
  using gettoken_shape [of b s t q eq s'] skip_ws_ge [of s b] skip_ws_ge [of eq b] by simp

text \<open>A token that is there is consumed: the fact behind the termination of the loops below.\<close>

lemma token_consumed: "peek b s toks = (s1, True) \<Longrightarrow> gettoken b s1 = (t, q, eq, s2) \<Longrightarrow> s < s2 \<and> s < length b"
proof -
  assume p: "peek b s toks = (s1, True)" and g: "gettoken b s1 = (t, q, eq, s2)"
  have s1: "s1 = skip_ws b s" "byte_at b s1 \<noteq> 0" using p by (auto simp: peek_def Let_def)
  then have "q = s1" "s1 < length b" using gettoken_shape(1) [OF g] by (auto simp: byte_at_def split: if_splits)
  then show ?thesis using gettoken_shape(3,4) [OF g] skip_ws_ge [of s b] skip_ws_ge [of eq b] s1 by simp
qed

lemma redir_consumed:
  "(s1, True) = peek b s toks \<Longrightarrow> (t, q, eq, s2) = gettoken b s1 \<Longrightarrow> (t2, q2, eq2, s3) = gettoken b s2 \<Longrightarrow> length b - s3 < length b - s"
  using token_consumed [of b s toks s1 t q eq s2] after_token_ge [of b s2 t2 q2 eq2 s3] by auto

function parseredirs :: "word_at cmd \<Rightarrow> u8 list \<Rightarrow> nat \<Rightarrow> (word_at cmd \<times> nat) parsed" where
  "parseredirs cmd b s =
     (case peek b s [60, 62] of (s1, more) \<Rightarrow>
        if more then
          case gettoken b s1 of (tok, _, _, s2) \<Rightarrow>
          case gettoken b s2 of (t, q, eq, s3) \<Rightarrow>
            if t \<noteq> 97 then Syntax ''missing file for redirection''
            else case redir_mode tok of (mode, fd) \<Rightarrow> parseredirs (REDIR cmd (q, eq) mode fd) b s3
        else Parsed (cmd, s1))"
  by pat_completeness auto
termination
  by (relation "measure (\<lambda>(_, b, s). length b - s)") (auto intro: redir_consumed)

lemma back_consumed: "(s1, True) = peek b s toks \<Longrightarrow> length b - after_token b s1 < length b - s"
  using token_consumed [of b s toks s1] by (cases "gettoken b s1") (auto simp: after_token_def)

function parse_back :: "word_at cmd \<Rightarrow> u8 list \<Rightarrow> nat \<Rightarrow> word_at cmd \<times> nat" where
  "parse_back cmd b s =
     (case peek b s [38] of (s1, more) \<Rightarrow> if more then parse_back (BACK cmd) b (after_token b s1) else (cmd, s1))"
  by pat_completeness auto
termination
  by (relation "measure (\<lambda>(_, b, s). length b - s)") (auto intro: back_consumed)

function parse_args :: "nat \<Rightarrow> word_at cmd \<Rightarrow> u8 list \<Rightarrow> nat \<Rightarrow> (word_at cmd \<times> nat) parsed" where
  "parse_args argc ret b s =
     (case peek b s [124, 41, 38, 59] of (s1, stop) \<Rightarrow>
        if stop then Parsed (ret, s1)
        else case gettoken b s1 of (tok, q, eq, s2) \<Rightarrow>
          if tok = 0 then Parsed (ret, s2)
          else if tok \<noteq> 97 then Syntax ''syntax''
          else if argc + 1 \<ge> MAXARGS then Syntax ''too many args''
          else pbind (parseredirs (add_arg (q, eq) ret) b s2) (\<lambda>r. parse_args (argc + 1) (fst r) b (snd r)))"
  by pat_completeness auto
termination by (relation "measure (\<lambda>(argc, _). MAXARGS - argc)") auto

declare parseredirs.simps [simp del] parse_back.simps [simp del] parse_args.simps [simp del]

fun parseline :: "nat \<Rightarrow> u8 list \<Rightarrow> nat \<Rightarrow> (word_at cmd \<times> nat) parsed"
  and parsepipe :: "nat \<Rightarrow> u8 list \<Rightarrow> nat \<Rightarrow> (word_at cmd \<times> nat) parsed"
  and parseexec :: "nat \<Rightarrow> u8 list \<Rightarrow> nat \<Rightarrow> (word_at cmd \<times> nat) parsed"
  and parseblock :: "nat \<Rightarrow> u8 list \<Rightarrow> nat \<Rightarrow> (word_at cmd \<times> nat) parsed" where
  "parseline 0 b s = NoFuel"
| "parseline (Suc n) b s =
     pbind (parsepipe n b s) (\<lambda>(cmd, s1).
       case parse_back cmd b s1 of (cmd2, s2) \<Rightarrow>
       case peek b s2 [59] of (s3, more) \<Rightarrow>
         if more then pbind (parseline n b (after_token b s3)) (\<lambda>(right, s4). Parsed (LIST cmd2 right, s4))
         else Parsed (cmd2, s3))"
| "parsepipe 0 b s = NoFuel"
| "parsepipe (Suc n) b s =
     pbind (parseexec n b s) (\<lambda>(cmd, s1).
       case peek b s1 [124] of (s2, more) \<Rightarrow>
         if more then pbind (parsepipe n b (after_token b s2)) (\<lambda>(right, s3). Parsed (PIPE cmd right, s3))
         else Parsed (cmd, s2))"
| "parseexec 0 b s = NoFuel"
| "parseexec (Suc n) b s =
     (case peek b s [40] of (s1, block) \<Rightarrow>
        if block then parseblock n b s1
        else pbind (parseredirs (EXEC []) b s1) (\<lambda>(ret, s2). parse_args 0 ret b s2))"
| "parseblock 0 b s = NoFuel"
| "parseblock (Suc n) b s =
     (case peek b s [40] of (s1, opn) \<Rightarrow>
        if \<not> opn then Syntax ''parseblock''
        else pbind (parseline n b (after_token b s1)) (\<lambda>(cmd, s2).
          case peek b s2 [41] of (s3, clos) \<Rightarrow>
            if \<not> clos then Syntax ''syntax - missing )''
            else parseredirs cmd b (after_token b s3)))"

primrec nulterminate :: "word_at cmd \<Rightarrow> u8 list \<Rightarrow> u8 list" where
  "nulterminate (EXEC ws) b = fold (\<lambda>w b. b[snd w := 0]) ws b"
| "nulterminate (REDIR c f mode fd) b = (nulterminate c b)[snd f := 0]"
| "nulterminate (PIPE l r) b = nulterminate r (nulterminate l b)"
| "nulterminate (LIST l r) b = nulterminate r (nulterminate l b)"
| "nulterminate (BACK c) b = nulterminate c b"

definition parsecmd :: "u8 list \<Rightarrow> (word_at cmd \<times> u8 list) parsed" where
  "parsecmd b =
     pbind (parseline (4 * length b + 4) b 0) (\<lambda>(cmd, s).
       if fst (peek b s []) \<noteq> length b then Syntax ''syntax'' else Parsed (cmd, nulterminate cmd b))"

subsection \<open>Progress of the tokeniser\<close>

definition plain :: "u8 \<Rightarrow> bool" where
  "plain c \<longleftrightarrow> \<not> isws c \<and> \<not> issym c"

definition word_ok :: "u8 list \<Rightarrow> word_at \<Rightarrow> bool" where
  "word_ok b w = (case w of (q, eq) \<Rightarrow> q < eq \<and> eq \<le> length b \<and> (\<forall>i. q \<le> i \<and> i < eq \<longrightarrow> plain (b ! i)) \<and> (eq < length b \<longrightarrow> \<not> plain (b ! eq)))"

lemma chars [simp]: "isws 0 = False" "issym 0 = False" "plain 0"
  by (simp_all add: isws_def issym_def plain_def whitespace_def symbols_def)

lemma skip_ws_range: "s \<le> length b \<Longrightarrow> s \<le> skip_ws b s \<and> skip_ws b s \<le> length b \<and> \<not> isws (byte_at b (skip_ws b s))"
proof (induction b s rule: skip_ws.induct)
  case (1 b s)
  then show ?case by (subst (1 2 3) skip_ws.simps) (auto simp: byte_at_def)
qed

lemma skip_word_range:
  "s \<le> length b \<Longrightarrow> s \<le> skip_word b s \<and> skip_word b s \<le> length b \<and> (\<forall>i. s \<le> i \<and> i < skip_word b s \<longrightarrow> plain (b ! i)) \<and>
     (skip_word b s < length b \<longrightarrow> \<not> plain (b ! skip_word b s))"
proof (induction b s rule: skip_word.induct)
  case (1 b s)
  show ?case
  proof (cases "s < length b \<and> \<not> isws (byte_at b s) \<and> \<not> issym (byte_at b s)")
    case True
    then have e: "skip_word b s = skip_word b (Suc s)" by (subst skip_word.simps) simp
    have "plain (b ! s)" using True by (simp add: plain_def byte_at_def split: if_splits)
    moreover have "plain (b ! i)" if "Suc s \<le> i" "i < skip_word b (Suc s)" for i using 1(1) [OF True] True that by simp
    ultimately have "plain (b ! i)" if "s \<le> i" "i < skip_word b (Suc s)" for i using that by (cases "i = s") simp_all
    then show ?thesis using 1(1) [OF True] True unfolding e by simp
  next
    case False
    then have "skip_word b s = s" by (subst skip_word.simps) auto
    then show ?thesis using False 1(2) by (auto simp: byte_at_def plain_def)
  qed
qed

lemma gettoken_range:
  assumes "s \<le> length b" "0 \<notin> set b" "gettoken b s = (t, q, eq, s')"
  shows "s \<le> q \<and> q \<le> eq \<and> eq \<le> s' \<and> s' \<le> length b \<and> (t = 0 \<longleftrightarrow> q = length b) \<and> (t \<noteq> 0 \<longrightarrow> q < eq) \<and> (t = 97 \<longrightarrow> word_ok b (q, eq)) \<and>
    q = skip_ws b s \<and> (t = 62 \<or> t = 43 \<longleftrightarrow> byte_at b q = 62) \<and> (t = 60 \<longleftrightarrow> byte_at b q = 60)"
proof -
  have q: "q = skip_ws b s" using assms(3) by (auto simp: gettoken_def Let_def split: prod.splits)
  have r: "s \<le> q" "q \<le> length b" "\<not> isws (byte_at b q)" using skip_ws_range [OF assms(1)] q by auto
  have z: "byte_at b q = 0 \<longleftrightarrow> q = length b" using assms(2) r(2) by (auto simp: byte_at_def in_set_conv_nth split: if_splits)
  have z2: "byte_at b (q + 1) = 62 \<Longrightarrow> q + 2 \<le> length b" by (auto simp: byte_at_def split: if_splits)
  note w = skip_word_range [OF r(2)]
  have lt: "q < skip_word b q" if "byte_at b q \<noteq> 0" "\<not> issym (byte_at b q)"
  proof -
    have "skip_word b q = skip_word b (Suc q)" "Suc q \<le> length b" using that r z by (subst skip_word.simps, auto)
    then show ?thesis using skip_word_range [of "Suc q" b] by simp
  qed
  have s': "s' = skip_ws b eq" using assms(3) by (auto simp: gettoken_def Let_def split: prod.splits)
  have core: "q \<le> eq \<and> eq \<le> length b \<and> (t = 0 \<longleftrightarrow> q = length b) \<and> (t \<noteq> 0 \<longrightarrow> q < eq) \<and> (t = 97 \<longrightarrow> word_ok b (q, eq)) \<and>
     (t = 62 \<or> t = 43 \<longleftrightarrow> byte_at b q = 62) \<and> (t = 60 \<longleftrightarrow> byte_at b q = 60)"
    using assms(3) w z z2 lt r(2) unfolding gettoken_def Let_def q [symmetric] word_ok_def
    by (auto simp: issym_iff split: if_splits)
  then show ?thesis using skip_ws_range [of eq b] r s' q by auto
qed

subsection \<open>The parser returns, with well-formed words\<close>

definition good :: "u8 list \<Rightarrow> nat \<Rightarrow> (word_at cmd \<times> nat) parsed \<Rightarrow> bool" where
  "good b s r = (case r of Parsed (c, s') \<Rightarrow> s \<le> s' \<and> s' \<le> length b \<and> (\<forall>w \<in> set_cmd c. word_ok b w) | Syntax _ \<Rightarrow> True | NoFuel \<Rightarrow> False)"

lemma good_simps [simp]: "good b s (Parsed (c, s')) \<longleftrightarrow> s \<le> s' \<and> s' \<le> length b \<and> (\<forall>w \<in> set_cmd c. word_ok b w)" "good b s (Syntax msg)"
  by (simp_all add: good_def)

lemma good_mono: "good b s r \<Longrightarrow> t \<le> s \<Longrightarrow> good b t r"
  by (auto simp: good_def split: parsed.splits)

lemma good_bind:
  "good b s r \<Longrightarrow> (\<And>c s'. s \<le> s' \<Longrightarrow> s' \<le> length b \<Longrightarrow> \<forall>w \<in> set_cmd c. word_ok b w \<Longrightarrow> good b s' (f (c, s'))) \<Longrightarrow> good b s (pbind r f)"
proof (cases r)
  case (Parsed x)
  assume "good b s r" "\<And>c s'. s \<le> s' \<Longrightarrow> s' \<le> length b \<Longrightarrow> \<forall>w \<in> set_cmd c. word_ok b w \<Longrightarrow> good b s' (f (c, s'))"
  then show ?thesis using Parsed good_mono [of b "snd x" "f x" s] by (cases x) simp
qed (simp_all add: good_def)

lemma peek_range:
  assumes "s \<le> length b" "0 \<notin> set b" "peek b s toks = (s1, r)"
  shows "s \<le> s1 \<and> s1 \<le> length b" "r \<Longrightarrow> s1 < after_token b s1 \<and> after_token b s1 \<le> length b"
proof -
  show s1: "s \<le> s1 \<and> s1 \<le> length b" using assms skip_ws_range [of s b] by (auto simp: peek_def Let_def)
  assume r
  obtain t q eq s2 where g: "gettoken b s1 = (t, q, eq, s2)" by (cases "gettoken b s1")
  have "s1 = skip_ws b s" "byte_at b s1 \<noteq> 0" using assms(3) \<open>r\<close> by (auto simp: peek_def Let_def)
  then show "s1 < after_token b s1 \<and> after_token b s1 \<le> length b"
    using gettoken_shape [OF g] gettoken_range [OF _ assms(2) g] s1 g by (auto simp: after_token_def)
qed

lemma parseredirs_good:
  "s \<le> length b \<Longrightarrow> 0 \<notin> set b \<Longrightarrow> \<forall>w \<in> set_cmd cmd. word_ok b w \<Longrightarrow> good b s (parseredirs cmd b s)"
proof (induction "length b - s" arbitrary: cmd s rule: less_induct)
  case (less s cmd)
  note 1 = less
  obtain s1 more where p: "peek b s [60, 62] = (s1, more)" by (cases "peek b s [60, 62]")
  obtain tok q0 e0 s2 where t: "gettoken b s1 = (tok, q0, e0, s2)" by (cases "gettoken b s1")
  obtain t2 q eq s3 where t2: "gettoken b s2 = (t2, q, eq, s3)" by (cases "gettoken b s2")
  obtain mode fd where m: "redir_mode tok = (mode, fd)" by (cases "redir_mode tok")
  note r = peek_range [OF 1(2,3) p]
  have "good b s (parseredirs (REDIR cmd (q, eq) mode fd) b s3)" if "more" "t2 = 97"
  proof -
    have s2: "s \<le> s2" "s2 \<le> length b" using r that(1) t by (auto simp: after_token_def)
    note g = gettoken_range [OF s2(2) 1(3) t2]
    have "good b s3 (parseredirs (REDIR cmd (q, eq) mode fd) b s3)"
      by (rule less.hyps) (use redir_consumed [of s1 b s "[60, 62]" tok q0 e0 s2 t2 q eq s3] p t t2 1 that g in auto)
    then show ?thesis by (rule good_mono) (use g s2 in simp)
  qed
  then show ?case using p t t2 m r 1(4) by (subst parseredirs.simps) auto
qed

lemma parse_back_good:
  "s \<le> length b \<Longrightarrow> 0 \<notin> set b \<Longrightarrow> \<forall>w \<in> set_cmd cmd. word_ok b w \<Longrightarrow> good b s (Parsed (parse_back cmd b s))"
proof (induction "length b - s" arbitrary: cmd s rule: less_induct)
  case (less s cmd)
  note 1 = less
  obtain s1 more where p: "peek b s [38] = (s1, more)" by (cases "peek b s [38]")
  note r = peek_range [OF 1(2,3) p]
  have "good b s (Parsed (parse_back (BACK cmd) b (after_token b s1)))" if more
    by (rule good_mono [OF less.hyps]) (use 1 r that back_consumed [of s1 b s "[38]"] p in auto)
  then show ?case using p r 1(4) by (subst parse_back.simps) auto
qed

lemma set_add_arg: "set_cmd (add_arg w c) \<subseteq> insert w (set_cmd c)"
  by (induction c) auto

lemma parse_args_good:
  "s \<le> length b \<Longrightarrow> 0 \<notin> set b \<Longrightarrow> \<forall>w \<in> set_cmd ret. word_ok b w \<Longrightarrow> good b s (parse_args argc ret b s)"
proof (induction "MAXARGS - argc" arbitrary: argc ret s rule: less_induct)
  case (less argc ret s)
  note 1 = less
  obtain s1 stop where p: "peek b s [124, 41, 38, 59] = (s1, stop)" by (cases "peek b s [124, 41, 38, 59]")
  obtain tok q eq s2 where t: "gettoken b s1 = (tok, q, eq, s2)" by (cases "gettoken b s1")
  note r = peek_range(1) [OF 1(2,3) p]
  note g = gettoken_range [OF r [THEN conjunct2] 1(3) t]
  have "good b s2 (pbind (parseredirs (add_arg (q, eq) ret) b s2) (\<lambda>r. parse_args (argc + 1) (fst r) b (snd r)))"
    if a: "\<not> stop" "tok = 97" "argc + 1 < MAXARGS"
  proof (rule good_bind)
    show "good b s2 (parseredirs (add_arg (q, eq) ret) b s2)"
      using g a 1(3,4) set_add_arg [of "(q, eq)" ret] by (intro parseredirs_good) auto
    show "good b s' (parse_args (argc + 1) (fst (c, s')) b (snd (c, s')))" if "s2 \<le> s'" "s' \<le> length b" "\<forall>w \<in> set_cmd c. word_ok b w" for c s'
      using less.hyps [of "argc + 1"] a that 1(3) by simp
  qed
  then have "good b s (pbind (parseredirs (add_arg (q, eq) ret) b s2) (\<lambda>r. parse_args (argc + 1) (fst r) b (snd r)))"
    if "\<not> stop" "tok = 97" "argc + 1 < MAXARGS" using that good_mono [of b s2 _ s] r g by simp
  then show ?case using p t r g 1(4) by (subst parse_args.simps) auto
qed

lemma parse_good:
  assumes b: "0 \<notin> set b"
  shows "s \<le> length b \<Longrightarrow> 4 * (length b - s) + 4 \<le> n \<Longrightarrow> good b s (parseline n b s)"
    and "s \<le> length b \<Longrightarrow> 4 * (length b - s) + 3 \<le> n \<Longrightarrow> good b s (parsepipe n b s)"
    and "s \<le> length b \<Longrightarrow> 4 * (length b - s) + 2 \<le> n \<Longrightarrow> good b s (parseexec n b s)"
    and "s \<le> length b \<Longrightarrow> 4 * (length b - s) + 1 \<le> n \<Longrightarrow> good b s (parseblock n b s)"
proof (induction n arbitrary: s)
  case (Suc n)
  { case 1
    have *: "good b s1 (case parse_back c b s1 of (cmd2, s2) \<Rightarrow> case peek b s2 [59] of (s3, more) \<Rightarrow>
         if more then pbind (parseline n b (after_token b s3)) (\<lambda>(right, s4). Parsed (LIST cmd2 right, s4)) else Parsed (cmd2, s3))"
      if a: "s \<le> s1" "s1 \<le> length b" "\<forall>w \<in> set_cmd c. word_ok b w" for c s1
    proof -
      obtain c2 s2 where k: "parse_back c b s1 = (c2, s2)" by (cases "parse_back c b s1")
      obtain s3 more where p: "peek b s2 [59] = (s3, more)" by (cases "peek b s2 [59]")
      have c2: "s1 \<le> s2" "s2 \<le> length b" "\<forall>w \<in> set_cmd c2. word_ok b w" using parse_back_good [OF a(2) b a(3)] k by simp_all
      note r = peek_range [OF c2(2) b p]
      have "good b (after_token b s3) (pbind (parseline n b (after_token b s3)) (\<lambda>(right, s4). Parsed (LIST c2 right, s4)))" if more
        using Suc.IH(1) [of "after_token b s3"] r(1) r(2) [OF that] a c2 1 by (intro good_bind) auto
      then show ?thesis using k p r c2 by (auto elim!: good_mono)
    qed
    show ?case using Suc.IH(2) [of s] 1 by (auto intro!: good_bind *)
  next
    case 2
    have *: "good b s1 (case peek b s1 [124] of (s2, more) \<Rightarrow>
         if more then pbind (parsepipe n b (after_token b s2)) (\<lambda>(right, s3). Parsed (PIPE c right, s3)) else Parsed (c, s2))"
      if a: "s \<le> s1" "s1 \<le> length b" "\<forall>w \<in> set_cmd c. word_ok b w" for c s1
    proof -
      obtain s2 more where p: "peek b s1 [124] = (s2, more)" by (cases "peek b s1 [124]")
      note r = peek_range [OF a(2) b p]
      have "good b (after_token b s2) (pbind (parsepipe n b (after_token b s2)) (\<lambda>(right, s3). Parsed (PIPE c right, s3)))" if more
        using Suc.IH(2) [of "after_token b s2"] r(1) r(2) [OF that] a 2 by (intro good_bind) auto
      then show ?thesis using p r a by (auto elim!: good_mono)
    qed
    show ?case using Suc.IH(3) [of s] 2 by (auto intro!: good_bind *)
  next
    case 3
    obtain s1 block where p: "peek b s [40] = (s1, block)" by (cases "peek b s [40]")
    note r = peek_range [OF 3(1) b p]
    have "good b s1 (pbind (parseredirs (EXEC []) b s1) (\<lambda>(ret, s2). parse_args 0 ret b s2))"
      using r(1) b by (intro good_bind parseredirs_good) (auto intro: parse_args_good)
    moreover have "good b s1 (parseblock n b s1)" by (rule Suc.IH(4)) (use r(1) 3(2) in auto)
    ultimately show ?case using p r(1) by (auto intro: good_mono)
  next
    case 4
    obtain s1 block where p: "peek b s [40] = (s1, block)" by (cases "peek b s [40]")
    note r = peek_range [OF 4(1) b p]
    have *: "good b s2 (case peek b s2 [41] of (s3, clos) \<Rightarrow> if \<not> clos then Syntax ''syntax - missing )'' else parseredirs c b (after_token b s3))"
      if a: "s2 \<le> length b" "\<forall>w \<in> set_cmd c. word_ok b w" for c s2
    proof -
      obtain s3 clos where q: "peek b s2 [41] = (s3, clos)" by (cases "peek b s2 [41]")
      note r2 = peek_range [OF a(1) b q]
      have "good b (after_token b s3) (parseredirs c b (after_token b s3))" if clos using r2(2) [OF that] a by (intro parseredirs_good b) auto
      then show ?thesis using q r2 by (auto elim!: good_mono)
    qed
    have "good b (after_token b s1) (parseline n b (after_token b s1))" if block
      using Suc.IH(1) [of "after_token b s1"] r(1) r(2) [OF that] 4 by auto
    then have "good b (after_token b s1) (pbind (parseline n b (after_token b s1)) (\<lambda>(cmd, s2).
          case peek b s2 [41] of (s3, clos) \<Rightarrow> if \<not> clos then Syntax ''syntax - missing )'' else parseredirs cmd b (after_token b s3)))" if block
      using that by (auto intro!: good_bind *)
    then show ?case using p r by (auto elim!: good_mono)
  }
qed auto

subsection \<open>The words of the tree\<close>

definition word_text :: "u8 list \<Rightarrow> word_at \<Rightarrow> u8 list" where
  "word_text b w = (case w of (q, eq) \<Rightarrow> take (eq - q) (drop q b))"

text \<open>The string that starts at the first index of a word, once the buffer is NUL-terminated.\<close>

definition string_at :: "u8 list \<Rightarrow> word_at \<Rightarrow> u8 list" where
  "string_at b w = takeWhile (\<lambda>c. c \<noteq> 0) (drop (fst w) b)"

lemma nulterminate_length [simp]: "length (nulterminate c b) = length b"
proof (induction c arbitrary: b)
  case (EXEC ws)
  show ?case by (induction ws arbitrary: b) simp_all
qed simp_all

lemma nth_upd0: "i < length xs \<Longrightarrow> xs[j := x] ! i = (if i = j then x else xs ! i)"
  by (cases "i = j") simp_all

lemma nulterminate_nth: "i < length b \<Longrightarrow> nulterminate c b ! i = (if i \<in> snd ` set_cmd c then 0 else b ! i)"
proof (induction c arbitrary: b)
  case (EXEC ws)
  then show ?case
  proof (induction ws arbitrary: b)
    case (Cons w ws)
    then show ?case using Cons.IH [of "b[snd w := 0]"] by (auto simp: nth_upd0)
  qed simp
qed (simp_all add: nth_upd0 image_Un)

lemma string_at_word:
  assumes b: "0 \<notin> set b" and ok: "\<forall>w \<in> set_cmd c. word_ok b w" and w: "w \<in> set_cmd c"
  shows "string_at (nulterminate c b) w = word_text b w"
proof -
  obtain q eq where w': "w = (q, eq)" by (cases w)
  have o: "q < eq" "eq \<le> length b" "\<And>i. q \<le> i \<Longrightarrow> i < eq \<Longrightarrow> plain (b ! i)" using ok w w' by (auto simp: word_ok_def)
  let ?b = "nulterminate c b"
  have same: "?b ! i = b ! i \<and> b ! i \<noteq> 0" if "q \<le> i" "i < eq" for i
  proof -
    have "i \<notin> snd ` set_cmd c" using ok o(3) [OF that] o(2) that(2) by (force simp: word_ok_def)
    then show ?thesis using that o(2) b nulterminate_nth [of i b c] by (auto simp: in_set_conv_nth)
  qed
  have t: "take (eq - q) (drop q ?b) = take (eq - q) (drop q b)" using same o(2) by (intro nth_equalityI) auto
  have z: "\<forall>x \<in> set (take (eq - q) (drop q b)). x \<noteq> 0" using b by (metis in_set_dropD in_set_takeD)
  have "drop q ?b = take (eq - q) (drop q b) @ drop eq ?b" using append_take_drop_id [of "eq - q" "drop q ?b"] t o(1) by (simp add: add.commute)
  moreover have "takeWhile (\<lambda>c. c \<noteq> 0) (drop eq ?b) = []"
  proof (cases "eq < length b")
    case True
    have "eq \<in> snd ` set_cmd c" using w w' by force
    then have "?b ! eq = 0" using nulterminate_nth [OF True] by simp
    then show ?thesis using True by (simp add: Cons_nth_drop_Suc [symmetric])
  qed simp
  ultimately show ?thesis using z by (simp add: string_at_def word_text_def w' takeWhile_append2)
qed

text \<open>
  C11: The parser of the shell always returns. On every command line the recursion is bounded by the length of the line: the parser yields a command or one of its own
  syntax errors and never runs on. In the command every word is a non-empty run of bytes that are neither blanks nor symbols; and although \<^verbatim>\<open>nulterminate\<close> writes into
  the one buffer all words share, the string at every word is afterwards exactly the text of that word in the line.
\<close>

theorem parsecmd_returns:
  assumes "0 \<notin> set b"
  shows "case parsecmd b of NoFuel \<Rightarrow> False | Syntax msg \<Rightarrow> True
    | Parsed (c, b') \<Rightarrow> \<forall>w \<in> set_cmd c. string_at b' w = word_text b w \<and> word_text b w \<noteq> [] \<and> list_all plain (word_text b w)"
proof -
  have g: "good b 0 (parseline (4 * length b + 4) b 0)" by (rule parse_good(1) [OF assms]) simp_all
  show ?thesis
  proof (cases "parseline (4 * length b + 4) b 0")
    case (Parsed r)
    obtain c s where r: "r = (c, s)" by (cases r)
    have ok: "\<forall>w \<in> set_cmd c. word_ok b w" using g Parsed r by simp
    then have "word_text b w \<noteq> [] \<and> list_all plain (word_text b w)" if "w \<in> set_cmd c" for w
      using that by (fastforce simp: word_text_def word_ok_def list_all_length)
    then show ?thesis using Parsed r string_at_word [OF assms ok] by (auto simp: parsecmd_def)
  qed (use g in \<open>auto simp: parsecmd_def good_def\<close>)
qed

theorem parsecmd_returns_witness:
  "0 \<notin> set [97, 60, 98 :: u8] \<and> parsecmd [97, 60, 98] = Parsed (REDIR (EXEC [(0, 1)]) (2, 3) O_RDONLY 0, [97, 0, 98]) \<and> string_at [97, 0, 98] (0, 1) = [97]"
proof -
  let ?b = "[97, 60, 98] :: u8 list"
  have p: "parsecmd ?b = Parsed (REDIR (EXEC [(0, 1)]) (2, 3) O_RDONLY 0, nulterminate (REDIR (EXEC [(0, 1)]) (2, 3) O_RDONLY 0) ?b)"
    by code_simp
  show ?thesis using parsecmd_returns [of ?b] p by (simp add: string_at_def)
qed

end
