(* ===== verification/Sh_Roundtrip.thy ===== *)
theory Sh_Roundtrip
  imports Sh
begin

section \<open>user/sh.c: printing and parsing commands\<close>

text \<open>
  A command tree can be written out as a command line, with every operand of an operator in parentheses. The parser of the shell reads that line back as the same tree. So the
  grammar the parser implements loses and confuses nothing: every combination of commands, redirections, pipes, sequences and background jobs can be expressed.
\<close>

unbundle bit_operations_syntax

subsection \<open>Writing a command\<close>

fun unwords :: "u8 list list \<Rightarrow> u8 list" where
  "unwords [] = []"
| "unwords [w] = w"
| "unwords (w # ws) = w @ 32 # unwords ws"

definition redir_op :: "u32 \<Rightarrow> u8 list" where
  "redir_op mode = (if mode = O_RDONLY then [60] else if mode = O_WRONLY OR O_CREATE OR O_TRUNC then [62] else [62, 62])"

primrec show_cmd :: "u8 list cmd \<Rightarrow> u8 list" where
  "show_cmd (EXEC ws) = unwords ws"
| "show_cmd (REDIR c f mode fd) = [40] @ show_cmd c @ [41] @ redir_op mode @ f"
| "show_cmd (PIPE l r) = [40] @ show_cmd l @ [41, 124, 40] @ show_cmd r @ [41]"
| "show_cmd (LIST l r) = [40] @ show_cmd l @ [41, 59, 40] @ show_cmd r @ [41]"
| "show_cmd (BACK c) = [40] @ show_cmd c @ [41, 38]"

definition wordy :: "u8 list \<Rightarrow> bool" where
  "wordy w \<longleftrightarrow> w \<noteq> [] \<and> list_all plain w \<and> 0 \<notin> set w"

primrec wf_cmd :: "u8 list cmd \<Rightarrow> bool" where
  "wf_cmd (EXEC ws) \<longleftrightarrow> length ws < MAXARGS \<and> list_all wordy ws"
| "wf_cmd (REDIR c f mode fd) \<longleftrightarrow> wf_cmd c \<and> wordy f \<and> (mode, fd) \<in> {(O_RDONLY, 0), (O_WRONLY OR O_CREATE OR O_TRUNC, 1), (O_WRONLY OR O_CREATE, 1)}"
| "wf_cmd (PIPE l r) \<longleftrightarrow> wf_cmd l \<and> wf_cmd r"
| "wf_cmd (LIST l r) \<longleftrightarrow> wf_cmd l \<and> wf_cmd r"
| "wf_cmd (BACK c) \<longleftrightarrow> wf_cmd c"

subsection \<open>The tokeniser on known text\<close>

text \<open>\<open>stops t\<close>: the text \<open>t\<close> does not start with a blank. \<open>follow t\<close>: it is at its end or at a closing parenthesis.\<close>

definition stops :: "u8 list \<Rightarrow> bool" where
  "stops t \<longleftrightarrow> t = [] \<or> \<not> isws (hd t)"

definition follow :: "u8 list \<Rightarrow> bool" where
  "follow t \<longleftrightarrow> t = [] \<or> hd t = 41"

lemma follow_stops: "follow t \<Longrightarrow> stops t"
  by (auto simp: follow_def stops_def isws_iff)

lemma stops_Cons [simp]: "stops (x # t) \<longleftrightarrow> \<not> isws x" "stops []"
  by (simp_all add: stops_def)

lemma byte_at_drop: "drop s b = x # t \<Longrightarrow> byte_at b s = x" "drop s b = [] \<Longrightarrow> byte_at b s = 0"
  by (auto simp: byte_at_def nth_via_drop split: if_splits)

lemma drop_Suc_tail: "drop s b = x # t \<Longrightarrow> drop (Suc s) b = t"
  by (metis drop_Suc list.sel(3) tl_drop)

lemma drop_append_tail: "drop s b = u @ t \<Longrightarrow> drop (s + length u) b = t"
  by (metis add.commute append_eq_conv_conj drop_drop)

lemma skip_ws_stops: "drop s b = t \<Longrightarrow> stops t \<Longrightarrow> skip_ws b s = s"
  by (subst skip_ws.simps) (cases t, auto dest: byte_at_drop)

lemma skip_ws_space: "drop s b = 32 # t \<Longrightarrow> stops t \<Longrightarrow> skip_ws b s = Suc s"
proof -
  assume d: "drop s b = 32 # t" "stops t"
  then have "s < length b" by (metis drop_all list.distinct(1) not_less)
  then have "skip_ws b s = skip_ws b (Suc s)" using byte_at_drop(1) [OF d(1)] by (subst skip_ws.simps) (simp add: isws_iff)
  then show ?thesis using skip_ws_stops [OF drop_Suc_tail [OF d(1)] d(2)] by simp
qed

lemma skip_word_text: "drop s b = w @ t \<Longrightarrow> list_all plain w \<Longrightarrow> t = [] \<or> \<not> plain (hd t) \<Longrightarrow> skip_word b s = s + length w"
proof (induction w arbitrary: s)
  case Nil
  then show ?case by (subst skip_word.simps) (cases t, auto simp: plain_def dest: byte_at_drop)
next
  case (Cons x w)
  then have "s < length b" by (metis append_Cons drop_all list.distinct(1) not_less)
  moreover have "byte_at b s = x" "plain x" using Cons.prems byte_at_drop(1) [of s b x "w @ t"] by simp_all
  ultimately have "skip_word b s = skip_word b (Suc s)" by (subst skip_word.simps) (simp add: plain_def)
  then show ?case using Cons.IH [of "Suc s"] Cons.prems drop_Suc_tail [of s b x "w @ t"] by simp
qed

lemma gettoken_word:
  assumes d: "drop s b = w @ t" and w: "wordy w" and t: "t = [] \<or> \<not> plain (hd t)"
  shows "gettoken b s = (97, s, s + length w, skip_ws b (s + length w))"
proof -
  obtain x w' where x: "w = x # w'" "plain x" "x \<noteq> 0" using w by (cases w) (auto simp: wordy_def)
  then have "byte_at b s = x" "skip_ws b s = s" using d by (auto simp: plain_def intro!: byte_at_drop(1) skip_ws_stops)
  moreover have "skip_word b s = s + length w" using skip_word_text [OF d _ t] w by (simp add: wordy_def)
  ultimately show ?thesis using x by (auto simp: gettoken_def Let_def plain_def issym_iff)
qed

lemma after_symbol:
  assumes d: "drop s b = x # t" and "x \<in> {124, 40, 41, 59, 38}" "stops t"
  shows "after_token b s = Suc s"
proof -
  have "skip_ws b s = s" "skip_ws b (Suc s) = Suc s" using assms skip_ws_stops [OF d] skip_ws_stops [OF drop_Suc_tail [OF d]] by (auto simp: isws_iff)
  then show ?thesis using assms byte_at_drop(1) [OF d] by (auto simp: after_token_def gettoken_def Let_def)
qed

lemma peek_text:
  assumes d: "drop s b = t" and t: "stops t" and z: "0 \<notin> set toks" "0 \<notin> set t"
  shows "peek b s toks = (s, t \<noteq> [] \<and> hd t \<in> set toks)"
proof -
  have "skip_ws b s = s" by (rule skip_ws_stops [OF d t])
  moreover have "byte_at b s = (if t = [] then 0 else hd t)" using d byte_at_drop [of s b] by (cases t) simp_all
  ultimately show ?thesis using z by (cases t) (auto simp: peek_def Let_def strchr_split)
qed

lemma gettoken_end: "drop s b = [] \<Longrightarrow> gettoken b s = (0, s, s, s)"
  using byte_at_drop(2) [of s b] skip_ws_stops [of s b "[]"] by (simp add: gettoken_def Let_def)

subsection \<open>The parsers on known text\<close>

lemma parseredirs_none: "drop s b = t \<Longrightarrow> stops t \<Longrightarrow> 0 \<notin> set t \<Longrightarrow> t = [] \<or> hd t \<notin> {60, 62} \<Longrightarrow> parseredirs c b s = Parsed (c, s)"
  using peek_text [of s b t "[60, 62]"] by (subst parseredirs.simps) auto

lemma wordy_hd: "wordy w \<Longrightarrow> plain (hd w) \<and> hd w \<noteq> 0 \<and> \<not> isws (hd w)"
  by (cases w) (auto simp: wordy_def plain_def)

lemma follow_not_plain: "follow t \<Longrightarrow> t = [] \<or> \<not> plain (hd t)"
  by (auto simp: follow_def plain_def issym_iff)

lemma parseredirs_one:
  assumes d: "drop s b = redir_op mode @ f @ t" and f: "wordy f" and t: "follow t" "0 \<notin> set t" and m: "(mode, fd) \<in> {redir_mode 60, redir_mode 62, redir_mode 43}"
  shows "\<exists>w. parseredirs c b s = Parsed (REDIR c w mode fd, s + length (redir_op mode) + length f) \<and> word_text b w = f"
proof -
  let ?q = "s + length (redir_op mode)"
  obtain tok where tok: "redir_mode tok = (mode, fd)" "tok \<in> {60, 62, 43}" using m by auto
  have ne: "O_WRONLY OR O_CREATE OR O_TRUNC \<noteq> O_RDONLY" "O_WRONLY OR O_CREATE \<noteq> O_RDONLY" "O_WRONLY OR O_CREATE \<noteq> O_WRONLY OR O_CREATE OR O_TRUNC"
    by (simp_all add: O_WRONLY_def O_CREATE_def O_TRUNC_def O_RDONLY_def)
  have q: "drop ?q b = f @ t" using drop_append_tail [OF d] .
  note h = wordy_hd [OF f]
  have f0: "f \<noteq> []" using f by (simp add: wordy_def)
  have sq: "skip_ws b ?q = ?q" using skip_ws_stops [OF q] h f0 by (simp add: stops_def)
  have bq: "byte_at b ?q = hd f" using q f0 byte_at_drop(1) [of ?q b] by (cases f) simp_all
  have hs: "hd f \<noteq> 62" using h by (auto simp: plain_def issym_iff)
  have p: "peek b s [60, 62] = (s, True)"
    using peek_text [OF d, of "[60, 62]"] f t(2) by (auto simp: redir_op_def isws_iff wordy_def split: if_splits)
  have s0: "skip_ws b s = s" using skip_ws_stops [OF d] by (auto simp: redir_op_def isws_iff split: if_splits)
  have g1: "\<exists>x y. gettoken b s = (tok, x, y, ?q)"
    using tok ne d s0 sq bq hs byte_at_drop(1) [of s b] byte_at_drop(1) [of "Suc s" b] drop_Suc_tail [of s b]
    by (auto simp: gettoken_def Let_def redir_op_def redir_mode_def split: if_splits)
  have g2: "gettoken b ?q = (97, ?q, ?q + length f, ?q + length f)"
    using gettoken_word [OF q f follow_not_plain [OF t(1)]] skip_ws_stops [OF drop_append_tail [OF q] follow_stops [OF t(1)]] by simp
  have "parseredirs c' b (?q + length f) = Parsed (c', ?q + length f)" for c'
    using parseredirs_none [OF drop_append_tail [OF q] follow_stops [OF t(1)] t(2)] t(1) by (auto simp: follow_def)
  then have "parseredirs c b s = Parsed (REDIR c (?q, ?q + length f) mode fd, ?q + length f)"
    using p g1 g2 tok(1) by (subst parseredirs.simps) auto
  moreover have "word_text b (?q, ?q + length f) = f" using q by (simp add: word_text_def)
  ultimately show ?thesis by blast
qed

lemma unwords_Cons: "unwords (w # ws) = w @ (if ws = [] then [] else 32 # unwords ws)"
  by (cases ws) simp_all

lemma unwords_text:
  assumes "list_all wordy ws" "follow t"
  shows "stops (unwords ws @ t)" "unwords ws @ t = [] \<or> hd (unwords ws @ t) \<notin> {60, 62, 40}" "0 \<notin> set (unwords ws)"
proof -
  show "stops (unwords ws @ t)" "unwords ws @ t = [] \<or> hd (unwords ws @ t) \<notin> {60, 62, 40}"
    using assms wordy_hd [of "hd ws"] by (cases ws; auto simp: stops_def unwords_Cons follow_def isws_iff wordy_def plain_def issym_iff)+
  show "0 \<notin> set (unwords ws)" using assms(1) by (induction ws) (auto simp: unwords_Cons wordy_def)
qed

lemma parse_args_words:
  "drop s b = unwords ws @ t \<Longrightarrow> list_all wordy ws \<Longrightarrow> follow t \<Longrightarrow> 0 \<notin> set t \<Longrightarrow> argc + length ws < MAXARGS \<Longrightarrow>
   \<exists>ps. parse_args argc (EXEC as) b s = Parsed (EXEC (as @ ps), s + length (unwords ws)) \<and> map (word_text b) ps = ws"
proof (induction ws arbitrary: s argc as)
  case Nil
  then have "peek b s [124, 41, 38, 59] = (s, t \<noteq> [])" using peek_text [of s b t "[124, 41, 38, 59]"] follow_stops [of t] by (auto simp: follow_def)
  moreover have "t = [] \<Longrightarrow> gettoken b s = (0, s, s, s)" using Nil gettoken_end by simp
  ultimately show ?case by (subst parse_args.simps) auto
next
  case (Cons w ws)
  have w: "wordy w" "list_all wordy ws" using Cons.prems(2) by simp_all
  define r where "r = (if ws = [] then t else 32 # unwords ws @ t)"
  define s2 where "s2 = s + length w + (if ws = [] then 0 else 1)"
  have d: "drop s b = w @ r" using Cons.prems(1) by (simp add: r_def unwords_Cons)
  note dr = drop_append_tail [OF d]
  note u = unwords_text [OF w(2) Cons.prems(3)]
  have d2: "drop s2 b = unwords ws @ t" using dr drop_Suc_tail [of "s + length w" b 32] by (simp add: s2_def r_def split: if_splits)
  have "r = [] \<or> \<not> plain (hd r)" using follow_not_plain [OF Cons.prems(3)] by (simp add: r_def plain_def isws_iff)
  then have g: "gettoken b s = (97, s, s + length w, skip_ws b (s + length w))" by (rule gettoken_word [OF d w(1)])
  have sk: "skip_ws b (s + length w) = s2"
    using skip_ws_stops [OF dr] skip_ws_space [of "s + length w" b "unwords ws @ t"] dr u(1) follow_stops [OF Cons.prems(3)] by (simp add: s2_def r_def split: if_splits)
  have "peek b s [124, 41, 38, 59] = (s, False)"
    using peek_text [OF Cons.prems(1), of "[124, 41, 38, 59]"] unwords_text [OF Cons.prems(2,3)] Cons.prems(4) wordy_hd [OF w(1)] w(1)
    by (auto simp: unwords_Cons wordy_def plain_def issym_iff)
  moreover have "parseredirs (EXEC (as @ [(s, s + length w)])) b s2 = Parsed (EXEC (as @ [(s, s + length w)]), s2)"
    using u Cons.prems(4) by (intro parseredirs_none [OF d2]) auto
  ultimately have e: "parse_args argc (EXEC as) b s = parse_args (argc + 1) (EXEC (as @ [(s, s + length w)])) b s2"
    using Cons.prems(5) g sk by (subst parse_args.simps) simp
  obtain ps where ps: "parse_args (argc + 1) (EXEC (as @ [(s, s + length w)])) b s2 = Parsed (EXEC ((as @ [(s, s + length w)]) @ ps), s2 + length (unwords ws))"
    "map (word_text b) ps = ws" using Cons.IH [OF d2 w(2) Cons.prems(3,4), of "argc + 1" "as @ [(s, s + length w)]"] Cons.prems(5) by auto
  have "word_text b (s, s + length w) = w" using d by (simp add: word_text_def)
  then show ?case using e ps by (intro exI [of _ "(s, s + length w) # ps"]) (auto simp: unwords_Cons s2_def)
qed

lemma stops_show: "stops (show_cmd c @ 41 # t)" if "wf_cmd c"
  using that unwords_text(1) [of _ "41 # t"] by (cases c) (auto simp: isws_iff follow_def)

lemma show_nonzero: "wf_cmd c \<Longrightarrow> 0 \<notin> set (show_cmd c)"
  by (induction c) (auto simp: redir_op_def wordy_def unwords_text(3) [of _ "[]"] follow_def)

text \<open>\<open>reads c\<close>: whenever the text of \<open>c\<close> stands before the end or a closing parenthesis, \<^verbatim>\<open>parseline\<close> reads \<open>c\<close>.\<close>

definition reads :: "u8 list cmd \<Rightarrow> bool" where
  "reads c \<longleftrightarrow> (\<forall>b s t n. drop s b = show_cmd c @ t \<longrightarrow> follow t \<longrightarrow> 0 \<notin> set t \<longrightarrow> s \<le> length b \<longrightarrow> 4 * (length b - s) + 4 \<le> n \<longrightarrow>
     (\<exists>c'. parseline n b s = Parsed (c', s + length (show_cmd c)) \<and> map_cmd (word_text b) c' = c))"

lemma readsD:
  "reads c \<Longrightarrow> drop s b = show_cmd c @ t \<Longrightarrow> follow t \<Longrightarrow> 0 \<notin> set t \<Longrightarrow> s \<le> length b \<Longrightarrow> 4 * (length b - s) + 4 \<le> n \<Longrightarrow>
   \<exists>c'. parseline n b s = Parsed (c', s + length (show_cmd c)) \<and> map_cmd (word_text b) c' = c"
  unfolding reads_def by blast

lemma block_reads:
  assumes c: "reads c" "wf_cmd c" and d: "drop s b = 40 # show_cmd c @ 41 # t" and t: "stops t" "0 \<notin> set t" and n: "4 * (length b - s) + 2 \<le> n"
  shows "\<exists>c'. parseexec n b s = parseredirs c' b (s + length (show_cmd c) + 2) \<and> map_cmd (word_text b) c' = c"
proof -
  obtain m where m: "n = Suc (Suc m)" using n by (cases n; cases "n - 1") auto
  let ?e = "s + 1 + length (show_cmd c)"
  have len: "s + length (show_cmd c) + 2 + length t = length b" using arg_cong [OF d, of length] by (cases "s \<le> length b") auto
  have p: "peek b s [40] = (s, True)" using peek_text [OF d, of "[40]"] show_nonzero [OF c(2)] t(2) by (simp add: isws_iff)
  have a: "after_token b s = Suc s" using after_symbol [OF d] stops_show [OF c(2)] by simp
  have d1: "drop (Suc s) b = show_cmd c @ 41 # t" by (rule drop_Suc_tail [OF d])
  have "4 * (length b - Suc s) + 4 \<le> m" using n m len by simp
  then obtain c' where c': "parseline m b (Suc s) = Parsed (c', Suc s + length (show_cmd c))" "map_cmd (word_text b) c' = c"
    using readsD [OF c(1) d1, of m] t(2) len by (auto simp: follow_def)
  have d2: "drop ?e b = 41 # t" using drop_append_tail [OF d1] by simp
  have "peek b ?e [41] = (?e, True)" using peek_text [OF d2, of "[41]"] t(2) by (simp add: isws_iff)
  moreover have "after_token b ?e = Suc ?e" using after_symbol [OF d2] t(1) by simp
  ultimately show ?thesis using p a c' m by (intro exI [of _ c']) simp
qed

lemma block_alone:
  assumes "reads c" "wf_cmd c" and d: "drop s b = 40 # show_cmd c @ 41 # t" and t: "stops t" "0 \<notin> set t" "t = [] \<or> hd t \<notin> {60, 62}" and "4 * (length b - s) + 2 \<le> n"
  shows "\<exists>c'. parseexec n b s = Parsed (c', s + length (show_cmd c) + 2) \<and> map_cmd (word_text b) c' = c"
proof -
  have "drop (s + length (show_cmd c) + 2) b = t" using drop_append_tail [of s b "40 # show_cmd c @ [41]" t] d by simp
  then show ?thesis using block_reads [OF assms(1-5,7)] parseredirs_none [OF _ t(1,2,3)] by auto
qed

lemma pipe_end:
  "parseexec n b s = Parsed (c, e) \<Longrightarrow> drop e b = t \<Longrightarrow> stops t \<Longrightarrow> 0 \<notin> set t \<Longrightarrow> t = [] \<or> hd t \<noteq> 124 \<Longrightarrow> parsepipe (Suc n) b s = Parsed (c, e)"
  using peek_text [of e b t "[124]"] by auto

lemma back_end: "drop e b = t \<Longrightarrow> stops t \<Longrightarrow> 0 \<notin> set t \<Longrightarrow> t = [] \<or> hd t \<noteq> 38 \<Longrightarrow> parse_back c b e = (c, e)"
  using peek_text [of e b t "[38]"] by (subst parse_back.simps) auto

lemma line_end: "parsepipe n b s = Parsed (c, e) \<Longrightarrow> drop e b = t \<Longrightarrow> follow t \<Longrightarrow> 0 \<notin> set t \<Longrightarrow> parseline (Suc n) b s = Parsed (c, e)"
  using peek_text [of e b t "[59]"] back_end [of e b t c] follow_stops [of t] by (auto simp: follow_def)

lemma reads_EXEC: "wf_cmd (EXEC ws) \<Longrightarrow> reads (EXEC ws)"
  unfolding reads_def
proof (intro allI impI)
  fix b s t n
  assume w: "wf_cmd (EXEC ws)" and d: "drop s b = show_cmd (EXEC ws) @ t" and t: "follow t" "0 \<notin> set t" and n: "4 * (length b - s) + 4 \<le> n"
  obtain m where m: "n = Suc (Suc (Suc m))" using n by (cases n; cases "n - 1"; cases "n - 2") auto
  have ws: "list_all wordy ws" "length ws < MAXARGS" "drop s b = unwords ws @ t" using w d by simp_all
  note u = unwords_text [OF ws(1) t(1)]
  have "peek b s [40] = (s, False)" using peek_text [OF ws(3) u(1), of "[40]"] u(2,3) t(2) by auto
  moreover have "parseredirs (EXEC []) b s = Parsed (EXEC [], s)" using u t(2) by (intro parseredirs_none [OF ws(3)]) auto
  moreover obtain ps where ps: "parse_args 0 (EXEC []) b s = Parsed (EXEC ps, s + length (unwords ws))" "map (word_text b) ps = ws"
    using parse_args_words [OF ws(3,1) t, of 0 "[]"] ws(2) by auto
  ultimately have e: "parseexec (Suc m) b s = Parsed (EXEC ps, s + length (unwords ws))" by simp
  have "parseline n b s = Parsed (EXEC ps, s + length (unwords ws))" unfolding m
    by (rule line_end [OF pipe_end [OF e drop_append_tail [OF ws(3)] follow_stops [OF t(1)] t(2)] drop_append_tail [OF ws(3)] t]) (use t(1) in \<open>auto simp: follow_def\<close>)
  then show "\<exists>c'. parseline n b s = Parsed (c', s + length (show_cmd (EXEC ws))) \<and> map_cmd (word_text b) c' = EXEC ws" using ps(2) by auto
qed

lemma reads_REDIR: "wf_cmd (REDIR c f mode fd) \<Longrightarrow> reads c \<Longrightarrow> reads (REDIR c f mode fd)"
  unfolding reads_def [of "REDIR c f mode fd"]
proof (intro allI impI)
  fix b s t n
  assume w: "wf_cmd (REDIR c f mode fd)" "reads c" and d: "drop s b = show_cmd (REDIR c f mode fd) @ t" and t: "follow t" "0 \<notin> set t" and n: "4 * (length b - s) + 4 \<le> n"
  obtain m where m: "n = Suc (Suc m)" "4 * (length b - s) + 2 \<le> m" using n by (cases n; cases "n - 1") auto
  let ?e = "s + length (show_cmd c) + 2" and ?op = "redir_op mode"
  have ws: "wordy f" "(mode, fd) \<in> {redir_mode 60, redir_mode 62, redir_mode 43}" "wf_cmd c" using w(1) by (simp_all add: redir_mode_def)
  have d1: "drop s b = 40 # show_cmd c @ 41 # (?op @ f @ t)" using d by simp
  have st: "stops (?op @ f @ t)" "0 \<notin> set (?op @ f @ t)" using ws(1) t(2) by (auto simp: redir_op_def isws_iff wordy_def)
  obtain c' where c': "parseexec m b s = parseredirs c' b ?e" "map_cmd (word_text b) c' = c" using block_reads [OF w(2) ws(3) d1 st m(2)] by auto
  have de: "drop ?e b = ?op @ f @ t" using drop_append_tail [of s b "40 # show_cmd c @ [41]" "?op @ f @ t"] d1 by simp
  obtain x where x: "parseexec m b s = Parsed (REDIR c' x mode fd, ?e + length ?op + length f)" "word_text b x = f"
    using parseredirs_one [OF de ws(1) t ws(2), of c'] c'(1) by auto
  have dt: "drop (?e + length ?op + length f) b = t" using drop_append_tail [OF drop_append_tail [OF de]] .
  have "parseline n b s = Parsed (REDIR c' x mode fd, ?e + length ?op + length f)" unfolding m(1)
    by (rule line_end [OF pipe_end [OF x(1) dt follow_stops [OF t(1)] t(2)] dt t]) (use t(1) in \<open>auto simp: follow_def\<close>)
  then show "\<exists>c'. parseline n b s = Parsed (c', s + length (show_cmd (REDIR c f mode fd))) \<and> map_cmd (word_text b) c' = REDIR c f mode fd"
    using c'(2) x(2) by (intro exI [of _ "REDIR c' x mode fd"]) simp
qed

text \<open>The second operand of an operator, in parentheses at the end of the text.\<close>

lemma last_block:
  assumes c: "reads c" "wf_cmd c" and d: "drop s b = 40 # show_cmd c @ 41 # t" and t: "follow t" "0 \<notin> set t" and n: "4 * (length b - s) + 3 \<le> n"
  shows "\<exists>c'. parsepipe n b s = Parsed (c', s + length (show_cmd c) + 2) \<and> map_cmd (word_text b) c' = c"
proof -
  obtain m where m: "n = Suc m" "4 * (length b - s) + 2 \<le> m" using n by (cases n) auto
  obtain c' where c': "parseexec m b s = Parsed (c', s + length (show_cmd c) + 2)" "map_cmd (word_text b) c' = c"
    using block_alone [OF c d follow_stops [OF t(1)] t(2) _ m(2)] t(1) by (auto simp: follow_def)
  have "drop (s + length (show_cmd c) + 2) b = t" using drop_append_tail [of s b "40 # show_cmd c @ [41]" t] d by simp
  then have "parsepipe n b s = Parsed (c', s + length (show_cmd c) + 2)"
    unfolding m(1) using t by (intro pipe_end [OF c'(1) _ follow_stops]) (auto simp: follow_def)
  then show ?thesis using c'(2) by blast
qed

text \<open>The first operand in parentheses, followed by an operator.\<close>

lemma first_block:
  assumes c: "reads c" "wf_cmd c" and d: "drop s b = 40 # show_cmd c @ 41 # x # r" and x: "x \<in> {124, 59, 38}" and r: "stops r" "0 \<notin> set r" and n: "4 * (length b - s) + 2 \<le> n"
  defines "e \<equiv> s + length (show_cmd c) + 2"
  shows "\<exists>c'. parseexec n b s = Parsed (c', e) \<and> map_cmd (word_text b) c' = c" "drop e b = x # r" "drop (Suc e) b = r" "peek b e toks = (e, x \<in> set toks) \<or> 0 \<in> set toks"
    "after_token b e = Suc e" "Suc e + length r = length b"
proof -
  have xs: "\<not> isws x" "x \<noteq> 0" "x \<notin> {60, 62}" using x by (auto simp: isws_iff)
  show "\<exists>c'. parseexec n b s = Parsed (c', e) \<and> map_cmd (word_text b) c' = c" unfolding e_def using xs r by (intro block_alone [OF c d _ _ _ n]) auto
  show de: "drop e b = x # r" unfolding e_def using drop_append_tail [of s b "40 # show_cmd c @ [41]" "x # r"] d by simp
  show "drop (Suc e) b = r" by (rule drop_Suc_tail [OF de])
  show "peek b e toks = (e, x \<in> set toks) \<or> 0 \<in> set toks" using peek_text [OF de, of toks] xs r by auto
  show "after_token b e = Suc e" using after_symbol [OF de] x r by auto
  show "Suc e + length r = length b" using arg_cong [OF de, of length] by (cases "e \<le> length b") auto
qed

lemma reads_PIPE: "wf_cmd (PIPE l r) \<Longrightarrow> reads l \<Longrightarrow> reads r \<Longrightarrow> reads (PIPE l r)"
  unfolding reads_def [of "PIPE l r"]
proof (intro allI impI)
  fix b s t n
  assume w: "wf_cmd (PIPE l r)" and l: "reads l" and r: "reads r" and d: "drop s b = show_cmd (PIPE l r) @ t" and t: "follow t" "0 \<notin> set t" and n: "4 * (length b - s) + 4 \<le> n"
  obtain m where m: "n = Suc (Suc m)" "4 * (length b - s) + 2 \<le> m" using n by (cases n; cases "n - 1") auto
  let ?e = "s + length (show_cmd l) + 2" and ?r = "40 # show_cmd r @ 41 # t"
  have wl: "wf_cmd l" "wf_cmd r" using w by simp_all
  have "drop s b = 40 # show_cmd l @ 41 # 124 # ?r" "stops ?r" "0 \<notin> set ?r" using d t(2) show_nonzero [OF wl(2)] by (auto simp: isws_iff)
  note f = first_block [OF l wl(1) this(1) _ this(2,3) m(2), simplified]
  obtain c1 where c1: "parseexec m b s = Parsed (c1, ?e)" "map_cmd (word_text b) c1 = l" using f(1) by auto
  have "4 * (length b - Suc ?e) + 3 \<le> m" using m(2) f(6) by simp
  then obtain c2 where c2: "parsepipe m b (Suc ?e) = Parsed (c2, Suc ?e + length (show_cmd r) + 2)" "map_cmd (word_text b) c2 = r"
    using last_block [OF r wl(2) _ t, of "Suc ?e" b m] f(3) by auto
  have p: "parsepipe (Suc m) b s = Parsed (PIPE c1 c2, Suc ?e + length (show_cmd r) + 2)" using c1 c2 f(4) [of "[124]"] f(5) by simp
  have "drop (Suc ?e + length (show_cmd r) + 2) b = t" using drop_append_tail [of "Suc ?e" b "40 # show_cmd r @ [41]" t] f(3) by simp
  from line_end [OF p this t] show "\<exists>c'. parseline n b s = Parsed (c', s + length (show_cmd (PIPE l r))) \<and> map_cmd (word_text b) c' = PIPE l r"
    unfolding m(1) using c1(2) c2(2) by (intro exI [of _ "PIPE c1 c2"]) simp
qed

lemma reads_LIST: "wf_cmd (LIST l r) \<Longrightarrow> reads l \<Longrightarrow> reads r \<Longrightarrow> reads (LIST l r)"
  unfolding reads_def [of "LIST l r"]
proof (intro allI impI)
  fix b s t n
  assume w: "wf_cmd (LIST l r)" and l: "reads l" and r: "reads r" and d: "drop s b = show_cmd (LIST l r) @ t" and t: "follow t" "0 \<notin> set t" and n: "4 * (length b - s) + 4 \<le> n"
  obtain m where m: "n = Suc (Suc m)" "4 * (length b - s) + 2 \<le> m" using n by (cases n; cases "n - 1") auto
  let ?e = "s + length (show_cmd l) + 2" and ?r = "40 # show_cmd r @ 41 # t"
  have wl: "wf_cmd l" "wf_cmd r" using w by simp_all
  have "drop s b = 40 # show_cmd l @ 41 # 59 # ?r" "stops ?r" "0 \<notin> set ?r" using d t(2) show_nonzero [OF wl(2)] by (auto simp: isws_iff)
  note f = first_block [OF l wl(1) this(1) _ this(2,3) m(2), simplified]
  obtain c1 where c1: "parseexec m b s = Parsed (c1, ?e)" "map_cmd (word_text b) c1 = l" using f(1) by auto
  have p: "parsepipe (Suc m) b s = Parsed (c1, ?e)" using c1 f(4) [of "[124]"] by simp
  have bk: "parse_back c1 b ?e = (c1, ?e)" using f(4) [of "[38]"] by (subst parse_back.simps) simp
  have "4 * (length b - Suc ?e) + 3 \<le> m" using m(2) f(6) by simp
  then obtain c2 where c2: "parsepipe m b (Suc ?e) = Parsed (c2, Suc ?e + length (show_cmd r) + 2)" "map_cmd (word_text b) c2 = r"
    using last_block [OF r wl(2) _ t, of "Suc ?e" b m] f(3) by auto
  have "drop (Suc ?e + length (show_cmd r) + 2) b = t" using drop_append_tail [of "Suc ?e" b "40 # show_cmd r @ [41]" t] f(3) by simp
  from line_end [OF c2(1) this t] show "\<exists>c'. parseline n b s = Parsed (c', s + length (show_cmd (LIST l r))) \<and> map_cmd (word_text b) c' = LIST l r"
    unfolding m(1) using p bk c1(2) c2(2) f(4) [of "[59]"] f(5) by (intro exI [of _ "LIST c1 c2"]) simp
qed

lemma reads_BACK: "wf_cmd (BACK c) \<Longrightarrow> reads c \<Longrightarrow> reads (BACK c)"
  unfolding reads_def [of "BACK c"]
proof (intro allI impI)
  fix b s t n
  assume w: "wf_cmd (BACK c)" and c: "reads c" and d: "drop s b = show_cmd (BACK c) @ t" and t: "follow t" "0 \<notin> set t" and n: "4 * (length b - s) + 4 \<le> n"
  obtain m where m: "n = Suc (Suc m)" "4 * (length b - s) + 2 \<le> m" using n by (cases n; cases "n - 1") auto
  let ?e = "s + length (show_cmd c) + 2"
  have "drop s b = 40 # show_cmd c @ 41 # 38 # t" using d by simp
  note f = first_block [OF c _ this _ follow_stops [OF t(1)] t(2) m(2), simplified]
  obtain c1 where c1: "parseexec m b s = Parsed (c1, ?e)" "map_cmd (word_text b) c1 = c" using f(1) w by auto
  have p: "parsepipe (Suc m) b s = Parsed (c1, ?e)" using c1 f(4) [of "[124]"] w by simp
  have "parse_back (BACK c1) b (Suc ?e) = (BACK c1, Suc ?e)" using back_end [OF f(3) follow_stops [OF t(1)] t(2)] t(1) w by (auto simp: follow_def)
  then have bk: "parse_back c1 b ?e = (BACK c1, Suc ?e)" using f(4) [of "[38]"] f(5) w by (subst parse_back.simps) simp
  have "peek b (Suc ?e) [59] = (Suc ?e, False)" using peek_text [OF f(3) follow_stops [OF t(1)], of "[59]"] t w by (auto simp: follow_def)
  then show "\<exists>c'. parseline n b s = Parsed (c', s + length (show_cmd (BACK c))) \<and> map_cmd (word_text b) c' = BACK c"
    unfolding m(1) using p bk c1(2) by (intro exI [of _ "BACK c1"]) simp
qed

lemma reads_all: "wf_cmd c \<Longrightarrow> reads c"
proof (induction c)
  case (EXEC ws)
  then show ?case by (rule reads_EXEC)
next
  case (REDIR c f mode fd)
  then show ?case using reads_REDIR by simp
next
  case (PIPE l r)
  then show ?case using reads_PIPE by simp
next
  case (LIST l r)
  then show ?case using reads_LIST by simp
next
  case (BACK c)
  then show ?case using reads_BACK by simp
qed

text \<open>
  C10: What is written is what is parsed. For every command tree, with commands of at most nine words, the three kinds of redirection, pipes, sequences and background jobs in any
  nesting, the shell parses the line that writes it out as that tree, and after \<^verbatim>\<open>nulterminate\<close> the strings in the shared buffer are its words.
\<close>

theorem parsecmd_show_roundtrip:
  assumes "wf_cmd c"
  shows "\<exists>c' b. parsecmd (show_cmd c) = Parsed (c', b) \<and> map_cmd (string_at b) c' = c"
proof -
  let ?b = "show_cmd c"
  have z: "0 \<notin> set ?b" by (rule show_nonzero [OF assms])
  obtain c' where c': "parseline (4 * length ?b + 4) ?b 0 = Parsed (c', length ?b)" "map_cmd (word_text ?b) c' = c"
    using readsD [OF reads_all [OF assms], of 0 ?b "[]"] by (auto simp: follow_def)
  have "\<forall>w \<in> set_cmd c'. word_ok ?b w" using parse_good(1) [OF z, of 0 "4 * length ?b + 4"] c'(1) by simp
  then have "map_cmd (string_at (nulterminate c' ?b)) c' = c" using c'(2) string_at_word [OF z] by (metis (mono_tags, lifting) cmd.map_cong0)
  moreover have "fst (peek ?b (length ?b) []) = length ?b" using peek_text [of "length ?b" ?b "[]" "[]"] by simp
  ultimately show ?thesis using c'(1) by (simp add: parsecmd_def)
qed

theorem parsecmd_show_roundtrip_witness:
  "wf_cmd (PIPE (EXEC [[97], [98]]) (BACK (REDIR (EXEC [[99]]) [100] O_RDONLY 0))) \<and>
   show_cmd (PIPE (EXEC [[97], [98]]) (BACK (REDIR (EXEC [[99]]) [100] O_RDONLY 0))) = [40, 97, 32, 98, 41, 124, 40, 40, 40, 99, 41, 60, 100, 41, 38, 41] \<and>
   (\<exists>c' b. parsecmd [40, 97, 32, 98, 41, 124, 40, 40, 40, 99, 41, 60, 100, 41, 38, 41] = Parsed (c', b) \<and>
      map_cmd (string_at b) c' = PIPE (EXEC [[97], [98]]) (BACK (REDIR (EXEC [[99]]) [100] O_RDONLY 0)))"
proof -
  let ?c = "PIPE (EXEC [[97], [98]]) (BACK (REDIR (EXEC [[99]]) [100] O_RDONLY 0))"
  have w: "wf_cmd ?c" by (simp add: wordy_def plain_def isws_iff issym_iff MAXARGS_def redir_mode_def)
  have s: "show_cmd ?c = [40, 97, 32, 98, 41, 124, 40, 40, 40, 99, 41, 60, 100, 41, 38, 41]" by (simp add: redir_op_def)
  show ?thesis using parsecmd_show_roundtrip [OF w] w unfolding s by blast
qed

end
