(* ===== verification/Mkfs.thy ===== *)
theory Mkfs
  imports Fs
begin

section \<open>mkfs: the image the kernel boots from\<close>

text \<open>
  \<^verbatim>\<open>mkfs/mkfs.c\<close>, the host program that lays out the file system image. The image is a file of sectors: \<open>fsimg\<close> gives the content of a sector and
  \<open>imglen\<close> how many there are, so that \<^verbatim>\<open>rsect\<close> of a sector past the end is the short read that makes the program \<^verbatim>\<open>die\<close>. Reading the files named
  on the command line is the host's: a file is given by its path and, when it can be opened, the list of the pieces the successive \<^verbatim>\<open>read\<close> calls return.
  Writing to the image file is taken to succeed. A failed assertion and a call of \<^verbatim>\<open>die\<close> are a \<open>Panic\<close>.
\<close>

unbundle bit_operations_syntax

subsection \<open>The program\<close>

definition NINODES :: nat where "NINODES = 200"
definition nbitmap :: nat where "nbitmap = FSSIZE div BPB + 1"
definition ninodeblocks :: nat where "ninodeblocks = NINODES div IPB + 1"
definition nlog :: nat where "nlog = LOGBLOCKS + 1"
definition nmeta :: nat where "nmeta = 2 + nlog + ninodeblocks + nbitmap"

record mkst =
  fsimg :: "nat \<Rightarrow> block"
  imglen :: nat
  freeinode :: nat
  freeblock :: nat

definition mkfs_sb :: superblock where
  "mkfs_sb = \<lparr>sb_magic = FSMAGIC, sb_size = FSSIZE, sb_nblocks = FSSIZE - nmeta, sb_ninodes = NINODES, sb_nlog = nlog, sb_logstart = 2,
     sb_inodestart = 2 + nlog, sb_bmapstart = 2 + nlog + ninodeblocks\<rparr>"

definition sb_bytes :: "superblock \<Rightarrow> u8 list" where
  "sb_bytes sp = concat (map (\<lambda>n. le_bytes 4 (of_nat n :: u32))
     [sb_magic sp, sb_size sp, sb_nblocks sp, sb_ninodes sp, sb_nlog sp, sb_logstart sp, sb_inodestart sp, sb_bmapstart sp])"

definition wsect :: "nat \<Rightarrow> block \<Rightarrow> mkst \<Rightarrow> mkst" where
  "wsect sec b s = s\<lparr>fsimg := (fsimg s)(sec := b), imglen := max (imglen s) (Suc sec)\<rparr>"

definition rsect :: "nat \<Rightarrow> mkst \<Rightarrow> block kres" where
  "rsect sec s = (if sec < imglen s then Ok (fsimg s sec) else Panic ''read'')"

definition winode :: "nat \<Rightarrow> inode \<Rightarrow> mkst \<Rightarrow> mkst kres" where
  "winode inum ip s = kbind (rsect (IBLOCK inum mkfs_sb) s) (\<lambda>buf. Ok (wsect (IBLOCK inum mkfs_sb) (store_dinode ip (dinode_off inum) buf) s))"

definition rinode :: "nat \<Rightarrow> mkst \<Rightarrow> inode kres" where
  "rinode inum s = kbind (rsect (IBLOCK inum mkfs_sb) s) (\<lambda>buf. Ok (load_dinode buf (dinode_off inum) no_inode))"

definition mkfs_ialloc :: "u16 \<Rightarrow> mkst \<Rightarrow> (nat \<times> mkst) kres" where
  "mkfs_ialloc type s =
     (let inum = freeinode s in
      kbind (winode inum (no_inode\<lparr>i_type := type, i_nlink := 1, i_size := 0\<rparr>) (s\<lparr>freeinode := inum + 1\<rparr>)) (\<lambda>s'. Ok (inum, s')))"

primrec bitmap_of :: "nat \<Rightarrow> block" where
  "bitmap_of 0 = (\<lambda>_. 0)"
| "bitmap_of (Suc i) = (let buf = bitmap_of i in buf(i div 8 := buf (i div 8) OR push_bit (i mod 8) 1))"

definition mkfs_balloc :: "nat \<Rightarrow> mkst \<Rightarrow> mkst kres" where
  "mkfs_balloc n s = (if n < BPB then Ok (wsect (sb_bmapstart mkfs_sb) (bitmap_of n) s) else Panic ''assert'')"

definition slot_alloc :: "nat \<Rightarrow> inode \<Rightarrow> mkst \<Rightarrow> inode \<times> mkst" where
  "slot_alloc k din s =
     (if i_addrs din k = 0 then (din\<lparr>i_addrs := (i_addrs din)(k := of_nat (freeblock s))\<rparr>, s\<lparr>freeblock := freeblock s + 1\<rparr>) else (din, s))"

definition iappend_block :: "nat \<Rightarrow> inode \<Rightarrow> mkst \<Rightarrow> (nat \<times> inode \<times> mkst) kres" where
  "iappend_block fbn din s =
     (if fbn < NDIRECT then
        (case slot_alloc fbn din s of (din, s) \<Rightarrow> Ok (unat (i_addrs din fbn), din, s))
      else
        (case slot_alloc NDIRECT din s of (din, s) \<Rightarrow>
         kbind (rsect (unat (i_addrs din NDIRECT)) s) (\<lambda>indirect.
           if get32 indirect (4 * (fbn - NDIRECT)) = 0 then
             let indirect' = set32 indirect (4 * (fbn - NDIRECT)) (of_nat (freeblock s)) in
             Ok (unat (get32 indirect' (4 * (fbn - NDIRECT))), din, wsect (unat (i_addrs din NDIRECT)) indirect' (s\<lparr>freeblock := freeblock s + 1\<rparr>))
           else Ok (unat (get32 indirect (4 * (fbn - NDIRECT))), din, s))))"

function iappend_loop :: "u8 list \<Rightarrow> nat \<Rightarrow> inode \<Rightarrow> mkst \<Rightarrow> (nat \<times> inode \<times> mkst) kres" where
  "iappend_loop bs off din s =
     (if bs = [] then Ok (off, din, s)
      else let fbn = off div BSIZE in
        if \<not> fbn < MAXFILE then Panic ''assert''
        else kbind (iappend_block fbn din s) (\<lambda>(x, din, s).
          let n1 = min (length bs) ((fbn + 1) * BSIZE - off) in
          kbind (rsect x s) (\<lambda>buf.
          iappend_loop (drop n1 bs) (off + n1) din (wsect x (set_bytes buf (off - fbn * BSIZE) (take n1 bs)) s))))"
  by pat_completeness auto
termination
proof (relation "measure (\<lambda>(bs, _). length bs)", goal_cases)
  case (2 bs off)
  have "off < (off div BSIZE + 1) * BSIZE" by (simp add: BSIZE_def dividend_less_div_times)
  then show ?case using 2 by (cases bs) auto
qed simp

declare iappend_loop.simps [simp del]

definition iappend :: "nat \<Rightarrow> u8 list \<Rightarrow> mkst \<Rightarrow> mkst kres" where
  "iappend inum bs s =
     kbind (rinode inum s) (\<lambda>din.
     kbind (iappend_loop bs (unat (i_size din)) din s) (\<lambda>(off, din, s).
     winode inum (din\<lparr>i_size := of_nat off\<rparr>) s))"

definition mkfs_dirent :: "nat \<Rightarrow> u8 list \<Rightarrow> u8 list" where
  "mkfs_dirent inum name = de_bytes (of_nat inum) (\<lambda>i. if i < length name then name ! i else 0)"

primrec append_reads :: "nat \<Rightarrow> u8 list list \<Rightarrow> mkst \<Rightarrow> mkst kres" where
  "append_reads inum [] s = Ok s"
| "append_reads inum (piece # pieces) s = kbind (iappend inum piece s) (append_reads inum pieces)"

definition drop_user :: "u8 list \<Rightarrow> u8 list" where
  "drop_user path = (if take 5 path = [117, 115, 101, 114, 47] then drop 5 path else path)"

definition skip_underscore :: "u8 list \<Rightarrow> u8 list" where
  "skip_underscore name = (if name \<noteq> [] \<and> hd name = 95 then tl name else name)"

definition mkfs_file :: "u8 list \<Rightarrow> u8 list list option \<Rightarrow> mkst \<Rightarrow> mkst kres" where
  "mkfs_file path content s =
     (let shortname = drop_user path in
      if 47 \<in> set shortname then Panic ''assert''
      else case content of
        None \<Rightarrow> Panic ''open''
      | Some pieces \<Rightarrow>
        let shortname = skip_underscore shortname in
        if \<not> length shortname \<le> DIRSIZ then Panic ''assert''
        else kbind (mkfs_ialloc T_FILE s) (\<lambda>(inum, s).
             kbind (iappend ROOTINO (mkfs_dirent inum shortname) s) (append_reads inum pieces)))"

primrec mkfs_files :: "(u8 list \<times> u8 list list option) list \<Rightarrow> mkst \<Rightarrow> mkst kres" where
  "mkfs_files [] s = Ok s"
| "mkfs_files (f # fs) s = kbind (mkfs_file (fst f) (snd f) s) (mkfs_files fs)"

primrec zero_sects :: "nat \<Rightarrow> mkst \<Rightarrow> mkst" where
  "zero_sects 0 s = s"
| "zero_sects (Suc i) s = wsect i (\<lambda>_. 0) (zero_sects i s)"

definition mkfs_start :: mkst where
  "mkfs_start = wsect 1 (set_bytes (\<lambda>_. 0) 0 (sb_bytes mkfs_sb))
     (zero_sects FSSIZE \<lparr>fsimg = (\<lambda>_ _. 0), imglen = 0, freeinode = 1, freeblock = nmeta\<rparr>)"

definition mkfs_fix_root :: "nat \<Rightarrow> mkst \<Rightarrow> mkst kres" where
  "mkfs_fix_root rootino s =
     kbind (rinode rootino s) (\<lambda>din. winode rootino (din\<lparr>i_size := of_nat ((unat (i_size din) div BSIZE + 1) * BSIZE)\<rparr>) s)"

definition mkfs_main :: "(u8 list \<times> u8 list list option) list \<Rightarrow> mkst kres" where
  "mkfs_main files =
     kbind (mkfs_ialloc T_DIR mkfs_start) (\<lambda>(rootino, s).
     if rootino \<noteq> ROOTINO then Panic ''assert''
     else kbind (iappend rootino (mkfs_dirent rootino [46]) s) (\<lambda>s.
       kbind (iappend rootino (mkfs_dirent rootino [46, 46]) s) (\<lambda>s.
       kbind (mkfs_files files s) (\<lambda>s.
       kbind (mkfs_fix_root rootino s) (\<lambda>s. mkfs_balloc (freeblock s) s)))))"

end
