(* ===== verification/Mkfs_Image.thy ===== *)
theory Mkfs_Image
  imports Mkfs Fs_Content
begin

section \<open>The image mkfs builds\<close>

text \<open>
  The image that \<^verbatim>\<open>mkfs\<close> writes is what the kernel's file system code expects: the super block decodes to the layout, the log is empty, the bitmap marks
  exactly the blocks that are taken, every file has its own blocks and reads back, through the inode's block map, as the bytes that were given. mkfs
  allocates by counting \<^verbatim>\<open>freeblock\<close> up and writes the bitmap once at the end; the invariant is therefore stated of the image with that bitmap already in
  place, where the lemmas on block maps that serve the kernel's \<^verbatim>\<open>bmap\<close> and \<^verbatim>\<open>writei\<close> apply as they are.
\<close>

unbundle bit_operations_syntax

subsection \<open>The layout\<close>

lemma mkfs_sb_simps [simp]:
  "sb_size mkfs_sb = 2000" "sb_inodestart mkfs_sb = 33" "sb_bmapstart mkfs_sb = 46" "data_start mkfs_sb = 47" "sb_logstart mkfs_sb = 2"
  "sb_ninodes mkfs_sb = 200" "bitmap mkfs_sb = {46}"
  by (auto simp: mkfs_sb_def FSSIZE_def NINODES_def nbitmap_def ninodeblocks_def nlog_def param_defs fs_consts data_start_def bitmap_def)

lemma mkfs_layout: "fs_layout mkfs_sb"
  by (simp add: fs_layout_def param_defs fs_consts)

lemma nmeta_eq: "nmeta = 47"
  by (simp add: nmeta_def FSSIZE_def NINODES_def nbitmap_def ninodeblocks_def nlog_def param_defs fs_consts)

lemma BBLOCK_mkfs: "b < 2000 \<Longrightarrow> BBLOCK b mkfs_sb = 46 \<and> b mod BPB = b"
  by (simp add: BBLOCK_def fs_consts)

lemma bitmap_of_Suc: "bitmap_of (Suc i) = bit_on (bitmap_of i) i"
  by (simp add: bit_on_def bm_mask_def Let_def)

lemma is_set_bitmap_of: "is_set (bitmap_of n) j \<longleftrightarrow> j < n"
proof (induction n)
  case 0
  then show ?case by (simp add: is_set_def)
next
  case (Suc n)
  then show ?case unfolding bitmap_of_Suc by auto
qed

text \<open>
  The image as it will be once \<^verbatim>\<open>balloc\<close> has written the bitmap: the blocks below \<^verbatim>\<open>freeblock\<close> are the ones in use. With it the lemmas on the block
  maps of files apply to the allocation by counting that mkfs does.
\<close>

definition vimg :: "mkst \<Rightarrow> nat \<Rightarrow> block" where
  "vimg s = (fsimg s)(46 := bitmap_of (freeblock s))"

definition space_ok :: "mkst \<Rightarrow> bool" where
  "space_ok s \<longleftrightarrow> 47 \<le> freeblock s \<and> freeblock s \<le> 2000 \<and> imglen s = 2000 \<and> (\<forall>b \<ge> freeblock s. fsimg s b = (\<lambda>_. 0))"

lemma used_vimg: "b < 2000 \<Longrightarrow> used (vimg s) mkfs_sb b \<longleftrightarrow> b < freeblock s"
  by (simp add: used_def BBLOCK_mkfs vimg_def is_set_bitmap_of)

lemma take_block:
  assumes "space_ok s" "freeblock s < 2000"
  shows "vimg (s\<lparr>freeblock := freeblock s + 1\<rparr>) = alloc_view (vimg s) mkfs_sb (freeblock s)" "space_ok (s\<lparr>freeblock := freeblock s + 1\<rparr>)"
  using assms BBLOCK_mkfs [OF assms(2)] bitmap_of_Suc [of "freeblock s"]
  by (auto simp: space_ok_def alloc_view_def vimg_def fun_eq_iff simp del: bitmap_of.simps(2))

lemma wsect_simps [simp]: "freeblock (wsect n d s) = freeblock s" "freeinode (wsect n d s) = freeinode s"
  "n < imglen s \<Longrightarrow> imglen (wsect n d s) = imglen s" "fsimg (wsect n d s) = (fsimg s)(n := d)"
  by (auto simp: wsect_def)

lemma vimg_wsect: "n \<noteq> 46 \<Longrightarrow> vimg (wsect n d s) = (vimg s)(n := d)"
  by (auto simp: vimg_def)

lemma space_wsect: "space_ok s \<Longrightarrow> n < freeblock s \<Longrightarrow> space_ok (wsect n d s)"
  by (auto simp: space_ok_def)

subsection \<open>Appending to a file\<close>

text \<open>Finding or allocating the block for the bytes at \<open>fbn * BSIZE\<close>.\<close>

definition grown_to :: "inode \<Rightarrow> mkst \<Rightarrow> inode \<Rightarrow> mkst \<Rightarrow> bool" where
  "grown_to din s din' s' \<longleftrightarrow> grown mkfs_sb (vimg s) (i_addrs din) (vimg s') (i_addrs din') \<and> space_ok s' \<and> freeinode s' = freeinode s \<and>
     freeblock s \<le> freeblock s' \<and> din' = din\<lparr>i_addrs := i_addrs din'\<rparr> \<and> (\<forall>j > NDIRECT. i_addrs din' j = i_addrs din j)"

lemma grown_to_refl: "addrs_ok (vimg s) mkfs_sb (i_addrs din) \<Longrightarrow> space_ok s \<Longrightarrow> grown_to din s din s"
  by (simp add: grown_to_def grown_refl)

lemma grown_to_trans: "grown_to din s din' s' \<Longrightarrow> grown_to din' s' din'' s'' \<Longrightarrow> grown_to din s din'' s''"
proof -
  assume a: "grown_to din s din' s'" "grown_to din' s' din'' s''"
  have e: "din' = din\<lparr>i_addrs := i_addrs din'\<rparr>" "din'' = din'\<lparr>i_addrs := i_addrs din''\<rparr>" using a by (auto simp only: grown_to_def)
  have "din'' = din\<lparr>i_addrs := i_addrs din''\<rparr>" by (subst e(2), subst e(1)) simp
  moreover have "grown mkfs_sb (vimg s) (i_addrs din) (vimg s'') (i_addrs din'')" using a grown_trans by (auto simp only: grown_to_def)
  ultimately show ?thesis using a by (auto simp only: grown_to_def)
qed

lemma slot_alloc_ok:
  assumes A: "addrs_ok (vimg s) mkfs_sb (i_addrs din)" and sp: "space_ok s" and k: "k \<le> NDIRECT" and e: "slot_alloc k din s = (din', s')"
    and lt: "unat (i_addrs din' k) < 2000"
  shows "grown_to din s din' s'" "unat (i_addrs din' k) \<noteq> 0"
proof -
  let ?a = "freeblock s"
  have "grown_to din s din' s' \<and> unat (i_addrs din' k) \<noteq> 0"
  proof (cases "i_addrs din k = 0")
    case True
    then have e': "din' = din\<lparr>i_addrs := (i_addrs din)(k := of_nat ?a)\<rparr>" "s' = s\<lparr>freeblock := ?a + 1\<rparr>" using e by (simp_all add: slot_alloc_def)
    have "?a \<le> 2000" using sp by (simp add: space_ok_def)
    then have a: "?a < 2000" using lt small_word [of ?a] by (simp add: e')
    have "\<not> used (vimg s) mkfs_sb ?a" "47 \<le> ?a" using used_vimg [OF a] sp by (simp_all add: space_ok_def)
    then have g: "grown mkfs_sb (vimg s) (i_addrs din) (alloc_view (vimg s) mkfs_sb ?a) ((i_addrs din)(k := of_nat ?a))" "unat (of_nat ?a :: u32) = ?a" "?a \<noteq> 0"
      using enter_slot [OF A mkfs_layout _ _ _ k True, of ?a] a by simp_all
    then show ?thesis using take_block [OF sp a] k by (simp add: grown_to_def e')
  next
    case False
    then show ?thesis using e grown_to_refl [OF A sp] by (simp add: slot_alloc_def unat_eq_0)
  qed
  then show "grown_to din s din' s'" "unat (i_addrs din' k) \<noteq> 0" by simp_all
qed

lemma entry_alloc_ok:
  assumes A: "addrs_ok (vimg s) mkfs_sb (i_addrs din)" and sp: "space_ok s" and k: "k < NINDIRECT" and n: "ind_of (i_addrs din) \<noteq> 0"
    and z: "get32 (fsimg s (ind_of (i_addrs din))) (4 * k) = 0" and a: "freeblock s < 2000"
    and s': "s' = wsect (ind_of (i_addrs din)) (set32 (fsimg s (ind_of (i_addrs din))) (4 * k) (of_nat (freeblock s))) (s\<lparr>freeblock := freeblock s + 1\<rparr>)"
  shows "grown_to din s din s'" "blk_of (vimg s') (i_addrs din) (NDIRECT + k) = freeblock s"
proof -
  let ?a = "freeblock s" let ?n = "ind_of (i_addrs din)" let ?s1 = "s\<lparr>freeblock := freeblock s + 1\<rparr>"
  have db: "data_block (vimg s) mkfs_sb ?n" using addrs_okD(1) [OF A file_blocksI(2) [OF n]] .
  then have nb: "?n \<noteq> 46" "?n < 2000" "?n < ?a" using used_vimg [of ?n s] by (simp_all add: data_block_def)
  have nu: "\<not> used (vimg s) mkfs_sb ?a" "47 \<le> ?a" using used_vimg [OF a] sp by (simp_all add: space_ok_def)
  have v1: "vimg ?s1 ?n = fsimg s ?n" "vimg s ?n = fsimg s ?n" using nb by (simp_all add: vimg_def)
  have V': "vimg s' = (alloc_view (vimg s) mkfs_sb ?a)(?n := set32 (alloc_view (vimg s) mkfs_sb ?a ?n) (4 * k) (of_nat ?a))"
    unfolding s' vimg_wsect [OF nb(1)] take_block(1) [OF sp a, symmetric] v1 ..
  note e = enter_entry [OF A mkfs_layout _ nu(1) _ k n _ V']
  show "blk_of (vimg s') (i_addrs din) (NDIRECT + k) = ?a" using e(2) a nu z v1 by simp
  have "grown mkfs_sb (vimg s) (i_addrs din) (vimg s') (i_addrs din)" using e(1) a nu z v1 by simp
  moreover have "space_ok s'" unfolding s' using take_block(2) [OF sp a] nb by (intro space_wsect) simp_all
  ultimately show "grown_to din s din s'" by (simp add: grown_to_def s')
qed

lemma grown_toD:
  assumes "grown_to din s din' s'"
  shows "grown mkfs_sb (vimg s) (i_addrs din) (vimg s') (i_addrs din')" "space_ok s'" "freeinode s' = freeinode s" "freeblock s \<le> freeblock s'"
    "din' = din\<lparr>i_addrs := i_addrs din'\<rparr>" "j > NDIRECT \<Longrightarrow> i_addrs din' j = i_addrs din j" "addrs_ok (vimg s') mkfs_sb (i_addrs din')"
  using assms by (auto simp only: grown_to_def grown_def)

lemma iappend_block_ok:
  assumes A: "addrs_ok (vimg s) mkfs_sb (i_addrs din)" and sp: "space_ok s" and fbn: "fbn < MAXFILE"
    and r: "iappend_block fbn din s = Ok (x, din', s')" and x: "x < imglen s'"
  shows "grown_to din s din' s' \<and> blk_of (vimg s') (i_addrs din') fbn = x \<and> x \<noteq> 0"
proof -
  obtain d1 s1 where e: "slot_alloc (min fbn NDIRECT) din s = (d1, s1)" by (cases "slot_alloc (min fbn NDIRECT) din s")
  have il: "imglen s = 2000" "imglen s1 = 2000" using sp e by (auto simp: space_ok_def slot_alloc_def split: if_splits)
  show ?thesis
  proof (cases "fbn < NDIRECT")
    case True
    then have e': "din' = d1" "s' = s1" "x = unat (i_addrs d1 fbn)" "slot_alloc fbn din s = (d1, s1)" using r e by (auto simp: iappend_block_def)
    then show ?thesis using slot_alloc_ok [OF A sp _ e'(4)] True x il by (simp add: blk_of_slot)
  next
    case False
    then obtain k where k: "fbn = NDIRECT + k" "k < NINDIRECT" using fbn that [of "fbn - NDIRECT"] by (simp add: MAXFILE_def)
    let ?n = "ind_of (i_addrs d1)"
    have e': "slot_alloc NDIRECT din s = (d1, s1)" and n: "unat (i_addrs d1 NDIRECT) = ?n" using e k by (simp_all add: ind_of_def)
    have nl: "?n < 2000" using r e' k il n by (auto simp: iappend_block_def rsect_def split: if_splits)
    then have g: "grown_to din s d1 s1" "?n \<noteq> 0" using slot_alloc_ok [OF A sp _ e'] n by simp_all
    note d = grown_toD [OF g(1)]
    have n46: "?n \<noteq> 46" using addrs_okD(1) [OF d(7) file_blocksI(2) [OF g(2)]] by (simp add: data_block_def)
    then have v: "vimg s1 ?n = fsimg s1 ?n" by (simp add: vimg_def)
    have run: "(if get32 (fsimg s1 ?n) (4 * k) = 0 then Ok (unat (of_nat (freeblock s1) :: u32), d1,
        wsect ?n (set32 (fsimg s1 ?n) (4 * k) (of_nat (freeblock s1))) (s1\<lparr>freeblock := freeblock s1 + 1\<rparr>))
      else Ok (unat (get32 (fsimg s1 ?n) (4 * k)), d1, s1)) = Ok (x, din', s')"
      using r k nl il by (auto simp: iappend_block_def e' n rsect_def Let_def split: if_splits)
    show ?thesis
    proof (cases "get32 (fsimg s1 ?n) (4 * k) = 0")
      case True
      then have s': "x = unat (of_nat (freeblock s1) :: u32)" "din' = d1"
        "s' = wsect ?n (set32 (fsimg s1 ?n) (4 * k) (of_nat (freeblock s1))) (s1\<lparr>freeblock := freeblock s1 + 1\<rparr>)" using run by auto
      have "unat (of_nat (freeblock s1) :: u32) = freeblock s1" using d(2) by (intro small_word) (simp add: space_ok_def)
      then have f: "x = freeblock s1" "freeblock s1 < 2000" "freeblock s1 \<noteq> 0" using s' x il nl d(2) by (simp_all add: space_ok_def)
      note en = entry_alloc_ok [OF d(7,2) k(2) g(2) True f(2) s'(3)]
      show ?thesis using grown_to_trans [OF g(1) en(1)] en(2) f s'(2) k by simp
    next
      case False
      then have "x = unat (get32 (fsimg s1 ?n) (4 * k))" "din' = d1" "s' = s1" using run by auto
      then show ?thesis using False g k v by (simp add: blk_of_def unat_eq_0)
    qed
  qed
qed

text \<open>The loop writes the bytes at the end of the file and leaves every other block of the image alone.\<close>

definition appended :: "nat \<Rightarrow> u8 list \<Rightarrow> inode \<Rightarrow> mkst \<Rightarrow> inode \<Rightarrow> mkst \<Rightarrow> bool" where
  "appended off bs din s din' s' \<longleftrightarrow> file_wrote mkfs_sb (vimg s) (i_addrs din) off bs (vimg s') (i_addrs din') \<and> space_ok s' \<and> freeinode s' = freeinode s \<and>
     freeblock s \<le> freeblock s' \<and> din' = din\<lparr>i_addrs := i_addrs din'\<rparr> \<and> (\<forall>j > NDIRECT. i_addrs din' j = i_addrs din j)"

lemma appendedD:
  assumes "appended off bs din s din' s'"
  shows "file_wrote mkfs_sb (vimg s) (i_addrs din) off bs (vimg s') (i_addrs din')" "space_ok s'" "freeinode s' = freeinode s" "freeblock s \<le> freeblock s'"
    "din' = din\<lparr>i_addrs := i_addrs din'\<rparr>" "j > NDIRECT \<Longrightarrow> i_addrs din' j = i_addrs din j" "addrs_ok (vimg s') mkfs_sb (i_addrs din')"
  using assms by (auto simp only: appended_def file_wrote_def)

lemma appended_grown: "grown_to din s din' s' \<Longrightarrow> appended off [] din s din' s'"
  by (auto simp only: appended_def grown_to_def grown_wrote)

lemma appended_trans:
  assumes "appended off bs din s din' s'" "appended (off + length bs) cs din' s' din'' s''"
  shows "appended off (bs @ cs) din s din'' s''"
proof -
  note a = appendedD [OF assms(1)] and b = appendedD [OF assms(2)]
  have "din'' = din\<lparr>i_addrs := i_addrs din''\<rparr>" by (subst b(5), subst a(5)) simp
  then show ?thesis unfolding appended_def using file_wrote_trans [OF a(1) b(1)] a(3,4,6) b(2-4,6) by auto
qed

lemma append_chunk:
  assumes A: "addrs_ok (vimg s) mkfs_sb (i_addrs din)" and sp: "space_ok s" and off: "off div BSIZE < MAXFILE"
    and r: "iappend_block (off div BSIZE) din s = Ok (x, din', s')" and x: "rsect x s' = Ok buf"
    and n1: "n1 = min (length bs) ((off div BSIZE + 1) * BSIZE - off)"
  shows "appended off (take n1 bs) din s din' (wsect x (set_bytes buf (off - off div BSIZE * BSIZE) (take n1 bs)) s')"
proof -
  let ?bs = "take n1 bs" let ?fbn = "off div BSIZE"
  have xl: "x < imglen s'" and buf: "buf = fsimg s' x" using x by (auto simp: rsect_def split: if_splits)
  note b = iappend_block_ok [OF A sp off r xl]
  have g: "grown_to din s din' s'" and bl: "blk_of (vimg s') (i_addrs din') ?fbn = x" and nz: "x \<noteq> 0" using b by blast+
  note d = grown_toD [OF g]
  have om: "off - ?fbn * BSIZE = off mod BSIZE" by (simp add: minus_div_mult_eq_mod)
  have len: "length ?bs \<le> BSIZE - off mod BSIZE" unfolding n1 om [symmetric] by auto
  have nz': "blk_of (vimg s') (i_addrs din') ?fbn \<noteq> 0" using bl nz by simp
  note w = overwrite_wrote [OF d(7) mkfs_layout off nz' len, unfolded bl]
  have db: "data_block (vimg s') mkfs_sb x" using addrs_okD(1) [OF d(7) file_blocksI(1) [OF off nz']] bl by simp
  then have xb: "x \<noteq> 46" "x < freeblock s'" using used_vimg [of x s'] by (simp_all add: data_block_def)
  have v: "vimg s' x = buf" using xb buf by (simp add: vimg_def)
  have "appended off ?bs din' s' din' (wsect x (set_bytes buf (off mod BSIZE) ?bs) s')"
    unfolding appended_def vimg_wsect [OF xb(1)] using w space_wsect [OF d(2) xb(2)] unfolding v by simp
  then show ?thesis unfolding om using appended_trans [OF appended_grown [OF g, of off]] by fastforce
qed

lemma iappend_loop_ok:
  assumes "addrs_ok (vimg s) mkfs_sb (i_addrs din)" "space_ok s" "iappend_loop bs off din s = Ok (off', din', s')" "off \<le> MAXFILE * BSIZE"
  shows "off' = off + length bs \<and> off' \<le> MAXFILE * BSIZE \<and> appended off bs din s din' s'"
  using assms
proof (induction bs off din s rule: iappend_loop.induct)
  case (1 bs off din s)
  show ?case
  proof (cases "bs = []")
    case True
    then show ?thesis using 1 appended_grown [OF grown_to_refl [OF 1(2,3)], of off] by (simp add: iappend_loop.simps)
  next
    case bs: False
    let ?fbn = "off div BSIZE" let ?n1 = "min (length bs) ((off div BSIZE + 1) * BSIZE - off)"
    have f: "?fbn < MAXFILE" using 1(4) bs by (subst (asm) iappend_loop.simps) (simp add: Let_def split: if_splits)
    obtain x d1 s1 buf where r: "iappend_block ?fbn din s = Ok (x, d1, s1)" "rsect x s1 = Ok buf"
      and l: "iappend_loop (drop ?n1 bs) (off + ?n1) d1 (wsect x (set_bytes buf (off - ?fbn * BSIZE) (take ?n1 bs)) s1) = Ok (off', din', s')"
      using 1(4) bs f by (subst (asm) iappend_loop.simps) (auto simp: Let_def)
    note a = append_chunk [OF 1(2,3) f r refl, where bs = bs]
    have "off < (?fbn + 1) * BSIZE" by (simp add: BSIZE_def dividend_less_div_times)
    then have "off + ?n1 \<le> (?fbn + 1) * BSIZE" by linarith
    also have "\<dots> \<le> MAXFILE * BSIZE" using f by (intro mult_le_mono1) simp
    finally have le: "off + ?n1 \<le> MAXFILE * BSIZE" .
    note ih = 1(1) [OF bs refl _ r(1) refl refl refl r(2) appendedD(7) [OF a] appendedD(2) [OF a] l le]
    have len: "length (take ?n1 bs) = ?n1" by simp
    have "appended off (take ?n1 bs @ drop ?n1 bs) din s din' s'" using appended_trans [OF a, unfolded len] ih f by blast
    then show ?thesis using ih f by simp
  qed
qed

subsection \<open>The files of the image\<close>

definition din_at :: "(nat \<Rightarrow> block) \<Rightarrow> nat \<Rightarrow> inode" where
  "din_at V i = load_dinode (V (IBLOCK i mkfs_sb)) (dinode_off i) no_inode"

definition blocks_at :: "(nat \<Rightarrow> block) \<Rightarrow> nat \<Rightarrow> nat set" where
  "blocks_at V i = file_blocks V (i_addrs (din_at V i))"

text \<open>
  Inode \<open>i\<close> is of type \<open>ty\<close>, its size field is \<open>z\<close>, and its block map gives the bytes \<open>bs\<close> followed by zeros, with every byte of \<open>bs\<close> in a block of
  the file.
\<close>

definition data_map :: "(nat \<Rightarrow> block) \<Rightarrow> (nat \<Rightarrow> u32) \<Rightarrow> u8 list \<Rightarrow> bool" where
  "data_map V A bs \<longleftrightarrow> addrs_ok V mkfs_sb A \<and> no_holes V A (length bs) \<and> (\<forall>k < MAXFILE * BSIZE. fbyte V A k = (if k < length bs then bs ! k else 0))"

definition data_at :: "(nat \<Rightarrow> block) \<Rightarrow> nat \<Rightarrow> u8 list \<Rightarrow> bool" where
  "data_at V i bs \<longleftrightarrow> data_map V (i_addrs (din_at V i)) bs"

definition file_at :: "(nat \<Rightarrow> block) \<Rightarrow> nat \<Rightarrow> u16 \<Rightarrow> nat \<Rightarrow> u8 list \<Rightarrow> bool" where
  "file_at V i ty z bs \<longleftrightarrow> i_type (din_at V i) = ty \<and> i_nlink (din_at V i) = 1 \<and> unat (i_size (din_at V i)) = z \<and> data_at V i bs"

lemma data_at_cong:
  assumes f: "data_at V i bs" and d: "din_at V' i = din_at V i" and n: "\<forall>n \<in> blocks_at V i. V' n = V n"
    and u: "\<forall>b < 2000. used V mkfs_sb b \<longrightarrow> used V' mkfs_sb b"
  shows "data_at V' i bs" "blocks_at V' i = blocks_at V i"
proof -
  let ?A = "i_addrs (din_at V i)"
  have bl: "blk_of V' ?A = blk_of V ?A"
    using n file_blocksI(2) [of ?A V] unfolding blocks_at_def by (intro ext) (auto simp: blk_of_def)
  have fb: "file_blocks V' ?A = file_blocks V ?A" by (simp add: file_blocks_def bl)
  then show "blocks_at V' i = blocks_at V i" by (simp add: blocks_at_def d)
  have ok: "addrs_ok V' mkfs_sb ?A" using f u unfolding data_at_def data_map_def addrs_ok_def fb bl data_block_def by auto
  have "fbyte V' ?A k = fbyte V ?A k" if "k < MAXFILE * BSIZE" for k
    using n file_blocksI(1) [OF block_div [OF that], of V ?A] unfolding blocks_at_def by (auto simp: fbyte_def bl)
  then show "data_at V' i bs" using f ok unfolding data_at_def d data_map_def no_holes_def bl by simp
qed

lemma no_addrs: "ind_of (\<lambda>_. 0) = 0" "blk_of V (\<lambda>_. 0) = (\<lambda>_. 0)" "file_blocks V (\<lambda>_. 0) = {}" "addrs_ok V sp (\<lambda>_. 0)" "fbyte V (\<lambda>_. 0) k = 0"
proof -
  show i: "ind_of (\<lambda>_. 0) = 0" by (simp add: ind_of_def)
  show b: "blk_of V (\<lambda>_. 0) = (\<lambda>_. 0)" by (simp add: blk_of_def i fun_eq_iff)
  show f: "file_blocks V (\<lambda>_. 0) = {}" by (auto simp: file_blocks_def i b)
  show "addrs_ok V sp (\<lambda>_. 0)" "fbyte V (\<lambda>_. 0) k = 0" by (simp_all add: addrs_ok_def f b fbyte_def)
qed

lemma IBLOCK_mkfs: "i < 200 \<Longrightarrow> IBLOCK i mkfs_sb \<in> inode_area mkfs_sb \<and> 33 \<le> IBLOCK i mkfs_sb \<and> IBLOCK i mkfs_sb < 46"
  using IBLOCK_area [OF mkfs_layout, of i] by (simp add: IBLOCK_def fs_consts)

text \<open>The state of a run: the files written so far (inode number to type and content), each in blocks of its own, the inodes not yet used zero.\<close>

definition content_of :: "(nat \<rightharpoonup> u16 \<times> u8 list) \<Rightarrow> nat \<Rightarrow> u8 list" where
  "content_of F i = (case F i of None \<Rightarrow> [] | Some f \<Rightarrow> snd f)"

definition image_ok :: "mkst \<Rightarrow> (nat \<rightharpoonup> u16 \<times> u8 list) \<Rightarrow> bool" where
  "image_ok s F \<longleftrightarrow> space_ok s \<and> dom F = {1..<freeinode s} \<and> 1 \<le> freeinode s \<and> freeinode s \<le> 200 \<and>
     (\<forall>b. 2 \<le> b \<and> b < 33 \<longrightarrow> fsimg s b = (\<lambda>_. 0)) \<and> fsimg s 1 = set_bytes (\<lambda>_. 0) 0 (sb_bytes mkfs_sb) \<and>
     (\<forall>i < 200. data_at (vimg s) i (content_of F i) \<and>
        (case F i of None \<Rightarrow> din_at (vimg s) i = no_inode | Some f \<Rightarrow> file_at (vimg s) i (fst f) (length (snd f)) (snd f))) \<and>
     (\<forall>i < 200. \<forall>j < 200. i \<noteq> j \<longrightarrow> blocks_at (vimg s) i \<inter> blocks_at (vimg s) j = {})"

lemma image_okD:
  assumes "image_ok s F"
  shows "space_ok s" "dom F = {1..<freeinode s}" "freeinode s \<le> 200" "2 \<le> b \<Longrightarrow> b < 33 \<Longrightarrow> fsimg s b = (\<lambda>_. 0)"
    "fsimg s 1 = set_bytes (\<lambda>_. 0) 0 (sb_bytes mkfs_sb)" "i < 200 \<Longrightarrow> data_at (vimg s) i (content_of F i)"
    "i < 200 \<Longrightarrow> F i = None \<Longrightarrow> din_at (vimg s) i = no_inode"
    "i < 200 \<Longrightarrow> F i = Some (ty, bs) \<Longrightarrow> file_at (vimg s) i ty (length bs) bs"
    "i < 200 \<Longrightarrow> j < 200 \<Longrightarrow> i \<noteq> j \<Longrightarrow> blocks_at (vimg s) i \<inter> blocks_at (vimg s) j = {}"
    "1 \<le> freeinode s"
  using assms unfolding image_ok_def by (auto split: option.splits)

text \<open>Blocks outside the file and the bitmap that are in use stay as they are: the inodes, the log and the other files.\<close>

lemma wrote_frame:
  assumes w: "file_wrote mkfs_sb V A off bs V' A'" and n: "n \<noteq> 46" "n \<notin> file_blocks V A" "n < 2000 \<Longrightarrow> used V mkfs_sb n"
  shows "V' n = V n" "n \<notin> file_blocks V' A'"
  using w n unfolding file_wrote_def by auto

lemma wrote_used: "file_wrote mkfs_sb V A off bs V' A' \<Longrightarrow> b < 2000 \<Longrightarrow> used V mkfs_sb b \<Longrightarrow> used V' mkfs_sb b"
  unfolding file_wrote_def by auto

lemma blocks_at_data:
  assumes "data_at V i bs" "n \<in> blocks_at V i"
  shows "47 \<le> n" "n < 2000" "used V mkfs_sb n"
  using assms addrs_okD(1) [of V mkfs_sb "i_addrs (din_at V i)" n] by (auto simp: data_at_def data_map_def blocks_at_def data_block_def)

lemma wrote_other_files:
  assumes I: "image_ok s F" and i: "i < 200" and j: "j < 200" "j \<noteq> i" and w: "file_wrote mkfs_sb (vimg s) (i_addrs (din_at (vimg s) i)) off bs V' A'"
  shows "din_at V' j = din_at (vimg s) j" "data_at V' j (content_of F j)" "blocks_at V' j = blocks_at (vimg s) j" "blocks_at V' j \<inter> file_blocks V' A' = {}"
proof -
  note D = image_okD [OF I]
  have sp: "47 \<le> freeblock s" using D(1) by (simp add: space_ok_def)
  have "IBLOCK j mkfs_sb \<notin> blocks_at (vimg s) i" using blocks_at_data(1) [OF D(6) [OF i]] IBLOCK_mkfs [OF j(1)] by fastforce
  then show d: "din_at V' j = din_at (vimg s) j" using wrote_frame(1) [OF w, of "IBLOCK j mkfs_sb"] IBLOCK_mkfs [OF j(1)] used_vimg [of _ s] sp
    by (simp add: din_at_def blocks_at_def)
  have n: "V' n = vimg s n" "n \<notin> file_blocks V' A'" if "n \<in> blocks_at (vimg s) j" for n
  proof -
    note b = blocks_at_data [OF D(6) [OF j(1)] that]
    have "n \<notin> blocks_at (vimg s) i" using D(9) [OF i j(1)] j(2) that by auto
    then show "V' n = vimg s n" "n \<notin> file_blocks V' A'" using wrote_frame [OF w, of n] b by (simp_all add: blocks_at_def)
  qed
  have u: "\<forall>b < 2000. used (vimg s) mkfs_sb b \<longrightarrow> used V' mkfs_sb b" using wrote_used [OF w] by blast
  have n1: "\<forall>n \<in> blocks_at (vimg s) j. V' n = vimg s n" using n by blast
  note c = data_at_cong [OF D(6) [OF j(1)] d n1 u]
  show "data_at V' j (content_of F j)" "blocks_at V' j = blocks_at (vimg s) j" by (fact c)+
  show "blocks_at V' j \<inter> file_blocks V' A' = {}" unfolding c(2) using n by blast
qed

lemma din_at_store:
  assumes "i < 200" "\<forall>j > NDIRECT. i_addrs d j = 0" "V' = V(IBLOCK i mkfs_sb := store_dinode d (dinode_off i) (V (IBLOCK i mkfs_sb)))"
  shows "i_addrs (din_at V' i) = i_addrs d" "i_type (din_at V' i) = i_type d" "i_nlink (din_at V' i) = i_nlink d" "i_size (din_at V' i) = i_size d"
    "j < 200 \<Longrightarrow> j \<noteq> i \<Longrightarrow> din_at V' j = din_at V j"
proof -
  show "i_addrs (din_at V' i) = i_addrs d" using assms(2) by (auto simp: din_at_def assms(3) load_store_dinode no_inode_def fun_eq_iff)
  show "i_type (din_at V' i) = i_type d" "i_nlink (din_at V' i) = i_nlink d" "i_size (din_at V' i) = i_size d"
    by (simp_all add: din_at_def assms(3) load_store_dinode)
  show "din_at V' j = din_at V j" if j: "j < 200" "j \<noteq> i"
  proof (cases "IBLOCK j mkfs_sb = IBLOCK i mkfs_sb")
    case True
    then have "j div IPB = i div IPB" by (simp add: IBLOCK_def)
    then have "dinode_off j \<noteq> dinode_off i" using j(2) unfolding dinode_off_def by (metis div_mult_mod_eq mult_cancel1 zero_neq_numeral)
    then show ?thesis unfolding din_at_def assms(3) True by (simp add: load_store_other)
  next
    case False
    then show ?thesis by (simp add: din_at_def assms(3))
  qed
qed

lemma data_after_write:
  assumes D: "data_map V A old" and w: "file_wrote mkfs_sb V A (length old) bs V' A'"
    and le: "length old + length bs \<le> MAXFILE * BSIZE"
  shows "data_map V' A' (old @ bs)"
proof -
  have "fbyte V' A' k = (if k < length (old @ bs) then (old @ bs) ! k else 0)" if "k < MAXFILE * BSIZE" for k
  proof -
    have "fbyte V' A' k = (if length old \<le> k \<and> k < length old + length bs then bs ! (k - length old) else fbyte V A k)"
      using w that unfolding file_wrote_def by blast
    moreover have "fbyte V A k = (if k < length old then old ! k else 0)" using D that by (simp add: data_map_def)
    ultimately show ?thesis by (auto simp: nth_append)
  qed
  moreover have "blk_of V' A' (k div BSIZE) \<noteq> 0" if k: "k < length (old @ bs)" for k
  proof (cases "k < length old")
    case True
    then have "blk_of V A (k div BSIZE) \<noteq> 0" using D by (simp add: data_map_def no_holes_def)
    then show ?thesis using w block_div [of k] k le unfolding file_wrote_def by (metis length_append order_less_le_trans)
  next
    case False
    then show ?thesis using w k le unfolding file_wrote_def by auto
  qed
  ultimately show ?thesis using w le unfolding data_map_def no_holes_def file_wrote_def by simp
qed

lemma data_map_inode:
  assumes "data_map V A bs" "i < 200"
  shows "data_map (V(IBLOCK i mkfs_sb := d)) A bs" "file_blocks (V(IBLOCK i mkfs_sb := d)) A = file_blocks V A"
proof -
  have "addrs_ok V mkfs_sb A" "IBLOCK i mkfs_sb \<in> inode_area mkfs_sb" using assms IBLOCK_mkfs by (auto simp: data_map_def)
  note n = inode_area_neutral [OF this(1) mkfs_layout this(2)]
  show "file_blocks (V(IBLOCK i mkfs_sb := d)) A = file_blocks V A" by (rule n(5))
  show "data_map (V(IBLOCK i mkfs_sb := d)) A bs" using assms(1) n(4,6) unfolding data_map_def no_holes_def n(2) by auto
qed

lemma winode_Ok:
  assumes "winode i d s = Ok s'" "i < 200" "space_ok s"
  shows "vimg s' = (vimg s)(IBLOCK i mkfs_sb := store_dinode d (dinode_off i) (vimg s (IBLOCK i mkfs_sb)))" "space_ok s'" "freeinode s' = freeinode s"
    "b < 33 \<Longrightarrow> fsimg s' b = fsimg s b"
proof -
  note n = IBLOCK_mkfs [OF assms(2)]
  have s': "s' = wsect (IBLOCK i mkfs_sb) (store_dinode d (dinode_off i) (fsimg s (IBLOCK i mkfs_sb))) s"
    using assms(1) by (auto simp: winode_def rsect_def split: if_splits)
  show "vimg s' = (vimg s)(IBLOCK i mkfs_sb := store_dinode d (dinode_off i) (vimg s (IBLOCK i mkfs_sb)))" using n by (simp add: s' vimg_wsect) (simp add: vimg_def)
  show "space_ok s'" unfolding s' using assms(3) n by (intro space_wsect) (auto simp: space_ok_def)
  show "freeinode s' = freeinode s" "b < 33 \<Longrightarrow> fsimg s' b = fsimg s b" using n by (auto simp: s')
qed

text \<open>Writing back an inode after bytes were appended to its file.\<close>

lemma image_store:
  assumes I: "image_ok s F" and i: "i < 200" and w: "file_wrote mkfs_sb (vimg s) (i_addrs (din_at (vimg s) i)) (length (content_of F i)) bs (vimg s1) (i_addrs d)"
    and le: "length (content_of F i) + length bs \<le> MAXFILE * BSIZE" and sp: "space_ok s1" "dom (F(i \<mapsto> f)) = {1..<freeinode s1}" "freeinode s1 \<le> 200"
    and d: "\<forall>j > NDIRECT. i_addrs d j = 0" "i_nlink d = 1" "unat (i_size d) = length (snd f)" "f = (i_type d, content_of F i @ bs)"
    and r: "winode i d s1 = Ok s'"
  shows "image_ok s' (F(i \<mapsto> f))"
proof -
  let ?V = "vimg s" let ?V1 = "vimg s1" let ?V' = "vimg s'"
  note D = image_okD [OF I] and W = winode_Ok [OF r i sp(1)]
  note S = din_at_store [OF i d(1) W(1)]
  have low: "fsimg s' b = fsimg s b" if "b < 33" for b
  proof -
    have "b \<notin> file_blocks ?V (i_addrs (din_at ?V i))" using blocks_at_data(1) [OF D(6) [OF i]] that by (fastforce simp: blocks_at_def)
    moreover have "used ?V mkfs_sb b" using that used_vimg [of b s] D(1) by (simp add: space_ok_def)
    ultimately have "?V1 b = ?V b" using wrote_frame(1) [OF w, of b] that by simp
    then show ?thesis using W(4) [OF that] that by (simp add: vimg_def)
  qed
  have m: "data_map ?V1 (i_addrs d) (content_of F i @ bs)" using data_after_write [OF _ w le] D(6) [OF i] by (simp add: data_at_def)
  have new: "data_at ?V' i (content_of F i @ bs)" "blocks_at ?V' i = file_blocks ?V1 (i_addrs d)"
    unfolding data_at_def blocks_at_def S(1) unfolding W(1) using data_map_inode [OF m i] by blast+
  have oth: "din_at ?V' j = din_at ?V j" "data_at ?V' j (content_of F j)" "blocks_at ?V' j = blocks_at ?V j" "blocks_at ?V j \<inter> blocks_at ?V' i = {}"
    if j: "j < 200" "j \<noteq> i" for j
  proof -
    note o1 = wrote_other_files [OF I i j w]
    have m1: "data_map ?V1 (i_addrs (din_at ?V1 j)) (content_of F j)" using o1(2) by (simp add: data_at_def)
    show "din_at ?V' j = din_at ?V j" using S(5) [OF j] o1(1) by simp
    show "data_at ?V' j (content_of F j)" "blocks_at ?V' j = blocks_at ?V j"
      unfolding data_at_def blocks_at_def S(5) [OF j] unfolding W(1) using data_map_inode [OF m1 i] o1(3) by (auto simp: blocks_at_def)
    show "blocks_at ?V j \<inter> blocks_at ?V' i = {}" using o1(3,4) new(2) by auto
  qed
  have own: "file_at ?V' i (fst f) (length (snd f)) (snd f)" using new(1) d S by (simp add: file_at_def)
  have per: "data_at ?V' j (content_of (F(i \<mapsto> f)) j) \<and> (case (F(i \<mapsto> f)) j of None \<Rightarrow> din_at ?V' j = no_inode
      | Some g \<Rightarrow> file_at ?V' j (fst g) (length (snd g)) (snd g))" if "j < 200" for j
  proof (cases "j = i")
    case True
    then show ?thesis using own new(1) d(4) by (simp add: content_of_def)
  next
    case False
    note o2 = oth [OF that False]
    have "content_of (F(i \<mapsto> f)) j = content_of F j" using False by (simp add: content_of_def)
    moreover have "file_at ?V' j (fst g) (length (snd g)) (snd g)" if "F j = Some g" for g
      using D(8) [OF \<open>j < 200\<close>, of "fst g" "snd g"] that o2(1,2) by (simp add: file_at_def content_of_def)
    ultimately show ?thesis using D(7) [OF that] o2 False by (simp split: option.splits)
  qed
  have dis: "blocks_at ?V' j \<inter> blocks_at ?V' k = {}" if "j < 200" "k < 200" "j \<noteq> k" for j k
    using that oth(3,4) [of j] oth(3,4) [of k] D(9) [of j k] by (cases "j = i"; cases "k = i") auto
  have "i \<in> dom (F(i \<mapsto> f))" by simp
  then have "1 \<le> freeinode s1" unfolding sp(2) by simp
  then show ?thesis unfolding image_ok_def using W(2,3) sp low D(4,5) per dis by auto
qed

lemma image_inode:
  assumes "image_ok s F" "F i = Some (ty, bs)"
  shows "i < 200" "content_of F i = bs" "file_at (vimg s) i ty (length bs) bs" "rinode i s = Ok (din_at (vimg s) i)"
    "j > NDIRECT \<Longrightarrow> i_addrs (din_at (vimg s) i) j = 0" "insert i (dom F) = {1..<freeinode s}"
proof -
  note D = image_okD [OF assms(1)]
  have d: "i \<in> dom F" using assms(2) by auto
  then show i: "i < 200" using D(2,3) by auto
  show "insert i (dom F) = {1..<freeinode s}" using d D(2) by auto
  show "content_of F i = bs" using assms(2) by (simp add: content_of_def)
  show "file_at (vimg s) i ty (length bs) bs" using D(8) [OF i assms(2)] .
  show "rinode i s = Ok (din_at (vimg s) i)" using IBLOCK_mkfs [OF i] D(1) by (simp add: rinode_def rsect_def din_at_def vimg_def space_ok_def)
  show "j > NDIRECT \<Longrightarrow> i_addrs (din_at (vimg s) i) j = 0" by (simp add: din_at_def load_dinode_def get_addrs_eq no_inode_def)
qed

lemma iappend_image:
  assumes I: "image_ok s F" and F: "F i = Some (ty, old)" and r: "iappend i bs s = Ok s'"
  shows "image_ok s' (F(i \<mapsto> (ty, old @ bs)))" "freeinode s' = freeinode s"
proof -
  let ?d = "din_at (vimg s) i"
  note D = image_okD [OF I] and N = image_inode [OF I F]
  have sz: "unat (i_size ?d) = length old" and ty: "i_type ?d = ty" "i_nlink ?d = 1" and m: "data_map (vimg s) (i_addrs ?d) old"
    using N(3) by (simp_all add: file_at_def data_at_def)
  have A: "addrs_ok (vimg s) mkfs_sb (i_addrs ?d)" and le: "length old \<le> MAXFILE * BSIZE" using m by (simp_all add: data_map_def no_holes_def)
  obtain off' d' s1 where l: "iappend_loop bs (length old) ?d s = Ok (off', d', s1)" and wi: "winode i (d'\<lparr>i_size := of_nat off'\<rparr>) s1 = Ok s'"
    using r N(4) sz by (auto simp: iappend_def)
  have L: "off' = length old + length bs" "off' \<le> MAXFILE * BSIZE" "appended (length old) bs ?d s d' s1"
    using iappend_loop_ok [OF A D(1) l le] by blast+
  note ap = appendedD [OF L(3)]
  have fld: "i_type d' = ty" "i_nlink d' = 1" by (subst ap(5), simp add: ty)+
  have un: "unat (of_nat off' :: u32) = off'" using L(2) by (intro small_word) (simp add: MAXFILE_BSIZE)
  show "freeinode s' = freeinode s" using winode_Ok(3) [OF wi N(1) ap(2)] ap(3) by simp
  show "image_ok s' (F(i \<mapsto> (ty, old @ bs)))"
    by (rule image_store [OF I N(1) _ _ ap(2) _ _ _ _ _ _ wi])
      (use N L ap D(3) fld un in \<open>simp_all add: N(2,5)\<close>)
qed

lemma mkfs_ialloc_image:
  assumes I: "image_ok s F" and f: "freeinode s < 200" and r: "mkfs_ialloc ty s = Ok (i, s')"
  shows "i = freeinode s" "image_ok s' (F(i \<mapsto> (ty, [])))" "freeinode s' = freeinode s + 1"
proof -
  let ?s1 = "s\<lparr>freeinode := freeinode s + 1\<rparr>"
  note D = image_okD [OF I]
  show i: "i = freeinode s" using r by (auto simp: mkfs_ialloc_def Let_def)
  have w: "winode i (no_inode\<lparr>i_type := ty, i_nlink := 1, i_size := 0\<rparr>) ?s1 = Ok s'" using r by (auto simp: mkfs_ialloc_def Let_def)
  have v: "vimg ?s1 = vimg s" "space_ok ?s1" using D(1) by (simp_all add: vimg_def space_ok_def)
  show "freeinode s' = freeinode s + 1" using winode_Ok(3) [OF w _ v(2)] f i by simp
  have n: "F i = None" "i < 200" "content_of F i = []" "insert i (dom F) = {1..<freeinode s + 1}" using D(2,10) f i
    by (auto simp: content_of_def split: option.splits)
  have z: "i_addrs (din_at (vimg s) i) = (\<lambda>_. 0)" using D(7) [OF n(2,1)] by (simp add: no_inode_def)
  show "image_ok s' (F(i \<mapsto> (ty, [])))"
    by (rule image_store [OF I n(2) _ _ v(2) _ _ _ _ _ _ w, where bs = "[]"])
      (use n v z f in \<open>simp_all add: no_inode_def grown_wrote grown_refl no_addrs\<close>)
qed

lemma append_reads_image:
  assumes "image_ok s F" "F i = Some (ty, old)" "append_reads i pieces s = Ok s'"
  shows "image_ok s' (F(i \<mapsto> (ty, old @ concat pieces))) \<and> freeinode s' = freeinode s"
  using assms
proof (induction pieces arbitrary: s F old)
  case Nil
  then show ?case by (simp add: fun_upd_idem)
next
  case (Cons p ps)
  then obtain s1 where s1: "iappend i p s = Ok s1" "append_reads i ps s1 = Ok s'" by auto
  note a = iappend_image [OF Cons(2,3) s1(1)]
  have "image_ok s' (F(i \<mapsto> (ty, (old @ p) @ concat ps))) \<and> freeinode s' = freeinode s1" using Cons.IH [OF a(1) fun_upd_same s1(2)] unfolding fun_upd_upd .
  then show ?case using a(2) by (simp del: fun_upd_apply)
qed

text \<open>The directory entries for a list of files, the first of which gets inode number \<open>n\<close>.\<close>

definition short_name :: "u8 list \<Rightarrow> u8 list" where
  "short_name path = skip_underscore (drop_user path)"

primrec dirents :: "nat \<Rightarrow> (u8 list \<times> u8 list list option) list \<Rightarrow> u8 list" where
  "dirents n [] = []"
| "dirents n (f # fs) = mkfs_dirent n (short_name (fst f)) @ dirents (n + 1) fs"

lemma mkfs_file_image:
  assumes I: "image_ok s F" and R: "F ROOTINO = Some (T_DIR, r)" and f: "freeinode s < 200" and run: "mkfs_file path content s = Ok s'"
  shows "\<exists>c. content = Some c \<and> freeinode s' = freeinode s + 1 \<and>
    image_ok s' (F(ROOTINO \<mapsto> (T_DIR, r @ mkfs_dirent (freeinode s) (short_name path)), freeinode s \<mapsto> (T_FILE, concat c)))"
proof -
  obtain c inum s1 s2 where c: "content = Some c" and s1: "mkfs_ialloc T_FILE s = Ok (inum, s1)"
    and s2: "iappend ROOTINO (mkfs_dirent inum (short_name path)) s1 = Ok s2" and s3: "append_reads inum c s2 = Ok s'"
    using run by (auto simp: mkfs_file_def Let_def short_name_def split: if_splits option.splits)
  note a = mkfs_ialloc_image [OF I f s1]
  have ne: "inum \<noteq> ROOTINO" using image_okD(2) [OF I] R a(1) by (auto simp: dom_def)
  then have "(F(inum \<mapsto> (T_FILE, []))) ROOTINO = Some (T_DIR, r)" using R by simp
  note b = iappend_image [OF a(2) this s2]
  have "(F(inum \<mapsto> (T_FILE, []), ROOTINO \<mapsto> (T_DIR, r @ mkfs_dirent inum (short_name path)))) inum = Some (T_FILE, [])" using ne by simp
  from append_reads_image [OF b(1) this s3] have d: "image_ok s' (F(inum \<mapsto> (T_FILE, []), ROOTINO \<mapsto> (T_DIR, r @ mkfs_dirent inum (short_name path)), inum \<mapsto> (T_FILE, concat c)))"
    "freeinode s' = freeinode s2" by (simp_all del: fun_upd_apply)
  have "F(inum \<mapsto> (T_FILE, []), ROOTINO \<mapsto> (T_DIR, r @ mkfs_dirent inum (short_name path)), inum \<mapsto> (T_FILE, concat c)) =
    F(ROOTINO \<mapsto> (T_DIR, r @ mkfs_dirent inum (short_name path)), inum \<mapsto> (T_FILE, concat c))" by auto
  then show ?thesis using d a(1,3) b(2) c by simp
qed

lemma mkfs_files_image:
  assumes "image_ok s F" "F ROOTINO = Some (T_DIR, r)" "freeinode s + length fs \<le> 200" "mkfs_files fs s = Ok s'"
  shows "\<exists>F'. image_ok s' F' \<and> freeinode s' = freeinode s + length fs \<and> F' ROOTINO = Some (T_DIR, r @ dirents (freeinode s) fs) \<and>
    (\<forall>k < length fs. \<exists>c. snd (fs ! k) = Some c \<and> F' (freeinode s + k) = Some (T_FILE, concat c)) \<and>
    (\<forall>j < freeinode s. j \<noteq> ROOTINO \<longrightarrow> F' j = F j)"
  using assms
proof (induction fs arbitrary: s F r)
  case Nil
  then show ?case by auto
next
  case (Cons f fs)
  let ?n = "freeinode s"
  obtain s1 where s1: "mkfs_file (fst f) (snd f) s = Ok s1" "mkfs_files fs s1 = Ok s'" using Cons(5) by auto
  have nl: "?n < 200" using Cons(4) by simp
  obtain c where c: "snd f = Some c" "freeinode s1 = ?n + 1"
    and I: "image_ok s1 (F(ROOTINO \<mapsto> (T_DIR, r @ mkfs_dirent ?n (short_name (fst f))), ?n \<mapsto> (T_FILE, concat c)))"
    using mkfs_file_image [OF Cons(2,3) nl s1(1)] by blast
  let ?F = "F(ROOTINO \<mapsto> (T_DIR, r @ mkfs_dirent ?n (short_name (fst f))), ?n \<mapsto> (T_FILE, concat c))"
  have ne: "?n \<noteq> ROOTINO" "ROOTINO < ?n" using image_okD(2) [OF Cons(2)] Cons(3) by (auto simp: dom_def)
  have R: "?F ROOTINO = Some (T_DIR, r @ mkfs_dirent ?n (short_name (fst f)))" using ne by simp
  obtain F' where F': "image_ok s' F'" "freeinode s' = ?n + 1 + length fs" "F' ROOTINO = Some (T_DIR, (r @ mkfs_dirent ?n (short_name (fst f))) @ dirents (?n + 1) fs)"
    "\<forall>k < length fs. \<exists>c. snd (fs ! k) = Some c \<and> F' (?n + 1 + k) = Some (T_FILE, concat c)" "\<forall>j < ?n + 1. j \<noteq> ROOTINO \<longrightarrow> F' j = ?F j"
    using Cons.IH [OF I R _ s1(2)] Cons(4) unfolding c(2) by auto
  have "\<exists>c. snd ((f # fs) ! k) = Some c \<and> F' (?n + k) = Some (T_FILE, concat c)" if "k < length (f # fs)" for k
    using that F'(4,5) ne c(1) by (cases k) auto
  moreover have "\<forall>j < ?n. j \<noteq> ROOTINO \<longrightarrow> F' j = F j" using F'(5) by simp
  ultimately show ?case using F'(1,2,3) by (intro exI [of _ F']) auto
qed

lemma zero_sects_eq: "zero_sects n s = s\<lparr>fsimg := (\<lambda>b. if b < n then (\<lambda>_. 0) else fsimg s b), imglen := max n (imglen s)\<rparr>"
  by (induction n) (auto simp: wsect_def fun_eq_iff max_def)

lemma zero_dinode: "load_dinode (\<lambda>_. 0) off no_inode = no_inode"
  by (simp add: load_dinode_def get_addrs_eq get16_def get32_def map_replicate_const no_inode_def fun_eq_iff)

lemma mkfs_start_image: "image_ok mkfs_start Map.empty"
proof -
  have s: "fsimg mkfs_start = (\<lambda>_ _. 0)(1 := set_bytes (\<lambda>_. 0) 0 (sb_bytes mkfs_sb))" "imglen mkfs_start = 2000" "freeinode mkfs_start = 1" "freeblock mkfs_start = 47"
    by (auto simp: mkfs_start_def zero_sects_eq wsect_def FSSIZE_def nmeta_eq)
  have d: "din_at (vimg mkfs_start) i = no_inode" if "i < 200" for i
    using IBLOCK_mkfs [OF that] by (simp add: din_at_def vimg_def s zero_dinode)
  have z: "i_addrs no_inode = (\<lambda>_. 0)" by (simp add: no_inode_def)
  have "data_at (vimg mkfs_start) i []" "blocks_at (vimg mkfs_start) i = {}" if "i < 200" for i
    using d [OF that] by (simp_all add: data_at_def data_map_def blocks_at_def z no_addrs no_holes_def)
  moreover have "space_ok mkfs_start" by (simp add: space_ok_def s)
  ultimately show ?thesis using d unfolding image_ok_def content_of_def s by simp
qed

lemma nth_concat_words: "i < length ws \<Longrightarrow> k < 4 \<Longrightarrow> concat (map (le_bytes 4) ws) ! (4 * i + k) = le_bytes 4 (ws ! i) ! k"
  by (induction ws arbitrary: i) (auto simp: nth_append less_Suc_eq_0_disj)

lemma get32_words: "i < length ws \<Longrightarrow> get32 (set_bytes b 0 (concat (map (le_bytes 4) ws))) (4 * i) = (ws ! i :: u32)"
proof -
  assume i: "i < length ws"
  have len: "length (concat (map (le_bytes 4) ws)) = 4 * length ws" by (simp add: length_concat o_def sum_list_triv)
  have "map (\<lambda>k. set_bytes b 0 (concat (map (le_bytes 4) ws)) (4 * i + k)) [0..<4] = le_bytes 4 (ws ! i)"
    by (rule nth_equalityI) (use i nth_concat_words [OF i] in \<open>auto simp: set_bytes_def len\<close>)
  then show ?thesis by (simp add: get32_def le_word_le_bytes_full)
qed

lemma decode_sb_bytes:
  assumes "\<forall>n \<in> set [sb_magic sp, sb_size sp, sb_nblocks sp, sb_ninodes sp, sb_nlog sp, sb_logstart sp, sb_inodestart sp, sb_bmapstart sp]. n < 2 ^ 32"
  shows "decode_sb (set_bytes b 0 (sb_bytes sp)) = sp"
proof -
  let ?ws = "map of_nat [sb_magic sp, sb_size sp, sb_nblocks sp, sb_ninodes sp, sb_nlog sp, sb_logstart sp, sb_inodestart sp, sb_bmapstart sp] :: u32 list"
  have "sb_bytes sp = concat (map (le_bytes 4) ?ws)" by (simp add: sb_bytes_def)
  then have g: "get32 (set_bytes b 0 (sb_bytes sp)) (4 * i) = ?ws ! i" if "i < 8" for i using get32_words [of i ?ws b] that by simp
  show ?thesis using assms g [of 0] g [of 1] g [of 2] g [of 3] g [of 4] g [of 5] g [of 6] g [of 7]
    by (simp add: decode_sb_def unat_of_nat)
qed

lemma decode_mkfs_sb: "decode_sb (set_bytes (\<lambda>_. 0) 0 (sb_bytes mkfs_sb)) = mkfs_sb"
  by (rule decode_sb_bytes) (simp add: mkfs_sb_def FSSIZE_def NINODES_def nmeta_def nbitmap_def ninodeblocks_def nlog_def param_defs fs_consts)

text \<open>The last two steps: the size of the root directory is rounded up and the bitmap is written.\<close>

lemma mkfs_end_image:
  assumes I: "image_ok s F" and F: "F ROOTINO = Some (T_DIR, r)" and len: "length r < MAXFILE * BSIZE"
    and run: "mkfs_fix_root ROOTINO s = Ok s1" "mkfs_balloc (freeblock s1) s1 = Ok s'"
  shows "fsimg s' = vimg s1" "space_ok s1" "freeblock s' = freeblock s1" "b < 33 \<Longrightarrow> fsimg s' b = fsimg s b"
    "file_at (fsimg s') ROOTINO T_DIR ((length r div BSIZE + 1) * BSIZE) r"
    "i < 200 \<Longrightarrow> i \<noteq> ROOTINO \<Longrightarrow> F i = Some (ty, bs) \<Longrightarrow> file_at (fsimg s') i ty (length bs) bs"
    "i < 200 \<Longrightarrow> F i = None \<Longrightarrow> din_at (fsimg s') i = no_inode"
    "i < 200 \<Longrightarrow> blocks_at (fsimg s') i = blocks_at (vimg s) i"
proof -
  let ?d = "din_at (vimg s) ROOTINO" let ?z = "(length r div BSIZE + 1) * BSIZE"
  note D = image_okD [OF I] and N = image_inode [OF I F]
  have w: "winode ROOTINO (?d\<lparr>i_size := of_nat ?z\<rparr>) s = Ok s1" using run(1) N(3,4) by (auto simp: mkfs_fix_root_def file_at_def)
  have addr: "\<forall>j > NDIRECT. i_addrs (?d\<lparr>i_size := of_nat ?z\<rparr>) j = 0" using N(5) by simp
  note W = winode_Ok [OF w N(1) D(1)] and S = din_at_store [OF N(1) addr winode_Ok(1) [OF w N(1) D(1)]]
  show v: "fsimg s' = vimg s1" and "freeblock s' = freeblock s1" using run(2) by (auto simp: mkfs_balloc_def vimg_def split: if_splits)
  show "space_ok s1" by (fact W(2))
  show "fsimg s' b = fsimg s b" if "b < 33" using W(4) [OF that] that by (simp add: v vimg_def)
  have A: "i_addrs (din_at (vimg s1) i) = i_addrs (din_at (vimg s) i)" if "i < 200" for i using S(1) S(5) [OF that] by (cases "i = ROOTINO") auto
  have dat: "data_at (vimg s1) i (content_of F i)" "blocks_at (vimg s1) i = blocks_at (vimg s) i" if "i < 200" for i
    unfolding data_at_def blocks_at_def A [OF that] unfolding W(1) using data_map_inode [OF D(6) [OF that, unfolded data_at_def] N(1)] by auto
  show "blocks_at (fsimg s') i = blocks_at (vimg s) i" if "i < 200" unfolding v using dat(2) [OF that] .
  have "length r div BSIZE < MAXFILE" using block_div [OF len] .
  then have "?z \<le> MAXFILE * BSIZE" by (intro mult_le_mono1) simp
  then have "unat (of_nat ?z :: u32) = ?z" by (intro small_word) (simp add: MAXFILE_BSIZE)
  then show "file_at (fsimg s') ROOTINO T_DIR ?z r" unfolding v file_at_def using S(2-4) N(2,3) dat(1) [OF N(1)] by (simp add: file_at_def)
  show "file_at (fsimg s') i ty (length bs) bs" if "i < 200" "i \<noteq> ROOTINO" "F i = Some (ty, bs)"
    using D(8) [OF that(1,3)] S(5) [OF that(1,2)] dat(1) [OF that(1)] that(3) by (simp add: v file_at_def content_of_def)
  show "din_at (fsimg s') i = no_inode" if "i < 200" "F i = None" using D(7) [OF that] S(5) [OF that(1)] that(2) F by (cases "i = ROOTINO") (auto simp: v)
qed

lemma length_mkfs_dirent [simp]: "length (mkfs_dirent n name) = 16"
  by (simp add: mkfs_dirent_def de_bytes_def DIRSIZ_def)

lemma length_dirents [simp]: "length (dirents n fs) = 16 * length fs"
  by (induction fs arbitrary: n) simp_all

lemma mkfs_main_image:
  assumes run: "mkfs_main files = Ok s" and n: "length files \<le> 198"
  obtains s1 s2 F where "image_ok s1 F" "F ROOTINO = Some (T_DIR, mkfs_dirent 1 [46] @ mkfs_dirent 1 [46, 46] @ dirents 2 files)"
    "freeinode s1 = length files + 2" "\<forall>k < length files. \<exists>c. snd (files ! k) = Some c \<and> F (k + 2) = Some (T_FILE, concat c)"
    "mkfs_fix_root ROOTINO s1 = Ok s2" "mkfs_balloc (freeblock s2) s2 = Ok s"
proof -
  have f0: "freeinode mkfs_start = 1" by (simp add: mkfs_start_def zero_sects_eq)
  obtain sa sb sc s1 s2 where r: "mkfs_ialloc T_DIR mkfs_start = Ok (ROOTINO, sa)" "iappend ROOTINO (mkfs_dirent ROOTINO [46]) sa = Ok sb"
    "iappend ROOTINO (mkfs_dirent ROOTINO [46, 46]) sb = Ok sc" "mkfs_files files sc = Ok s1" "mkfs_fix_root ROOTINO s1 = Ok s2"
    "mkfs_balloc (freeblock s2) s2 = Ok s"
    using run by (auto simp: mkfs_main_def split: if_splits)
  have R: "ROOTINO = 1" by (simp add: ROOTINO_def)
  note a = mkfs_ialloc_image [OF mkfs_start_image _ r(1), unfolded f0]
  have ia: "image_ok sa [ROOTINO \<mapsto> (T_DIR, [])]" "freeinode sa = 2" using a by simp_all
  note b = iappend_image [OF ia(1) fun_upd_same r(2)]
  note c = iappend_image [OF b(1) fun_upd_same r(3)]
  have fc: "freeinode sc = 2" and le: "freeinode sc + length files \<le> 200" using ia b(2) c(2) n by simp_all
  obtain F where F: "image_ok s1 F" "freeinode s1 = 2 + length files"
    "F ROOTINO = Some (T_DIR, (([] @ mkfs_dirent ROOTINO [46]) @ mkfs_dirent ROOTINO [46, 46]) @ dirents 2 files)"
    "\<forall>k < length files. \<exists>c. snd (files ! k) = Some c \<and> F (2 + k) = Some (T_FILE, concat c)"
    using mkfs_files_image [OF c(1) fun_upd_same le r(4)] unfolding fc by blast
  show thesis by (rule that [OF F(1) _ _ _ r(5,6)]) (use F in \<open>simp_all add: R add.commute\<close>)
qed

lemma mkfs_boot_ok:
  assumes "d (sb_logstart mkfs_sb) = (\<lambda>_. 0)" "\<forall>b < 47. used d mkfs_sb b"
  shows "fs_ok (fs_boot mkfs_sb t d) {}"
proof -
  have "hdr_n (d (sb_logstart mkfs_sb)) = 0" unfolding assms(1) by (simp add: hdr_n_def get32_def map_replicate_const)
  then have "log_ok (fs_boot mkfs_sb t d) {}" by (rule fs_boot_log)
  moreover have "sb (fs_boot mkfs_sb t d) = mkfs_sb" "log_start (fs_boot mkfs_sb t d) = sb_logstart mkfs_sb" by (simp_all add: fs_boot_def)
  ultimately show ?thesis using mkfs_layout assms(2) by (simp add: fs_ok_def fs_boot_view)
qed

lemma mkfs_image_facts:
  assumes run: "mkfs_main files = Ok s" and n: "length files \<le> 198"
  shows "decode_sb (fsimg s 1) = mkfs_sb" "fs_ok (fs_boot (decode_sb (fsimg s 1)) t (fsimg s)) {}"
    "data_start mkfs_sb \<le> freeblock s" "freeblock s \<le> FSSIZE" "b < FSSIZE \<Longrightarrow> used (fsimg s) mkfs_sb b \<longleftrightarrow> b < freeblock s"
    "file_at (fsimg s) ROOTINO T_DIR (((32 + 16 * length files) div BSIZE + 1) * BSIZE) (mkfs_dirent 1 [46] @ mkfs_dirent 1 [46, 46] @ dirents 2 files)"
    "k < length files \<Longrightarrow> \<exists>c. snd (files ! k) = Some c \<and> file_at (fsimg s) (k + 2) T_FILE (length (concat c)) (concat c)"
    "i < NINODES \<Longrightarrow> j < NINODES \<Longrightarrow> i \<noteq> j \<Longrightarrow> blocks_at (fsimg s) i \<inter> blocks_at (fsimg s) j = {}"
    "i < NINODES \<Longrightarrow> i = 0 \<or> length files + 2 \<le> i \<Longrightarrow> i_type (din_at (fsimg s) i) = 0"
proof -
  let ?r = "mkfs_dirent 1 [46] @ mkfs_dirent 1 [46, 46] @ dirents 2 files"
  obtain s1 s2 F where I: "image_ok s1 F" "F ROOTINO = Some (T_DIR, ?r)" "freeinode s1 = length files + 2"
    "\<forall>k < length files. \<exists>c. snd (files ! k) = Some c \<and> F (k + 2) = Some (T_FILE, concat c)"
    and e: "mkfs_fix_root ROOTINO s1 = Ok s2" "mkfs_balloc (freeblock s2) s2 = Ok s"
    by (rule mkfs_main_image [OF run n])
  have len: "length ?r = 32 + 16 * length files" by simp
  have "length ?r < MAXFILE * BSIZE" using n unfolding len MAXFILE_BSIZE by simp
  note E = mkfs_end_image [OF I(1,2) this e] and D = image_okD [OF I(1)]
  show d: "decode_sb (fsimg s 1) = mkfs_sb" using E(4) [of 1] D(5) decode_mkfs_sb by simp
  have sp: "47 \<le> freeblock s" "freeblock s \<le> 2000" using E(2,3) by (simp_all add: space_ok_def)
  then show "data_start mkfs_sb \<le> freeblock s" "freeblock s \<le> FSSIZE" by (simp_all add: FSSIZE_def)
  have u: "used (fsimg s) mkfs_sb b \<longleftrightarrow> b < freeblock s" if "b < 2000" for b using used_vimg [OF that, of s2] E(1,3) by simp
  then show "b < FSSIZE \<Longrightarrow> used (fsimg s) mkfs_sb b \<longleftrightarrow> b < freeblock s" by (simp add: FSSIZE_def)
  show "fs_ok (fs_boot (decode_sb (fsimg s 1)) t (fsimg s)) {}" unfolding d
    by (rule mkfs_boot_ok) (use E(4) [of 2] D(4) [of 2] u sp in auto)
  show "file_at (fsimg s) ROOTINO T_DIR (((32 + 16 * length files) div BSIZE + 1) * BSIZE) ?r" using E(5) unfolding len .
  show "\<exists>c. snd (files ! k) = Some c \<and> file_at (fsimg s) (k + 2) T_FILE (length (concat c)) (concat c)" if k: "k < length files"
    using I(4) k n E(6) [of "k + 2" T_FILE] by (fastforce simp: ROOTINO_def)
  show "i < NINODES \<Longrightarrow> j < NINODES \<Longrightarrow> i \<noteq> j \<Longrightarrow> blocks_at (fsimg s) i \<inter> blocks_at (fsimg s) j = {}"
    using E(8) [of i] E(8) [of j] D(9) [of i j] by (simp add: NINODES_def)
  show "i_type (din_at (fsimg s) i) = 0" if "i < NINODES" "i = 0 \<or> length files + 2 \<le> i"
  proof -
    have "i \<notin> dom F" unfolding D(2) I(3) using that(2) by auto
    then have "F i = None" by auto
    then show ?thesis using E(7) [of i] that(1) by (simp add: NINODES_def no_inode_def)
  qed
qed

subsection \<open>Runs that have the space\<close>

lemma iappend_block_space:
  assumes A: "addrs_ok (vimg s) mkfs_sb (i_addrs din)" and sp: "space_ok s" and fbn: "fbn < MAXFILE" and fr: "freeblock s + 2 \<le> 2000"
  shows "\<exists>x din' s'. iappend_block fbn din s = Ok (x, din', s') \<and> x < imglen s' \<and> freeblock s' \<le> freeblock s + 2"
proof -
  let ?k = "min fbn NDIRECT"
  obtain d1 s1 where e: "slot_alloc ?k din s = (d1, s1)" by (cases "slot_alloc ?k din s")
  have il: "imglen s1 = 2000" and f1: "freeblock s1 \<le> freeblock s + 1" using sp e by (auto simp: space_ok_def slot_alloc_def split: if_splits)
  have w: "unat (of_nat (freeblock t) :: u32) = freeblock t" if "freeblock t < 2000" for t :: mkst using that by (intro small_word) simp
  have lt: "unat (i_addrs d1 ?k) < 2000"
  proof (cases "i_addrs din ?k = 0")
    case True
    then have "i_addrs d1 ?k = of_nat (freeblock s)" using e by (auto simp: slot_alloc_def)
    then show ?thesis using w [of s] fr by simp
  next
    case False
    then have e1: "i_addrs d1 ?k = i_addrs din ?k" "unat (i_addrs din ?k) \<noteq> 0" using e by (auto simp: slot_alloc_def unat_eq_0)
    have "unat (i_addrs din ?k) \<in> file_blocks (vimg s) (i_addrs din)"
      using e1(2) fbn file_blocksI(1) [of ?k "vimg s" "i_addrs din"] file_blocksI(2) [of "i_addrs din" "vimg s"]
      by (cases "fbn < NDIRECT") (auto simp: blk_of_slot ind_of_def)
    then show ?thesis using addrs_okD(1) [OF A] e1 by (auto simp: data_block_def)
  qed
  note g = slot_alloc_ok [OF A sp _ e lt]
  show ?thesis
  proof (cases "fbn < NDIRECT")
    case True
    then show ?thesis using e lt il f1 by (simp add: iappend_block_def)
  next
    case False
    let ?n = "unat (i_addrs d1 NDIRECT)" let ?v = "get32 (fsimg s1 ?n) (4 * (fbn - NDIRECT))"
    have e': "slot_alloc NDIRECT din s = (d1, s1)" "?n < imglen s1" "?n \<noteq> 0" using e lt il False g by simp_all
    have A1: "addrs_ok (vimg s1) mkfs_sb (i_addrs d1)" using g(1) by (intro grown_toD(7)) simp_all
    have n: "ind_of (i_addrs d1) = ?n" "?n \<in> file_blocks (vimg s1) (i_addrs d1)" using file_blocksI(2) [of "i_addrs d1" "vimg s1"] e'(3) by (simp_all add: ind_of_def)
    then have "?n \<noteq> 46" using addrs_okD(1) [OF A1] by (fastforce simp: data_block_def)
    then have "?v \<noteq> 0 \<Longrightarrow> blk_of (vimg s1) (i_addrs d1) fbn = unat ?v" using False n e'(3) by (simp add: blk_of_def vimg_def)
    then have "?v \<noteq> 0 \<Longrightarrow> unat ?v < 2000" using addrs_okD(1) [OF A1 file_blocksI(1) [OF fbn]] by (simp add: data_block_def unat_eq_0)
    then show ?thesis using False e' il f1 fr w [of s1] by (simp add: iappend_block_def rsect_def Let_def)
  qed
qed

lemma iappend_loop_space:
  assumes "addrs_ok (vimg s) mkfs_sb (i_addrs din)" "space_ok s" "off + length bs \<le> MAXFILE * BSIZE" "freeblock s + 2 * length bs \<le> 2000"
  shows "\<exists>off' din' s'. iappend_loop bs off din s = Ok (off', din', s') \<and> freeblock s' \<le> freeblock s + 2 * length bs"
  using assms
proof (induction bs off din s rule: iappend_loop.induct)
  case (1 bs off din s)
  show ?case
  proof (cases "bs = []")
    case True
    then show ?thesis by (simp add: iappend_loop.simps)
  next
    case bs: False
    let ?fbn = "off div BSIZE" let ?n1 = "min (length bs) ((off div BSIZE + 1) * BSIZE - off)"
    have f: "?fbn < MAXFILE" using 1(4) bs by (intro block_div) (cases bs, auto)
    have l0: "0 < length bs" using bs by simp
    then have fr: "freeblock s + 2 \<le> 2000" using 1(5) by linarith
    obtain x d1 s1 where r: "iappend_block ?fbn din s = Ok (x, d1, s1)" "x < imglen s1" "freeblock s1 \<le> freeblock s + 2"
      using iappend_block_space [OF 1(2,3) f fr] by blast
    have rs: "rsect x s1 = Ok (fsimg s1 x)" using r(2) by (simp add: rsect_def)
    let ?s2 = "wsect x (set_bytes (fsimg s1 x) (off - ?fbn * BSIZE) (take ?n1 bs)) s1"
    note a = appendedD [OF append_chunk [OF 1(2,3) f r(1) rs refl, where bs = bs]]
    have "off < (?fbn + 1) * BSIZE" by (simp add: BSIZE_def dividend_less_div_times)
    then have n1: "1 \<le> ?n1" "?n1 \<le> length bs" using l0 by linarith+
    have b: "freeblock ?s2 + 2 * length (drop ?n1 bs) \<le> freeblock s + 2 * length bs" using r(3) n1 by (simp only: length_drop wsect_simps)
    have "off + ?n1 + length (drop ?n1 bs) \<le> MAXFILE * BSIZE" "freeblock ?s2 + 2 * length (drop ?n1 bs) \<le> 2000" using 1(4,5) n1 b by simp_all
    from 1(1) [OF bs refl _ r(1) refl refl refl rs a(7,2) this] f obtain off' d' s'
      where "iappend_loop (drop ?n1 bs) (off + ?n1) d1 ?s2 = Ok (off', d', s')" "freeblock s' \<le> freeblock ?s2 + 2 * length (drop ?n1 bs)" by blast
    then show ?thesis using b bs f r(1) rs by (subst iappend_loop.simps) (auto simp: Let_def)
  qed
qed

lemma winode_space:
  assumes "i < 200" "space_ok s"
  shows "\<exists>s'. winode i d s = Ok s' \<and> freeblock s' = freeblock s"
  using assms IBLOCK_mkfs [OF assms(1)] by (simp add: winode_def rsect_def space_ok_def)

lemma iappend_space:
  assumes I: "image_ok s F" and F: "F i = Some (ty, old)" and le: "length old + length bs \<le> MAXFILE * BSIZE" "freeblock s + 2 * length bs \<le> 2000"
  shows "\<exists>s'. iappend i bs s = Ok s' \<and> freeblock s' \<le> freeblock s + 2 * length bs"
proof -
  let ?d = "din_at (vimg s) i"
  note N = image_inode [OF I F] and sp = image_okD(1) [OF I]
  have sz: "unat (i_size ?d) = length old" and A: "addrs_ok (vimg s) mkfs_sb (i_addrs ?d)" using N(3) by (simp_all add: file_at_def data_at_def data_map_def)
  obtain off' d' s1 where l: "iappend_loop bs (length old) ?d s = Ok (off', d', s1)" "freeblock s1 \<le> freeblock s + 2 * length bs"
    using iappend_loop_space [OF A sp le] by blast
  have "space_ok s1" using iappend_loop_ok [OF A sp l(1)] le(1) appendedD(2) by auto
  then obtain s' where "winode i (d'\<lparr>i_size := of_nat off'\<rparr>) s1 = Ok s'" "freeblock s' = freeblock s1" using winode_space [OF N(1)] by blast
  then show ?thesis using l N(4) sz by (auto simp: iappend_def)
qed

lemma mkfs_ialloc_space:
  assumes "image_ok s F" "freeinode s < 200"
  shows "\<exists>s'. mkfs_ialloc ty s = Ok (freeinode s, s') \<and> freeblock s' = freeblock s"
proof -
  have "space_ok (s\<lparr>freeinode := freeinode s + 1\<rparr>)" using image_okD(1) [OF assms(1)] by (simp add: space_ok_def)
  from winode_space [OF assms(2) this] show ?thesis by (fastforce simp: mkfs_ialloc_def Let_def)
qed

text \<open>A run with one file of two bytes.\<close>

definition one_file :: "(u8 list \<times> u8 list list option) list" where
  "one_file = [([117, 115, 101, 114, 47, 95, 97], Some [[104, 105]])]"

lemma mkfs_end_space:
  assumes "image_ok s F" "F ROOTINO = Some (T_DIR, r)"
  shows "\<exists>s1 s2. mkfs_fix_root ROOTINO s = Ok s1 \<and> mkfs_balloc (freeblock s1) s1 = Ok s2"
proof -
  note N = image_inode [OF assms] and sp = image_okD(1) [OF assms(1)]
  obtain s1 where "mkfs_fix_root ROOTINO s = Ok s1" "freeblock s1 = freeblock s"
    using winode_space [OF N(1) sp] N(4) by (fastforce simp: mkfs_fix_root_def)
  moreover have "freeblock s < BPB" using sp by (simp add: space_ok_def fs_consts)
  ultimately show ?thesis by (simp add: mkfs_balloc_def)
qed

lemma one_file_run: "\<exists>s. mkfs_main one_file = Ok s"
proof -
  have f0: "freeinode mkfs_start = 1" "freeblock mkfs_start = 47" by (simp_all add: mkfs_start_def zero_sects_eq nmeta_eq)
  have sh: "drop_user [117, 115, 101, 114, 47, 95, 97] = [95, 97]" "skip_underscore [95, 97] = [97]" by (simp_all add: drop_user_def skip_underscore_def)
  have R: "ROOTINO = 1" by (simp add: ROOTINO_def)
  obtain sa where a: "mkfs_ialloc T_DIR mkfs_start = Ok (1, sa)" "freeblock sa = 47"
    using mkfs_ialloc_space [OF mkfs_start_image, of T_DIR] f0 by auto
  note ia = mkfs_ialloc_image [OF mkfs_start_image _ a(1), unfolded f0]
  have A: "image_ok sa [1 \<mapsto> (T_DIR, [])]" "freeinode sa = 2" using ia by simp_all
  obtain sb where b: "iappend 1 (mkfs_dirent 1 [46]) sa = Ok sb" "freeblock sb \<le> 79"
    using iappend_space [OF A(1) fun_upd_same, of "mkfs_dirent 1 [46]"] a(2) by (auto simp: MAXFILE_BSIZE)
  note B = iappend_image [OF A(1) fun_upd_same b(1)]
  obtain sc where c: "iappend 1 (mkfs_dirent 1 [46, 46]) sb = Ok sc" "freeblock sc \<le> 111"
    using iappend_space [OF B(1) fun_upd_same, of "mkfs_dirent 1 [46, 46]"] b(2) by (fastforce simp: MAXFILE_BSIZE)
  note C = iappend_image [OF B(1) fun_upd_same c(1)]
  have fc: "freeinode sc = 2" using A(2) B(2) C(2) by simp
  obtain sd where d: "mkfs_ialloc T_FILE sc = Ok (2, sd)" "freeblock sd \<le> 111" using mkfs_ialloc_space [OF C(1), of T_FILE] fc c(2) by auto
  note D = mkfs_ialloc_image(2) [OF C(1) _ d(1), unfolded fc]
  obtain F where F: "image_ok sd F" "F 1 = Some (T_DIR, mkfs_dirent 1 [46] @ mkfs_dirent 1 [46, 46])" "F 2 = Some (T_FILE, [])" using D by simp
  obtain se where e: "iappend 1 (mkfs_dirent 2 [97]) sd = Ok se" "freeblock se \<le> 143"
    using iappend_space [OF F(1,2), of "mkfs_dirent 2 [97]"] d(2) by (fastforce simp: MAXFILE_BSIZE)
  note E = iappend_image(1) [OF F(1,2) e(1)]
  then obtain G where G: "image_ok se G" "G 2 = Some (T_FILE, [])" "G 1 = Some (T_DIR, (mkfs_dirent 1 [46] @ mkfs_dirent 1 [46, 46]) @ mkfs_dirent 2 [97])" using F(3) by simp
  obtain sf where f: "iappend 2 [104, 105] se = Ok sf" using iappend_space [OF G(1,2), of "[104, 105]"] e(2) by (fastforce simp: MAXFILE_BSIZE)
  note H = iappend_image(1) [OF G(1,2) f]
  obtain sg sh where "mkfs_fix_root 1 sf = Ok sg" "mkfs_balloc (freeblock sg) sg = Ok sh" using mkfs_end_space [OF H, unfolded R] G(3) by auto
  then show ?thesis using a b c d e f by (auto simp: mkfs_main_def one_file_def mkfs_file_def sh R Let_def DIRSIZ_def)
qed

text \<open>
  C8: the image that mkfs builds is the file system the kernel expects. When mkfs ends without an assertion failure for at most 198 files, the super
  block decodes to the layout mkfs used; mounting the image gives the kernel's file system invariant (empty log, metadata blocks in use); the bitmap marks
  exactly the blocks below \<^verbatim>\<open>freeblock\<close>, which lies within the disk; the root directory holds \<^verbatim>\<open>.\<close>, \<^verbatim>\<open>..\<close> and one entry per file in order, with its
  size rounded up to blocks; inode \<open>k + 2\<close> is a regular file with exactly the bytes read from the k-th file; no block belongs to two inodes and the
  other inodes are free.
\<close>

theorem mkfs_image_correct:
  assumes run: "mkfs_main files = Ok s" and n: "length files \<le> 198"
  shows "decode_sb (fsimg s 1) = mkfs_sb \<and> fs_ok (fs_boot (decode_sb (fsimg s 1)) t (fsimg s)) {} \<and>
    data_start mkfs_sb \<le> freeblock s \<and> freeblock s \<le> FSSIZE \<and> (\<forall>b < FSSIZE. used (fsimg s) mkfs_sb b \<longleftrightarrow> b < freeblock s) \<and>
    file_at (fsimg s) ROOTINO T_DIR (((32 + 16 * length files) div BSIZE + 1) * BSIZE)
      (mkfs_dirent 1 [46] @ mkfs_dirent 1 [46, 46] @ dirents 2 files) \<and>
    (\<forall>k < length files. \<exists>c. snd (files ! k) = Some c \<and> file_at (fsimg s) (k + 2) T_FILE (length (concat c)) (concat c)) \<and>
    (\<forall>i < NINODES. \<forall>j < NINODES. i \<noteq> j \<longrightarrow> blocks_at (fsimg s) i \<inter> blocks_at (fsimg s) j = {}) \<and>
    (\<forall>i < NINODES. i = 0 \<or> length files + 2 \<le> i \<longrightarrow> i_type (din_at (fsimg s) i) = 0)"
  using mkfs_image_facts [OF run n] by blast

theorem mkfs_image_witness:
  "\<exists>s. mkfs_main one_file = Ok s \<and> decode_sb (fsimg s 1) = mkfs_sb \<and> fs_ok (fs_boot mkfs_sb (\<lambda>_. no_inode) (fsimg s)) {} \<and> file_at (fsimg s) 2 T_FILE 2 [104, 105]"
proof -
  obtain s where s: "mkfs_main one_file = Ok s" using one_file_run by blast
  have n: "length one_file \<le> 198" "length one_file = 1" "snd (one_file ! 0) = Some [[104, 105]]" by (simp_all add: one_file_def)
  note c = mkfs_image_correct [OF s n(1), of "\<lambda>_. no_inode"]
  then have d: "decode_sb (fsimg s 1) = mkfs_sb" by blast
  moreover from c have "\<forall>k < length one_file. \<exists>c. snd (one_file ! k) = Some c \<and> file_at (fsimg s) (k + 2) T_FILE (length (concat c)) (concat c)" by blast
  then have "file_at (fsimg s) 2 T_FILE 2 [104, 105]" using n(2,3) by (auto simp: numeral_2_eq_2)
  ultimately show ?thesis using s c by auto
qed

end
