(* ===== verification/Spec2Isabelle.thy ===== *)
theory Spec2Isabelle
  imports Vm_Copy Fs_Content Fs_Path Sys_Refs Trap_Props Virtio_Props Grep Sh_Roundtrip Mkfs_Image
begin

text \<open>
  \<^bold>\<open>A verification library for xv6.\<close>

  The repository holds the xv6 kernel for RISC-V (\<^verbatim>\<open>kernel/\<close>), its user programs (\<^verbatim>\<open>user/\<close>) and the host program that builds the disk image
  (\<^verbatim>\<open>mkfs/\<close>), configured for the lab \<^verbatim>\<open>util\<close> (\<^verbatim>\<open>conf/lab.mk\<close>), which fixes \<^verbatim>\<open>FSSIZE\<close> and \<^verbatim>\<open>USERSTACK\<close>. At the bottom of the kernel are the page allocator and
  the page tables. The file system is a stack of layers: disk driver, buffer cache, write-ahead log, blocks and inodes, directories and paths.
  Processes, pipes, the console and open files use both, and system calls and traps are the entry points. This library translates these parts to
  functions on explicit states and proves what each of them promises to the next.

  \<^bold>\<open>How code becomes definitions.\<close> A definition has the name of the C function it translates, with a suffix where the name is taken (\<^verbatim>\<open>mkfs_ialloc\<close>,
  \<^verbatim>\<open>ustrlen\<close>); a loop of a function \<open>f\<close> is mostly \<open>f_loop\<close>. Kernel code returns a \<open>kres\<close>: \<open>Ok\<close> with a value, \<open>Panic\<close> with the message of the
  call of \<^verbatim>\<open>panic\<close>, or \<open>Blocked\<close> where the caller would sleep and its continuation is not part of the same definition. State is passed explicitly in
  records that extend each other: \<open>kmem\<close> and \<open>vm\<close> for memory, \<open>bcache\<close>, \<open>logst\<close>, \<open>fsst\<close> and \<open>kst\<close> for the file system and the kernel above it.
  Machine integers are words of the width the C type has; buffer indices, block numbers and counters whose bounds are proved are natural numbers.
  A section under a spin lock is one atomic step; where several processes or CPUs can interleave, an inductive step relation has one rule per atomic section
  and the theorem holds in every reachable state.

  \<^bold>\<open>Foundations.\<close>
  \<^item> \<open>Xv6_Prelude\<close>: outcomes, little-endian bytes, words, memory regions. \<open>Riscv\<close>: \<^verbatim>\<open>param.h\<close>, \<^verbatim>\<open>memlayout.h\<close>, the page macros of \<^verbatim>\<open>riscv.h\<close>, \<^verbatim>\<open>fcntl.h\<close>.
  \<^item> \<open>Kstring\<close>: \<^verbatim>\<open>kernel/string.c\<close>; \<^verbatim>\<open>memmove\<close> on overlapping regions, the string routines on terminated strings. \<open>Ulib\<close>: the string and memory part of
    \<^verbatim>\<open>user/ulib.c\<close>. \<open>Printf\<close>: \<^verbatim>\<open>kernel/printf.c\<close> and \<^verbatim>\<open>user/printf.c\<close>; the printed digits parse back to the number, and the user version loses the upper half
    of a 64-bit argument.
  \<^item> \<open>Spinlock\<close>, \<open>Sleeplock\<close>: \<^verbatim>\<open>kernel/spinlock.c\<close> and \<^verbatim>\<open>kernel/sleeplock.c\<close>; mutual exclusion over all interleavings, nesting of \<^verbatim>\<open>push_off\<close> and \<^verbatim>\<open>pop_off\<close>,
    and no process asleep on a free sleep lock, whatever processes are killed. Nesting counts do not wrap in the model.

  \<^bold>\<open>Memory.\<close>
  \<^item> \<open>Kalloc\<close>: \<^verbatim>\<open>kernel/kalloc.c\<close> with its free list in memory; the locale \<open>page_allocator\<close> is the interface the page tables use, interpreted on \<^verbatim>\<open>kalloc\<close>
    and \<^verbatim>\<open>kfree\<close>.
  \<^item> \<open>Vm\<close>: the definitions of \<^verbatim>\<open>kernel/vm.c\<close> on byte-addressed physical memory. \<open>Vm_Tables\<close>: the three-level tree in memory, its abstraction to a
    translation function, and \<^verbatim>\<open>mappages\<close>. \<open>Vm_User\<close>: the address-space invariant, \<^verbatim>\<open>uvmunmap\<close>, \<^verbatim>\<open>freewalk\<close> and \<^verbatim>\<open>uvmdealloc\<close>. \<open>Vm_Copy\<close>: \<^verbatim>\<open>uvmalloc\<close>
    grows completely or not at all, \<^verbatim>\<open>vmfault\<close>, and \<^verbatim>\<open>copyout\<close> and \<^verbatim>\<open>copyin\<close> transfer exactly the given bytes, with lazily allocated pages.

  \<^bold>\<open>The file system.\<close>
  \<^item> \<open>Virtio\<close>, \<open>Virtio_Props\<close>: \<^verbatim>\<open>kernel/virtio_disk.c\<close> with the descriptor table and both rings; the device is a step of the interleaving. Each call
    gets its own transfer, neither a call nor the interrupt handler panics, and no request is lost: from every reachable state a sleeping call can still return.
  \<^item> \<open>Bio\<close>, \<open>Bcache_Spec\<close>: \<^verbatim>\<open>kernel/bio.c\<close> with the doubly linked list; the locale \<open>block_cache\<close> is the contract of the cache towards the log (what a block
    contains, and which writes reach the disk), interpreted on the definitions of \<open>Bio\<close>.
  \<^item> \<open>Fslog\<close>: \<^verbatim>\<open>kernel/log.c\<close>. A crash is a prefix of the disk writes; a commit is atomic under crashes, recovery can be repeated, \<^verbatim>\<open>begin_op\<close> reserves
    enough space, and a commit of a completely full log panics.
  \<^item> \<open>Fs\<close>: the definitions of \<^verbatim>\<open>kernel/fs.c\<close>. \<open>Fs_Alloc\<close>: transactions and the block bitmap. \<open>Fs_File\<close>: the block map of an inode under \<^verbatim>\<open>bmap\<close>.
    \<open>Fs_Rw\<close>, \<open>Fs_Inode\<close>, \<open>Fs_Content\<close>: \<^verbatim>\<open>writei\<close>, the on-disk inodes and \<^verbatim>\<open>readi\<close>; the locales \<open>byte_source\<close> and \<open>byte_sink\<close> are the interface to
    \<^verbatim>\<open>either_copyin\<close> and \<^verbatim>\<open>either_copyout\<close>, interpreted for kernel buffers and for user memory. \<^verbatim>\<open>readi\<close> is correct on ranges without holes; a hole read
    outside a transaction panics (\<open>readi_hole_panics\<close>), and \<^verbatim>\<open>fileread\<close> opens none. \<open>Fs_Path\<close>: \<^verbatim>\<open>skipelem\<close>. \<open>Fs_Frame\<close>: what the file system
    routines leave alone, as locales instantiated by the parts of the state above them.
  \<^item> \<open>Mkfs\<close>, \<open>Mkfs_Image\<close>: \<^verbatim>\<open>mkfs/mkfs.c\<close>; the image it builds satisfies the invariant the kernel's file system starts from and holds the given files.

  \<^bold>\<open>Processes and system calls.\<close>
  \<^item> \<open>Kstate\<close>: the kernel state, \<^verbatim>\<open>sleep\<close>, \<^verbatim>\<open>wakeup\<close>, \<^verbatim>\<open>kkill\<close>. \<open>Pipe\<close>: \<^verbatim>\<open>kernel/pipe.c\<close> as a bounded queue (locale \<open>bounded_queue\<close>), without lost wakeups.
    \<open>Console\<close>: \<^verbatim>\<open>kernel/console.c\<close> and \<^verbatim>\<open>kernel/uart.c\<close>; the ring buffer implements a line editor. \<open>File\<close>: \<^verbatim>\<open>kernel/file.c\<close>. \<open>Exec\<close>: \<^verbatim>\<open>kernel/exec.c\<close>.
  \<^item> \<open>Proc\<close>: \<^verbatim>\<open>kernel/proc.c\<close>; a pass of the scheduler on one CPU runs every runnable process. \<open>Proc_Wait\<close>: no process sleeps in \<^verbatim>\<open>kwait\<close> beside a zombie child.
  \<^item> \<open>Sysfile\<close>, \<open>Trap\<close>: \<^verbatim>\<open>kernel/syscall.c\<close>, \<^verbatim>\<open>kernel/sysfile.c\<close>, \<^verbatim>\<open>kernel/sysproc.c\<close>, \<^verbatim>\<open>kernel/trap.c\<close>. \<open>Sys_Refs\<close>: every system call keeps the
    reference counts of open files equal to the number of descriptors. \<open>Trap_Props\<close>: argument fetching from the address space of the process, the page fault beyond \<^verbatim>\<open>MAXVA\<close>, and the return
    to user mode.

  \<^bold>\<open>User programs.\<close>
  \<^item> \<open>Grep\<close>: \<^verbatim>\<open>user/grep.c\<close>; for input without NUL and with lines that fit the buffer, and for every way \<^verbatim>\<open>read\<close> cuts the input it prints exactly the complete lines that match. \<open>Sh\<close>, \<open>Sh_Roundtrip\<close>: the parser of
    \<^verbatim>\<open>user/sh.c\<close>; it returns on every line, and a printed command is parsed back.

  \<^bold>\<open>Bounds and fuel.\<close> Scans of the buffer list take \<^verbatim>\<open>NBUF\<close> + 1 steps at most, which is proved to be enough on every well-formed list; \<^verbatim>\<open>freewalk\<close> recurses
  to depth 3, the height of the tree; the shell parser has four calls per byte of the line and four more, which \<open>parsecmd_returns\<close> proves to suffice.
  \<^verbatim>\<open>strlen\<close> and \<^verbatim>\<open>grep\<close> may run forever on some inputs and are partial functions to \<open>option\<close>; their theorems state that they return. The append loop of
  mkfs terminates because each round consumes a byte.

  \<^bold>\<open>Not modelled.\<close> Boot and the interrupt controller (\<^verbatim>\<open>main.c\<close>, \<^verbatim>\<open>start.c\<close>, \<^verbatim>\<open>plic.c\<close>) are register writes and calls of the init routines. The assembly
  files have no C semantics; the model connects the C functions on either side of them. The test and stress programs and the small programs
  (\<^verbatim>\<open>cat\<close>, \<^verbatim>\<open>ls\<close>, \<^verbatim>\<open>wc\<close> and so on), and the part of \<^verbatim>\<open>sh.c\<close> that runs a parsed command, are sequences of system calls whose
  execution would need a model of user machine code; \<^verbatim>\<open>umalloc.c\<close> manages the memory of such a program. Grading scripts and build rules run
  outside the system. The weak memory model of the hardware, timing, and the contents of the device registers beyond what a driver writes and reads are
  abstracted: memory is sequentially consistent, and a device is what its driver observes.
\<close>

end
